(* ===== verification/HB_Prelude.thy ===== *)
theory HB_Prelude
  imports Main "HOL-Library.Word"
begin

text \<open>
  Shared vocabulary of the development: the names of the machine types the kernel uses, the
  collections of simplification rules the component theories fill, and generic facts on lists,
  options and words that several components need.
\<close>

unbundle bit_operations_syntax

section \<open>Machine types\<close>

type_synonym u8 = "8 word"
type_synonym u16 = "16 word"
type_synonym u32 = "32 word"
type_synonym u64 = "64 word"

text \<open>
  A physical address that is only compared, offset and followed is a natural number; the null
  pointer is 0. Hostboot's memory lies well below 4GB (the lock-free containers depend on it), so
  no address computation of the modelled code wraps.
\<close>

type_synonym addr = nat

abbreviation (input) NULL :: addr where
  "NULL \<equiv> 0"

text \<open>\<open>include/limits.h\<close>: the size of a page.\<close>

definition PAGESIZE :: nat where
  "PAGESIZE = 4 * 1024"

text \<open>
  \<open>include/util/align.H\<close>: \<open>((u) + ((x)-1)) & ~((x)-1)\<close> for a power of two \<open>x\<close>, that is, \<open>u\<close> rounded
  up to a multiple of \<open>x\<close>.
\<close>

definition ALIGN_X :: "nat \<Rightarrow> nat \<Rightarrow> nat" where
  "ALIGN_X u x = (u + (x - 1)) div x * x"

definition ALIGN_PAGE :: "addr \<Rightarrow> addr" where
  "ALIGN_PAGE u = ALIGN_X u PAGESIZE"

lemma ALIGN_X_dvd [simp]: "x dvd ALIGN_X u x"
  by (simp add: ALIGN_X_def)

lemma ALIGN_X_ge: "0 < x \<Longrightarrow> u \<le> ALIGN_X u x"
proof -
  assume "0 < x"
  then have "u + (x - 1) < (u + (x - 1)) div x * x + x"
    by (metis add.commute dividend_less_div_times)
  then show ?thesis using \<open>0 < x\<close> by (simp add: ALIGN_X_def)
qed

lemma ALIGN_X_less: "0 < x \<Longrightarrow> ALIGN_X u x < u + x"
proof -
  assume "0 < x"
  have "(u + (x - 1)) div x * x \<le> u + (x - 1)" by simp
  with \<open>0 < x\<close> show ?thesis unfolding ALIGN_X_def by linarith
qed

lemma ALIGN_X_id: "0 < x \<Longrightarrow> x dvd u \<Longrightarrow> ALIGN_X u x = u"
proof -
  assume "0 < x" "x dvd u"
  then obtain k where u: "u = k * x" by (auto simp: dvd_def mult.commute)
  have "(k * x + (x - 1)) div x = k" using \<open>0 < x\<close> by (intro div_nat_eqI) (auto simp: mult.commute)
  then show ?thesis by (simp add: ALIGN_X_def u)
qed

lemma PAGESIZE_pos [simp]: "0 < PAGESIZE"
  by (simp add: PAGESIZE_def)

lemma PAGESIZE_neq_0 [simp]: "PAGESIZE \<noteq> 0"
  by (simp add: PAGESIZE_def)

text \<open>
  A failed \<open>kassert\<close> or \<open>crit_assert\<close> stops the machine: an operation that can fail returns a
  value of a sum type, with the failure on the left. So does an operation that would follow a null
  pointer, write through the links of a node that is in no list, or access an element behind the end
  of an array.
\<close>

datatype kerror = KAssert | CritAssert | NullDeref | WildWrite | OutOfBounds | TaskCrash

fun sbind :: "'e + 'a \<Rightarrow> ('a \<Rightarrow> 'e + 'b) \<Rightarrow> 'e + 'b" where
  "sbind (Inl e) f = Inl e"
| "sbind (Inr x) f = f x"

lemma sbind_Inr_iff: "sbind r f = Inr y \<longleftrightarrow> (\<exists>x. r = Inr x \<and> f x = Inr y)"
  by (cases r) auto

text \<open>The same for code that may also fail to return.\<close>

definition obind :: "(kerror + 'a) option \<Rightarrow> ('a \<Rightarrow> (kerror + 'b) option) \<Rightarrow> (kerror + 'b) option" where
  "obind r f = Option.bind r (\<lambda>x. case x of Inl e \<Rightarrow> Some (Inl e) | Inr y \<Rightarrow> f y)"

lemma obind_mono [partial_function_mono]:
  assumes "mono_option B" and "\<And>y. mono_option (\<lambda>f. C y f)"
  shows "mono_option (\<lambda>f. obind (B f) (\<lambda>y. C y f))"
  unfolding obind_def
proof (rule bind_mono [OF assms(1)])
  fix y
  show "mono_option (\<lambda>f. case y of Inl e \<Rightarrow> Some (Inl e) | Inr z \<Rightarrow> C z f)"
    using assms(2) by (cases y) (simp_all add: option.const_mono)
qed

lemma obind_simps [simp]: "obind (Some (Inr x)) f = f x" "obind (Some (Inl e)) f = Some (Inl e)"
  by (simp_all add: obind_def)

text \<open>Unsigned 64-bit subtraction of two values, which wraps when the first is the smaller.\<close>

definition sub64 :: "nat \<Rightarrow> nat \<Rightarrow> nat" where
  "sub64 a b = unat (of_nat a - of_nat b :: u64)"

lemma sub64_eq: "b \<le> a \<Longrightarrow> a < 2 ^ 64 \<Longrightarrow> sub64 a b = a - b"
proof -
  assume "b \<le> a" "a < 2 ^ 64"
  then have "(of_nat a - of_nat b :: u64) = of_nat (a - b)" by (simp add: of_nat_diff)
  moreover have "unat (of_nat (a - b) :: u64) = a - b"
    using less_imp_diff_less [OF \<open>a < 2 ^ 64\<close>, of b] by (simp add: unat_of_nat)
  ultimately show ?thesis by (simp add: sub64_def)
qed

section \<open>Collections of rules\<close>

named_theorems op_defs \<open>definitions of the modelled operations\<close>
named_theorems inv_defs \<open>definitions of invariants and representation predicates\<close>
named_theorems frame_simps \<open>what an operation leaves unchanged\<close>

section \<open>Lists\<close>

lemma last_in_set_iff [simp]: "xs \<noteq> [] \<Longrightarrow> last xs \<in> set xs"
  by simp

lemma distinct_butlast_last:
  "distinct xs \<Longrightarrow> xs \<noteq> [] \<Longrightarrow> last xs \<notin> set (butlast xs)"
  by (metis append_butlast_last_id distinct_append disjoint_iff list.set_intros(1))

lemma find_split:
  "List.find P xs = Some x \<Longrightarrow> \<exists>ys zs. xs = ys @ x # zs \<and> P x \<and> (\<forall>y\<in>set ys. \<not> P y)"
proof (induction xs)
  case (Cons a xs)
  show ?case
  proof (cases "P a")
    case True
    with Cons.prems have "a # xs = [] @ x # xs \<and> P x \<and> (\<forall>y\<in>set []. \<not> P y)" by simp
    then show ?thesis by blast
  next
    case False
    with Cons obtain ys zs where "xs = ys @ x # zs" "P x" "\<forall>y\<in>set ys. \<not> P y" by auto
    with False have "a # xs = (a # ys) @ x # zs \<and> P x \<and> (\<forall>y\<in>set (a # ys). \<not> P y)" by simp
    then show ?thesis by blast
  qed
qed simp

section \<open>Binary logarithm\<close>

text \<open>
  \<open>sizeof(size_t)*8 - 1 - __builtin_clzl(n)\<close>: the index of the highest set bit. The builtin is
  undefined at 0, and so is a use of this function there.
\<close>

fun top_bit :: "nat \<Rightarrow> nat" where
  "top_bit n = (if n \<le> 1 then 0 else Suc (top_bit (n div 2)))"

declare top_bit.simps [simp del]

lemma top_bit_le: "0 < n \<Longrightarrow> 2 ^ top_bit n \<le> n"
proof (induction n rule: top_bit.induct)
  case (1 n)
  show ?case
  proof (cases "n \<le> 1")
    case False
    with 1 have "2 ^ top_bit (n div 2) \<le> n div 2" by simp
    with False show ?thesis by (subst top_bit.simps) simp
  qed (use 1 in \<open>simp add: top_bit.simps\<close>)
qed

lemma top_bit_less: "n < 2 ^ Suc (top_bit n)"
proof (induction n rule: top_bit.induct)
  case (1 n)
  show ?case
  proof (cases "n \<le> 1")
    case False
    with 1 have "n div 2 < 2 ^ Suc (top_bit (n div 2))" by simp
    with False show ?thesis by (subst top_bit.simps) simp
  qed (simp add: top_bit.simps)
qed

lemma top_bit_bound: "0 < n \<Longrightarrow> n < 2 ^ k \<Longrightarrow> top_bit n < k"
  using top_bit_le [of n] by (metis le_less_trans power_less_imp_less_exp one_less_numeral_iff semiring_norm(76))

end
