(* ===== verification/Lockfree_Stack.thy ===== *)
theory Lockfree_Stack
  imports HB_Prelude
begin

text \<open>
  The lock-free stack of \<open>include/util/lockfree\<close>, on which the page manager keeps its free blocks.
  \<open>AbaPtr\<close> packs a 32-bit rolling counter above a 32-bit pointer; \<open>Stack\<close> keeps a packed head and
  marks the \<open>next\<close> word of every stored element with a token. The words are 64-bit words, so the
  packing and the counter's wrap-around are exact. The first part is the sequential code; the
  second is the interleaved execution of any number of threads, one atomic memory access per step.
\<close>

unbundle bit_operations_syntax

section \<open>AbaPtr\<close>

record abaptr =
  original :: u64
  ptr :: u64
  counter :: u32

definition aba_getPtr :: "u64 \<Rightarrow> u64" where
  "aba_getPtr w = w AND 0xFFFFFFFF"

definition aba_getCounter :: "u64 \<Rightarrow> u32" where
  "aba_getCounter w = ucast (drop_bit 32 w AND 0xFFFFFFFF)"

definition aba_make :: "u64 \<Rightarrow> abaptr" where
  "aba_make w = \<lparr>original = w, ptr = aba_getPtr w, counter = aba_getCounter w\<rparr>"

definition aba_set :: "u64 \<Rightarrow> abaptr \<Rightarrow> abaptr" where
  "aba_set p a = a\<lparr>ptr := aba_getPtr p, counter := counter a + 1\<rparr>"

definition aba_setCount :: "u32 \<Rightarrow> abaptr \<Rightarrow> abaptr" where
  "aba_setCount c a = a\<lparr>counter := c\<rparr>"

definition aba_getVal :: "abaptr \<Rightarrow> u64" where
  "aba_getVal a = push_bit 32 (ucast (counter a)) OR ptr a"

text \<open>\<open>update\<close>: compare-and-swap of a memory cell; the flag is its return value.\<close>

definition aba_update :: "abaptr \<Rightarrow> u64 \<Rightarrow> bool \<times> u64" where
  "aba_update a cell = (if cell = original a then (True, aba_getVal a) else (False, cell))"

section \<open>Stack, one thread at a time\<close>

text \<open>
  With no other thread, the compare-and-swap on \<open>head\<close> compares with the value just read, so the
  retries of \<open>pop\<close> and \<open>push\<close> never happen here; they are part of the interleaved model below.
\<close>

record lfstack =
  shead :: u64
  snext :: "u64 \<Rightarrow> u64"

definition TOKEN :: u32 where
  "TOKEN = 0x5354414B"

datatype stack_error = Corrupt

definition stack_init :: "(u64 \<Rightarrow> u64) \<Rightarrow> lfstack" where
  "stack_init m = \<lparr>shead = 0, snext = m\<rparr>"

definition stack_first :: "lfstack \<Rightarrow> u64" where
  "stack_first s = ptr (aba_make (shead s))"

definition stack_pop :: "lfstack \<Rightarrow> stack_error + (u64 \<times> lfstack)" where
  "stack_pop s =
     (let h = aba_make (shead s); orig = ptr h
      in if orig = 0 then Inr (0, s)
         else let n = aba_make (snext s orig); h1 = aba_set (ptr n) h;
                  (ok, v) = aba_update h1 (shead s)
              in if counter n \<noteq> TOKEN then Inl Corrupt
                 else Inr (orig, s\<lparr>shead := v\<rparr>))"

definition stack_push :: "u64 \<Rightarrow> lfstack \<Rightarrow> stack_error + lfstack" where
  "stack_push p s =
     (let h = aba_make (shead s);
          n = aba_setCount TOKEN (aba_set (ptr h) (aba_make (snext s p)));
          (ok, w) = aba_update n (snext s p);
          (ok', v) = aba_update (aba_set p h) (shead s)
      in if \<not> ok then Inl Corrupt
         else Inr (s\<lparr>snext := (snext s)(p := w), shead := v\<rparr>))"

section \<open>Stack, any number of threads\<close>

text \<open>
  The program counters are the points between the memory accesses of \<open>pop\<close> and \<open>push\<close>, with the
  local variables live there. Two ghost components record the abstract contents \<open>stk\<close>, changed by
  a successful compare-and-swap on \<open>head\<close> only, and the number \<open>gen\<close> of such swaps so far; a
  program counter keeps the \<open>gen\<close> at which it read \<open>head\<close>. No step of the code reads a ghost.
  Two things are assumed of the execution and stand in the guards: a node is pushed by one thread
  at a time and not while it is in the stack (the owner's obligation), and between a thread's read
  of \<open>head\<close> and its compare-and-swap fewer than \<open>2^32\<close> other swaps succeed (the probability argument
  of the source's comment). Memory of nodes that are neither stored nor being pushed belongs to its
  owner, who may write anything there at any time.
\<close>

datatype pc =
    Idle
  | PopHead u64 nat
  | PopNext u64 u64 nat
  | PushHead u64 u64 nat
  | PushNode u64 u64 u64 nat
  | PushLinked u64 u64 nat
  | Failed

record cstack =
  chead :: u64
  cnext :: "u64 \<Rightarrow> u64"
  pcs :: "nat \<Rightarrow> pc"
  stk :: "u64 list"
  gen :: nat

datatype label = Tau | PopNull | Popped u64 | Pushed u64

fun pushing :: "pc \<Rightarrow> u64 option" where
  "pushing (PushHead p h v) = Some p"
| "pushing (PushNode p h w v) = Some p"
| "pushing (PushLinked p h v) = Some p"
| "pushing _ = None"

definition set_pc :: "nat \<Rightarrow> pc \<Rightarrow> cstack \<Rightarrow> cstack" where
  "set_pc t c s = s\<lparr>pcs := (pcs s)(t := c)\<rparr>"

text \<open>The word \<open>push\<close> stores in the element's \<open>next\<close>, and the words stored in \<open>head\<close>.\<close>

definition link_word :: "u64 \<Rightarrow> u64 \<Rightarrow> u64" where
  "link_word h w = aba_getVal (aba_setCount TOKEN (aba_set (ptr (aba_make h)) (aba_make w)))"

definition head_word :: "u64 \<Rightarrow> u64 \<Rightarrow> u64" where
  "head_word h p = aba_getVal (aba_set p (aba_make h))"

inductive cstep :: "cstack \<Rightarrow> label \<Rightarrow> cstack \<Rightarrow> bool" where
  pop_null: "pcs s t = Idle \<Longrightarrow> aba_getPtr (chead s) = 0 \<Longrightarrow> cstep s PopNull s"
| pop_head: "pcs s t = Idle \<Longrightarrow> aba_getPtr (chead s) \<noteq> 0 \<Longrightarrow>
    cstep s Tau (set_pc t (PopHead (chead s) (gen s)) s)"
| pop_next: "pcs s t = PopHead h v \<Longrightarrow>
    cstep s Tau (set_pc t (PopNext h (cnext s (aba_getPtr h)) v) s)"
| pop_swap: "pcs s t = PopNext h n v \<Longrightarrow> chead s = h \<Longrightarrow> gen s - v < 2 ^ 32 \<Longrightarrow>
    cstep s (Popped (aba_getPtr h))
      (set_pc t (if aba_getCounter n = TOKEN then Idle else Failed)
        (s\<lparr>chead := head_word h (aba_getPtr n), stk := tl (stk s), gen := Suc (gen s)\<rparr>))"
| pop_retry: "pcs s t = PopNext h n v \<Longrightarrow> chead s \<noteq> h \<Longrightarrow> cstep s Tau (set_pc t Idle s)"
| push_head: "pcs s t = Idle \<Longrightarrow> p \<noteq> 0 \<Longrightarrow> aba_getPtr p = p \<Longrightarrow> p \<notin> set (stk s) \<Longrightarrow>
    \<forall>t'. pushing (pcs s t') \<noteq> Some p \<Longrightarrow>
    cstep s Tau (set_pc t (PushHead p (chead s) (gen s)) s)"
| push_node: "pcs s t = PushHead p h v \<Longrightarrow>
    cstep s Tau (set_pc t (PushNode p h (cnext s p) v) s)"
| push_link: "pcs s t = PushNode p h w v \<Longrightarrow>
    cstep s Tau
      (if cnext s p = w
       then set_pc t (PushLinked p h v) (s\<lparr>cnext := (cnext s)(p := link_word h w)\<rparr>)
       else set_pc t Failed s)"
| push_swap: "pcs s t = PushLinked p h v \<Longrightarrow> chead s = h \<Longrightarrow> gen s - v < 2 ^ 32 \<Longrightarrow>
    cstep s (Pushed p)
      (set_pc t Idle
        (s\<lparr>chead := head_word h p, stk := p # stk s, gen := Suc (gen s)\<rparr>))"
| push_retry: "pcs s t = PushLinked p h v \<Longrightarrow> chead s \<noteq> h \<Longrightarrow>
    cstep s Tau (set_pc t (PushHead p (chead s) (gen s)) s)"
| owner_write: "a \<notin> set (stk s) \<Longrightarrow> \<forall>t. pushing (pcs s t) \<noteq> Some a \<Longrightarrow>
    cstep s Tau (s\<lparr>cnext := (cnext s)(a := w)\<rparr>)"

inductive creach :: "cstack \<Rightarrow> bool" where
  cstart: "chead s = 0 \<Longrightarrow> stk s = [] \<Longrightarrow> gen s = 0 \<Longrightarrow> (\<And>t. pcs s t = Idle) \<Longrightarrow> creach s"
| cnext_state: "creach s \<Longrightarrow> cstep s l s' \<Longrightarrow> creach s'"

section \<open>Packing\<close>

lemma aba_getPtr_take_bit: "aba_getPtr w = take_bit 32 w"
  by (simp add: aba_getPtr_def take_bit_eq_mask mask_eq_exp_minus_1)

lemma aba_getCounter_drop_bit: "aba_getCounter w = ucast (drop_bit 32 w)"
proof -
  have "drop_bit 32 w AND 0xFFFFFFFF = take_bit 32 (drop_bit 32 w)"
    by (simp add: take_bit_eq_mask mask_eq_exp_minus_1)
  then show ?thesis by (intro bit_word_eqI) (simp add: aba_getCounter_def bit_simps)
qed

lemma aba_getPtr_idem [simp]: "aba_getPtr (aba_getPtr w) = aba_getPtr w"
  by (simp add: aba_getPtr_take_bit)

lemma aba_getPtr_0 [simp]: "aba_getPtr 0 = 0"
  by (simp add: aba_getPtr_def)

lemma aba_getVal_make: "aba_getVal (aba_make w) = w"
  by (rule bit_word_eqI)
    (auto simp: aba_getVal_def aba_make_def aba_getPtr_take_bit aba_getCounter_drop_bit bit_simps)

lemma aba_getPtr_getVal: "aba_getPtr (aba_getVal a) = aba_getPtr (ptr a)"
  by (rule bit_word_eqI) (auto simp: aba_getVal_def aba_getPtr_take_bit bit_simps)

lemma aba_getCounter_getVal:
  "aba_getPtr (ptr a) = ptr a \<Longrightarrow> aba_getCounter (aba_getVal a) = counter a"
proof -
  assume "aba_getPtr (ptr a) = ptr a"
  then have "\<not> bit (ptr a) (n + 32)" for n
    by (metis aba_getPtr_take_bit bit_take_bit_iff not_add_less2)
  then show ?thesis
    by (intro bit_word_eqI)
      (auto simp: aba_getVal_def aba_getCounter_drop_bit bit_simps add.commute)
qed

lemma aba_fields [simp]:
  "ptr (aba_make w) = aba_getPtr w" "original (aba_make w) = w"
  "counter (aba_make w) = aba_getCounter w"
  "ptr (aba_set p a) = aba_getPtr p" "original (aba_set p a) = original a"
  "counter (aba_set p a) = counter a + 1"
  "ptr (aba_setCount c a) = ptr a" "original (aba_setCount c a) = original a"
  "counter (aba_setCount c a) = c"
  by (simp_all add: aba_make_def aba_set_def aba_setCount_def)

lemma head_word_parts [simp]:
  "aba_getPtr (head_word h p) = aba_getPtr p"
  "aba_getCounter (head_word h p) = aba_getCounter h + 1"
  by (simp_all add: head_word_def aba_getPtr_getVal aba_getCounter_getVal)

lemma link_word_parts [simp]:
  "aba_getPtr (link_word h w) = aba_getPtr h"
  "aba_getCounter (link_word h w) = TOKEN"
  by (simp_all add: link_word_def aba_getPtr_getVal aba_getCounter_getVal)

section \<open>The sequential stack is a list\<close>

fun chain :: "(u64 \<Rightarrow> u64) \<Rightarrow> u64 \<Rightarrow> u64 list \<Rightarrow> bool" where
  "chain m p [] \<longleftrightarrow> p = 0"
| "chain m p (x # xs) \<longleftrightarrow> p = x \<and> x \<noteq> 0 \<and> aba_getPtr x = x \<and> aba_getCounter (m x) = TOKEN
     \<and> x \<notin> set xs \<and> chain m (aba_getPtr (m x)) xs"

definition stack_rep :: "lfstack \<Rightarrow> u64 list \<Rightarrow> bool" where
  "stack_rep s xs \<longleftrightarrow> chain (snext s) (aba_getPtr (shead s)) xs"

lemma chain_frame [frame_simps, simp]: "a \<notin> set xs \<Longrightarrow> chain (m(a := w)) p xs = chain m p xs"
  by (induction xs arbitrary: p) auto

lemma chain_nonzero: "chain m p xs \<Longrightarrow> x \<in> set xs \<Longrightarrow> x \<noteq> 0"
  by (induction xs arbitrary: p) auto

lemma stack_push_rep:
  assumes "stack_rep s xs" "p \<noteq> 0" "aba_getPtr p = p" "p \<notin> set xs"
  shows "\<exists>s'. stack_push p s = Inr s' \<and> stack_rep s' (p # xs)"
proof -
  have "stack_push p s = Inr (s\<lparr>snext := (snext s)(p := link_word (shead s) (snext s p)),
      shead := head_word (shead s) p\<rparr>)"
    by (simp add: stack_push_def aba_update_def link_word_def head_word_def Let_def)
  with assms show ?thesis by (simp add: stack_rep_def)
qed

lemma stack_pop_rep:
  assumes "stack_rep s (p # xs)"
  shows "\<exists>s'. stack_pop s = Inr (p, s') \<and> stack_rep s' xs"
proof -
  have "stack_pop s = Inr (p, s\<lparr>shead := head_word (shead s) (aba_getPtr (snext s p))\<rparr>)"
    using assms by (auto simp: stack_pop_def aba_update_def head_word_def stack_rep_def Let_def)
  with assms show ?thesis by (simp add: stack_rep_def)
qed

lemma stack_pop_empty: "stack_rep s [] \<Longrightarrow> stack_pop s = Inr (0, s)"
  by (simp add: stack_pop_def stack_rep_def Let_def)

lemma stack_init_rep: "stack_rep (stack_init m) []"
  by (simp add: stack_rep_def stack_init_def)

text \<open>What the clients of a last-in first-out container rely on.\<close>

primrec push_all :: "('e \<Rightarrow> 's \<Rightarrow> 'x + 's) \<Rightarrow> 'e list \<Rightarrow> 's \<Rightarrow> 'x + 's" where
  "push_all psh [] s = Inr s"
| "push_all psh (x # xs) s = (case psh x s of Inl e \<Rightarrow> Inl e | Inr s' \<Rightarrow> push_all psh xs s')"

primrec pop_n :: "('s \<Rightarrow> 'x + 'e \<times> 's) \<Rightarrow> nat \<Rightarrow> 's \<Rightarrow> 'x + 'e list \<times> 's" where
  "pop_n pp 0 s = Inr ([], s)"
| "pop_n pp (Suc n) s = (case pp s of Inl e \<Rightarrow> Inl e
     | Inr (x, s') \<Rightarrow> (case pop_n pp n s' of Inl e \<Rightarrow> Inl e | Inr (xs, s'') \<Rightarrow> Inr (x # xs, s'')))"

locale lifo =
  fixes nil :: 'e
    and psh :: "'e \<Rightarrow> 's \<Rightarrow> 'x + 's"
    and pp :: "'s \<Rightarrow> 'x + 'e \<times> 's"
    and ok :: "'e \<Rightarrow> bool"
    and rep :: "'s \<Rightarrow> 'e list \<Rightarrow> bool"
  assumes psh_rep: "rep s xs \<Longrightarrow> ok x \<Longrightarrow> x \<notin> set xs \<Longrightarrow> \<exists>s'. psh x s = Inr s' \<and> rep s' (x # xs)"
    and pp_rep: "rep s (x # xs) \<Longrightarrow> \<exists>s'. pp s = Inr (x, s') \<and> rep s' xs"
    and pp_nil: "rep s [] \<Longrightarrow> pp s = Inr (nil, s)"
begin

lemma push_all_rep:
  "rep s ys \<Longrightarrow> distinct (xs @ ys) \<Longrightarrow> list_all ok xs \<Longrightarrow>
     \<exists>s'. push_all psh xs s = Inr s' \<and> rep s' (rev xs @ ys)"
proof (induction xs arbitrary: s ys)
  case (Cons x xs)
  then obtain s1 where "psh x s = Inr s1" "rep s1 (x # ys)" using psh_rep [of s ys x] by auto
  with Cons.IH [of s1 "x # ys"] Cons.prems show ?case by auto
qed simp

lemma pop_n_rep:
  "rep s (xs @ ys) \<Longrightarrow> \<exists>s'. pop_n pp (length xs) s = Inr (xs, s') \<and> rep s' ys"
proof (induction xs arbitrary: s)
  case (Cons x xs)
  then obtain s1 where "pp s = Inr (x, s1)" "rep s1 (xs @ ys)" using pp_rep [of s x "xs @ ys"] by auto
  with Cons.IH [of s1] show ?case by auto
qed simp

lemma last_in_first_out:
  assumes "rep s []" "distinct xs" "list_all ok xs"
  shows "\<exists>s1 s2. push_all psh xs s = Inr s1 \<and> pop_n pp (length xs) s1 = Inr (rev xs, s2)
    \<and> pp s2 = Inr (nil, s2)"
proof -
  from push_all_rep [OF assms(1), of xs] assms obtain s1 where
    "push_all psh xs s = Inr s1" "rep s1 (rev xs @ [])" by auto
  with pop_n_rep [of s1 "rev xs" "[]"] show ?thesis by (auto dest: pp_nil)
qed

end

definition stackable :: "u64 \<Rightarrow> bool" where
  "stackable p \<longleftrightarrow> p \<noteq> 0 \<and> aba_getPtr p = p"

interpretation stack_lifo: lifo 0 stack_push stack_pop stackable stack_rep
  by unfold_locales (auto simp: stackable_def stack_push_rep stack_pop_rep stack_pop_empty)

section \<open>The interleaved stack\<close>

lemma same_generation:
  assumes "v \<le> g" "g - v < 2 ^ 32" "(of_nat v :: u32) = of_nat g"
  shows "v = g"
proof -
  from assms(1,3) have "(of_nat (g - v) :: u32) = 0" by (simp add: of_nat_diff)
  then have "unat (of_nat (g - v) :: u32) = 0" by simp
  with assms(2) have "g - v = 0" by (simp add: unat_of_nat)
  with assms(1) show ?thesis by simp
qed

definition fresh_head :: "cstack \<Rightarrow> u64 \<Rightarrow> nat \<Rightarrow> bool" where
  "fresh_head s h v \<longleftrightarrow> v \<le> gen s \<and> aba_getCounter h = of_nat v \<and> (v = gen s \<longrightarrow> chead s = h)"

definition owned :: "cstack \<Rightarrow> u64 \<Rightarrow> bool" where
  "owned s p \<longleftrightarrow> p \<noteq> 0 \<and> aba_getPtr p = p \<and> p \<notin> set (stk s)"

fun pc_ok :: "cstack \<Rightarrow> pc \<Rightarrow> bool" where
  "pc_ok s Idle \<longleftrightarrow> True"
| "pc_ok s (PopHead h v) \<longleftrightarrow> fresh_head s h v \<and> aba_getPtr h \<noteq> 0"
| "pc_ok s (PopNext h n v) \<longleftrightarrow> fresh_head s h v \<and> aba_getPtr h \<noteq> 0
     \<and> (v = gen s \<longrightarrow> n = cnext s (aba_getPtr h))"
| "pc_ok s (PushHead p h v) \<longleftrightarrow> fresh_head s h v \<and> owned s p"
| "pc_ok s (PushNode p h w v) \<longleftrightarrow> fresh_head s h v \<and> owned s p \<and> cnext s p = w"
| "pc_ok s (PushLinked p h v) \<longleftrightarrow> fresh_head s h v \<and> owned s p
     \<and> aba_getPtr (cnext s p) = aba_getPtr h \<and> aba_getCounter (cnext s p) = TOKEN"
| "pc_ok s Failed \<longleftrightarrow> False"

definition cinv :: "cstack \<Rightarrow> bool" where
  "cinv s \<longleftrightarrow> chain (cnext s) (aba_getPtr (chead s)) (stk s)
     \<and> aba_getCounter (chead s) = of_nat (gen s)
     \<and> (\<forall>t. pc_ok s (pcs s t))
     \<and> (\<forall>t t' p. t \<noteq> t' \<longrightarrow> pushing (pcs s t) = Some p \<longrightarrow> pushing (pcs s t') \<noteq> Some p)"

lemma set_pc_fields [simp]:
  "chead (set_pc t c s) = chead s" "cnext (set_pc t c s) = cnext s" "stk (set_pc t c s) = stk s"
  "gen (set_pc t c s) = gen s" "pcs (set_pc t c s) = (pcs s)(t := c)"
  by (simp_all add: set_pc_def)

lemma pc_ok_set_pc [simp]: "pc_ok (set_pc t c s) d = pc_ok s d"
  by (cases d) (auto simp: fresh_head_def owned_def)

lemma cinvI_set_pc:
  assumes "cinv s" "pc_ok s c"
    and "\<And>p. pushing c = Some p \<Longrightarrow> pushing (pcs s t) = Some p \<or> (\<forall>t'. pushing (pcs s t') \<noteq> Some p)"
  shows "cinv (set_pc t c s)"
  using assms unfolding cinv_def by (auto split: if_splits)

lemma pc_ok_owner_write:
  assumes "pc_ok s c" "chain (cnext s) (aba_getPtr (chead s)) (stk s)"
    and "a \<notin> set (stk s)" "pushing c \<noteq> Some a"
  shows "pc_ok (s\<lparr>cnext := (cnext s)(a := w)\<rparr>) c"
proof -
  have "aba_getPtr (chead s) \<noteq> a" if "aba_getPtr (chead s) \<noteq> 0"
    using assms(2,3) that by (cases "stk s") auto
  then show ?thesis using assms(1,4) by (cases c) (auto simp: fresh_head_def owned_def)
qed

lemma pc_ok_swap:
  assumes "pc_ok s c" "\<And>p. pushing c = Some p \<Longrightarrow> p \<notin> set ys"
  shows "pc_ok (s\<lparr>chead := x, stk := ys, gen := Suc (gen s)\<rparr>) c"
  using assms by (cases c) (auto simp: fresh_head_def owned_def)

lemma cinv_owner_write:
  assumes "cinv s" "a \<notin> set (stk s)" "\<And>t. pushing (pcs s t) \<noteq> Some a"
  shows "cinv (s\<lparr>cnext := (cnext s)(a := w)\<rparr>)"
  using assms by (simp add: cinv_def pc_ok_owner_write)

lemma cinv_swap:
  assumes inv: "cinv s"
    and ch: "chain (cnext s) (aba_getPtr p) ys"
    and own: "\<And>t' q. t' \<noteq> t \<Longrightarrow> pushing (pcs s t') = Some q \<Longrightarrow> q \<notin> set ys"
  shows "cinv (set_pc t Idle (s\<lparr>chead := head_word (chead s) p, stk := ys, gen := Suc (gen s)\<rparr>))"
proof -
  let ?s = "s\<lparr>chead := head_word (chead s) p, stk := ys, gen := Suc (gen s)\<rparr>"
  have "pc_ok ?s (((pcs s)(t := Idle)) t')" for t'
  proof (cases "t' = t")
    case False
    with inv own show ?thesis by (auto simp: cinv_def intro: pc_ok_swap)
  qed simp
  with inv ch show ?thesis by (auto simp: cinv_def split: if_splits)
qed

lemma cinv_pop_swap:
  assumes inv: "cinv s" and pc: "pcs s t = PopNext h n v"
    and cas: "chead s = h" "gen s - v < 2 ^ 32"
  shows "stk s = aba_getPtr h # tl (stk s)" and "aba_getCounter n = TOKEN"
    and "cinv (set_pc t Idle (s\<lparr>chead := head_word h (aba_getPtr n), stk := tl (stk s), gen := Suc (gen s)\<rparr>))"
proof -
  have ok: "fresh_head s h v" "aba_getPtr h \<noteq> 0" "v = gen s \<longrightarrow> n = cnext s (aba_getPtr h)"
    using inv pc by (auto simp: cinv_def dest: spec [of _ t])
  have "aba_getCounter h = of_nat (gen s)" using inv cas by (simp add: cinv_def)
  with ok(1) cas(2) have "v = gen s" by (auto simp: fresh_head_def intro: same_generation)
  with ok(3) have n: "n = cnext s (aba_getPtr h)" by simp
  have ch: "chain (cnext s) (aba_getPtr h) (stk s)" using inv cas by (simp add: cinv_def)
  with ok(2) obtain xs where xs: "stk s = aba_getPtr h # xs" by (cases "stk s") auto
  with ch n show "stk s = aba_getPtr h # tl (stk s)" and "aba_getCounter n = TOKEN" by auto
  have own: "q \<notin> set xs" if "pushing (pcs s t') = Some q" for t' q
  proof -
    have "pc_ok s (pcs s t')" using inv by (simp add: cinv_def)
    with that xs show ?thesis by (cases "pcs s t'") (auto simp: owned_def)
  qed
  show "cinv (set_pc t Idle (s\<lparr>chead := head_word h (aba_getPtr n), stk := tl (stk s), gen := Suc (gen s)\<rparr>))"
    using cinv_swap [OF inv, of "aba_getPtr n" "tl (stk s)" t] ch own xs n cas by simp
qed

lemma cinv_push_swap:
  assumes inv: "cinv s" and pc: "pcs s t = PushLinked p h v"
    and cas: "chead s = h" "gen s - v < 2 ^ 32"
  shows "cinv (set_pc t Idle (s\<lparr>chead := head_word h p, stk := p # stk s, gen := Suc (gen s)\<rparr>))"
proof -
  have "pc_ok s (PushLinked p h v)" using inv pc by (auto simp: cinv_def dest: spec [of _ t])
  then have ok: "owned s p" "aba_getPtr (cnext s p) = aba_getPtr h" "aba_getCounter (cnext s p) = TOKEN"
    by auto
  with inv cas have ch: "chain (cnext s) (aba_getPtr p) (p # stk s)"
    by (auto simp: cinv_def owned_def)
  have own: "q \<notin> set (p # stk s)" if "t' \<noteq> t" "pushing (pcs s t') = Some q" for t' q
  proof -
    have "pc_ok s (pcs s t')" using inv by (simp add: cinv_def)
    then have "q \<notin> set (stk s)" using that by (cases "pcs s t'") (auto simp: owned_def)
    moreover have "q \<noteq> p"
      using inv that pc unfolding cinv_def by (metis pushing.simps(3))
    ultimately show ?thesis by simp
  qed
  show ?thesis using cinv_swap [OF inv ch own] cas by simp
qed

lemma cinv_push_link:
  assumes inv: "cinv s" and pc: "pcs s t = PushNode p h w v"
  shows "cnext s p = w"
    and "cinv (set_pc t (PushLinked p h v) (s\<lparr>cnext := (cnext s)(p := link_word h w)\<rparr>))"
proof -
  let ?s = "s\<lparr>cnext := (cnext s)(p := link_word h w)\<rparr>"
  have "pc_ok s (PushNode p h w v)" using inv pc by (auto simp: cinv_def dest: spec [of _ t])
  then have ok: "fresh_head s h v" "owned s p" "cnext s p = w" by auto
  then show "cnext s p = w" by simp
  have oth: "pushing (pcs s t') \<noteq> Some p" if "t' \<noteq> t" for t'
    using inv that pc unfolding cinv_def by (metis pushing.simps(2))
  have ch: "chain (cnext s) (aba_getPtr (chead s)) (stk s)" using inv by (simp add: cinv_def)
  have "pc_ok ?s (((pcs s)(t := PushLinked p h v)) t')" for t'
  proof (cases "t' = t")
    case True
    with ok show ?thesis by (simp add: fresh_head_def owned_def)
  next
    case False
    with inv oth ch ok show ?thesis
      by (auto simp: cinv_def owned_def intro!: pc_ok_owner_write)
  qed
  with inv ok oth ch show "cinv (set_pc t (PushLinked p h v) ?s)"
    by (auto simp: cinv_def owned_def)
qed

lemma cstep_cinv: "cstep s l s' \<Longrightarrow> cinv s \<Longrightarrow> cinv s'"
proof (induction rule: cstep.induct)
  case (pop_head s t)
  then show ?case
    by (intro cinvI_set_pc) (auto simp: cinv_def fresh_head_def)
next
  case (pop_next s t h v)
  then have "pc_ok s (PopHead h v)" by (auto simp: cinv_def dest: spec [of _ t])
  with pop_next show ?case by (intro cinvI_set_pc) auto
next
  case (pop_swap s t h n v)
  then show ?case using cinv_pop_swap by simp
next
  case (push_head s t p)
  then show ?case
    by (intro cinvI_set_pc) (auto simp: cinv_def fresh_head_def owned_def)
next
  case (push_node s t p h v)
  then have "pc_ok s (PushHead p h v)" by (auto simp: cinv_def dest: spec [of _ t])
  with push_node show ?case by (intro cinvI_set_pc) auto
next
  case (push_link s t p h w v)
  then show ?case using cinv_push_link by simp
next
  case (push_swap s t p h v)
  then show ?case by (intro cinv_push_swap) auto
next
  case (push_retry s t p h v)
  then have "pc_ok s (PushLinked p h v)" by (auto simp: cinv_def dest: spec [of _ t])
  with push_retry show ?case
    by (intro cinvI_set_pc) (auto simp: cinv_def fresh_head_def)
next
  case (owner_write a s w)
  then show ?case by (intro cinv_owner_write) auto
qed (auto intro: cinvI_set_pc)

lemma creach_cinv: "creach s \<Longrightarrow> cinv s"
proof (induction rule: creach.induct)
  case (cstart s)
  then show ?case by (simp add: cinv_def aba_getCounter_def)
next
  case (cnext_state s l s')
  then show ?case by (blast intro: cstep_cinv)
qed

fun abs_step :: "u64 list \<Rightarrow> label \<Rightarrow> u64 list \<Rightarrow> bool" where
  "abs_step xs Tau ys \<longleftrightarrow> ys = xs"
| "abs_step xs PopNull ys \<longleftrightarrow> xs = [] \<and> ys = []"
| "abs_step xs (Popped p) ys \<longleftrightarrow> xs = p # ys"
| "abs_step xs (Pushed p) ys \<longleftrightarrow> p \<notin> set xs \<and> ys = p # xs"

lemma cstep_abs:
  assumes inv: "cinv s" and st: "cstep s l s'"
  shows "abs_step (stk s) l (stk s')"
  using st inv
proof (induction rule: cstep.induct)
  case (pop_null s t)
  then show ?case by (cases "stk s") (auto simp: cinv_def)
next
  case (pop_swap s t h n v)
  then show ?case using cinv_pop_swap(1) [of s t h n v] by simp
next
  case (push_swap s t p h v)
  then have "pc_ok s (PushLinked p h v)" by (auto simp: cinv_def dest: spec [of _ t])
  then show ?case by (simp add: owned_def)
qed auto

section \<open>Properties\<close>

text \<open>C18. However any number of threads interleave their pops and pushes, the contents of the stack in
  memory are always a list, every step either leaves the list alone or takes exactly its first
  element or puts a new one in front, a pop reports an empty stack only when it is empty, and no
  corruption assertion fires.\<close>

theorem lockfree_stack_linearizable:
  assumes "creach s" and "cstep s l s'"
  shows "abs_step (stk s) l (stk s') \<and> chain (cnext s') (aba_getPtr (chead s')) (stk s')
    \<and> (\<forall>t. pcs s' t \<noteq> Failed)"
proof -
  have inv: "cinv s" using assms(1) by (rule creach_cinv)
  with assms(2) have inv': "cinv s'" by (rule cstep_cinv)
  have "pcs s' t \<noteq> Failed" for t
  proof
    assume "pcs s' t = Failed"
    with inv' have "pc_ok s' Failed" unfolding cinv_def by metis
    then show False by simp
  qed
  with cstep_abs [OF inv assms(2)] inv' show ?thesis by (simp add: cinv_def)
qed

theorem lockfree_stack_linearizable_witness:
  "let s0 = \<lparr>chead = 0, cnext = \<lambda>_. 7, pcs = \<lambda>_. Idle, stk = [], gen = 0\<rparr>;
       s3 = set_pc 1 (PushLinked 16 0 0) (s0\<lparr>cnext := (\<lambda>_. 7)(16 := link_word 0 7)\<rparr>);
       s4 = set_pc 1 Idle (s3\<lparr>chead := head_word 0 16, stk := [16], gen := 1\<rparr>)
   in abs_step (stk s3) (Pushed 16) (stk s4) \<and> chain (cnext s4) (aba_getPtr (chead s4)) (stk s4)"
proof -
  let ?s0 = "\<lparr>chead = 0, cnext = \<lambda>_. 7, pcs = \<lambda>_. Idle, stk = [], gen = 0\<rparr>"
  let ?s3 = "set_pc 1 (PushLinked 16 0 0) (?s0\<lparr>cnext := (\<lambda>_. 7)(16 := link_word 0 7)\<rparr>)"
  let ?s4 = "set_pc 1 Idle (?s3\<lparr>chead := head_word 0 16, stk := [16], gen := 1\<rparr>)"
  let ?s1 = "set_pc 1 (PushHead 16 0 0) ?s0" and ?s2 = "set_pc 1 (PushNode 16 0 7 0) ?s0"
  have r0: "creach ?s0" by (rule cstart) auto
  have "cstep ?s0 Tau ?s1" using push_head [of ?s0 1 16] by (simp add: aba_getPtr_def)
  with r0 have r1: "creach ?s1" by (rule cnext_state)
  have "cstep ?s1 Tau ?s2" using push_node [of ?s1 1 16 0 0] by (simp add: set_pc_def)
  with r1 have r2: "creach ?s2" by (rule cnext_state)
  have "cstep ?s2 Tau ?s3" using push_link [of ?s2 1 16 0 7 0] by (simp add: set_pc_def)
  with r2 have r3: "creach ?s3" by (rule cnext_state)
  have "cstep ?s3 (Pushed 16) ?s4" using push_swap [of ?s3 1 16 0 0] by (simp add: set_pc_def)
  from lockfree_stack_linearizable [OF r3 this] show ?thesis by simp
qed

text \<open>Used by one thread, the stack is last-in first-out: pushed elements pop in reverse order, then
  the stack is empty, and the token check never fails.\<close>

theorem stack_last_in_first_out:
  assumes "distinct xs" and "list_all stackable xs"
  shows "\<exists>s1 s2. push_all stack_push xs (stack_init m) = Inr s1
    \<and> pop_n stack_pop (length xs) s1 = Inr (rev xs, s2) \<and> stack_pop s2 = Inr (0, s2)"
  using stack_lifo.last_in_first_out [OF stack_init_rep assms] .

theorem stack_last_in_first_out_witness:
  "\<exists>s1 s2. push_all stack_push [16, 32, 48] (stack_init (\<lambda>_. 0)) = Inr s1
    \<and> pop_n stack_pop 3 s1 = Inr ([48, 32, 16], s2) \<and> stack_pop s2 = Inr (0, s2)"
  using stack_last_in_first_out [of "[16, 32, 48]" "\<lambda>_. 0"]
  by (simp add: stackable_def aba_getPtr_def numeral_3_eq_3)

text \<open>Packing and unpacking a counted pointer lose nothing, and replacing the pointer part of a packed
  word advances its counter by one, modulo \<open>2^32\<close>, whatever the word was.\<close>

theorem abaptr_round_trip:
  "aba_getVal (aba_make w) = w
    \<and> aba_getPtr (aba_getVal (aba_set p (aba_make w))) = aba_getPtr p
    \<and> aba_getCounter (aba_getVal (aba_set p (aba_make w))) = aba_getCounter w + 1"
  by (simp add: aba_getVal_make aba_getPtr_getVal aba_getCounter_getVal)

end
