(* ===== verification/Intrusive_List.thy ===== *)
theory Intrusive_List
  imports HB_Prelude "HOL-Library.Multiset"
begin

text \<open>
  The intrusive containers of \<open>include/util/locked\<close>: \<open>Queue\<close>, \<open>List\<close> and \<open>PQueue\<close>. The
  elements carry their own \<open>next\<close> and \<open>prev\<close> pointers (and a \<open>key\<close>), so the model is a memory
  of nodes and a container header holding \<open>head\<close> and \<open>tail\<close>. The operations are the pointer
  assignments of the source in their order. Two representation predicates relate a header to the
  list of its elements from \<open>head\<close> to \<open>tail\<close>: \<open>list_rep\<close>, in which both chains are intact and
  terminated, and the weaker \<open>queue_rep\<close>, in which only the \<open>prev\<close> chain is.
\<close>

section \<open>Nodes and headers\<close>

record 'k node =
  nxt :: addr
  prv :: addr
  key :: 'k

type_synonym 'k mem = "addr \<Rightarrow> 'k node"

record hdr =
  head :: addr
  tail :: addr

record queue = hdr +
  qcount :: u64

definition set_nxt :: "addr \<Rightarrow> addr \<Rightarrow> 'k mem \<Rightarrow> 'k mem" where
  "set_nxt a v m = m(a := (m a)\<lparr>nxt := v\<rparr>)"

definition set_prv :: "addr \<Rightarrow> addr \<Rightarrow> 'k mem \<Rightarrow> 'k mem" where
  "set_prv a v m = m(a := (m a)\<lparr>prv := v\<rparr>)"

section \<open>Operations\<close>

subsection \<open>Queue\<close>

definition queue_init :: queue where
  "queue_init = \<lparr>head = NULL, tail = NULL, qcount = 0\<rparr>"

definition queue_remove :: "'k mem \<times> queue \<Rightarrow> addr \<times> 'k mem \<times> queue" where
  "queue_remove s = (case s of (m, q) \<Rightarrow>
     if tail q \<noteq> NULL then
       let item = tail q;
           q1 = (if head q = tail q then q\<lparr>head := NULL, tail := NULL\<rparr>
                 else q\<lparr>tail := prv (m item)\<rparr>)
       in (item, m, q1\<lparr>qcount := qcount q1 - 1\<rparr>)
     else (NULL, m, q))"

definition queue_insert :: "addr \<Rightarrow> 'k mem \<times> queue \<Rightarrow> 'k mem \<times> queue" where
  "queue_insert item s = (case s of (m, q) \<Rightarrow>
     let (m1, q1) =
       (if head q = NULL then
          (set_nxt item NULL (set_prv item NULL m), q\<lparr>head := item, tail := item\<rparr>)
        else
          (set_prv (head q) item (set_nxt item (head q) (set_prv item NULL m)),
           q\<lparr>head := item\<rparr>))
     in (m1, q1\<lparr>qcount := qcount q1 + 1\<rparr>))"

definition queue_size :: "queue \<Rightarrow> u64" where
  "queue_size q = qcount q"

subsection \<open>List\<close>

definition list_init :: hdr where
  "list_init = \<lparr>head = NULL, tail = NULL\<rparr>"

definition list_remove :: "'k mem \<times> hdr \<Rightarrow> addr \<times> 'k mem \<times> hdr" where
  "list_remove s = (case s of (m, q) \<Rightarrow>
     if tail q \<noteq> NULL then
       let item = tail q
       in (item, m,
           if head q = tail q then q\<lparr>head := NULL, tail := NULL\<rparr>
           else q\<lparr>tail := prv (m item)\<rparr>)
     else (NULL, m, q))"

definition list_insert :: "addr \<Rightarrow> 'k mem \<times> hdr \<Rightarrow> 'k mem \<times> hdr" where
  "list_insert item s = (case s of (m, q) \<Rightarrow>
     if head q = NULL then
       (set_nxt item NULL (set_prv item NULL m), q\<lparr>head := item, tail := item\<rparr>)
     else
       (set_prv (head q) item (set_nxt item (head q) (set_prv item NULL m)),
        q\<lparr>head := item\<rparr>))"

definition list_erase :: "addr \<Rightarrow> 'k mem \<times> hdr \<Rightarrow> 'k mem \<times> hdr" where
  "list_erase nd s = (case s of (m, q) \<Rightarrow>
     let (m1, q1) = (if nd = head q then (m, q\<lparr>head := nxt (m nd)\<rparr>)
                     else (set_nxt (prv (m nd)) (nxt (m nd)) m, q))
     in if nd = tail q1 then (m1, q1\<lparr>tail := prv (m1 nd)\<rparr>)
        else (set_prv (nxt (m1 nd)) (prv (m1 nd)) m1, q1))"

text \<open>The search loop shared by \<open>find\<close> and \<open>erase(key)\<close>; \<open>None\<close> would be a loop that never ends.\<close>

partial_function (option) list_walk :: "'k mem \<Rightarrow> 'k \<Rightarrow> addr \<Rightarrow> addr option" where
  "list_walk m k nd =
     (if nd \<noteq> NULL \<and> key (m nd) \<noteq> k then list_walk m k (nxt (m nd)) else Some nd)"

definition list_find :: "'k \<Rightarrow> 'k mem \<times> hdr \<Rightarrow> addr option" where
  "list_find k s = (case s of (m, q) \<Rightarrow> list_walk m k (head q))"

definition list_erase_key :: "'k \<Rightarrow> 'k mem \<times> hdr \<Rightarrow> (addr \<times> 'k mem \<times> hdr) option" where
  "list_erase_key k s = (case s of (m, q) \<Rightarrow>
     (case list_walk m k (head q) of
        None \<Rightarrow> None
      | Some nd \<Rightarrow>
          if nd \<noteq> NULL then
            (let (m1, q1) = (if nd = head q then (m, q\<lparr>head := nxt (m nd)\<rparr>)
                             else (set_nxt (prv (m nd)) (nxt (m nd)) m, q));
                 (m2, q2) = (if nd = tail q1 then (m1, q1\<lparr>tail := prv (m1 nd)\<rparr>)
                             else (set_prv (nxt (m1 nd)) (prv (m1 nd)) m1, q1))
             in Some (nd, m2, q2))
          else Some (nd, m, q)))"

definition list_empty :: "hdr \<Rightarrow> bool" where
  "list_empty q \<longleftrightarrow> head q = NULL"

definition list_begin :: "hdr \<Rightarrow> addr" where
  "list_begin q = head q"

subsection \<open>PQueue\<close>

definition bubble_swap :: "addr \<Rightarrow> 'k mem \<times> queue \<Rightarrow> 'k mem \<times> queue" where
  "bubble_swap item s = (case s of (m, q) \<Rightarrow>
     let q1 = (if head q = item then q\<lparr>head := nxt (m item)\<rparr> else q);
         q2 = (if tail q1 = nxt (m item) then q1\<lparr>tail := item\<rparr> else q1);
         temp = nxt (m item);
         m1 = (if nxt (m temp) \<noteq> NULL then
                 (let m0 = set_prv (nxt (m temp)) item m
                  in set_nxt item (nxt (m0 (nxt (m0 item)))) m0)
               else set_nxt item NULL m);
         m2 = (if prv (m1 item) \<noteq> NULL then
                 (let m0 = set_nxt (prv (m1 item)) temp m1
                  in set_prv temp (prv (m0 item)) m0)
               else set_prv temp NULL m1)
     in (set_prv item temp (set_nxt temp item m2), q2))"

partial_function (option) bubbleUp ::
  "addr \<Rightarrow> ('k::linorder) mem \<times> queue \<Rightarrow> ('k mem \<times> queue) option" where
  "bubbleUp item s =
     (if nxt (fst s item) = NULL then Some s
      else if key (fst s (nxt (fst s item))) \<le> key (fst s item) then Some s
      else bubbleUp item (bubble_swap item s))"

definition pqueue_insert ::
  "addr \<Rightarrow> ('k::linorder) mem \<times> queue \<Rightarrow> ('k mem \<times> queue) option" where
  "pqueue_insert item s = (case s of (m, q) \<Rightarrow>
     if head q = NULL then
       Some (set_nxt item NULL (set_prv item NULL m), q\<lparr>head := item, tail := item\<rparr>)
     else
       bubbleUp item
         (set_prv (head q) item (set_nxt item (head q) (set_prv item NULL m)),
          q\<lparr>head := item\<rparr>))"

definition pqueue_remove_if ::
  "'k::linorder \<Rightarrow> 'k mem \<times> queue \<Rightarrow> addr \<times> 'k mem \<times> queue" where
  "pqueue_remove_if k s = (case s of (m, q) \<Rightarrow>
     if tail q \<noteq> NULL \<and> key (m (tail q)) \<le> k then
       let item = tail q;
           q1 = (if head q = tail q then q\<lparr>head := NULL, tail := NULL\<rparr>
                 else q\<lparr>tail := prv (m item)\<rparr>);
           m1 = (if prv (m item) \<noteq> NULL then set_nxt (prv (m item)) NULL m else m)
       in (item, m1, q1)
     else (NULL, m, q))"

definition pqueue_front :: "queue \<Rightarrow> addr" where
  "pqueue_front q = tail q"

section \<open>Representation\<close>

text \<open>
  \<open>dll m p xs n\<close>: the nodes \<open>xs\<close> are doubly linked in that order, the first one's \<open>prev\<close> is \<open>p\<close>
  and the last one's \<open>next\<close> is \<open>n\<close>. \<open>bchain m xs\<close>: each node's \<open>prev\<close> is the node before it.
\<close>

definition hd0 :: "addr list \<Rightarrow> addr \<Rightarrow> addr" where
  "hd0 xs d = (case xs of [] \<Rightarrow> d | x # _ \<Rightarrow> x)"

definition last0 :: "addr list \<Rightarrow> addr \<Rightarrow> addr" where
  "last0 xs d = (if xs = [] then d else last xs)"

fun dll :: "'k mem \<Rightarrow> addr \<Rightarrow> addr list \<Rightarrow> addr \<Rightarrow> bool" where
  "dll m p [] n \<longleftrightarrow> True"
| "dll m p (x # xs) n \<longleftrightarrow> prv (m x) = p \<and> nxt (m x) = hd0 xs n \<and> dll m x xs n"

fun bchain :: "'k mem \<Rightarrow> addr list \<Rightarrow> bool" where
  "bchain m (x # y # zs) \<longleftrightarrow> prv (m y) = x \<and> bchain m (y # zs)"
| "bchain m _ \<longleftrightarrow> True"

definition nodes_ok :: "addr list \<Rightarrow> bool" where
  "nodes_ok xs \<longleftrightarrow> distinct xs \<and> NULL \<notin> set xs"

definition ends_ok :: "'a hdr_scheme \<Rightarrow> addr list \<Rightarrow> bool" where
  "ends_ok q xs \<longleftrightarrow> head q = hd0 xs NULL \<and> tail q = last0 xs NULL"

definition list_rep :: "'k mem \<Rightarrow> 'a hdr_scheme \<Rightarrow> addr list \<Rightarrow> bool" where
  "list_rep m q xs \<longleftrightarrow> nodes_ok xs \<and> ends_ok q xs \<and> dll m NULL xs NULL"

definition queue_rep :: "'k mem \<Rightarrow> 'a hdr_scheme \<Rightarrow> addr list \<Rightarrow> bool" where
  "queue_rep m q xs \<longleftrightarrow> nodes_ok xs \<and> ends_ok q xs \<and> bchain m xs"

lemmas [op_defs] =
  queue_remove_def queue_insert_def list_remove_def list_insert_def list_erase_def
  pqueue_remove_if_def

lemmas [inv_defs] = list_rep_def queue_rep_def nodes_ok_def ends_ok_def

lemma hd0_simps [simp]: "hd0 [] d = d" "hd0 (x # xs) d = x"
  by (simp_all add: hd0_def)

lemma hd0_append: "hd0 (xs @ ys) d = hd0 xs (hd0 ys d)"
  by (cases xs) auto

lemma last0_simps [simp]: "last0 [] d = d" "last0 [x] d = x" "last0 (xs @ [x]) d = x"
  by (simp_all add: last0_def)

lemma last0_Cons [simp]: "last0 (x # xs) d = last0 xs x"
  by (simp add: last0_def)

lemma last0_append: "last0 (xs @ ys) d = last0 ys (last0 xs d)"
  by (simp add: last0_def)

lemma hd0_eq_d: "hd0 xs d = d \<longleftrightarrow> xs = [] \<or> hd xs = d"
  by (cases xs) auto

lemma hd0_in: "xs \<noteq> [] \<Longrightarrow> hd0 xs d \<in> set xs"
  by (cases xs) auto

lemma last0_in: "xs \<noteq> [] \<Longrightarrow> last0 xs d \<in> set xs"
  by (simp add: last0_def)

lemma last0_notin [simp]:
  "z \<notin> set xs \<Longrightarrow> last0 xs x = z \<longleftrightarrow> xs = [] \<and> x = z"
  "z \<notin> set xs \<Longrightarrow> z = last0 xs x \<longleftrightarrow> xs = [] \<and> x = z"
  by (auto simp: last0_def)

lemma hd0_notin [simp]:
  "z \<notin> set xs \<Longrightarrow> hd0 xs x = z \<longleftrightarrow> xs = [] \<and> x = z"
  "z \<notin> set xs \<Longrightarrow> z = hd0 xs x \<longleftrightarrow> xs = [] \<and> x = z"
  by (cases xs; auto)+

lemma nodes_ok_hd0 [simp]: "nodes_ok xs \<Longrightarrow> hd0 xs NULL = NULL \<longleftrightarrow> xs = []"
  by (cases xs) (auto simp: nodes_ok_def)

lemma nodes_ok_last0 [simp]: "nodes_ok xs \<Longrightarrow> last0 xs NULL = NULL \<longleftrightarrow> xs = []"
  by (metis last0_in last0_simps(1) nodes_ok_def)

lemma dll_append:
  "dll m p (xs @ ys) n \<longleftrightarrow> dll m p xs (hd0 ys n) \<and> dll m (last0 xs p) ys n"
  by (induction xs arbitrary: p) (auto simp: hd0_append last0_Cons)

lemma bchain_Cons: "bchain m (x # xs) \<longleftrightarrow> (xs = [] \<or> prv (m (hd xs)) = x) \<and> bchain m xs"
  by (cases xs) auto

lemma bchain_append:
  "bchain m (xs @ ys) \<longleftrightarrow> bchain m xs \<and> bchain m ys
     \<and> (xs = [] \<or> ys = [] \<or> prv (m (hd ys)) = last xs)"
  by (induction xs) (auto simp: bchain_Cons hd_append)

lemma dll_bchain: "dll m p xs n \<Longrightarrow> bchain m xs"
proof (induction m p xs n rule: dll.induct)
  case (2 m p x xs n)
  then show ?case by (cases xs) (auto simp: bchain_Cons)
qed simp

lemma list_rep_queue_rep: "list_rep m q xs \<Longrightarrow> queue_rep m q xs"
  by (auto simp: list_rep_def queue_rep_def dest: dll_bchain)

subsection \<open>Frame rules\<close>

lemma upd_same [simp]:
  "nxt (set_nxt a v m a) = v" "prv (set_nxt a v m b) = prv (m b)"
  "prv (set_prv a v m a) = v" "nxt (set_prv a v m b) = nxt (m b)"
  "key (set_nxt a v m b) = key (m b)" "key (set_prv a v m b) = key (m b)"
  by (auto simp: set_nxt_def set_prv_def)

lemma upd_other [simp]:
  "b \<noteq> a \<Longrightarrow> set_nxt a v m b = m b" "b \<noteq> a \<Longrightarrow> set_prv a v m b = m b"
  by (auto simp: set_nxt_def set_prv_def)

lemma dll_cong: "(\<And>x. x \<in> set xs \<Longrightarrow> m' x = m x) \<Longrightarrow> dll m' p xs n = dll m p xs n"
  by (induction xs arbitrary: p) auto

lemma dll_set_nxt [frame_simps, simp]:
  "a \<notin> set xs \<Longrightarrow> dll (set_nxt a v m) p xs n = dll m p xs n"
  by (rule dll_cong) (auto simp: set_nxt_def)

lemma dll_set_prv [frame_simps, simp]:
  "a \<notin> set xs \<Longrightarrow> dll (set_prv a v m) p xs n = dll m p xs n"
  by (rule dll_cong) (auto simp: set_prv_def)

lemma bchain_set_nxt [frame_simps, simp]: "bchain (set_nxt a v m) xs = bchain m xs"
  by (induction m xs rule: bchain.induct) auto

lemma bchain_set_prv [frame_simps, simp]:
  "a \<notin> set (tl xs) \<Longrightarrow> bchain (set_prv a v m) xs = bchain m xs"
  by (induction m xs rule: bchain.induct) auto

lemma nodes_ok_Nil [simp]: "nodes_ok []"
  by (simp add: nodes_ok_def)

lemma nodes_ok_Cons [simp]: "nodes_ok (x # xs) \<longleftrightarrow> x \<noteq> NULL \<and> x \<notin> set xs \<and> nodes_ok xs"
  by (auto simp: nodes_ok_def)

lemma nodes_ok_append [simp]:
  "nodes_ok (xs @ ys) \<longleftrightarrow> nodes_ok xs \<and> nodes_ok ys \<and> set xs \<inter> set ys = {}"
  by (auto simp: nodes_ok_def)

lemma nodes_ok_not_NULL: "nodes_ok xs \<Longrightarrow> x \<in> set xs \<Longrightarrow> x \<noteq> NULL"
  by (metis nodes_ok_def)

section \<open>Queue and the shared insert and remove\<close>

lemma queue_insert_rep:
  assumes "queue_rep m q xs" "item \<noteq> NULL" "item \<notin> set xs"
    and "queue_insert item (m, q) = (m', q')"
  shows "queue_rep m' q' (item # xs) \<and> qcount q' = qcount q + 1 \<and> (\<forall>a. key (m' a) = key (m a))"
  using assms
  by (cases xs) (auto simp: queue_insert_def queue_rep_def ends_ok_def Let_def last0_Cons)

lemma queue_remove_empty: "queue_rep m q [] \<Longrightarrow> queue_remove (m, q) = (NULL, m, q)"
  by (simp add: queue_remove_def queue_rep_def ends_ok_def)

lemma queue_rep_snoc:
  "queue_rep m q (xs @ [x]) \<longleftrightarrow> tail q = x \<and> x \<noteq> NULL \<and> x \<notin> set xs \<and> nodes_ok xs
     \<and> head q = hd0 xs x \<and> bchain m xs \<and> (xs = [] \<or> prv (m x) = last xs)"
  by (auto simp: queue_rep_def ends_ok_def bchain_append hd0_append)

lemma queue_remove_snoc:
  assumes "queue_rep m q (xs @ [x])"
  shows "\<exists>q'. queue_remove (m, q) = (x, m, q') \<and> queue_rep m q' xs \<and> qcount q' = qcount q - 1"
proof (cases "xs = []")
  case True
  with assms show ?thesis
    by (auto simp: queue_rep_snoc queue_remove_def queue_rep_def ends_ok_def Let_def)
next
  case False
  with assms show ?thesis
    unfolding queue_rep_snoc
    by (auto simp: queue_remove_def queue_rep_def ends_ok_def Let_def last0_def
        hd0_def split: list.splits)
qed

lemma list_insert_queue_rep:
  assumes "queue_rep m q xs" "item \<noteq> NULL" "item \<notin> set xs"
    and "list_insert item (m, q) = (m', q')"
  shows "queue_rep m' q' (item # xs) \<and> (\<forall>a. key (m' a) = key (m a))"
  using assms
  by (cases xs) (auto simp: list_insert_def queue_rep_def ends_ok_def Let_def last0_Cons)

lemma list_remove_empty: "queue_rep m q [] \<Longrightarrow> list_remove (m, q) = (NULL, m, q)"
  by (simp add: list_remove_def queue_rep_def ends_ok_def)

lemma list_remove_snoc:
  assumes "queue_rep m q (xs @ [x])"
  shows "\<exists>q'. list_remove (m, q) = (x, m, q') \<and> queue_rep m q' xs"
proof (cases "xs = []")
  case True
  with assms show ?thesis
    by (auto simp: queue_rep_snoc list_remove_def queue_rep_def ends_ok_def Let_def)
next
  case False
  with assms show ?thesis
    unfolding queue_rep_snoc
    by (auto simp: list_remove_def queue_rep_def ends_ok_def Let_def last0_def
        hd0_def split: list.splits)
qed

section \<open>List\<close>

lemma list_insert_rep:
  assumes "list_rep m q xs" "item \<noteq> NULL" "item \<notin> set xs"
    and "list_insert item (m, q) = (m', q')"
  shows "list_rep m' q' (item # xs) \<and> (\<forall>a. key (m' a) = key (m a))"
  using assms
  by (cases xs) (auto simp: list_insert_def list_rep_def ends_ok_def last0_Cons)

lemma list_walk_dll:
  assumes "nodes_ok xs" "dll m p xs NULL"
  shows "list_walk m k (hd0 xs NULL)
    = Some (case List.find (\<lambda>a. key (m a) = k) xs of None \<Rightarrow> NULL | Some a \<Rightarrow> a)"
  using assms
proof (induction xs arbitrary: p)
  case Nil
  then show ?case by (simp add: list_walk.simps)
next
  case (Cons x xs)
  then show ?case by (subst list_walk.simps) auto
qed

lemma list_find_rep:
  assumes "list_rep m q xs"
  shows "list_find k (m, q)
    = Some (case List.find (\<lambda>a. key (m a) = k) xs of None \<Rightarrow> NULL | Some a \<Rightarrow> a)"
  using assms list_walk_dll [of xs m NULL k]
  by (auto simp: list_find_def list_rep_def ends_ok_def)


lemma list_erase_rep:
  assumes "list_rep m q (ys @ x # zs)" and "list_erase x (m, q) = (m', q')"
  shows "list_rep m' q' (ys @ zs) \<and> (\<forall>a. key (m' a) = key (m a))"
proof (cases ys rule: rev_cases)
  case Nil
  with assms show ?thesis
    by (cases zs) (auto simp: list_erase_def list_rep_def ends_ok_def last0_Cons split: if_splits)
next
  case (snoc ws w)
  with assms show ?thesis
    by (cases zs) (auto simp: list_erase_def list_rep_def ends_ok_def last0_Cons last0_append
        dll_append hd0_append split: if_splits)
qed

lemma list_erase_key_eq:
  "list_erase_key k (m, q) = (case list_find k (m, q) of None \<Rightarrow> None
     | Some nd \<Rightarrow> if nd \<noteq> NULL then Some (nd, list_erase nd (m, q)) else Some (nd, m, q))"
  by (auto simp: list_erase_key_def list_find_def list_erase_def Let_def split: option.splits)

lemma list_erase_key_rep:
  assumes rep: "list_rep m q xs"
  shows "\<exists>nd m' q'. list_erase_key k (m, q) = Some (nd, m', q') \<and> (\<forall>a. key (m' a) = key (m a))
    \<and> (case List.find (\<lambda>a. key (m a) = k) xs of
         None \<Rightarrow> nd = NULL \<and> m' = m \<and> q' = q
       | Some a \<Rightarrow> nd = a \<and> list_rep m' q' (remove1 a xs))"
proof (cases "List.find (\<lambda>a. key (m a) = k) xs")
  case None
  with rep show ?thesis by (simp add: list_erase_key_eq list_find_rep)
next
  case (Some a)
  then obtain ys zs where xs: "xs = ys @ a # zs"
    by (auto dest: find_split)
  with rep have a: "a \<noteq> NULL" "a \<notin> set ys" by (auto simp: list_rep_def)
  obtain m' q' where e: "list_erase a (m, q) = (m', q')" by (cases "list_erase a (m, q)")
  from list_erase_rep [of m q ys a zs m' q'] rep e xs
  have "list_rep m' q' (ys @ zs) \<and> (\<forall>b. key (m' b) = key (m b))" by simp
  with Some rep e a xs show ?thesis
    by (simp add: list_erase_key_eq list_find_rep remove1_append)
qed

section \<open>PQueue\<close>

lemma bubble_swap_rep:
  assumes "list_rep m q (ys @ item # t # zs)" and "bubble_swap item (m, q) = (m', q')"
  shows "list_rep m' q' (ys @ t # item # zs)" and "key (m' a) = key (m a)" and "qcount q' = qcount q"
proof -
  show "key (m' a) = key (m a)" and "qcount q' = qcount q"
    using assms(2) by (auto simp: bubble_swap_def Let_def split: if_splits)
  show "list_rep m' q' (ys @ t # item # zs)"
  proof (cases ys rule: rev_cases)
    case Nil
    show ?thesis
    proof (cases zs)
      case Nil
      with assms \<open>ys = []\<close> show ?thesis
        by (auto simp: bubble_swap_def list_rep_def ends_ok_def last0_Cons Let_def)
    next
      case (Cons z zs')
      with assms \<open>ys = []\<close> show ?thesis
        by (auto simp: bubble_swap_def list_rep_def ends_ok_def last0_Cons Let_def)
    qed
  next
    case (snoc ws w)
    show ?thesis
    proof (cases zs)
      case Nil
      with assms \<open>ys = ws @ [w]\<close> show ?thesis
        by (auto simp: bubble_swap_def list_rep_def ends_ok_def last0_append
            dll_append hd0_append Let_def)
    next
      case (Cons z zs')
      with assms \<open>ys = ws @ [w]\<close> show ?thesis
        by (auto simp: bubble_swap_def list_rep_def ends_ok_def last0_Cons last0_append
            dll_append hd0_append Let_def)
    qed
  qed
qed

text \<open>\<open>desc\<close>: the keys do not increase from \<open>head\<close> to \<open>tail\<close>, so the least key is at \<open>tail\<close>.\<close>

definition desc :: "('k::linorder) mem \<Rightarrow> addr list \<Rightarrow> bool" where
  "desc m xs \<longleftrightarrow> sorted_wrt (\<lambda>a b. key (m b) \<le> key (m a)) xs"

definition pq_place :: "('k::linorder) mem \<Rightarrow> addr \<Rightarrow> addr list \<Rightarrow> addr list" where
  "pq_place m x xs = takeWhile (\<lambda>z. key (m x) < key (m z)) xs
     @ x # dropWhile (\<lambda>z. key (m x) < key (m z)) xs"

lemma desc_cong: "(\<And>a. key (m' a) = key (m a)) \<Longrightarrow> desc m' xs = desc m xs"
  by (simp add: desc_def)

lemma pq_place_cong: "(\<And>a. key (m' a) = key (m a)) \<Longrightarrow> pq_place m' x xs = pq_place m x xs"
  by (simp add: pq_place_def)

lemma set_pq_place [simp]: "set (pq_place m x xs) = insert x (set xs)"
proof -
  let ?P = "\<lambda>z. key (m x) < key (m z)"
  have "set (takeWhile ?P xs) \<union> set (dropWhile ?P xs) = set xs"
    by (metis set_append takeWhile_dropWhile_id)
  then show ?thesis by (auto simp: pq_place_def)
qed

lemma desc_pq_place: "desc m xs \<Longrightarrow> desc m (pq_place m x xs)"
proof (induction xs)
  case (Cons a xs)
  show ?case
  proof (cases "key (m x) < key (m a)")
    case True
    with Cons have "desc m (pq_place m x xs)" by (simp add: desc_def)
    with Cons True show ?thesis
      using set_pq_place [of m x xs] by (auto simp: desc_def pq_place_def)
  next
    case False
    with Cons show ?thesis by (auto simp: desc_def pq_place_def)
  qed
qed (simp add: desc_def pq_place_def)

lemma bubbleUp_rep:
  "list_rep m q (ys @ item # zs) \<Longrightarrow>
   \<exists>m' q'. bubbleUp item (m, q) = Some (m', q') \<and> list_rep m' q' (ys @ pq_place m item zs)
     \<and> (\<forall>a. key (m' a) = key (m a)) \<and> qcount q' = qcount q"
proof (induction zs arbitrary: ys m q)
  case Nil
  then show ?case
    by (subst bubbleUp.simps) (auto simp: list_rep_def dll_append pq_place_def)
next
  case (Cons z zs)
  then have n: "nxt (m item) = z" "z \<noteq> NULL"
    by (auto simp: list_rep_def dll_append)
  show ?case
  proof (cases "key (m z) \<le> key (m item)")
    case True
    with n Cons.prems show ?thesis
      by (subst bubbleUp.simps) (auto simp: pq_place_def)
  next
    case False
    obtain m1 q1 where sw: "bubble_swap item (m, q) = (m1, q1)"
      by (cases "bubble_swap item (m, q)")
    note r = bubble_swap_rep [OF Cons.prems sw]
    from r(1) have "list_rep m1 q1 ((ys @ [z]) @ item # zs)" by simp
    from Cons.IH [OF this] obtain m' q' where
      b: "bubbleUp item (m1, q1) = Some (m', q')"
         "list_rep m' q' ((ys @ [z]) @ pq_place m1 item zs)"
         "\<forall>a. key (m' a) = key (m1 a)" "qcount q' = qcount q1"
      by blast
    have "pq_place m item (z # zs) = z # pq_place m1 item zs"
      using False r(2) by (simp add: pq_place_def not_le)
    moreover have "bubbleUp item (m, q) = Some (m', q')"
      using n False sw b(1) by (subst bubbleUp.simps) simp
    ultimately show ?thesis using b r by simp
  qed
qed

lemma pqueue_insert_rep:
  assumes "list_rep m q xs" "item \<noteq> NULL" "item \<notin> set xs"
  shows "\<exists>m' q'. pqueue_insert item (m, q) = Some (m', q') \<and> list_rep m' q' (pq_place m item xs)
     \<and> (\<forall>a. key (m' a) = key (m a)) \<and> qcount q' = qcount q"
proof (cases "xs = []")
  case True
  with assms show ?thesis
    by (auto simp: pqueue_insert_def list_rep_def ends_ok_def pq_place_def)
next
  case False
  then have h: "head q \<noteq> NULL" using assms by (simp add: list_rep_def ends_ok_def)
  let ?m = "set_prv (head q) item (set_nxt item (head q) (set_prv item NULL m))"
  have "list_rep ?m (q\<lparr>head := item\<rparr>) ([] @ item # xs)"
    using assms False by (cases xs) (auto simp: list_rep_def ends_ok_def last0_Cons)
  from bubbleUp_rep [OF this] h show ?thesis
    by (simp add: pqueue_insert_def pq_place_cong [of ?m m])
qed

lemma pqueue_remove_if_empty:
  "list_rep m q [] \<Longrightarrow> pqueue_remove_if k (m, q) = (NULL, m, q)"
  by (simp add: pqueue_remove_if_def list_rep_def ends_ok_def)

lemma pqueue_remove_if_later:
  "list_rep m q (xs @ [x]) \<Longrightarrow> k < key (m x) \<Longrightarrow> pqueue_remove_if k (m, q) = (NULL, m, q)"
  by (simp add: pqueue_remove_if_def list_rep_def ends_ok_def)

lemma pqueue_remove_if_due:
  assumes "list_rep m q (xs @ [x])" "key (m x) \<le> k"
  shows "\<exists>m' q'. pqueue_remove_if k (m, q) = (x, m', q') \<and> list_rep m' q' xs
     \<and> (\<forall>a. key (m' a) = key (m a))"
proof (cases xs rule: rev_cases)
  case Nil
  with assms show ?thesis
    by (auto simp: pqueue_remove_if_def list_rep_def ends_ok_def Let_def)
next
  case (snoc ws w)
  with assms show ?thesis
    by (auto simp: pqueue_remove_if_def list_rep_def ends_ok_def Let_def dll_append hd0_append
        last0_append)
qed

section \<open>Contracts\<close>

text \<open>
  What the clients of a FIFO container rely on: \<open>rep s xs\<close> relates a container state to its
  elements, newest first; \<open>nil\<close> is the null element.
\<close>

primrec remove_n :: "('s \<Rightarrow> 'e \<times> 's) \<Rightarrow> nat \<Rightarrow> 's \<Rightarrow> 'e list \<times> 's" where
  "remove_n rmv 0 s = ([], s)"
| "remove_n rmv (Suc n) s =
     (let (x, s1) = rmv s; (xs, s2) = remove_n rmv n s1 in (x # xs, s2))"

locale fifo =
  fixes nil :: 'e
    and ins :: "'e \<Rightarrow> 's \<Rightarrow> 's"
    and rmv :: "'s \<Rightarrow> 'e \<times> 's"
    and rep :: "'s \<Rightarrow> 'e list \<Rightarrow> bool"
  assumes ins_rep: "rep s xs \<Longrightarrow> x \<noteq> nil \<Longrightarrow> x \<notin> set xs \<Longrightarrow> rep (ins x s) (x # xs)"
    and rmv_nil: "rep s [] \<Longrightarrow> rmv s = (nil, s)"
    and rmv_snoc: "rep s (xs @ [x]) \<Longrightarrow> \<exists>s'. rmv s = (x, s') \<and> rep s' xs"
begin

lemma fold_ins_rep:
  "rep s xs \<Longrightarrow> distinct (rev ys @ xs) \<Longrightarrow> nil \<notin> set ys \<Longrightarrow> rep (fold ins ys s) (rev ys @ xs)"
proof (induction ys arbitrary: s xs)
  case (Cons y ys)
  then have "rep (ins y s) (y # xs)" by (auto intro: ins_rep)
  with Cons.IH [of "ins y s" "y # xs"] Cons.prems show ?case by simp
qed simp

lemma remove_n_rep:
  "rep s (xs @ rev ys) \<Longrightarrow> \<exists>s'. remove_n rmv (length ys) s = (ys, s') \<and> rep s' xs"
proof (induction ys arbitrary: s)
  case (Cons y ys)
  then have "rep s ((xs @ rev ys) @ [y])" by simp
  then obtain s1 where "rmv s = (y, s1)" "rep s1 (xs @ rev ys)" by (blast dest: rmv_snoc)
  with Cons.IH [of s1] show ?case by auto
qed simp

lemma first_in_first_out:
  assumes "rep s []" "distinct ys" "nil \<notin> set ys"
  shows "\<exists>s'. remove_n rmv (length ys) (fold ins ys s) = (ys, s') \<and> rep s' [] \<and> rmv s' = (nil, s')"
proof -
  have "rep (fold ins ys s) ([] @ rev ys)" using fold_ins_rep [of s "[]" ys] assms by simp
  from remove_n_rep [OF this] show ?thesis by (auto dest: rmv_nil)
qed

end

definition queue_state_rep :: "'k mem \<times> 'a hdr_scheme \<Rightarrow> addr list \<Rightarrow> bool" where
  "queue_state_rep s xs \<longleftrightarrow> queue_rep (fst s) (snd s) xs"

interpretation queue_fifo: fifo NULL queue_insert queue_remove queue_state_rep
proof
  fix s :: "'a mem \<times> queue" and xs x
  assume "queue_state_rep s xs" "x \<noteq> NULL" "x \<notin> set xs"
  then show "queue_state_rep (queue_insert x s) (x # xs)"
    using queue_insert_rep [of "fst s" "snd s" xs x] by (cases "queue_insert x s") (simp add: queue_state_rep_def)
next
  fix s :: "'a mem \<times> queue"
  assume "queue_state_rep s []"
  then show "queue_remove s = (NULL, s)"
    using queue_remove_empty [of "fst s" "snd s"] by (simp add: queue_state_rep_def)
next
  fix s :: "'a mem \<times> queue" and xs x
  assume "queue_state_rep s (xs @ [x])"
  then show "\<exists>s'. queue_remove s = (x, s') \<and> queue_state_rep s' xs"
    using queue_remove_snoc [of "fst s" "snd s" xs x] by (auto simp: queue_state_rep_def)
qed

interpretation list_fifo: fifo NULL list_insert list_remove queue_state_rep
proof
  fix s :: "'a mem \<times> hdr" and xs x
  assume "queue_state_rep s xs" "x \<noteq> NULL" "x \<notin> set xs"
  then show "queue_state_rep (list_insert x s) (x # xs)"
    using list_insert_queue_rep [of "fst s" "snd s" xs x] by (cases "list_insert x s") (simp add: queue_state_rep_def)
next
  fix s :: "'a mem \<times> hdr"
  assume "queue_state_rep s []"
  then show "list_remove s = (NULL, s)"
    using list_remove_empty [of "fst s" "snd s"] by (simp add: queue_state_rep_def)
next
  fix s :: "'a mem \<times> hdr" and xs x
  assume "queue_state_rep s (xs @ [x])"
  then show "\<exists>s'. list_remove s = (x, s') \<and> queue_state_rep s' xs"
    using list_remove_snoc [of "fst s" "snd s" xs x] by (auto simp: queue_state_rep_def)
qed

text \<open>
  What the clients of a priority queue rely on: \<open>prio s x\<close> is the key of an element, \<open>rep s xs\<close>
  lists the elements from the largest key to the smallest, and \<open>rmv_if k\<close> takes the smallest one
  if it is due at \<open>k\<close>. The client's loop removes until nothing is due.
\<close>

partial_function (option) drain_due ::
  "('k \<Rightarrow> 's \<Rightarrow> 'e \<times> 's) \<Rightarrow> 'e \<Rightarrow> 'k \<Rightarrow> 's \<Rightarrow> ('e list \<times> 's) option" where
  "drain_due rmv_if nil k s =
     (if fst (rmv_if k s) = nil then Some ([], snd (rmv_if k s))
      else Option.bind (drain_due rmv_if nil k (snd (rmv_if k s)))
             (\<lambda>r. Some (fst (rmv_if k s) # fst r, snd r)))"

locale prio_queue =
  fixes nil :: 'e
    and ins :: "'e \<Rightarrow> 's \<Rightarrow> 's option"
    and rmv_if :: "'k::linorder \<Rightarrow> 's \<Rightarrow> 'e \<times> 's"
    and prio :: "'s \<Rightarrow> 'e \<Rightarrow> 'k"
    and rep :: "'s \<Rightarrow> 'e list \<Rightarrow> bool"
  assumes rep_desc: "rep s xs \<Longrightarrow> sorted_wrt (\<lambda>a b. prio s b \<le> prio s a) xs"
    and rep_nil: "rep s xs \<Longrightarrow> nil \<notin> set xs"
    and ins_rep: "rep s xs \<Longrightarrow> x \<noteq> nil \<Longrightarrow> x \<notin> set xs \<Longrightarrow>
      \<exists>s' xs'. ins x s = Some s' \<and> rep s' xs' \<and> mset xs' = add_mset x (mset xs) \<and> prio s' = prio s"
    and rmv_empty: "rep s [] \<Longrightarrow> rmv_if k s = (nil, s)"
    and rmv_later: "rep s (xs @ [x]) \<Longrightarrow> k < prio s x \<Longrightarrow> rmv_if k s = (nil, s)"
    and rmv_due: "rep s (xs @ [x]) \<Longrightarrow> prio s x \<le> k \<Longrightarrow>
      \<exists>s'. rmv_if k s = (x, s') \<and> rep s' xs \<and> prio s' = prio s"
begin

lemma drain_due_rep:
  "rep s xs \<Longrightarrow> \<exists>s'. drain_due rmv_if nil k s = Some (rev (dropWhile (\<lambda>x. k < prio s x) xs), s')
     \<and> rep s' (takeWhile (\<lambda>x. k < prio s x) xs) \<and> prio s' = prio s"
proof (induction xs arbitrary: s rule: rev_induct)
  case Nil
  then have "rmv_if k s = (nil, s)" by (rule rmv_empty)
  with Nil show ?case by (subst drain_due.simps) simp
next
  case (snoc x xs)
  let ?P = "\<lambda>x. k < prio s x"
  show ?case
  proof (cases "?P x")
    case True
    with rep_desc [OF snoc.prems] have "\<forall>y\<in>set xs. ?P y"
      by (fastforce simp: sorted_wrt_append)
    moreover from snoc.prems True have "rmv_if k s = (nil, s)" by (rule rmv_later)
    ultimately show ?thesis using True snoc.prems
      by (subst drain_due.simps) (simp add: takeWhile_append dropWhile_append)
  next
    case False
    with rmv_due [OF snoc.prems, of k] obtain s1 where
      s1: "rmv_if k s = (x, s1)" "rep s1 xs" "prio s1 = prio s" by (auto simp: not_less)
    from snoc.IH [OF s1(2)] s1(3) obtain s2 where
      s2: "drain_due rmv_if nil k s1 = Some (rev (dropWhile ?P xs), s2)"
        "rep s2 (takeWhile ?P xs)" "prio s2 = prio s" by auto
    have "x \<noteq> nil" using rep_nil [OF snoc.prems] by auto
    moreover have "dropWhile ?P (xs @ [x]) = dropWhile ?P xs @ [x]"
      using False by (simp add: dropWhile_append)
    moreover have "takeWhile ?P (xs @ [x]) = takeWhile ?P xs"
      using False by (simp add: takeWhile_append takeWhile_eq_all_conv [THEN iffD2])
    ultimately show ?thesis using s1 s2 by (subst drain_due.simps) simp
  qed
qed

end

definition pq_rep :: "('k::linorder) mem \<times> queue \<Rightarrow> addr list \<Rightarrow> bool" where
  "pq_rep s xs \<longleftrightarrow> list_rep (fst s) (snd s) xs \<and> desc (fst s) xs"

definition pq_prio :: "'k mem \<times> queue \<Rightarrow> addr \<Rightarrow> 'k" where
  "pq_prio s a = key (fst s a)"

lemma mset_pq_place: "mset (pq_place m x xs) = add_mset x (mset xs)"
proof -
  let ?P = "\<lambda>z. key (m x) < key (m z)"
  have "mset (takeWhile ?P xs) + mset (dropWhile ?P xs) = mset xs"
    by (metis mset_append takeWhile_dropWhile_id)
  then show ?thesis by (simp add: pq_place_def)
qed

interpretation pqueue: prio_queue NULL pqueue_insert pqueue_remove_if pq_prio pq_rep
proof
  fix s :: "('k::linorder) mem \<times> queue" and xs
  assume "pq_rep s xs"
  then show "sorted_wrt (\<lambda>a b. pq_prio s b \<le> pq_prio s a) xs" and "NULL \<notin> set xs"
    by (auto simp: pq_rep_def desc_def pq_prio_def list_rep_def nodes_ok_def)
next
  fix s :: "('k::linorder) mem \<times> queue" and xs x
  assume r: "pq_rep s xs" and x: "x \<noteq> NULL" "x \<notin> set xs"
  then obtain m' q' where "pqueue_insert x s = Some (m', q')"
    "list_rep m' q' (pq_place (fst s) x xs)" "\<forall>a. key (m' a) = key (fst s a)"
    using pqueue_insert_rep [of "fst s" "snd s" xs x] by (auto simp: pq_rep_def)
  with r show "\<exists>s' xs'. pqueue_insert x s = Some s' \<and> pq_rep s' xs' \<and>
      mset xs' = add_mset x (mset xs) \<and> pq_prio s' = pq_prio s"
    by (intro exI [of _ "(m', q')"] exI [of _ "pq_place (fst s) x xs"])
      (simp add: pq_rep_def desc_cong [of m' "fst s"] desc_pq_place mset_pq_place pq_prio_def fun_eq_iff)
next
  fix s :: "('k::linorder) mem \<times> queue" and k
  assume "pq_rep s []"
  then show "pqueue_remove_if k s = (NULL, s)"
    using pqueue_remove_if_empty [of "fst s" "snd s"] by (simp add: pq_rep_def)
next
  fix s :: "('k::linorder) mem \<times> queue" and xs x k
  assume "pq_rep s (xs @ [x])" "k < pq_prio s x"
  then show "pqueue_remove_if k s = (NULL, s)"
    using pqueue_remove_if_later [of "fst s" "snd s" xs x k] by (simp add: pq_rep_def pq_prio_def)
next
  fix s :: "('k::linorder) mem \<times> queue" and xs x k
  assume "pq_rep s (xs @ [x])" "pq_prio s x \<le> k"
  then show "\<exists>s'. pqueue_remove_if k s = (x, s') \<and> pq_rep s' xs \<and> pq_prio s' = pq_prio s"
    using pqueue_remove_if_due [of "fst s" "snd s" xs x k]
    by (force simp: pq_rep_def pq_prio_def fun_eq_iff desc_def sorted_wrt_append)
qed

lemma desc_due:
  assumes "desc m xs"
  shows "dropWhile (\<lambda>x. k < key (m x)) xs = filter (\<lambda>x. key (m x) \<le> k) xs"
    and "takeWhile (\<lambda>x. k < key (m x)) xs = filter (\<lambda>x. k < key (m x)) xs"
proof -
  have "dropWhile (\<lambda>x. k < key (m x)) xs = filter (\<lambda>x. key (m x) \<le> k) xs
    \<and> takeWhile (\<lambda>x. k < key (m x)) xs = filter (\<lambda>x. k < key (m x)) xs"
    using assms
  proof (induction xs)
    case (Cons a xs)
    then have le: "\<forall>y\<in>set xs. key (m y) \<le> key (m a)" and IH: "desc m xs"
      by (auto simp: desc_def)
    show ?case
    proof (cases "k < key (m a)")
      case True
      with Cons.IH [OF IH] show ?thesis by simp
    next
      case False
      with le have "\<forall>y\<in>set xs. key (m y) \<le> k" by auto
      with False show ?thesis by (auto simp: filter_empty_conv not_less)
    qed
  qed simp
  then show "dropWhile (\<lambda>x. k < key (m x)) xs = filter (\<lambda>x. key (m x) \<le> k) xs"
    and "takeWhile (\<lambda>x. k < key (m x)) xs = filter (\<lambda>x. k < key (m x)) xs" by auto
qed

section \<open>Properties\<close>

text \<open>\<open>Queue\<close> is first-in first-out: elements inserted into an empty queue come out in the order
  they went in, and the queue is then empty again.\<close>

theorem queue_first_in_first_out:
  fixes m :: "'k mem" and q :: queue
  assumes "queue_rep m q []" and "distinct ys" and "NULL \<notin> set ys"
  shows "\<exists>s'. remove_n queue_remove (length ys) (fold queue_insert ys (m, q)) = (ys, s')
    \<and> queue_remove s' = (NULL, s')"
  using queue_fifo.first_in_first_out [of "(m, q)" ys] assms by (auto simp: queue_state_rep_def)

theorem queue_first_in_first_out_witness:
  "\<exists>s'. remove_n queue_remove 3 (fold queue_insert [8, 16, 24]
      (\<lambda>_. \<lparr>nxt = 0, prv = 0, key = ()\<rparr>, queue_init)) = ([8, 16, 24], s')
    \<and> queue_remove s' = (NULL, s')"
  using queue_first_in_first_out [of "\<lambda>_. \<lparr>nxt = 0, prv = 0, key = ()\<rparr>" queue_init "[8, 16, 24]"]
  by (simp add: queue_init_def queue_rep_def ends_ok_def numeral_3_eq_3)

text \<open>\<open>List::find\<close> and \<open>List::erase(key)\<close> on an intact list terminate; both answer the first node
  with that key, or null if there is none; and \<open>erase\<close> unlinks exactly that node, leaving an intact
  list of the others in their order.\<close>

theorem list_find_and_erase_key:
  assumes "list_rep m q xs"
  shows "\<exists>nd m' q'. list_find k (m, q) = Some nd \<and> list_erase_key k (m, q) = Some (nd, m', q')
    \<and> (if nd = NULL then (\<forall>a\<in>set xs. key (m a) \<noteq> k) \<and> list_rep m' q' xs
       else (\<exists>ys zs. xs = ys @ nd # zs \<and> key (m nd) = k \<and> (\<forall>a\<in>set ys. key (m a) \<noteq> k)
               \<and> list_rep m' q' (ys @ zs)))"
proof (cases "List.find (\<lambda>a. key (m a) = k) xs")
  case None
  with list_find_rep [OF assms, of k] list_erase_key_rep [OF assms, of k] assms show ?thesis
    by (auto simp: find_None_iff)
next
  case (Some a)
  from find_split [OF Some] obtain ys zs where
    xs: "xs = ys @ a # zs" "key (m a) = k" "\<forall>y\<in>set ys. key (m y) \<noteq> k" by auto
  then have "a \<noteq> NULL" "remove1 a xs = ys @ zs"
    using assms by (auto simp: list_rep_def remove1_append)
  with list_find_rep [OF assms, of k] list_erase_key_rep [OF assms, of k] Some xs show ?thesis
    by auto
qed

theorem list_find_and_erase_key_witness:
  "let m = (\<lambda>a. \<lparr>nxt = (if a = 8 then 16 else 0), prv = (if a = 16 then 8 else 0), key = a + 1\<rparr>);
       q = \<lparr>head = 8, tail = 16\<rparr>
   in \<exists>nd m' q'. list_find 17 (m, q) = Some nd \<and> list_erase_key 17 (m, q) = Some (nd, m', q')
    \<and> (if nd = NULL then (\<forall>a\<in>set [8, 16]. key (m a) \<noteq> 17) \<and> list_rep m' q' [8, 16]
       else (\<exists>ys zs. [8, 16] = ys @ nd # zs \<and> key (m nd) = 17 \<and> (\<forall>a\<in>set ys. key (m a) \<noteq> 17)
               \<and> list_rep m' q' (ys @ zs)))"
  unfolding Let_def
  by (rule list_find_and_erase_key) (simp add: list_rep_def ends_ok_def)

text \<open>C29. \<open>PQueue::insert\<close> on a queue ordered by descending keys terminates and yields an intact,
  ordered queue with exactly the new element added; no key changes.\<close>

theorem pqueue_insert_ordered:
  fixes m :: "('k::linorder) mem"
  assumes "list_rep m q xs" and "desc m xs" and "item \<noteq> NULL" and "item \<notin> set xs"
  shows "\<exists>m' q' xs'. pqueue_insert item (m, q) = Some (m', q') \<and> list_rep m' q' xs' \<and> desc m' xs'
    \<and> mset xs' = add_mset item (mset xs) \<and> (\<forall>a. key (m' a) = key (m a))"
  using pqueue_insert_rep [OF assms(1,3,4)] assms(2)
  by (metis desc_cong desc_pq_place mset_pq_place)

theorem pqueue_insert_ordered_witness:
  "let m = (\<lambda>a. \<lparr>nxt = (if a = 16 then 8 else 0), prv = (if a = 8 then 16 else 0), key = a\<rparr>);
       q = \<lparr>head = 16, tail = 8, qcount = 0\<rparr>
   in \<exists>m' q' xs'. pqueue_insert 12 (m, q) = Some (m', q') \<and> list_rep m' q' xs' \<and> desc m' xs'
    \<and> mset xs' = add_mset 12 (mset [16, 8]) \<and> (\<forall>a. key (m' a) = key (m a))"
  unfolding Let_def
  by (rule pqueue_insert_ordered) (simp_all add: list_rep_def ends_ok_def desc_def)

text \<open>Removing from a priority queue until nothing is due ends, yields exactly the elements whose
  key has been reached, earliest first, and leaves exactly the others.\<close>

theorem pqueue_drain_due:
  fixes m :: "('k::linorder) mem"
  assumes "list_rep m q xs" and "desc m xs"
  shows "\<exists>m' q'. drain_due pqueue_remove_if NULL k (m, q)
      = Some (rev (filter (\<lambda>x. key (m x) \<le> k) xs), m', q')
    \<and> list_rep m' q' (filter (\<lambda>x. k < key (m x)) xs)
    \<and> sorted (map (\<lambda>x. key (m x)) (rev (filter (\<lambda>x. key (m x) \<le> k) xs)))"
proof -
  have r: "pq_rep (m, q) xs" using assms by (simp add: pq_rep_def)
  have f: "dropWhile (\<lambda>x. k < key (m x)) xs = filter (\<lambda>x. key (m x) \<le> k) xs"
    "takeWhile (\<lambda>x. k < key (m x)) xs = filter (\<lambda>x. k < key (m x)) xs"
    using assms(2) by (simp_all add: desc_due)
  have "sorted (map (\<lambda>x. key (m x)) (rev ys))" if "desc m ys" for ys
    using that by (induction ys) (auto simp: desc_def sorted_append)
  moreover have "desc m (filter (\<lambda>x. key (m x) \<le> k) xs)"
    using assms(2) by (simp add: desc_def sorted_wrt_filter)
  ultimately show ?thesis
    using pqueue.drain_due_rep [OF r, of k] f by (auto simp: pq_prio_def pq_rep_def)
qed

theorem pqueue_drain_due_witness:
  "let m = (\<lambda>a. \<lparr>nxt = (if a = 16 then 8 else 0), prv = (if a = 8 then 16 else 0), key = a\<rparr>);
       q = \<lparr>head = 16, tail = 8, qcount = 0\<rparr>
   in \<exists>m' q'. drain_due pqueue_remove_if NULL 10 (m, q) = Some ([8], m', q') \<and> list_rep m' q' [16]"
  using pqueue_drain_due [of "\<lambda>a. \<lparr>nxt = (if a = 16 then 8 else 0),
      prv = (if a = 8 then 16 else 0), key = a\<rparr>" "\<lparr>head = 16, tail = 8, qcount = 0\<rparr>" "[16, 8]" 10]
  by (simp add: list_rep_def ends_ok_def desc_def)

text \<open>\<open>List::remove\<close> does not clear the new tail's \<open>next\<close>: when at least one element stays, the
  removed node is still reachable, and a later \<open>find\<close> by its key answers it.\<close>

theorem list_remove_leaves_node_reachable:
  assumes "list_rep m q (xs @ [y, x])" and "\<forall>a\<in>set (xs @ [y]). key (m a) \<noteq> key (m x)"
  shows "fst (list_remove (m, q)) = x \<and> list_find (key (m x)) (snd (list_remove (m, q))) = Some x"
proof -
  have h: "head q = hd0 (xs @ [y, x]) NULL" "tail q = x" "x \<noteq> NULL" "head q \<noteq> x"
    using assms(1) by (auto simp: list_rep_def ends_ok_def last0_append hd0_append)
  have "List.find (\<lambda>a. key (m a) = key (m x)) (xs @ [y, x]) = Some x"
    using assms(2) by (induction xs) auto
  with list_walk_dll [of "xs @ [y, x]" m NULL "key (m x)"] assms(1)
  have "list_walk m (key (m x)) (head q) = Some x" by (simp add: list_rep_def h)
  with h show ?thesis by (simp add: list_remove_def list_find_def)
qed

theorem list_remove_leaves_node_reachable_witness:
  "let m = (\<lambda>a. \<lparr>nxt = (if a = 8 then 16 else 0), prv = (if a = 16 then 8 else 0), key = a\<rparr>);
       q = \<lparr>head = 8, tail = 16\<rparr>
   in fst (list_remove (m, q)) = 16 \<and> list_find 16 (snd (list_remove (m, q))) = Some 16"
  using list_remove_leaves_node_reachable [of "\<lambda>a. \<lparr>nxt = (if a = 8 then 16 else 0),
      prv = (if a = 16 then 8 else 0), key = a\<rparr>" "\<lparr>head = 8, tail = 16\<rparr>" "[]" 8 16]
  by (simp add: list_rep_def ends_ok_def)

text \<open>The inherited \<open>Queue::remove\<close> leaves the same stale pointer in a \<open>PQueue\<close>, where \<open>insert\<close>
  follows it: after insert, insert, remove, insert of four keys, the node that was removed is served
  a second time.\<close>

theorem pqueue_remove_then_insert_serves_twice:
  "let m = (\<lambda>a. \<lparr>nxt = 0, prv = 0, key = a\<rparr>) :: nat mem;
       s2 = Option.bind (pqueue_insert 24 (m, queue_init)) (pqueue_insert 16);
       (first, s3) = queue_remove (the s2);
       s4 = pqueue_insert 8 s3;
       (second, s5) = queue_remove (the s4);
       (third, s6) = queue_remove s5
   in first = 16 \<and> second = 8 \<and> third = 16"
  by (simp add: pqueue_insert_def queue_remove_def queue_init_def bubbleUp.simps bubble_swap_def
      set_nxt_def set_prv_def)

end
