(* ===== verification/Futex.thy ===== *)
theory Futex
  imports Intrusive_List
begin

text \<open>
  The futex manager, \<open>kernel/futexmgr.C\<close>: the kernel's list of waiting tasks, keyed by the address
  of the 64-bit word they wait on. The list is modelled by its contents from \<open>head\<close> to \<open>tail\<close> (its
  pointer code is in \<open>Intrusive_List\<close>); memory is a map from addresses to 64-bit words; a task that
  is made runnable is appended to \<open>released\<close>, in the order of the \<open>addTask\<close> calls. The manager's
  spinlock makes each operation atomic.
\<close>

type_synonym task = nat

datatype task_state = TASK_READY | TASK_BLOCK_FUTEX addr

record futexmgr =
  iv_list :: "(addr \<times> task) list"
  tstate :: "task \<Rightarrow> task_state"
  released :: "task list"
  doorbells :: nat

definition EWOULDBLOCK :: u64 where
  "EWOULDBLOCK = 11"

definition futexmgr_wait ::
  "(addr \<Rightarrow> u64) \<Rightarrow> task \<Rightarrow> addr \<Rightarrow> u64 \<Rightarrow> futexmgr \<Rightarrow> u64 \<times> futexmgr" where
  "futexmgr_wait mem i_task i_addr i_val s =
     (if mem i_addr \<noteq> i_val then (EWOULDBLOCK, s)
      else (0, s\<lparr>tstate := (tstate s)(i_task := TASK_BLOCK_FUTEX i_addr),
                 iv_list := (i_addr, i_task) # iv_list s\<rparr>))"

text \<open>\<open>iv_list.find(key)\<close> followed by \<open>iv_list.erase(waiter)\<close>: the first waiter with that key.\<close>

fun find_erase :: "'k \<Rightarrow> ('k \<times> 't) list \<Rightarrow> ('t \<times> ('k \<times> 't) list) option" where
  "find_erase k [] = None"
| "find_erase k ((a, t) # ws) =
     (if a = k then Some (t, ws)
      else case find_erase k ws of None \<Rightarrow> None | Some (t', ws') \<Rightarrow> Some (t', (a, t) # ws'))"

text \<open>The first loop of \<open>_wake\<close>: \<open>n\<close> is the number of tasks that may still be started.\<close>

function wake_loop :: "addr \<Rightarrow> nat \<Rightarrow> nat \<times> futexmgr \<Rightarrow> kerror + nat \<times> futexmgr" where
  "wake_loop f1 n r =
     (if n = 0 then Inr r
      else case find_erase f1 (iv_list (snd r)) of
        None \<Rightarrow> Inr r
      | Some (t, ws) \<Rightarrow>
          if t = NULL then Inl KAssert
          else wake_loop f1 (n - 1)
                 (Suc (fst r),
                  (snd r)\<lparr>iv_list := ws, tstate := (tstate (snd r))(t := TASK_READY),
                     released := released (snd r) @ [t]\<rparr>))"
  by pat_completeness auto
termination
  by (relation "measure (\<lambda>(f, n, r). n)") auto

text \<open>The second loop: up to \<open>n\<close> more waiters are moved to the second futex.\<close>

function move_loop :: "addr \<Rightarrow> addr \<Rightarrow> nat \<Rightarrow> futexmgr \<Rightarrow> kerror + futexmgr" where
  "move_loop f1 f2 n s =
     (if n = 0 then Inr s
      else case find_erase f1 (iv_list s) of
        None \<Rightarrow> Inr s
      | Some (t, ws) \<Rightarrow>
          if t = NULL then Inl KAssert
          else move_loop f1 f2 (n - 1)
                 (s\<lparr>iv_list := (f2, t) # ws, tstate := (tstate s)(t := TASK_BLOCK_FUTEX f2)\<rparr>))"
  by pat_completeness auto
termination
  by (relation "measure (\<lambda>(f, g, n, s). n)") auto

definition futexmgr_wake ::
  "addr \<Rightarrow> nat \<Rightarrow> addr \<Rightarrow> nat \<Rightarrow> futexmgr \<Rightarrow> kerror + nat \<times> futexmgr" where
  "futexmgr_wake f1 count1 f2 count2 s =
     sbind (wake_loop f1 count1 (0, s)) (\<lambda>(started, s1).
     sbind (if f2 \<noteq> NULL \<and> count2 \<noteq> 0 then move_loop f1 f2 count2 s1 else Inr s1) (\<lambda>s2.
       Inr (started, if started \<noteq> 0 then s2\<lparr>doorbells := Suc (doorbells s2)\<rparr> else s2)))"

declare wake_loop.simps [simp del] move_loop.simps [simp del]

section \<open>What the loops do to the list\<close>

definition on :: "addr \<Rightarrow> (addr \<times> task) list \<Rightarrow> task list" where
  "on a ws = map snd (filter (\<lambda>w. fst w = a) ws)"

fun drop_on :: "addr \<Rightarrow> nat \<Rightarrow> (addr \<times> task) list \<Rightarrow> (addr \<times> task) list" where
  "drop_on a n [] = []"
| "drop_on a n (w # ws) =
     (if fst w = a then if n = 0 then w # ws else drop_on a (n - 1) ws else w # drop_on a n ws)"

text \<open>No null task waits, no task waits twice, and a task's state says where it waits.\<close>

definition futex_inv :: "futexmgr \<Rightarrow> bool" where
  "futex_inv s \<longleftrightarrow> distinct (map snd (iv_list s)) \<and> NULL \<notin> snd ` set (iv_list s)
     \<and> (\<forall>a t. tstate s t = TASK_BLOCK_FUTEX a \<longleftrightarrow> (a, t) \<in> set (iv_list s))"

lemma on_simps [simp]:
  "on a [] = []" "on a (w # ws) = (if fst w = a then snd w # on a ws else on a ws)"
  "on a (xs @ ys) = on a xs @ on a ys"
  by (simp_all add: on_def)

lemma set_on: "t \<in> set (on a ws) \<longleftrightarrow> (a, t) \<in> set ws"
  by (force simp: on_def)

lemma drop_on_0 [simp]: "drop_on a 0 ws = ws"
  by (induction ws) auto

lemma set_drop_on: "set (drop_on a n ws) \<subseteq> set ws"
  by (induction a n ws rule: drop_on.induct) auto

lemma on_drop_on: "on a (drop_on a n ws) = drop n (on a ws)"
  by (induction a n ws rule: drop_on.induct) (auto simp: drop_Cons')

lemma on_drop_on_other: "b \<noteq> a \<Longrightarrow> on b (drop_on a n ws) = on b ws"
  by (induction a n ws rule: drop_on.induct) auto

lemma find_erase_None: "find_erase k ws = None \<longleftrightarrow> on k ws = []"
  by (induction k ws rule: find_erase.induct) (auto split: option.splits)

lemma find_erase_Some:
  "find_erase k ws = Some (t, ws') \<Longrightarrow> on k ws = t # on k ws' \<and> ws' = drop_on k 1 ws
     \<and> (k, t) \<in> set ws"
proof (induction k ws arbitrary: t ws' rule: find_erase.induct)
  case (2 k a t ws)
  then show ?case by (cases "find_erase k ws") (auto split: if_splits)
qed simp

lemma drop_on_Suc: "drop_on a (Suc n) ws = drop_on a n (drop_on a 1 ws)"
  by (induction ws) auto

lemma drop_on_all: "on a ws = [] \<Longrightarrow> drop_on a n ws = ws"
  by (induction ws) (auto split: if_splits)

lemma wake_loop_spec:
  "NULL \<notin> snd ` set (iv_list (snd r)) \<Longrightarrow> \<exists>r'. wake_loop f n r = Inr r'
     \<and> fst r' = fst r + min n (length (on f (iv_list (snd r))))
     \<and> iv_list (snd r') = drop_on f n (iv_list (snd r))
     \<and> released (snd r') = released (snd r) @ take n (on f (iv_list (snd r)))
     \<and> (\<forall>t. tstate (snd r') t = (if t \<in> set (take n (on f (iv_list (snd r)))) then TASK_READY else tstate (snd r) t))
     \<and> doorbells (snd r') = doorbells (snd r)"
proof (induction n arbitrary: r)
  case 0
  then show ?case by (simp add: wake_loop.simps)
next
  case (Suc n)
  show ?case
  proof (cases "find_erase f (iv_list (snd r))")
    case None
    then show ?thesis
      using find_erase_None [of f "iv_list (snd r)"]
      by (auto simp: wake_loop.simps [of f "Suc n" r] drop_on_all)
  next
    case (Some x)
    then obtain t ws where x: "find_erase f (iv_list (snd r)) = Some (t, ws)" by (cases x) auto
    note fe = find_erase_Some [OF x]
    with Suc.prems have t: "t \<noteq> NULL" by force
    let ?r = "(Suc (fst r), (snd r)\<lparr>iv_list := ws, tstate := (tstate (snd r))(t := TASK_READY),
       released := released (snd r) @ [t]\<rparr>)"
    have ws: "ws = drop_on f 1 (iv_list (snd r))" "on f (iv_list (snd r)) = t # on f ws" using fe by auto
    then have "NULL \<notin> snd ` set (iv_list (snd ?r))" using Suc.prems set_drop_on [of f 1 "iv_list (snd r)"] by auto
    from Suc.IH [OF this] obtain r' where "wake_loop f n ?r = Inr r'"
      "fst r' = Suc (fst r) + min n (length (on f ws))" "iv_list (snd r') = drop_on f n ws"
      "released (snd r') = (released (snd r) @ [t]) @ take n (on f ws)"
      "\<forall>u. tstate (snd r') u = (if u \<in> set (take n (on f ws)) then TASK_READY else ((tstate (snd r))(t := TASK_READY)) u)"
      "doorbells (snd r') = doorbells (snd r)" by auto
    moreover have "wake_loop f (Suc n) r = wake_loop f n ?r"
      using x t by (simp add: wake_loop.simps [of f "Suc n" r])
    ultimately show ?thesis using ws by (auto simp: drop_on_Suc [of f n] fun_eq_iff)
  qed
qed

lemma move_loop_spec:
  "f1 \<noteq> f2 \<Longrightarrow> NULL \<notin> snd ` set (iv_list s) \<Longrightarrow> \<exists>s'. move_loop f1 f2 n s = Inr s'
     \<and> iv_list s' = map (\<lambda>t. (f2, t)) (rev (take n (on f1 (iv_list s)))) @ drop_on f1 n (iv_list s)
     \<and> (\<forall>t. tstate s' t = (if t \<in> set (take n (on f1 (iv_list s))) then TASK_BLOCK_FUTEX f2 else tstate s t))
     \<and> released s' = released s \<and> doorbells s' = doorbells s"
proof (induction n arbitrary: s)
  case 0
  then show ?case by (simp add: move_loop.simps)
next
  case (Suc n)
  show ?case
  proof (cases "find_erase f1 (iv_list s)")
    case None
    then show ?thesis
      using find_erase_None [of f1 "iv_list s"]
      by (auto simp: move_loop.simps [of f1 f2 "Suc n" s] drop_on_all)
  next
    case (Some x)
    then obtain t ws where x: "find_erase f1 (iv_list s) = Some (t, ws)" by (cases x) auto
    note fe = find_erase_Some [OF x]
    with Suc.prems have t: "t \<noteq> NULL" by force
    let ?s = "s\<lparr>iv_list := (f2, t) # ws, tstate := (tstate s)(t := TASK_BLOCK_FUTEX f2)\<rparr>"
    have ws: "ws = drop_on f1 1 (iv_list s)" "on f1 (iv_list s) = t # on f1 ws" using fe by auto
    then have "NULL \<notin> snd ` set (iv_list ?s)"
      using Suc.prems(2) t set_drop_on [of f1 1 "iv_list s"] by auto
    from Suc.IH [OF Suc.prems(1) this] obtain s' where "move_loop f1 f2 n ?s = Inr s'"
      "iv_list s' = map (\<lambda>t. (f2, t)) (rev (take n (on f1 ws))) @ (f2, t) # drop_on f1 n ws"
      "\<forall>u. tstate s' u = (if u \<in> set (take n (on f1 ws)) then TASK_BLOCK_FUTEX f2
         else ((tstate s)(t := TASK_BLOCK_FUTEX f2)) u)"
      "released s' = released s" "doorbells s' = doorbells s" using Suc.prems(1) by auto
    moreover have "move_loop f1 f2 (Suc n) s = move_loop f1 f2 n ?s"
      using x t by (simp add: move_loop.simps [of f1 f2 "Suc n" s])
    ultimately show ?thesis using ws by (auto simp: drop_on_Suc [of f1 n] fun_eq_iff)
  qed
qed

section \<open>Properties\<close>

text \<open>
  The result of a wake: the first \<open>count1\<close> waiters of the first futex are released, the next
  \<open>count2\<close> become waiters of the second one, the others stay as they are.
\<close>

definition woken :: "addr \<Rightarrow> nat \<Rightarrow> futexmgr \<Rightarrow> task list" where
  "woken f1 count1 s = take count1 (on f1 (iv_list s))"

definition moved :: "addr \<Rightarrow> nat \<Rightarrow> addr \<Rightarrow> nat \<Rightarrow> futexmgr \<Rightarrow> task list" where
  "moved f1 count1 f2 count2 s =
     (if f2 = NULL then [] else take count2 (drop count1 (on f1 (iv_list s))))"

lemma futexmgr_wake_spec:
  assumes "NULL \<notin> snd ` set (iv_list s)" "f1 \<noteq> f2"
  shows "\<exists>s'. futexmgr_wake f1 count1 f2 count2 s = Inr (length (woken f1 count1 s), s')
    \<and> released s' = released s @ woken f1 count1 s
    \<and> iv_list s' = map (\<lambda>t. (f2, t)) (rev (moved f1 count1 f2 count2 s))
        @ drop_on f1 (length (moved f1 count1 f2 count2 s)) (drop_on f1 count1 (iv_list s))
    \<and> (\<forall>t. tstate s' t = (if t \<in> set (moved f1 count1 f2 count2 s) then TASK_BLOCK_FUTEX f2
         else if t \<in> set (woken f1 count1 s) then TASK_READY else tstate s t))"
proof -
  from wake_loop_spec [of "(0, s)" f1 count1] assms(1) obtain n1 s1 where
    s1: "wake_loop f1 count1 (0, s) = Inr (n1, s1)" "n1 = length (woken f1 count1 s)"
      "iv_list s1 = drop_on f1 count1 (iv_list s)" "released s1 = released s @ woken f1 count1 s"
      "\<forall>t. tstate s1 t = (if t \<in> set (woken f1 count1 s) then TASK_READY else tstate s t)"
    by (auto simp: woken_def min.commute)
  have nn: "NULL \<notin> snd ` set (iv_list s1)"
    using assms(1) set_drop_on [of f1 count1 "iv_list s"] s1(3) by auto
  show ?thesis
  proof (cases "f2 \<noteq> NULL \<and> count2 \<noteq> 0")
    case False
    then have "moved f1 count1 f2 count2 s = []" by (auto simp: moved_def)
    with False s1 show ?thesis by (auto simp: futexmgr_wake_def)
  next
    case True
    from move_loop_spec [OF assms(2) nn, of count2] obtain s2 where
      s2: "move_loop f1 f2 count2 s1 = Inr s2" "released s2 = released s1"
        "iv_list s2 = map (\<lambda>t. (f2, t)) (rev (moved f1 count1 f2 count2 s))
           @ drop_on f1 count2 (drop_on f1 count1 (iv_list s))"
        "\<forall>t. tstate s2 t = (if t \<in> set (moved f1 count1 f2 count2 s) then TASK_BLOCK_FUTEX f2 else tstate s1 t)"
      using True by (auto simp: moved_def s1(3) on_drop_on)
    have "drop_on f1 count2 ws = drop_on f1 (min (length (on f1 ws)) count2) ws" for ws
      by (induction f1 count2 ws rule: drop_on.induct) (auto simp: min_def)
    then have "drop_on f1 count2 (drop_on f1 count1 (iv_list s))
      = drop_on f1 (length (moved f1 count1 f2 count2 s)) (drop_on f1 count1 (iv_list s))"
      using True by (metis moved_def length_take on_drop_on)
    with s1 s2 True show ?thesis by (auto simp: futexmgr_wake_def)
  qed
qed

lemma on_map_pair: "on a (map (\<lambda>t. (b, t)) ts) = (if a = b then ts else [])"
  by (induction ts) auto

lemma futexmgr_wake_on:
  assumes "NULL \<notin> snd ` set (iv_list s)" "f1 \<noteq> f2"
    and "futexmgr_wake f1 count1 f2 count2 s = Inr (n, s')"
  shows "on a (iv_list s') =
    (if a = f1 then drop (length (moved f1 count1 f2 count2 s)) (drop count1 (on f1 (iv_list s)))
     else if a = f2 then rev (moved f1 count1 f2 count2 s) @ on f2 (iv_list s)
     else on a (iv_list s))"
  using futexmgr_wake_spec [OF assms(1,2), of count1 count2] assms(2,3)
  by (auto simp: on_map_pair on_drop_on on_drop_on_other)

text \<open>C28. \<open>FutexManager::_wake\<close> always returns, starts exactly the first \<open>count1\<close> waiters of the first
  futex (all of them if there are fewer) and answers their number, makes exactly the next \<open>count2\<close>
  waiters wait on the second futex, and leaves the waiters of every other futex alone.\<close>

theorem futexmgr_wake_exact:
  assumes "NULL \<notin> snd ` set (iv_list s)" and "f1 \<noteq> f2"
  shows "\<exists>s'. futexmgr_wake f1 count1 f2 count2 s = Inr (length (woken f1 count1 s), s')
    \<and> released s' = released s @ woken f1 count1 s
    \<and> on f1 (iv_list s') = drop (length (moved f1 count1 f2 count2 s)) (drop count1 (on f1 (iv_list s)))
    \<and> on f2 (iv_list s') = rev (moved f1 count1 f2 count2 s) @ on f2 (iv_list s)
    \<and> (\<forall>a. a \<noteq> f1 \<and> a \<noteq> f2 \<longrightarrow> on a (iv_list s') = on a (iv_list s))"
  using futexmgr_wake_spec [OF assms, of count1 count2] futexmgr_wake_on [OF assms, of count1 count2]
    assms(2) by fastforce

theorem futexmgr_wake_exact_witness:
  "let s = \<lparr>iv_list = [(8, 3), (16, 4), (8, 5), (8, 6)], tstate = (\<lambda>_. TASK_READY), released = [],
       doorbells = 0\<rparr>
   in \<exists>s'. futexmgr_wake 8 1 24 1 s = Inr (1, s') \<and> released s' = [3]
    \<and> on 8 (iv_list s') = [6] \<and> on 24 (iv_list s') = [5]"
  using futexmgr_wake_exact [of "\<lparr>iv_list = [(8, 3), (16, 4), (8, 5), (8, 6)],
      tstate = (\<lambda>_. TASK_READY), released = [], doorbells = 0\<rparr>" 8 24 1 1]
  by (auto simp: woken_def moved_def)

lemma set_drop_on_eq:
  "distinct (map snd ws) \<Longrightarrow>
     (b, t) \<in> set (drop_on a n ws) \<longleftrightarrow> (b, t) \<in> set ws \<and> t \<notin> set (take n (on a ws))"
proof (induction a n ws rule: drop_on.induct)
  case (2 a n w ws)
  have "t \<notin> set (take n (on a ws))" if "t = snd w"
    using 2 that by (auto simp: set_on dest!: in_set_takeD intro: rev_image_eqI)
  with 2 show ?case by (cases w) (auto simp: take_Cons' set_on dest: in_set_takeD intro: rev_image_eqI)
qed simp

lemma distinct_drop_on: "distinct (map snd ws) \<Longrightarrow> distinct (map snd (drop_on a n ws))"
proof (induction a n ws rule: drop_on.induct)
  case (2 a n w ws)
  then show ?case using set_drop_on [of a n ws] by (auto split: if_splits)
qed simp

lemma distinct_on: "distinct (map snd ws) \<Longrightarrow> distinct (on a ws)"
  by (induction ws) (auto simp: set_on intro: rev_image_eqI)

lemma futexmgr_wake_inv:
  assumes inv: "futex_inv s" and ne: "f1 \<noteq> f2"
  shows "\<exists>n s'. futexmgr_wake f1 count1 f2 count2 s = Inr (n, s') \<and> futex_inv s'"
proof -
  let ?ws = "iv_list s" and ?W = "woken f1 count1 s" and ?M = "moved f1 count1 f2 count2 s"
  let ?rest = "drop_on f1 (length ?M) (drop_on f1 count1 ?ws)"
  have d: "distinct (map snd ?ws)" "NULL \<notin> snd ` set ?ws" using inv by (auto simp: futex_inv_def)
  from futexmgr_wake_spec [OF d(2) ne, of count1 count2] obtain s' where
    s': "futexmgr_wake f1 count1 f2 count2 s = Inr (length ?W, s')"
      "iv_list s' = map (\<lambda>t. (f2, t)) (rev ?M) @ ?rest"
      "\<forall>t. tstate s' t = (if t \<in> set ?M then TASK_BLOCK_FUTEX f2
         else if t \<in> set ?W then TASK_READY else tstate s t)" by blast
  have M: "?M = take (length ?M) (drop count1 (on f1 ?ws))"
    by (cases "count2 \<le> length (drop count1 (on f1 ?ws))") (auto simp: moved_def min_def)
  have dis: "set ?W \<inter> set ?M = {}" "distinct ?M"
    using distinct_on [OF d(1), of f1] set_take_disj_set_drop_if_distinct [of "on f1 ?ws" count1 count1]
    by (auto simp: woken_def moved_def dest: in_set_takeD)
  have rest: "(b, t) \<in> set ?rest \<longleftrightarrow> (b, t) \<in> set ?ws \<and> t \<notin> set ?W \<and> t \<notin> set ?M" for b t
    using d(1) distinct_drop_on [OF d(1), of f1 count1] M
    by (simp add: set_drop_on_eq on_drop_on woken_def)
  have MW: "(f1, t) \<in> set ?ws" if "t \<in> set ?M \<or> t \<in> set ?W" for t
    using that by (auto simp: moved_def woken_def set_on [symmetric] split: if_splits
        dest: in_set_takeD in_set_dropD)
  have "distinct (map snd (iv_list s'))"
  proof -
    have "map snd (map (\<lambda>t. (f2, t)) (rev ?M)) = rev ?M" by (simp add: comp_def)
    moreover have "set ?M \<inter> snd ` set ?rest = {}" using rest by auto
    moreover have "distinct (map snd ?rest)" using d(1) by (simp add: distinct_drop_on)
    ultimately show ?thesis using dis(2) unfolding s'(2) map_append distinct_append by auto
  qed
  moreover have "NULL \<notin> snd ` set (iv_list s')"
  proof -
    have "NULL \<notin> set ?M" using MW d(2) by (metis image_eqI snd_conv)
    moreover have "NULL \<notin> snd ` set ?rest"
      using d(2) set_drop_on [of f1 "length ?M"] set_drop_on [of f1 count1 ?ws] by blast
    ultimately show ?thesis unfolding s'(2) by auto
  qed
  moreover have "tstate s' t = TASK_BLOCK_FUTEX a \<longleftrightarrow> (a, t) \<in> set (iv_list s')" for a t
    using inv rest dis(1) by (auto simp: s'(2,3) futex_inv_def)
  ultimately show ?thesis using s'(1) by (auto simp: futex_inv_def)
qed

text \<open>Wait and wake keep the futex manager consistent: each waiting task is on the list once, with
  the address its own state names, and no null task ever waits.\<close>

theorem futexmgr_consistent:
  assumes "futex_inv s" and "t \<noteq> NULL" and "tstate s t = TASK_READY" and "f1 \<noteq> f2"
  shows "futex_inv (snd (futexmgr_wait mem t a v s))
    \<and> (\<exists>n s'. futexmgr_wake f1 count1 f2 count2 s = Inr (n, s') \<and> futex_inv s')"
proof -
  have "t \<notin> snd ` set (iv_list s)"
  proof
    assume "t \<in> snd ` set (iv_list s)"
    then obtain b where "(b, t) \<in> set (iv_list s)" by auto
    with assms(1,3) show False by (metis futex_inv_def task_state.distinct(1))
  qed
  then have "(b, t) \<notin> set (iv_list s)" for b by force
  with assms \<open>t \<notin> snd ` set (iv_list s)\<close> have "futex_inv (snd (futexmgr_wait mem t a v s))"
    by (auto simp: futexmgr_wait_def futex_inv_def)
  with futexmgr_wake_inv [OF assms(1,4)] show ?thesis by blast
qed

theorem futexmgr_consistent_witness:
  "let s = \<lparr>iv_list = [(8, 3)], tstate = (\<lambda>_. TASK_READY)(3 := TASK_BLOCK_FUTEX 8), released = [],
       doorbells = 0\<rparr>
   in futex_inv (snd (futexmgr_wait (\<lambda>_. 0) 4 8 0 s))
    \<and> (\<exists>n s'. futexmgr_wake 8 1 16 1 s = Inr (n, s') \<and> futex_inv s')"
  unfolding Let_def by (rule futexmgr_consistent) (auto simp: futex_inv_def)

end
