(* ===== verification/Sync.thy ===== *)
theory Sync
  imports Futex
begin

text \<open>
  The user-space mutex and condition variable, \<open>lib/sync.C\<close>, on top of the kernel's futexes. Any
  number of tasks use one mutex and one condition variable; each step is one atomic access to the
  mutex word or the condition's sequence number, or one futex system call, so the model has every
  interleaving of the code. The program counter of a task is the point it has reached in
  \<open>mutex_lock\<close>, \<open>mutex_unlock\<close>, \<open>sync_cond_wait\<close>, \<open>sync_cond_signal\<close> or \<open>sync_cond_broadcast\<close>.
\<close>

text \<open>The addresses of \<open>i_mutex->iv_val\<close> and \<open>i_cond->sequence\<close>; any two different addresses do.\<close>

definition MTX :: addr where
  "MTX = 256"

definition SEQ :: addr where
  "SEQ = 512"

definition UINT64_MAX :: nat where
  "UINT64_MAX = 2 ^ 64 - 1"

text \<open>
  \<open>LSwap\<close>: before a test-and-set of the word to 2. \<open>LWait\<close>: before \<open>futex_wait(&iv_val, 2)\<close>.
  \<open>UStore\<close>, \<open>UWake\<close>: in \<open>mutex_unlock\<close>, before the store of 0 and before \<open>futex_wake\<close>; the argument
  is the sequence number a \<open>sync_cond_wait\<close> goes on with. \<open>CBind\<close>, \<open>CUnlock\<close>, \<open>CWait\<close>: in
  \<open>sync_cond_wait\<close>, before it binds the condition to the mutex, before its unlock and before its
  \<open>futex_wait\<close>. \<open>SWake\<close>, \<open>BWake\<close>: a signal or broadcast before its
  system call, by a task that holds the mutex or not. \<open>Sleep\<close>: blocked in the kernel.
\<close>

datatype spc =
    Out
  | LSwap
  | LWait
  | Sleep
  | Held
  | UStore "u64 option"
  | UWake "u64 option"
  | CBind u64
  | CUnlock u64
  | CWait u64
  | SWake bool
  | BWake bool

record sync =
  iv_val :: u64
  sequence :: u64
  cmutex :: addr
  recursive :: bool
  fx :: futexmgr
  spcs :: "task \<Rightarrow> spc"

definition sync_mem :: "sync \<Rightarrow> addr \<Rightarrow> u64" where
  "sync_mem s a = (if a = MTX then iv_val s else if a = SEQ then sequence s else 0)"

definition goto :: "task \<Rightarrow> spc \<Rightarrow> sync \<Rightarrow> sync" where
  "goto t c s = s\<lparr>spcs := (spcs s)(t := c)\<rparr>"

text \<open>\<open>futex_wait\<close>: the caller goes to sleep, or goes on at \<open>LSwap\<close> when the word has changed.\<close>

definition futex_wait :: "task \<Rightarrow> addr \<Rightarrow> u64 \<Rightarrow> sync \<Rightarrow> sync" where
  "futex_wait t a v s =
     (let (rc, f) = futexmgr_wait (sync_mem s) t a v (fx s)
      in goto t (if rc = 0 then Sleep else LSwap) (s\<lparr>fx := f\<rparr>))"

text \<open>
  \<open>futex_wake\<close> and \<open>futex_requeue\<close>: the caller goes on at \<open>c\<close>; every task the kernel released
  returns from its \<open>futex_wait\<close>, which in \<open>mutex_lock\<close> and in \<open>sync_cond_wait\<close> is followed by the
  test-and-set.
\<close>

definition futex_wake :: "task \<Rightarrow> spc \<Rightarrow> addr \<Rightarrow> nat \<Rightarrow> addr \<Rightarrow> nat \<Rightarrow> sync \<Rightarrow> kerror + sync" where
  "futex_wake t c f1 n1 f2 n2 s =
     (case futexmgr_wake f1 n1 f2 n2 ((fx s)\<lparr>released := []\<rparr>) of
        Inl e \<Rightarrow> Inl e
      | Inr (n, f) \<Rightarrow>
          Inr (s\<lparr>fx := f, spcs := (\<lambda>u. if u \<in> set (released f) then LSwap
                                        else if u = t then c else spcs s u)\<rparr>))"

definition mutex_lock_step :: "task \<Rightarrow> sync \<Rightarrow> kerror + sync" where
  "mutex_lock_step t s = (case spcs s t of
     Out \<Rightarrow>
       if recursive s then Inl CritAssert
       else Inr (if iv_val s = 0 then goto t Held (s\<lparr>iv_val := 1\<rparr>)
                 else if iv_val s \<noteq> 2 then goto t LSwap s
                 else goto t LWait s)
   | LSwap \<Rightarrow> Inr (goto t (if iv_val s = 0 then Held else LWait) (s\<lparr>iv_val := 2\<rparr>))
   | LWait \<Rightarrow> Inr (futex_wait t MTX 2 s)
   | _ \<Rightarrow> Inr s)"

definition after :: "u64 option \<Rightarrow> spc" where
  "after k = (case k of None \<Rightarrow> Out | Some q \<Rightarrow> CWait q)"

definition unlock_sub :: "task \<Rightarrow> u64 option \<Rightarrow> sync \<Rightarrow> kerror + sync" where
  "unlock_sub t k s =
     (if recursive s then Inl CritAssert
      else Inr (goto t (if iv_val s \<ge> 2 then UStore k else after k) (s\<lparr>iv_val := iv_val s - 1\<rparr>)))"

definition mutex_unlock_step :: "task \<Rightarrow> sync \<Rightarrow> kerror + sync" where
  "mutex_unlock_step t s = (case spcs s t of
     Held \<Rightarrow> unlock_sub t None s
   | UStore k \<Rightarrow> Inr (goto t (UWake k) (s\<lparr>iv_val := 0\<rparr>))
   | UWake k \<Rightarrow> futex_wake t (after k) MTX 1 NULL 0 s
   | _ \<Rightarrow> Inr s)"

text \<open>
  \<open>sync_cond_wait\<close> up to its \<open>futex_wait\<close>; the loop after it is the one of \<open>mutex_lock\<close>. A condition
  bound to another mutex answers \<open>EINVAL\<close> with the mutex still held.
\<close>

definition sync_cond_wait_step :: "task \<Rightarrow> sync \<Rightarrow> kerror + sync" where
  "sync_cond_wait_step t s = (case spcs s t of
     Held \<Rightarrow> Inr (goto t (CBind (sequence s)) s)
   | CBind q \<Rightarrow>
       Inr (if cmutex s \<noteq> MTX \<and> cmutex s \<noteq> NULL then goto t Held s
            else goto t (CUnlock q) (s\<lparr>cmutex := MTX\<rparr>))
   | CUnlock q \<Rightarrow> unlock_sub t (Some q) s
   | CWait q \<Rightarrow> Inr (futex_wait t SEQ q s)
   | _ \<Rightarrow> Inr s)"

definition sync_cond_signal_step :: "task \<Rightarrow> sync \<Rightarrow> kerror + sync" where
  "sync_cond_signal_step t s = (case spcs s t of
     Held \<Rightarrow> Inr (goto t (SWake True) (s\<lparr>sequence := sequence s + 1\<rparr>))
   | Out \<Rightarrow> Inr (goto t (SWake False) (s\<lparr>sequence := sequence s + 1\<rparr>))
   | SWake h \<Rightarrow> futex_wake t (if h then Held else Out) SEQ 1 NULL 0 s
   | _ \<Rightarrow> Inr s)"

definition sync_cond_broadcast_step :: "task \<Rightarrow> sync \<Rightarrow> kerror + sync" where
  "sync_cond_broadcast_step t s = (case spcs s t of
     Held \<Rightarrow> Inr (if cmutex s = NULL then s else goto t (BWake True) (s\<lparr>sequence := sequence s + 1\<rparr>))
   | Out \<Rightarrow> Inr (if cmutex s = NULL then s else goto t (BWake False) (s\<lparr>sequence := sequence s + 1\<rparr>))
   | BWake h \<Rightarrow> futex_wake t (if h then Held else Out) SEQ 1 MTX UINT64_MAX s
   | _ \<Rightarrow> Inr s)"

definition mutex_init :: sync where
  "mutex_init = \<lparr>iv_val = 0, sequence = 0, cmutex = NULL, recursive = False,
     fx = \<lparr>iv_list = [], tstate = (\<lambda>_. TASK_READY), released = [], doorbells = 0\<rparr>,
     spcs = (\<lambda>_. Out)\<rparr>"

inductive sstep :: "sync \<Rightarrow> kerror + sync \<Rightarrow> bool" where
  step_lock: "t \<noteq> NULL \<Longrightarrow> sstep s (mutex_lock_step t s)"
| step_unlock: "t \<noteq> NULL \<Longrightarrow> sstep s (mutex_unlock_step t s)"
| step_wait: "t \<noteq> NULL \<Longrightarrow> sstep s (sync_cond_wait_step t s)"
| step_signal: "t \<noteq> NULL \<Longrightarrow> sstep s (sync_cond_signal_step t s)"
| step_broadcast: "t \<noteq> NULL \<Longrightarrow> sstep s (sync_cond_broadcast_step t s)"

inductive sreach :: "sync \<Rightarrow> bool" where
  sreach_init: "sreach mutex_init"
| sreach_step: "sreach s \<Longrightarrow> sstep s (Inr s') \<Longrightarrow> sreach s'"

section \<open>Invariant\<close>

fun holding :: "spc \<Rightarrow> bool" where
  "holding Held = True"
| "holding (CBind q) = True"
| "holding (CUnlock q) = True"
| "holding (UStore k) = True"
| "holding (SWake h) = h"
| "holding (BWake h) = h"
| "holding _ = False"

fun in_flight :: "spc \<Rightarrow> bool" where
  "in_flight LSwap = True"
| "in_flight (UStore k) = True"
| "in_flight (UWake k) = True"
| "in_flight _ = False"

definition lock_inv :: "sync \<Rightarrow> bool" where
  "lock_inv s \<longleftrightarrow> iv_val s \<in> {0, 1, 2}
     \<and> (\<forall>t. holding (spcs s t) \<longrightarrow> iv_val s \<noteq> 0)
     \<and> (iv_val s \<noteq> 0 \<longrightarrow> (\<exists>t. holding (spcs s t)))
     \<and> (\<forall>t u. holding (spcs s t) \<longrightarrow> holding (spcs s u) \<longrightarrow> t = u)"

definition wake_inv :: "sync \<Rightarrow> bool" where
  "wake_inv s \<longleftrightarrow> (on MTX (iv_list (fx s)) \<noteq> [] \<longrightarrow> iv_val s = 2 \<or> (\<exists>t. in_flight (spcs s t)))"

definition sleep_inv :: "sync \<Rightarrow> bool" where
  "sleep_inv s \<longleftrightarrow> futex_inv (fx s)
     \<and> (\<forall>t. spcs s t = Sleep \<longleftrightarrow> t \<in> snd ` set (iv_list (fx s)))"

lemma goto_fields [simp]:
  "spcs (goto t c s) = (spcs s)(t := c)" "iv_val (goto t c s) = iv_val s"
  "sequence (goto t c s) = sequence s" "cmutex (goto t c s) = cmutex s"
  "recursive (goto t c s) = recursive s" "fx (goto t c s) = fx s"
  by (simp_all add: goto_def)

lemma addrs [simp]: "MTX \<noteq> SEQ" "SEQ \<noteq> MTX" "MTX \<noteq> 0" "SEQ \<noteq> 0" "0 < MTX" "0 < SEQ"
  by (simp_all add: MTX_def SEQ_def)

lemma blocked_iff: "futex_inv f \<Longrightarrow> t \<in> snd ` set (iv_list f) \<longleftrightarrow> tstate f t \<noteq> TASK_READY"
  unfolding futex_inv_def by (cases "tstate f t") (force+)

subsection \<open>Mutual exclusion\<close>

lemma lock_keep:
  assumes "lock_inv s" "\<not> holding (spcs s t)" "\<not> holding c" "v = iv_val s \<or> iv_val s \<noteq> 0 \<and> v \<in> {1, 2}"
  shows "lock_inv (goto t c (s\<lparr>iv_val := v\<rparr>))"
  using assms unfolding lock_inv_def by (auto split: if_splits)

lemma lock_acquire:
  assumes "lock_inv s" "iv_val s = 0" "holding c" "v \<in> {1, 2}"
  shows "lock_inv (goto t c (s\<lparr>iv_val := v\<rparr>))"
  using assms unfolding lock_inv_def by (auto split: if_splits)

lemma lock_stay:
  assumes "lock_inv s" "holding (spcs s t)" "holding c" "v \<in> {1, 2}"
  shows "lock_inv (goto t c (s\<lparr>iv_val := v\<rparr>))"
  using assms unfolding lock_inv_def by (auto split: if_splits)

lemma lock_release:
  assumes "lock_inv s" "holding (spcs s t)" "\<not> holding c"
  shows "lock_inv (goto t c (s\<lparr>iv_val := 0\<rparr>))"
  using assms unfolding lock_inv_def by (auto split: if_splits)

lemma lock_inv_cong:
  "iv_val s' = iv_val s \<Longrightarrow> (\<And>t. holding (spcs s' t) = holding (spcs s t)) \<Longrightarrow> lock_inv s \<Longrightarrow> lock_inv s'"
  by (simp add: lock_inv_def)

subsection \<open>System calls\<close>

lemma futex_wait_cases:
  obtains "sync_mem s a \<noteq> v" "futex_wait t a v s = goto t LSwap s"
  | f where "sync_mem s a = v" "futex_wait t a v s = goto t Sleep (s\<lparr>fx := f\<rparr>)"
      "f = (fx s)\<lparr>tstate := (tstate (fx s))(t := TASK_BLOCK_FUTEX a), iv_list := (a, t) # iv_list (fx s)\<rparr>"
  by (cases "sync_mem s a = v") (auto simp: futex_wait_def futexmgr_wait_def EWOULDBLOCK_def)

lemma futex_wait_sleep_inv:
  assumes "sleep_inv s" "t \<noteq> NULL" "spcs s t \<noteq> Sleep"
  shows "sleep_inv (futex_wait t a v s)"
proof (cases rule: futex_wait_cases [of s a v t])
  case 1
  with assms show ?thesis by (auto simp: sleep_inv_def)
next
  case (2 f)
  have "t \<notin> snd ` set (iv_list (fx s))" using assms by (simp add: sleep_inv_def)
  moreover from this have "\<And>b. (b, t) \<notin> set (iv_list (fx s))" by force
  ultimately have "futex_inv f" using assms(1,2) unfolding 2(3) by (auto simp: sleep_inv_def futex_inv_def)
  with 2 assms show ?thesis by (auto simp: sleep_inv_def)
qed

lemma futex_wake_step:
  assumes sl: "sleep_inv s" and ne: "f1 \<noteq> f2"
  obtains s' where "futex_wake t c f1 n1 f2 n2 s = Inr s'"
    "spcs s' = (\<lambda>u. if u \<in> set (woken f1 n1 (fx s)) then LSwap else if u = t then c else spcs s u)"
    "iv_val s' = iv_val s" "sequence s' = sequence s" "cmutex s' = cmutex s" "recursive s' = recursive s"
    "futex_inv (fx s')"
    "\<And>u. u \<in> snd ` set (iv_list (fx s')) \<longleftrightarrow> u \<in> snd ` set (iv_list (fx s)) \<and> u \<notin> set (woken f1 n1 (fx s))"
    "\<And>a. on a (iv_list (fx s')) =
      (if a = f1 then drop (length (moved f1 n1 f2 n2 (fx s))) (drop n1 (on f1 (iv_list (fx s))))
       else if a = f2 then rev (moved f1 n1 f2 n2 (fx s)) @ on f2 (iv_list (fx s))
       else on a (iv_list (fx s)))"
proof -
  let ?f = "(fx s)\<lparr>released := []\<rparr>"
  have inv: "futex_inv ?f" using sl by (simp add: sleep_inv_def futex_inv_def)
  then have nn: "NULL \<notin> snd ` set (iv_list ?f)" by (simp add: futex_inv_def)
  have same: "woken f1 n1 ?f = woken f1 n1 (fx s)" "moved f1 n1 f2 n2 ?f = moved f1 n1 f2 n2 (fx s)"
    by (simp_all add: woken_def moved_def)
  from futexmgr_wake_spec [OF nn ne, of n1 n2] obtain f where
    f: "futexmgr_wake f1 n1 f2 n2 ?f = Inr (length (woken f1 n1 (fx s)), f)"
      "released f = woken f1 n1 (fx s)"
      "\<forall>t. tstate f t = (if t \<in> set (moved f1 n1 f2 n2 (fx s)) then TASK_BLOCK_FUTEX f2
         else if t \<in> set (woken f1 n1 (fx s)) then TASK_READY else tstate (fx s) t)"
    by (auto simp: same)
  from futexmgr_wake_inv [OF inv ne, of n1 n2] f(1) have fi: "futex_inv f" by simp
  have mv: "u \<in> snd ` set (iv_list (fx s)) \<and> u \<notin> set (woken f1 n1 (fx s))"
    if "u \<in> set (moved f1 n1 f2 n2 (fx s))" for u
  proof -
    have "distinct (on f1 (iv_list (fx s)))" using inv by (simp add: futex_inv_def distinct_on)
    then have "set (take n1 (on f1 (iv_list (fx s)))) \<inter> set (drop n1 (on f1 (iv_list (fx s)))) = {}"
      by (rule set_take_disj_set_drop_if_distinct) simp
    moreover have u: "u \<in> set (drop n1 (on f1 (iv_list (fx s))))"
      using that by (auto simp: moved_def split: if_splits dest: in_set_takeD)
    moreover have "(f1, u) \<in> set (iv_list (fx s))" using in_set_dropD [OF u] by (simp add: set_on)
    ultimately show ?thesis by (auto simp: woken_def intro: rev_image_eqI)
  qed
  have mem: "u \<in> snd ` set (iv_list f) \<longleftrightarrow> u \<in> snd ` set (iv_list (fx s)) \<and> u \<notin> set (woken f1 n1 (fx s))" for u
    using mv [of u] blocked_iff [OF fi, of u] blocked_iff [OF inv, of u] f(3) by auto
  show thesis
    using that [of "s\<lparr>fx := f, spcs := (\<lambda>u. if u \<in> set (woken f1 n1 (fx s)) then LSwap
        else if u = t then c else spcs s u)\<rparr>"] f fi mem futexmgr_wake_on [OF nn ne f(1)]
    by (simp add: futex_wake_def same)
qed

lemma not_sleeping:
  "sleep_inv s \<Longrightarrow> spcs s t \<noteq> Sleep \<Longrightarrow> u \<in> set (woken f n (fx s)) \<Longrightarrow> u \<noteq> t \<and> spcs s u = Sleep"
proof -
  assume sl: "sleep_inv s" "spcs s t \<noteq> Sleep" and u: "u \<in> set (woken f n (fx s))"
  then have "(f, u) \<in> set (iv_list (fx s))"
    by (auto simp: woken_def set_on [symmetric] dest: in_set_takeD)
  then have "spcs s u = Sleep" using sl(1) by (force simp: sleep_inv_def)
  with sl(2) show ?thesis by auto
qed

definition sync_inv :: "sync \<Rightarrow> bool" where
  "sync_inv s \<longleftrightarrow> sleep_inv s \<and> lock_inv s \<and> wake_inv s \<and> \<not> recursive s"

lemma futex_wake_invs:
  assumes inv: "sync_inv s" and ne: "f1 \<noteq> f2"
    and t: "spcs s t \<noteq> Sleep" "in_flight (spcs s t) \<Longrightarrow> f1 = MTX"
    and c: "c \<noteq> Sleep" "holding c = holding (spcs s t)"
  shows "\<exists>s'. futex_wake t c f1 1 f2 n2 s = Inr s' \<and> sync_inv s'"
proof (rule futex_wake_step [OF _ ne, of s t c 1 n2])
  show sl: "sleep_inv s" using inv by (simp add: sync_inv_def)
  fix s'
  let ?W = "woken f1 1 (fx s)" and ?M = "moved f1 1 f2 n2 (fx s)"
  assume s': "futex_wake t c f1 1 f2 n2 s = Inr s'"
    "spcs s' = (\<lambda>u. if u \<in> set ?W then LSwap else if u = t then c else spcs s u)"
    "iv_val s' = iv_val s" "futex_inv (fx s')"
    "\<And>u. u \<in> snd ` set (iv_list (fx s')) \<longleftrightarrow> u \<in> snd ` set (iv_list (fx s)) \<and> u \<notin> set ?W"
    "\<And>a. on a (iv_list (fx s')) = (if a = f1 then drop (length ?M) (drop 1 (on f1 (iv_list (fx s))))
       else if a = f2 then rev ?M @ on f2 (iv_list (fx s)) else on a (iv_list (fx s)))"
    and rc: "recursive s' = recursive s"
  have "sleep_inv s'" using sl s'(2,4,5) t c by (auto simp: sleep_inv_def)
  moreover have "holding (spcs s' u) = holding (spcs s u)" for u
    using not_sleeping [OF sl t(1), of u f1 1] c by (auto simp: s'(2))
  then have "lock_inv s'" using inv s'(3) by (auto simp: sync_inv_def intro: lock_inv_cong)
  moreover have "wake_inv s'"
  proof (cases ?W)
    case (Cons u us)
    then have "in_flight (spcs s' u)" by (simp add: s'(2))
    then show ?thesis by (auto simp: wake_inv_def)
  next
    case Nil
    then have none: "on f1 (iv_list (fx s)) = []" "?M = []" by (auto simp: woken_def moved_def)
    have "in_flight (spcs s' u)" if "in_flight (spcs s u)" "f1 \<noteq> MTX" for u
      using that t(2) Nil by (auto simp: s'(2))
    with inv none show ?thesis by (auto simp: sync_inv_def wake_inv_def s'(3,6))
  qed
  ultimately show ?thesis using s'(1) rc inv by (simp add: sync_inv_def)
qed

lemma wake_keep:
  assumes w: "wake_inv s" and fl: "in_flight (spcs s t) \<Longrightarrow> in_flight c \<or> v = 2"
    and v: "iv_val s = 2 \<Longrightarrow> v = 2 \<or> in_flight c"
    and on: "on MTX (iv_list f) \<noteq> [] \<Longrightarrow> on MTX (iv_list (fx s)) \<noteq> [] \<or> v = 2"
  shows "wake_inv (goto t c (s\<lparr>iv_val := v, fx := f\<rparr>))"
proof (cases "v = 2 \<or> in_flight c")
  case True
  then show ?thesis by (auto simp: wake_inv_def)
next
  case False
  then have "\<not> in_flight (spcs s t)" "iv_val s \<noteq> 2" using fl v by auto
  with w on False show ?thesis by (auto simp: wake_inv_def)
qed

subsection \<open>Every step\<close>

lemma futex_wait_invs:
  assumes inv: "sync_inv s" and t: "t \<noteq> NULL" "spcs s t \<noteq> Sleep" "\<not> holding (spcs s t)"
    "\<not> in_flight (spcs s t)" and a: "a = MTX \<Longrightarrow> v = 2"
  shows "sync_inv (futex_wait t a v s)"
proof -
  have "sleep_inv (futex_wait t a v s)" using inv t by (simp add: futex_wait_sleep_inv sync_inv_def)
  moreover have "lock_inv (futex_wait t a v s) \<and> wake_inv (futex_wait t a v s)"
  proof (cases rule: futex_wait_cases [of s a v t])
    case 1
    then show ?thesis
      using inv t lock_keep [of s t LSwap "iv_val s"] wake_keep [of s t LSwap "iv_val s" "fx s"]
      by (simp add: sync_inv_def)
  next
    case (2 f)
    have "wake_inv (goto t Sleep (s\<lparr>iv_val := iv_val s, fx := f\<rparr>))"
      using inv t a 2(1) by (intro wake_keep) (auto simp: sync_inv_def 2(3) sync_mem_def split: if_splits)
    moreover have "lock_inv (goto t Sleep (s\<lparr>iv_val := iv_val s\<rparr>))"
      using inv t by (intro lock_keep) (auto simp: sync_inv_def)
    then have "lock_inv (goto t Sleep (s\<lparr>fx := f\<rparr>))" by (rule lock_inv_cong [rotated 2]) auto
    ultimately show ?thesis by (simp add: 2(2))
  qed
  moreover have "recursive (futex_wait t a v s) = recursive s" by (simp add: futex_wait_def split: prod.splits)
  ultimately show ?thesis using inv by (simp add: sync_inv_def)
qed

lemma local_invs:
  assumes inv: "sync_inv s" and t: "spcs s t \<noteq> Sleep" "c \<noteq> Sleep"
    and lk: "lock_inv (goto t c (s\<lparr>iv_val := v\<rparr>))"
    and fl: "in_flight (spcs s t) \<Longrightarrow> in_flight c \<or> v = 2" "iv_val s = 2 \<Longrightarrow> v = 2 \<or> in_flight c"
  shows "sync_inv (goto t c (s\<lparr>iv_val := v, sequence := q, cmutex := m\<rparr>))"
proof -
  have "wake_inv (goto t c (s\<lparr>iv_val := v, fx := fx s\<rparr>))"
    using inv fl by (intro wake_keep) (auto simp: sync_inv_def)
  then have "wake_inv (goto t c (s\<lparr>iv_val := v, sequence := q, cmutex := m\<rparr>))" by (simp add: wake_inv_def)
  moreover have "lock_inv (goto t c (s\<lparr>iv_val := v, sequence := q, cmutex := m\<rparr>))"
    by (rule lock_inv_cong [OF _ _ lk]) auto
  moreover have "sleep_inv (goto t c (s\<lparr>iv_val := v, sequence := q, cmutex := m\<rparr>))"
    using inv t by (auto simp: sync_inv_def sleep_inv_def)
  ultimately show ?thesis using inv by (simp add: sync_inv_def)
qed

lemma unlock_sub_inv:
  assumes inv: "sync_inv s" and t: "holding (spcs s t)" "\<not> in_flight (spcs s t)"
  shows "\<exists>s'. unlock_sub t k s = Inr s' \<and> sync_inv s'"
proof -
  have nr: "\<not> recursive s" using inv by (simp add: sync_inv_def)
  have lk: "lock_inv s" using inv by (simp add: sync_inv_def)
  with t have v: "iv_val s = 1 \<or> iv_val s = 2" by (auto simp: lock_inv_def)
  have ns: "spcs s t \<noteq> Sleep" using t(1) by auto
  show ?thesis
  proof (cases "iv_val s = 1")
    case True
    then have "unlock_sub t k s = Inr (goto t (after k) (s\<lparr>iv_val := 0, sequence := sequence s, cmutex := cmutex s\<rparr>))"
      using nr by (simp add: unlock_sub_def word_le_nat_alt)
    moreover have "\<not> holding (after k)" "after k \<noteq> Sleep" by (auto simp: after_def split: option.splits)
    ultimately show ?thesis
      using local_invs [OF inv ns, of "after k" 0 "cmutex s" "sequence s"] lock_release [OF lk t(1)] t(2) True by simp
  next
    case False
    then have "unlock_sub t k s
      = Inr (goto t (UStore k) (s\<lparr>iv_val := 1, sequence := sequence s, cmutex := cmutex s\<rparr>))"
      using v nr by (simp add: unlock_sub_def)
    then show ?thesis using local_invs [OF inv ns, of "UStore k" 1 "cmutex s" "sequence s"] lock_stay [OF lk t(1)] by simp
  qed
qed

lemma move_inv:
  assumes "sync_inv s" "spcs s t \<noteq> Sleep" "c \<noteq> Sleep" "holding c = holding (spcs s t)"
    "in_flight (spcs s t) \<Longrightarrow> in_flight c"
  shows "sync_inv (goto t c (s\<lparr>sequence := q, cmutex := m\<rparr>))"
proof -
  have "lock_inv s" using assms(1) by (simp add: sync_inv_def)
  then have "lock_inv (goto t c (s\<lparr>iv_val := iv_val s\<rparr>))"
    by (rule lock_inv_cong [rotated 2]) (use assms(4) in auto)
  from local_invs [OF assms(1-3) this, of m q] assms(5) show ?thesis by simp
qed

lemma mutex_lock_step_inv:
  assumes inv: "sync_inv s" and t: "t \<noteq> NULL"
  shows "\<exists>s'. mutex_lock_step t s = Inr s' \<and> sync_inv s'"
proof (cases "spcs s t")
  case Out
  have "lock_inv s" "\<not> recursive s" using inv by (simp_all add: sync_inv_def)
  then have "sync_inv (goto t Held (s\<lparr>iv_val := 1\<rparr>))" if "iv_val s = 0"
    using local_invs [OF inv, of t Held 1 "cmutex s" "sequence s"] lock_acquire [of s Held 1 t] Out that by simp
  then show ?thesis
    using Out \<open>\<not> recursive s\<close> move_inv [OF inv, of t LSwap "cmutex s" "sequence s"] move_inv [OF inv, of t LWait "cmutex s" "sequence s"]
    by (auto simp: mutex_lock_step_def)
next
  case LSwap
  have lk: "lock_inv s" using inv by (simp add: sync_inv_def)
  show ?thesis
  proof (cases "iv_val s = 0")
    case True
    then show ?thesis
      using local_invs [OF inv, of t Held 2 "cmutex s" "sequence s"] lock_acquire [of s Held 2 t] LSwap lk
      by (simp add: mutex_lock_step_def)
  next
    case False
    then show ?thesis
      using local_invs [OF inv, of t LWait 2 "cmutex s" "sequence s"] lock_keep [of s t LWait 2] LSwap lk
      by (simp add: mutex_lock_step_def)
  qed
next
  case LWait
  then show ?thesis using futex_wait_invs [OF inv t, of MTX 2] by (simp add: mutex_lock_step_def)
qed (use inv in \<open>simp_all add: mutex_lock_step_def\<close>)

lemma after_simps [simp]: "after k \<noteq> Sleep" "\<not> holding (after k)" "\<not> in_flight (after k)"
  by (auto simp: after_def split: option.splits)

lemma mutex_unlock_step_inv:
  assumes inv: "sync_inv s"
  shows "\<exists>s'. mutex_unlock_step t s = Inr s' \<and> sync_inv s'"
proof (cases "spcs s t")
  case Held
  then show ?thesis using unlock_sub_inv [OF inv, of t None] by (simp add: mutex_unlock_step_def)
next
  case (UStore k)
  have "lock_inv s" using inv by (simp add: sync_inv_def)
  with UStore show ?thesis
    using local_invs [OF inv, of t "UWake k" 0 "cmutex s" "sequence s"] lock_release [of s t "UWake k"]
    by (simp add: mutex_unlock_step_def)
next
  case (UWake k)
  then show ?thesis using futex_wake_invs [OF inv, of MTX NULL t "after k" 0]
    by (simp add: mutex_unlock_step_def)
qed (use inv in \<open>simp_all add: mutex_unlock_step_def\<close>)

lemma sync_cond_wait_step_inv:
  assumes inv: "sync_inv s" and t: "t \<noteq> NULL"
  shows "\<exists>s'. sync_cond_wait_step t s = Inr s' \<and> sync_inv s'"
proof (cases "spcs s t")
  case Held
  then show ?thesis using move_inv [OF inv, of t "CBind (sequence s)" "cmutex s" "sequence s"]
    by (simp add: sync_cond_wait_step_def)
next
  case (CBind q)
  then show ?thesis
    using move_inv [OF inv, of t Held "cmutex s" "sequence s"] move_inv [OF inv, of t "CUnlock q" MTX "sequence s"]
    by (simp add: sync_cond_wait_step_def)
next
  case (CUnlock q)
  then show ?thesis using unlock_sub_inv [OF inv, of t "Some q"] by (simp add: sync_cond_wait_step_def)
next
  case (CWait q)
  then show ?thesis using futex_wait_invs [OF inv t, of SEQ q] by (simp add: sync_cond_wait_step_def)
qed (use inv in \<open>simp_all add: sync_cond_wait_step_def\<close>)

lemma sync_cond_signal_step_inv:
  assumes inv: "sync_inv s"
  shows "\<exists>s'. sync_cond_signal_step t s = Inr s' \<and> sync_inv s'"
proof (cases "spcs s t")
  case Held
  then show ?thesis using move_inv [OF inv, of t "SWake True" "cmutex s"]
    by (simp add: sync_cond_signal_step_def)
next
  case Out
  then show ?thesis using move_inv [OF inv, of t "SWake False" "cmutex s"]
    by (simp add: sync_cond_signal_step_def)
next
  case (SWake h)
  then show ?thesis using futex_wake_invs [OF inv, of SEQ NULL t "if h then Held else Out" 0]
    by (simp add: sync_cond_signal_step_def)
qed (use inv in \<open>simp_all add: sync_cond_signal_step_def\<close>)

lemma sync_cond_broadcast_step_inv:
  assumes inv: "sync_inv s"
  shows "\<exists>s'. sync_cond_broadcast_step t s = Inr s' \<and> sync_inv s'"
proof (cases "spcs s t")
  case Held
  then show ?thesis using inv move_inv [OF inv, of t "BWake True" "cmutex s"]
    by (simp add: sync_cond_broadcast_step_def)
next
  case Out
  then show ?thesis using inv move_inv [OF inv, of t "BWake False" "cmutex s"]
    by (simp add: sync_cond_broadcast_step_def)
next
  case (BWake h)
  then show ?thesis using futex_wake_invs [OF inv, of SEQ MTX t "if h then Held else Out" UINT64_MAX]
    by (simp add: sync_cond_broadcast_step_def)
qed (use inv in \<open>simp_all add: sync_cond_broadcast_step_def\<close>)

lemma sstep_inv: "sstep s r \<Longrightarrow> sync_inv s \<Longrightarrow> \<exists>s'. r = Inr s' \<and> sync_inv s'"
  by (induction rule: sstep.induct)
    (simp_all add: mutex_lock_step_inv mutex_unlock_step_inv sync_cond_wait_step_inv
      sync_cond_signal_step_inv sync_cond_broadcast_step_inv)

lemma sreach_inv: "sreach s \<Longrightarrow> sync_inv s"
proof (induction rule: sreach.induct)
  case sreach_init
  show ?case
    by (simp add: sync_inv_def sleep_inv_def lock_inv_def wake_inv_def mutex_init_def futex_inv_def)
next
  case (sreach_step s s')
  from sstep_inv [OF sreach_step.hyps(2) sreach_step.IH] show ?case by simp
qed

lemma sleeper_waited_for:
  assumes "sync_inv s" and "t \<in> set (on MTX (iv_list (fx s)))"
  shows "spcs s t = Sleep \<and> (\<exists>u. u \<noteq> t \<and> (iv_val s = 2 \<and> holding (spcs s u) \<or> in_flight (spcs s u)))"
proof -
  have inv: "sleep_inv s" "lock_inv s" "wake_inv s" using assms(1) by (simp_all add: sync_inv_def)
  have sl: "spcs s t = Sleep" using assms(2) inv(1) by (force simp: set_on sleep_inv_def)
  from inv(3) assms(2) have "iv_val s = 2 \<or> (\<exists>u. in_flight (spcs s u))" by (auto simp: wake_inv_def)
  moreover have "\<exists>u. holding (spcs s u)" if "iv_val s = 2" using inv(2) that unfolding lock_inv_def by simp
  ultimately obtain u where "iv_val s = 2 \<and> holding (spcs s u) \<or> in_flight (spcs s u)" by blast
  moreover from this sl have "u \<noteq> t" by auto
  ultimately show ?thesis using sl by blast
qed

section \<open>Properties\<close>

text \<open>C2. Mutual exclusion: at every reachable point of every interleaving at most one task holds the
  mutex, also when tasks give it up and take it back inside \<open>sync_cond_wait\<close>, and the word is 0
  exactly when none does.\<close>

theorem mutex_mutual_exclusion:
  assumes "sreach s"
  shows "(\<forall>t u. holding (spcs s t) \<longrightarrow> holding (spcs s u) \<longrightarrow> t = u)
    \<and> (iv_val s = 0 \<longleftrightarrow> (\<forall>t. \<not> holding (spcs s t))) \<and> iv_val s \<in> {0, 1, 2}"
  using sreach_inv [OF assms] unfolding sync_inv_def lock_inv_def by blast

definition lock_example :: sync where
  "lock_example = goto 1 Held (mutex_init\<lparr>iv_val := 1\<rparr>)"

lemma lock_example_reach: "sreach lock_example"
proof -
  have "mutex_lock_step 1 mutex_init = Inr lock_example"
    by (simp add: mutex_lock_step_def mutex_init_def lock_example_def)
  then show ?thesis using sreach_step [OF sreach_init] step_lock [of 1 mutex_init] by simp
qed

theorem mutex_mutual_exclusion_witness:
  "holding (spcs lock_example 1) \<and> {u. holding (spcs lock_example u)} = {1} \<and> iv_val lock_example \<noteq> 0"
proof -
  have "holding (spcs lock_example 1)" by (simp add: lock_example_def)
  with mutex_mutual_exclusion [OF lock_example_reach] show ?thesis by blast
qed

text \<open>C3. No wake-up is lost: while a task sleeps on the mutex, some other task holds the mutex with the
  word at 2, so that its unlock makes the wake call, or is between its release and its wake call,
  or is awake and about to test and set the word. This covers tasks that a broadcast moved from
  the condition to the mutex.\<close>

theorem mutex_no_lost_wakeup:
  assumes "sreach s" and "t \<in> set (on MTX (iv_list (fx s)))"
  shows "spcs s t = Sleep \<and> (\<exists>u. u \<noteq> t \<and> (iv_val s = 2 \<and> holding (spcs s u) \<or> in_flight (spcs s u)))"
  using sleeper_waited_for [OF sreach_inv [OF assms(1)] assms(2)] .

text \<open>Task 1 holds the mutex; task 2 finds it taken, marks it contended and goes to sleep.\<close>

definition sleep_example :: sync where
  "sleep_example = futex_wait 2 MTX 2 (goto 2 LWait (goto 2 LSwap lock_example\<lparr>iv_val := 2\<rparr>))"

lemma sleep_example_reach: "sreach sleep_example"
proof -
  have "mutex_lock_step 2 lock_example = Inr (goto 2 LSwap lock_example)"
    by (simp add: mutex_lock_step_def lock_example_def mutex_init_def)
  then have 1: "sreach (goto 2 LSwap lock_example)"
    using sreach_step [OF lock_example_reach] step_lock [of 2 lock_example] by simp
  have "mutex_lock_step 2 (goto 2 LSwap lock_example)
    = Inr (goto 2 LWait (goto 2 LSwap lock_example\<lparr>iv_val := 2\<rparr>))"
    by (simp add: mutex_lock_step_def lock_example_def)
  then have 2: "sreach (goto 2 LWait (goto 2 LSwap lock_example\<lparr>iv_val := 2\<rparr>))"
    using sreach_step [OF 1] step_lock [of 2 "goto 2 LSwap lock_example"] by simp
  have "mutex_lock_step 2 (goto 2 LWait (goto 2 LSwap lock_example\<lparr>iv_val := 2\<rparr>)) = Inr sleep_example"
    by (simp add: mutex_lock_step_def sleep_example_def)
  then show ?thesis using sreach_step [OF 2] step_lock [of 2 "goto 2 LWait (goto 2 LSwap lock_example\<lparr>iv_val := 2\<rparr>)"]
    by simp
qed

theorem mutex_no_lost_wakeup_witness:
  "spcs sleep_example 2 = Sleep \<and>
   (\<exists>u. u \<noteq> 2 \<and> (iv_val sleep_example = 2 \<and> holding (spcs sleep_example u) \<or> in_flight (spcs sleep_example u)))"
proof (rule mutex_no_lost_wakeup [OF sleep_example_reach])
  show "2 \<in> set (on MTX (iv_list (fx sleep_example)))"
    by (simp add: sleep_example_def futex_wait_def futexmgr_wait_def sync_mem_def)
qed

text \<open>No step of the lock or condition code ever fails a kernel assertion, and a task sleeps exactly
  when the kernel has it on its list of waiters.\<close>

theorem sync_steps_succeed:
  assumes "sreach s" and "sstep s r"
  shows "\<exists>s'. r = Inr s' \<and> (\<forall>t. spcs s' t = Sleep \<longleftrightarrow> t \<in> snd ` set (iv_list (fx s')))"
  using sstep_inv [OF assms(2) sreach_inv [OF assms(1)]] by (auto simp: sync_inv_def sleep_inv_def)

theorem sync_steps_succeed_witness:
  "\<exists>s'. mutex_unlock_step 1 lock_example = Inr s' \<and> (\<forall>t. spcs s' t = Sleep \<longleftrightarrow> t \<in> snd ` set (iv_list (fx s')))"
  by (rule sync_steps_succeed [OF lock_example_reach]) (rule step_unlock, simp)

end
