(* ===== verification/Recursive_Mutex.thy ===== *)
theory Recursive_Mutex
  imports Sync
begin

text \<open>
  The recursive mutex of \<open>lib/sync.C\<close>, and the initialisation and destruction of mutexes. As in
  \<open>Sync\<close>, each step is one access to the mutex or one system call, and the fields \<open>iv_owner\<close> and
  \<open>iv_ownerLockCount\<close> are read and written without atomic instructions, one access at a time.
  Each step is a step of the plain mutex or leaves its state alone, so that mutual exclusion and
  the absence of lost wake-ups carry over from there.
\<close>

record mutex_t =
  m_val :: u64
  m_ownerLockCount :: u64
  m_owner :: u16
  m_recursive :: bool

definition mutex_init_obj :: "bool \<Rightarrow> mutex_t" where
  "mutex_init_obj i_recursive =
     \<lparr>m_val = 0, m_ownerLockCount = 0, m_owner = 0, m_recursive = i_recursive\<rparr>"

definition recursive_mutex_init :: mutex_t where
  "recursive_mutex_init = mutex_init_obj True"

definition mutex_destroy :: "mutex_t \<Rightarrow> kerror + mutex_t" where
  "mutex_destroy m = (if m_recursive m then Inl CritAssert
     else Inr (m\<lparr>m_val := NOT 0, m_owner := 0, m_ownerLockCount := 0\<rparr>))"

definition recursive_mutex_destroy :: "mutex_t \<Rightarrow> kerror + mutex_t" where
  "recursive_mutex_destroy m = (if \<not> m_recursive m then Inl CritAssert
     else Inr (m\<lparr>m_val := NOT 0, m_owner := 0, m_ownerLockCount := 0\<rparr>))"

text \<open>
  The points a task can be at. \<open>RRun\<close>: outside of the calls. In \<open>recursive_mutex_lock\<close>: \<open>RCheck\<close> before
  the comparison with \<open>iv_owner\<close>, with the value the compare-and-swap found; \<open>RSwap\<close>, \<open>RWait\<close> and
  \<open>RAsleep\<close> in the loop; \<open>RSetOwner\<close> before the store of the owner; \<open>RInc\<close> and \<open>RIncSt\<close> before the load
  and the store of the increment. In \<open>recursive_mutex_unlock\<close>: \<open>RClrCount\<close>, \<open>RClrOwner\<close>, \<open>RSub\<close>, \<open>RStore\<close>
  and \<open>RWake\<close> before the five accesses of the last release, \<open>RDec\<close> and \<open>RDecSt\<close> before the load and
  the store of the decrement.
\<close>

datatype rpc =
    RRun
  | RCheck u64
  | RSwap
  | RWait
  | RAsleep
  | RSetOwner
  | RInc
  | RIncSt u64
  | RClrCount
  | RClrOwner
  | RSub
  | RStore
  | RWake
  | RDec
  | RDecSt u64

text \<open>\<open>depth\<close> counts the locks a task has taken and not given back; no code reads it.\<close>

record rsync = mutex_t +
  rfx :: futexmgr
  rpcs :: "task \<Rightarrow> rpc"
  depth :: "task \<Rightarrow> nat"

definition rgoto :: "task \<Rightarrow> rpc \<Rightarrow> rsync \<Rightarrow> rsync" where
  "rgoto t c s = s\<lparr>rpcs := (rpcs s)(t := c)\<rparr>"

definition rmutex_mem :: "rsync \<Rightarrow> addr \<Rightarrow> u64" where
  "rmutex_mem s a = (if a = MTX then m_val s else 0)"

definition rfutex_wait :: "task \<Rightarrow> rsync \<Rightarrow> rsync" where
  "rfutex_wait t s =
     (let (rc, f) = futexmgr_wait (rmutex_mem s) t MTX 2 (rfx s)
      in rgoto t (if rc = 0 then RAsleep else RSwap) (s\<lparr>rfx := f\<rparr>))"

definition rfutex_wake :: "task \<Rightarrow> rsync \<Rightarrow> kerror + rsync" where
  "rfutex_wake t s =
     (case futexmgr_wake MTX 1 NULL 0 ((rfx s)\<lparr>released := []\<rparr>) of
        Inl e \<Rightarrow> Inl e
      | Inr (n, f) \<Rightarrow>
          Inr (s\<lparr>rfx := f, rpcs := (\<lambda>u. if u \<in> set (released f) then RSwap
                                        else if u = t then RRun else rpcs s u)\<rparr>))"

definition recursive_mutex_lock_step :: "(task \<Rightarrow> u16) \<Rightarrow> task \<Rightarrow> rsync \<Rightarrow> kerror + rsync" where
  "recursive_mutex_lock_step gettid t s = (case rpcs s t of
     RRun \<Rightarrow>
       if \<not> m_recursive s then Inl CritAssert
       else Inr (if m_val s = 0 then rgoto t RSetOwner (s\<lparr>m_val := 1\<rparr>) else rgoto t (RCheck (m_val s)) s)
   | RCheck l_lockStatus \<Rightarrow>
       Inr (if gettid t = m_owner s then rgoto t RInc s
            else if l_lockStatus \<noteq> 2 then rgoto t RSwap s
            else rgoto t RWait s)
   | RSwap \<Rightarrow> Inr (rgoto t (if m_val s = 0 then RSetOwner else RWait) (s\<lparr>m_val := 2\<rparr>))
   | RWait \<Rightarrow> Inr (rfutex_wait t s)
   | RSetOwner \<Rightarrow> Inr (rgoto t RInc (s\<lparr>m_owner := gettid t\<rparr>))
   | RInc \<Rightarrow> Inr (rgoto t (RIncSt (m_ownerLockCount s)) s)
   | RIncSt v \<Rightarrow>
       Inr (rgoto t RRun (s\<lparr>m_ownerLockCount := v + 1, depth := (depth s)(t := Suc (depth s t))\<rparr>))
   | _ \<Rightarrow> Inr s)"

definition recursive_mutex_unlock_step :: "task \<Rightarrow> rsync \<Rightarrow> kerror + rsync" where
  "recursive_mutex_unlock_step t s = (case rpcs s t of
     RRun \<Rightarrow>
       if \<not> m_recursive s then Inl CritAssert
       else Inr (rgoto t (if m_ownerLockCount s \<le> 1 then RClrCount else RDec) s)
   | RClrCount \<Rightarrow> Inr (rgoto t RClrOwner (s\<lparr>m_ownerLockCount := 0\<rparr>))
   | RClrOwner \<Rightarrow> Inr (rgoto t RSub (s\<lparr>m_owner := 0\<rparr>))
   | RSub \<Rightarrow>
       Inr (rgoto t (if m_val s \<ge> 2 then RStore else RRun)
         (s\<lparr>m_val := m_val s - 1, depth := (depth s)(t := depth s t - 1)\<rparr>))
   | RStore \<Rightarrow> Inr (rgoto t RWake (s\<lparr>m_val := 0\<rparr>))
   | RWake \<Rightarrow> rfutex_wake t s
   | RDec \<Rightarrow> Inr (rgoto t (RDecSt (m_ownerLockCount s)) s)
   | RDecSt v \<Rightarrow>
       Inr (rgoto t RRun (s\<lparr>m_ownerLockCount := v - 1, depth := (depth s)(t := depth s t - 1)\<rparr>))
   | _ \<Rightarrow> Inr s)"

text \<open>
  The tasks of \<open>A\<close> call in any order. A task unlocks only what it has locked, and no task nests
  \<open>2\<^sup>6\<^sup>4\<close> locks, where the counter would wrap.
\<close>

inductive rstep :: "(task \<Rightarrow> u16) \<Rightarrow> task set \<Rightarrow> rsync \<Rightarrow> kerror + rsync \<Rightarrow> bool"
  for gettid :: "task \<Rightarrow> u16" and A :: "task set" where
  rstep_lock: "t \<in> A \<Longrightarrow> (rpcs s t = RRun \<Longrightarrow> Suc (depth s t) < 2 ^ 64)
    \<Longrightarrow> rstep gettid A s (recursive_mutex_lock_step gettid t s)"
| rstep_unlock: "t \<in> A \<Longrightarrow> (rpcs s t = RRun \<Longrightarrow> 0 < depth s t)
    \<Longrightarrow> rstep gettid A s (recursive_mutex_unlock_step t s)"

definition rsync_init :: rsync where
  "rsync_init = mutex_t.extend recursive_mutex_init
     (rsync.fields \<lparr>iv_list = [], tstate = (\<lambda>_. TASK_READY), released = [], doorbells = 0\<rparr>
        (\<lambda>_. RRun) (\<lambda>_. 0))"

inductive rreach :: "(task \<Rightarrow> u16) \<Rightarrow> task set \<Rightarrow> rsync \<Rightarrow> bool"
  for gettid :: "task \<Rightarrow> u16" and A :: "task set" where
  rreach_init: "rreach gettid A rsync_init"
| rreach_step: "rreach gettid A s \<Longrightarrow> rstep gettid A s (Inr s') \<Longrightarrow> rreach gettid A s'"

section \<open>The plain mutex inside\<close>

definition abs_pc :: "(task \<Rightarrow> u16) \<Rightarrow> rsync \<Rightarrow> task \<Rightarrow> spc" where
  "abs_pc gettid s t = (case rpcs s t of
     RRun \<Rightarrow> if 0 < depth s t then Held else Out
   | RCheck st \<Rightarrow> if m_owner s = gettid t then Held else if st \<noteq> 2 then LSwap else LWait
   | RSwap \<Rightarrow> LSwap
   | RWait \<Rightarrow> LWait
   | RAsleep \<Rightarrow> Sleep
   | RStore \<Rightarrow> UStore None
   | RWake \<Rightarrow> UWake None
   | _ \<Rightarrow> Held)"

definition plain_mutex :: "(task \<Rightarrow> u16) \<Rightarrow> rsync \<Rightarrow> sync" where
  "plain_mutex gettid s =
     \<lparr>iv_val = m_val s, sequence = 0, cmutex = NULL, recursive = False, fx = rfx s, spcs = abs_pc gettid s\<rparr>"

text \<open>What \<open>iv_owner\<close> and \<open>iv_ownerLockCount\<close> say about a task at each point of the calls.\<close>

definition owner_ok :: "(task \<Rightarrow> u16) \<Rightarrow> rsync \<Rightarrow> task \<Rightarrow> bool" where
  "owner_ok gettid s t \<longleftrightarrow> depth s t < 2 ^ 64 \<and>
     (let own = (m_owner s = gettid t); d = depth s t; n = m_ownerLockCount s in
      case rpcs s t of
        RRun \<Rightarrow> (own \<longleftrightarrow> 0 < d) \<and> (0 < d \<longrightarrow> n = of_nat d)
      | RCheck st \<Rightarrow> (own \<longleftrightarrow> 0 < d) \<and> (0 < d \<longrightarrow> n = of_nat d) \<and> Suc d < 2 ^ 64
      | RSetOwner \<Rightarrow> \<not> own \<and> d = 0 \<and> n = 0
      | RInc \<Rightarrow> own \<and> n = of_nat d \<and> Suc d < 2 ^ 64
      | RIncSt v \<Rightarrow> own \<and> n = of_nat d \<and> v = n \<and> Suc d < 2 ^ 64
      | RClrCount \<Rightarrow> own \<and> d = 1
      | RClrOwner \<Rightarrow> own \<and> d = 1 \<and> n = 0
      | RSub \<Rightarrow> \<not> own \<and> d = 1 \<and> n = 0
      | RStore \<Rightarrow> \<not> own \<and> d = 0 \<and> n = 0
      | RDec \<Rightarrow> own \<and> 1 < d \<and> n = of_nat d
      | RDecSt v \<Rightarrow> own \<and> 1 < d \<and> n = of_nat d \<and> v = n
      | _ \<Rightarrow> \<not> own \<and> d = 0)"

definition owner_inv :: "(task \<Rightarrow> u16) \<Rightarrow> task set \<Rightarrow> rsync \<Rightarrow> bool" where
  "owner_inv gettid A s \<longleftrightarrow> m_recursive s
     \<and> (\<forall>t\<in>A. owner_ok gettid s t)
     \<and> (\<forall>t. t \<notin> A \<longrightarrow> rpcs s t = RRun \<and> depth s t = 0)
     \<and> ((\<forall>t. \<not> holding (abs_pc gettid s t)) \<longrightarrow> m_ownerLockCount s = 0)"

lemma rgoto_fields [simp]:
  "rpcs (rgoto t c s) = (rpcs s)(t := c)" "m_val (rgoto t c s) = m_val s" "m_owner (rgoto t c s) = m_owner s"
  "m_ownerLockCount (rgoto t c s) = m_ownerLockCount s" "m_recursive (rgoto t c s) = m_recursive s"
  "rfx (rgoto t c s) = rfx s" "depth (rgoto t c s) = depth s"
  by (simp_all add: rgoto_def)

text \<open>One task moves: the others see at most a change of owner and count made by the holder.\<close>

lemma owner_ok_other:
  assumes inj: "inj_on gettid A" "0 \<notin> gettid ` A" and tu: "t \<in> A" "u \<in> A" "u \<noteq> t"
    and u: "owner_ok gettid s u" "\<not> holding (abs_pc gettid s u)"
    and same: "rpcs s' u = rpcs s u" "depth s' u = depth s u" "m_owner s' \<in> {m_owner s, 0, gettid t}"
  shows "owner_ok gettid s' u \<and> abs_pc gettid s' u = abs_pc gettid s u"
proof -
  have "gettid t \<noteq> gettid u" "gettid u \<noteq> 0" using inj tu by (auto simp: inj_on_def)
  with u same show ?thesis
    by (cases "rpcs s u") (auto simp: owner_ok_def abs_pc_def Let_def split: if_splits)
qed

lemma owner_ok_cong:
  assumes "rpcs s' u = rpcs s u" "depth s' u = depth s u" "m_owner s' = m_owner s"
    "m_ownerLockCount s' = m_ownerLockCount s"
  shows "owner_ok gettid s' u = owner_ok gettid s u" "abs_pc gettid s' u = abs_pc gettid s u"
  unfolding owner_ok_def abs_pc_def Let_def using assms by (cases "rpcs s u"; simp)+

lemma mover:
  assumes inv: "owner_inv gettid A s" and lk: "lock_inv (plain_mutex gettid s)"
    and inj: "inj_on gettid A" "0 \<notin> gettid ` A" and t: "t \<in> A"
    and same: "\<And>u. u \<noteq> t \<Longrightarrow> rpcs s' u = rpcs s u \<and> depth s' u = depth s u" "m_recursive s' = m_recursive s"
    and ch: "m_owner s' = m_owner s \<and> m_ownerLockCount s' = m_ownerLockCount s
      \<or> holding (abs_pc gettid s t) \<and> m_owner s' \<in> {m_owner s, 0, gettid t}"
    and z: "holding (abs_pc gettid s t) \<Longrightarrow> holding (abs_pc gettid s' t) \<or> m_ownerLockCount s' = 0"
    and ok: "owner_ok gettid s' t"
  shows "owner_inv gettid A s'" "abs_pc gettid s' = (abs_pc gettid s)(t := abs_pc gettid s' t)"
proof -
  have one: "\<not> holding (abs_pc gettid s u)" if "holding (abs_pc gettid s t)" "u \<noteq> t" for u
    using lk that by (auto simp: lock_inv_def plain_mutex_def)
  have oth: "(u \<in> A \<longrightarrow> owner_ok gettid s' u) \<and> abs_pc gettid s' u = abs_pc gettid s u" if u: "u \<noteq> t" for u
  proof (cases "u \<in> A")
    case True
    then have "owner_ok gettid s u" using inv by (simp add: owner_inv_def)
    then show ?thesis
      using ch owner_ok_other [OF inj t True u _ one, of s'] owner_ok_cong [of s' u s gettid] same(1) [OF u] u
      by auto
  next
    case False
    then show ?thesis using inv same(1) [OF u] by (simp add: owner_inv_def abs_pc_def)
  qed
  then show eq: "abs_pc gettid s' = (abs_pc gettid s)(t := abs_pc gettid s' t)" by auto
  have none: "m_ownerLockCount s' = 0" if "\<forall>u. \<not> holding (abs_pc gettid s' u)"
  proof (cases "holding (abs_pc gettid s t)")
    case True
    with z that show ?thesis by blast
  next
    case False
    then have "\<forall>u. \<not> holding (abs_pc gettid s u)" using that oth by metis
    with inv ch False show ?thesis by (auto simp: owner_inv_def)
  qed
  have "owner_ok gettid s' u" if "u \<in> A" for u using oth [of u] ok that by (cases "u = t") auto
  moreover have "rpcs s' u = RRun \<and> depth s' u = 0" if "u \<notin> A" for u
    using inv same(1) [of u] that t by (metis owner_inv_def)
  ultimately show "owner_inv gettid A s'"
    using inv none same(2) unfolding owner_inv_def by auto
qed

lemma plain_mutex_goto:
  assumes "abs_pc gettid s' = (abs_pc gettid s)(t := c)" "rfx s' = rfx s"
  shows "plain_mutex gettid s' = goto t c ((plain_mutex gettid s)\<lparr>iv_val := m_val s'\<rparr>)"
  using assms by (simp add: plain_mutex_def goto_def)

text \<open>The invariant of every interleaving: the plain mutex inside is in a reachable state of its own.\<close>

definition rsync_inv :: "(task \<Rightarrow> u16) \<Rightarrow> task set \<Rightarrow> rsync \<Rightarrow> bool" where
  "rsync_inv gettid A s \<longleftrightarrow> owner_inv gettid A s \<and> sreach (plain_mutex gettid s)
     \<and> (\<forall>a. a \<noteq> MTX \<longrightarrow> on a (iv_list (rfx s)) = [])"

definition task_ids :: "(task \<Rightarrow> u16) \<Rightarrow> task set \<Rightarrow> bool" where
  "task_ids gettid A \<longleftrightarrow> inj_on gettid A \<and> 0 \<notin> gettid ` A \<and> NULL \<notin> A"

lemma rmove:
  assumes inv: "rsync_inv gettid A s" and ids: "task_ids gettid A" and t: "t \<in> A"
    and same: "\<And>u. u \<noteq> t \<Longrightarrow> rpcs s' u = rpcs s u \<and> depth s' u = depth s u" "m_recursive s' = m_recursive s"
      "rfx s' = rfx s"
    and ch: "m_owner s' = m_owner s \<and> m_ownerLockCount s' = m_ownerLockCount s
      \<or> holding (abs_pc gettid s t) \<and> m_owner s' \<in> {m_owner s, 0, gettid t}"
    and z: "holding (abs_pc gettid s t) \<Longrightarrow> holding (abs_pc gettid s' t) \<or> m_ownerLockCount s' = 0"
    and ok: "owner_ok gettid s' t"
    and sim: "m_val s' = m_val s \<and> abs_pc gettid s' t = abs_pc gettid s t
      \<or> mutex_lock_step t (plain_mutex gettid s)
          = Inr (goto t (abs_pc gettid s' t) ((plain_mutex gettid s)\<lparr>iv_val := m_val s'\<rparr>))
      \<or> mutex_unlock_step t (plain_mutex gettid s)
          = Inr (goto t (abs_pc gettid s' t) ((plain_mutex gettid s)\<lparr>iv_val := m_val s'\<rparr>))"
  shows "rsync_inv gettid A s'"
proof -
  let ?m = "plain_mutex gettid s"
  have "lock_inv ?m" using inv sreach_inv by (simp add: rsync_inv_def sync_inv_def)
  from mover [OF _ this _ _ t same(1,2) ch z ok] inv ids
  have own: "owner_inv gettid A s'" and eq: "abs_pc gettid s' = (abs_pc gettid s)(t := abs_pc gettid s' t)"
    by (simp_all add: rsync_inv_def task_ids_def)
  have pm: "plain_mutex gettid s' = goto t (abs_pc gettid s' t) (?m\<lparr>iv_val := m_val s'\<rparr>)"
    by (rule plain_mutex_goto [OF eq same(3)])
  have sr: "sreach ?m" using inv by (simp add: rsync_inv_def)
  have nn: "t \<noteq> NULL" using ids t by (auto simp: task_ids_def)
  from sim have "sreach (plain_mutex gettid s')"
  proof (elim disjE)
    assume "m_val s' = m_val s \<and> abs_pc gettid s' t = abs_pc gettid s t"
    then have "plain_mutex gettid s' = ?m" unfolding pm by (simp add: plain_mutex_def goto_def)
    with sr show ?thesis by simp
  next
    assume "mutex_lock_step t ?m = Inr (goto t (abs_pc gettid s' t) (?m\<lparr>iv_val := m_val s'\<rparr>))"
    with step_lock [OF nn, of ?m] show ?thesis unfolding pm by (auto intro: sreach_step [OF sr])
  next
    assume "mutex_unlock_step t ?m = Inr (goto t (abs_pc gettid s' t) (?m\<lparr>iv_val := m_val s'\<rparr>))"
    with step_unlock [OF nn, of ?m] show ?thesis unfolding pm by (auto intro: sreach_step [OF sr])
  qed
  with own inv same(3) show ?thesis by (simp add: rsync_inv_def)
qed

lemma plain_mutex_fields [simp]:
  "iv_val (plain_mutex gettid s) = m_val s" "spcs (plain_mutex gettid s) = abs_pc gettid s"
  "fx (plain_mutex gettid s) = rfx s" "sequence (plain_mutex gettid s) = 0" "cmutex (plain_mutex gettid s) = NULL"
  "recursive (plain_mutex gettid s) = False"
  by (simp_all add: plain_mutex_def)

lemma plain_holding_val:
  assumes "rsync_inv gettid A s"
  shows "m_val s \<in> {0, 1, 2}" "holding (abs_pc gettid s t) \<Longrightarrow> m_val s \<noteq> 0"
    "m_val s = 0 \<Longrightarrow> m_ownerLockCount s = 0"
  using assms sreach_inv [of "plain_mutex gettid s"]
  by (auto simp: rsync_inv_def sync_inv_def lock_inv_def owner_inv_def)

lemma unlock_count:
  assumes "0 < d" "d < 2 ^ 64"
  shows "(of_nat d :: u64) \<le> 1 \<longleftrightarrow> d = 1"
  using assms by (auto simp: word_le_nat_alt unat_of_nat take_bit_nat_eq_self)

lemma of_nat_pred: "0 < d \<Longrightarrow> (of_nat d :: u64) - 1 = of_nat (d - 1)"
  by (simp add: of_nat_diff)

lemma rfutex_wait_inv:
  assumes inv: "rsync_inv gettid A s" and ids: "task_ids gettid A" and t: "t \<in> A" "rpcs s t = RWait"
  shows "rsync_inv gettid A (rfutex_wait t s)"
proof -
  let ?m = "plain_mutex gettid s" and ?s = "rfutex_wait t s"
  have mem: "rmutex_mem s MTX = sync_mem ?m MTX" by (simp add: rmutex_mem_def sync_mem_def)
  have sr: "sreach ?m" and own: "owner_inv gettid A s" using inv by (simp_all add: rsync_inv_def)
  then have lk: "lock_inv ?m" using sreach_inv by (simp add: sync_inv_def)
  have ok: "owner_ok gettid s t" using own t(1) by (simp add: owner_inv_def)
  have m: "owner_inv gettid A ?s \<and> abs_pc gettid ?s = (abs_pc gettid s)(t := abs_pc gettid ?s t)"
    using mover [OF own lk _ _ t(1), of ?s] ids ok t(2)
    by (auto simp: task_ids_def rfutex_wait_def abs_pc_def owner_ok_def Let_def split: prod.splits)
  have "plain_mutex gettid ?s = futex_wait t MTX 2 ?m"
    using m unfolding futex_wait_def rfutex_wait_def futexmgr_wait_def mem
    by (auto simp: plain_mutex_def goto_def abs_pc_def Let_def)
  moreover have "mutex_lock_step t ?m = Inr (futex_wait t MTX 2 ?m)"
    using t(2) by (simp add: mutex_lock_step_def abs_pc_def)
  ultimately have "sreach (plain_mutex gettid ?s)"
    using step_lock [of t ?m] ids t(1) by (auto simp: task_ids_def intro: sreach_step [OF sr])
  moreover have "on a (iv_list (rfx ?s)) = []" if "a \<noteq> MTX" for a
    using inv that by (auto simp: rsync_inv_def rfutex_wait_def futexmgr_wait_def Let_def)
  ultimately show ?thesis using m by (simp add: rsync_inv_def)
qed

lemma recursive_mutex_lock_step_inv:
  assumes inv: "rsync_inv gettid A s" and ids: "task_ids gettid A" and t: "t \<in> A"
    and d: "rpcs s t = RRun \<Longrightarrow> Suc (depth s t) < 2 ^ 64"
  shows "\<exists>s'. recursive_mutex_lock_step gettid t s = Inr s' \<and> rsync_inv gettid A s'"
proof -
  note v = plain_holding_val [OF inv]
  have ok: "owner_ok gettid s t" and rc: "m_recursive s" using inv t by (simp_all add: rsync_inv_def owner_inv_def)
  have nz: "gettid t \<noteq> 0" using ids t by (auto simp: task_ids_def)
  note mv = rmove [OF inv ids t]
  note defs = recursive_mutex_lock_step_def mutex_lock_step_def owner_ok_def abs_pc_def Let_def
  show ?thesis
  proof (cases "rpcs s t")
    case RRun
    then have "rsync_inv gettid A (rgoto t RSetOwner (s\<lparr>m_val := 1\<rparr>))" if "m_val s = 0"
      using ok that v(2) [of t] v(3) by (intro mv) (auto simp: defs split: if_splits)
    moreover have "rsync_inv gettid A (rgoto t (RCheck (m_val s)) s)" if "m_val s \<noteq> 0"
      using RRun ok that d v(1) by (intro mv) (auto simp: defs split: if_splits)
    ultimately show ?thesis using RRun rc by (simp add: recursive_mutex_lock_step_def)
  next
    case (RCheck st)
    then have "rsync_inv gettid A (rgoto t RInc s)" if "gettid t = m_owner s"
      using ok that by (intro mv) (auto simp: defs split: if_splits)
    moreover have "rsync_inv gettid A (rgoto t (if st \<noteq> 2 then RSwap else RWait) s)" if "gettid t \<noteq> m_owner s"
      using RCheck ok that by (intro mv) (auto simp: defs split: if_splits)
    ultimately show ?thesis using RCheck by (auto simp: recursive_mutex_lock_step_def)
  next
    case RSwap
    then have "rsync_inv gettid A (rgoto t (if m_val s = 0 then RSetOwner else RWait) (s\<lparr>m_val := 2\<rparr>))"
      using ok v(3) by (intro mv) (auto simp: defs split: if_splits)
    then show ?thesis using RSwap by (simp add: recursive_mutex_lock_step_def)
  next
    case RWait
    then show ?thesis using rfutex_wait_inv [OF inv ids t] by (simp add: recursive_mutex_lock_step_def)
  next
    case RSetOwner
    then have "rsync_inv gettid A (rgoto t RInc (s\<lparr>m_owner := gettid t\<rparr>))"
      using ok by (intro mv) (auto simp: defs split: if_splits)
    then show ?thesis using RSetOwner by (simp add: recursive_mutex_lock_step_def)
  next
    case RInc
    then have "rsync_inv gettid A (rgoto t (RIncSt (m_ownerLockCount s)) s)"
      using ok by (intro mv) (auto simp: defs split: if_splits)
    then show ?thesis using RInc by (simp add: recursive_mutex_lock_step_def)
  next
    case (RIncSt n)
    then have "rsync_inv gettid A
        (rgoto t RRun (s\<lparr>m_ownerLockCount := n + 1, depth := (depth s)(t := Suc (depth s t))\<rparr>))"
      using ok by (intro mv) (auto simp: defs split: if_splits)
    then show ?thesis using RIncSt by (simp add: recursive_mutex_lock_step_def)
  qed (use inv in \<open>simp_all add: recursive_mutex_lock_step_def\<close>)
qed

lemma rfutex_wake_inv:
  assumes inv: "rsync_inv gettid A s" and ids: "task_ids gettid A" and t: "t \<in> A" "rpcs s t = RWake"
  shows "\<exists>s'. rfutex_wake t s = Inr s' \<and> rsync_inv gettid A s'"
proof -
  let ?m = "plain_mutex gettid s"
  have sr: "sreach ?m" and own: "owner_inv gettid A s" using inv by (simp_all add: rsync_inv_def)
  then have sl: "sleep_inv ?m" using sreach_inv by (simp add: sync_inv_def)
  have un: "mutex_unlock_step t ?m = futex_wake t Out MTX 1 NULL 0 ?m"
    using t(2) by (simp add: mutex_unlock_step_def abs_pc_def after_def)
  obtain m' where m': "futex_wake t Out MTX 1 NULL 0 ?m = Inr m'"
    using futex_wake_invs [OF sreach_inv [OF sr], of MTX NULL t Out 0] t(2) by (auto simp: abs_pc_def)
  then obtain n f where f: "futexmgr_wake MTX 1 NULL 0 ((rfx s)\<lparr>released := []\<rparr>) = Inr (n, f)"
    "m' = ?m\<lparr>fx := f, spcs := (\<lambda>u. if u \<in> set (released f) then LSwap
            else if u = t then Out else spcs ?m u)\<rparr>"
    by (auto simp: futex_wake_def simp del: One_nat_def plain_mutex_fields(2) split: sum.splits prod.splits)
  define s' where "s' = s\<lparr>rfx := f, rpcs := (\<lambda>u. if u \<in> set (released f) then RSwap
            else if u = t then RRun else rpcs s u)\<rparr>"
  have dt: "depth s t = 0" "m_owner s \<noteq> gettid t" using own t by (auto simp: owner_inv_def owner_ok_def)
  have nn: "NULL \<notin> snd ` set (iv_list ((rfx s)\<lparr>released := []\<rparr>))"
    using sl by (simp add: sleep_inv_def futex_inv_def)
  have "on a (iv_list f) = []" if "a \<noteq> MTX" for a
    using futexmgr_wake_on [OF nn _ f(1)] inv that by (simp add: rsync_inv_def moved_def)
  moreover have slept: "u \<noteq> t \<and> rpcs s u = RAsleep" if "u \<in> set (released f)" for u
  proof -
    from futexmgr_wake_spec [OF nn, of MTX NULL 1 0] f(1) have "released f = woken MTX 1 (rfx s)"
      by (auto simp: woken_def)
    then have "abs_pc gettid s u = Sleep" using not_sleeping [OF sl, of t u MTX 1] that t(2)
      by (simp add: abs_pc_def)
    then show ?thesis using t(2) by (auto simp: abs_pc_def split: rpc.splits if_splits)
  qed
  moreover have pc: "abs_pc gettid s' = (\<lambda>u. if u \<in> set (released f) then LSwap else if u = t then Out else abs_pc gettid s u)"
  proof
    fix u
    show "abs_pc gettid s' u = (if u \<in> set (released f) then LSwap else if u = t then Out else abs_pc gettid s u)"
      using dt owner_ok_cong(2) [of s' u s gettid] by (cases "u \<in> set (released f) \<or> u = t") (auto simp: s'_def abs_pc_def)
  qed
  moreover have "plain_mutex gettid s' = m'"
    unfolding f(2) plain_mutex_fields(2) by (simp add: plain_mutex_def pc) (simp add: s'_def)
  then have "sreach (plain_mutex gettid s')"
    using step_unlock [of t ?m] ids t(1) un m' by (auto simp: task_ids_def intro: sreach_step [OF sr])
  moreover have "owner_ok gettid s' u" if "u \<in> A" for u
  proof -
    have "owner_ok gettid s u" using own that by (simp add: owner_inv_def)
    with slept [of u] dt show ?thesis
      by (cases "u \<in> set (released f)"; cases "u = t") (simp_all add: s'_def owner_ok_def Let_def)
  qed
  moreover have "holding (abs_pc gettid s' u) = holding (abs_pc gettid s u)" for u
    using slept [of u] t(2) by (simp add: pc) (simp add: abs_pc_def)
  moreover have "rpcs s' u = RRun \<and> depth s' u = 0" if "u \<notin> A" for u
    using own slept [of u] that by (auto simp: s'_def owner_inv_def)
  ultimately have "rsync_inv gettid A s'" using own by (simp add: rsync_inv_def owner_inv_def) (simp add: s'_def)
  moreover have "rfutex_wake t s = Inr s'" using f(1) by (simp add: rfutex_wake_def s'_def)
  ultimately show ?thesis by blast
qed

lemma recursive_mutex_unlock_step_inv:
  assumes inv: "rsync_inv gettid A s" and ids: "task_ids gettid A" and t: "t \<in> A"
    and d: "rpcs s t = RRun \<Longrightarrow> 0 < depth s t"
  shows "\<exists>s'. recursive_mutex_unlock_step t s = Inr s' \<and> rsync_inv gettid A s'"
proof -
  note v = plain_holding_val [OF inv]
  have ok: "owner_ok gettid s t" and rc: "m_recursive s" using inv t by (simp_all add: rsync_inv_def owner_inv_def)
  have nz: "gettid t \<noteq> 0" using ids t by (auto simp: task_ids_def)
  note mv = rmove [OF inv ids t]
  note defs = mutex_unlock_step_def owner_ok_def abs_pc_def Let_def
  show ?thesis
  proof (cases "rpcs s t")
    case RRun
    with d ok have c: "m_ownerLockCount s \<le> 1 \<longleftrightarrow> depth s t = 1"
      using unlock_count [of "depth s t"] by (simp add: owner_ok_def)
    have "rsync_inv gettid A (rgoto t (if m_ownerLockCount s \<le> 1 then RClrCount else RDec) s)"
      using RRun ok d unfolding c by (intro mv) (auto simp: defs split: if_splits)
    then show ?thesis using RRun rc by (simp add: recursive_mutex_unlock_step_def)
  next
    case RClrCount
    then have "rsync_inv gettid A (rgoto t RClrOwner (s\<lparr>m_ownerLockCount := 0\<rparr>))"
      using ok by (intro mv) (auto simp: defs)
    then show ?thesis using RClrCount by (simp add: recursive_mutex_unlock_step_def)
  next
    case RClrOwner
    then have "rsync_inv gettid A (rgoto t RSub (s\<lparr>m_owner := 0\<rparr>))"
      using ok nz by (intro mv) (auto simp: defs)
    then show ?thesis using RClrOwner by (simp add: recursive_mutex_unlock_step_def)
  next
    case RSub
    then have "abs_pc gettid s t = Held" by (simp add: abs_pc_def)
    then have "m_val s = 1 \<or> m_val s = 2" using v(1) v(2) [of t] by auto
    then have "rsync_inv gettid A (rgoto t (if m_val s \<ge> 2 then RStore else RRun)
         (s\<lparr>m_val := m_val s - 1, depth := (depth s)(t := depth s t - 1)\<rparr>))"
      using RSub ok by (intro mv) (auto simp: defs unlock_sub_def after_def)
    then show ?thesis using RSub by (simp add: recursive_mutex_unlock_step_def)
  next
    case RStore
    then have "rsync_inv gettid A (rgoto t RWake (s\<lparr>m_val := 0\<rparr>))"
      using ok by (intro mv) (auto simp: defs)
    then show ?thesis using RStore by (simp add: recursive_mutex_unlock_step_def)
  next
    case RWake
    then show ?thesis using rfutex_wake_inv [OF inv ids t] by (simp add: recursive_mutex_unlock_step_def)
  next
    case RDec
    then have "rsync_inv gettid A (rgoto t (RDecSt (m_ownerLockCount s)) s)"
      using ok by (intro mv) (auto simp: defs)
    then show ?thesis using RDec by (simp add: recursive_mutex_unlock_step_def)
  next
    case (RDecSt n)
    then have "rsync_inv gettid A
        (rgoto t RRun (s\<lparr>m_ownerLockCount := n - 1, depth := (depth s)(t := depth s t - 1)\<rparr>))"
      using ok of_nat_pred [of "depth s t"] by (intro mv) (auto simp: defs)
    then show ?thesis using RDecSt by (simp add: recursive_mutex_unlock_step_def)
  qed (use inv in \<open>simp_all add: recursive_mutex_unlock_step_def\<close>)
qed

lemma rstep_inv:
  "rstep gettid A s r \<Longrightarrow> task_ids gettid A \<Longrightarrow> rsync_inv gettid A s \<Longrightarrow> \<exists>s'. r = Inr s' \<and> rsync_inv gettid A s'"
  by (induction rule: rstep.induct)
    (blast intro: recursive_mutex_lock_step_inv recursive_mutex_unlock_step_inv)+

lemma rsync_init_inv: "rsync_inv gettid A rsync_init" if "task_ids gettid A"
proof -
  have "plain_mutex gettid rsync_init = mutex_init"
    by (simp add: plain_mutex_def rsync_init_def mutex_t.defs rsync.defs recursive_mutex_init_def mutex_init_obj_def
        mutex_init_def abs_pc_def fun_eq_iff)
  then show ?thesis
    using that sreach_init
    by (auto simp: rsync_inv_def owner_inv_def owner_ok_def task_ids_def rsync_init_def mutex_t.defs rsync.defs
        recursive_mutex_init_def mutex_init_obj_def)
qed

lemma rreach_inv:
  assumes "rreach gettid A s" "task_ids gettid A"
  shows "rsync_inv gettid A s"
  using assms(1)
proof (induction rule: rreach.induct)
  case rreach_init
  show ?case by (rule rsync_init_inv [OF assms(2)])
next
  case (rreach_step s s')
  from rstep_inv [OF rreach_step.hyps(2) assms(2) rreach_step.IH] show ?case by simp
qed

section \<open>Properties\<close>

text \<open>C16. The recursive mutex is a mutex: along every interleaving its word, the waiters in the kernel and
  the progress of each task form a reachable state of the plain mutex, where a task counts as
  holding while it has locks of any depth or is between its last access as owner and the release.\<close>

theorem recursive_mutex_refines:
  assumes "rreach gettid A s" and "task_ids gettid A"
  shows "sreach (plain_mutex gettid s)"
  using rreach_inv [OF assms] by (simp add: rsync_inv_def)

text \<open>C17. Nesting: at most one task has the lock at any depth. While it is outside of the calls \<open>iv_owner\<close>
  is its id and \<open>iv_ownerLockCount\<close> the number of its locks. A task that sleeps has no lock, so
  the owner never waits for itself. No step fails an assertion.\<close>

theorem recursive_mutex_nesting:
  assumes "rreach gettid A s" and "task_ids gettid A"
  shows "(\<forall>t u. 0 < depth s t \<longrightarrow> 0 < depth s u \<longrightarrow> t = u)
    \<and> (\<forall>t. rpcs s t = RRun \<and> 0 < depth s t \<longrightarrow>
          m_owner s = gettid t \<and> unat (m_ownerLockCount s) = depth s t)
    \<and> (\<forall>t. rpcs s t = RAsleep \<longrightarrow> depth s t = 0 \<and>
          (\<exists>u. u \<noteq> t \<and> (holding (abs_pc gettid s u) \<or> in_flight (abs_pc gettid s u))))
    \<and> (\<forall>r. rstep gettid A s r \<longrightarrow> (\<exists>s'. r = Inr s'))"
proof -
  have inv: "rsync_inv gettid A s" by (rule rreach_inv [OF assms])
  then have own: "owner_inv gettid A s" and sr: "sreach (plain_mutex gettid s)" by (simp_all add: rsync_inv_def)
  have sy: "sync_inv (plain_mutex gettid s)" by (rule sreach_inv [OF sr])
  have ok: "owner_ok gettid s t" if "0 < depth s t \<or> rpcs s t \<noteq> RRun" for t
    using own that by (auto simp: owner_inv_def)
  have held: "holding (abs_pc gettid s t)" if "0 < depth s t" for t
    using ok [of t] that by (cases "rpcs s t") (auto simp: owner_ok_def abs_pc_def Let_def)
  have "\<forall>t u. 0 < depth s t \<longrightarrow> 0 < depth s u \<longrightarrow> t = u"
    using sy held by (auto simp: sync_inv_def lock_inv_def)
  moreover have "m_owner s = gettid t \<and> unat (m_ownerLockCount s) = depth s t"
    if "rpcs s t = RRun" "0 < depth s t" for t
    using ok [of t] that by (simp add: owner_ok_def unat_of_nat take_bit_nat_eq_self)
  moreover have "depth s t = 0 \<and> (\<exists>u. u \<noteq> t \<and> (holding (abs_pc gettid s u) \<or> in_flight (abs_pc gettid s u)))"
    if "rpcs s t = RAsleep" for t
  proof -
    have "abs_pc gettid s t = Sleep" using that by (simp add: abs_pc_def)
    then obtain a where "(a, t) \<in> set (iv_list (rfx s))" using sy by (auto simp: sync_inv_def sleep_inv_def)
    then have "t \<in> set (on a (iv_list (rfx s)))" by (simp add: set_on)
    moreover from this have "a = MTX" using inv by (auto simp: rsync_inv_def)
    ultimately show ?thesis using sleeper_waited_for [OF sy, of t] ok [of t] that by (auto simp: owner_ok_def)
  qed
  moreover have "\<exists>s'. r = Inr s'" if "rstep gettid A s r" for r
    using rstep_inv [OF that assms(2) inv] by blast
  ultimately show ?thesis by blast
qed

text \<open>Task 1 takes the lock, and takes it a second time while task 2 waits.\<close>

definition ids_example :: "task \<Rightarrow> u16" where
  "ids_example t = of_nat t"

fun run_lock :: "task list \<Rightarrow> kerror + rsync \<Rightarrow> kerror + rsync" where
  "run_lock [] r = r"
| "run_lock (t # ts) r = run_lock ts (sbind r (recursive_mutex_lock_step ids_example t))"

definition nested_example :: "kerror + rsync" where
  "nested_example = run_lock [1, 1, 1, 1, 2, 2, 2, 2, 1, 1, 1, 1] (Inr rsync_init)"

lemma run_lock_Inl: "run_lock ts (Inl e) = Inl e"
  by (induction ts) simp_all

lemma run_lock_reach:
  assumes "rreach ids_example {1, 2} s" "set ts \<subseteq> {1, 2}" "run_lock ts (Inr s) = Inr s'"
    "\<forall>t. depth s t + length ts < 2 ^ 64 - 1"
  shows "rreach ids_example {1, 2} s'"
  using assms
proof (induction ts arbitrary: s)
  case (Cons t ts)
  let ?r = "recursive_mutex_lock_step ids_example t s"
  from Cons.prems(3) obtain s1 where s1: "?r = Inr s1" by (cases ?r) (auto simp: run_lock_Inl)
  have "rstep ids_example {1, 2} s ?r"
    using Cons.prems(2,4) by (intro rstep_lock) (auto dest: spec [of _ t])
  then have "rreach ids_example {1, 2} s1" using s1 Cons.prems(1) by (auto intro: rreach_step)
  moreover have "depth s1 u \<le> Suc (depth s u)" for u
    using s1 by (auto simp: recursive_mutex_lock_step_def rfutex_wait_def Let_def split: rpc.splits if_splits prod.splits)
  then have "depth s1 u + length ts \<le> depth s u + length (t # ts)" for u by (simp add: trans_le_add1 le_diff_conv)
  then have "\<forall>u. depth s1 u + length ts < 2 ^ 64 - 1" using Cons.prems(4) le_less_trans by blast
  ultimately show ?case using Cons.IH [of s1] Cons.prems(2,3) s1 by simp
qed simp

lemmas rmutex_eval = recursive_mutex_lock_step_def rsync_init_def mutex_t.defs rsync.defs recursive_mutex_init_def
  mutex_init_obj_def ids_example_def rfutex_wait_def futexmgr_wait_def rmutex_mem_def EWOULDBLOCK_def rgoto_def

lemma nested_example_value:
  "\<exists>s. nested_example = Inr s \<and> depth s 1 = 2 \<and> rpcs s 1 = RRun \<and> rpcs s 2 = RAsleep"
  unfolding nested_example_def by (simp add: rmutex_eval)

lemma nested_example_reach:
  "\<exists>s. nested_example = Inr s \<and> rreach ids_example {1, 2} s \<and> depth s 1 = 2 \<and> rpcs s 1 = RRun \<and> rpcs s 2 = RAsleep"
proof -
  obtain s where s: "nested_example = Inr s" "depth s 1 = 2" "rpcs s 1 = RRun" "rpcs s 2 = RAsleep"
    using nested_example_value by blast
  have "depth rsync_init t = 0" for t by (simp add: rsync_init_def mutex_t.defs rsync.defs)
  then have "rreach ids_example {1, 2} s"
    using run_lock_reach [OF rreach_init _ s(1) [unfolded nested_example_def]] by simp
  with s show ?thesis by blast
qed

lemma ids_example_ok: "task_ids ids_example {1, 2}"
  by (simp add: task_ids_def ids_example_def)

theorem recursive_mutex_refines_witness:
  "\<exists>s. nested_example = Inr s \<and> sreach (plain_mutex ids_example s) \<and> spcs (plain_mutex ids_example s) 1 = Held"
proof -
  obtain s where "nested_example = Inr s" "rreach ids_example {1, 2} s" "depth s 1 = 2" "rpcs s 1 = RRun"
    using nested_example_reach by blast
  with recursive_mutex_refines [OF this(2) ids_example_ok] show ?thesis by (auto simp: abs_pc_def)
qed

theorem recursive_mutex_nesting_witness:
  "\<exists>s. nested_example = Inr s \<and> m_owner s = 1 \<and> unat (m_ownerLockCount s) = 2 \<and> depth s 2 = 0"
proof -
  obtain s where s: "nested_example = Inr s" "rreach ids_example {1, 2} s" "depth s 1 = 2" "rpcs s 1 = RRun"
    "rpcs s 2 = RAsleep"
    using nested_example_reach by blast
  note n = recursive_mutex_nesting [OF s(2) ids_example_ok]
  from n [THEN conjunct2, THEN conjunct1] s(3,4)
  have "m_owner s = ids_example 1 \<and> unat (m_ownerLockCount s) = 2" by (metis zero_less_numeral)
  moreover from n [THEN conjunct2, THEN conjunct2, THEN conjunct1] s(5) have "depth s 2 = 0" by blast
  ultimately show ?thesis using s(1) by (auto simp: ids_example_def)
qed

end
