(* ===== verification/Barrier.thy ===== *)
theory Barrier
  imports Sync
begin

text \<open>
  The barrier of \<open>lib/sync.C\<close>: a mutex, an event number that counts the completed rounds, and the
  number of tasks still missing in the current round. Every step is one access to the shared
  object, one step of \<open>mutex_lock\<close> or \<open>mutex_unlock\<close> as \<open>Sync\<close> has them, or one futex call. The
  waiters of the mutex word and those of the event word are kept in two instances of the futex
  manager, which treats different addresses independently.
\<close>

definition EVT :: addr where
  "EVT = 768"

text \<open>
  The points of \<open>barrier_wait\<close>: \<open>BLock\<close> in \<open>mutex_lock\<close>; \<open>BDec\<close>, \<open>BDecSt\<close> before the load and the store of
  the decrement; \<open>BTest\<close> before the test of \<open>iv_missing\<close>; \<open>BEvent\<close> before the load of \<open>l_event\<close>;
  \<open>BRelease\<close> in \<open>mutex_unlock\<close>, \<open>BWait\<close>, \<open>BSleep\<close>, \<open>BCheck\<close> before, in and after \<open>futex_wait\<close>, with
  \<open>l_event\<close>. The last task: \<open>BInc\<close>, \<open>BIncSt\<close> before the load and the store of the event number,
  \<open>BReset\<close> before \<open>iv_missing\<close> is set, \<open>BWakeAll\<close> before \<open>futex_wake\<close>, \<open>BLast\<close> in \<open>mutex_unlock\<close>.
\<close>

datatype bpc =
    BIdle
  | BLock
  | BDec
  | BDecSt u64
  | BTest
  | BEvent
  | BRelease u64
  | BWait u64
  | BSleep u64
  | BCheck u64
  | BInc
  | BIncSt u64
  | BReset
  | BWakeAll
  | BLast

text \<open>\<open>rounds\<close>, \<open>arrived\<close> and \<open>leaves\<close> count the completed rounds and each task's entries and returns; no
  code reads them.\<close>

record barrier_t =
  iv_mutex :: sync
  iv_event :: u64
  iv_missing :: u64
  iv_count :: u64
  efx :: futexmgr
  bpcs :: "task \<Rightarrow> bpc"
  rounds :: nat
  arrived :: "task \<Rightarrow> nat"
  leaves :: "task \<Rightarrow> nat"

definition bgoto :: "task \<Rightarrow> bpc \<Rightarrow> barrier_t \<Rightarrow> barrier_t" where
  "bgoto t c s = s\<lparr>bpcs := (bpcs s)(t := c)\<rparr>"

definition barrier_init :: "u64 \<Rightarrow> barrier_t" where
  "barrier_init i_count =
     \<lparr>iv_mutex = mutex_init, iv_event = 0, iv_missing = i_count, iv_count = i_count,
      efx = \<lparr>iv_list = [], tstate = (\<lambda>_. TASK_READY), released = [], doorbells = 0\<rparr>,
      bpcs = (\<lambda>_. BIdle), rounds = 0, arrived = (\<lambda>_. 0), leaves = (\<lambda>_. 0)\<rparr>"

definition barrier_destroy :: "barrier_t \<Rightarrow> kerror + unit" where
  "barrier_destroy s = (if iv_missing s = iv_count s then Inr () else Inl CritAssert)"

definition event_mem :: "barrier_t \<Rightarrow> addr \<Rightarrow> u64" where
  "event_mem s a = (if a = EVT then iv_event s else 0)"

definition event_wait :: "task \<Rightarrow> u64 \<Rightarrow> barrier_t \<Rightarrow> barrier_t" where
  "event_wait t l_event s =
     (let (rc, f) = futexmgr_wait (event_mem s) t EVT l_event (efx s)
      in bgoto t (if rc = 0 then BSleep l_event else BCheck l_event) (s\<lparr>efx := f\<rparr>))"

fun awaken :: "bpc \<Rightarrow> bpc" where
  "awaken (BSleep l_event) = BCheck l_event"
| "awaken c = c"

definition event_wake_all :: "task \<Rightarrow> barrier_t \<Rightarrow> kerror + barrier_t" where
  "event_wake_all t s =
     (case futexmgr_wake EVT UINT64_MAX NULL 0 ((efx s)\<lparr>released := []\<rparr>) of
        Inl e \<Rightarrow> Inl e
      | Inr (n, f) \<Rightarrow>
          Inr (s\<lparr>efx := f, bpcs := (\<lambda>u. if u \<in> set (released f) then awaken (bpcs s u)
                                        else if u = t then BLast else bpcs s u)\<rparr>))"

definition leave :: "task \<Rightarrow> barrier_t \<Rightarrow> barrier_t" where
  "leave t s = bgoto t BIdle (s\<lparr>leaves := (leaves s)(t := Suc (leaves s t))\<rparr>)"

definition barrier_wait_step :: "task \<Rightarrow> barrier_t \<Rightarrow> kerror + barrier_t" where
  "barrier_wait_step t s = (case bpcs s t of
     BIdle \<Rightarrow> Inr (bgoto t BLock s)
   | BLock \<Rightarrow>
       sbind (mutex_lock_step t (iv_mutex s))
         (\<lambda>m. Inr (bgoto t (if spcs m t = Held then BDec else BLock) (s\<lparr>iv_mutex := m\<rparr>)))
   | BDec \<Rightarrow> Inr (bgoto t (BDecSt (iv_missing s)) s)
   | BDecSt v \<Rightarrow>
       Inr (bgoto t BTest (s\<lparr>iv_missing := v - 1, arrived := (arrived s)(t := Suc (arrived s t))\<rparr>))
   | BTest \<Rightarrow> Inr (bgoto t (if iv_missing s > 0 then BEvent else BInc) s)
   | BEvent \<Rightarrow> Inr (bgoto t (BRelease (iv_event s)) s)
   | BRelease l_event \<Rightarrow>
       sbind (mutex_unlock_step t (iv_mutex s))
         (\<lambda>m. Inr (bgoto t (if spcs m t = Out then BWait l_event else BRelease l_event) (s\<lparr>iv_mutex := m\<rparr>)))
   | BWait l_event \<Rightarrow> Inr (event_wait t l_event s)
   | BSleep l_event \<Rightarrow> Inr s
   | BCheck l_event \<Rightarrow> Inr (if iv_event s = l_event then bgoto t (BWait l_event) s else leave t s)
   | BInc \<Rightarrow> Inr (bgoto t (BIncSt (iv_event s)) s)
   | BIncSt v \<Rightarrow> Inr (bgoto t BReset (s\<lparr>iv_event := v + 1, rounds := Suc (rounds s)\<rparr>))
   | BReset \<Rightarrow> Inr (bgoto t BWakeAll (s\<lparr>iv_missing := iv_count s\<rparr>))
   | BWakeAll \<Rightarrow> event_wake_all t s
   | BLast \<Rightarrow>
       sbind (mutex_unlock_step t (iv_mutex s))
         (\<lambda>m. Inr ((if spcs m t = Out then leave t else bgoto t BLast) (s\<lparr>iv_mutex := m\<rparr>))))"

text \<open>The tasks of \<open>A\<close> are the parties of the barrier; each calls \<open>barrier_wait\<close> again and again.\<close>

inductive breach :: "task set \<Rightarrow> barrier_t \<Rightarrow> bool" for A :: "task set" where
  breach_init: "unat i_count = card A \<Longrightarrow> breach A (barrier_init i_count)"
| breach_step: "breach A s \<Longrightarrow> t \<in> A \<Longrightarrow> barrier_wait_step t s = Inr s' \<Longrightarrow> breach A s'"

section \<open>Invariant\<close>

fun linked :: "bpc \<Rightarrow> spc \<Rightarrow> bool" where
  "linked BIdle c = (c = Out)"
| "linked BLock c = (c = Out \<or> c = LSwap \<or> c = LWait \<or> c = Sleep)"
| "linked (BRelease e) c = (c = Held \<or> c = UStore None \<or> c = UWake None)"
| "linked BLast c = (c = Held \<or> c = UStore None \<or> c = UWake None)"
| "linked (BWait e) c = (c = Out)"
| "linked (BSleep e) c = (c = Out)"
| "linked (BCheck e) c = (c = Out)"
| "linked _ c = (c = Held)"

text \<open>The position of a task in the rounds.\<close>

definition round_ok :: "barrier_t \<Rightarrow> task \<Rightarrow> bool" where
  "round_ok s t \<longleftrightarrow> (let r = rounds s; a = arrived s t; l = leaves s t in
     case bpcs s t of
       BTest \<Rightarrow> a = Suc r \<and> l = r
     | BEvent \<Rightarrow> a = Suc r \<and> l = r \<and> iv_missing s \<noteq> 0
     | BRelease e \<Rightarrow> (a = r \<or> a = Suc r) \<and> a = Suc l \<and> e = of_nat l
     | BWait e \<Rightarrow> (a = r \<or> a = Suc r) \<and> a = Suc l \<and> e = of_nat l
     | BSleep e \<Rightarrow> (a = r \<or> a = Suc r) \<and> a = Suc l \<and> e = of_nat l
     | BCheck e \<Rightarrow> (a = r \<or> a = Suc r) \<and> a = Suc l \<and> e = of_nat l
     | BInc \<Rightarrow> a = Suc r \<and> l = r \<and> iv_missing s = 0
     | BIncSt v \<Rightarrow> a = Suc r \<and> l = r \<and> iv_missing s = 0 \<and> v = iv_event s
     | BReset \<Rightarrow> a = r \<and> Suc l = r
     | BWakeAll \<Rightarrow> a = r \<and> Suc l = r
     | BLast \<Rightarrow> a = r \<and> Suc l = r
     | BDecSt v \<Rightarrow> a = r \<and> l = r \<and> v = iv_missing s
     | _ \<Rightarrow> a = r \<and> l = r)"

definition parties :: "task set \<Rightarrow> bool" where
  "parties A \<longleftrightarrow> finite A \<and> 0 < card A \<and> card A < 2 ^ 64 \<and> NULL \<notin> A"

definition only_mutex :: "sync \<Rightarrow> bool" where
  "only_mutex m \<longleftrightarrow> (\<forall>a. a \<noteq> MTX \<longrightarrow> on a (iv_list (fx m)) = [])"

definition mutex_part :: "task set \<Rightarrow> barrier_t \<Rightarrow> bool" where
  "mutex_part A s \<longleftrightarrow> sreach (iv_mutex s) \<and> only_mutex (iv_mutex s) \<and> (\<forall>t. linked (bpcs s t) (spcs (iv_mutex s) t))
     \<and> (\<forall>t. t \<notin> A \<longrightarrow> bpcs s t = BIdle)"

definition round_part :: "task set \<Rightarrow> barrier_t \<Rightarrow> bool" where
  "round_part A s \<longleftrightarrow> (\<forall>t\<in>A. round_ok s t) \<and> iv_event s = of_nat (rounds s) \<and> unat (iv_count s) = card A
     \<and> unat (iv_missing s) = (if BReset \<in> bpcs s ` A then 0 else card {t\<in>A. arrived s t = rounds s})
     \<and> (BReset \<in> bpcs s ` A \<longrightarrow> (\<forall>t\<in>A. arrived s t = rounds s))"

definition sleep_part :: "task set \<Rightarrow> barrier_t \<Rightarrow> bool" where
  "sleep_part A s \<longleftrightarrow> futex_inv (efx s) \<and> (\<forall>a. a \<noteq> EVT \<longrightarrow> on a (iv_list (efx s)) = [])
     \<and> (\<forall>t. (\<exists>e. bpcs s t = BSleep e) \<longleftrightarrow> t \<in> snd ` set (iv_list (efx s)))"

text \<open>No sleeper is forgotten, and a complete round has a task that will close it.\<close>

definition wake_part :: "task set \<Rightarrow> barrier_t \<Rightarrow> bool" where
  "wake_part A s \<longleftrightarrow>
     (\<forall>t\<in>A. \<forall>e. bpcs s t = BSleep e \<and> arrived s t = rounds s \<longrightarrow> BReset \<in> bpcs s ` A \<or> BWakeAll \<in> bpcs s ` A)
   \<and> ((\<forall>t\<in>A. arrived s t = Suc (rounds s)) \<longrightarrow> (\<exists>u\<in>A. bpcs s u = BTest \<or> bpcs s u = BInc \<or> (\<exists>v. bpcs s u = BIncSt v)))"

definition barrier_inv :: "task set \<Rightarrow> barrier_t \<Rightarrow> bool" where
  "barrier_inv A s \<longleftrightarrow> mutex_part A s \<and> round_part A s \<and> sleep_part A s \<and> wake_part A s"

lemma bgoto_fields [simp]:
  "bpcs (bgoto t c s) = (bpcs s)(t := c)" "iv_mutex (bgoto t c s) = iv_mutex s" "iv_event (bgoto t c s) = iv_event s"
  "iv_missing (bgoto t c s) = iv_missing s" "iv_count (bgoto t c s) = iv_count s" "efx (bgoto t c s) = efx s"
  "rounds (bgoto t c s) = rounds s" "arrived (bgoto t c s) = arrived s" "leaves (bgoto t c s) = leaves s"
  by (simp_all add: bgoto_def)

lemma EVT_addr [simp]: "EVT \<noteq> 0" "0 < EVT"
  by (simp_all add: EVT_def)

subsection \<open>The mutex inside\<close>

lemma lock_step_effect:
  assumes "sreach m" "t \<noteq> NULL"
  obtains m' where "mutex_lock_step t m = Inr m'" "sreach m'" "only_mutex m \<Longrightarrow> only_mutex m'" "\<And>u. u \<noteq> t \<Longrightarrow> spcs m' u = spcs m u"
    "linked BLock (spcs m t) \<Longrightarrow> linked BLock (spcs m' t) \<or> spcs m' t = Held"
proof -
  obtain m' where m': "mutex_lock_step t m = Inr m'"
    using mutex_lock_step_inv [OF sreach_inv [OF assms(1)] assms(2)] by blast
  moreover have "sreach m'" using m' step_lock [OF assms(2), of m] by (auto intro: sreach_step [OF assms(1)])
  moreover have "only_mutex m \<Longrightarrow> only_mutex m'"
    using m' by (auto simp: mutex_lock_step_def futex_wait_def futexmgr_wait_def only_mutex_def Let_def
        split: spc.splits if_splits prod.splits)
  moreover have "spcs m' u = spcs m u" if "u \<noteq> t" for u
    using m' that
    by (auto simp: mutex_lock_step_def futex_wait_def Let_def split: spc.splits if_splits prod.splits)
  moreover have "linked BLock (spcs m' t) \<or> spcs m' t = Held" if "linked BLock (spcs m t)"
    using m' that
    by (auto simp: mutex_lock_step_def futex_wait_def Let_def split: if_splits prod.splits)
  ultimately show thesis by (rule that)
qed

lemma unlock_step_effect:
  assumes "sreach m" "t \<noteq> NULL"
  obtains m' where "mutex_unlock_step t m = Inr m'" "sreach m'" "only_mutex m \<Longrightarrow> only_mutex m'"
    "\<And>u. u \<noteq> t \<Longrightarrow> spcs m' u = spcs m u \<or> spcs m u = Sleep \<and> spcs m' u = LSwap"
    "linked BLast (spcs m t) \<Longrightarrow> linked BLast (spcs m' t) \<or> spcs m' t = Out"
proof -
  have inv: "sync_inv m" by (rule sreach_inv [OF assms(1)])
  then have sl: "sleep_inv m" by (simp add: sync_inv_def)
  obtain m' where m': "mutex_unlock_step t m = Inr m'" using mutex_unlock_step_inv [OF inv] by blast
  moreover have "sreach m'" using m' step_unlock [OF assms(2), of m] by (auto intro: sreach_step [OF assms(1)])
  moreover have "(\<forall>u. u \<noteq> t \<longrightarrow> spcs m' u = spcs m u \<or> spcs m u = Sleep \<and> spcs m' u = LSwap)
    \<and> (linked BLast (spcs m t) \<longrightarrow> linked BLast (spcs m' t) \<or> spcs m' t = Out)
    \<and> (only_mutex m \<longrightarrow> only_mutex m')"
  proof (cases "\<exists>k. spcs m t = UWake k")
    case True
    then obtain k where k: "spcs m t = UWake k" by blast
    then have w: "futex_wake t (after k) MTX 1 NULL 0 m = Inr m'" using m' by (simp add: mutex_unlock_step_def)
    have "spcs m' = (\<lambda>u. if u \<in> set (woken MTX 1 (fx m)) then LSwap else if u = t then after k else spcs m u)"
      by (rule futex_wake_step [OF sl, of MTX NULL t "after k" 1 0]) (use w in simp_all)
    moreover have "only_mutex m'" if "only_mutex m"
      by (rule futex_wake_step [OF sl, of MTX NULL t "after k" 1 0])
        (use w that in \<open>simp_all add: only_mutex_def moved_def\<close>)
    ultimately show ?thesis using not_sleeping [OF sl, of t _ MTX 1] k by (auto simp: after_def)
  next
    case False
    then show ?thesis using m'
      by (auto simp: mutex_unlock_step_def unlock_sub_def after_def only_mutex_def split: spc.splits if_splits)
  qed
  ultimately show thesis using that by blast
qed

lemma linked_wake: "linked b Sleep \<Longrightarrow> linked b LSwap"
  by (cases b) auto

lemma alone:
  assumes "mutex_part A s" "holding (spcs (iv_mutex s) t)" "u \<noteq> t"
  shows "\<not> holding (spcs (iv_mutex s) u)"
  using assms sreach_inv [of "iv_mutex s"] by (auto simp: mutex_part_def sync_inv_def lock_inv_def)

lemma mutex_part_move:
  assumes mp: "mutex_part A s" and t: "t \<in> A" and m: "sreach m" "only_mutex m"
    "\<And>u. u \<noteq> t \<Longrightarrow> spcs m u = spcs (iv_mutex s) u \<or> spcs (iv_mutex s) u = Sleep \<and> spcs m u = LSwap"
    and l: "linked c (spcs m t)" and s': "iv_mutex s' = m" "bpcs s' = (bpcs s)(t := c)"
  shows "mutex_part A s'"
proof -
  have "linked (bpcs s' u) (spcs m u)" for u
  proof (cases "u = t")
    case False
    have "linked (bpcs s u) (spcs (iv_mutex s) u)" using mp by (simp add: mutex_part_def)
    with m(3) [OF False] have "linked (bpcs s u) (spcs m u)" by (auto dest: linked_wake)
    with False s'(2) show ?thesis by simp
  qed (use l s'(2) in simp)
  moreover have "bpcs s' u = BIdle" if "u \<notin> A" for u using mp that t s'(2) by (auto simp: mutex_part_def)
  ultimately show ?thesis using m(1,2) s' by (simp add: mutex_part_def)
qed

subsection \<open>Rounds\<close>

lemma round_ok_range:
  assumes "round_ok s t"
  shows "arrived s t = rounds s \<or> arrived s t = Suc (rounds s)" "leaves s t \<le> rounds s"
  using assms by (cases "bpcs s t"; auto simp: round_ok_def Let_def)+

lemma round_ok_cong:
  assumes "rounds s' = rounds s" "arrived s' u = arrived s u" "leaves s' u = leaves s u" "bpcs s' u = bpcs s u"
    "iv_missing s' = iv_missing s" "iv_event s' = iv_event s"
  shows "round_ok s' u = round_ok s u"
  unfolding round_ok_def Let_def using assms by (cases "bpcs s u") simp_all

fun inside :: "bpc \<Rightarrow> bool" where
  "inside BDec = True"
| "inside (BDecSt v) = True"
| "inside BTest = True"
| "inside BEvent = True"
| "inside BInc = True"
| "inside (BIncSt v) = True"
| "inside BReset = True"
| "inside BWakeAll = True"
| "inside _ = False"

lemma inside_alone:
  assumes mp: "mutex_part A s" and t: "inside (bpcs s t)" and u: "u \<noteq> t"
  shows "\<not> inside (bpcs s u)"
proof -
  have l: "linked (bpcs s w) (spcs (iv_mutex s) w)" for w using mp by (simp add: mutex_part_def)
  have "inside (bpcs s w) \<Longrightarrow> spcs (iv_mutex s) w = Held" for w using l [of w] by (cases "bpcs s w") auto
  then show ?thesis using alone [OF mp _ u] t by auto
qed

lemma only_inside:
  assumes "mutex_part A s" "inside (bpcs s t)" "inside c" "c \<noteq> bpcs s t"
  shows "c \<notin> bpcs s ` A"
  using inside_alone [OF assms(1,2)] assms(3,4) by (metis imageE)

lemma round_ok_outside:
  assumes "\<not> inside (bpcs s u)" "rounds s' = rounds s" "arrived s' u = arrived s u" "leaves s' u = leaves s u"
    "bpcs s' u = bpcs s u"
  shows "round_ok s' u = round_ok s u"
  unfolding round_ok_def Let_def using assms by (cases "bpcs s u") simp_all

lemma missing_zero_all:
  assumes rp: "round_part A s" and fin: "finite A" and z: "iv_missing s = 0" and nr: "BReset \<notin> bpcs s ` A"
    and t: "t \<in> A"
  shows "arrived s t = Suc (rounds s)"
proof -
  have "card {t\<in>A. arrived s t = rounds s} = 0" using rp z nr by (simp add: round_part_def)
  then have "{t\<in>A. arrived s t = rounds s} = {}" using fin by simp
  moreover have "round_ok s t" using rp t by (simp add: round_part_def)
  ultimately show ?thesis using round_ok_range [of s t] t by auto
qed

subsection \<open>Every step\<close>

fun closing :: "bpc \<Rightarrow> bool" where
  "closing BTest = True"
| "closing BInc = True"
| "closing (BIncSt v) = True"
| "closing _ = False"

lemma wake_part_alt:
  "wake_part A s \<longleftrightarrow>
     (\<forall>t\<in>A. \<forall>e. bpcs s t = BSleep e \<and> arrived s t = rounds s \<longrightarrow> BReset \<in> bpcs s ` A \<or> BWakeAll \<in> bpcs s ` A)
   \<and> ((\<forall>t\<in>A. arrived s t = Suc (rounds s)) \<longrightarrow> (\<exists>u\<in>A. closing (bpcs s u)))"
proof -
  have "closing c \<longleftrightarrow> c = BTest \<or> c = BInc \<or> (\<exists>v. c = BIncSt v)" for c by (cases c) auto
  then show ?thesis by (simp add: wake_part_def)
qed

fun quiet :: "bpc \<Rightarrow> bool" where
  "quiet (BSleep e) = False"
| "quiet BReset = False"
| "quiet BWakeAll = False"
| "quiet _ = True"

text \<open>A step that changes at most the mutex and the position of its task.\<close>

lemma bmove:
  assumes inv: "barrier_inv A s" and t: "t \<in> A" and q: "quiet (bpcs s t)" "quiet c"
    and m: "sreach m" "only_mutex m" "\<And>u. u \<noteq> t \<Longrightarrow> spcs m u = spcs (iv_mutex s) u \<or> spcs (iv_mutex s) u = Sleep \<and> spcs m u = LSwap"
      "linked c (spcs m t)"
    and cl: "closing (bpcs s t) \<Longrightarrow> closing c \<or> (\<exists>u\<in>A. arrived s u \<noteq> Suc (rounds s))"
    and s': "s' = bgoto t c (s\<lparr>iv_mutex := m, leaves := (leaves s)(t := l)\<rparr>)" and ok: "round_ok s' t"
  shows "barrier_inv A s'"
proof -
  have pcs: "bpcs s' = (bpcs s)(t := c)" by (simp add: s')
  have mem: "d \<in> bpcs s' ` A \<longleftrightarrow> d \<in> bpcs s ` A" if "\<not> quiet d" for d
    using q that t pcs by (auto simp: image_iff)
  have "mutex_part A s'"
    by (rule mutex_part_move [OF _ t m]) (use inv s' in \<open>simp_all add: barrier_inv_def\<close>)
  moreover have "round_ok s' u" if "u \<in> A" for u
    using round_ok_cong [of s' s u] inv that ok by (cases "u = t") (simp_all add: barrier_inv_def round_part_def s')
  then have "round_part A s'" using inv mem [of BReset] by (simp add: barrier_inv_def round_part_def s')
  moreover have "(\<exists>e. bpcs s' u = BSleep e) \<longleftrightarrow> (\<exists>e. bpcs s u = BSleep e)" for u using q pcs by auto
  then have "sleep_part A s'" using inv by (simp add: barrier_inv_def sleep_part_def s')
  moreover have "wake_part A s'"
  proof -
    have w: "wake_part A s" using inv by (simp add: barrier_inv_def)
    have "BReset \<in> bpcs s' ` A \<or> BWakeAll \<in> bpcs s' ` A"
      if "u \<in> A" "bpcs s' u = BSleep e" "arrived s' u = rounds s'" for u e
    proof -
      from that q pcs have "bpcs s u = BSleep e" by (auto split: if_splits)
      moreover have "arrived s u = rounds s" using that(3) by (simp add: s')
      ultimately have "BReset \<in> bpcs s ` A \<or> BWakeAll \<in> bpcs s ` A" using w that(1) by (auto simp: wake_part_def)
      with mem show ?thesis by auto
    qed
    moreover have "\<exists>u\<in>A. closing (bpcs s' u)" if "\<forall>t\<in>A. arrived s' t = Suc (rounds s')"
    proof -
      from that have full: "\<forall>t\<in>A. arrived s t = Suc (rounds s)" by (simp add: s')
      with w obtain u where "u \<in> A" "closing (bpcs s u)" by (auto simp: wake_part_alt)
      with cl full t pcs show ?thesis by (cases "u = t") auto
    qed
    ultimately show ?thesis by (auto simp: wake_part_alt)
  qed
  ultimately show ?thesis by (simp add: barrier_inv_def)
qed

lemma bmove_local:
  assumes inv: "barrier_inv A s" and t: "t \<in> A" and q: "quiet (bpcs s t)" "quiet c"
    and l: "linked c (spcs (iv_mutex s) t)"
    and cl: "closing (bpcs s t) \<Longrightarrow> closing c \<or> (\<exists>u\<in>A. arrived s u \<noteq> Suc (rounds s))"
    and ok: "round_ok (bgoto t c s) t"
  shows "barrier_inv A (bgoto t c s)"
proof -
  have "bgoto t c s = bgoto t c (s\<lparr>iv_mutex := iv_mutex s, leaves := (leaves s)(t := leaves s t)\<rparr>)" by simp
  moreover have "sreach (iv_mutex s)" "only_mutex (iv_mutex s)" using inv by (simp_all add: barrier_inv_def mutex_part_def)
  ultimately show ?thesis using bmove [OF inv t q _ _ _ l cl _ ok] by blast
qed

lemma barrier_pcs:
  assumes "barrier_inv A s" "t \<in> A"
  shows "round_ok s t" "linked (bpcs s t) (spcs (iv_mutex s) t)" "sreach (iv_mutex s)" "only_mutex (iv_mutex s)"
  using assms by (simp_all add: barrier_inv_def round_part_def mutex_part_def)

lemma step_BLock:
  assumes inv: "barrier_inv A s" and p: "parties A" and t: "t \<in> A" "bpcs s t = BLock"
  shows "\<exists>s'. barrier_wait_step t s = Inr s' \<and> barrier_inv A s'"
proof -
  note b = barrier_pcs [OF inv t(1)]
  have nn: "t \<noteq> NULL" using p t(1) by (metis parties_def)
  obtain m where m: "mutex_lock_step t (iv_mutex s) = Inr m" "sreach m"
    "\<And>u. u \<noteq> t \<Longrightarrow> spcs m u = spcs (iv_mutex s) u" "linked BLock (spcs m t) \<or> spcs m t = Held"
    "only_mutex m"
    using lock_step_effect [OF b(3) nn] b(2,4) t(2) by metis
  let ?c = "if spcs m t = Held then BDec else BLock"
  have "barrier_inv A (bgoto t ?c (s\<lparr>iv_mutex := m, leaves := (leaves s)(t := leaves s t)\<rparr>))"
    using inv t(1)
  proof (rule bmove [where c = ?c and m = m and l = "leaves s t"])
    show "round_ok (bgoto t ?c (s\<lparr>iv_mutex := m, leaves := (leaves s)(t := leaves s t)\<rparr>)) t"
      using b(1) t(2) by (simp add: round_ok_def)
  qed (use t m in auto)
  then show ?thesis using t(2) m(1) by (simp add: barrier_wait_step_def)
qed

lemma step_unlock_part:
  assumes inv: "barrier_inv A s" and p: "parties A" and t: "t \<in> A" "bpcs s t = BLast \<or> (\<exists>e. bpcs s t = BRelease e)"
  shows "\<exists>s'. barrier_wait_step t s = Inr s' \<and> barrier_inv A s'"
proof -
  note b = barrier_pcs [OF inv t(1)]
  have nn: "t \<noteq> NULL" using p t(1) by (metis parties_def)
  have l: "linked BLast (spcs (iv_mutex s) t)" using b(2) t(2) by auto
  obtain m where m: "mutex_unlock_step t (iv_mutex s) = Inr m" "sreach m"
    "\<And>u. u \<noteq> t \<Longrightarrow> spcs m u = spcs (iv_mutex s) u \<or> spcs (iv_mutex s) u = Sleep \<and> spcs m u = LSwap"
    "linked BLast (spcs m t) \<or> spcs m t = Out"
    "only_mutex m"
    using unlock_step_effect [OF b(3) nn] l b(4) by metis
  from t(2) show ?thesis
  proof (elim disjE exE)
    assume pc: "bpcs s t = BLast"
    let ?c = "if spcs m t = Out then BIdle else BLast"
    let ?s = "bgoto t ?c (s\<lparr>iv_mutex := m, leaves := (leaves s)
      (t := if spcs m t = Out then Suc (leaves s t) else leaves s t)\<rparr>)"
    have "barrier_inv A ?s"
      using inv t(1)
    proof (rule bmove [where c = ?c and m = m])
      show "round_ok ?s t" using b(1) pc by (simp add: round_ok_def)
    qed (use pc m in auto)
    then show ?thesis using pc m(1) by (auto simp: barrier_wait_step_def leave_def)
  next
    fix e
    assume pc: "bpcs s t = BRelease e"
    let ?c = "if spcs m t = Out then BWait e else BRelease e"
    let ?s = "bgoto t ?c (s\<lparr>iv_mutex := m, leaves := (leaves s)(t := leaves s t)\<rparr>)"
    have "barrier_inv A ?s"
      using inv t(1)
    proof (rule bmove [where c = ?c and m = m and l = "leaves s t"])
      show "round_ok ?s t" using b(1) pc by (simp add: round_ok_def)
    qed (use pc m in auto)
    then show ?thesis using pc m(1) by (simp add: barrier_wait_step_def)
  qed
qed

lemma step_BDecSt:
  assumes inv: "barrier_inv A s" and p: "parties A" and t: "t \<in> A" "bpcs s t = BDecSt v"
  shows "\<exists>s'. barrier_wait_step t s = Inr s' \<and> barrier_inv A s'"
proof -
  note b = barrier_pcs [OF inv t(1)]
  let ?s = "bgoto t BTest (s\<lparr>iv_missing := v - 1, arrived := (arrived s)(t := Suc (arrived s t))\<rparr>)"
  have mp: "mutex_part A s" and rp: "round_part A s" and w: "wake_part A s" and sp: "sleep_part A s"
    using inv by (simp_all add: barrier_inv_def)
  have out: "\<not> inside (bpcs s u)" if "u \<noteq> t" for u using inside_alone [OF mp _ that] t(2) by simp
  have nr: "BReset \<notin> bpcs s ` A" "BWakeAll \<notin> bpcs s ` A" using only_inside [OF mp, of t] t(2) by simp_all
  have tv: "arrived s t = rounds s" "leaves s t = rounds s" "v = iv_missing s" using b(1) t(2) by (simp_all add: round_ok_def Let_def)
  let ?M = "{u\<in>A. arrived s u = rounds s}"
  have fin: "finite ?M" using p by (simp add: parties_def)
  have "unat v = card ?M" using rp nr tv by (simp add: round_part_def)
  moreover have "t \<in> ?M" using t tv by simp
  moreover from this have "0 < card ?M" using fin by (auto simp: card_gt_0_iff)
  moreover have "{u\<in>A. arrived ?s u = rounds ?s} = ?M - {t}" using tv by auto
  moreover from calculation(1,3) have "v \<noteq> 0" by (metis less_irrefl unat_0)
  ultimately have un: "unat (v - 1) = card {u\<in>A. arrived ?s u = rounds ?s}"
    using fin by (simp add: card_Diff_singleton unat_minus_one)
  have "mutex_part A ?s" by (rule mutex_part_move [OF mp t(1) b(3,4)]) (use b(2) t(2) in simp_all)
  moreover have "round_ok ?s u" if "u \<in> A" for u
    using round_ok_outside [of s u ?s] out [of u] rp that tv
    by (cases "u = t") (simp_all add: round_part_def, simp add: round_ok_def Let_def)
  then have "round_part A ?s" using rp un nr by (auto simp: round_part_def)
  moreover have "(\<exists>e. bpcs ?s u = BSleep e) \<longleftrightarrow> (\<exists>e. bpcs s u = BSleep e)" for u using t(2) by simp
  then have "sleep_part A ?s" using sp by (simp add: sleep_part_def)
  moreover have "wake_part A ?s" using w nr t(1) by (auto simp: wake_part_def)
  ultimately show ?thesis using t(2) by (simp add: barrier_wait_step_def barrier_inv_def)
qed

lemma step_BIncSt:
  assumes inv: "barrier_inv A s" and p: "parties A" and t: "t \<in> A" "bpcs s t = BIncSt v"
  shows "\<exists>s'. barrier_wait_step t s = Inr s' \<and> barrier_inv A s'"
proof -
  note b = barrier_pcs [OF inv t(1)]
  let ?s = "bgoto t BReset (s\<lparr>iv_event := v + 1, rounds := Suc (rounds s)\<rparr>)"
  have mp: "mutex_part A s" and rp: "round_part A s" and sp: "sleep_part A s"
    using inv by (simp_all add: barrier_inv_def)
  have out: "\<not> inside (bpcs s u)" if "u \<noteq> t" for u using inside_alone [OF mp _ that] t(2) by simp
  have nr: "BReset \<notin> bpcs s ` A" using only_inside [OF mp, of t] t(2) by simp
  have tv: "leaves s t = rounds s" "v = iv_event s" "iv_missing s = 0"
    using b(1) t(2) by (simp_all add: round_ok_def Let_def)
  have full: "arrived s u = Suc (rounds s)" if "u \<in> A" for u
    using missing_zero_all [OF rp _ tv(3) nr that] p by (simp add: parties_def)
  have "mutex_part A ?s" by (rule mutex_part_move [OF mp t(1) b(3,4)]) (use b(2) t(2) in simp_all)
  moreover have "round_ok ?s u" if "u \<in> A" for u
  proof (cases "u = t")
    case True
    then show ?thesis using tv full [OF that] by (simp add: round_ok_def)
  next
    case False
    have "round_ok s u" using rp that by (simp add: round_part_def)
    then show ?thesis using False out [OF False] full [OF that]
      by (cases "bpcs s u") (simp_all add: round_ok_def Let_def)
  qed
  then have "round_part A ?s" using rp tv t(1) full by (simp add: round_part_def)
  moreover have "(\<exists>e. bpcs ?s u = BSleep e) \<longleftrightarrow> (\<exists>e. bpcs s u = BSleep e)" for u using t(2) by simp
  then have "sleep_part A ?s" using sp by (simp add: sleep_part_def)
  moreover have "wake_part A ?s" using t(1) full [OF t(1)] by (auto simp: wake_part_def)
  ultimately show ?thesis using t(2) by (simp add: barrier_wait_step_def barrier_inv_def)
qed

lemma step_BReset:
  assumes inv: "barrier_inv A s" and t: "t \<in> A" "bpcs s t = BReset"
  shows "\<exists>s'. barrier_wait_step t s = Inr s' \<and> barrier_inv A s'"
proof -
  note b = barrier_pcs [OF inv t(1)]
  let ?s = "bgoto t BWakeAll (s\<lparr>iv_missing := iv_count s\<rparr>)"
  have mp: "mutex_part A s" and rp: "round_part A s" and sp: "sleep_part A s"
    using inv by (simp_all add: barrier_inv_def)
  have out: "\<not> inside (bpcs s u)" if "u \<noteq> t" for u using inside_alone [OF mp _ that] t(2) by simp
  have "BReset \<in> bpcs s ` A" using t by force
  then have all: "\<forall>u\<in>A. arrived s u = rounds s" using rp by (simp add: round_part_def)
  then have "{u\<in>A. arrived s u = rounds s} = A" by auto
  moreover have nr: "BReset \<notin> bpcs ?s ` A"
  proof
    assume "BReset \<in> bpcs ?s ` A"
    then obtain u where "bpcs ?s u = BReset" by (metis imageE)
    then show False using out [of u] by (cases "u = t") auto
  qed
  moreover have "round_ok ?s t" using b(1) t(2) by (simp add: round_ok_def)
  then have "round_ok ?s u" if "u \<in> A" for u
    using round_ok_outside [of s u ?s] out [of u] rp that by (cases "u = t") (simp_all add: round_part_def)
  ultimately have "round_part A ?s" using rp by (simp add: round_part_def)
  moreover have "mutex_part A ?s" by (rule mutex_part_move [OF mp t(1) b(3,4)]) (use b(2) t(2) in simp_all)
  moreover have "(\<exists>e. bpcs ?s u = BSleep e) \<longleftrightarrow> (\<exists>e. bpcs s u = BSleep e)" for u using t(2) by simp
  then have "sleep_part A ?s" using sp by (simp add: sleep_part_def)
  moreover have "wake_part A ?s" using t(1) all by (auto simp: wake_part_def)
  ultimately show ?thesis using t(2) by (simp add: barrier_wait_step_def barrier_inv_def)
qed

lemma step_BWait:
  assumes inv: "barrier_inv A s" and p: "parties A" and t: "t \<in> A" "bpcs s t = BWait e"
  shows "\<exists>s'. barrier_wait_step t s = Inr s' \<and> barrier_inv A s'"
proof -
  note b = barrier_pcs [OF inv t(1)]
  have nn: "t \<noteq> NULL" using p t(1) by (metis parties_def)
  show ?thesis
  proof (cases "iv_event s = e")
    case False
    then have "event_wait t e s = bgoto t (BCheck e) s"
      by (simp add: event_wait_def futexmgr_wait_def event_mem_def EWOULDBLOCK_def)
    moreover have "barrier_inv A (bgoto t (BCheck e) s)"
      using b t by (intro bmove_local [OF inv t(1)]) (simp_all add: round_ok_def)
    ultimately show ?thesis using t(2) by (simp add: barrier_wait_step_def)
  next
    case True
    let ?f = "(efx s)\<lparr>tstate := (tstate (efx s))(t := TASK_BLOCK_FUTEX EVT), iv_list := (EVT, t) # iv_list (efx s)\<rparr>"
    let ?s = "bgoto t (BSleep e) (s\<lparr>efx := ?f\<rparr>)"
    have ev: "event_wait t e s = ?s" using True by (simp add: event_wait_def futexmgr_wait_def event_mem_def)
    have mp: "mutex_part A s" and rp: "round_part A s" and w: "wake_part A s" and sp: "sleep_part A s"
      using inv by (simp_all add: barrier_inv_def)
    have ev0: "iv_event s = of_nat (rounds s)" using rp by (simp add: round_part_def)
    have a: "arrived s t = Suc (rounds s)"
      using b(1) t(2) True ev0 by (auto simp: round_ok_def Let_def)
    have mem: "d \<in> bpcs ?s ` A \<longleftrightarrow> d \<in> bpcs s ` A" if "d = BReset \<or> d = BWakeAll" for d
      using that t by (auto simp: image_iff)
    have "mutex_part A ?s" by (rule mutex_part_move [OF mp t(1) b(3,4)]) (use b(2) t(2) in simp_all)
    moreover have "round_ok ?s t" using b(1) t(2) by (simp add: round_ok_def)
    then have "round_ok ?s u" if "u \<in> A" for u
      using round_ok_cong [of ?s s u] rp that by (cases "u = t") (simp_all add: round_part_def)
    then have "round_part A ?s" using rp mem [of BReset] by (simp add: round_part_def)
    moreover have "sleep_part A ?s"
    proof -
      have slp: "(\<exists>e. bpcs s u = BSleep e) \<longleftrightarrow> u \<in> snd ` set (iv_list (efx s))" for u
        using sp by (simp add: sleep_part_def)
      have nt: "t \<notin> snd ` set (iv_list (efx s))" using slp [of t] t(2) by auto
      moreover from this have "\<And>b. (b, t) \<notin> set (iv_list (efx s))" by force
      ultimately have "futex_inv ?f" using sp nn by (auto simp: sleep_part_def futex_inv_def)
      moreover have "(\<exists>e. bpcs ?s u = BSleep e) \<longleftrightarrow> u \<in> snd ` set (iv_list ?f)" for u
        using slp [of u] by auto
      ultimately show ?thesis using sp by (simp add: sleep_part_def)
    qed
    moreover have "wake_part A ?s"
    proof -
      have "closing (bpcs s u) \<Longrightarrow> closing (bpcs ?s u)" for u using t(2) by auto
      moreover have "BReset \<in> bpcs ?s ` A \<or> BWakeAll \<in> bpcs ?s ` A"
        if u: "u \<in> A" "bpcs ?s u = BSleep d" "arrived ?s u = rounds ?s" for u d
      proof -
        have "u \<noteq> t" using u(3) a by auto
        then have "BReset \<in> bpcs s ` A \<or> BWakeAll \<in> bpcs s ` A" using w u by (auto simp: wake_part_def)
        with mem show ?thesis by blast
      qed
      moreover have "arrived ?s = arrived s" "rounds ?s = rounds s" by simp_all
      ultimately show ?thesis using w unfolding wake_part_alt by metis
    qed
    ultimately show ?thesis using t(2) ev by (simp add: barrier_wait_step_def barrier_inv_def)
  qed
qed

lemma sleepers_bound:
  assumes mp: "mutex_part A s" and sp: "sleep_part A s" and p: "parties A"
  shows "length (on EVT (iv_list (efx s))) \<le> UINT64_MAX"
proof -
  let ?ts = "on EVT (iv_list (efx s))"
  have "distinct ?ts" using sp by (simp add: sleep_part_def futex_inv_def distinct_on)
  moreover have "u \<in> A" if "u \<in> set ?ts" for u
  proof -
    have "u \<in> snd ` set (iv_list (efx s))" using that by (force simp: set_on)
    moreover have "(\<exists>e. bpcs s u = BSleep e) \<longleftrightarrow> u \<in> snd ` set (iv_list (efx s))" using sp by (simp add: sleep_part_def)
    ultimately obtain e where "bpcs s u = BSleep e" by blast
    then show ?thesis using mp by (metis bpc.distinct(15) mutex_part_def)
  qed
  then have "set ?ts \<subseteq> A" by blast
  ultimately have "length ?ts \<le> card A" using p by (metis card_mono distinct_card parties_def)
  then show ?thesis using p by (simp add: parties_def UINT64_MAX_def)
qed

lemma step_BWakeAll:
  assumes inv: "barrier_inv A s" and p: "parties A" and t: "t \<in> A" "bpcs s t = BWakeAll"
  shows "\<exists>s'. barrier_wait_step t s = Inr s' \<and> barrier_inv A s'"
proof -
  note b = barrier_pcs [OF inv t(1)]
  have mp: "mutex_part A s" and rp: "round_part A s" and w: "wake_part A s" and sp: "sleep_part A s"
    using inv by (simp_all add: barrier_inv_def)
  let ?f = "(efx s)\<lparr>released := []\<rparr>" and ?ts = "on EVT (iv_list (efx s))"
  have fi: "futex_inv ?f" using sp by (simp add: sleep_part_def futex_inv_def)
  then have nn: "NULL \<notin> snd ` set (iv_list ?f)" by (simp add: futex_inv_def)
  have all: "woken EVT UINT64_MAX ?f = ?ts" using sleepers_bound [OF mp sp p] by (simp add: woken_def)
  obtain n f where f: "futexmgr_wake EVT UINT64_MAX NULL 0 ?f = Inr (n, f)" "released f = ?ts"
    using futexmgr_wake_spec [OF nn, of EVT NULL UINT64_MAX 0] all by auto
  have fi': "futex_inv f" using futexmgr_wake_inv [OF fi, of EVT NULL UINT64_MAX 0] f(1) by simp
  have "on a (iv_list f) = []" for a
    using futexmgr_wake_on [OF nn _ f(1), of a] sleepers_bound [OF mp sp p] sp
    by (simp add: sleep_part_def moved_def)
  then have empty: "iv_list f = []" by (metis list.set_intros(1) neq_Nil_conv set_on surj_pair empty_iff list.set(1))
  define s' where "s' = s\<lparr>efx := f, bpcs := (\<lambda>u. if u \<in> set (released f) then awaken (bpcs s u)
                                        else if u = t then BLast else bpcs s u)\<rparr>"
  have sleeper: "u \<in> set ?ts \<longleftrightarrow> (\<exists>e. bpcs s u = BSleep e)" for u
    using sp by (auto simp: sleep_part_def set_on) (metis empty_iff list.set(1) set_on snd_conv surj_pair image_iff)+
  have pcs: "bpcs s' u = (if u = t then BLast else awaken (bpcs s u))" for u
    using sleeper [of u] t(2) f(2) by (cases "bpcs s u") (auto simp: s'_def)
  have out: "\<not> inside (bpcs s u)" if "u \<noteq> t" for u using inside_alone [OF mp _ that] t(2) by simp
  have "linked (bpcs s' u) (spcs (iv_mutex s) u)" for u
  proof -
    have "linked (bpcs s u) (spcs (iv_mutex s) u)" using mp by (simp add: mutex_part_def)
    then show ?thesis using t(2) by (cases "bpcs s u") (auto simp: pcs)
  qed
  moreover have "bpcs s' u = BIdle" if "u \<notin> A" for u using mp t(1) that by (auto simp: mutex_part_def pcs)
  moreover have "iv_mutex s' = iv_mutex s" by (simp add: s'_def)
  ultimately have "mutex_part A s'" using mp by (simp add: mutex_part_def)
  moreover have "round_ok s' u" if "u \<in> A" for u
  proof -
    have "round_ok s u" using rp that by (simp add: round_part_def)
    then show ?thesis using t(2) unfolding round_ok_def Let_def pcs
      by (cases "bpcs s u"; cases "u = t") (simp_all add: s'_def)
  qed
  moreover have "BReset \<notin> bpcs s ` A" using only_inside [OF mp, of t] t(2) by simp
  moreover have "BReset \<notin> bpcs s' ` A"
  proof
    assume "BReset \<in> bpcs s' ` A"
    then obtain u where "bpcs s' u = BReset" by (metis imageE)
    then show False using out [of u] by (cases "bpcs s u") (auto simp: pcs split: if_splits)
  qed
  ultimately have "mutex_part A s' \<and> round_part A s'" using rp by (simp add: round_part_def) (simp add: s'_def)
  moreover have ns: "bpcs s' u \<noteq> BSleep e" for u e by (cases "bpcs s u") (auto simp: pcs)
  then have "sleep_part A s'" using fi' empty by (simp add: sleep_part_def s'_def)
  moreover have "arrived s' t \<noteq> Suc (rounds s')" using b(1) t(2) by (simp add: s'_def round_ok_def Let_def)
  then have "wake_part A s'" using ns t(1) by (auto simp: wake_part_def)
  ultimately have "barrier_inv A s'" by (simp add: barrier_inv_def)
  moreover have "event_wake_all t s = Inr s'" using f(1) by (simp add: event_wake_all_def s'_def)
  ultimately show ?thesis using t(2) by (simp add: barrier_wait_step_def)
qed

lemma step_BTest:
  assumes inv: "barrier_inv A s" and p: "parties A" and t: "t \<in> A" "bpcs s t = BTest"
  shows "\<exists>s'. barrier_wait_step t s = Inr s' \<and> barrier_inv A s'"
proof -
  note b = barrier_pcs [OF inv t(1)]
  have rp: "round_part A s" and nr: "BReset \<notin> bpcs s ` A"
    using inv only_inside [of A s t] t(2) by (simp_all add: barrier_inv_def)
  have late: "\<exists>u\<in>A. arrived s u \<noteq> Suc (rounds s)" if "iv_missing s \<noteq> 0"
  proof (rule ccontr)
    assume "\<not> ?thesis"
    then have "{u\<in>A. arrived s u = rounds s} = {}" by auto
    moreover have "unat (iv_missing s) = card {u\<in>A. arrived s u = rounds s}" using rp nr by (simp add: round_part_def)
    ultimately have "unat (iv_missing s) = 0" by (simp only: card.empty)
    with that show False by (simp add: word_unat_eq_iff)
  qed
  have "barrier_inv A (bgoto t (if iv_missing s > 0 then BEvent else BInc) s)"
    using b t late
    by (intro bmove_local [OF inv t(1)]) (auto simp: word_gt_0 round_ok_def)
  then show ?thesis using t(2) by (simp add: barrier_wait_step_def)
qed

lemma step_BCheck:
  assumes inv: "barrier_inv A s" and t: "t \<in> A" "bpcs s t = BCheck e"
  shows "\<exists>s'. barrier_wait_step t s = Inr s' \<and> barrier_inv A s'"
proof -
  note b = barrier_pcs [OF inv t(1)]
  have ev: "iv_event s = of_nat (rounds s)" using inv by (simp add: barrier_inv_def round_part_def)
  have "barrier_inv A (bgoto t (BWait e) s)"
    using b t by (intro bmove_local [OF inv t(1)]) (simp_all add: round_ok_def)
  moreover have "barrier_inv A (leave t s)" if "iv_event s \<noteq> e"
    using inv t(1)
  proof (rule bmove [where c = BIdle and m = "iv_mutex s" and l = "Suc (leaves s t)"])
    show "leave t s = bgoto t BIdle (s\<lparr>iv_mutex := iv_mutex s, leaves := (leaves s)(t := Suc (leaves s t))\<rparr>)"
      by (simp add: leave_def)
    show "round_ok (leave t s) t"
      using b(1) t(2) that ev by (auto simp: leave_def round_ok_def Let_def)
  qed (use b t in auto)
  ultimately show ?thesis using t(2) by (simp add: barrier_wait_step_def)
qed

lemma barrier_wait_step_inv:
  assumes inv: "barrier_inv A s" and p: "parties A" and t: "t \<in> A"
  shows "\<exists>s'. barrier_wait_step t s = Inr s' \<and> barrier_inv A s'"
proof -
  note b = barrier_pcs [OF inv t]
  have move: "barrier_inv A (bgoto t c s)"
    if "(bpcs s t, c) \<in> {(BIdle, BLock), (BDec, BDecSt (iv_missing s)), (BEvent, BRelease (iv_event s)),
      (BInc, BIncSt (iv_event s))}" for c
    using b that inv by (intro bmove_local [OF inv t]) (auto simp: round_ok_def Let_def barrier_inv_def round_part_def)
  show ?thesis
  proof (cases "bpcs s t")
    case (BSleep e)
    with inv show ?thesis by (simp add: barrier_wait_step_def)
  qed (use move in \<open>simp_all add: barrier_wait_step_def\<close>,
      (use step_BLock [OF inv p t] step_BDecSt [OF inv p t] step_BTest [OF inv p t] step_unlock_part [OF inv p t]
         step_BWait [OF inv p t] step_BCheck [OF inv t] step_BIncSt [OF inv p t] step_BReset [OF inv t]
         step_BWakeAll [OF inv p t] in \<open>force simp: barrier_wait_step_def\<close>)+)
qed

lemma barrier_init_inv:
  assumes "parties A" "unat i_count = card A"
  shows "barrier_inv A (barrier_init i_count)"
proof -
  have "sreach mutex_init" by (rule sreach_init)
  moreover have "only_mutex mutex_init" "\<forall>t. spcs mutex_init t = Out" by (simp_all add: only_mutex_def mutex_init_def)
  moreover have "A \<noteq> {}" using assms(1) by (auto simp: parties_def)
  ultimately show ?thesis using assms(2)
    by (auto simp: barrier_inv_def mutex_part_def round_part_def sleep_part_def wake_part_def round_ok_def
        barrier_init_def futex_inv_def Let_def)
qed

lemma breach_inv:
  assumes "breach A s" "parties A"
  shows "barrier_inv A s"
  using assms(1)
proof (induction rule: breach.induct)
  case (breach_init i_count)
  then show ?case using barrier_init_inv [OF assms(2)] by simp
next
  case (breach_step s t s')
  then show ?case using barrier_wait_step_inv [OF _ assms(2), of s t] by auto
qed

section \<open>Properties\<close>

text \<open>C14. A barrier separates rounds: no task returns from its \<open>k\<close>-th \<open>barrier_wait\<close> before every party has
  entered its \<open>k\<close>-th, none is ever more than one round ahead of a task that is still leaving, no
  step fails, and the barrier can be destroyed whenever no task is inside.\<close>

theorem barrier_separates_rounds:
  assumes "breach A s" and "parties A" and "t \<in> A" and "u \<in> A"
  shows "leaves s t \<le> arrived s u \<and> arrived s u \<le> leaves s t + 2
    \<and> (\<exists>s'. barrier_wait_step t s = Inr s')
    \<and> ((\<forall>w. bpcs s w = BIdle) \<longrightarrow> barrier_destroy s = Inr ())"
proof -
  have inv: "barrier_inv A s" by (rule breach_inv [OF assms(1,2)])
  then have rp: "round_part A s" by (simp add: barrier_inv_def)
  have ok: "round_ok s w" if "w \<in> A" for w using rp that by (simp add: round_part_def)
  have "rounds s \<le> Suc (leaves s t)" using ok [OF assms(3)] by (cases "bpcs s t") (auto simp: round_ok_def Let_def)
  moreover have "barrier_destroy s = Inr ()" if idle: "\<forall>w. bpcs s w = BIdle"
  proof -
    have "{w\<in>A. arrived s w = rounds s} = A" using ok idle by (auto simp: round_ok_def Let_def)
    moreover have "BReset \<notin> bpcs s ` A" using idle by auto
    ultimately have "unat (iv_missing s) = unat (iv_count s)" using rp by (simp add: round_part_def)
    then show ?thesis by (simp add: barrier_destroy_def word_unat_eq_iff)
  qed
  ultimately show ?thesis
    using round_ok_range [OF ok [OF assms(3)]] round_ok_range [OF ok [OF assms(4)]]
      barrier_wait_step_inv [OF inv assms(2,3)] by auto
qed

definition blocked :: "barrier_t \<Rightarrow> task \<Rightarrow> bool" where
  "blocked s t \<longleftrightarrow> (case bpcs s t of BSleep e \<Rightarrow> True | BLock \<Rightarrow> spcs (iv_mutex s) t = Sleep | _ \<Rightarrow> False)"

lemma mutex_sleeper_waited_for:
  assumes mp: "mutex_part A s" and t: "spcs (iv_mutex s) t = Sleep"
  shows "\<exists>u\<in>A. \<not> blocked s u"
proof -
  let ?m = "iv_mutex s"
  have sy: "sync_inv ?m" using mp sreach_inv by (simp add: mutex_part_def)
  obtain a where "(a, t) \<in> set (iv_list (fx ?m))" using sy t by (force simp: sync_inv_def sleep_inv_def)
  then have "t \<in> set (on a (iv_list (fx ?m)))" by (simp add: set_on)
  moreover from this have "a = MTX" using mp by (auto simp: mutex_part_def only_mutex_def)
  ultimately obtain u where u: "holding (spcs ?m u) \<or> in_flight (spcs ?m u)" using sleeper_waited_for [OF sy, of t] by blast
  have l: "linked (bpcs s u) (spcs ?m u)" using mp by (simp add: mutex_part_def)
  have "u \<in> A" using mp u l by (cases "u \<in> A") (auto simp: mutex_part_def)
  moreover have "\<not> blocked s u" using u l by (cases "bpcs s u") (auto simp: blocked_def)
  ultimately show ?thesis by blast
qed

text \<open>C15. The barrier never blocks for good: at every point some party can take a step, and a party asleep
  on the event is waiting for a party that has not entered the round yet, or for the last one,
  which is still inside and on its way to the wake call.\<close>

theorem barrier_progress:
  assumes "breach A s" and "parties A"
  shows "(\<exists>u\<in>A. \<not> blocked s u)
    \<and> (\<forall>t e. bpcs s t = BSleep e \<longrightarrow> (\<exists>u\<in>A. arrived s u < arrived s t \<or> inside (bpcs s u)))"
proof -
  have inv: "barrier_inv A s" by (rule breach_inv [OF assms])
  then have mp: "mutex_part A s" and rp: "round_part A s" and w: "wake_part A s" by (simp_all add: barrier_inv_def)
  have ok: "round_ok s w" if "w \<in> A" for w using rp that by (simp add: round_part_def)
  have slp: "\<exists>u\<in>A. arrived s u < arrived s t \<or> inside (bpcs s u)" if t: "bpcs s t = BSleep e" for t e
  proof -
    have tA: "t \<in> A" using mp t by (metis bpc.distinct(15) mutex_part_def)
    show ?thesis
    proof (cases "arrived s t = rounds s")
      case True
      then have "BReset \<in> bpcs s ` A \<or> BWakeAll \<in> bpcs s ` A" using w t tA by (auto simp: wake_part_def)
      then show ?thesis by (metis imageE inside.simps(7,8))
    next
      case False
      then have a: "arrived s t = Suc (rounds s)" using round_ok_range [OF ok [OF tA]] by simp
      show ?thesis
      proof (cases "\<forall>u\<in>A. arrived s u = Suc (rounds s)")
        case True
        then obtain u where "u \<in> A" "closing (bpcs s u)" using w by (auto simp: wake_part_alt)
        moreover from this have "inside (bpcs s u)" by (cases "bpcs s u") auto
        ultimately show ?thesis by blast
      next
        case False
        then obtain u where "u \<in> A" "arrived s u \<noteq> Suc (rounds s)" by blast
        with a round_ok_range [OF ok [of u]] show ?thesis by (intro bexI [of _ u]) auto
      qed
    qed
  qed
  have "\<exists>u\<in>A. \<not> blocked s u"
  proof (rule ccontr)
    assume "\<not> ?thesis"
    then have bl: "\<And>u. u \<in> A \<Longrightarrow> blocked s u" by blast
    have s: "\<exists>e. bpcs s u = BSleep e" if "u \<in> A" for u
      using bl [OF that] bl mutex_sleeper_waited_for [OF mp, of u]
      by (cases "bpcs s u") (auto simp: blocked_def)
    then have ni: "\<not> inside (bpcs s u)" if "u \<in> A" for u using that by force
    have "A \<noteq> {}" "finite A" using assms(2) by (auto simp: parties_def)
    then obtain t where t: "t \<in> A" "arrived s t = Min (arrived s ` A)" by (metis (mono_tags) Min_in finite_imageI image_iff image_is_empty)
    then obtain u where "u \<in> A" "arrived s u < arrived s t" using s [OF t(1)] slp [of t] ni by blast
    with t(2) \<open>finite A\<close> show False by (metis Min_le finite_imageI imageI not_less)
  qed
  with slp show ?thesis by blast
qed

text \<open>Two parties: task 1 arrives and goes to sleep.\<close>

fun run_barrier :: "task list \<Rightarrow> kerror + barrier_t \<Rightarrow> kerror + barrier_t" where
  "run_barrier [] r = r"
| "run_barrier (t # ts) r = run_barrier ts (sbind r (barrier_wait_step t))"

definition barrier_example :: "kerror + barrier_t" where
  "barrier_example = run_barrier [1, 1, 1, 1, 1, 1, 1, 1] (Inr (barrier_init 2))"

lemma run_barrier_Inl: "run_barrier ts (Inl e) = Inl e"
  by (induction ts) simp_all

lemma run_barrier_reach:
  "breach A s \<Longrightarrow> set ts \<subseteq> A \<Longrightarrow> run_barrier ts (Inr s) = Inr s' \<Longrightarrow> breach A s'"
proof (induction ts arbitrary: s)
  case (Cons t ts)
  let ?r = "barrier_wait_step t s"
  from Cons.prems(3) obtain s1 where s1: "?r = Inr s1" by (cases ?r) (auto simp: run_barrier_Inl)
  then have "breach A s1" using Cons.prems(1,2) by (auto intro: breach_step)
  then show ?case using Cons.IH [of s1] Cons.prems(2,3) s1 by simp
qed simp

lemma barrier_example_value:
  "\<exists>s. barrier_example = Inr s \<and> bpcs s 1 = BSleep 0 \<and> arrived s 1 = 1 \<and> bpcs s 2 = BIdle"
  unfolding barrier_example_def
  by (simp add: barrier_wait_step_def barrier_init_def mutex_init_def mutex_lock_step_def mutex_unlock_step_def
      unlock_sub_def after_def event_wait_def futexmgr_wait_def event_mem_def bgoto_def goto_def word_le_nat_alt)

lemma barrier_example_reach:
  "\<exists>s. barrier_example = Inr s \<and> breach {1, 2} s \<and> bpcs s 1 = BSleep 0 \<and> arrived s 1 = 1 \<and> bpcs s 2 = BIdle"
proof -
  have "breach {1, 2} (barrier_init 2)" by (rule breach_init) simp
  then show ?thesis
    using barrier_example_value run_barrier_reach [of "{1, 2}" "barrier_init 2" "[1, 1, 1, 1, 1, 1, 1, 1]"]
    by (auto simp: barrier_example_def)
qed

lemma two_parties: "parties {1, 2}"
  by (simp add: parties_def)

theorem barrier_separates_rounds_witness:
  "\<exists>s. barrier_example = Inr s \<and> leaves s 2 \<le> 1 \<and> arrived s 2 \<le> leaves s 1 + 2 \<and> leaves s 1 \<le> arrived s 2"
proof -
  obtain s where s: "barrier_example = Inr s" "breach {1, 2} s" "arrived s 1 = 1" using barrier_example_reach by blast
  from barrier_separates_rounds [OF s(2) two_parties, of 2 1] barrier_separates_rounds [OF s(2) two_parties, of 1 2] s
  show ?thesis by auto
qed

theorem barrier_progress_witness:
  "\<exists>s. barrier_example = Inr s \<and> blocked s 1 \<and> (\<exists>u\<in>{1, 2}. \<not> blocked s u)
    \<and> (\<exists>u\<in>{1, 2}. arrived s u < 1 \<or> inside (bpcs s u))"
proof -
  obtain s where s: "barrier_example = Inr s" "breach {1, 2} s" "bpcs s 1 = BSleep 0" "arrived s 1 = 1"
    using barrier_example_reach by blast
  from barrier_progress [OF s(2) two_parties] s(3,4)
  have "(\<exists>u\<in>{1, 2}. \<not> blocked s u) \<and> (\<exists>u\<in>{1, 2}. arrived s u < 1 \<or> inside (bpcs s u))" by metis
  then show ?thesis using s(1,3) by (auto simp: blocked_def)
qed

end
