(* ===== verification/Scheduler.thy ===== *)
theory Scheduler
  imports Futex "HOL-Library.Multiset"
begin

text \<open>
  The kernel's state around tasks, and the components that decide which task runs: the scheduler
  (\<open>kernel/scheduler.C\<close>) and the time manager (\<open>kernel/timemgr.C\<close>). The task manager and the message
  queues, in later theories, work on the same state. Kernel code runs on one CPU, \<open>here\<close>, with the
  locks of the source held; \<open>tb\<close> is what the time base register reads. Run queues are lists from
  \<open>head\<close> to \<open>tail\<close>, as \<open>Intrusive_List\<close> represents them: an insert is at the front, a remove at the
  end.
\<close>

section \<open>State\<close>

datatype task_states =
    TASK_STATE_RUNNING
  | TASK_STATE_READY
  | TASK_STATE_ENDED
  | TASK_STATE_BLOCK_FUTEX
  | TASK_STATE_BLOCK_MSG
  | TASK_STATE_BLOCK_USRSPACE
  | TASK_STATE_BLOCK_SLEEP
  | TASK_STATE_BLOCK_JOIN

text \<open>
  \<open>task_t\<close>. A task is named by its address. Of the saved context the model has the stack pointer and
  the general registers, where system calls have their arguments and result; the addresses of the
  entry stubs, the floating-point and the thread-local contexts are left out.
\<close>

record task_t =
  tcpu :: nat
  stack_ptr :: addr
  gprs :: "nat \<Rightarrow> u64"
  tid :: u16
  affinity_pinned :: u64
  state :: task_states
  state_info :: u64
  tracker :: addr
  detached :: bool

text \<open>\<open>cpu_t\<close>; \<open>sprg3\<close> is the register that holds the current task, \<open>dec\<close> the decrementer.\<close>

record cpu_t =
  idle_task :: task
  scheduler_extra :: "task list option"
  delay_list :: "(u64 \<times> task) list"
  master :: bool
  sprg3 :: task
  dec :: u64

text \<open>\<open>task_wait_t\<close> and \<open>task_tracking_t\<close>; the children are trackers, in list order.\<close>

record task_wait_t =
  wtid :: int
  wstatus :: addr
  wretval :: addr

record task_tracking_t =
  parent :: addr
  children :: "addr list"
  tr_key :: u16
  tr_task :: task
  tr_status :: int
  tr_retval :: u64
  wait_info :: "task_wait_t option"
  entry_point :: u64

text \<open>
  \<open>MessagePending\<close> is a pair of a message and what the source keeps in its \<open>task\<close> field: a task, or,
  for a pseudo-synchronous message, the secondary queue, or, for a kernel message, the handler.
\<close>

record msg_t =
  mtype :: u32
  mreserved_async :: bool
  mreserved_pseudosync :: bool
  mdata0 :: u64
  mdata1 :: u64
  extra_data :: u64

record msgqueue =
  messages :: "(addr \<times> addr) list"
  responses :: "(addr \<times> addr) list"
  waiting :: "task list"

record msghandler =
  iv_msgq :: addr
  iv_pending :: "(u64 \<times> task) list"

record kernel =
  tasks :: "task \<Rightarrow> task_t"
  cpus :: "nat \<Rightarrow> cpu_t"
  ncpus :: nat
  runq :: "task list"
  trackers :: "addr \<Rightarrow> task_tracking_t"
  tracked :: "addr set"
  iv_taskList :: "addr list"
  iv_nextTid :: u16
  msgqs :: "addr \<Rightarrow> msgqueue"
  queues :: "addr set"
  msgs :: "addr \<Rightarrow> msg_t"
  handlers :: "addr \<Rightarrow> msghandler"
  handling :: "addr set"
  futexes :: futexmgr
  umem :: "addr \<Rightarrow> u64"
  db_broadcasts :: nat
  iv_timebaseFreq :: u64
  iv_timeslicePerSec :: u64
  cv_isSimicsRunning :: bool

definition upd_task :: "task \<Rightarrow> (task_t \<Rightarrow> task_t) \<Rightarrow> kernel \<Rightarrow> kernel" where
  "upd_task t f k = k\<lparr>tasks := (tasks k)(t := f (tasks k t))\<rparr>"

definition upd_cpu :: "nat \<Rightarrow> (cpu_t \<Rightarrow> cpu_t) \<Rightarrow> kernel \<Rightarrow> kernel" where
  "upd_cpu c f k = k\<lparr>cpus := (cpus k)(c := f (cpus k c))\<rparr>"

definition set_state :: "task \<Rightarrow> task_states \<Rightarrow> kernel \<Rightarrow> kernel" where
  "set_state t st k = upd_task t (\<lambda>r. r\<lparr>state := st\<rparr>) k"

definition block :: "task \<Rightarrow> task_states \<Rightarrow> u64 \<Rightarrow> kernel \<Rightarrow> kernel" where
  "block t st info k = upd_task t (\<lambda>r. r\<lparr>state := st, state_info := info\<rparr>) k"

text \<open>\<open>TASK_GETARGN\<close> and \<open>TASK_SETRTN\<close>.\<close>

definition TASK_GETARG :: "kernel \<Rightarrow> task \<Rightarrow> nat \<Rightarrow> u64" where
  "TASK_GETARG k t n = gprs (tasks k t) (n + 4)"

definition TASK_SETRTN :: "task \<Rightarrow> u64 \<Rightarrow> kernel \<Rightarrow> kernel" where
  "TASK_SETRTN t v k = upd_task t (\<lambda>r. r\<lparr>gprs := (gprs r)(3 := v)\<rparr>) k"

definition doorbell_broadcast :: "kernel \<Rightarrow> kernel" where
  "doorbell_broadcast k = k\<lparr>db_broadcasts := Suc (db_broadcasts k)\<rparr>"

text \<open>\<open>Queue::remove\<close>: the element at the tail.\<close>

definition q_remove :: "'a list \<Rightarrow> ('a \<times> 'a list) option" where
  "q_remove xs = (if xs = [] then None else Some (last xs, butlast xs))"

section \<open>Time manager: conversions\<close>

definition tm_init :: "kernel \<Rightarrow> kernel" where
  "tm_init k = k\<lparr>iv_timebaseFreq := 512000000\<rparr>"

definition convertSecToTicks :: "u64 \<Rightarrow> u64 \<Rightarrow> u64 \<Rightarrow> u64" where
  "convertSecToTicks freq i_sec i_nsec =
     ((i_sec * 1000000000 + i_nsec) * (freq div 1000000)) div 1000"

definition convertTicksToSec :: "u64 \<Rightarrow> u64 \<Rightarrow> u64 \<times> u64" where
  "convertTicksToSec freq i_ticks =
     (let o_sec = i_ticks div freq
      in (o_sec, ((i_ticks - o_sec * freq) * 1000) div (freq div 1000000)))"

definition getTimeSliceCount :: "kernel \<Rightarrow> u64" where
  "getTimeSliceCount k = iv_timebaseFreq k div iv_timeslicePerSec k"

text \<open>The front of the delay list of a CPU is its tail, the earliest deadline.\<close>

definition getIdleTimeSliceCount :: "nat \<Rightarrow> u64 \<Rightarrow> kernel \<Rightarrow> u64" where
  "getIdleTimeSliceCount here tb k =
     (let sliceCount = (if cv_isSimicsRunning k then getTimeSliceCount k * 10 else getTimeSliceCount k)
      in case q_remove (delay_list (cpus k here)) of
           None \<Rightarrow> sliceCount
         | Some ((due, t), rest) \<Rightarrow>
             if tb < due then (if due - tb < sliceCount then due - tb else sliceCount) else 1)"

section \<open>Scheduler\<close>

definition run_pinned :: "nat \<Rightarrow> task \<Rightarrow> kernel \<Rightarrow> kernel" where
  "run_pinned c t k = upd_cpu c (\<lambda>r. r\<lparr>scheduler_extra :=
     Some (t # (case scheduler_extra r of None \<Rightarrow> [] | Some q \<Rightarrow> q))\<rparr>) k"

definition addTask :: "task \<Rightarrow> kernel \<Rightarrow> kernel" where
  "addTask t k0 =
     (let k = set_state t TASK_STATE_READY k0; c = tcpu (tasks k t)
      in if idle_task (cpus k c) \<noteq> t
         then if affinity_pinned (tasks k t) \<noteq> 0 then run_pinned c t k
              else k\<lparr>runq := t # runq k\<rparr>
         else k)"

definition getMasterCPU :: "kernel \<Rightarrow> nat option" where
  "getMasterCPU k = List.find (\<lambda>c. master (cpus k c)) [0..<ncpus k]"

definition addTaskMasterCPU :: "task \<Rightarrow> kernel \<Rightarrow> kerror + kernel" where
  "addTaskMasterCPU t k0 =
     (let k = set_state t TASK_STATE_READY k0
      in if idle_task (cpus k (tcpu (tasks k t))) \<noteq> t
         then case getMasterCPU k of None \<Rightarrow> Inl NullDeref | Some c \<Rightarrow> Inr (run_pinned c t k)
         else Inr k)"

definition setCurrentTask :: "nat \<Rightarrow> task \<Rightarrow> kernel \<Rightarrow> kernel" where
  "setCurrentTask here t k =
     upd_cpu here (\<lambda>r. r\<lparr>sprg3 := t\<rparr>) (upd_task t (\<lambda>r. r\<lparr>tcpu := here, state := TASK_STATE_RUNNING\<rparr>) k)"

definition getCurrentTask :: "nat \<Rightarrow> kernel \<Rightarrow> task" where
  "getCurrentTask here k = sprg3 (cpus k here)"

definition returnRunnable :: "nat \<Rightarrow> kernel \<Rightarrow> kernel" where
  "returnRunnable here k = addTask (getCurrentTask here k) k"

text \<open>The task that \<open>setNextRunnable\<close> takes off a queue, and the state without it.\<close>

definition pick :: "nat \<Rightarrow> kernel \<Rightarrow> (task \<times> kernel) option" where
  "pick here k =
     (case (case scheduler_extra (cpus k here) of None \<Rightarrow> None | Some q \<Rightarrow> q_remove q) of
        Some (t, q) \<Rightarrow> Some (t, upd_cpu here (\<lambda>r. r\<lparr>scheduler_extra := Some q\<rparr>) k)
      | None \<Rightarrow>
          (case q_remove (runq k) of
             Some (t, q) \<Rightarrow> Some (t, k\<lparr>runq := q\<rparr>)
           | None \<Rightarrow> None))"

definition setNextRunnable :: "nat \<Rightarrow> u64 \<Rightarrow> kernel \<Rightarrow> kernel" where
  "setNextRunnable here tb k =
     (case pick here k of
        None \<Rightarrow> setCurrentTask here (idle_task (cpus k here))
                  (upd_cpu here (\<lambda>r. r\<lparr>dec := getIdleTimeSliceCount here tb k\<rparr>) k)
      | Some (t, k1) \<Rightarrow> setCurrentTask here t
                  (upd_cpu here (\<lambda>r. r\<lparr>dec := getTimeSliceCount k\<rparr>) k1))"

section \<open>Time manager: sleeping tasks\<close>

text \<open>\<open>PQueue::insert\<close> on the list from the latest deadline to the earliest.\<close>

fun delay_insert :: "u64 \<times> task \<Rightarrow> (u64 \<times> task) list \<Rightarrow> (u64 \<times> task) list" where
  "delay_insert x [] = [x]"
| "delay_insert x (y # ys) = (if fst y \<le> fst x then x # y # ys else y # delay_insert x ys)"

definition delayTask :: "nat \<Rightarrow> u64 \<Rightarrow> task \<Rightarrow> u64 \<Rightarrow> u64 \<Rightarrow> kernel \<Rightarrow> kernel" where
  "delayTask here tb t i_sec i_nsec k =
     (let due = tb + convertSecToTicks (iv_timebaseFreq k) i_sec i_nsec
      in upd_cpu here (\<lambda>r. r\<lparr>delay_list := delay_insert (due, t) (delay_list r)\<rparr>)
           (block t TASK_STATE_BLOCK_SLEEP due k))"

text \<open>\<open>PQueue::remove_if\<close>: the earliest node, if it is due.\<close>

definition delay_remove_if :: "u64 \<Rightarrow> (u64 \<times> task) list \<Rightarrow> ((u64 \<times> task) \<times> (u64 \<times> task) list) option" where
  "delay_remove_if now xs = (if xs \<noteq> [] \<and> fst (last xs) \<le> now then Some (last xs, butlast xs) else None)"

lemma addTask_delay_list: "delay_list (cpus (addTask t k) c) = delay_list (cpus k c)"
  by (simp add: addTask_def set_state_def upd_task_def upd_cpu_def run_pinned_def Let_def)

function checkReleaseTasks :: "nat \<Rightarrow> u64 \<Rightarrow> kernel \<Rightarrow> kernel" where
  "checkReleaseTasks here now k =
     (case delay_remove_if now (delay_list (cpus k here)) of
        None \<Rightarrow> k
      | Some (x, rest) \<Rightarrow>
          checkReleaseTasks here now
            (doorbell_broadcast (addTask (snd x) (upd_cpu here (\<lambda>r. r\<lparr>delay_list := rest\<rparr>) k))))"
  by pat_completeness auto
termination
  by (relation "measure (\<lambda>(here, now, k). length (delay_list (cpus k here)))")
    (auto simp: delay_remove_if_def addTask_delay_list doorbell_broadcast_def upd_cpu_def split: if_splits)

declare checkReleaseTasks.simps [simp del]

section \<open>Where a task is\<close>

text \<open>
  A task is on a CPU, on a run queue, or parked in one of the structures that can wake it: a delay
  list, a message queue (as a waiting server, or as the sender of a synchronous message), the
  pending list of a kernel message handler, a tracker that waits for a child, or the futex list.
  \<open>places u k\<close> counts them.
\<close>

definition MSG_FIRST_SYS_TYPE :: u32 where
  "MSG_FIRST_SYS_TYPE = 0x80000000"

definition blocking :: "msg_t \<Rightarrow> bool" where
  "blocking m \<longleftrightarrow> mreserved_async m \<and> \<not> mreserved_pseudosync m \<and> mtype m < MSG_FIRST_SYS_TYPE"

definition on_cpu :: "task \<Rightarrow> cpu_t \<Rightarrow> nat" where
  "on_cpu u r = of_bool (sprg3 r = u)
     + (case scheduler_extra r of None \<Rightarrow> 0 | Some q \<Rightarrow> count_list q u)
     + count_list (map snd (delay_list r)) u"

definition as_sender :: "(addr \<Rightarrow> msg_t) \<Rightarrow> task \<Rightarrow> (addr \<times> addr) list \<Rightarrow> nat" where
  "as_sender ms u ps = length (filter (\<lambda>p. blocking (ms (fst p)) \<and> snd p = u) ps)"

definition in_queue :: "(addr \<Rightarrow> msg_t) \<Rightarrow> task \<Rightarrow> msgqueue \<Rightarrow> nat" where
  "in_queue ms u q = as_sender ms u (messages q) + as_sender ms u (responses q) + count_list (waiting q) u"

definition in_handler :: "task \<Rightarrow> msghandler \<Rightarrow> nat" where
  "in_handler u h = count_list (map snd (iv_pending h)) u"

definition joining :: "task \<Rightarrow> task_tracking_t \<Rightarrow> nat" where
  "joining u r = of_bool (wait_info r \<noteq> None \<and> tr_task r = u)"

definition places :: "task \<Rightarrow> kernel \<Rightarrow> nat" where
  "places u k =
     (\<Sum>c<ncpus k. on_cpu u (cpus k c)) + count_list (runq k) u
     + (\<Sum>q\<in>queues k. in_queue (msgs k) u (msgqs k q))
     + (\<Sum>h\<in>handling k. in_handler u (handlers k h))
     + (\<Sum>a\<in>tracked k. joining u (trackers k a))
     + count_list (map snd (iv_list (futexes k))) u"

definition kwf :: "kernel \<Rightarrow> bool" where
  "kwf k \<longleftrightarrow> (\<forall>t. tcpu (tasks k t) < ncpus k) \<and> finite (queues k) \<and> finite (handling k) \<and> finite (tracked k)"

definition idle :: "task \<Rightarrow> kernel \<Rightarrow> bool" where
  "idle u k \<longleftrightarrow> (\<exists>c<ncpus k. idle_task (cpus k c) = u)"

lemma sum_upd:
  fixes g :: "'a \<Rightarrow> nat"
  assumes "finite A" "a \<in> A"
  shows "sum (\<lambda>x. g (f x)) (A::'b set) + g y = sum (\<lambda>x. g ((f(a := y)) x)) A + g (f a)"
proof -
  have "sum (\<lambda>x. g ((f(a := y)) x)) (A - {a}) = sum (\<lambda>x. g (f x)) (A - {a})"
    by (intro sum.cong) auto
  then show ?thesis using assms by (simp add: sum.remove)
qed

lemma count_list_last: "xs \<noteq> [] \<Longrightarrow> count_list (butlast xs) u + of_bool (last xs = u) = count_list xs u"
  by (induction xs rule: rev_induct) auto

lemma q_remove_count:
  "q_remove xs = Some (x, ys) \<Longrightarrow> count_list ys u + of_bool (x = u) = count_list xs u"
  using count_list_last [of xs u] by (auto simp: q_remove_def split: if_splits)

subsection \<open>Changes of one field\<close>

lemma places_upd_task [simp]: "places u (upd_task t f k) = places u k"
  by (simp add: places_def upd_task_def)

lemma places_upd_cpu:
  assumes "c < ncpus k"
  shows "places u (upd_cpu c f k) + on_cpu u (cpus k c) = places u k + on_cpu u (f (cpus k c))"
  using sum_upd [of "{..<ncpus k}" c "on_cpu u" "cpus k" "f (cpus k c)"] assms
  by (simp add: places_def upd_cpu_def)

lemma places_upd_cpu_same:
  assumes "c < ncpus k" "on_cpu u (f (cpus k c)) = on_cpu u (cpus k c)"
  shows "places u (upd_cpu c f k) = places u k"
  using places_upd_cpu [OF assms(1), of u f] assms(2) by simp

lemma upd_fields [simp]:
  "ncpus (upd_task t f k) = ncpus k" "cpus (upd_task t f k) = cpus k" "runq (upd_task t f k) = runq k"
  "queues (upd_task t f k) = queues k" "msgqs (upd_task t f k) = msgqs k" "msgs (upd_task t f k) = msgs k"
  "tracked (upd_task t f k) = tracked k" "trackers (upd_task t f k) = trackers k"
  "handling (upd_task t f k) = handling k" "handlers (upd_task t f k) = handlers k"
  "futexes (upd_task t f k) = futexes k" "umem (upd_task t f k) = umem k"
  "iv_taskList (upd_task t f k) = iv_taskList k"
  "tasks (upd_task t f k) = (tasks k)(t := f (tasks k t))"
  "ncpus (upd_cpu c g k) = ncpus k" "tasks (upd_cpu c g k) = tasks k" "runq (upd_cpu c g k) = runq k"
  "queues (upd_cpu c g k) = queues k" "msgqs (upd_cpu c g k) = msgqs k" "msgs (upd_cpu c g k) = msgs k"
  "tracked (upd_cpu c g k) = tracked k" "trackers (upd_cpu c g k) = trackers k"
  "handling (upd_cpu c g k) = handling k" "handlers (upd_cpu c g k) = handlers k"
  "futexes (upd_cpu c g k) = futexes k" "umem (upd_cpu c g k) = umem k"
  "iv_taskList (upd_cpu c g k) = iv_taskList k"
  "cpus (upd_cpu c g k) = (cpus k)(c := g (cpus k c))"
  by (simp_all add: upd_task_def upd_cpu_def)

text \<open>
  What the scheduling operations leave alone: everything but the tasks, the CPUs and the run queue,
  and of those the wiring. \<open>same_frame\<close> is a preorder, so a handler's frame is found by chaining.
\<close>

definition identity :: "task_t \<Rightarrow> addr \<times> u16 \<times> bool \<times> u64" where
  "identity r = (tracker r, tid r, detached r, affinity_pinned r)"

definition same_frame :: "kernel \<Rightarrow> kernel \<Rightarrow> bool" where
  "same_frame k k' \<longleftrightarrow> ncpus k' = ncpus k \<and> (\<forall>c. idle_task (cpus k' c) = idle_task (cpus k c))
     \<and> queues k' = queues k \<and> msgqs k' = msgqs k \<and> msgs k' = msgs k \<and> handling k' = handling k
     \<and> handlers k' = handlers k \<and> tracked k' = tracked k \<and> trackers k' = trackers k
     \<and> iv_taskList k' = iv_taskList k \<and> futexes k' = futexes k \<and> umem k' = umem k
     \<and> (\<forall>t. identity (tasks k' t) = identity (tasks k t))
     \<and> ((\<forall>t. tcpu (tasks k t) < ncpus k) \<longrightarrow> (\<forall>t. tcpu (tasks k' t) < ncpus k'))"

lemma same_frame_refl [simp]: "same_frame k k"
  by (simp add: same_frame_def)

lemma same_frame_trans [trans]: "same_frame k1 k2 \<Longrightarrow> same_frame k2 k3 \<Longrightarrow> same_frame k1 k3"
  unfolding same_frame_def by (elim conjE, intro conjI) (metis | assumption)+

lemma same_frame_kwf: "same_frame k k' \<Longrightarrow> kwf k \<Longrightarrow> kwf k'"
  by (auto simp: same_frame_def kwf_def)

lemma same_frame_idle: "same_frame k k' \<Longrightarrow> idle u k' = idle u k"
  by (simp add: same_frame_def idle_def)

lemma same_frame_ncpus: "same_frame k k' \<Longrightarrow> ncpus k' = ncpus k"
  by (simp add: same_frame_def)

lemma same_frame_upd_task:
  assumes "\<And>r. identity (f r) = identity r" "\<And>r. tcpu (f r) = tcpu r \<or> tcpu (f r) < ncpus k"
  shows "same_frame k (upd_task t f k)"
  using assms(1) assms(2) [of "tasks k t"] by (auto simp: same_frame_def)

lemma same_frame_upd_cpu: "(\<And>r. idle_task (f r) = idle_task r) \<Longrightarrow> same_frame k (upd_cpu c f k)"
  by (simp add: same_frame_def)

lemma same_frame_set_state: "same_frame k (set_state t st k)"
  unfolding set_state_def by (rule same_frame_upd_task) (simp_all add: identity_def)

lemma same_frame_block: "same_frame k (block t st i k)"
  unfolding block_def by (rule same_frame_upd_task) (simp_all add: identity_def)

lemma same_frame_TASK_SETRTN: "same_frame k (TASK_SETRTN t v k)"
  unfolding TASK_SETRTN_def by (rule same_frame_upd_task) (simp_all add: identity_def)

lemma same_frame_doorbell: "same_frame k (doorbell_broadcast k)"
  by (simp add: same_frame_def doorbell_broadcast_def)

lemma same_frame_run_pinned: "same_frame k (run_pinned c t k)"
  unfolding run_pinned_def by (rule same_frame_upd_cpu) simp

lemma same_frame_setCurrentTask: "here < ncpus k \<Longrightarrow> same_frame k (setCurrentTask here t k)"
proof -
  assume "here < ncpus k"
  then have "same_frame k (upd_task t (\<lambda>r. r\<lparr>tcpu := here, state := TASK_STATE_RUNNING\<rparr>) k)"
    by (intro same_frame_upd_task) (simp_all add: identity_def)
  also have "same_frame \<dots> (setCurrentTask here t k)"
    unfolding setCurrentTask_def by (rule same_frame_upd_cpu) simp
  finally show ?thesis .
qed

lemma same_frame_addTask: "same_frame k (addTask t k)"
proof -
  let ?k = "set_state t TASK_STATE_READY k"
  have "same_frame ?k (?k\<lparr>runq := t # runq ?k\<rparr>)" by (simp add: same_frame_def)
  then have "same_frame ?k (addTask t k)"
    using same_frame_run_pinned by (auto simp: addTask_def Let_def)
  with same_frame_set_state show ?thesis by (rule same_frame_trans)
qed

lemma same_frame_pick: "pick here k = Some (t, k1) \<Longrightarrow> same_frame k k1"
  unfolding pick_def
  by (auto split: option.splits intro!: same_frame_upd_cpu) (simp_all add: same_frame_def)

lemma same_frame_setNextRunnable: "here < ncpus k \<Longrightarrow> same_frame k (setNextRunnable here tb k)"
proof (cases "pick here k")
  case None
  assume "here < ncpus k"
  have "same_frame k (upd_cpu here (\<lambda>r. r\<lparr>dec := getIdleTimeSliceCount here tb k\<rparr>) k)"
    by (rule same_frame_upd_cpu) simp
  also have "same_frame \<dots> (setNextRunnable here tb k)"
    using None \<open>here < ncpus k\<close> by (simp add: setNextRunnable_def same_frame_setCurrentTask)
  finally show ?thesis .
next
  case (Some p)
  then obtain t k1 where p: "pick here k = Some (t, k1)" by (cases p) auto
  assume "here < ncpus k"
  then have "here < ncpus k1" using same_frame_pick [OF p] by (simp add: same_frame_def)
  note same_frame_pick [OF p]
  also have "same_frame k1 (upd_cpu here (\<lambda>r. r\<lparr>dec := getTimeSliceCount k\<rparr>) k1)"
    by (rule same_frame_upd_cpu) simp
  also have "same_frame \<dots> (setNextRunnable here tb k)"
    using p \<open>here < ncpus k1\<close> by (simp add: setNextRunnable_def same_frame_setCurrentTask)
  finally show ?thesis .
qed

lemmas frames = same_frame_set_state same_frame_block same_frame_TASK_SETRTN same_frame_doorbell
  same_frame_run_pinned same_frame_setCurrentTask same_frame_addTask same_frame_setNextRunnable

subsection \<open>Places\<close>

lemma places_simple [simp]:
  "places u (set_state t st k) = places u k" "places u (block t st i k) = places u k"
  "places u (TASK_SETRTN t v k) = places u k" "places u (doorbell_broadcast k) = places u k"
  "places u (upd_cpu c (\<lambda>r. r\<lparr>dec := d\<rparr>) k) = places u k"
  by (auto simp: set_state_def block_def TASK_SETRTN_def doorbell_broadcast_def places_def on_cpu_def
      upd_cpu_def intro!: sum.cong)

lemma places_runq: "places u (k\<lparr>runq := q\<rparr>) + count_list (runq k) u = places u k + count_list q u"
  by (simp add: places_def)

lemma places_run_pinned: "c < ncpus k \<Longrightarrow> places u (run_pinned c t k) = places u k + of_bool (t = u)"
  using places_upd_cpu [of c k u "\<lambda>r. r\<lparr>scheduler_extra :=
     Some (t # (case scheduler_extra r of None \<Rightarrow> [] | Some q \<Rightarrow> q))\<rparr>"]
  by (cases "t = u") (auto simp: run_pinned_def on_cpu_def split: option.splits)

lemma places_addTask:
  assumes "kwf k" "\<not> idle u k"
  shows "places u (addTask t k) = places u k + of_bool (t = u)"
proof -
  let ?k = "set_state t TASK_STATE_READY k"
  have c: "tcpu (tasks k t) < ncpus k" using assms(1) by (simp add: kwf_def)
  then have "idle_task (cpus k (tcpu (tasks k t))) \<noteq> u" using assms(2) by (auto simp: idle_def)
  moreover have "places u (?k\<lparr>runq := t # runq ?k\<rparr>) = places u ?k + of_bool (t = u)"
    using places_runq [of u "t # runq ?k" ?k] by (cases "t = u") auto
  ultimately show ?thesis using c
    by (auto simp: addTask_def Let_def places_run_pinned set_state_def)
qed

lemma places_setCurrentTask:
  assumes "here < ncpus k"
  shows "places u (setCurrentTask here t k) + of_bool (getCurrentTask here k = u)
    = places u k + of_bool (t = u)"
  using places_upd_cpu [of here "upd_task t (\<lambda>r. r\<lparr>tcpu := here, state := TASK_STATE_RUNNING\<rparr>) k" u
      "\<lambda>r. r\<lparr>sprg3 := t\<rparr>"] assms
  by (simp add: setCurrentTask_def getCurrentTask_def on_cpu_def)

lemma places_pick:
  assumes "here < ncpus k" "pick here k = Some (t, k1)"
  shows "places u k1 + of_bool (t = u) = places u k"
proof (cases "case scheduler_extra (cpus k here) of None \<Rightarrow> None | Some q \<Rightarrow> q_remove q")
  case None
  with assms(2) obtain q where "q_remove (runq k) = Some (t, q)" "k1 = k\<lparr>runq := q\<rparr>"
    by (auto simp: pick_def split: option.splits)
  with q_remove_count [of "runq k" t q u] places_runq [of u q k] show ?thesis by simp
next
  case (Some p)
  with assms(2) obtain q0 q where q: "scheduler_extra (cpus k here) = Some q0" "q_remove q0 = Some (t, q)"
    "k1 = upd_cpu here (\<lambda>r. r\<lparr>scheduler_extra := Some q\<rparr>) k"
    by (auto simp: pick_def split: option.splits prod.splits)
  with q_remove_count [of q0 t q u] places_upd_cpu [OF assms(1), of u "\<lambda>r. r\<lparr>scheduler_extra := Some q\<rparr>"]
  show ?thesis by (simp add: on_cpu_def)
qed

lemma pick_current: "pick here k = Some (t, k1) \<Longrightarrow> getCurrentTask c k1 = getCurrentTask c k"
  by (auto simp: pick_def getCurrentTask_def split: option.splits if_splits)

lemma places_setNextRunnable:
  assumes "here < ncpus k" "\<not> idle u k"
  shows "places u (setNextRunnable here tb k) + of_bool (getCurrentTask here k = u) = places u k"
proof (cases "pick here k")
  case None
  have "idle_task (cpus k here) \<noteq> u" using assms by (auto simp: idle_def)
  with None assms(1) show ?thesis
    using places_setCurrentTask [of here "upd_cpu here (\<lambda>r. r\<lparr>dec := getIdleTimeSliceCount here tb k\<rparr>) k" u
        "idle_task (cpus k here)"]
    by (simp add: setNextRunnable_def getCurrentTask_def)
next
  case (Some p)
  then obtain t k1 where p: "pick here k = Some (t, k1)" by (cases p) auto
  have "here < ncpus k1" using same_frame_pick [OF p] assms(1) by (simp add: same_frame_def)
  with places_setCurrentTask [of here "upd_cpu here (\<lambda>r. r\<lparr>dec := getTimeSliceCount k\<rparr>) k1" u t]
    places_pick [OF assms(1) p, of u] pick_current [OF p, of here] p
  show ?thesis by (simp add: setNextRunnable_def getCurrentTask_def)
qed

lemma mset_delay_insert: "mset (delay_insert x xs) = add_mset x (mset xs)"
  by (induction x xs rule: delay_insert.induct) auto

lemma count_delay_insert:
  "count_list (map snd (delay_insert x xs)) u = count_list (map snd xs) u + of_bool (snd x = u)"
  by (induction x xs rule: delay_insert.induct) auto

lemma same_frame_delayTask: "same_frame k (delayTask here tb t s ns k)"
  unfolding delayTask_def Let_def
  by (rule same_frame_trans [OF same_frame_block same_frame_upd_cpu]) simp

lemma places_delayTask:
  assumes "here < ncpus k"
  shows "places u (delayTask here tb t s ns k) = places u k + of_bool (t = u)"
proof -
  let ?due = "tb + convertSecToTicks (iv_timebaseFreq k) s ns"
  let ?k = "block t TASK_STATE_BLOCK_SLEEP ?due k"
  have "here < ncpus ?k" using assms by (simp add: block_def)
  from places_upd_cpu [OF this, of u "\<lambda>r. r\<lparr>delay_list := delay_insert (?due, t) (delay_list r)\<rparr>"]
  show ?thesis by (simp add: delayTask_def Let_def on_cpu_def count_delay_insert)
qed

lemma places_delay_remove:
  assumes "here < ncpus k" "delay_remove_if now (delay_list (cpus k here)) = Some (x, rest)"
  shows "places u (upd_cpu here (\<lambda>r. r\<lparr>delay_list := rest\<rparr>) k) + of_bool (snd x = u) = places u k"
proof -
  let ?d = "delay_list (cpus k here)"
  have d: "?d \<noteq> []" "x = last ?d" "rest = butlast ?d"
    using assms(2) by (auto simp: delay_remove_if_def split: if_splits)
  then have "count_list (map snd rest) u + of_bool (snd x = u) = count_list (map snd ?d) u"
    using count_list_last [of "map snd ?d" u] by (simp add: map_butlast last_map)
  with places_upd_cpu [OF assms(1), of u "\<lambda>r. r\<lparr>delay_list := rest\<rparr>"] show ?thesis
    by (simp add: on_cpu_def)
qed

lemma checkReleaseTasks_rule:
  assumes "kwf k" "here < ncpus k" "\<not> idle u k"
  shows "same_frame k (checkReleaseTasks here now k) \<and> places u (checkReleaseTasks here now k) = places u k"
  using assms
proof (induction here now k rule: checkReleaseTasks.induct)
  case (1 here now k)
  show ?case
  proof (cases "delay_remove_if now (delay_list (cpus k here))")
    case None
    then show ?thesis by (simp add: checkReleaseTasks.simps)
  next
    case (Some p)
    then obtain x rest where p: "delay_remove_if now (delay_list (cpus k here)) = Some (x, rest)"
      by (cases p) auto
    let ?k1 = "upd_cpu here (\<lambda>r. r\<lparr>delay_list := rest\<rparr>) k"
    let ?k2 = "doorbell_broadcast (addTask (snd x) ?k1)"
    have f1: "same_frame k ?k1" by (rule same_frame_upd_cpu) simp
    then have f2: "same_frame k ?k2"
      using same_frame_trans [OF same_frame_addTask same_frame_doorbell] same_frame_trans by blast
    have "kwf ?k1" "\<not> idle u ?k1" using 1(2,4) f1 by (auto simp: same_frame_kwf same_frame_idle)
    then have pl: "places u ?k2 = places u k"
      using places_delay_remove [OF 1(3) p, of u] by (simp add: places_addTask)
    have "kwf ?k2" "here < ncpus ?k2" "\<not> idle u ?k2"
      using f2 1(2-4) by (auto simp: same_frame_kwf same_frame_idle same_frame_ncpus)
    from 1(1) [OF p refl this] f2 pl p show ?thesis
      by (simp add: checkReleaseTasks.simps [of here now k] same_frame_trans [OF f2])
  qed
qed

section \<open>Properties\<close>

text \<open>The source's frequency, 512 MHz, makes every conversion exact in words until the product wraps.\<close>

lemma unat_div_word: "unat ((a::u64) div b) = unat a div unat b"
  by (rule unat_div)

lemma unat_mult_small: "unat a * unat b < 2 ^ 64 \<Longrightarrow> unat ((a::u64) * b) = unat a * unat b"
  by (subst unat_mult_lem [symmetric]) simp

lemma unat_add_small: "unat a + unat b < 2 ^ 64 \<Longrightarrow> unat ((a::u64) + b) = unat a + unat b"
  by (subst unat_add_lem [symmetric]) simp

lemma convertSecToTicks_eq:
  assumes "(unat s * 1000000000 + unat n) * 512 < 2 ^ 64"
  shows "unat (convertSecToTicks 512000000 s n) = (unat s * 1000000000 + unat n) * 512 div 1000"
proof -
  have c: "unat (1000000000 :: u64) = 1000000000" "unat (1000 :: u64) = 1000" "unat (512 :: u64) = 512"
    "(512000000 :: u64) div 1000000 = 512" by simp_all
  have 1: "unat (s * 1000000000) = unat s * 1000000000"
    using assms unat_mult_small [of s 1000000000] c by simp
  then have 2: "unat (s * 1000000000 + n) = unat s * 1000000000 + unat n"
    using assms unat_add_small [of "s * 1000000000" n] by simp
  then have "unat ((s * 1000000000 + n) * 512) = (unat s * 1000000000 + unat n) * 512"
    using assms unat_mult_small [of "s * 1000000000 + n" 512] c by simp
  then show ?thesis by (simp only: convertSecToTicks_def c unat_div_word)
qed

text \<open>Converting a time of up to a year to ticks and back gives the same second, and the same
  nanosecond up to a rounding loss of two; nothing wraps. This is the range the comment in
  \<open>convertSecToTicks\<close> claims (\<open>almost up to a year\<close>).\<close>

theorem ticks_round_trip:
  assumes "unat s \<le> 365 * 24 * 3600" and "unat n < 1000000000"
  shows "let (s', n') = convertTicksToSec 512000000 (convertSecToTicks 512000000 s n)
    in s' = s \<and> unat n' \<le> unat n \<and> unat n \<le> unat n' + 2"
proof -
  let ?t = "convertSecToTicks 512000000 s n" and ?r = "unat n * 512 div 1000"
  have t: "unat ?t = unat s * 512000000 + ?r"
    using assms convertSecToTicks_eq [of s n] by (simp add: algebra_simps)
  have r: "?r < 512000000" using assms(2) by simp
  have "unat (?t div 512000000) = unat s" using t r by (simp add: unat_div_word)
  then have q: "?t div 512000000 = s" by (simp add: word_unat_eq_iff)
  have "?t = of_nat (unat s * 512000000 + ?r)" unfolding t [symmetric] by simp
  then have "?t - s * 512000000 = of_nat ?r" by (simp add: algebra_simps)
  moreover have u: "unat (of_nat ?r :: u64) = ?r" using r by (simp add: unat_of_nat)
  ultimately have "unat ((?t - s * 512000000) * 1000) = ?r * 1000"
    using r unat_mult_small [of "of_nat ?r" 1000] by simp
  then have "unat ((?t - s * 512000000) * 1000 div (512000000 div 1000000)) = ?r * 1000 div 512"
    by (simp add: unat_div_word)
  moreover have "?r * 1000 div 512 \<le> unat n" "unat n \<le> ?r * 1000 div 512 + 2" by linarith+
  ultimately show ?thesis using q by (simp add: convertTicksToSec_def Let_def)
qed

theorem ticks_round_trip_witness:
  "let (s', n') = convertTicksToSec 512000000 (convertSecToTicks 512000000 86400 123456789)
   in s' = 86400 \<and> unat n' \<le> unat (123456789 :: u64) \<and> unat (123456789 :: u64) \<le> unat n' + 2"
  by (rule ticks_round_trip) simp_all

abbreviation latest_first :: "(u64 \<times> task) list \<Rightarrow> bool" where
  "latest_first \<equiv> sorted_wrt (\<lambda>x y. fst y \<le> fst x)"

lemma latest_first_insert: "latest_first xs \<Longrightarrow> latest_first (delay_insert x xs)"
proof (induction x xs rule: delay_insert.induct)
  case (2 x y ys)
  have "set (delay_insert x ys) = insert x (set ys)"
    using mset_delay_insert [of x ys] by (metis set_mset_add_mset_insert set_mset_mset)
  with 2 show ?case by (auto split: if_splits)
qed simp

text \<open>The abstract delay list is the one the pointer-level \<open>PQueue::insert\<close> builds.\<close>

lemma delay_insert_is_pq_place:
  "map (\<lambda>a. (key (m a), a)) (pq_place m x xs) = delay_insert (key (m x), x) (map (\<lambda>a. (key (m a), a)) xs)"
  by (induction xs) (auto simp: pq_place_def)

lemma latest_first_last: "latest_first xs \<Longrightarrow> x \<in> set xs \<Longrightarrow> fst (last xs) \<le> fst x"
  by (induction xs) (auto split: if_splits)

text \<open>C33. An idle CPU is woken in time: the decrementer value it sleeps on is at least one and never
  reaches beyond a deadline on its delay list, so no sleeping task is served late because the CPU
  idles.\<close>

theorem idle_never_oversleeps:
  assumes "latest_first (delay_list (cpus k here))" and "(due, t) \<in> set (delay_list (cpus k here))"
    and "tb < due" and "0 < getTimeSliceCount k * (if cv_isSimicsRunning k then 10 else 1)"
  shows "0 < getIdleTimeSliceCount here tb k \<and> getIdleTimeSliceCount here tb k \<le> due - tb"
proof -
  let ?d = "delay_list (cpus k here)"
  obtain d0 t0 where l: "last ?d = (d0, t0)" by fastforce
  with latest_first_last [OF assms(1,2)] have "d0 \<le> due" by simp
  moreover have sub: "tb < x \<Longrightarrow> unat (x - tb) = unat x - unat tb" for x
    by (simp add: unat_sub word_less_nat_alt word_le_nat_alt)
  ultimately have "tb < d0 \<Longrightarrow> d0 - tb \<le> due - tb" using assms(3) by (simp add: word_le_nat_alt)
  moreover have "1 \<le> due - tb" "tb < d0 \<Longrightarrow> 0 < d0 - tb"
    using assms(3) sub by (simp_all add: word_le_nat_alt word_less_nat_alt)
  ultimately show ?thesis
    using assms(2,4) l by (auto simp: getIdleTimeSliceCount_def q_remove_def Let_def split: if_splits)
qed

definition sched_example :: kernel where
  "sched_example = \<lparr>
     tasks = (\<lambda>t. \<lparr>tcpu = 0, stack_ptr = 0, gprs = (\<lambda>_. 0), tid = of_nat t, affinity_pinned = 0,
       state = TASK_STATE_READY, state_info = 0, tracker = 0, detached = False\<rparr>),
     cpus = (\<lambda>_. \<lparr>idle_task = 8, scheduler_extra = None, delay_list = [(900, 40), (500, 32)], master = True,
       sprg3 = 16, dec = 0\<rparr>),
     ncpus = 1, runq = [24, 48], trackers = (\<lambda>_. \<lparr>parent = 0, children = [], tr_key = 0, tr_task = 0,
       tr_status = - 1, tr_retval = 0, wait_info = None, entry_point = 0\<rparr>),
     tracked = {}, iv_taskList = [], iv_nextTid = 0,
     msgqs = (\<lambda>_. \<lparr>messages = [], responses = [], waiting = []\<rparr>), queues = {},
     msgs = (\<lambda>_. \<lparr>mtype = 0, mreserved_async = False, mreserved_pseudosync = False, mdata0 = 0, mdata1 = 0,
       extra_data = 0\<rparr>),
     handlers = (\<lambda>_. \<lparr>iv_msgq = 0, iv_pending = []\<rparr>), handling = {},
     futexes = \<lparr>iv_list = [], tstate = (\<lambda>_. TASK_READY), released = [], doorbells = 0\<rparr>,
     umem = (\<lambda>_. 0), db_broadcasts = 0, iv_timebaseFreq = 512000000, iv_timeslicePerSec = 1000,
     cv_isSimicsRunning = False\<rparr>"

theorem idle_never_oversleeps_witness:
  "0 < getIdleTimeSliceCount 0 100 sched_example \<and> getIdleTimeSliceCount 0 100 sched_example \<le> 500 - 100"
  by (rule idle_never_oversleeps [of _ _ _ 32]) (simp_all add: sched_example_def getTimeSliceCount_def)

lemma filter_due_snoc:
  "latest_first (xs @ [x]) \<Longrightarrow> now < fst x \<Longrightarrow> filter (\<lambda>y. now < fst y) (xs @ [x]) = xs @ [x]"
  by (auto simp: sorted_wrt_append filter_id_conv intro: less_le_trans)

lemma addTask_state: "state (tasks (addTask t k) u) = (if u = t then TASK_STATE_READY else state (tasks k u))"
  by (simp add: addTask_def Let_def set_state_def run_pinned_def)

lemma release_step_fields:
  "state (tasks (doorbell_broadcast (addTask t (upd_cpu c f k))) u) =
     (if u = t then TASK_STATE_READY else state (tasks k u))"
  "delay_list (cpus (doorbell_broadcast (addTask t (upd_cpu c f k))) c) = delay_list (f (cpus k c))"
  using addTask_state [of t "upd_cpu c f k" u] addTask_delay_list [of t "upd_cpu c f k" c]
  by (simp_all add: doorbell_broadcast_def)

lemma checkReleaseTasks_due:
  "latest_first (delay_list (cpus k here)) \<Longrightarrow>
   delay_list (cpus (checkReleaseTasks here now k) here) = filter (\<lambda>x. now < fst x) (delay_list (cpus k here))
   \<and> (\<forall>u. state (tasks (checkReleaseTasks here now k) u) =
        (if \<exists>d\<le>now. (d, u) \<in> set (delay_list (cpus k here)) then TASK_STATE_READY else state (tasks k u)))"
proof (induction here now k rule: checkReleaseTasks.induct)
  case (1 here now k)
  let ?d = "delay_list (cpus k here)"
  show ?case
  proof (cases "delay_remove_if now ?d")
    case None
    then have nd: "?d = [] \<or> now < fst (last ?d)" by (auto simp: delay_remove_if_def not_le split: if_splits)
    have all: "\<forall>x\<in>set ?d. now < fst x"
    proof
      fix x
      assume x: "x \<in> set ?d"
      with nd have "now < fst (last ?d)" by (cases ?d) auto
      also note latest_first_last [OF 1(2) x]
      finally show "now < fst x" .
    qed
    then have "filter (\<lambda>x. now < fst x) ?d = ?d" by (simp add: filter_id_conv)
    moreover have "\<not> (\<exists>d\<le>now. (d, u) \<in> set ?d)" for u using all by (auto simp: not_le)
    ultimately show ?thesis using None by (auto simp: checkReleaseTasks.simps)
  next
    case (Some p)
    then obtain xs x where p: "delay_remove_if now ?d = Some (x, xs)" by (cases p) auto
    then have d: "?d = xs @ [x]" "fst x \<le> now" by (auto simp: delay_remove_if_def split: if_splits)
    let ?k = "doorbell_broadcast (addTask (snd x) (upd_cpu here (\<lambda>r. r\<lparr>delay_list := xs\<rparr>) k))"
    have dk: "delay_list (cpus ?k here) = xs" by (simp add: release_step_fields)
    have "latest_first xs" using 1(2) d(1) by (simp add: sorted_wrt_append)
    with 1(1) [OF p refl] dk have ih:
      "delay_list (cpus (checkReleaseTasks here now ?k) here) = filter (\<lambda>x. now < fst x) xs"
      "\<forall>u. state (tasks (checkReleaseTasks here now ?k) u) =
        (if \<exists>d\<le>now. (d, u) \<in> set xs then TASK_STATE_READY else state (tasks ?k u))"
      by simp_all
    have step: "checkReleaseTasks here now k = checkReleaseTasks here now ?k"
      using p by (simp add: checkReleaseTasks.simps [of here now k])
    show ?thesis unfolding step
      using ih d by (cases x) (auto simp: release_step_fields not_less)
  qed
qed

text \<open>C32. \<open>checkReleaseTasks\<close> terminates and releases exactly the tasks whose deadline has passed: they
  become ready, the others stay on the delay list in their order, and no other task changes state.\<close>

theorem checkReleaseTasks_exact:
  assumes "latest_first (delay_list (cpus k here))"
  shows "delay_list (cpus (checkReleaseTasks here now k) here) = filter (\<lambda>x. now < fst x) (delay_list (cpus k here))
   \<and> (\<forall>u. state (tasks (checkReleaseTasks here now k) u) =
        (if \<exists>d\<le>now. (d, u) \<in> set (delay_list (cpus k here)) then TASK_STATE_READY else state (tasks k u)))"
  using checkReleaseTasks_due [OF assms] .

theorem checkReleaseTasks_exact_witness:
  "delay_list (cpus (checkReleaseTasks 0 600 sched_example) 0) = [(900, 40)]
   \<and> state (tasks (checkReleaseTasks 0 600 sched_example) 32) = TASK_STATE_READY"
  using checkReleaseTasks_exact [of sched_example 0 600] by (simp add: sched_example_def)

text \<open>Yielding is round robin: the running task, if it is neither pinned nor the idle task, goes to
  the back of the run queue, and the task that has waited longest runs next, on this CPU and with a
  full time slice, unless a task pinned to this CPU is ready.\<close>

theorem yield_round_robin:
  assumes "runq k = q @ [next_t]" and "scheduler_extra (cpus k here) \<in> {None, Some []}"
    and "affinity_pinned (tasks k (getCurrentTask here k)) = 0"
    and "idle_task (cpus k (tcpu (tasks k (getCurrentTask here k)))) \<noteq> getCurrentTask here k"
  shows "let k' = setNextRunnable here tb (returnRunnable here k)
    in runq k' = getCurrentTask here k # q \<and> getCurrentTask here k' = next_t
     \<and> state (tasks k' next_t) = TASK_STATE_RUNNING \<and> tcpu (tasks k' next_t) = here
     \<and> dec (cpus k' here) = getTimeSliceCount k
     \<and> (getCurrentTask here k \<noteq> next_t \<longrightarrow> state (tasks k' (getCurrentTask here k)) = TASK_STATE_READY)"
proof -
  let ?t = "getCurrentTask here k"
  have "returnRunnable here k = (set_state ?t TASK_STATE_READY k)\<lparr>runq := ?t # runq k\<rparr>"
    using assms(3,4) by (simp add: returnRunnable_def addTask_def Let_def set_state_def)
  then show ?thesis using assms(1,2)
    by (auto simp: setNextRunnable_def pick_def q_remove_def setCurrentTask_def getCurrentTask_def
        set_state_def Let_def getTimeSliceCount_def upd_task_def upd_cpu_def)
qed

theorem yield_round_robin_witness:
  "let k' = setNextRunnable 0 100 (returnRunnable 0 sched_example)
   in runq k' = [16, 24] \<and> getCurrentTask 0 k' = 48 \<and> state (tasks k' 48) = TASK_STATE_RUNNING"
  using yield_round_robin [of sched_example "[24]" 48 0 100]
  by (simp add: Let_def sched_example_def getCurrentTask_def)

end
