(* ===== verification/Task_Manager.thy ===== *)
theory Task_Manager
  imports Scheduler
begin

text \<open>
  The task manager, \<open>kernel/taskmgr.C\<close>: creation and end of tasks, joining, and the tree of trackers
  that remembers parents, children and the exit status of tasks that nobody has waited for yet.
  A tracker is named by its address, \<open>NULL\<close> stands for the kernel as a parent, and \<open>tracked\<close> is the
  set of trackers that are allocated. The addresses that \<open>new\<close> returns and the stack that
  \<open>StackSegment::createStack\<close> returns are arguments.
\<close>

section \<open>Operations\<close>

definition TASK_STATUS_EXITED_CLEAN :: int where
  "TASK_STATUS_EXITED_CLEAN = 0"

definition TASK_STATUS_CRASHED :: int where
  "TASK_STATUS_CRASHED = 1"

definition EDEADLK :: int where
  "EDEADLK = 35"

definition upd_trk :: "addr \<Rightarrow> (task_tracking_t \<Rightarrow> task_tracking_t) \<Rightarrow> kernel \<Rightarrow> kernel" where
  "upd_trk a f k = k\<lparr>trackers := (trackers k)(a := f (trackers k a))\<rparr>"

text \<open>
  The list of siblings under a parent, \<open>trackingList\<close>: the children of a tracker, or \<open>iv_taskList\<close>
  for tasks of the kernel.
\<close>

definition siblings :: "addr \<Rightarrow> kernel \<Rightarrow> addr list" where
  "siblings p k = (if p \<noteq> NULL then children (trackers k p) else iv_taskList k)"

definition set_siblings :: "addr \<Rightarrow> addr list \<Rightarrow> kernel \<Rightarrow> kernel" where
  "set_siblings p xs k =
     (if p \<noteq> NULL then upd_trk p (\<lambda>r. r\<lparr>children := xs\<rparr>) k else k\<lparr>iv_taskList := xs\<rparr>)"

definition createTask ::
  "nat \<Rightarrow> task \<Rightarrow> addr \<Rightarrow> addr \<Rightarrow> u64 \<Rightarrow> u64 \<Rightarrow> bool \<Rightarrow> bool \<Rightarrow> kernel \<Rightarrow> kernel" where
  "createTask here new_task new_tracker stk t p withStack kernelParent k =
     (let sp = (if withStack then stk else NULL);
          tk = \<lparr>tcpu = 0, stack_ptr = sp,
            gprs = (\<lambda>_. 0)(4 := t, 13 := of_nat new_task, 3 := p, 1 := of_nat sp),
            tid = iv_nextTid k, affinity_pinned = 0, state = TASK_STATE_READY, state_info = 0,
            tracker = new_tracker, detached = False\<rparr>;
          par = (if kernelParent then NULL else getCurrentTask here k);
          partrk = (if par = NULL then NULL else tracker (tasks k par));
          trk = \<lparr>parent = partrk, children = [], tr_key = iv_nextTid k, tr_task = new_task, tr_status = - 1,
            tr_retval = 0, wait_info = None, entry_point = t\<rparr>;
          k1 = k\<lparr>iv_nextTid := iv_nextTid k + 1, tasks := (tasks k)(new_task := tk),
            trackers := (trackers k)(new_tracker := trk), tracked := insert new_tracker (tracked k)\<rparr>
      in set_siblings partrk (new_tracker # siblings partrk k1) k1)"

text \<open>
  \<open>removeTracker\<close>. \<open>Remove t\<close> is a call of it, \<open>Adopt t p\<close> its loop, which takes the children of \<open>t\<close>
  one by one from the tail and gives them to \<open>p\<close>. Erasing a node that is not in the list follows
  links that belong to no list; the model stops there with \<open>WildWrite\<close>.
\<close>

datatype tracker_job = Remove addr | Adopt addr addr

definition erase_node :: "addr \<Rightarrow> addr \<Rightarrow> kernel \<Rightarrow> kerror + kernel" where
  "erase_node p t k =
     (if t \<in> set (siblings p k) then Inr (set_siblings p (remove1 t (siblings p k)) k) else Inl WildWrite)"

definition adopt_child :: "addr \<Rightarrow> addr \<Rightarrow> addr \<Rightarrow> addr list \<Rightarrow> kernel \<Rightarrow> kernel" where
  "adopt_child t p child rest k =
     upd_trk child (\<lambda>r. r\<lparr>parent := p\<rparr>) (upd_trk t (\<lambda>r. r\<lparr>children := rest\<rparr>) k)"

partial_function (option) removeTracker :: "tracker_job \<Rightarrow> kernel \<Rightarrow> (kerror + kernel) option" where
  "removeTracker j k =
     (case j of
        Remove t \<Rightarrow>
          obind (Some (erase_node (parent (trackers k t)) t k))
            (\<lambda>k1. removeTracker (Adopt t (parent (trackers k t))) k1)
      | Adopt t p \<Rightarrow>
          (case q_remove (children (trackers k t)) of
             None \<Rightarrow> Some (Inr (k\<lparr>tracked := tracked k - {t}\<rparr>))
           | Some (child, rest) \<Rightarrow>
               if p = NULL \<and> tr_task (trackers k child) = NULL
               then if tr_status (trackers k child) = TASK_STATUS_CRASHED then Some (Inl KAssert)
                    else obind (removeTracker (Remove child) (adopt_child t p child rest k))
                           (\<lambda>k2. removeTracker (Adopt t p) k2)
               else removeTracker (Adopt t p)
                      (set_siblings p (child # siblings p (adopt_child t p child rest k))
                        (adopt_child t p child rest k))))"

text \<open>A store through a user's pointer that may be null.\<close>

definition store_opt :: "addr \<Rightarrow> u64 \<Rightarrow> kernel \<Rightarrow> kernel" where
  "store_opt a v k = (if a \<noteq> NULL then k\<lparr>umem := (umem k)(a := v)\<rparr> else k)"

definition endTask :: "nat \<Rightarrow> u64 \<Rightarrow> task \<Rightarrow> u64 \<Rightarrow> int \<Rightarrow> kernel \<Rightarrow> (kerror + kernel) option" where
  "endTask here tb t retval status k0 =
     (let k1 = set_state t TASK_STATE_ENDED k0;
          k2 = (if getCurrentTask here k1 = t then setNextRunnable here tb k1 else k1);
          a = tracker (tasks k2 t);
          k = upd_trk a (\<lambda>r. r\<lparr>tr_status := status, tr_retval := retval, tr_task := NULL\<rparr>) k2;
          p = parent (trackers k a)
      in if detached (tasks k t)
         then if status = TASK_STATUS_CRASHED then Some (Inl KAssert) else removeTracker (Remove a) k
         else if p \<noteq> NULL \<and> wait_info (trackers k p) \<noteq> None
         then let w = the (wait_info (trackers k p)); pt = tr_task (trackers k p)
              in if wtid w < 0 \<or> wtid w = uint (tid (tasks k t))
                 then obind (removeTracker (Remove a)
                        (TASK_SETRTN pt (ucast (tid (tasks k t)))
                          (upd_trk p (\<lambda>r. r\<lparr>wait_info := None\<rparr>)
                            (store_opt (wretval w) retval (store_opt (wstatus w) (of_int status) k)))))
                        (\<lambda>k3. Some (Inr (addTask pt k3)))
                 else Some (Inr k)
         else if p = NULL
         then if status = TASK_STATUS_CRASHED then Some (Inl KAssert) else removeTracker (Remove a) k
         else Some (Inr k))"

text \<open>
  \<open>waitTask\<close>: for a negative \<open>tid\<close> the first child in list order that has ended, otherwise the child
  with that id. The value stored into a \<open>tid_t\<close> is cut to its 16 bits.
\<close>

definition waitTask ::
  "nat \<Rightarrow> u64 \<Rightarrow> task \<Rightarrow> int \<Rightarrow> addr \<Rightarrow> addr \<Rightarrow> kernel \<Rightarrow> (kerror + kernel) option" where
  "waitTask here tb t i_tid status retval k =
     (let a = tracker (tasks k t); cs = children (trackers k a);
          deadlock = (if i_tid < 0 then cs = []
                      else List.find (\<lambda>c. tr_key (trackers k c) = of_int i_tid) cs = None);
          child = (if i_tid < 0 then List.find (\<lambda>c. tr_task (trackers k c) = NULL) cs
                   else List.find (\<lambda>c. tr_key (trackers k c) = of_int i_tid) cs)
      in if deadlock then Some (Inr (TASK_SETRTN t (of_int (- EDEADLK)) k))
         else case (case child of None \<Rightarrow> None
                    | Some c \<Rightarrow> if tr_task (trackers k c) = NULL then Some c else None) of
           Some c \<Rightarrow>
             removeTracker (Remove c)
               (store_opt retval (tr_retval (trackers k c))
                 (store_opt status (of_int (tr_status (trackers k c)))
                   (TASK_SETRTN t (ucast (tr_key (trackers k c))) k)))
         | None \<Rightarrow>
             Some (Inr (setNextRunnable here tb
               (block t TASK_STATE_BLOCK_JOIN (of_int i_tid)
                 (upd_trk a (\<lambda>r. r\<lparr>wait_info := Some \<lparr>wtid = i_tid, wstatus = status, wretval = retval\<rparr>\<rparr>) k)))))"

section \<open>The tree of trackers\<close>

lemma upd_trk_fields [simp]:
  "trackers (upd_trk a f k) = (trackers k)(a := f (trackers k a))" "tracked (upd_trk a f k) = tracked k"
  "tasks (upd_trk a f k) = tasks k" "cpus (upd_trk a f k) = cpus k" "iv_taskList (upd_trk a f k) = iv_taskList k"
  "ncpus (upd_trk a f k) = ncpus k" "queues (upd_trk a f k) = queues k" "msgqs (upd_trk a f k) = msgqs k"
  "msgs (upd_trk a f k) = msgs k" "handling (upd_trk a f k) = handling k" "handlers (upd_trk a f k) = handlers k"
  "futexes (upd_trk a f k) = futexes k" "umem (upd_trk a f k) = umem k" "runq (upd_trk a f k) = runq k"
  by (simp_all add: upd_trk_def)

text \<open>
  All trackers but the root's have a parent that lists them, the children lists have no duplicates
  and nothing else in them, and parents are before children in some ranking, so that there is no
  cycle. A task that is alive is the task of its own tracker only; a task that waits for a child is
  alive.
\<close>

definition forest :: "kernel \<Rightarrow> bool" where
  "forest k \<longleftrightarrow> NULL \<notin> tracked k
     \<and> (\<forall>a\<in>tracked k. parent (trackers k a) \<noteq> NULL \<longrightarrow> parent (trackers k a) \<in> tracked k)
     \<and> (\<forall>p. p = NULL \<or> p \<in> tracked k \<longrightarrow> distinct (siblings p k)
            \<and> set (siblings p k) = {a \<in> tracked k. parent (trackers k a) = p})
     \<and> (\<exists>rank :: addr \<Rightarrow> nat. \<forall>a\<in>tracked k. rank (parent (trackers k a)) < rank a)"

lemma forestD:
  assumes "forest k"
  shows "NULL \<notin> tracked k"
    and "a \<in> tracked k \<Longrightarrow> parent (trackers k a) \<noteq> NULL \<Longrightarrow> parent (trackers k a) \<in> tracked k"
    and "q = NULL \<or> q \<in> tracked k \<Longrightarrow> distinct (siblings q k)"
    and "q = NULL \<or> q \<in> tracked k \<Longrightarrow> set (siblings q k) = {a \<in> tracked k. parent (trackers k a) = q}"
    and "\<exists>rank :: addr \<Rightarrow> nat. \<forall>a\<in>tracked k. rank (parent (trackers k a)) < rank a"
  using assms unfolding forest_def by (simp, simp, metis, metis, simp)

definition adopt_all :: "addr \<Rightarrow> addr \<Rightarrow> addr list \<Rightarrow> kernel \<Rightarrow> kernel" where
  "adopt_all t p cs k = k\<lparr>
     trackers := (\<lambda>a. (trackers k a)\<lparr>
       parent := if a \<in> set cs then p else parent (trackers k a),
       children := if a = t then [] else if a = p \<and> p \<noteq> NULL then cs @ children (trackers k a)
                   else children (trackers k a)\<rparr>),
     iv_taskList := if p = NULL then cs @ iv_taskList k else iv_taskList k\<rparr>"

lemma adopt_all_snoc:
  assumes "t \<noteq> p" "t \<noteq> c" "p \<noteq> c" "c \<notin> set ds"
  shows "adopt_all t p ds (set_siblings p (c # siblings p (adopt_child t p c ds k)) (adopt_child t p c ds k))
    = adopt_all t p (ds @ [c]) k"
proof (rule kernel.equality)
  show "trackers (adopt_all t p ds (set_siblings p (c # siblings p (adopt_child t p c ds k)) (adopt_child t p c ds k)))
    = trackers (adopt_all t p (ds @ [c]) k)"
    using assms by (auto simp: adopt_all_def adopt_child_def set_siblings_def siblings_def fun_eq_iff
        intro!: task_tracking_t.equality)
qed (use assms in \<open>simp_all add: adopt_all_def adopt_child_def set_siblings_def siblings_def upd_trk_def\<close>)

lemma removeTracker_Adopt:
  assumes "children (trackers k t) = cs" "t \<noteq> p" "t \<notin> set cs" "p \<notin> set cs" "distinct cs"
    and "p = NULL \<Longrightarrow> \<forall>c\<in>set cs. tr_task (trackers k c) \<noteq> NULL"
  shows "removeTracker (Adopt t p) k = Some (Inr ((adopt_all t p cs k)\<lparr>tracked := tracked k - {t}\<rparr>))"
  using assms
proof (induction cs arbitrary: k rule: rev_induct)
  case Nil
  have "adopt_all t p [] k = k"
    by (rule kernel.equality) (use Nil in \<open>auto simp: adopt_all_def fun_eq_iff intro!: task_tracking_t.equality\<close>)
  with Nil show ?case by (subst removeTracker.simps) (simp add: q_remove_def)
next
  case (snoc c ds)
  let ?k1 = "adopt_child t p c ds k"
  let ?k2 = "set_siblings p (c # siblings p ?k1) ?k1"
  have ne: "t \<noteq> c" "p \<noteq> c" "c \<notin> set ds" using snoc.prems by auto
  have "q_remove (children (trackers k t)) = Some (c, ds)" using snoc.prems(1) by (simp add: q_remove_def)
  moreover have "\<not> (p = NULL \<and> tr_task (trackers k c) = NULL)" using snoc.prems(6) by (cases "p = NULL") auto
  ultimately have step: "removeTracker (Adopt t p) k = removeTracker (Adopt t p) ?k2"
    by (subst removeTracker.simps) auto
  have f2: "children (trackers ?k2 t) = ds" "tracked ?k2 = tracked k"
    "\<And>a. tr_task (trackers ?k2 a) = tr_task (trackers k a)"
    using ne snoc.prems(2) by (auto simp: adopt_child_def set_siblings_def)
  have "removeTracker (Adopt t p) ?k2 = Some (Inr ((adopt_all t p ds ?k2)\<lparr>tracked := tracked ?k2 - {t}\<rparr>))"
  proof (rule snoc.IH [OF f2(1)])
    show "\<forall>c\<in>set ds. tr_task (trackers ?k2 c) \<noteq> NULL" if "p = NULL"
      using snoc.prems(6) [OF that] unfolding f2(3) by simp
  qed (use snoc.prems in auto)
  then show ?case unfolding step f2(2) adopt_all_snoc [OF snoc.prems(2) ne] .
qed

lemma children_siblings: "t \<noteq> NULL \<Longrightarrow> children (trackers k t) = siblings t k"
  by (simp add: siblings_def)

text \<open>Removing a tracker: it leaves its parent's list, and its children are put in front of that list.\<close>

definition removed :: "addr \<Rightarrow> kernel \<Rightarrow> kernel" where
  "removed t k =
     (let p = parent (trackers k t)
      in (adopt_all t p (children (trackers k t)) (set_siblings p (remove1 t (siblings p k)) k))
           \<lparr>tracked := tracked k - {t}\<rparr>)"

lemma forest_child:
  assumes "forest k" "t \<in> tracked k"
  shows "t \<in> set (siblings (parent (trackers k t)) k)" "parent (trackers k t) \<noteq> t" "t \<noteq> NULL"
    "distinct (children (trackers k t))" "t \<notin> set (children (trackers k t))"
    "parent (trackers k t) \<notin> set (children (trackers k t))"
    "set (children (trackers k t)) = {a \<in> tracked k. parent (trackers k a) = t}"
proof -
  from forestD(5) [OF assms(1)] obtain rank :: "addr \<Rightarrow> nat" where
    rank: "\<And>a. a \<in> tracked k \<Longrightarrow> rank (parent (trackers k a)) < rank a" by blast
  have p: "parent (trackers k t) = NULL \<or> parent (trackers k t) \<in> tracked k"
    using assms by (auto simp: forest_def)
  then show "t \<in> set (siblings (parent (trackers k t)) k)" using assms by (auto simp: forest_def)
  show "parent (trackers k t) \<noteq> t" using rank [OF assms(2)] by auto
  show nn: "t \<noteq> NULL" using assms by (auto simp: forest_def)
  have "distinct (siblings t k)" "set (siblings t k) = {a \<in> tracked k. parent (trackers k a) = t}"
    using assms by (simp_all add: forest_def)
  then show d: "distinct (children (trackers k t))"
    "set (children (trackers k t)) = {a \<in> tracked k. parent (trackers k a) = t}"
    using nn by (simp_all add: siblings_def)
  show "t \<notin> set (children (trackers k t))" using d(2) rank [of t] by auto
  show "parent (trackers k t) \<notin> set (children (trackers k t))"
    using d(2) rank [of "parent (trackers k t)"] rank [OF assms(2)] by auto
qed

lemma removeTracker_removed:
  assumes "forest k" "t \<in> tracked k"
    and "parent (trackers k t) = NULL \<Longrightarrow> \<forall>c\<in>set (children (trackers k t)). tr_task (trackers k c) \<noteq> NULL"
  shows "removeTracker (Remove t) k = Some (Inr (removed t k))"
proof -
  let ?p = "parent (trackers k t)"
  let ?k1 = "set_siblings ?p (remove1 t (siblings ?p k)) k"
  note fc = forest_child [OF assms(1,2)]
  have "removeTracker (Remove t) k = removeTracker (Adopt t ?p) ?k1"
    using fc(1) by (subst removeTracker.simps) (simp add: erase_node_def)
  also have "\<dots> = Some (Inr ((adopt_all t ?p (children (trackers k t)) ?k1)\<lparr>tracked := tracked ?k1 - {t}\<rparr>))"
    using fc assms(3) by (intro removeTracker_Adopt) (auto simp: set_siblings_def)
  finally show ?thesis by (simp add: removed_def Let_def set_siblings_def)
qed

lemma removed_fields:
  assumes "forest k" "t \<in> tracked k"
  shows "tracked (removed t k) = tracked k - {t}"
    "parent (trackers (removed t k) a) =
       (if a \<in> set (children (trackers k t)) then parent (trackers k t) else parent (trackers k a))"
    "q \<noteq> t \<Longrightarrow> siblings q (removed t k) =
       (if q = parent (trackers k t) then children (trackers k t) @ remove1 t (siblings q k) else siblings q k)"
    "tr_task (trackers (removed t k) a) = tr_task (trackers k a)"
    "tr_status (trackers (removed t k) a) = tr_status (trackers k a)"
    "tr_key (trackers (removed t k) a) = tr_key (trackers k a)"
    "wait_info (trackers (removed t k) a) = wait_info (trackers k a)"
  using forest_child [OF assms]
  by (auto simp: removed_def Let_def adopt_all_def set_siblings_def siblings_def upd_trk_def)

lemma forest_removed:
  assumes "forest k" "t \<in> tracked k"
  shows "forest (removed t k)"
  unfolding forest_def
proof (intro conjI ballI allI impI)
  let ?p = "parent (trackers k t)" and ?cs = "children (trackers k t)"
  note f = removed_fields [OF assms] and fc = forest_child [OF assms]
  note k = forestD [OF assms(1)]
  show "NULL \<notin> tracked (removed t k)" using k(1) by (simp add: f)
  show "parent (trackers (removed t k) a) \<in> tracked (removed t k)"
    if "a \<in> tracked (removed t k)" "parent (trackers (removed t k) a) \<noteq> NULL" for a
  proof (cases "a \<in> set ?cs")
    case True
    with that k(2) [OF assms(2)] fc(2) show ?thesis by (auto simp: f)
  next
    case False
    with that fc(7) have "a \<in> tracked k" "parent (trackers k a) \<noteq> t" by (auto simp: f)
    with that False k(2) show ?thesis by (auto simp: f)
  qed
  fix q
  assume q: "q = NULL \<or> q \<in> tracked (removed t k)"
  then have q': "q \<noteq> t" "q = NULL \<or> q \<in> tracked k" using fc(3) by (auto simp: f)
  note kq = k(3,4) [OF q'(2)]
  show "distinct (siblings q (removed t k))"
    using kq fc(4,5,7) q'(1) by (auto simp: f)
  show "set (siblings q (removed t k)) = {a \<in> tracked (removed t k). parent (trackers (removed t k) a) = q}"
    using kq fc(1,2,5,7) q'(1) set_remove1_eq [of "siblings q k" t] by (auto simp: f split: if_splits)
next
  let ?p = "parent (trackers k t)" and ?cs = "children (trackers k t)"
  note f = removed_fields [OF assms] and fc = forest_child [OF assms]
  from forestD(5) [OF assms(1)] obtain rank :: "addr \<Rightarrow> nat" where
    rank: "\<And>a. a \<in> tracked k \<Longrightarrow> rank (parent (trackers k a)) < rank a" by blast
  have "rank (parent (trackers (removed t k) a)) < rank a" if "a \<in> tracked (removed t k)" for a
    using that rank [of a] rank [OF assms(2)] fc(7) by (auto simp: f)
  then show "\<exists>rank :: addr \<Rightarrow> nat. \<forall>a\<in>tracked (removed t k). rank (parent (trackers (removed t k) a)) < rank a"
    by blast
qed

text \<open>\<open>removeTracker\<close> returns and does its job for a tracker that has a parent task, or whose children
  are all alive: the tracker is gone, the tree is well-formed, and the children belong to the
  parent, in their order and in front of the parent's other children.\<close>

theorem removeTracker_reparents:
  assumes "forest k" and "t \<in> tracked k"
    and "parent (trackers k t) \<noteq> NULL \<or> (\<forall>c\<in>set (children (trackers k t)). tr_task (trackers k c) \<noteq> NULL)"
  shows "\<exists>k'. removeTracker (Remove t) k = Some (Inr k') \<and> forest k' \<and> tracked k' = tracked k - {t}
    \<and> siblings (parent (trackers k t)) k' = children (trackers k t) @ remove1 t (siblings (parent (trackers k t)) k)
    \<and> (\<forall>c\<in>set (children (trackers k t)). parent (trackers k' c) = parent (trackers k t))"
proof -
  have "removeTracker (Remove t) k = Some (Inr (removed t k))"
    using assms by (intro removeTracker_removed) auto
  then show ?thesis
    using forest_removed [OF assms(1,2)] removed_fields [OF assms(1,2)] forest_child(2) [OF assms(1,2)] by auto
qed

text \<open>
  Task 16 is a task of the kernel with tracker 100; its child with tracker 200 has ended cleanly and
  nobody has waited for it. Task 32 with tracker 300 is a second child that is still alive.
\<close>

definition blank_trk :: task_tracking_t where
  "blank_trk = \<lparr>parent = 0, children = [], tr_key = 0, tr_task = 0, tr_status = - 1, tr_retval = 0,
     wait_info = None, entry_point = 0\<rparr>"

definition tree_example :: "addr list \<Rightarrow> kernel" where
  "tree_example cs = sched_example\<lparr>runq := [32],
     cpus := (\<lambda>_. \<lparr>idle_task = 8, scheduler_extra = None, delay_list = [], master = True, sprg3 = 16, dec = 0\<rparr>),
     tasks := (\<lambda>t. (tasks sched_example t)\<lparr>tracker := if t = 16 then 100 else if t = 32 then 300 else 0\<rparr>),
     trackers := (\<lambda>_. blank_trk)(
       100 := blank_trk\<lparr>children := cs, tr_key := 1, tr_task := 16\<rparr>,
       200 := blank_trk\<lparr>parent := 100, tr_key := 2, tr_status := TASK_STATUS_EXITED_CLEAN, tr_retval := 7\<rparr>,
       300 := blank_trk\<lparr>parent := 100, tr_key := 3, tr_task := 32\<rparr>),
     tracked := insert 100 (set cs), iv_taskList := [100]\<rparr>"

lemma tree_example_forest:
  assumes "distinct cs" "set cs \<subseteq> {200, 300}"
  shows "forest (tree_example cs)"
proof -
  have "\<forall>a\<in>tracked (tree_example cs). parent (trackers (tree_example cs) a) < a"
    using assms by (auto simp: tree_example_def blank_trk_def)
  then have "\<exists>rank :: addr \<Rightarrow> nat. \<forall>a\<in>tracked (tree_example cs). rank (parent (trackers (tree_example cs) a)) < rank a"
    by (intro exI [of _ id]) simp
  then show ?thesis using assms
    by (auto simp: forest_def siblings_def tree_example_def blank_trk_def split: if_splits)
qed

theorem removeTracker_reparents_witness:
  "\<exists>k'. removeTracker (Remove 100) (tree_example [300]) = Some (Inr k') \<and> forest k'
    \<and> siblings NULL k' = [300] \<and> parent (trackers k' 300) = NULL"
proof -
  have "forest (tree_example [300])" by (rule tree_example_forest) auto
  from removeTracker_reparents [OF this, of 100] show ?thesis
    by (auto simp: tree_example_def blank_trk_def siblings_def)
qed

lemma Adopt_live_suffix:
  assumes "children (trackers k t) = cs @ es" "t \<noteq> p" "t \<notin> set es" "p \<notin> set es" "distinct es"
    and "\<forall>e\<in>set es. tr_task (trackers k e) \<noteq> NULL"
  shows "\<exists>k'. removeTracker (Adopt t p) k = removeTracker (Adopt t p) k' \<and> children (trackers k' t) = cs
    \<and> siblings p k' = es @ siblings p k \<and> (\<forall>a. tr_task (trackers k' a) = tr_task (trackers k a))
    \<and> (\<forall>a. tr_status (trackers k' a) = tr_status (trackers k a))"
  using assms
proof (induction es arbitrary: k rule: rev_induct)
  case Nil
  then show ?case by (intro exI [of _ k]) simp
next
  case (snoc c ds)
  let ?k1 = "adopt_child t p c (cs @ ds) k"
  let ?k2 = "set_siblings p (c # siblings p ?k1) ?k1"
  have ne: "t \<noteq> c" "p \<noteq> c" "c \<notin> set ds" using snoc.prems by auto
  have "q_remove (children (trackers k t)) = Some (c, cs @ ds)"
    using snoc.prems(1) by (simp add: q_remove_def butlast_append)
  then have step: "removeTracker (Adopt t p) k = removeTracker (Adopt t p) ?k2"
    using snoc.prems(6) by (subst removeTracker.simps) auto
  have f2: "children (trackers ?k2 t) = cs @ ds" "siblings p ?k2 = c # siblings p k"
    "\<forall>a. tr_task (trackers ?k2 a) = tr_task (trackers k a)"
    "\<forall>a. tr_status (trackers ?k2 a) = tr_status (trackers k a)"
    using ne snoc.prems(2) by (auto simp: adopt_child_def set_siblings_def siblings_def)
  from snoc.IH [of ?k2] f2 snoc.prems obtain k' where
    "removeTracker (Adopt t p) ?k2 = removeTracker (Adopt t p) k'" "children (trackers k' t) = cs"
    "siblings p k' = ds @ siblings p ?k2" "\<forall>a. tr_task (trackers k' a) = tr_task (trackers k a)"
    "\<forall>a. tr_status (trackers k' a) = tr_status (trackers k a)" by auto
  with step f2(2) show ?case by (intro exI [of _ k']) simp
qed

lemma finished_orphan:
  assumes "forest k" and "t \<in> tracked k" and "parent (trackers k t) = NULL"
    and "children (trackers k t) = cs @ c # es" and "\<forall>e\<in>set es. tr_task (trackers k e) \<noteq> NULL"
    and "tr_task (trackers k c) = NULL"
  shows "removeTracker (Remove t) k =
    Some (Inl (if tr_status (trackers k c) = TASK_STATUS_CRASHED then KAssert else WildWrite))"
proof -
  let ?k1 = "set_siblings NULL (remove1 t (siblings NULL k)) k"
  note fc = forest_child [OF assms(1,2)]
  have c: "c \<notin> set (siblings NULL k)" "c \<notin> set es" "c \<noteq> t" "NULL \<notin> set es"
    using fc(3-7) assms(3,4) forestD(4) [OF assms(1), of NULL] forestD(1) [OF assms(1)] by auto
  have "removeTracker (Remove t) k = removeTracker (Adopt t NULL) ?k1"
    using fc(1) assms(3) by (subst removeTracker.simps) (simp add: erase_node_def)
  moreover obtain k' where k': "removeTracker (Adopt t NULL) ?k1 = removeTracker (Adopt t NULL) k'"
    "children (trackers k' t) = cs @ [c]" "siblings NULL k' = es @ siblings NULL ?k1"
    "\<forall>a. tr_task (trackers k' a) = tr_task (trackers k a)" "\<forall>a. tr_status (trackers k' a) = tr_status (trackers k a)"
    using Adopt_live_suffix [of ?k1 t "cs @ [c]" es NULL] fc(3-5) assms(4,5) c(4)
    by (auto simp: set_siblings_def)
  moreover have "removeTracker (Adopt t NULL) k'
    = Some (Inl (if tr_status (trackers k c) = TASK_STATUS_CRASHED then KAssert else WildWrite))"
  proof -
    let ?k2 = "adopt_child t NULL c cs k'"
    have "c \<notin> set (siblings NULL ?k2)"
      using c k'(3) by (auto simp: adopt_child_def siblings_def set_siblings_def dest: set_remove1_subset [THEN subsetD])
    moreover have "parent (trackers ?k2 c) = NULL" by (simp add: adopt_child_def)
    ultimately have "removeTracker (Remove c) ?k2 = Some (Inl WildWrite)"
      by (subst removeTracker.simps) (simp add: erase_node_def)
    then show ?thesis using k'(2,4,5) assms(6) by (subst removeTracker.simps) (simp add: q_remove_def)
  qed
  ultimately show ?thesis by simp
qed

text \<open>A defect of \<open>removeTracker\<close>: when the tracker of a task of the kernel goes away while one of its
  children has ended cleanly and was not waited for, the recursive call erases the child from
  \<open>iv_taskList\<close>, where it is not; \<open>List::erase\<close> then writes through the links of a node that is in
  no list.\<close>

theorem removeTracker_finished_orphan:
  assumes "forest k" and "t \<in> tracked k" and "parent (trackers k t) = NULL"
    and "children (trackers k t) = cs @ c # es" and "\<forall>e\<in>set es. tr_task (trackers k e) \<noteq> NULL"
    and "tr_task (trackers k c) = NULL" and "tr_status (trackers k c) \<noteq> TASK_STATUS_CRASHED"
  shows "removeTracker (Remove t) k = Some (Inl WildWrite)"
  using finished_orphan [OF assms(1-6)] assms(7) by simp

theorem removeTracker_finished_orphan_witness:
  "removeTracker (Remove 100) (tree_example [200, 300]) = Some (Inl WildWrite)"
proof -
  have "forest (tree_example [200, 300])" by (rule tree_example_forest) auto
  from removeTracker_finished_orphan [OF this, of 100 "[]" 200 "[300]"] show ?thesis
    by (simp add: tree_example_def blank_trk_def TASK_STATUS_EXITED_CLEAN_def TASK_STATUS_CRASHED_def)
qed

text \<open>
  At the level of pointers: the child was the tail of its list, so its \<open>next\<close> is null, and \<open>erase\<close>
  stores the child's \<open>prev\<close> link at address 0.
\<close>

lemma list_erase_unlinked:
  assumes "c \<noteq> NULL" "c \<noteq> head q" "c \<noteq> tail q" "nxt (m c) = NULL" "prv (m c) \<noteq> c"
  shows "prv (fst (list_erase c (m, q)) NULL) = prv (m c)"
  using assms by (auto simp: list_erase_def set_nxt_def set_prv_def)

section \<open>Conservation of tasks\<close>

definition live :: "task \<Rightarrow> kernel \<Rightarrow> bool" where
  "live u k \<longleftrightarrow> (\<exists>a\<in>tracked k. tr_task (trackers k a) = u)"

definition trk_inv :: "kernel \<Rightarrow> bool" where
  "trk_inv k \<longleftrightarrow> forest k
     \<and> (\<forall>a\<in>tracked k. tr_task (trackers k a) \<noteq> NULL \<longrightarrow> tracker (tasks k (tr_task (trackers k a))) = a)
     \<and> (\<forall>a\<in>tracked k. wait_info (trackers k a) \<noteq> None \<longrightarrow> tr_task (trackers k a) \<noteq> NULL)"

lemma removeTracker_total:
  assumes "forest k" "t \<in> tracked k"
  shows "removeTracker (Remove t) k = Some (Inr (removed t k)) \<or> (\<exists>e. removeTracker (Remove t) k = Some (Inl e))"
proof (cases "parent (trackers k t) = NULL \<and> (\<exists>c\<in>set (children (trackers k t)). tr_task (trackers k c) = NULL)")
  case True
  then obtain cs c es where "children (trackers k t) = cs @ c # es" "tr_task (trackers k c) = NULL"
    "\<forall>e\<in>set es. tr_task (trackers k e) \<noteq> NULL"
    using split_list_last_prop [of "children (trackers k t)" "\<lambda>c. tr_task (trackers k c) = NULL"] by blast
  with finished_orphan [OF assms, of cs c es] True show ?thesis by simp
next
  case False
  then have "removeTracker (Remove t) k = Some (Inr (removed t k))" by (intro removeTracker_removed assms) auto
  then show ?thesis ..
qed

lemma same_frame_live: "same_frame k k' \<Longrightarrow> live u k' = live u k"
  by (simp add: same_frame_def live_def)

lemma siblings_cong:
  "trackers k' = trackers k \<Longrightarrow> iv_taskList k' = iv_taskList k \<Longrightarrow> siblings p k' = siblings p k"
  by (simp add: siblings_def)

lemma forest_cong:
  assumes "tracked k' = tracked k" "iv_taskList k' = iv_taskList k"
    "\<And>a. parent (trackers k' a) = parent (trackers k a)" "\<And>a. children (trackers k' a) = children (trackers k a)"
  shows "forest k' = forest k"
  using assms by (simp add: forest_def siblings_def)

lemma same_frame_trk_inv: "same_frame k k' \<Longrightarrow> trk_inv k \<Longrightarrow> trk_inv k'"
  using forest_cong [of k' k] by (simp add: same_frame_def trk_inv_def identity_def)

lemma places_upd_trk:
  assumes "finite (tracked k)" "a \<in> tracked k"
  shows "places u (upd_trk a f k) + joining u (trackers k a) = places u k + joining u (f (trackers k a))"
  using sum_upd [of "tracked k" a "joining u" "trackers k" "f (trackers k a)"] assms
  by (simp add: places_def upd_trk_def)

lemma places_removed:
  assumes "forest k" "t \<in> tracked k" "finite (tracked k)"
  shows "places u (removed t k) + joining u (trackers k t) = places u k"
proof -
  note f = removed_fields [OF assms(1,2)]
  have "joining u (trackers (removed t k) a) = joining u (trackers k a)" for a by (simp add: joining_def f)
  moreover have "(\<Sum>a\<in>tracked k - {t}. joining u (trackers k a)) + joining u (trackers k t)
      = (\<Sum>a\<in>tracked k. joining u (trackers k a))"
    using assms(2,3) by (simp add: sum.remove)
  ultimately show ?thesis
    by (simp add: places_def f(1))
      (simp add: removed_def Let_def adopt_all_def set_siblings_def upd_trk_def)
qed

lemma trk_inv_removed:
  assumes "trk_inv k" "t \<in> tracked k" "tr_task (trackers k t) = NULL"
  shows "trk_inv (removed t k)" "u \<noteq> NULL \<Longrightarrow> live u (removed t k) = live u k"
proof -
  have f: "forest k" using assms(1) by (simp add: trk_inv_def)
  note rf = removed_fields [OF f assms(2)]
  have "tasks (removed t k) = tasks k"
    by (simp add: removed_def Let_def adopt_all_def set_siblings_def upd_trk_def)
  with assms(1) forest_removed [OF f assms(2)] show "trk_inv (removed t k)" by (simp add: trk_inv_def rf)
  show "live u (removed t k) = live u k" if "u \<noteq> NULL"
    using assms(2,3) that by (auto simp: live_def rf)
qed

text \<open>
  What a step keeps: the wiring, and, for every task that is not an idle task, the number of places;
  \<open>gone\<close> is the task that the step ended, if any, and \<open>made\<close> the one it created.
\<close>

definition keeps :: "(task \<Rightarrow> int) \<Rightarrow> (task \<Rightarrow> bool) \<Rightarrow> kernel \<Rightarrow> kernel \<Rightarrow> bool" where
  "keeps d L k k' \<longleftrightarrow> kwf k' \<and> trk_inv k' \<and> ncpus k' = ncpus k \<and> (\<forall>u. idle u k' = idle u k)
     \<and> (\<forall>u. u \<noteq> NULL \<and> \<not> idle u k \<longrightarrow> int (places u k') = int (places u k) + d u \<and> live u k' = L u)"

lemma same_frame_keeps:
  assumes "same_frame k k'" "kwf k" "trk_inv k"
    and "\<And>u. u \<noteq> NULL \<Longrightarrow> \<not> idle u k \<Longrightarrow> int (places u k') = int (places u k) + d u"
  shows "keeps d (\<lambda>u. live u k) k k'"
  using assms same_frame_kwf same_frame_trk_inv same_frame_live same_frame_ncpus same_frame_idle
  unfolding keeps_def by auto

lemma keeps_trans:
  assumes "keeps d1 L1 k1 k2" "keeps d2 L2 k2 k3" "\<And>u. d u = d1 u + d2 u"
  shows "keeps d L2 k1 k3"
  using assms unfolding keeps_def by auto

lemma live_tracker:
  assumes "trk_inv k" "live t k" "t \<noteq> NULL"
  shows "tracker (tasks k t) \<in> tracked k" "tr_task (trackers k (tracker (tasks k t))) = t"
    "a \<in> tracked k \<Longrightarrow> tr_task (trackers k a) = t \<Longrightarrow> a = tracker (tasks k t)"
  using assms by (auto simp: trk_inv_def live_def)

text \<open>The tracker of \<open>t\<close> is marked as ended.\<close>

lemma keeps_mark_ended:
  assumes "kwf k" "trk_inv k" "live t k" "t \<noteq> NULL" "wait_info (trackers k (tracker (tasks k t))) = None"
  shows "keeps (\<lambda>_. 0) (\<lambda>u. live u k \<and> u \<noteq> t) k
    (upd_trk (tracker (tasks k t)) (\<lambda>r. r\<lparr>tr_status := st, tr_retval := rv, tr_task := NULL\<rparr>) k)"
    (is "keeps _ _ _ ?k")
proof -
  let ?a = "tracker (tasks k t)"
  note lt = live_tracker [OF assms(2-4)]
  have "forest ?k" using assms(2) forest_cong [of ?k k] by (simp add: trk_inv_def)
  then have "trk_inv ?k" using assms(2) by (auto simp: trk_inv_def assms(5))
  moreover have "places u ?k = places u k" for u
    using places_upd_trk [of k ?a u "\<lambda>r. r\<lparr>tr_status := st, tr_retval := rv, tr_task := NULL\<rparr>"] assms(1) lt(1)
    by (simp add: kwf_def joining_def assms(5))
  moreover have "live u ?k \<longleftrightarrow> live u k \<and> u \<noteq> t" if "u \<noteq> NULL" for u
  proof -
    have "live u ?k \<longleftrightarrow> (\<exists>b\<in>tracked k. b \<noteq> ?a \<and> tr_task (trackers k b) = u)"
      using that by (auto simp: live_def)
    also have "\<dots> \<longleftrightarrow> live u k \<and> u \<noteq> t" using lt(2,3) unfolding live_def by metis
    finally show ?thesis .
  qed
  ultimately show ?thesis using assms(1) by (simp add: keeps_def kwf_def idle_def)
qed

lemma keeps_removeTracker:
  assumes "kwf k" "trk_inv k" "a \<in> tracked k" "tr_task (trackers k a) = NULL"
    and "removeTracker (Remove a) k = Some (Inr k')"
  shows "keeps (\<lambda>_. 0) (\<lambda>u. live u k) k k'"
proof -
  have f: "forest k" using assms(2) by (simp add: trk_inv_def)
  have k': "k' = removed a k" using removeTracker_total [OF f assms(3)] assms(5) by auto
  have "wait_info (trackers k a) = None" using assms(2-4) by (auto simp: trk_inv_def)
  then have "places u k' = places u k" for u
    using places_removed [OF f assms(3), of u] assms(1) k' by (simp add: kwf_def joining_def)
  moreover have "kwf k'" "ncpus k' = ncpus k" "idle u k' = idle u k" for u
    using assms(1) k' by (auto simp: kwf_def idle_def removed_def Let_def adopt_all_def set_siblings_def upd_trk_def)
  ultimately show ?thesis
    using trk_inv_removed [OF assms(2-4)] k' by (simp add: keeps_def)
qed

lemma keeps_store_opt: "kwf k \<Longrightarrow> trk_inv k \<Longrightarrow> keeps (\<lambda>_. 0) (\<lambda>u. live u k) k (store_opt a v k)"
  using forest_cong [of "k\<lparr>umem := (umem k)(a := v)\<rparr>" k]
  by (auto simp: keeps_def store_opt_def kwf_def trk_inv_def places_def live_def idle_def)

lemma keeps_frame0: "same_frame k k' \<Longrightarrow> (\<And>u. places u k' = places u k) \<Longrightarrow> kwf k \<Longrightarrow> trk_inv k \<Longrightarrow>
    keeps (\<lambda>_. 0) (\<lambda>u. live u k) k k'"
  by (rule same_frame_keeps) auto

lemma keeps_TASK_SETRTN: "kwf k \<Longrightarrow> trk_inv k \<Longrightarrow> keeps (\<lambda>_. 0) (\<lambda>u. live u k) k (TASK_SETRTN t v k)"
  by (rule keeps_frame0) (simp_all add: same_frame_TASK_SETRTN)

lemma keeps_set_state: "kwf k \<Longrightarrow> trk_inv k \<Longrightarrow> keeps (\<lambda>_. 0) (\<lambda>u. live u k) k (set_state t st k)"
  by (rule keeps_frame0) (simp_all add: same_frame_set_state)

lemma keeps_block: "kwf k \<Longrightarrow> trk_inv k \<Longrightarrow> keeps (\<lambda>_. 0) (\<lambda>u. live u k) k (block t st i k)"
  by (rule keeps_frame0) (simp_all add: same_frame_block)

lemma keeps_doorbell: "kwf k \<Longrightarrow> trk_inv k \<Longrightarrow> keeps (\<lambda>_. 0) (\<lambda>u. live u k) k (doorbell_broadcast k)"
  by (rule keeps_frame0) (simp_all add: same_frame_doorbell)

lemma keeps_addTask: "kwf k \<Longrightarrow> trk_inv k \<Longrightarrow> keeps (\<lambda>u. of_bool (u = t)) (\<lambda>u. live u k) k (addTask t k)"
  by (rule same_frame_keeps) (auto simp: same_frame_addTask places_addTask)

lemma keeps_setCurrentTask:
  assumes "kwf k" "trk_inv k" "here < ncpus k"
  shows "keeps (\<lambda>u. of_bool (u = t) - of_bool (u = getCurrentTask here k)) (\<lambda>u. live u k) k (setCurrentTask here t k)"
proof (rule same_frame_keeps [OF same_frame_setCurrentTask assms(1,2)])
  show "int (places u (setCurrentTask here t k))
    = int (places u k) + (of_bool (u = t) - of_bool (u = getCurrentTask here k))" for u
    using places_setCurrentTask [OF assms(3), of u t] by (auto split: if_splits)
qed (rule assms(3))

lemma keeps_setNextRunnable:
  assumes "kwf k" "trk_inv k" "here < ncpus k"
  shows "keeps (\<lambda>u. - of_bool (u = getCurrentTask here k)) (\<lambda>u. live u k) k (setNextRunnable here tb k)"
proof (rule same_frame_keeps [OF same_frame_setNextRunnable assms(1,2)])
  show "int (places u (setNextRunnable here tb k)) = int (places u k) + (- of_bool (u = getCurrentTask here k))"
    if "\<not> idle u k" for u
    using places_setNextRunnable [OF assms(3) that, of tb] by (auto split: if_splits)
qed (rule assms(3))

lemma live_upd_trk:
  assumes "\<And>r. tr_task (f r) = tr_task r"
  shows "live u (upd_trk p f k) = live u k"
proof -
  have "tr_task (trackers (upd_trk p f k) a) = tr_task (trackers k a)" for a using assms by simp
  then show ?thesis by (simp only: live_def upd_trk_fields(2))
qed

lemma keeps_wait_done:
  assumes "kwf k" "trk_inv k" "p \<in> tracked k" "wait_info (trackers k p) \<noteq> None"
  shows "keeps (\<lambda>u. - of_bool (u = tr_task (trackers k p))) (\<lambda>u. live u k) k (upd_trk p (\<lambda>r. r\<lparr>wait_info := None\<rparr>) k)"
    (is "keeps _ _ _ ?k")
proof -
  have "forest ?k" using assms(2) forest_cong [of ?k k] by (simp add: trk_inv_def)
  then have "trk_inv ?k" using assms(2) by (auto simp: trk_inv_def)
  moreover have "int (places u ?k) = int (places u k) - of_bool (u = tr_task (trackers k p))" for u
    using places_upd_trk [of k p u "\<lambda>r. r\<lparr>wait_info := None\<rparr>"] assms
    by (auto simp: kwf_def joining_def split: if_splits)
  ultimately show ?thesis using assms(1) by (simp add: keeps_def kwf_def idle_def live_upd_trk)
qed

lemma keeps_wait_start:
  assumes "kwf k" "trk_inv k" "p \<in> tracked k" "wait_info (trackers k p) = None" "tr_task (trackers k p) \<noteq> NULL"
  shows "keeps (\<lambda>u. of_bool (u = tr_task (trackers k p))) (\<lambda>u. live u k) k (upd_trk p (\<lambda>r. r\<lparr>wait_info := Some w\<rparr>) k)"
    (is "keeps _ _ _ ?k")
proof -
  have "forest ?k" using assms(2) forest_cong [of ?k k] by (simp add: trk_inv_def)
  then have "trk_inv ?k" using assms(2,5) by (auto simp: trk_inv_def)
  moreover have "int (places u ?k) = int (places u k) + of_bool (u = tr_task (trackers k p))" for u
    using places_upd_trk [of k p u "\<lambda>r. r\<lparr>wait_info := Some w\<rparr>"] assms
    by (auto simp: kwf_def joining_def split: if_splits)
  ultimately show ?thesis using assms(1) by (simp add: keeps_def kwf_def idle_def live_upd_trk)
qed

lemma keepsD:
  assumes "keeps d L k k'"
  shows "kwf k'" "trk_inv k'" "ncpus k' = ncpus k" "u \<noteq> NULL \<Longrightarrow> \<not> idle u k \<Longrightarrow> live u k' = L u"
  using assms by (simp_all add: keeps_def)

text \<open>The first part of \<open>endTask\<close>, up to the tracker's update.\<close>

definition ended :: "nat \<Rightarrow> u64 \<Rightarrow> task \<Rightarrow> u64 \<Rightarrow> int \<Rightarrow> kernel \<Rightarrow> kernel" where
  "ended here tb t retval status k0 =
     (let k1 = set_state t TASK_STATE_ENDED k0;
          k2 = (if getCurrentTask here k1 = t then setNextRunnable here tb k1 else k1)
      in upd_trk (tracker (tasks k2 t)) (\<lambda>r. r\<lparr>tr_status := status, tr_retval := retval, tr_task := NULL\<rparr>) k2)"

lemma ended_fields:
  assumes "here < ncpus k"
  shows "identity (tasks (ended here tb t rv st k) u) = identity (tasks k u)"
    "trackers (ended here tb t rv st k) = (trackers k)(tracker (tasks k t) :=
       (trackers k (tracker (tasks k t)))\<lparr>tr_status := st, tr_retval := rv, tr_task := NULL\<rparr>)"
    "tracked (ended here tb t rv st k) = tracked k" "umem (ended here tb t rv st k) = umem k"
    "iv_taskList (ended here tb t rv st k) = iv_taskList k"
proof -
  let ?k1 = "set_state t TASK_STATE_ENDED k"
  let ?k2 = "if getCurrentTask here ?k1 = t then setNextRunnable here tb ?k1 else ?k1"
  have "here < ncpus ?k1" using assms by (simp add: set_state_def)
  then have "same_frame k ?k2"
    using same_frame_trans [OF same_frame_set_state same_frame_setNextRunnable] by (simp add: same_frame_set_state)
  then have f: "tracker (tasks ?k2 v) = tracker (tasks k v)" "trackers ?k2 = trackers k" "tracked ?k2 = tracked k"
    "umem ?k2 = umem k" "identity (tasks ?k2 v) = identity (tasks k v)" "iv_taskList ?k2 = iv_taskList k" for v
    by (simp_all add: same_frame_def identity_def)
  have e: "ended here tb t rv st k = upd_trk (tracker (tasks k t))
      (\<lambda>r. r\<lparr>tr_status := st, tr_retval := rv, tr_task := NULL\<rparr>) ?k2"
    unfolding ended_def Let_def f(1) ..
  show "identity (tasks (ended here tb t rv st k) u) = identity (tasks k u)"
    "trackers (ended here tb t rv st k) = (trackers k)(tracker (tasks k t) :=
       (trackers k (tracker (tasks k t)))\<lparr>tr_status := st, tr_retval := rv, tr_task := NULL\<rparr>)"
    "tracked (ended here tb t rv st k) = tracked k" "umem (ended here tb t rv st k) = umem k"
    "iv_taskList (ended here tb t rv st k) = iv_taskList k"
    unfolding e by (simp_all add: f)
qed

lemma ended_keeps:
  assumes "kwf k" "trk_inv k" "here < ncpus k" "live t k" "t \<noteq> NULL"
    "wait_info (trackers k (tracker (tasks k t))) = None"
  shows "keeps (\<lambda>u. - of_bool (u = t \<and> getCurrentTask here k = t)) (\<lambda>u. live u k \<and> u \<noteq> t) k
      (ended here tb t rv st k)"
proof -
  let ?k1 = "set_state t TASK_STATE_ENDED k"
  let ?k2 = "if getCurrentTask here ?k1 = t then setNextRunnable here tb ?k1 else ?k1"
  have cur: "getCurrentTask here ?k1 = getCurrentTask here k"
    by (simp add: getCurrentTask_def set_state_def)
  note s1 = keeps_set_state [OF assms(1,2), of t TASK_STATE_ENDED]
  have h1: "here < ncpus ?k1" using assms(3) by (simp add: set_state_def)
  have "keeps (\<lambda>u. - of_bool (u = t \<and> getCurrentTask here k = t)) (\<lambda>u. live u ?k1) ?k1 ?k2"
  proof (cases "getCurrentTask here k = t")
    case True
    with keeps_setNextRunnable [OF keepsD(1,2) [OF s1] h1, of tb] show ?thesis
      by (simp add: cur)
  next
    case False
    with keeps_frame0 [OF same_frame_refl _ keepsD(1,2) [OF s1]] show ?thesis by (simp add: cur)
  qed
  note s2 = keeps_trans [OF s1 this, of "\<lambda>u. - of_bool (u = t \<and> getCurrentTask here k = t)"]
  have fr: "same_frame k ?k2"
    using same_frame_trans [OF same_frame_set_state same_frame_setNextRunnable [OF h1]]
    by (simp add: same_frame_set_state)
  then have f: "tracker (tasks ?k2 u) = tracker (tasks k u)" "trackers ?k2 = trackers k" "tracked ?k2 = tracked k"
    for u by (simp_all add: same_frame_def identity_def)
  have e: "ended here tb t rv st k = upd_trk (tracker (tasks k t))
      (\<lambda>r. r\<lparr>tr_status := st, tr_retval := rv, tr_task := NULL\<rparr>) ?k2"
    unfolding ended_def Let_def f(1) ..
  have lv: "live u ?k2 = live u k" for u using fr by (rule same_frame_live)
  have "keeps (\<lambda>_. 0) (\<lambda>u. live u ?k2 \<and> u \<noteq> t) ?k2 (ended here tb t rv st k)"
    unfolding e using keeps_mark_ended [OF keepsD(1,2) [OF s2], of t rv st] assms(4-6) lv f by simp
  from keeps_trans [OF s2 this, of "\<lambda>u. - of_bool (u = t \<and> getCurrentTask here k = t)"]
  show "keeps (\<lambda>u. - of_bool (u = t \<and> getCurrentTask here k = t)) (\<lambda>u. live u k \<and> u \<noteq> t) k
      (ended here tb t rv st k)" by (simp add: lv)
qed

lemma endTask_unfold:
  "endTask here tb t retval status k0 =
     (let k = ended here tb t retval status k0; a = tracker (tasks k t); p = parent (trackers k a)
      in if detached (tasks k t)
         then if status = TASK_STATUS_CRASHED then Some (Inl KAssert) else removeTracker (Remove a) k
         else if p \<noteq> NULL \<and> wait_info (trackers k p) \<noteq> None
         then let w = the (wait_info (trackers k p)); pt = tr_task (trackers k p)
              in if wtid w < 0 \<or> wtid w = uint (tid (tasks k t))
                 then obind (removeTracker (Remove a)
                        (TASK_SETRTN pt (ucast (tid (tasks k t)))
                          (upd_trk p (\<lambda>r. r\<lparr>wait_info := None\<rparr>)
                            (store_opt (wretval w) retval (store_opt (wstatus w) (of_int status) k)))))
                        (\<lambda>k3. Some (Inr (addTask pt k3)))
                 else Some (Inr k)
         else if p = NULL
         then if status = TASK_STATUS_CRASHED then Some (Inl KAssert) else removeTracker (Remove a) k
         else Some (Inr k))"
  by (simp add: endTask_def ended_def Let_def)

lemma removeTracker_keeps:
  assumes "kwf k" "trk_inv k" "a \<in> tracked k" "tr_task (trackers k a) = NULL"
  shows "\<exists>r. removeTracker (Remove a) k = Some r \<and> (\<forall>k'. r = Inr k' \<longrightarrow> keeps (\<lambda>_. 0) (\<lambda>u. live u k) k k')"
  using keeps_removeTracker [OF assms] removeTracker_total [of k a] assms(2,3) by (auto simp: trk_inv_def)

text \<open>The woken parent: the stores, the return value, the end of its wait and its place in a run queue.\<close>

lemma wake_parent_keeps:
  assumes "kwf k" "trk_inv k" "a \<in> tracked k" "tr_task (trackers k a) = NULL" "p \<in> tracked k"
    "wait_info (trackers k p) \<noteq> None"
  shows "\<exists>r. obind (removeTracker (Remove a) (TASK_SETRTN (tr_task (trackers k p)) v
          (upd_trk p (\<lambda>r. r\<lparr>wait_info := None\<rparr>) (store_opt x1 y1 (store_opt x2 y2 k)))))
        (\<lambda>k3. Some (Inr (addTask (tr_task (trackers k p)) k3))) = Some r
     \<and> (\<forall>k'. r = Inr k' \<longrightarrow> keeps (\<lambda>_. 0) (\<lambda>u. live u k) k k')"
proof -
  let ?pt = "tr_task (trackers k p)"
  let ?k1 = "store_opt x2 y2 k" and ?k2 = "store_opt x1 y1 (store_opt x2 y2 k)"
  let ?k3 = "upd_trk p (\<lambda>r. r\<lparr>wait_info := None\<rparr>) ?k2"
  let ?k4 = "TASK_SETRTN ?pt v ?k3"
  have tr: "trackers ?k2 = trackers k" "tracked ?k2 = tracked k" by (simp_all add: store_opt_def)
  then have lv: "live u ?k2 = live u k" "live u ?k4 = live u k" for u
    by (simp_all add: live_def TASK_SETRTN_def) auto
  have lv1: "live u ?k1 = live u k" for u by (simp add: live_def store_opt_def)
  note s1 = keeps_store_opt [OF assms(1,2), of x2 y2]
  note s2 = keeps_trans [OF s1 keeps_store_opt [OF keepsD(1,2) [OF s1], of x1 y1], of "\<lambda>_. 0", simplified]
  have "keeps (\<lambda>u. - of_bool (u = ?pt)) (\<lambda>u. live u ?k2) ?k2 ?k3"
    using keeps_wait_done [OF keepsD(1,2) [OF s2], of p] assms(5,6) tr by simp
  note s3 = keeps_trans [OF s2 this, of "\<lambda>u. - of_bool (u = ?pt)", simplified]
  note s4 = keeps_trans [OF s3 keeps_TASK_SETRTN [OF keepsD(1,2) [OF s3], of ?pt v],
      of "\<lambda>u. - of_bool (u = ?pt)", simplified]
  have "a \<in> tracked ?k4" "tr_task (trackers ?k4 a) = NULL"
    using assms(3,4) tr by (auto simp: TASK_SETRTN_def)
  from removeTracker_keeps [OF keepsD(1,2) [OF s4] this] obtain r where
    r: "removeTracker (Remove a) ?k4 = Some r" "\<And>k'. r = Inr k' \<Longrightarrow> keeps (\<lambda>_. 0) (\<lambda>u. live u ?k4) ?k4 k'" by blast
  show ?thesis
  proof (cases r)
    case (Inr k5)
    note s5 = keeps_trans [OF s4 r(2) [OF Inr], of "\<lambda>u. - of_bool (u = ?pt)", simplified]
    note s6 = keeps_addTask [OF keepsD(1,2) [OF s5], of ?pt]
    have "keeps (\<lambda>_. 0) (\<lambda>u. live u k5) k (addTask ?pt k5)" using keeps_trans [OF s5 s6, of "\<lambda>_. 0"] by simp
    moreover have "live u k5 = live u k" if "u \<noteq> NULL" "\<not> idle u k" for u
      using keepsD(4) [OF s5 that] lv(2) by simp
    ultimately have "keeps (\<lambda>_. 0) (\<lambda>u. live u k) k (addTask ?pt k5)" by (simp add: keeps_def)
    with r(1) Inr show ?thesis by simp
  qed (use r(1) in simp)
qed

lemma endTask_keeps:
  assumes "kwf k" "trk_inv k" "here < ncpus k" "live t k" "t \<noteq> NULL"
    "wait_info (trackers k (tracker (tasks k t))) = None"
  shows "\<exists>r. endTask here tb t rv st k = Some r \<and> (\<forall>k'. r = Inr k' \<longrightarrow>
    keeps (\<lambda>u. - of_bool (u = t \<and> getCurrentTask here k = t)) (\<lambda>u. live u k \<and> u \<noteq> t) k k')"
proof -
  let ?k = "ended here tb t rv st k" and ?a = "tracker (tasks k t)"
  let ?d = "\<lambda>u. - of_bool (u = t \<and> getCurrentTask here k = t) :: int" and ?L = "\<lambda>u. live u k \<and> u \<noteq> t"
  note e = ended_keeps [OF assms, of tb rv st] ended_fields [OF assms(3), of tb t rv st]
  have a: "tracker (tasks ?k t) = ?a" "?a \<in> tracked ?k" "tr_task (trackers ?k ?a) = NULL"
    using e(2) [of t] e(3,4) live_tracker(1) [OF assms(2,4,5)] by (simp_all add: identity_def)
  let ?p = "parent (trackers ?k ?a)"
  have more: "keeps ?d ?L k k'" if "keeps (\<lambda>_. 0) (\<lambda>u. live u ?k) ?k k'" for k'
    using keeps_trans [OF e(1) that, of ?d] keepsD(4) [OF e(1)] by (simp add: keeps_def)
  have p: "?p \<in> tracked ?k" if "?p \<noteq> NULL"
    using keepsD(2) [OF e(1)] a(2) that forestD(2) by (auto simp: trk_inv_def)
  have rm: "\<exists>r. removeTracker (Remove ?a) ?k = Some r \<and> (\<forall>k'. r = Inr k' \<longrightarrow> keeps ?d ?L k k')"
    using removeTracker_keeps [OF keepsD(1,2) [OF e(1)] a(2,3)] more by blast
  have wk: "\<exists>r. obind (removeTracker (Remove ?a) (TASK_SETRTN (tr_task (trackers ?k ?p)) v
          (upd_trk ?p (\<lambda>r. r\<lparr>wait_info := None\<rparr>) (store_opt x1 y1 (store_opt x2 y2 ?k)))))
        (\<lambda>k3. Some (Inr (addTask (tr_task (trackers ?k ?p)) k3))) = Some r
      \<and> (\<forall>k'. r = Inr k' \<longrightarrow> keeps ?d ?L k k')"
    if "?p \<noteq> NULL" "wait_info (trackers ?k ?p) \<noteq> None" for v x1 y1 x2 y2
    using wake_parent_keeps [OF keepsD(1,2) [OF e(1)] a(2,3) p [OF that(1)] that(2)] more by blast
  define Q where "Q x \<longleftrightarrow> (\<exists>r. x = Some r \<and> (\<forall>k'. r = Inr k' \<longrightarrow> keeps ?d ?L k k'))" for x :: "(kerror + kernel) option"
  define kk where "kk = ?k"
  have "Q (Some (Inl KAssert))" "Q (Some (Inr ?k))" using e(1) by (simp_all add: Q_def)
  note Q = this rm [folded Q_def] wk [folded Q_def]
  show ?thesis
    unfolding endTask_unfold Let_def Q_def [symmetric] kk_def [symmetric]
    using Q [folded kk_def] a(1) [folded kk_def] by (simp split: if_split)
qed

lemma waitTask_keeps:
  assumes "kwf k" "trk_inv k" "here < ncpus k" "live t k" "t \<noteq> NULL" "getCurrentTask here k = t"
    "wait_info (trackers k (tracker (tasks k t))) = None"
  shows "\<exists>r. waitTask here tb t i x y k = Some r \<and> (\<forall>k'. r = Inr k' \<longrightarrow> keeps (\<lambda>_. 0) (\<lambda>u. live u k) k k')"
proof -
  let ?a = "tracker (tasks k t)"
  define Q where "Q z \<longleftrightarrow> (\<exists>r. z = Some r \<and> (\<forall>k'. r = Inr k' \<longrightarrow> keeps (\<lambda>_. 0) (\<lambda>u. live u k) k k'))"
    for z :: "(kerror + kernel) option"
  note lt = live_tracker [OF assms(2,4,5)]
  have dl: "Q (Some (Inr (TASK_SETRTN t v k)))" for v using keeps_TASK_SETRTN [OF assms(1,2)] by (simp add: Q_def)
  have rm: "Q (removeTracker (Remove c) (store_opt x1 y1 (store_opt x2 y2 (TASK_SETRTN t v k))))"
    if "c \<in> tracked k" "tr_task (trackers k c) = NULL" for c x1 y1 x2 y2 v
  proof -
    let ?k1 = "TASK_SETRTN t v k" and ?k3 = "store_opt x1 y1 (store_opt x2 y2 (TASK_SETRTN t v k))"
    note s1 = keeps_TASK_SETRTN [OF assms(1,2), of t v]
    note s2 = keeps_trans [OF s1 keeps_store_opt [OF keepsD(1,2) [OF s1], of x2 y2], of "\<lambda>_. 0", simplified]
    note s3 = keeps_trans [OF s2 keeps_store_opt [OF keepsD(1,2) [OF s2], of x1 y1], of "\<lambda>_. 0", simplified]
    have f: "trackers ?k3 = trackers k" "tracked ?k3 = tracked k" by (simp_all add: store_opt_def TASK_SETRTN_def)
    then have lv: "live u ?k3 = live u k" for u by (simp add: live_def)
    from removeTracker_keeps [OF keepsD(1,2) [OF s3], of c] that f obtain r where
      "removeTracker (Remove c) ?k3 = Some r" "\<forall>k'. r = Inr k' \<longrightarrow> keeps (\<lambda>_. 0) (\<lambda>u. live u ?k3) ?k3 k'" by auto
    with keeps_trans [OF s3, of "\<lambda>_. 0" _ _ "\<lambda>_. 0"] lv show ?thesis by (auto simp: Q_def)
  qed
  have bl: "Q (Some (Inr (setNextRunnable here tb (block t st i (upd_trk ?a (\<lambda>r. r\<lparr>wait_info := Some w\<rparr>) k)))))" for st i w
  proof -
    let ?k1 = "upd_trk ?a (\<lambda>r. r\<lparr>wait_info := Some w\<rparr>) k"
    let ?k2 = "block t st i ?k1"
    have s1: "keeps (\<lambda>u. of_bool (u = t)) (\<lambda>u. live u k) k ?k1"
      using keeps_wait_start [OF assms(1,2) lt(1) assms(7)] lt(2) assms(5) by simp
    note s2 = keeps_trans [OF s1 keeps_block [OF keepsD(1,2) [OF s1], of t st i], of "\<lambda>u. of_bool (u = t)", simplified]
    have h: "here < ncpus ?k2" "getCurrentTask here ?k2 = t" using assms(3,6) by (simp_all add: block_def getCurrentTask_def)
    have fr: "same_frame ?k1 (setNextRunnable here tb ?k2)"
      using same_frame_trans [OF same_frame_block same_frame_setNextRunnable [OF h(1)]] .
    from keeps_trans [OF s2 keeps_setNextRunnable [OF keepsD(1,2) [OF s2] h(1), of tb], of "\<lambda>_. 0"] h(2)
    have "keeps (\<lambda>_. 0) (\<lambda>u. live u ?k2) k (setNextRunnable here tb ?k2)" by simp
    moreover have "live u ?k2 = live u k" for u by (simp add: same_frame_live [OF same_frame_block] live_upd_trk)
    ultimately show ?thesis by (simp add: Q_def)
  qed
  have cs: "c \<in> tracked k" if "c \<in> set (children (trackers k ?a))" for c
    using that forest_child(7) [OF _ lt(1)] assms(2) by (auto simp: trk_inv_def)
  have fd: "c \<in> tracked k" if "List.find P (children (trackers k ?a)) = Some c" for P c
    using that cs by (auto simp: find_Some_iff)
  show ?thesis
    unfolding waitTask_def Let_def Q_def [symmetric]
    using dl rm bl fd by (auto split: option.split)
qed

lemma forest_insert:
  assumes fo: "forest k" and na: "na \<notin> tracked k" "na \<noteq> NULL" and pt: "pt = NULL \<or> pt \<in> tracked k"
    and tk: "tracked k' = insert na (tracked k)" "\<And>a. a \<in> tracked k \<Longrightarrow> parent (trackers k' a) = parent (trackers k a)"
      "parent (trackers k' na) = pt" "siblings na k' = []"
      "\<And>q. q \<noteq> na \<Longrightarrow> siblings q k' = (if q = pt then na # siblings q k else siblings q k)"
  shows "forest k'"
  unfolding forest_def
proof (intro conjI ballI allI impI)
  show "NULL \<notin> tracked k'" using tk(1) na(2) forestD(1) [OF fo] by simp
  show "parent (trackers k' a) \<in> tracked k'" if "a \<in> tracked k'" "parent (trackers k' a) \<noteq> NULL" for a
    using that tk(1-3) pt forestD(2) [OF fo, of a] by (cases "a = na") auto
  have orphan: "parent (trackers k a) \<noteq> na" if "a \<in> tracked k" for a
    using forestD(2) [OF fo that] na by auto
  fix q
  assume "q = NULL \<or> q \<in> tracked k'"
  then have q: "q = na \<or> q \<noteq> na \<and> (q = NULL \<or> q \<in> tracked k)" using tk(1) na(2) by auto
  show "distinct (siblings q k')"
  proof (cases "q = na")
    case False
    with q have "q = NULL \<or> q \<in> tracked k" by simp
    with tk(5) [OF False] forestD(3,4) [OF fo, of q] na(1) show ?thesis by auto
  qed (simp add: tk(4))
  show "set (siblings q k') = {a \<in> tracked k'. parent (trackers k' a) = q}"
  proof (cases "q = na")
    case True
    have "parent (trackers k' a) \<noteq> na" if "a \<in> tracked k'" for a
      using that tk(1-3) pt na orphan by (cases "a = na") auto
    then show ?thesis using True tk(4) by auto
  next
    case False
    with q have "q = NULL \<or> q \<in> tracked k" by simp
    with forestD(4) [OF fo, of q] tk(5) [OF False] tk(1-3) na(1) show ?thesis by auto
  qed
next
  from forestD(5) [OF fo] obtain rank :: "addr \<Rightarrow> nat" where
    r: "\<And>a. a \<in> tracked k \<Longrightarrow> rank (parent (trackers k a)) < rank a" by blast
  have "(rank(na := Suc (rank pt))) (parent (trackers k' a)) < (rank(na := Suc (rank pt))) a"
    if "a \<in> tracked k'" for a
  proof (cases "a = na")
    case True
    then show ?thesis using tk(3) pt na by auto
  next
    case False
    with that tk(1) have a: "a \<in> tracked k" by simp
    then have "parent (trackers k a) \<noteq> na" using forestD(2) [OF fo a] na by auto
    with False r [OF a] tk(2) [OF a] show ?thesis by simp
  qed
  then show "\<exists>rank :: addr \<Rightarrow> nat. \<forall>a\<in>tracked k'. rank (parent (trackers k' a)) < rank a" by blast
qed

lemma createTask_keeps:
  assumes "kwf k" "trk_inv k" "here < ncpus k" "nt \<noteq> NULL" "na \<noteq> NULL" "\<not> live nt k" "na \<notin> tracked k"
    and par: "\<not> kp \<Longrightarrow> live (getCurrentTask here k) k \<and> getCurrentTask here k \<noteq> NULL"
    and fresh: "\<And>a. a \<in> tracked k \<Longrightarrow> tr_task (trackers k a) \<noteq> nt"
  shows "keeps (\<lambda>_. 0) (\<lambda>u. live u k \<or> u = nt) k (createTask here nt na stk f p ws kp k)"
    "tasks (createTask here nt na stk f p ws kp k) u = (if u = nt then tasks (createTask here nt na stk f p ws kp k) nt else tasks k u)"
proof -
  let ?par = "if kp then NULL else getCurrentTask here k"
  let ?pt = "if ?par = NULL then NULL else tracker (tasks k ?par)"
  let ?k = "createTask here nt na stk f p ws kp k"
  have pt: "?pt = NULL \<or> ?pt \<in> tracked k" "?pt \<noteq> na"
    using par live_tracker(1) [OF assms(2)] assms(5,7) by auto
  have tk: "tracked ?k = insert na (tracked k)" "cpus ?k = cpus k" "ncpus ?k = ncpus k"
    "\<And>a. a \<noteq> na \<Longrightarrow> parent (trackers ?k a) = parent (trackers k a)"
    "parent (trackers ?k na) = ?pt" "tr_task (trackers ?k na) = nt" "wait_info (trackers ?k na) = None"
    "children (trackers ?k na) = []"
    "\<And>a. a \<noteq> na \<Longrightarrow> tr_task (trackers ?k a) = tr_task (trackers k a)"
    "\<And>a. a \<noteq> na \<Longrightarrow> wait_info (trackers ?k a) = wait_info (trackers k a)"
    "\<And>q. q \<noteq> na \<Longrightarrow> siblings q ?k = (if q = ?pt then na # siblings q k else siblings q k)"
    "tracker (tasks ?k nt) = na" "\<And>u. u \<noteq> nt \<Longrightarrow> tasks ?k u = tasks k u"
    "tcpu (tasks ?k nt) = 0"
    using pt assms(5) by (auto simp: createTask_def Let_def set_siblings_def siblings_def)
  show "tasks ?k u = (if u = nt then tasks ?k nt else tasks k u)" using tk(13) by simp
  have fo: "forest k" using assms(2) by (simp add: trk_inv_def)
  have "forest ?k"
  proof (rule forest_insert [OF fo assms(7,5) pt(1) tk(1)])
    show "parent (trackers ?k a) = parent (trackers k a)" if "a \<in> tracked k" for a
      using that assms(7) tk(4) by metis
    show "siblings na ?k = []" using tk(8) assms(5) by (simp add: siblings_def)
  qed (rule tk)+
  moreover have "tr_task (trackers ?k a) \<noteq> NULL \<longrightarrow> tracker (tasks ?k (tr_task (trackers ?k a))) = a"
    "wait_info (trackers ?k a) \<noteq> None \<longrightarrow> tr_task (trackers ?k a) \<noteq> NULL" if "a \<in> tracked ?k" for a
    using that tk(1,6,7,9,10,12,13) fresh [of a] assms(2) by (cases "a = na"; auto simp: trk_inv_def)+
  ultimately have "trk_inv ?k" by (simp add: trk_inv_def)
  moreover have "kwf ?k"
  proof -
    have "queues ?k = queues k" "handling ?k = handling k"
      by (simp_all add: createTask_def Let_def set_siblings_def)
    moreover have "tcpu (tasks ?k u) < ncpus k" for u
      using assms(1,3) tk(13) [of u] tk(14) by (cases "u = nt") (auto simp: kwf_def)
    ultimately show ?thesis using assms(1) tk(1,3) by (simp add: kwf_def)
  qed
  moreover have "places u ?k = places u k" for u
  proof -
    have "joining u (trackers ?k a) = joining u (trackers k a)" if "a \<in> tracked k" for a
    proof -
      have "a \<noteq> na" using that assms(7) by auto
      then show ?thesis by (simp add: joining_def tk(9,10))
    qed
    then have "(\<Sum>a\<in>tracked ?k. joining u (trackers ?k a)) = (\<Sum>a\<in>tracked k. joining u (trackers k a))"
      using assms(1,7) tk(1,7) by (simp add: kwf_def joining_def [of u "trackers ?k na"])
    then show ?thesis unfolding places_def
      by (simp add: createTask_def Let_def set_siblings_def)
  qed
  moreover have "live u ?k \<longleftrightarrow> live u k \<or> u = nt" for u
  proof -
    have "tr_task (trackers ?k a) = tr_task (trackers k a)" if "a \<in> tracked k" for a
      using that assms(7) by (intro tk(9)) auto
    then show ?thesis by (auto simp: live_def tk(1,6))
  qed
  ultimately show "keeps (\<lambda>_. 0) (\<lambda>u. live u k \<or> u = nt) k ?k"
    using tk(2,3) by (simp add: keeps_def idle_def)
qed

section \<open>Joining\<close>

text \<open>
  A parent waits by id for a child that is not detached, and both are well-formed in the tree. Whichever
  comes first, the end of the child or the wait of the parent, the parent gets the child's id as
  result, the child's status and return value where it asked for them, and the tracker is gone.
\<close>

definition joinable :: "task \<Rightarrow> task \<Rightarrow> kernel \<Rightarrow> bool" where
  "joinable pt ct k \<longleftrightarrow> trk_inv k \<and> pt \<noteq> NULL \<and> ct \<noteq> NULL \<and> live pt k \<and> live ct k
     \<and> parent (trackers k (tracker (tasks k ct))) = tracker (tasks k pt)
     \<and> wait_info (trackers k (tracker (tasks k pt))) = None
     \<and> \<not> detached (tasks k ct) \<and> tr_key (trackers k (tracker (tasks k ct))) = tid (tasks k ct)
     \<and> inj_on (\<lambda>c. tr_key (trackers k c)) (set (children (trackers k (tracker (tasks k pt)))))"

definition joined :: "task \<Rightarrow> u16 \<Rightarrow> int \<Rightarrow> u64 \<Rightarrow> addr \<Rightarrow> addr \<Rightarrow> addr \<Rightarrow> kernel \<Rightarrow> bool" where
  "joined pt i st rv x y a k \<longleftrightarrow> gprs (tasks k pt) 3 = ucast i \<and> umem k x = of_int st \<and> umem k y = rv
     \<and> a \<notin> tracked k"

lemma joinableD:
  assumes "joinable pt ct k"
  shows "forest k" "tracker (tasks k ct) \<in> tracked k" "tracker (tasks k pt) \<in> tracked k"
    "tracker (tasks k pt) \<noteq> tracker (tasks k ct)" "tracker (tasks k pt) \<noteq> NULL"
    "tr_task (trackers k (tracker (tasks k ct))) = ct" "tr_task (trackers k (tracker (tasks k pt))) = pt"
    "List.find (\<lambda>c. tr_key (trackers k c) = tid (tasks k ct)) (children (trackers k (tracker (tasks k pt))))
       = Some (tracker (tasks k ct))"
proof -
  let ?a = "tracker (tasks k ct)" and ?p = "tracker (tasks k pt)"
  have inv: "trk_inv k" "live pt k" "live ct k" "pt \<noteq> NULL" "ct \<noteq> NULL" "parent (trackers k ?a) = ?p"
    and key: "tr_key (trackers k ?a) = tid (tasks k ct)"
    and inj: "inj_on (\<lambda>c. tr_key (trackers k c)) (set (children (trackers k ?p)))"
    using assms by (simp_all add: joinable_def)
  show f: "forest k" using inv(1) by (simp add: trk_inv_def)
  show a: "?a \<in> tracked k" and p: "?p \<in> tracked k" and "tr_task (trackers k ?a) = ct" "tr_task (trackers k ?p) = pt"
    using live_tracker(1,2) [OF inv(1)] inv(2-5) by simp_all
  show "?p \<noteq> ?a" using forest_child(2) [OF f a] inv(6) by simp
  show "?p \<noteq> NULL" using forest_child(3) [OF f p] .
  have mem: "?a \<in> set (children (trackers k ?p))" using forest_child(7) [OF f p] a inv(6) by simp
  have "List.find (\<lambda>c. tr_key (trackers k c) = tid (tasks k ct)) (children (trackers k ?p)) \<noteq> None"
    using mem key by (auto simp: find_None_iff)
  then obtain c where c: "List.find (\<lambda>c. tr_key (trackers k c) = tid (tasks k ct)) (children (trackers k ?p)) = Some c"
    by blast
  then have "c \<in> set (children (trackers k ?p))" "tr_key (trackers k c) = tid (tasks k ct)"
    by (auto simp: find_Some_iff)
  then have "c = ?a" using inj_onD [OF inj _ _ mem, of c] key by simp
  with c show "List.find (\<lambda>c. tr_key (trackers k c) = tid (tasks k ct)) (children (trackers k ?p)) = Some ?a" by simp
qed

lemma removed_other_fields [simp]:
  "tasks (removed t k) = tasks k" "umem (removed t k) = umem k" "t \<notin> tracked (removed t k)"
  "cpus (removed t k) = cpus k" "ncpus (removed t k) = ncpus k" "queues (removed t k) = queues k"
  "handling (removed t k) = handling k" "handlers (removed t k) = handlers k" "msgqs (removed t k) = msgqs k"
  "msgs (removed t k) = msgs k" "runq (removed t k) = runq k" "futexes (removed t k) = futexes k"
  by (simp_all add: removed_def Let_def adopt_all_def set_siblings_def upd_trk_def)

lemma store_opt_fields [simp]:
  "tasks (store_opt a v k) = tasks k" "trackers (store_opt a v k) = trackers k"
  "tracked (store_opt a v k) = tracked k" "iv_taskList (store_opt a v k) = iv_taskList k"
  "umem (store_opt a v k) = (if a \<noteq> NULL then (umem k)(a := v) else umem k)"
  by (simp_all add: store_opt_def)

lemma TASK_SETRTN_fields [simp]:
  "trackers (TASK_SETRTN t v k) = trackers k" "tracked (TASK_SETRTN t v k) = tracked k"
  "iv_taskList (TASK_SETRTN t v k) = iv_taskList k" "umem (TASK_SETRTN t v k) = umem k"
  "gprs (tasks (TASK_SETRTN t v k) t) 3 = v"
  by (simp_all add: TASK_SETRTN_def)

lemma end_then_wait:
  assumes j: "joinable pt ct k" and h: "here < ncpus k" and xy: "x \<noteq> NULL" "y \<noteq> NULL" "x \<noteq> y"
  shows "\<exists>k1 k2. endTask here tb ct rv st k = Some (Inr k1)
    \<and> waitTask there tb' pt (uint (tid (tasks k ct))) x y k1 = Some (Inr k2)
    \<and> joined pt (tid (tasks k ct)) st rv x y (tracker (tasks k ct)) k2"
proof -
  let ?a = "tracker (tasks k ct)" and ?p = "tracker (tasks k pt)" and ?k1 = "ended here tb ct rv st k"
  let ?i = "tid (tasks k ct)"
  note jd = joinableD [OF j] and e = ended_fields [OF h, of tb ct rv st]
  have id: "tracker (tasks ?k1 u) = tracker (tasks k u)" "detached (tasks ?k1 u) = detached (tasks k u)"
    "tid (tasks ?k1 u) = tid (tasks k u)" for u
    using e(1) [of u] by (simp_all add: identity_def)
  have par: "parent (trackers k ?a) = ?p" "wait_info (trackers k ?p) = None" "\<not> detached (tasks k ct)"
    "tr_key (trackers k ?a) = ?i"
    using j by (simp_all add: joinable_def)
  have "endTask here tb ct rv st k = Some (Inr ?k1)"
    using par jd(4,5) by (simp add: endTask_unfold Let_def id e(2))
  moreover
  let ?k2 = "store_opt y rv (store_opt x (of_int st) (TASK_SETRTN pt (ucast ?i) ?k1))"
  have "waitTask there tb' pt (uint ?i) x y ?k1 = removeTracker (Remove ?a) ?k2"
  proof -
    have "tr_key (trackers ?k1 c) = tr_key (trackers k c)" for c by (simp add: e(2))
    then have "List.find (\<lambda>c. tr_key (trackers ?k1 c) = ?i) (children (trackers ?k1 ?p)) = Some ?a"
      using jd(4,8) by (simp add: e(2))
    then show ?thesis by (simp add: waitTask_def Let_def id e(2) par(4))
  qed
  moreover have "forest ?k2" using jd(1) forest_cong [of ?k2 k] by (simp add: e)
  then have "removeTracker (Remove ?a) ?k2 = Some (Inr (removed ?a ?k2))"
    using jd(2,4,5) par(1) by (intro removeTracker_removed) (auto simp: e)
  moreover have "joined pt ?i st rv x y ?a (removed ?a ?k2)"
    using xy by (simp add: joined_def)
  ultimately show ?thesis by auto
qed

lemma addTask_fields [simp]:
  "gprs (tasks (addTask t k) u) = gprs (tasks k u)" "umem (addTask t k) = umem k"
  "tracked (addTask t k) = tracked k"
  by (simp_all add: addTask_def Let_def set_state_def run_pinned_def)

lemma wait_then_end:
  assumes j: "joinable pt ct k" and h: "here < ncpus k" "there < ncpus k" and xy: "x \<noteq> NULL" "y \<noteq> NULL" "x \<noteq> y"
  shows "\<exists>k1 k2. waitTask there tb' pt (uint (tid (tasks k ct))) x y k = Some (Inr k1)
    \<and> endTask here tb ct rv st k1 = Some (Inr k2)
    \<and> joined pt (tid (tasks k ct)) st rv x y (tracker (tasks k ct)) k2 \<and> state (tasks k2 pt) = TASK_STATE_READY"
proof -
  let ?a = "tracker (tasks k ct)" and ?p = "tracker (tasks k pt)" and ?i = "tid (tasks k ct)"
  let ?w = "\<lparr>wtid = uint ?i, wstatus = x, wretval = y\<rparr>"
  let ?k0 = "upd_trk ?p (\<lambda>r. r\<lparr>wait_info := Some ?w\<rparr>) k"
  define k1 where "k1 = setNextRunnable there tb' (block pt TASK_STATE_BLOCK_JOIN (of_int (uint ?i)) ?k0)"
  define k2 where "k2 = ended here tb ct rv st k1"
  note jd = joinableD [OF j]
  have par: "parent (trackers k ?a) = ?p" "\<not> detached (tasks k ct)" "ct \<noteq> NULL"
    using j by (simp_all add: joinable_def)
  have fr: "same_frame ?k0 k1"
    unfolding k1_def by (rule same_frame_trans [OF same_frame_block same_frame_setNextRunnable]) (simp add: h block_def)
  then have h1: "here < ncpus k1" using h(1) by (simp add: same_frame_def)
  note e = ended_fields [OF h1, of tb ct rv st, folded k2_def]
  have id: "tracker (tasks k1 u) = tracker (tasks k u)" "detached (tasks k1 u) = detached (tasks k u)"
    "tid (tasks k1 u) = tid (tasks k u)" "trackers k1 = trackers ?k0" "tracked k1 = tracked k"
    "iv_taskList k1 = iv_taskList k" for u
    using fr by (simp_all add: same_frame_def identity_def)
  have tid1: "identity (tasks k1 u) = identity (tasks k u)" for u using fr by (simp add: same_frame_def)
  have id2: "tracker (tasks k2 u) = tracker (tasks k u)" "detached (tasks k2 u) = detached (tasks k u)"
    "tid (tasks k2 u) = tid (tasks k u)" for u
    using e(1) [of u] tid1 [of u] by (simp_all add: identity_def)
  have "waitTask there tb' pt (uint ?i) x y k = Some (Inr k1)"
    using jd(6,8) par(3) by (simp add: waitTask_def Let_def k1_def)
  moreover
  let ?k3 = "TASK_SETRTN pt (ucast ?i) (upd_trk ?p (\<lambda>r. r\<lparr>wait_info := None\<rparr>)
      (store_opt y rv (store_opt x (of_int st) k2)))"
  have "endTask here tb ct rv st k1
      = obind (removeTracker (Remove ?a) ?k3) (\<lambda>k3. Some (Inr (addTask pt k3)))"
    using par jd(4,5,7) by (simp add: endTask_unfold Let_def k2_def [symmetric] id id2 e(2))
  moreover have "forest ?k3" using jd(1) forest_cong [of ?k3 k] by (simp add: e id)
  then have "removeTracker (Remove ?a) ?k3 = Some (Inr (removed ?a ?k3))"
    using jd(2,4,5) par(1) by (intro removeTracker_removed) (auto simp: e id)
  moreover have "joined pt ?i st rv x y ?a (addTask pt (removed ?a ?k3))"
    using xy by (simp add: joined_def)
  moreover have "state (tasks (addTask pt (removed ?a ?k3)) pt) = TASK_STATE_READY" by (simp add: addTask_state)
  ultimately show ?thesis by auto
qed

text \<open>C31. Joining works in either order: if a child ends before its parent waits for it, the wait returns
  at once; if the parent waits first, it sleeps and the end of the child makes it ready. Both times
  the parent gets the child's id, status and return value, and the child's tracker is released.\<close>

theorem join_either_order:
  assumes "joinable pt ct k" and "here < ncpus k" and "there < ncpus k"
    and "x \<noteq> NULL" and "y \<noteq> NULL" and "x \<noteq> y"
  shows "(\<exists>k1 k2. endTask here tb ct rv st k = Some (Inr k1)
      \<and> waitTask there tb' pt (uint (tid (tasks k ct))) x y k1 = Some (Inr k2)
      \<and> joined pt (tid (tasks k ct)) st rv x y (tracker (tasks k ct)) k2)
    \<and> (\<exists>k1 k2. waitTask there tb' pt (uint (tid (tasks k ct))) x y k = Some (Inr k1)
      \<and> endTask here tb ct rv st k1 = Some (Inr k2)
      \<and> joined pt (tid (tasks k ct)) st rv x y (tracker (tasks k ct)) k2 \<and> state (tasks k2 pt) = TASK_STATE_READY)"
  using end_then_wait [OF assms(1,2,4-6)] wait_then_end [OF assms(1-3,4-6)] by blast

lemma tree_example_inv: "trk_inv (tree_example [300])"
proof -
  have "forest (tree_example [300])" by (rule tree_example_forest) auto
  then show ?thesis by (simp add: trk_inv_def tree_example_def blank_trk_def sched_example_def)
qed

theorem join_either_order_witness:
  "\<exists>k1 k2. waitTask 0 0 16 3 4096 8192 ((tree_example [300])\<lparr>tasks := (\<lambda>t. (tasks (tree_example [300]) t)
        \<lparr>tid := of_nat (t div 16 * 2 - 1)\<rparr>)\<rparr>) = Some (Inr k1)
    \<and> endTask 0 0 32 7 0 k1 = Some (Inr k2) \<and> umem k2 8192 = 7 \<and> gprs (tasks k2 16) 3 = 3"
proof -
  let ?k = "(tree_example [300])\<lparr>tasks := (\<lambda>t. (tasks (tree_example [300]) t)\<lparr>tid := of_nat (t div 16 * 2 - 1)\<rparr>)\<rparr>"
  have "forest ?k" using tree_example_inv forest_cong [of ?k "tree_example [300]"] by (simp add: trk_inv_def)
  then have "trk_inv ?k" using tree_example_inv by (simp add: trk_inv_def)
  then have "joinable 16 32 ?k"
    by (simp add: joinable_def live_def) (simp add: tree_example_def blank_trk_def sched_example_def)
  from join_either_order [OF this, of 0 0 4096 8192 0 7 0 0] show ?thesis
    by (auto simp: joined_def tree_example_def sched_example_def)
qed

end
