(* ===== verification/Messages.thy ===== *)
theory Messages
  imports Task_Manager
begin

text \<open>
  Message passing between tasks, and between the kernel and tasks: the message system calls of
  \<open>kernel/syscall.C\<close> and the kernel's \<open>MessageHandler\<close>, \<open>kernel/msghandler.C\<close>. Every handler has the
  calling task \<open>t\<close> as argument, its arguments are in the task's registers and its result goes to
  register 3. Sending to a queue of another node (\<open>KernelIpc::send\<close>) is the argument \<open>ipc_send\<close>, and the
  virtual \<open>handleResponse\<close> of a handler is the argument \<open>handleResponse\<close>.
\<close>

definition EFAULT :: int where
  "EFAULT = 14"

definition EINVAL :: int where
  "EINVAL = 22"

definition EBADF :: int where
  "EBADF = 9"

definition MSGQ_TYPE_IPC :: u64 where
  "MSGQ_TYPE_IPC = 8"

definition upd_mq :: "addr \<Rightarrow> (msgqueue \<Rightarrow> msgqueue) \<Rightarrow> kernel \<Rightarrow> kernel" where
  "upd_mq q f k = k\<lparr>msgqs := (msgqs k)(q := f (msgqs k q))\<rparr>"

definition upd_msg :: "addr \<Rightarrow> (msg_t \<Rightarrow> msg_t) \<Rightarrow> kernel \<Rightarrow> kernel" where
  "upd_msg m f k = k\<lparr>msgs := (msgs k)(m := f (msgs k m))\<rparr>"

definition upd_hdl :: "addr \<Rightarrow> (msghandler \<Rightarrow> msghandler) \<Rightarrow> kernel \<Rightarrow> kernel" where
  "upd_hdl h f k = k\<lparr>handlers := (handlers k)(h := f (handlers k h))\<rparr>"

text \<open>
  Delivery of a message to a queue when the sender goes on running: to the task that has waited
  longest, or onto \<open>messages\<close>.
\<close>

definition deliver :: "addr \<Rightarrow> addr \<Rightarrow> addr \<Rightarrow> kernel \<Rightarrow> kernel" where
  "deliver mq m t k =
     (case q_remove (waiting (msgqs k mq)) of
        None \<Rightarrow> upd_mq mq (\<lambda>r. r\<lparr>messages := (m, t) # messages r\<rparr>) k
      | Some (waiter, ws) \<Rightarrow>
          doorbell_broadcast (addTask waiter (TASK_SETRTN waiter (of_nat m)
            (upd_mq mq (\<lambda>r. r\<lparr>waiting := ws\<rparr>) k))))"

definition MsgSend :: "(u64 \<Rightarrow> addr \<Rightarrow> int) \<Rightarrow> task \<Rightarrow> kernel \<Rightarrow> kernel" where
  "MsgSend ipc_send t k =
     (let q_handle = TASK_GETARG k t 0; m = unat (TASK_GETARG k t 1); mq = unat q_handle
      in if drop_bit 32 q_handle AND MSGQ_TYPE_IPC \<noteq> 0
         then TASK_SETRTN t (of_int (ipc_send q_handle m)) k
         else if mq = NULL \<or> m = NULL then TASK_SETRTN t (of_int (- EINVAL)) k
         else let k1 = upd_msg m (\<lambda>r. r\<lparr>mreserved_async := False\<rparr>) k
              in if mtype (msgs k1 m) \<ge> MSG_FIRST_SYS_TYPE then TASK_SETRTN t (of_int (- EINVAL)) k1
                 else TASK_SETRTN t 0 (deliver mq m t k1))"

definition MsgSendRecv :: "nat \<Rightarrow> u64 \<Rightarrow> task \<Rightarrow> kernel \<Rightarrow> kernel" where
  "MsgSendRecv here tb t k =
     (let mq = unat (TASK_GETARG k t 0); m = unat (TASK_GETARG k t 1); mq2 = unat (TASK_GETARG k t 2);
          k1 = upd_msg m (\<lambda>r. r\<lparr>mreserved_async := True,
                 mreserved_pseudosync := mreserved_pseudosync r \<or> mq2 \<noteq> NULL\<rparr>) k;
          pseudo = mreserved_pseudosync (msgs k1 m)
      in if mtype (msgs k1 m) \<ge> MSG_FIRST_SYS_TYPE then TASK_SETRTN t (of_int (- EINVAL)) k1
         else
           let k2 = (if pseudo then TASK_SETRTN t 0 k1 else block t TASK_STATE_BLOCK_MSG (of_nat mq) k1);
               mp = (m, if pseudo then mq2 else t)
           in case q_remove (waiting (msgqs k2 mq)) of
                None \<Rightarrow>
                  let k3 = upd_mq mq (\<lambda>r. r\<lparr>messages := mp # messages r\<rparr>) k2
                  in if pseudo then k3 else setNextRunnable here tb k3
              | Some (waiter, ws) \<Rightarrow>
                  let k3 = upd_task waiter (\<lambda>r. r\<lparr>tcpu := tcpu (tasks k2 t)\<rparr>)
                             (upd_mq mq (\<lambda>r. r\<lparr>responses := mp # responses r, waiting := ws\<rparr>)
                               (TASK_SETRTN waiter (of_nat m) k2));
                      k4 = (if pseudo then doorbell_broadcast (addTask t k3) else k3)
                  in setCurrentTask here waiter k4)"

definition MsgWait :: "nat \<Rightarrow> u64 \<Rightarrow> task \<Rightarrow> kernel \<Rightarrow> kernel" where
  "MsgWait here tb t k =
     (let mq = unat (TASK_GETARG k t 0)
      in case q_remove (messages (msgqs k mq)) of
           None \<Rightarrow>
             setNextRunnable here tb
               (block t TASK_STATE_BLOCK_MSG (of_nat mq)
                 (upd_mq mq (\<lambda>r. r\<lparr>waiting := t # waiting r\<rparr>) k))
         | Some ((m, p), ms) \<Rightarrow>
             TASK_SETRTN t (of_nat m)
               (upd_mq mq (\<lambda>r. r\<lparr>messages := ms,
                  responses := (if mreserved_async (msgs k m) then (m, p) # responses r else responses r)\<rparr>) k))"

section \<open>Kernel message handlers\<close>

datatype HandleResult = SUCCESS | UNHANDLED_RC | CONTINUE_DEFER

text \<open>
  \<open>MessageHandler::sendMessage\<close>; \<open>m\<close> is the address of the new message. A null task stands for a
  message that nobody waits for.
\<close>

definition sendMessage ::
  "nat \<Rightarrow> u64 \<Rightarrow> addr \<Rightarrow> addr \<Rightarrow> u32 \<Rightarrow> u64 \<Rightarrow> u64 \<Rightarrow> task \<Rightarrow> kernel \<Rightarrow> kernel" where
  "sendMessage here tb h m i_type i_key i_data i_task k =
     (let k1 = (if i_task \<noteq> NULL then block i_task TASK_STATE_BLOCK_USRSPACE i_key k else k);
          mq = iv_msgq (handlers k h);
          (ready, k2) =
            (if i_key \<notin> fst ` set (iv_pending (handlers k1 h))
             then let k' = upd_msg m (\<lambda>_. \<lparr>mtype = i_type, mreserved_async = True, mreserved_pseudosync = False,
                         mdata0 = i_key, mdata1 = i_data, extra_data = 0\<rparr>) k1
                  in case q_remove (waiting (msgqs k' mq)) of
                       None \<Rightarrow> (NULL, upd_mq mq (\<lambda>r. r\<lparr>messages := (m, h) # messages r\<rparr>) k')
                     | Some (waiter, ws) \<Rightarrow>
                         (waiter, upd_mq mq (\<lambda>r. r\<lparr>responses := (m, h) # responses r, waiting := ws\<rparr>)
                           (TASK_SETRTN waiter (of_nat m) k'))
             else (NULL, k1));
          (ready, k3) =
            (if i_task \<noteq> NULL \<and> i_task = getCurrentTask here k2
             then if ready \<noteq> NULL then (NULL, setCurrentTask here ready k2)
                  else (NULL, setNextRunnable here tb k2)
             else (ready, k2));
          k4 = (if ready \<noteq> NULL
                then doorbell_broadcast (setCurrentTask here ready (addTask (getCurrentTask here k3) k3))
                else k3)
      in upd_hdl h (\<lambda>r. r\<lparr>iv_pending := (i_key, i_task) # iv_pending r\<rparr>) k4)"

text \<open>
  The loop of \<open>recvMessage\<close>: every task that is deferred under the key is resumed, or put on the list
  of tasks to end; the first one that can runs on this CPU at once.
\<close>

definition resume :: "nat \<Rightarrow> HandleResult \<Rightarrow> int \<Rightarrow> task \<Rightarrow> bool \<times> task list \<times> kernel \<Rightarrow> bool \<times> task list \<times> kernel" where
  "resume here rc msg_rc t s =
     (case s of (restored, ends, k) \<Rightarrow>
        if t = NULL then s
        else if rc = SUCCESS \<or> (msg_rc = 0 \<and> rc = UNHANDLED_RC)
        then if \<not> restored \<and> affinity_pinned (tasks k t) = 0
             then (True, ends, setCurrentTask here t k)
             else (restored, ends, doorbell_broadcast (addTask t k))
        else if rc = UNHANDLED_RC then (restored, t # ends, k)
        else s)"

lemma resume_handlers [simp]: "handlers (snd (snd (resume here rc msg_rc t s))) = handlers (snd (snd s))"
  by (cases s) (simp add: resume_def setCurrentTask_def doorbell_broadcast_def addTask_def Let_def set_state_def
      run_pinned_def)

function recv_loop ::
  "(u32 \<Rightarrow> u64 \<Rightarrow> task \<Rightarrow> int \<Rightarrow> HandleResult) \<Rightarrow> nat \<Rightarrow> addr \<Rightarrow> u32 \<Rightarrow> u64 \<Rightarrow> int \<Rightarrow>
   bool \<times> task list \<times> kernel \<Rightarrow> bool \<times> task list \<times> kernel" where
  "recv_loop handleResponse here h ty ky msg_rc s =
     (case find_erase ky (iv_pending (handlers (snd (snd s)) h)) of
        None \<Rightarrow> s
      | Some (t, ps) \<Rightarrow>
          recv_loop handleResponse here h ty ky msg_rc
            (resume here (handleResponse ty ky t msg_rc) msg_rc t
              (fst s, fst (snd s), upd_hdl h (\<lambda>r. r\<lparr>iv_pending := ps\<rparr>) (snd (snd s)))))"
  by pat_completeness auto

lemma find_erase_mset: "find_erase k ws = Some (t, ws') \<Longrightarrow> mset ws = add_mset (k, t) (mset ws')"
proof (induction k ws arbitrary: t ws' rule: find_erase.induct)
  case (2 k a t0 ws)
  then show ?case by (cases "find_erase k ws") (auto split: if_splits)
qed simp

lemma find_erase_length: "find_erase k ws = Some (t, ws') \<Longrightarrow> length ws = Suc (length ws')"
  using find_erase_mset [of k ws t ws'] by (metis size_add_mset size_mset)

termination recv_loop
  by (relation "measure (\<lambda>(hr, here, h, ty, ky, rc, s). length (iv_pending (handlers (snd (snd s)) h)))")
    (auto simp: upd_hdl_def dest: find_erase_length)

declare recv_loop.simps [simp del]

fun end_all :: "nat \<Rightarrow> u64 \<Rightarrow> u64 \<Rightarrow> task list \<Rightarrow> kernel \<Rightarrow> (kerror + kernel) option" where
  "end_all here tb v [] k = Some (Inr k)"
| "end_all here tb v (t # ts) k =
     obind (endTask here tb t v TASK_STATUS_CRASHED k) (\<lambda>k1. end_all here tb v ts k1)"

text \<open>The rc in the response is cut to an \<open>int\<close>.\<close>

definition recvMessage ::
  "(u32 \<Rightarrow> u64 \<Rightarrow> task \<Rightarrow> int \<Rightarrow> HandleResult) \<Rightarrow> nat \<Rightarrow> u64 \<Rightarrow> addr \<Rightarrow> addr \<Rightarrow> kernel \<Rightarrow> (kerror + int \<times> kernel) option" where
  "recvMessage handleResponse here tb h m k =
     (let r = msgs k m
      in if mtype r < MSG_FIRST_SYS_TYPE then Some (Inr (- EINVAL, k))
         else case recv_loop handleResponse here h (mtype r) (mdata0 r) (sint (ucast (mdata1 r) :: u32)) (False, [], k) of
           (restored, ends, k1) \<Rightarrow>
             obind (end_all here tb (extra_data r) (rev ends) k1) (\<lambda>k2. Some (Inr (0, k2))))"

definition MsgRespond ::
  "(addr \<Rightarrow> u32 \<Rightarrow> u64 \<Rightarrow> task \<Rightarrow> int \<Rightarrow> HandleResult) \<Rightarrow> nat \<Rightarrow> u64 \<Rightarrow> task \<Rightarrow> kernel \<Rightarrow> (kerror + kernel) option" where
  "MsgRespond handleResponse here tb t k =
     (let mq = unat (TASK_GETARG k t 0); m = unat (TASK_GETARG k t 1)
      in case find_erase m (responses (msgqs k mq)) of
           None \<Rightarrow> Some (Inr (TASK_SETRTN t (of_int (- EBADF)) k))
         | Some (waiter, rs) \<Rightarrow>
             let k1 = upd_mq mq (\<lambda>r. r\<lparr>responses := rs\<rparr>) k
             in if mtype (msgs k1 m) \<ge> MSG_FIRST_SYS_TYPE
                then obind (recvMessage (handleResponse waiter) here tb waiter m k1) (\<lambda>(rc, k2).
                       let k3 = TASK_SETRTN t (of_int rc) k2
                       in Some (Inr (if getCurrentTask here k3 \<noteq> t
                                     then doorbell_broadcast (addTask t k3) else k3)))
                else if mreserved_pseudosync (msgs k1 m)
                then Some (if waiter = NULL then Inl NullDeref else Inr (TASK_SETRTN t 0 (deliver waiter m t k1)))
                else Some (Inr (doorbell_broadcast (addTask t (TASK_SETRTN t 0 (TASK_SETRTN waiter 0
                       (setCurrentTask here waiter
                         (upd_task waiter (\<lambda>r. r\<lparr>tcpu := tcpu (tasks k1 t)\<rparr>) k1))))))))"

section \<open>Conservation of tasks\<close>

text \<open>
  \<open>conserved e k\<close>: every task that is alive is in one place and every other task in none, up to the
  tasks in hand, which \<open>e\<close> counts; idle tasks are not counted. Between system calls nothing is in hand.
\<close>

definition conserved :: "(task \<Rightarrow> int) \<Rightarrow> kernel \<Rightarrow> bool" where
  "conserved e k \<longleftrightarrow> kwf k \<and> trk_inv k
     \<and> (\<forall>u. u \<noteq> NULL \<and> \<not> idle u k \<longrightarrow> int (places u k) + e u = of_bool (live u k))"

abbreviation only :: "task \<Rightarrow> task \<Rightarrow> int" where
  "only t \<equiv> (\<lambda>u. of_bool (u = t))"

lemma conservedD:
  assumes "conserved e k"
  shows "kwf k" "trk_inv k" "u \<noteq> NULL \<Longrightarrow> \<not> idle u k \<Longrightarrow> int (places u k) + e u = of_bool (live u k)"
  using assms by (simp_all add: conserved_def)

lemma conserved_keeps:
  assumes "conserved e k" "keeps d (\<lambda>u. live u k) k k'" "\<And>u. u \<noteq> NULL \<Longrightarrow> e' u = e u - d u"
  shows "conserved e' k'"
  using assms by (simp add: conserved_def keeps_def)

lemma conserved_frame:
  assumes "conserved e k" "same_frame k k'" "\<And>u. places u k' = places u k"
  shows "conserved e k'"
  using conserved_keeps [OF assms(1) keeps_frame0 [OF assms(2,3) conservedD(1,2) [OF assms(1)]]] by simp

lemma conserved_simple:
  assumes "conserved e k"
  shows "conserved e (TASK_SETRTN t v k)" "conserved e (block t st i k)" "conserved e (doorbell_broadcast k)"
    "conserved e (set_state t st k)"
  using assms by (auto intro: conserved_frame simp: frames)

lemma conserved_addTask:
  assumes "conserved e k" "\<And>u. u \<noteq> NULL \<Longrightarrow> e' u = e u - only t u"
  shows "conserved e' (addTask t k)"
  using conserved_keeps [OF assms(1) keeps_addTask [OF conservedD(1,2) [OF assms(1)]] assms(2)] .

lemma conserved_setCurrentTask:
  assumes "conserved e k" "here < ncpus k" "getCurrentTask here k = c"
    "\<And>u. u \<noteq> NULL \<Longrightarrow> e' u = e u - only t u + only c u"
  shows "conserved e' (setCurrentTask here t k)"
  using conserved_keeps [OF assms(1) keeps_setCurrentTask [OF conservedD(1,2) [OF assms(1)] assms(2)], of e' t] assms(3,4)
  by simp

lemma conserved_setNextRunnable:
  assumes "conserved e k" "here < ncpus k" "getCurrentTask here k = c" "\<And>u. u \<noteq> NULL \<Longrightarrow> e' u = e u + only c u"
  shows "conserved e' (setNextRunnable here tb k)"
  using conserved_keeps [OF assms(1) keeps_setNextRunnable [OF conservedD(1,2) [OF assms(1)] assms(2)], of e' tb] assms(3,4)
  by simp

lemma upd_mq_fields [simp]:
  "ncpus (upd_mq q f k) = ncpus k" "cpus (upd_mq q f k) = cpus k" "tasks (upd_mq q f k) = tasks k"
  "queues (upd_mq q f k) = queues k" "msgs (upd_mq q f k) = msgs k" "handlers (upd_mq q f k) = handlers k"
  "msgqs (upd_mq q f k) = (msgqs k)(q := f (msgqs k q))" "handling (upd_mq q f k) = handling k"
  "ncpus (upd_msg m g k) = ncpus k" "cpus (upd_msg m g k) = cpus k" "tasks (upd_msg m g k) = tasks k"
  "queues (upd_msg m g k) = queues k" "msgqs (upd_msg m g k) = msgqs k" "handlers (upd_msg m g k) = handlers k"
  "msgs (upd_msg m g k) = (msgs k)(m := g (msgs k m))" "handling (upd_msg m g k) = handling k"
  "ncpus (upd_hdl a l k) = ncpus k" "cpus (upd_hdl a l k) = cpus k" "tasks (upd_hdl a l k) = tasks k"
  "queues (upd_hdl a l k) = queues k" "msgqs (upd_hdl a l k) = msgqs k" "msgs (upd_hdl a l k) = msgs k"
  "handlers (upd_hdl a l k) = (handlers k)(a := l (handlers k a))" "handling (upd_hdl a l k) = handling k"
  by (simp_all add: upd_mq_def upd_msg_def upd_hdl_def)

lemma getCurrentTask_simps [simp]:
  "getCurrentTask c (upd_mq q f k) = getCurrentTask c k" "getCurrentTask c (upd_msg m g k) = getCurrentTask c k"
  "getCurrentTask c (upd_hdl a l k) = getCurrentTask c k" "getCurrentTask c (upd_task t f' k) = getCurrentTask c k"
  "getCurrentTask c (TASK_SETRTN t v k) = getCurrentTask c k" "getCurrentTask c (block t st i k) = getCurrentTask c k"
  "getCurrentTask c (doorbell_broadcast k) = getCurrentTask c k" "getCurrentTask c (addTask t k) = getCurrentTask c k"
  "getCurrentTask c (setCurrentTask c t k) = t"
  by (simp_all add: getCurrentTask_def TASK_SETRTN_def block_def doorbell_broadcast_def addTask_def Let_def
      set_state_def run_pinned_def setCurrentTask_def)

lemma ncpus_simps [simp]:
  "ncpus (TASK_SETRTN t v k) = ncpus k" "ncpus (block t st i k) = ncpus k" "ncpus (doorbell_broadcast k) = ncpus k"
  "ncpus (addTask t k) = ncpus k" "ncpus (setCurrentTask c t k) = ncpus k"
  by (simp_all add: TASK_SETRTN_def block_def doorbell_broadcast_def addTask_def Let_def set_state_def
      run_pinned_def setCurrentTask_def)

lemma unrelated_keeps:
  assumes "kwf k" "trk_inv k" "tasks k' = tasks k" "cpus k' = cpus k" "ncpus k' = ncpus k" "queues k' = queues k"
    "handling k' = handling k" "tracked k' = tracked k" "trackers k' = trackers k" "iv_taskList k' = iv_taskList k"
    "\<And>u. u \<noteq> NULL \<Longrightarrow> int (places u k') = int (places u k) + d u"
  shows "keeps d (\<lambda>u. live u k) k k'"
  using assms forest_cong [of k' k] by (simp add: keeps_def kwf_def trk_inv_def idle_def live_def)

lemma places_upd_mq:
  assumes "finite (queues k)" "q \<in> queues k"
  shows "places u (upd_mq q f k) + in_queue (msgs k) u (msgqs k q)
    = places u k + in_queue (msgs k) u (f (msgqs k q))"
  using sum_upd [OF assms, of "in_queue (msgs k) u" "msgqs k" "f (msgqs k q)"]
  by (simp add: places_def upd_mq_def)

lemma places_upd_hdl:
  assumes "finite (handling k)" "h \<in> handling k"
  shows "places u (upd_hdl h f k) + in_handler u (handlers k h) = places u k + in_handler u (f (handlers k h))"
  using sum_upd [OF assms, of "in_handler u" "handlers k" "f (handlers k h)"]
  by (simp add: places_def upd_hdl_def)

lemma conserved_upd_mq:
  assumes "conserved e k" "q \<in> queues k"
    and "\<And>u. u \<noteq> NULL \<Longrightarrow> e' u = e u + int (in_queue (msgs k) u (msgqs k q)) - int (in_queue (msgs k) u (f (msgqs k q)))"
  shows "conserved e' (upd_mq q f k)"
proof (rule conserved_keeps [OF assms(1)])
  have fin: "finite (queues k)" using conservedD(1) [OF assms(1)] by (simp add: kwf_def)
  show "keeps (\<lambda>u. int (in_queue (msgs k) u (f (msgqs k q))) - int (in_queue (msgs k) u (msgqs k q)))
    (\<lambda>u. live u k) k (upd_mq q f k)"
  proof (rule unrelated_keeps [OF conservedD(1,2) [OF assms(1)]])
    show "int (places u (upd_mq q f k)) = int (places u k)
      + (int (in_queue (msgs k) u (f (msgqs k q))) - int (in_queue (msgs k) u (msgqs k q)))" for u
      using places_upd_mq [OF fin assms(2), of u f] by linarith
  qed (simp_all add: upd_mq_def)
qed (use assms(3) in simp)

lemma conserved_upd_hdl:
  assumes "conserved e k" "h \<in> handling k"
    and "\<And>u. u \<noteq> NULL \<Longrightarrow> e' u = e u + int (in_handler u (handlers k h)) - int (in_handler u (f (handlers k h)))"
  shows "conserved e' (upd_hdl h f k)"
proof (rule conserved_keeps [OF assms(1)])
  have fin: "finite (handling k)" using conservedD(1) [OF assms(1)] by (simp add: kwf_def)
  show "keeps (\<lambda>u. int (in_handler u (f (handlers k h))) - int (in_handler u (handlers k h)))
    (\<lambda>u. live u k) k (upd_hdl h f k)"
  proof (rule unrelated_keeps [OF conservedD(1,2) [OF assms(1)]])
    show "int (places u (upd_hdl h f k)) = int (places u k)
      + (int (in_handler u (f (handlers k h))) - int (in_handler u (handlers k h)))" for u
      using places_upd_hdl [OF fin assms(2), of u f] by linarith
  qed (simp_all add: upd_hdl_def)
qed (use assms(3) in simp)

definition pending :: "addr \<Rightarrow> kernel \<Rightarrow> bool" where
  "pending m k \<longleftrightarrow> (\<exists>q\<in>queues k. m \<in> fst ` set (messages (msgqs k q)) \<union> fst ` set (responses (msgqs k q)))"

lemma as_sender_upd: "m \<notin> fst ` set ps \<Longrightarrow> as_sender (ms(m := r)) u ps = as_sender ms u ps"
  unfolding as_sender_def by (rule arg_cong [of _ _ length], rule filter_cong) (auto intro: rev_image_eqI)

lemma conserved_upd_msg:
  assumes "conserved e k" "\<not> pending m k"
  shows "conserved e (upd_msg m f k)"
proof (rule conserved_keeps [OF assms(1)])
  show "keeps (\<lambda>_. 0) (\<lambda>u. live u k) k (upd_msg m f k)"
  proof (rule unrelated_keeps [OF conservedD(1,2) [OF assms(1)]])
    show "int (places u (upd_msg m f k)) = int (places u k) + 0" for u
      using assms(2) by (auto simp: places_def upd_msg_def in_queue_def pending_def as_sender_upd intro!: sum.cong)
  qed (simp_all add: upd_msg_def)
qed simp

lemma as_sender_Cons [simp]:
  "as_sender ms u (p # ps) = of_bool (blocking (ms (fst p)) \<and> snd p = u) + as_sender ms u ps"
  "as_sender ms u [] = 0"
  by (simp_all add: as_sender_def)

lemma as_sender_last:
  "q_remove ps = Some (p, ps') \<Longrightarrow>
     as_sender ms u ps' + of_bool (blocking (ms (fst p)) \<and> snd p = u) = as_sender ms u ps"
  by (induction ps rule: rev_induct) (auto simp: q_remove_def as_sender_def)

lemma as_sender_erase:
  "find_erase m ps = Some (t, ps') \<Longrightarrow>
     as_sender ms u ps' + of_bool (blocking (ms m) \<and> t = u) = as_sender ms u ps"
proof (induction m ps arbitrary: t ps' rule: find_erase.induct)
  case (2 m a t0 ps)
  then show ?case by (cases "find_erase m ps") (auto split: if_splits)
qed simp

subsection \<open>The system calls\<close>

lemma in_queue_simps [simp]:
  "in_queue ms u (r\<lparr>messages := x\<rparr>) = as_sender ms u x + as_sender ms u (responses r) + count_list (waiting r) u"
  "in_queue ms u (r\<lparr>responses := x\<rparr>) = as_sender ms u (messages r) + as_sender ms u x + count_list (waiting r) u"
  "in_queue ms u (r\<lparr>waiting := w\<rparr>) = as_sender ms u (messages r) + as_sender ms u (responses r) + count_list w u"
  "in_queue ms u (r\<lparr>responses := x, waiting := w\<rparr>) = as_sender ms u (messages r) + as_sender ms u x + count_list w u"
  "in_queue ms u (r\<lparr>messages := y, responses := x\<rparr>) = as_sender ms u y + as_sender ms u x + count_list (waiting r) u"
  by (simp_all add: in_queue_def)

lemma conserved_upd_tcpu:
  assumes "conserved e k" "c < ncpus k"
  shows "conserved e (upd_task w (\<lambda>r. r\<lparr>tcpu := c\<rparr>) k)"
  using assms(2) by (intro conserved_frame [OF assms(1)] same_frame_upd_task) (simp_all add: identity_def)

lemma q_remove_int: "q_remove xs = Some (x, ys) \<Longrightarrow> int (count_list ys u) = int (count_list xs u) - only x u"
  using q_remove_count [of xs x ys u] by (cases "x = u") auto

lemma as_sender_last_int:
  "q_remove ps = Some (p, ps') \<Longrightarrow> int (as_sender ms u ps') = int (as_sender ms u ps) - of_bool (blocking (ms (fst p)) \<and> u = snd p)"
  using as_sender_last [of ps p ps' ms u] by (cases "blocking (ms (fst p)) \<and> u = snd p") auto

lemma as_sender_erase_int:
  "find_erase m ps = Some (t, ps') \<Longrightarrow> int (as_sender ms u ps') = int (as_sender ms u ps) - of_bool (blocking (ms m) \<and> u = t)"
  using as_sender_erase [of m ps t ps' ms u] by (cases "blocking (ms m) \<and> u = t") auto

lemma conserved_deliver:
  assumes c: "conserved e k" and q: "mq \<in> queues k" and nb: "\<not> blocking (msgs k m)"
  shows "conserved e (deliver mq m t k)"
proof (cases "q_remove (waiting (msgqs k mq))")
  case None
  have "conserved e (upd_mq mq (\<lambda>r. r\<lparr>messages := (m, t) # messages r\<rparr>) k)"
    by (rule conserved_upd_mq [OF c q]) (simp add: nb in_queue_def)
  with None show ?thesis by (simp add: deliver_def)
next
  case (Some p)
  then obtain w ws where p: "q_remove (waiting (msgqs k mq)) = Some (w, ws)" by (cases p) auto
  have "conserved (\<lambda>u. e u + only w u) (upd_mq mq (\<lambda>r. r\<lparr>waiting := ws\<rparr>) k)"
  proof (rule conserved_upd_mq [OF c q])
    show "e u + only w u = e u + int (in_queue (msgs k) u (msgqs k mq))
      - int (in_queue (msgs k) u ((msgqs k mq)\<lparr>waiting := ws\<rparr>))" for u
      using q_remove_int [OF p, of u] by (simp add: in_queue_def)
  qed
  from conserved_simple(3) [OF conserved_addTask [OF conserved_simple(1) [OF this, of w "of_nat m"], of e w]]
  show ?thesis by (simp add: deliver_def p)
qed

lemma conserved_MsgSend:
  assumes "conserved e k" "unat (TASK_GETARG k t 0) \<in> queues k" "\<not> pending (unat (TASK_GETARG k t 1)) k"
  shows "conserved e (MsgSend ipc t k)"
proof -
  let ?m = "unat (TASK_GETARG k t 1)" and ?f = "\<lambda>r. r\<lparr>mreserved_async := False\<rparr>"
  have 1: "conserved e (upd_msg ?m ?f k)" using assms(1,3) by (rule conserved_upd_msg)
  then have "conserved e (deliver (unat (TASK_GETARG k t 0)) ?m t (upd_msg ?m ?f k))"
    using assms(2) by (intro conserved_deliver) (auto simp: blocking_def)
  with 1 assms(1) show ?thesis by (simp add: MsgSend_def Let_def conserved_simple)
qed

lemma msgqs_simps [simp]:
  "msgqs (TASK_SETRTN t v k) = msgqs k" "msgqs (block t st i k) = msgqs k" "queues (TASK_SETRTN t v k) = queues k"
  "queues (block t st i k) = queues k" "msgs (TASK_SETRTN t v k) = msgs k" "msgs (block t st i k) = msgs k"
  "handling (TASK_SETRTN t v k) = handling k" "handling (block t st i k) = handling k"
  "handlers (TASK_SETRTN t v k) = handlers k" "handlers (block t st i k) = handlers k"
  by (simp_all add: TASK_SETRTN_def block_def)

lemma conserved_MsgSendRecv:
  assumes c: "conserved (\<lambda>_. 0) k" and h: "here < ncpus k" "getCurrentTask here k = t"
    and q: "unat (TASK_GETARG k t 0) \<in> queues k" and m: "\<not> pending (unat (TASK_GETARG k t 1)) k"
  shows "conserved (\<lambda>_. 0) (MsgSendRecv here tb t k)"
proof -
  let ?mq = "unat (TASK_GETARG k t 0)" and ?m = "unat (TASK_GETARG k t 1)" and ?mq2 = "unat (TASK_GETARG k t 2)"
  define k1 where "k1 = upd_msg ?m (\<lambda>r. r\<lparr>mreserved_async := True,
    mreserved_pseudosync := mreserved_pseudosync r \<or> ?mq2 \<noteq> NULL\<rparr>) k"
  define pseudo where "pseudo = mreserved_pseudosync (msgs k1 ?m)"
  define k2 where "k2 = (if pseudo then TASK_SETRTN t 0 k1 else block t TASK_STATE_BLOCK_MSG (of_nat ?mq) k1)"
  define mp where "mp = (?m, if pseudo then ?mq2 else t)"
  have c1: "conserved (\<lambda>_. 0) k1" unfolding k1_def by (rule conserved_upd_msg [OF c m])
  then have c2: "conserved (\<lambda>_. 0) k2" by (simp add: k2_def conserved_simple)
  have f: "queues k2 = queues k" "msgs k2 = msgs k1" "msgqs k2 = msgqs k" "ncpus k2 = ncpus k"
    "getCurrentTask here k2 = t" using h by (simp_all add: k2_def k1_def)
  have unf: "MsgSendRecv here tb t k =
     (if mtype (msgs k1 ?m) \<ge> MSG_FIRST_SYS_TYPE then TASK_SETRTN t (of_int (- EINVAL)) k1
      else case q_remove (waiting (msgqs k2 ?mq)) of
        None \<Rightarrow> if pseudo then upd_mq ?mq (\<lambda>r. r\<lparr>messages := mp # messages r\<rparr>) k2
                else setNextRunnable here tb (upd_mq ?mq (\<lambda>r. r\<lparr>messages := mp # messages r\<rparr>) k2)
      | Some (waiter, ws) \<Rightarrow>
          let k3 = upd_task waiter (\<lambda>r. r\<lparr>tcpu := tcpu (tasks k2 t)\<rparr>)
                     (upd_mq ?mq (\<lambda>r. r\<lparr>responses := mp # responses r, waiting := ws\<rparr>)
                       (TASK_SETRTN waiter (of_nat ?m) k2))
          in setCurrentTask here waiter (if pseudo then doorbell_broadcast (addTask t k3) else k3))"
    unfolding MsgSendRecv_def Let_def k1_def [symmetric] pseudo_def [symmetric] k2_def [symmetric] mp_def [symmetric] ..
  show ?thesis
  proof (cases "mtype (msgs k1 ?m) \<ge> MSG_FIRST_SYS_TYPE")
    case True
    then show ?thesis using c1 by (simp add: unf conserved_simple)
  next
    case False
    then have bl: "blocking (msgs k1 ?m) \<longleftrightarrow> \<not> pseudo"
      by (auto simp: blocking_def pseudo_def k1_def not_le)
    have mp: "of_bool (blocking (msgs k1 (fst mp)) \<and> snd mp = u) = (if pseudo then 0 else only t u)" for u
      using bl by (auto simp: mp_def)
    show ?thesis
    proof (cases "q_remove (waiting (msgqs k2 ?mq))")
      case None
      let ?k3 = "upd_mq ?mq (\<lambda>r. r\<lparr>messages := mp # messages r\<rparr>) k2"
      have c3: "conserved (\<lambda>u. if pseudo then 0 else - only t u) ?k3"
        using q f mp by (intro conserved_upd_mq [OF c2]) (auto simp: in_queue_def)
      then have "\<not> pseudo \<Longrightarrow> conserved (\<lambda>_. 0) (setNextRunnable here tb ?k3)"
        using h f by (intro conserved_setNextRunnable [of "\<lambda>u. - only t u" _ _ t]) auto
      with c3 False None show ?thesis by (cases pseudo) (simp_all add: unf)
    next
      case (Some p)
      then obtain w ws where p: "q_remove (waiting (msgqs k2 ?mq)) = Some (w, ws)" by (cases p) auto
      let ?k3 = "upd_mq ?mq (\<lambda>r. r\<lparr>responses := mp # responses r, waiting := ws\<rparr>) (TASK_SETRTN w (of_nat ?m) k2)"
      let ?k4 = "upd_task w (\<lambda>r. r\<lparr>tcpu := tcpu (tasks k2 t)\<rparr>) ?k3"
      let ?k5 = "if pseudo then doorbell_broadcast (addTask t ?k4) else ?k4"
      have "conserved (\<lambda>u. only w u - (if pseudo then 0 else only t u)) ?k3"
        using q f mp q_remove_int [OF p]
        by (intro conserved_upd_mq [OF conserved_simple(1) [OF c2]]) (auto simp: in_queue_def)
      moreover have "tcpu (tasks k2 t) < ncpus ?k3" using conservedD(1) [OF c2] by (simp add: kwf_def)
      ultimately have c4: "conserved (\<lambda>u. only w u - (if pseudo then 0 else only t u)) ?k4"
        by (rule conserved_upd_tcpu)
      then have "conserved (\<lambda>u. only w u - only t u) ?k5"
        using conserved_simple(3) [OF conserved_addTask [OF c4, of "\<lambda>u. only w u - only t u" t]] by auto
      then have "conserved (\<lambda>_. 0) (setCurrentTask here w ?k5)"
        using h f by (intro conserved_setCurrentTask [of "\<lambda>u. only w u - only t u" _ _ t]) auto
      with False p show ?thesis by (simp only: unf Let_def if_False option.case prod.case)
    qed
  qed
qed

lemma conserved_MsgWait:
  assumes c: "conserved (\<lambda>_. 0) k" and h: "here < ncpus k" "getCurrentTask here k = t"
    and q: "unat (TASK_GETARG k t 0) \<in> queues k"
  shows "conserved (\<lambda>_. 0) (MsgWait here tb t k)"
proof (cases "q_remove (messages (msgqs k (unat (TASK_GETARG k t 0))))")
  case None
  let ?mq = "unat (TASK_GETARG k t 0)"
  let ?k1 = "upd_mq ?mq (\<lambda>r. r\<lparr>waiting := t # waiting r\<rparr>) k"
  have "conserved (\<lambda>u. - only t u) ?k1" by (rule conserved_upd_mq [OF c q]) (auto simp: in_queue_def)
  then have "conserved (\<lambda>_. 0) (setNextRunnable here tb (block t TASK_STATE_BLOCK_MSG (of_nat ?mq) ?k1))"
    using h by (intro conserved_setNextRunnable [OF conserved_simple(2), of "\<lambda>u. - only t u" _ _ t]) auto
  with None show ?thesis by (simp add: MsgWait_def Let_def)
next
  case (Some x)
  let ?mq = "unat (TASK_GETARG k t 0)"
  from Some obtain m p ms where x: "q_remove (messages (msgqs k ?mq)) = Some ((m, p), ms)" by (cases x) auto
  have "\<not> mreserved_async (msgs k m) \<Longrightarrow> \<not> blocking (msgs k m)" by (simp add: blocking_def)
  then have "conserved (\<lambda>_. 0) (upd_mq ?mq (\<lambda>r. r\<lparr>messages := ms,
      responses := (if mreserved_async (msgs k m) then (m, p) # responses r else responses r)\<rparr>) k)"
    using as_sender_last_int [OF x] by (intro conserved_upd_mq [OF c q]) (auto simp: in_queue_def)
  with x show ?thesis by (simp add: MsgWait_def Let_def conserved_simple)
qed

subsection \<open>Kernel messages\<close>

lemma conserved_cong:
  "conserved e k \<Longrightarrow> (\<And>u. u \<noteq> NULL \<Longrightarrow> \<not> idle u k \<Longrightarrow> e' u = e u) \<Longrightarrow> conserved e' k"
  by (simp add: conserved_def)

lemma count_find_erase:
  "find_erase ky ps = Some (t, ps') \<Longrightarrow> int (count_list (map snd ps') u) = int (count_list (map snd ps) u) - only t u"
proof (induction ky ps arbitrary: t ps' rule: find_erase.induct)
  case (2 ky a t0 ps)
  then show ?case by (cases "find_erase ky ps") (auto split: if_splits)
qed simp

lemma find_erase_in: "find_erase ky ps = Some (t, ps') \<Longrightarrow> (ky, t) \<in> set ps \<and> set ps' \<subseteq> set ps"
proof (induction ky ps arbitrary: t ps' rule: find_erase.induct)
  case (2 ky a t0 ps)
  then show ?case by (cases "find_erase ky ps") (auto split: if_splits)
qed simp

text \<open>
  What is in hand during \<open>recvMessage\<close>: the tasks that will be ended, and the responding task once
  another task has been made current in its place.
\<close>

definition in_hand :: "task \<Rightarrow> bool \<times> task list \<times> kernel \<Rightarrow> task \<Rightarrow> int" where
  "in_hand t s u = int (count_list (fst (snd s)) u) + (if fst s then only t u else 0)"

definition recv_ok :: "nat \<Rightarrow> task \<Rightarrow> bool \<times> task list \<times> kernel \<Rightarrow> bool" where
  "recv_ok here t s \<longleftrightarrow> conserved (in_hand t s) (snd (snd s)) \<and> here < ncpus (snd (snd s))
     \<and> (\<not> fst s \<longrightarrow> getCurrentTask here (snd (snd s)) = t)
     \<and> NULL \<notin> set (fst (snd s)) \<and> (\<forall>d\<in>set (fst (snd s)). \<not> idle d (snd (snd s)))"

lemma resume_ok:
  assumes c: "conserved (\<lambda>u. in_hand t (restored, ends, k) u + only d u) k"
    and h: "here < ncpus k" "\<not> restored \<Longrightarrow> getCurrentTask here k = t" and rc: "rc \<noteq> CONTINUE_DEFER"
    and nd: "NULL \<notin> set ends" "\<forall>d\<in>set ends. \<not> idle d k" "d = NULL \<or> \<not> idle d k"
  shows "recv_ok here t (resume here rc msg_rc d (restored, ends, k))"
    "queues (snd (snd (resume here rc msg_rc d (restored, ends, k)))) = queues k"
    "handling (snd (snd (resume here rc msg_rc d (restored, ends, k)))) = handling k"
    "idle u (snd (snd (resume here rc msg_rc d (restored, ends, k)))) = idle u k"
proof -
  let ?s = "resume here rc msg_rc d (restored, ends, k)"
  have cur: "conserved (in_hand t (True, ends, setCurrentTask here d k)) (setCurrentTask here d k)" if "\<not> restored"
    using h that by (intro conserved_setCurrentTask [OF c, of here t]) (auto simp: in_hand_def)
  have add: "conserved (in_hand t (restored, ends, k')) (doorbell_broadcast (addTask d k))" for k'
    using conserved_simple(3) [OF conserved_addTask [OF c, of "in_hand t (restored, ends, k')" d]] by (simp add: in_hand_def)
  have null: "conserved (in_hand t (restored, ends, k)) k" if "d = NULL"
    by (rule conserved_cong [OF c]) (use that in simp)
  have endl: "conserved (in_hand t (restored, d # ends, k)) k"
    by (rule conserved_cong [OF c]) (auto simp: in_hand_def)
  have id: "idle v (setCurrentTask here d k) = idle v k" "idle v (doorbell_broadcast (addTask d k)) = idle v k" for v
    using same_frame_idle [OF same_frame_setCurrentTask [OF h(1)]]
      same_frame_idle [OF same_frame_trans [OF same_frame_addTask same_frame_doorbell]] by blast+
  show "recv_ok here t ?s"
    using cur add null endl h rc nd id
    by (cases rc) (auto simp: recv_ok_def resume_def intro: conserved_cong)
  show "queues (snd (snd ?s)) = queues k" "handling (snd (snd ?s)) = handling k"
    by (simp_all add: resume_def setCurrentTask_def doorbell_broadcast_def addTask_def Let_def set_state_def run_pinned_def)
  show "idle u (snd (snd ?s)) = idle u k" using id by (simp add: resume_def)
qed

lemma recv_loop_ok:
  assumes "recv_ok here t s" "h \<in> handling (snd (snd s))"
    and "\<forall>x\<in>set (iv_pending (handlers (snd (snd s)) h)). snd x = NULL \<or> \<not> idle (snd x) (snd (snd s))"
    and "\<And>ty ky t rc. handleResponse ty ky t rc \<noteq> CONTINUE_DEFER"
  shows "recv_ok here t (recv_loop handleResponse here h ty ky rc s)"
  using assms
proof (induction handleResponse here h ty ky rc s rule: recv_loop.induct)
  case (1 hr here h ty ky rc s)
  obtain restored ends k where s: "s = (restored, ends, k)" by (cases s) auto
  show ?case
  proof (cases "find_erase ky (iv_pending (handlers k h))")
    case None
    then show ?thesis using 1(2) by (simp add: recv_loop.simps [of hr here h] s)
  next
    case (Some p)
    then obtain d ps where p: "find_erase ky (iv_pending (handlers k h)) = Some (d, ps)" by (cases p) auto
    note fe = find_erase_in [OF p]
    let ?k1 = "upd_hdl h (\<lambda>r. r\<lparr>iv_pending := ps\<rparr>) k"
    let ?s1 = "resume here (hr ty ky d rc) rc d (restored, ends, ?k1)"
    have ok: "conserved (in_hand t s) k" "here < ncpus k" "\<not> restored \<Longrightarrow> getCurrentTask here k = t"
      "NULL \<notin> set ends" "\<forall>d\<in>set ends. \<not> idle d k" "h \<in> handling k"
      using 1(2,3) by (auto simp: recv_ok_def s)
    have idl: "idle u ?k1 = idle u k" for u by (simp add: idle_def)
    have c1: "conserved (\<lambda>u. in_hand t (restored, ends, ?k1) u + only d u) ?k1"
      using count_find_erase [OF p]
      by (intro conserved_upd_hdl [OF ok(1,6)]) (simp add: in_hand_def s in_handler_def)
    have dn: "d = NULL \<or> \<not> idle d ?k1" using 1(4) fe idl by (auto simp: s)
    have pre: "here < ncpus ?k1" "\<not> restored \<Longrightarrow> getCurrentTask here ?k1 = t" "\<forall>d\<in>set ends. \<not> idle d ?k1"
      using ok(2,3,5) idl by simp_all
    note r = resume_ok [where rc = "hr ty ky d rc" and msg_rc = rc, OF c1 pre(1,2) 1(5) ok(4) pre(3) dn]
    have p': "find_erase ky (iv_pending (handlers (snd (snd s)) h)) = Some (d, ps)" using p by (simp add: s)
    have "recv_ok here t (recv_loop hr here h ty ky rc ?s1)"
    proof (rule 1(1) [OF p' refl, unfolded s fst_conv snd_conv])
      show "h \<in> handling (snd (snd ?s1))" using r(3) ok(6) by (simp add: s)
      show "\<forall>x\<in>set (iv_pending (handlers (snd (snd ?s1)) h)). snd x = NULL \<or> \<not> idle (snd x) (snd (snd ?s1))"
        using 1(4) fe r(4) idl by (fastforce simp: s)
    qed (use r(1) 1(5) in \<open>simp_all add: s\<close>)
    then show ?thesis using p by (simp add: recv_loop.simps [of hr here h ty ky rc "(restored, ends, k)"] s)
  qed
qed

lemma conserved_keepsL:
  assumes "conserved e k" "keeps d L k k'" "\<And>u. u \<noteq> NULL \<Longrightarrow> \<not> idle u k \<Longrightarrow> e' u = e u - d u + of_bool (L u) - of_bool (live u k)"
  shows "conserved e' k'"
  unfolding conserved_def
proof (intro conjI allI impI)
  show "kwf k'" "trk_inv k'" using assms(2) by (simp_all add: keeps_def)
  show "int (places u k') + e' u = of_bool (live u k')" if "u \<noteq> NULL \<and> \<not> idle u k'" for u
    using that assms(2) assms(3) [of u] conservedD(3) [OF assms(1), of u] by (simp add: keeps_def)
qed

text \<open>A task in hand is alive, and it is neither current on a CPU nor waiting for a child.\<close>

lemma in_hand_nowhere:
  assumes c: "conserved e k" and t: "t \<noteq> NULL" "\<not> idle t k" and e: "0 < e t"
  shows "live t k" "wait_info (trackers k (tracker (tasks k t))) = None"
    "c' < ncpus k \<Longrightarrow> getCurrentTask c' k \<noteq> t" "e t = 1"
proof -
  have z: "places t k = 0 \<and> live t k \<and> e t = 1" using conservedD(3) [OF c t] e by (cases "live t k") auto
  then show "live t k" "e t = 1" by simp_all
  have fin: "finite (tracked k)" using conservedD(1) [OF c] by (simp add: kwf_def)
  note lt = live_tracker(1,2) [OF conservedD(2) [OF c] \<open>live t k\<close> t(1)]
  have "(\<Sum>a\<in>tracked k. joining t (trackers k a)) = 0" and cpu: "(\<Sum>c<ncpus k. on_cpu t (cpus k c)) = 0"
    using z unfolding places_def by linarith+
  then have "joining t (trackers k (tracker (tasks k t))) = 0" using fin lt(1) by (metis sum_eq_0_iff)
  with lt(2) show "wait_info (trackers k (tracker (tasks k t))) = None" unfolding joining_def by simp
  show "getCurrentTask c' k \<noteq> t" if "c' < ncpus k"
  proof -
    have "on_cpu t (cpus k c') = 0" using cpu that by (metis finite_lessThan lessThan_iff sum_eq_0_iff)
    then show ?thesis unfolding on_cpu_def getCurrentTask_def by simp
  qed
qed

lemma endTask_current:
  assumes "kwf k" "trk_inv k" "here < ncpus k" "live t k" "t \<noteq> NULL" "getCurrentTask here k \<noteq> t"
    "wait_info (trackers k (tracker (tasks k t))) = None" "endTask here tb t rv st k = Some (Inr k')"
  shows "getCurrentTask here k' = getCurrentTask here k" "queues k' = queues k" "handling k' = handling k"
proof -
  let ?k = "ended here tb t rv st k" and ?a = "tracker (tasks k t)"
  note e = ended_keeps [OF assms(1-5,7), of tb rv st] ended_fields [OF assms(3), of tb t rv st]
  have a: "tracker (tasks ?k t) = ?a" "?a \<in> tracked ?k"
    using e(2) [of t] e(4) live_tracker(1) [OF assms(2,4,5)] by (simp_all add: identity_def)
  have f: "forest ?k" using keepsD(2) [OF e(1)] by (simp add: trk_inv_def)
  define same where "same k' \<longleftrightarrow> getCurrentTask here k' = getCurrentTask here k \<and> queues k' = queues k \<and> handling k' = handling k"
    for k'
  define S where "S x \<longleftrightarrow> (\<forall>k'. x = Some (Inr k') \<longrightarrow> same k')" for x :: "(kerror + kernel) option"
  have k: "same ?k" using assms(6) by (simp add: same_def ended_def Let_def set_state_def getCurrentTask_def)
  have rm: "S (removeTracker (Remove ?a) ?k)"
    using removeTracker_total [OF f a(2)] k
    by (auto simp: S_def same_def getCurrentTask_def)
  have wk: "S (obind (removeTracker (Remove ?a) (TASK_SETRTN w v (upd_trk p (\<lambda>r. r\<lparr>wait_info := None\<rparr>)
      (store_opt x1 y1 (store_opt x2 y2 ?k))))) (\<lambda>k3. Some (Inr (addTask w k3))))" for w v p x1 y1 x2 y2
  proof -
    let ?k4 = "TASK_SETRTN w v (upd_trk p (\<lambda>r. r\<lparr>wait_info := None\<rparr>) (store_opt x1 y1 (store_opt x2 y2 ?k)))"
    have f4: "forest ?k4" using f forest_cong [of ?k4 ?k] by simp
    have "same ?k4" using k by (simp add: same_def getCurrentTask_def TASK_SETRTN_def store_opt_def)
    then have "same (addTask w (removed ?a ?k4))"
      by (simp add: same_def getCurrentTask_def addTask_def Let_def set_state_def run_pinned_def)
    then show ?thesis using removeTracker_total [OF f4, of ?a] a(2) by (auto simp: S_def)
  qed
  have "S (endTask here tb t rv st k)"
  proof -
    define kk where "kk = ?k"
    have "S (Some (Inl KAssert))" "S (Some (Inr ?k))" using k by (simp_all add: S_def)
    note Q = this rm wk
    show ?thesis
      unfolding endTask_unfold Let_def kk_def [symmetric]
      using Q [folded kk_def] a(1) [folded kk_def] by (simp split: if_split)
  qed
  with assms(8) show "getCurrentTask here k' = getCurrentTask here k" "queues k' = queues k" "handling k' = handling k"
    by (simp_all add: S_def same_def)
qed

lemma end_all_ok:
  assumes "conserved (\<lambda>u. int (count_list ts u) + r u) k" "here < ncpus k" "NULL \<notin> set ts" "\<forall>d\<in>set ts. \<not> idle d k"
    "\<And>u. 0 \<le> r u"
  shows "\<exists>x. end_all here tb v ts k = Some x \<and> (\<forall>k'. x = Inr k' \<longrightarrow> conserved r k' \<and> ncpus k' = ncpus k
    \<and> getCurrentTask here k' = getCurrentTask here k \<and> queues k' = queues k \<and> handling k' = handling k
    \<and> (\<forall>u. idle u k' = idle u k))"
  using assms
proof (induction ts arbitrary: k)
  case (Cons t ts)
  have pos: "0 < int (count_list (t # ts) t) + r t" using Cons.prems(5) [of t] by simp
  have t: "t \<noteq> NULL" "\<not> idle t k" using Cons.prems by auto
  note n = in_hand_nowhere [OF Cons.prems(1) t pos] and w = conservedD(1,2) [OF Cons.prems(1)]
  from endTask_keeps [OF w Cons.prems(2) n(1) t(1) n(2), of tb v TASK_STATUS_CRASHED] obtain x where
    x: "endTask here tb t v TASK_STATUS_CRASHED k = Some x"
    "\<And>k'. x = Inr k' \<Longrightarrow> keeps (\<lambda>u. - of_bool (u = t \<and> getCurrentTask here k = t)) (\<lambda>u. live u k \<and> u \<noteq> t) k k'" by blast
  show ?case
  proof (cases x)
    case (Inr k1)
    note kp = x(2) [OF Inr]
    note cu = endTask_current [OF w Cons.prems(2) n(1) t(1) n(3) [OF Cons.prems(2)] n(2) x(1) [unfolded Inr]]
    have "conserved (\<lambda>u. int (count_list ts u) + r u) k1"
      using n(1) n(3) [OF Cons.prems(2)] by (intro conserved_keepsL [OF Cons.prems(1) kp]) auto
    moreover have "here < ncpus k1" "\<forall>d\<in>set ts. \<not> idle d k1" "\<And>u. idle u k1 = idle u k" "ncpus k1 = ncpus k"
      using kp Cons.prems(2,4) by (auto simp: keeps_def)
    ultimately show ?thesis using Cons.IH [of k1] Cons.prems(3,5) x(1) Inr cu by auto
  qed (use x(1) in simp)
qed simp

lemma recvMessage_ok:
  assumes c: "conserved (\<lambda>_. 0) k" and h: "here < ncpus k" "getCurrentTask here k = t" and hd: "h \<in> handling k"
    and pn: "\<forall>x\<in>set (iv_pending (handlers k h)). snd x = NULL \<or> \<not> idle (snd x) k"
    and hr: "\<And>ty ky t rc. handleResponse ty ky t rc \<noteq> CONTINUE_DEFER"
  shows "\<exists>x. recvMessage handleResponse here tb h m k = Some x \<and> (\<forall>rc k'. x = Inr (rc, k') \<longrightarrow>
    (\<exists>restored. conserved (\<lambda>u. if restored then only t u else 0) k' \<and> here < ncpus k'
      \<and> (\<not> restored \<longrightarrow> getCurrentTask here k' = t)))"
proof (cases "mtype (msgs k m) < MSG_FIRST_SYS_TYPE")
  case True
  then show ?thesis using c h by (auto simp: recvMessage_def Let_def intro!: exI [of _ False])
next
  case False
  let ?s = "recv_loop handleResponse here h (mtype (msgs k m)) (mdata0 (msgs k m))
    (sint (ucast (mdata1 (msgs k m)) :: u32)) (False, [], k)"
  obtain restored ends k1 where s: "?s = (restored, ends, k1)" by (cases ?s) auto
  have "conserved (in_hand t (False, [], k)) k" by (rule conserved_cong [OF c]) (simp add: in_hand_def)
  then have "recv_ok here t (False, [], k)" using h by (simp add: recv_ok_def)
  from recv_loop_ok [OF this, of h handleResponse] hd pn hr s have ok: "recv_ok here t (restored, ends, k1)"
    by (metis snd_conv)
  have "conserved (\<lambda>u. int (count_list (rev ends) u) + (if restored then only t u else 0)) k1"
    using ok by (auto simp: recv_ok_def in_hand_def intro: conserved_cong)
  moreover have "0 \<le> (if restored then only t u else 0)" for u by simp
  moreover have "here < ncpus k1" "NULL \<notin> set (rev ends)" "\<forall>d\<in>set (rev ends). \<not> idle d k1"
    using ok by (simp_all add: recv_ok_def)
  ultimately obtain x where "end_all here tb (extra_data (msgs k m)) (rev ends) k1 = Some x"
    "\<And>k'. x = Inr k' \<Longrightarrow> conserved (\<lambda>u. if restored then only t u else 0) k' \<and> ncpus k' = ncpus k1
       \<and> getCurrentTask here k' = getCurrentTask here k1"
    using end_all_ok [of "rev ends" "\<lambda>u. if restored then only t u else 0" k1 here tb "extra_data (msgs k m)"]
    by blast
  then show ?thesis using False s ok
    by (cases x) (auto simp: recvMessage_def Let_def recv_ok_def intro!: exI [of _ restored])
qed

text \<open>What a response may rely on: the record it answers was made by a send, and is used once.\<close>

definition answerable :: "task \<Rightarrow> kernel \<Rightarrow> bool" where
  "answerable t k \<longleftrightarrow>
     (let mq = unat (TASK_GETARG k t 0); m = unat (TASK_GETARG k t 1)
      in mq \<in> queues k \<and> (\<forall>w. (m, w) \<in> set (responses (msgqs k mq)) \<longrightarrow>
           mreserved_async (msgs k m)
           \<and> (mtype (msgs k m) \<ge> MSG_FIRST_SYS_TYPE \<longrightarrow> w \<in> handling k
                \<and> (\<forall>x\<in>set (iv_pending (handlers k w)). snd x = NULL \<or> \<not> idle (snd x) k))
           \<and> (mtype (msgs k m) < MSG_FIRST_SYS_TYPE \<and> mreserved_pseudosync (msgs k m) \<longrightarrow> w = NULL \<or> w \<in> queues k)))"

lemma conserved_MsgRespond:
  assumes c: "conserved (\<lambda>_. 0) k" and h: "here < ncpus k" "getCurrentTask here k = t" and a: "answerable t k"
    and hr: "\<And>h ty ky t rc. handleResponse h ty ky t rc \<noteq> CONTINUE_DEFER"
  shows "\<exists>x. MsgRespond handleResponse here tb t k = Some x \<and> (\<forall>k'. x = Inr k' \<longrightarrow> conserved (\<lambda>_. 0) k')"
proof -
  define mq where "mq = unat (TASK_GETARG k t 0)"
  define m where "m = unat (TASK_GETARG k t 1)"
  have q: "mq \<in> queues k" using a by (simp add: answerable_def Let_def mq_def)
  show ?thesis
  proof (cases "find_erase m (responses (msgqs k mq))")
    case None
    then show ?thesis using c by (simp add: MsgRespond_def Let_def conserved_simple mq_def m_def)
  next
    case (Some p)
    then obtain w rs where p: "find_erase m (responses (msgqs k mq)) = Some (w, rs)" by (cases p) auto
    have w: "mreserved_async (msgs k m)"
      "mtype (msgs k m) \<ge> MSG_FIRST_SYS_TYPE \<Longrightarrow> w \<in> handling k
         \<and> (\<forall>x\<in>set (iv_pending (handlers k w)). snd x = NULL \<or> \<not> idle (snd x) k)"
      "mtype (msgs k m) < MSG_FIRST_SYS_TYPE \<Longrightarrow> mreserved_pseudosync (msgs k m) \<Longrightarrow> w = NULL \<or> w \<in> queues k"
    proof -
      have in_mq: "(m, w) \<in> set (responses (msgqs k mq))" using find_erase_in [OF p] by simp
      note a = a [unfolded answerable_def Let_def, folded mq_def m_def, THEN conjunct2, rule_format, OF in_mq]
      show "mreserved_async (msgs k m)" using a by blast
      show "w \<in> handling k \<and> (\<forall>x\<in>set (iv_pending (handlers k w)). snd x = NULL \<or> \<not> idle (snd x) k)"
        if "mtype (msgs k m) \<ge> MSG_FIRST_SYS_TYPE" using a that by blast
      show "w = NULL \<or> w \<in> queues k" if "mtype (msgs k m) < MSG_FIRST_SYS_TYPE" "mreserved_pseudosync (msgs k m)"
        using a that by blast
    qed
    define k1 where "k1 = upd_mq mq (\<lambda>r. r\<lparr>responses := rs\<rparr>) k"
    have c1: "conserved (\<lambda>u. of_bool (blocking (msgs k m) \<and> u = w)) k1"
      unfolding k1_def using as_sender_erase_int [OF p, of "msgs k"]
      by (intro conserved_upd_mq [OF c q]) (simp add: in_queue_def)
    have f: "msgs k1 = msgs k" "queues k1 = queues k" "handling k1 = handling k" "handlers k1 = handlers k"
      "ncpus k1 = ncpus k" "getCurrentTask here k1 = t" "\<And>u. idle u k1 = idle u k" "tasks k1 = tasks k"
      using h by (simp_all add: k1_def idle_def)
    have unf: "MsgRespond handleResponse here tb t k =
       (if mtype (msgs k m) \<ge> MSG_FIRST_SYS_TYPE
        then obind (recvMessage (handleResponse w) here tb w m k1) (\<lambda>(rc, k2).
               let k3 = TASK_SETRTN t (of_int rc) k2
               in Some (Inr (if getCurrentTask here k3 \<noteq> t then doorbell_broadcast (addTask t k3) else k3)))
        else if mreserved_pseudosync (msgs k m)
        then Some (if w = NULL then Inl NullDeref else Inr (TASK_SETRTN t 0 (deliver w m t k1)))
        else Some (Inr (doorbell_broadcast (addTask t (TASK_SETRTN t 0 (TASK_SETRTN w 0
               (setCurrentTask here w (upd_task w (\<lambda>r. r\<lparr>tcpu := tcpu (tasks k1 t)\<rparr>) k1))))))))"
      using p unfolding MsgRespond_def Let_def mq_def m_def k1_def by simp
    consider (sys) "mtype (msgs k m) \<ge> MSG_FIRST_SYS_TYPE"
      | (pseudo) "mtype (msgs k m) < MSG_FIRST_SYS_TYPE" "mreserved_pseudosync (msgs k m)"
      | (sync) "mtype (msgs k m) < MSG_FIRST_SYS_TYPE" "\<not> mreserved_pseudosync (msgs k m)" by fastforce
    then show ?thesis
    proof cases
      case pseudo
      then have "conserved (\<lambda>_. 0) k1" using c1 by (simp add: blocking_def)
      then have "w \<noteq> NULL \<Longrightarrow> conserved (\<lambda>_. 0) (deliver w m t k1)"
        using w(3) [OF pseudo] pseudo by (intro conserved_deliver) (auto simp: f blocking_def)
      then have "w \<noteq> NULL \<Longrightarrow> conserved (\<lambda>_. 0) (TASK_SETRTN t 0 (deliver w m t k1))" by (simp add: conserved_simple)
      with pseudo show ?thesis by (cases "w = NULL") (simp_all only: unf not_le [symmetric] simp_thms if_False if_True, auto)
    next
      case sync
      then have "blocking (msgs k m)" using w(1) by (simp add: blocking_def)
      with c1 have "conserved (only w) k1" by simp
      moreover have "tcpu (tasks k1 t) < ncpus k1" using conservedD(1) [OF c1] by (simp add: kwf_def)
      ultimately have "conserved (only w) (upd_task w (\<lambda>r. r\<lparr>tcpu := tcpu (tasks k1 t)\<rparr>) k1)"
        by (rule conserved_upd_tcpu)
      then have "conserved (only t) (setCurrentTask here w (upd_task w (\<lambda>r. r\<lparr>tcpu := tcpu (tasks k1 t)\<rparr>) k1))"
        using h f by (intro conserved_setCurrentTask [of "only w" _ _ t]) auto
      then have "conserved (\<lambda>_. 0) (addTask t (TASK_SETRTN t 0 (TASK_SETRTN w 0
          (setCurrentTask here w (upd_task w (\<lambda>r. r\<lparr>tcpu := tcpu (tasks k1 t)\<rparr>) k1)))))"
        by (intro conserved_addTask [OF conserved_simple(1) [OF conserved_simple(1)]]) auto
      with sync show ?thesis by (simp add: unf conserved_simple not_le [symmetric])
    next
      case sys
      then have "\<not> blocking (msgs k m)" by (auto simp: blocking_def not_le [symmetric])
      with c1 have "conserved (\<lambda>_. 0) k1" by simp
      from recvMessage_ok [OF this, of here t w "handleResponse w" tb m] h f w(2) [OF sys] hr obtain x where
        x: "recvMessage (handleResponse w) here tb w m k1 = Some x"
        "\<And>rc k'. x = Inr (rc, k') \<Longrightarrow> \<exists>restored. conserved (\<lambda>u. if restored then only t u else 0) k' \<and> here < ncpus k'
           \<and> (\<not> restored \<longrightarrow> getCurrentTask here k' = t)" by auto
      show ?thesis
      proof (cases x)
        case (Inr y)
        then obtain rc k2 where y: "x = Inr (rc, k2)" by (cases y) auto
        from x(2) [OF y] obtain restored where
          r: "conserved (\<lambda>u. if restored then only t u else 0) k2" "here < ncpus k2"
            "\<not> restored \<Longrightarrow> getCurrentTask here k2 = t" by blast
        let ?k3 = "TASK_SETRTN t (of_int rc) k2"
        have "conserved (\<lambda>_. 0) (if getCurrentTask here ?k3 \<noteq> t then doorbell_broadcast (addTask t ?k3) else ?k3)"
        proof (cases "restored \<and> t \<noteq> NULL \<and> \<not> idle t k2")
          case True
          then have o: "conserved (only t) k2" using r(1) by simp
          have "getCurrentTask here k2 \<noteq> t" using in_hand_nowhere(3) [OF o _ _ _ r(2)] True by simp
          moreover have "conserved (\<lambda>_. 0) (addTask t ?k3)"
            by (intro conserved_addTask [OF conserved_simple(1) [OF o]]) auto
          ultimately show ?thesis by (simp add: conserved_simple getCurrentTask_def TASK_SETRTN_def)
        next
          case False
          have z: "conserved (\<lambda>_. 0) k2" by (rule conserved_cong [OF r(1)]) (use False in auto)
          have o: "conserved (only t) k2" if "restored" by (rule conserved_cong [OF r(1)]) (use that in auto)
          have "conserved (\<lambda>_. 0) (addTask t ?k3)" if "restored"
            by (intro conserved_addTask [OF conserved_simple(1) [OF o [OF that]]]) auto
          with z r(3) show ?thesis by (cases restored) (auto simp: conserved_simple)
        qed
        with sys x(1) y show ?thesis by (simp add: unf Let_def)
      qed (use sys x(1) in \<open>simp add: unf\<close>)
    qed
  qed
qed

lemma conserved_post:
  assumes c: "conserved (\<lambda>_. 0) k" and q: "mq \<in> queues k" and m: "\<not> pending m k" "MSG_FIRST_SYS_TYPE \<le> ty"
    and r: "mtype r = ty"
  shows "case q_remove (waiting (msgqs (upd_msg m (\<lambda>_. r) k) mq)) of
      None \<Rightarrow> conserved (\<lambda>_. 0) (upd_mq mq (\<lambda>r. r\<lparr>messages := (m, h) # messages r\<rparr>) (upd_msg m (\<lambda>_. r) k))
    | Some (w, ws) \<Rightarrow> conserved (only w) (upd_mq mq (\<lambda>r. r\<lparr>responses := (m, h) # responses r, waiting := ws\<rparr>)
        (TASK_SETRTN w v (upd_msg m (\<lambda>_. r) k)))"
proof -
  let ?k = "upd_msg m (\<lambda>_. r) k"
  have c1: "conserved (\<lambda>_. 0) ?k" by (rule conserved_upd_msg [OF c m(1)])
  have nb: "\<not> blocking (msgs ?k m)" using m(2) r by (simp add: blocking_def not_less)
  have 1: "conserved (\<lambda>_. 0) (upd_mq mq (\<lambda>r. r\<lparr>messages := (m, h) # messages r\<rparr>) ?k)"
    using nb q by (intro conserved_upd_mq [OF c1]) (auto simp: in_queue_def)
  have 2: "conserved (only w) (upd_mq mq (\<lambda>r. r\<lparr>responses := (m, h) # responses r, waiting := ws\<rparr>) (TASK_SETRTN w v ?k))"
    if "q_remove (waiting (msgqs ?k mq)) = Some (w, ws)" for w ws
    using nb q q_remove_int [OF that]
    by (intro conserved_upd_mq [OF conserved_simple(1) [OF c1]]) (auto simp: in_queue_def)
  from 1 2 show ?thesis by (auto split: option.split)
qed

lemma conserved_sendMessage:
  assumes c: "conserved (\<lambda>_. 0) k" and h: "here < ncpus k" "i_task = NULL \<or> getCurrentTask here k = i_task"
    and hd: "hdl \<in> handling k" "iv_msgq (handlers k hdl) \<in> queues k"
    and m: "\<not> pending m k" "MSG_FIRST_SYS_TYPE \<le> ty"
  shows "conserved (\<lambda>_. 0) (sendMessage here tb hdl m ty ky data i_task k)"
proof -
  let ?mq = "iv_msgq (handlers k hdl)"
  define k1 where "k1 = (if i_task \<noteq> NULL then block i_task TASK_STATE_BLOCK_USRSPACE ky k else k)"
  define msg where "msg = \<lparr>mtype = ty, mreserved_async = True, mreserved_pseudosync = False,
    mdata0 = ky, mdata1 = data, extra_data = 0\<rparr>"
  define post where "post = (if ky \<notin> fst ` set (iv_pending (handlers k1 hdl))
    then case q_remove (waiting (msgqs (upd_msg m (\<lambda>_. msg) k1) ?mq)) of
        None \<Rightarrow> (NULL, upd_mq ?mq (\<lambda>r. r\<lparr>messages := (m, hdl) # messages r\<rparr>) (upd_msg m (\<lambda>_. msg) k1))
      | Some (waiter, ws) \<Rightarrow> (waiter, upd_mq ?mq (\<lambda>r. r\<lparr>responses := (m, hdl) # responses r, waiting := ws\<rparr>)
          (TASK_SETRTN waiter (of_nat m) (upd_msg m (\<lambda>_. msg) k1)))
    else (NULL, k1))"
  obtain ready k2 where post: "post = (ready, k2)" by (cases post) auto
  have c1: "conserved (\<lambda>_. 0) k1" using c by (simp add: k1_def conserved_simple)
  have f1: "queues k1 = queues k" "handling k1 = handling k" "ncpus k1 = ncpus k" "msgqs k1 = msgqs k"
    "getCurrentTask here k1 = getCurrentTask here k" "\<not> pending m k1"
    using m(1) by (simp_all add: k1_def pending_def)
  have c2: "conserved (only ready) k2"
    using conserved_post [OF c1 _ f1(6) m(2), of ?mq msg hdl "of_nat m"] hd(2) f1(1) post conserved_cong [OF c1, of "only NULL"]
      conserved_cong [of "\<lambda>_. 0" _ "only NULL"]
    by (auto simp: post_def msg_def split: if_splits option.splits)
  have f2: "ncpus k2 = ncpus k" "getCurrentTask here k2 = getCurrentTask here k" "handling k2 = handling k"
    using post f1 by (auto simp: post_def split: if_splits option.splits)
  define sw where "sw = (if i_task \<noteq> NULL \<and> i_task = getCurrentTask here k2
    then if ready \<noteq> NULL then (NULL, setCurrentTask here ready k2) else (NULL, setNextRunnable here tb k2) else (ready, k2))"
  obtain ready3 k3 where sw: "sw = (ready3, k3)" by (cases sw) auto
  define k4 where "k4 = (if ready3 \<noteq> NULL
    then doorbell_broadcast (setCurrentTask here ready3 (addTask (getCurrentTask here k3) k3)) else k3)"
  have unf: "sendMessage here tb hdl m ty ky data i_task k = upd_hdl hdl (\<lambda>r. r\<lparr>iv_pending := (ky, i_task) # iv_pending r\<rparr>) k4"
    unfolding sendMessage_def Let_def k1_def [symmetric] msg_def [symmetric] post_def [symmetric] post prod.case
      sw_def [symmetric] sw k4_def [symmetric] ..
  have c4: "conserved (only i_task) k4 \<and> handling k4 = handling k"
  proof (cases "i_task \<noteq> NULL \<and> i_task = getCurrentTask here k2")
    case True
    have "conserved (only i_task) (setCurrentTask here ready k2)"
      using True f2 h(1) by (intro conserved_setCurrentTask [OF c2, of here i_task]) auto
    moreover have "conserved (only i_task) (setNextRunnable here tb k2)" if "ready = NULL"
      using True f2 h(1) that by (intro conserved_setNextRunnable [OF c2, of here i_task]) auto
    moreover have "handling (setCurrentTask here ready k2) = handling k" "handling (setNextRunnable here tb k2) = handling k"
      using same_frame_setCurrentTask [of here k2 ready] same_frame_setNextRunnable [of here k2 tb] f2 h(1)
      by (simp_all add: same_frame_def)
    moreover have "ready3 = NULL" "k3 = (if ready \<noteq> NULL then setCurrentTask here ready k2 else setNextRunnable here tb k2)"
      using sw True by (auto simp: sw_def split: if_splits)
    ultimately show ?thesis by (simp add: k4_def)
  next
    case False
    then have null: "i_task = NULL" "ready3 = ready" "k3 = k2" using h(2) f2(2) sw by (auto simp: sw_def)
    have "conserved (\<lambda>_. 0) (setCurrentTask here ready (addTask (getCurrentTask here k2) k2))"
      using f2 h(1)
      by (intro conserved_setCurrentTask [OF conserved_addTask [OF c2,
              of "\<lambda>u. only ready u - only (getCurrentTask here k2) u"], of _ here "getCurrentTask here k2"]) auto
    then have "conserved (\<lambda>_. 0) k4" using null conserved_cong [OF c2, of "\<lambda>_. 0"]
      by (auto simp: k4_def conserved_simple)
    moreover have "handling k4 = handling k"
      using f2(3) null same_frame_addTask [of k2 "getCurrentTask here k2"]
      by (simp add: k4_def setCurrentTask_def doorbell_broadcast_def same_frame_def)
    ultimately show ?thesis using null conserved_cong [of "\<lambda>_. 0" k4 "only i_task"] by simp
  qed
  show ?thesis
    unfolding unf using c4 hd(1) by (intro conserved_upd_hdl [of "only i_task"]) (auto simp: in_handler_def)
qed

end
