(* ===== verification/Syscalls.thy ===== *)
theory Syscalls
  imports Messages
begin















section \<open>Each call conserves tasks\<close>



lemma run_pinned_simps [simp]:
  "getCurrentTask here (run_pinned c t k) = getCurrentTask here k" "ncpus (run_pinned c t k) = ncpus k"
  by (simp_all add: run_pinned_def getCurrentTask_def)









subsection \<open>Futexes\<close>










subsection \<open>The decrementer\<close>



section \<open>Properties\<close>







text \<open>C30. A synchronous message is a round trip. When a server waits on the queue, \<open>msg_sendrecv\<close>
  blocks the sender and runs the server on the same CPU with the message as the result of its
  \<open>msg_wait\<close>; when the server answers that message, the sender runs again with result 0, the server
  is ready, and the queue's responses are what they were.\<close>

theorem msg_round_trip:
  assumes "q_remove (waiting (msgqs k (unat (TASK_GETARG k t 0)))) = Some (server, ws)" and "server \<noteq> t"
    and "mtype (msgs k (unat (TASK_GETARG k t 1))) < MSG_FIRST_SYS_TYPE"
    and "TASK_GETARG k t 2 = 0" and "\<not> mreserved_pseudosync (msgs k (unat (TASK_GETARG k t 1)))"
  shows "let k1 = MsgSendRecv here tb t k;
      k2 = upd_task server (\<lambda>r. r\<lparr>gprs := (gprs r)(4 := TASK_GETARG k t 0, 5 := TASK_GETARG k t 1)\<rparr>) k1
    in getCurrentTask here k1 = server \<and> gprs (tasks k1 server) 3 = TASK_GETARG k t 1
      \<and> state (tasks k1 t) = TASK_STATE_BLOCK_MSG
      \<and> (\<exists>k3. MsgRespond hr here tb server k2 = Some (Inr k3) \<and> getCurrentTask here k3 = t \<and> gprs (tasks k3 t) 3 = 0
          \<and> state (tasks k3 t) = TASK_STATE_RUNNING \<and> state (tasks k3 server) = TASK_STATE_READY
          \<and> responses (msgqs k3 (unat (TASK_GETARG k t 0))) = responses (msgqs k (unat (TASK_GETARG k t 0))))"
proof -
  let ?mq = "unat (TASK_GETARG k t 0)" and ?m = "unat (TASK_GETARG k t 1)"
  let ?send = "MsgSendRecv here tb t k"
  define k2 where "k2 = upd_task server (\<lambda>r. r\<lparr>gprs := (gprs r)(4 := TASK_GETARG k t 0, 5 := TASK_GETARG k t 1)\<rparr>) ?send"
  have ty: "\<not> MSG_FIRST_SYS_TYPE \<le> mtype (msgs k ?m)" using assms(3) by simp
  have send: "?send = setCurrentTask here server (upd_task server (\<lambda>r. r\<lparr>tcpu := tcpu (tasks k t)\<rparr>)
    (upd_mq ?mq (\<lambda>r. r\<lparr>responses := (?m, t) # responses r, waiting := ws\<rparr>) (TASK_SETRTN server (TASK_GETARG k t 1)
      (block t TASK_STATE_BLOCK_MSG (TASK_GETARG k t 0)
        (upd_msg ?m (\<lambda>r. r\<lparr>mreserved_async := True, mreserved_pseudosync := False\<rparr>) k)))))"
    using assms(1,4,5) ty by (simp add: MsgSendRecv_def Let_def block_def upd_msg_def)
  have s1: "getCurrentTask here ?send = server" "gprs (tasks ?send server) 3 = TASK_GETARG k t 1"
    "state (tasks ?send t) = TASK_STATE_BLOCK_MSG"
    using assms(2) unfolding send by (simp_all add: setCurrentTask_def TASK_SETRTN_def block_def getCurrentTask_def)
  have s2: "responses (msgqs k2 ?mq) = (?m, t) # responses (msgqs k ?mq)" "mtype (msgs k2 ?m) = mtype (msgs k ?m)"
    "\<not> mreserved_pseudosync (msgs k2 ?m)" "TASK_GETARG k2 server 0 = TASK_GETARG k t 0" "TASK_GETARG k2 server 1 = TASK_GETARG k t 1"
    using assms(5) unfolding k2_def send by (simp_all add: setCurrentTask_def TASK_SETRTN_def block_def TASK_GETARG_def)
  let ?k3 = "doorbell_broadcast (addTask server (TASK_SETRTN server 0 (TASK_SETRTN t 0 (setCurrentTask here t
    (upd_task t (\<lambda>r. r\<lparr>tcpu := tcpu (tasks k2 server)\<rparr>) (upd_mq ?mq (\<lambda>r. r\<lparr>responses := responses (msgqs k ?mq)\<rparr>) k2))))))"
  have "MsgRespond hr here tb server k2 = Some (Inr ?k3)"
    using s2 ty by (simp add: MsgRespond_def Let_def)
  moreover have "getCurrentTask here ?k3 = t" "gprs (tasks ?k3 t) 3 = 0" "state (tasks ?k3 t) = TASK_STATE_RUNNING"
    "state (tasks ?k3 server) = TASK_STATE_READY" "responses (msgqs ?k3 ?mq) = responses (msgqs k ?mq)"
    using assms(2) by (simp_all add: addTask_def Let_def set_state_def run_pinned_def doorbell_broadcast_def TASK_SETRTN_def
      setCurrentTask_def getCurrentTask_def)
  ultimately show ?thesis using s1 unfolding Let_def k2_def [symmetric] by blast
qed


theorem msg_round_trip_witness:
  "let k = (tree_example [300])\<lparr>msgqs := (\<lambda>_. \<lparr>messages = [], responses = [], waiting = [32]\<rparr>),
        tasks := (\<lambda>t. (tasks (tree_example [300]) t)\<lparr>gprs := (\<lambda>_. 0)(4 := 64, 5 := 128)\<rparr>)\<rparr>
   in getCurrentTask 0 (MsgSendRecv 0 0 16 k) = 32 \<and> gprs (tasks (MsgSendRecv 0 0 16 k) 32) 3 = 128"
proof -
  let ?k = "(tree_example [300])\<lparr>msgqs := (\<lambda>_. \<lparr>messages = [], responses = [], waiting = [32]\<rparr>),
        tasks := (\<lambda>t. (tasks (tree_example [300]) t)\<lparr>gprs := (\<lambda>_. 0)(4 := 64, 5 := 128)\<rparr>)\<rparr>"
  have "TASK_GETARG ?k 16 1 = 128" "TASK_GETARG ?k 16 2 = 0" by (simp_all add: TASK_GETARG_def)
  with msg_round_trip [of ?k 16 32 "[]" 0 0 "\<lambda>_ _ _ _ _. SUCCESS"] show ?thesis
    by (simp add: Let_def q_remove_def tree_example_def sched_example_def MSG_FIRST_SYS_TYPE_def)
qed

text \<open>The hand-off of a synchronous message ignores pinning: the waiting server runs on the
  sender's CPU and belongs to it from then on, whatever its \<open>affinity_pinned\<close> count and wherever it was
  pinned. (\<open>task_affinity_pin\<close> says that it pins a task onto the CPU it executes on.)\<close>

theorem sendrecv_moves_pinned:
  assumes "q_remove (waiting (msgqs k (unat (TASK_GETARG k t 0)))) = Some (server, ws)"
    and "mtype (msgs k (unat (TASK_GETARG k t 1))) < MSG_FIRST_SYS_TYPE"
    and "0 < affinity_pinned (tasks k server)" and "tcpu (tasks k server) \<noteq> here"
  shows "getCurrentTask here (MsgSendRecv here tb t k) = server \<and> tcpu (tasks (MsgSendRecv here tb t k) server) = here
    \<and> affinity_pinned (tasks (MsgSendRecv here tb t k) server) = affinity_pinned (tasks k server)"
proof -
  have ty: "\<not> MSG_FIRST_SYS_TYPE \<le> mtype (msgs k (unat (TASK_GETARG k t 1)))" using assms(2) by simp
  show ?thesis
    using assms(1) ty
    by (simp add: MsgSendRecv_def Let_def setCurrentTask_def getCurrentTask_def TASK_SETRTN_def block_def upd_msg_def
        doorbell_broadcast_def addTask_def set_state_def run_pinned_def)
qed

theorem sendrecv_moves_pinned_witness:
  "let k = (tree_example [300])\<lparr>ncpus := 2, msgqs := (\<lambda>_. \<lparr>messages = [], responses = [], waiting = [32]\<rparr>),
        tasks := (\<lambda>t. (tasks (tree_example [300]) t)\<lparr>tcpu := if t = 32 then 1 else 0, affinity_pinned := of_bool (t = 32),
          gprs := (\<lambda>_. 0)(4 := 64, 5 := 128)\<rparr>)\<rparr>
   in affinity_pinned (tasks k 32) = 1 \<and> tcpu (tasks k 32) = 1 \<and> tcpu (tasks (MsgSendRecv 0 0 16 k) 32) = 0"
proof -
  let ?k = "(tree_example [300])\<lparr>ncpus := 2, msgqs := (\<lambda>_. \<lparr>messages = [], responses = [], waiting = [32]\<rparr>),
        tasks := (\<lambda>t. (tasks (tree_example [300]) t)\<lparr>tcpu := if t = 32 then 1 else 0, affinity_pinned := of_bool (t = 32),
          gprs := (\<lambda>_. 0)(4 := 64, 5 := 128)\<rparr>)\<rparr>"
  from sendrecv_moves_pinned [of ?k 16 32 "[]" 0 0] show ?thesis
    by (simp add: Let_def q_remove_def tree_example_def sched_example_def MSG_FIRST_SYS_TYPE_def TASK_GETARG_def)
qed

text \<open>C36. A message that was sent once with a secondary queue stays pseudo-synchronous. Sending it
  again with \<open>msg_sendrecv\<close> and no secondary queue does not block the sender (it goes on with result
  0, before any response), and the server's response to it goes through a null pointer.\<close>

theorem stale_pseudosync:
  assumes "q_remove (waiting (msgqs k (unat (TASK_GETARG k t 0)))) = Some (server, ws)" and "server \<noteq> t"
    and "mtype (msgs k (unat (TASK_GETARG k t 1))) < MSG_FIRST_SYS_TYPE"
    and "TASK_GETARG k t 2 = 0" and "mreserved_pseudosync (msgs k (unat (TASK_GETARG k t 1)))"
  shows "let k1 = MsgSendRecv here tb t k;
      k2 = upd_task server (\<lambda>r. r\<lparr>gprs := (gprs r)(4 := TASK_GETARG k t 0, 5 := TASK_GETARG k t 1)\<rparr>) k1
    in state (tasks k1 t) = TASK_STATE_READY \<and> gprs (tasks k1 t) 3 = 0
      \<and> MsgRespond hr here tb server k2 = Some (Inl NullDeref)"
proof -
  let ?mq = "unat (TASK_GETARG k t 0)" and ?m = "unat (TASK_GETARG k t 1)"
  let ?send = "MsgSendRecv here tb t k"
  define k2 where "k2 = upd_task server (\<lambda>r. r\<lparr>gprs := (gprs r)(4 := TASK_GETARG k t 0, 5 := TASK_GETARG k t 1)\<rparr>) ?send"
  have ty: "\<not> MSG_FIRST_SYS_TYPE \<le> mtype (msgs k ?m)" using assms(3) by simp
  have send: "?send = setCurrentTask here server (doorbell_broadcast (addTask t
    (upd_task server (\<lambda>r. r\<lparr>tcpu := tcpu (tasks k t)\<rparr>)
      (upd_mq ?mq (\<lambda>r. r\<lparr>responses := (?m, NULL) # responses r, waiting := ws\<rparr>) (TASK_SETRTN server (TASK_GETARG k t 1)
        (TASK_SETRTN t 0 (upd_msg ?m (\<lambda>r. r\<lparr>mreserved_async := True, mreserved_pseudosync := True\<rparr>) k)))))))"
    using assms(1,4,5) ty by (simp add: MsgSendRecv_def Let_def upd_msg_def TASK_SETRTN_def)
  have s1: "state (tasks ?send t) = TASK_STATE_READY" "gprs (tasks ?send t) 3 = 0"
    using assms(2) unfolding send
    by (simp_all add: setCurrentTask_def TASK_SETRTN_def addTask_def Let_def set_state_def run_pinned_def doorbell_broadcast_def)
  have s2: "responses (msgqs k2 ?mq) = (?m, NULL) # responses (msgqs k ?mq)" "mtype (msgs k2 ?m) = mtype (msgs k ?m)"
    "mreserved_pseudosync (msgs k2 ?m)" "TASK_GETARG k2 server 0 = TASK_GETARG k t 0" "TASK_GETARG k2 server 1 = TASK_GETARG k t 1"
    unfolding k2_def send
    by (simp_all add: setCurrentTask_def TASK_SETRTN_def TASK_GETARG_def addTask_def Let_def set_state_def run_pinned_def
        doorbell_broadcast_def)
  have "MsgRespond hr here tb server k2 = Some (Inl NullDeref)"
    using s2 ty by (simp add: MsgRespond_def Let_def)
  with s1 show ?thesis unfolding Let_def k2_def [symmetric] by blast
qed

theorem stale_pseudosync_witness:
  "let k = (tree_example [300])\<lparr>msgqs := (\<lambda>_. \<lparr>messages = [], responses = [], waiting = [32]\<rparr>),
        msgs := (\<lambda>_. (msgs sched_example 0)\<lparr>mreserved_pseudosync := True\<rparr>),
        tasks := (\<lambda>t. (tasks (tree_example [300]) t)\<lparr>gprs := (\<lambda>_. 0)(4 := 64, 5 := 128)\<rparr>)\<rparr>
   in MsgRespond (\<lambda>_ _ _ _ _. SUCCESS) 0 0 32 (upd_task 32 (\<lambda>r. r\<lparr>gprs := (gprs r)(4 := 64, 5 := 128)\<rparr>)
        (MsgSendRecv 0 0 16 k)) = Some (Inl NullDeref)"
proof -
  let ?k = "(tree_example [300])\<lparr>msgqs := (\<lambda>_. \<lparr>messages = [], responses = [], waiting = [32]\<rparr>),
        msgs := (\<lambda>_. (msgs sched_example 0)\<lparr>mreserved_pseudosync := True\<rparr>),
        tasks := (\<lambda>t. (tasks (tree_example [300]) t)\<lparr>gprs := (\<lambda>_. 0)(4 := 64, 5 := 128)\<rparr>)\<rparr>"
  have a: "TASK_GETARG ?k 16 0 = 64" "TASK_GETARG ?k 16 1 = 128" "TASK_GETARG ?k 16 2 = 0" by (simp_all add: TASK_GETARG_def)
  have "mtype (msgs ?k 128) < MSG_FIRST_SYS_TYPE" "mreserved_pseudosync (msgs ?k 128)"
    by (simp_all add: sched_example_def MSG_FIRST_SYS_TYPE_def)
  with stale_pseudosync [of ?k 16 32 "[]" 0 0 "\<lambda>_ _ _ _ _. SUCCESS", unfolded a Let_def] a show ?thesis
    by (simp add: q_remove_def Let_def)
qed

end
