(* ===== verification/Page_Manager.thy ===== *)
theory Page_Manager
  imports Intrusive_List Lockfree_Stack
begin

text \<open>
  The page allocator, \<open>kernel/pagemgr.C\<close> and \<open>include/kernel/pagemgr.H\<close>. \<open>PageManagerCore\<close> keeps
  sixteen stacks of free blocks, block \<open>n\<close> holding \<open>2^n\<close> pages; it splits larger blocks on demand and
  merges buddies in \<open>coalesce\<close>. \<open>PageManager\<close> adds the kernel's reserve heap and the statistics.
  Each lock-free stack is modelled by its contents, which is what \<open>Lockfree_Stack\<close> shows it to hold,
  and the priority queue of \<open>coalesce\<close> by its contents in removal order. The pages a heap holds are
  a multiset of page addresses, \<open>heap_pages\<close>: every operation is characterised by what it adds to or
  takes from it, so no page is lost, invented or handed out twice.
\<close>

section \<open>PageManagerCore\<close>

definition BUCKETS :: nat where
  "BUCKETS = 16"

definition MAX_HEAP_RANGES :: nat where
  "MAX_HEAP_RANGES = 4"

type_synonym buckets = "nat \<Rightarrow> addr list"
type_synonym range = "addr \<times> nat"

record pmcore =
  iv_available :: u64
  iv_supports_coalesce :: bool
  iv_heap :: buckets
  iv_ranges :: "range list"

definition pmcore_init :: "bool \<Rightarrow> pmcore" where
  "pmcore_init c = \<lparr>iv_available = 0, iv_supports_coalesce = c, iv_heap = (\<lambda>_. []),
     iv_ranges = replicate MAX_HEAP_RANGES (0, 0)\<rparr>"

definition push_stack :: "addr \<Rightarrow> nat \<Rightarrow> buckets \<Rightarrow> buckets" where
  "push_stack p n h = h(n := p # h n)"

definition push_bucket :: "addr \<Rightarrow> nat \<Rightarrow> buckets \<Rightarrow> buckets" where
  "push_bucket p n h = (if n \<ge> BUCKETS then h else push_stack p n h)"

function pop_bucket :: "nat \<Rightarrow> buckets \<Rightarrow> addr \<times> buckets" where
  "pop_bucket n h =
     (if n \<ge> BUCKETS then (NULL, h)
      else case h n of
        p # ps \<Rightarrow> (p, h(n := ps))
      | [] \<Rightarrow>
          let (p, h1) = pop_bucket (n + 1) h
          in if p \<noteq> NULL then (p, push_bucket (p + PAGESIZE * 2 ^ n) n h1) else (p, h1))"
  by pat_completeness auto
termination
  by (relation "measure (\<lambda>(n, h). BUCKETS - n)") auto

text \<open>The two nested loops of \<open>addMemory\<close>: the inner one lowers the bucket, the outer one pushes.\<close>

function add_blocks :: "nat \<Rightarrow> addr \<Rightarrow> nat \<Rightarrow> buckets \<Rightarrow> buckets" where
  "add_blocks page_length page len h =
     (if len = 0 then h
      else if len < 2 ^ page_length then add_blocks (page_length - 1) page len h
      else add_blocks page_length (page + 2 ^ page_length * PAGESIZE) (len - 2 ^ page_length)
             (push_stack page page_length h))"
  by pat_completeness auto
termination
  by (relation "measures [\<lambda>(b, p, len, h). len, \<lambda>(b, p, len, h). b]") (auto intro!: diff_less gr0I)

fun add_range :: "addr \<Rightarrow> nat \<Rightarrow> range list \<Rightarrow> kerror + range list" where
  "add_range a n [] = Inr []"
| "add_range a n ((f, sz) # rs) =
     (if f = 0 then Inr ((a, n * PAGESIZE) # rs)
      else if a \<le> f then Inl KAssert
      else case add_range a n rs of Inl e \<Rightarrow> Inl e | Inr rs' \<Rightarrow> Inr ((f, sz) # rs'))"

definition core_addMemory :: "addr \<Rightarrow> nat \<Rightarrow> pmcore \<Rightarrow> kerror + pmcore" where
  "core_addMemory i_addr i_pageCount c =
     (let h = add_blocks (BUCKETS - 1) (ALIGN_PAGE i_addr) i_pageCount (iv_heap c);
          c1 = c\<lparr>iv_heap := h\<rparr>;
          avail = iv_available c + of_nat i_pageCount
      in if iv_supports_coalesce c then
           if fst (last (iv_ranges c)) \<noteq> 0 then Inl KAssert
           else (case add_range i_addr i_pageCount (iv_ranges c) of
                   Inl e \<Rightarrow> Inl e
                 | Inr rs \<Rightarrow> Inr (c1\<lparr>iv_ranges := rs, iv_available := avail\<rparr>))
         else Inr (c1\<lparr>iv_available := avail\<rparr>))"

function free_blocks :: "addr \<Rightarrow> nat \<Rightarrow> bool \<Rightarrow> u64 \<times> buckets \<Rightarrow> u64 \<times> buckets" where
  "free_blocks i_page i_pageCount over s =
     (if i_page = NULL \<or> i_pageCount = 0 then s
      else
        let which = top_bit i_pageCount; size = 2 ^ which;
            h = push_bucket (i_page + (if over then (i_pageCount - size) * PAGESIZE else 0)) which (snd s);
            s1 = (fst s + of_nat size, h)
        in if size \<noteq> i_pageCount
           then free_blocks (i_page + (if over then 0 else size * PAGESIZE)) (i_pageCount - size) over s1
           else s1)"
  by pat_completeness auto
termination
  by (relation "measure (\<lambda>(p, n, over, s). n)") (auto simp: top_bit_le)

definition core_freePage :: "addr \<Rightarrow> nat \<Rightarrow> bool \<Rightarrow> pmcore \<Rightarrow> pmcore" where
  "core_freePage p n over c =
     (let (a, h) = free_blocks p n over (iv_available c, iv_heap c)
      in c\<lparr>iv_available := a, iv_heap := h\<rparr>)"

text \<open>The retry loop of \<open>allocatePage\<close>, with the number of attempts left.\<close>

fun pop_retry :: "nat \<Rightarrow> nat \<Rightarrow> buckets \<Rightarrow> addr \<times> buckets" where
  "pop_retry 0 b h = (NULL, h)"
| "pop_retry (Suc k) b h =
     (let (p, h1) = pop_bucket b h in if p = NULL then pop_retry k b h1 else (p, h1))"

definition core_allocatePage :: "nat \<Rightarrow> pmcore \<Rightarrow> addr \<times> pmcore" where
  "core_allocatePage i_pageCount c =
     (let wb = top_bit i_pageCount;
          which = (if 2 ^ wb \<noteq> i_pageCount then wb + 1 else wb);
          size = 2 ^ which;
          (page, h) = pop_retry 6 which (iv_heap c);
          c1 = c\<lparr>iv_heap := h\<rparr>
      in if page \<noteq> NULL then
           let c2 = c1\<lparr>iv_available := iv_available c1 - of_nat size\<rparr>
           in (page, if size \<noteq> i_pageCount
                     then core_freePage (page + i_pageCount * PAGESIZE) (size - i_pageCount) True c2
                     else c2)
         else (page, c1))"

definition core_getFreePageCount :: "pmcore \<Rightarrow> u64" where
  "core_getFreePageCount c = iv_available c"

fun find_range :: "range list \<Rightarrow> addr \<Rightarrow> range option" where
  "find_range [] a = None"
| "find_range ((f, sz) # rs) a = (if f \<le> a \<and> a < f + sz then Some (f, sz) else find_range rs a)"

text \<open>
  One pass of \<open>coalesce\<close> over the blocks of bucket \<open>b\<close>, in address order as the priority queue
  delivers them; \<open>c\<close> counts the merges.
\<close>

fun merge_bucket :: "range list \<Rightarrow> nat \<Rightarrow> addr list \<Rightarrow> u64 \<times> buckets \<Rightarrow> kerror + u64 \<times> buckets" where
  "merge_bucket rs b [] s = Inr s"
| "merge_bucket rs b (p # pq) s =
     (case find_range rs p of
        None \<Rightarrow> Inl KAssert
      | Some (f, sz) \<Rightarrow>
          let p_idx = (p - f) div (2 ^ b * PAGESIZE)
          in if p_idx mod 2 \<noteq> 0 then merge_bucket rs b pq (fst s, push_stack p b (snd s))
             else
               let p_seek = p + 2 ^ b * PAGESIZE
               in case pq of
                    [] \<Rightarrow> merge_bucket rs b [] (fst s, push_stack p b (snd s))
                  | p_next # pq' \<Rightarrow>
                      if p_next \<le> p_seek then
                        if p_next = p_seek
                        then merge_bucket rs b pq' (fst s + 1, push_bucket p (b + 1) (snd s))
                        else merge_bucket rs b pq'
                               (fst s, push_stack p_next b (push_stack p b (snd s)))
                      else merge_bucket rs b pq (fst s, push_stack p b (snd s)))"

text \<open>Moving a bucket into the priority queue: pop until empty, insert each block.\<close>

fun drain_bucket :: "addr list \<Rightarrow> addr list \<Rightarrow> addr list" where
  "drain_bucket [] pq = pq"
| "drain_bucket (p # ps) pq = drain_bucket ps (insort p pq)"

fun coalesce_buckets :: "range list \<Rightarrow> nat list \<Rightarrow> u64 \<times> buckets \<Rightarrow> kerror + u64 \<times> buckets" where
  "coalesce_buckets rs [] s = Inr s"
| "coalesce_buckets rs (b # bs) s =
     (case merge_bucket rs b (drain_bucket (snd s b) []) (fst s, (snd s)(b := [])) of
        Inl e \<Rightarrow> Inl e
      | Inr s1 \<Rightarrow> coalesce_buckets rs bs s1)"

definition core_coalesce :: "u64 \<times> pmcore \<Rightarrow> kerror + u64 \<times> pmcore" where
  "core_coalesce s = (case s of (n, c) \<Rightarrow>
     if \<not> iv_supports_coalesce c then Inr (n, c)
     else case coalesce_buckets (iv_ranges c) [0..<BUCKETS - 1] (n, iv_heap c) of
            Inl e \<Rightarrow> Inl e
          | Inr (n', h) \<Rightarrow> Inr (n', c\<lparr>iv_heap := h\<rparr>))"

declare pop_bucket.simps [simp del] add_blocks.simps [simp del] free_blocks.simps [simp del]

section \<open>PageManager\<close>

definition KERNEL_HEAP_RESERVED_PAGES :: nat where
  "KERNEL_HEAP_RESERVED_PAGES = 10"

text \<open>
  \<open>forced\<close> counts the calls of \<open>CpuManager::forceMemoryPeriodic\<close>; the other fields are the members
  and the static counters of the class.
\<close>

record pagemgr =
  iv_pagesAvail :: u64
  iv_pagesTotal :: u64
  heap :: pmcore
  heapKernel :: pmcore
  cv_coalesce_count :: u64
  cv_low_page_count :: u64
  forced :: nat

definition pm_allocatePage :: "nat \<Rightarrow> bool \<Rightarrow> bool \<Rightarrow> pagemgr \<Rightarrow> kerror + addr \<times> pagemgr" where
  "pm_allocatePage n userspace allowOom s =
     (let (page0, c) = core_allocatePage n (heap s);
          s1 = s\<lparr>heap := c\<rparr>;
          (page, s2) =
            (if page0 = NULL \<and> \<not> userspace then
               (let (pk, ck) = core_allocatePage n (heapKernel s1)
                in (pk, s1\<lparr>heapKernel := ck, forced := Suc (forced s1)\<rparr>))
             else (page0, s1))
      in if page = NULL \<and> \<not> userspace \<and> \<not> allowOom then Inl KAssert
         else if page \<noteq> NULL then
           (let a = iv_pagesAvail s2 - of_nat n
            in Inr (page, s2\<lparr>iv_pagesAvail := a,
                 cv_low_page_count := (if a < cv_low_page_count s2 then a else cv_low_page_count s2)\<rparr>))
         else Inr (page, s2))"

definition pm_freePage :: "addr \<Rightarrow> nat \<Rightarrow> pagemgr \<Rightarrow> kerror + pagemgr" where
  "pm_freePage p n s =
     (let s1 = s\<lparr>heap := core_freePage p n False (heap s), iv_pagesAvail := iv_pagesAvail s + of_nat n\<rparr>
      in if core_getFreePageCount (heapKernel s1) < of_nat KERNEL_HEAP_RESERVED_PAGES then
           (let (page, c) = core_allocatePage 1 (heap s1); s2 = s1\<lparr>heap := c\<rparr>
            in if page \<noteq> NULL then
                 (case core_addMemory page 1 (heapKernel s2) of
                    Inl e \<Rightarrow> Inl e
                  | Inr ck \<Rightarrow> Inr (s2\<lparr>heapKernel := ck\<rparr>))
               else Inr s2)
         else Inr s1)"

definition pm_coalesce :: "pagemgr \<Rightarrow> kerror + pagemgr" where
  "pm_coalesce s =
     (case core_coalesce (cv_coalesce_count s, heap s) of
        Inl e \<Rightarrow> Inl e
      | Inr (n, c) \<Rightarrow> Inr (s\<lparr>cv_coalesce_count := n, heap := c\<rparr>))"

definition pm_addMemory :: "addr \<Rightarrow> nat \<Rightarrow> pagemgr \<Rightarrow> kerror + pagemgr" where
  "pm_addMemory a n s =
     (case core_addMemory a n (heap s) of
        Inl e \<Rightarrow> Inl e
      | Inr c \<Rightarrow> Inr (s\<lparr>heap := c, iv_pagesAvail := iv_pagesAvail s + of_nat n,
                       iv_pagesTotal := iv_pagesTotal s + of_nat n\<rparr>))"

definition pm_queryAvail :: "pagemgr \<Rightarrow> u64" where
  "pm_queryAvail s = (100 * iv_pagesAvail s) div iv_pagesTotal s"

definition pm_availPages :: "pagemgr \<Rightarrow> u64" where
  "pm_availPages s = iv_pagesAvail s"

definition pm_isSmallMemEnv :: "pagemgr \<Rightarrow> bool" where
  "pm_isSmallMemEnv s \<longleftrightarrow> iv_pagesTotal s < 0xE00"

text \<open>
  \<open>PageManager::_initialize\<close>, run by the constructor: the three ranges of the cache that hold no
  image, page table or bootloader become the heap, and ten pages of it the kernel's reserve.
  \<open>preservedEnd\<close> is the end of the data preserved from the boot loader
  (\<open>_BlToHbPreserveDataOffset() + getPreservedSize()\<close>) and \<open>hbCacheSize\<close> is \<open>getHbCacheSizeBytes()\<close>,
  both read from the boot loader's data.
\<close>

definition MEGABYTE :: nat where
  "MEGABYTE = 1024 * 1024"

definition SINGLE_CACHE_SIZE_BYTES :: nat where
  "SINGLE_CACHE_SIZE_BYTES = 4 * MEGABYTE"

definition PTSIZE :: nat where
  "PTSIZE = 256 * 1024"

definition PT_ALIGNMENT :: nat where
  "PT_ALIGNMENT = 256 * 1024"

definition VMM_OCC_BOOTLOADER_SIZE :: nat where
  "VMM_OCC_BOOTLOADER_SIZE = PAGESIZE"

definition endPreservedOffset :: "addr \<Rightarrow> addr" where
  "endPreservedOffset preservedEnd = ALIGN_PAGE preservedEnd"

definition pageTableOffset :: "addr \<Rightarrow> addr" where
  "pageTableOffset preservedEnd = ALIGN_X (endPreservedOffset preservedEnd) PT_ALIGNMENT"

definition pm_initialize :: "addr \<Rightarrow> nat \<Rightarrow> kerror + pagemgr" where
  "pm_initialize preservedEnd hbCacheSize =
     (let l_endPreservedArea = endPreservedOffset preservedEnd;
          l_pageTableOffset = pageTableOffset preservedEnd;
          l_endPageTable = l_pageTableOffset + PTSIZE;
          gap = sub64 l_pageTableOffset l_endPreservedArea;
          pages1 = (if gap > 0 then gap div PAGESIZE else 0);
          pages2 = sub64 SINGLE_CACHE_SIZE_BYTES l_endPageTable div PAGESIZE;
          l_endInitCache = SINGLE_CACHE_SIZE_BYTES + VMM_OCC_BOOTLOADER_SIZE;
          pages3 = sub64 hbCacheSize l_endInitCache div PAGESIZE;
          totalPages = of_nat (pages1 + pages2 + pages3)
      in sbind (if gap > 0 then core_addMemory l_endPreservedArea pages1 (pmcore_init True)
                else Inr (pmcore_init True)) (\<lambda>c1.
         sbind (core_addMemory l_endPageTable pages2 c1) (\<lambda>c2.
         sbind (core_addMemory l_endInitCache pages3 c2) (\<lambda>c3.
         let (page, c4) = core_allocatePage KERNEL_HEAP_RESERVED_PAGES c3
         in sbind (core_addMemory page KERNEL_HEAP_RESERVED_PAGES (pmcore_init False)) (\<lambda>ck.
              Inr \<lparr>iv_pagesAvail = totalPages, iv_pagesTotal = totalPages, heap = c4,
                heapKernel = ck, cv_coalesce_count = 0, cv_low_page_count = totalPages,
                forced = 0\<rparr>)))))"

section \<open>Pages held by a heap\<close>

definition pages :: "addr \<Rightarrow> nat \<Rightarrow> addr list" where
  "pages p k = map (\<lambda>i. p + i * PAGESIZE) [0..<k]"

definition bucket_pages :: "nat \<Rightarrow> addr list \<Rightarrow> addr multiset" where
  "bucket_pages n ps = sum_list (map (\<lambda>p. mset (pages p (2 ^ n))) ps)"

definition heap_pages :: "buckets \<Rightarrow> addr multiset" where
  "heap_pages h = (\<Sum>n<BUCKETS. bucket_pages n (h n))"

definition no_null :: "buckets \<Rightarrow> bool" where
  "no_null h \<longleftrightarrow> (\<forall>n<BUCKETS. NULL \<notin> set (h n))"

lemma pages_0 [simp]: "pages p 0 = []"
  by (simp add: pages_def)

lemma length_pages [simp]: "length (pages p k) = k"
  by (simp add: pages_def)

lemma pages_add: "pages p (a + b) = pages p a @ pages (p + a * PAGESIZE) b"
proof -
  have "[0..<a + b] = [0..<a] @ map (\<lambda>i. i + a) [0..<b]"
    by (simp add: map_add_upt upt_add_eq_append [of 0 a b, simplified] add.commute)
  then show ?thesis by (simp add: pages_def algebra_simps)
qed

lemma bucket_pages_simps [simp]:
  "bucket_pages n [] = {#}"
  "bucket_pages n (p # ps) = mset (pages p (2 ^ n)) + bucket_pages n ps"
  by (simp_all add: bucket_pages_def)

lemma heap_pages_upd:
  "n < BUCKETS \<Longrightarrow> heap_pages (h(n := ps)) + bucket_pages n (h n) = heap_pages h + bucket_pages n ps"
  unfolding heap_pages_def
  by (subst (1 2) sum.remove [of "{..<BUCKETS}" n]) (auto intro!: arg_cong2 [of _ _ _ _ "(+)"] sum.cong)

lemma heap_pages_push:
  "n < BUCKETS \<Longrightarrow> heap_pages (push_stack p n h) = heap_pages h + mset (pages p (2 ^ n))"
  using heap_pages_upd [of n h "p # h n"] by (simp add: push_stack_def)

lemma heap_pages_push_bucket:
  "n < BUCKETS \<Longrightarrow> heap_pages (push_bucket p n h) = heap_pages h + mset (pages p (2 ^ n))"
  by (simp add: push_bucket_def heap_pages_push)

lemma no_null_push [simp]: "p \<noteq> NULL \<Longrightarrow> no_null h \<Longrightarrow> no_null (push_stack p n h)"
  by (simp add: no_null_def push_stack_def)

lemma no_null_push_bucket [simp]: "p \<noteq> NULL \<Longrightarrow> no_null h \<Longrightarrow> no_null (push_bucket p n h)"
  by (simp add: push_bucket_def)

subsection \<open>Splitting\<close>

lemma pop_bucket_ge [simp]: "BUCKETS \<le> n \<Longrightarrow> pop_bucket n h = (NULL, h)"
  by (simp add: pop_bucket.simps)

lemma pop_bucket_Cons: "n < BUCKETS \<Longrightarrow> h n = p # ps \<Longrightarrow> pop_bucket n h = (p, h(n := ps))"
  by (simp add: pop_bucket.simps)

lemma pop_bucket_Nil:
  "n < BUCKETS \<Longrightarrow> h n = [] \<Longrightarrow> pop_bucket n h =
     (let (p, h1) = pop_bucket (n + 1) h
      in if p \<noteq> NULL then (p, push_bucket (p + PAGESIZE * 2 ^ n) n h1) else (p, h1))"
  by (simp add: pop_bucket.simps [of n h])

lemma pop_bucket_NULL:
  "no_null h \<Longrightarrow> pop_bucket n h = (NULL, h') \<Longrightarrow>
     h' = h \<and> (\<forall>k. n \<le> k \<longrightarrow> k < BUCKETS \<longrightarrow> h k = [])"
proof (induction n h arbitrary: h' rule: pop_bucket.induct)
  case (1 n h)
  show ?case
  proof (cases "n < BUCKETS")
    case True
    show ?thesis
    proof (cases "h n")
      case (Cons p ps)
      with True have "pop_bucket n h = (p, h(n := ps))" by (rule pop_bucket_Cons)
      with "1.prems" have "p = NULL" by simp
      with True Cons "1.prems" have False by (auto simp: no_null_def dest: spec [of _ n])
      then show ?thesis ..
    next
      case Nil
      obtain p h1 where r: "pop_bucket (n + 1) h = (p, h1)" by fastforce
      with pop_bucket_Nil [of n h, OF True Nil] "1.prems" have p: "p = NULL" "h' = h1"
        by (auto split: if_splits)
      from "1.IH" [of h1] "1.prems" r True Nil p
      have "h1 = h \<and> (\<forall>k. n + 1 \<le> k \<longrightarrow> k < BUCKETS \<longrightarrow> h k = [])" by simp
      moreover have "h k = []" if "n \<le> k" "k < BUCKETS" for k
        using that calculation Nil by (cases "k = n") auto
      ultimately show ?thesis using p by simp
    qed
  qed (use 1 in simp)
qed

lemma pop_bucket_takes:
  "no_null h \<Longrightarrow> pop_bucket n h = (p, h') \<Longrightarrow> p \<noteq> NULL \<Longrightarrow>
     n < BUCKETS \<and> no_null h' \<and> heap_pages h = heap_pages h' + mset (pages p (2 ^ n))"
proof (induction n h arbitrary: p h' rule: pop_bucket.induct)
  case (1 n h)
  have n: "n < BUCKETS" using "1.prems" by (cases "n < BUCKETS") auto
  show ?case
  proof (cases "h n")
    case (Cons q qs)
    with n have "pop_bucket n h = (q, h(n := qs))" by (rule pop_bucket_Cons)
    with "1.prems" have eqs: "p = q" "h' = h(n := qs)" by simp_all
    moreover have "heap_pages h = heap_pages (h(n := qs)) + mset (pages q (2 ^ n))"
      using n Cons heap_pages_upd [of n h qs] by simp
    moreover have "no_null (h(n := qs))"
      using n Cons "1.prems" by (auto simp: no_null_def dest: spec [of _ n])
    ultimately show ?thesis using n unfolding eqs by blast
  next
    case Nil
    obtain q h1 where r: "pop_bucket (n + 1) h = (q, h1)" by fastforce
    with pop_bucket_Nil [of n h, OF n Nil] "1.prems" have p: "p = q" "q \<noteq> NULL"
      and h': "h' = push_bucket (p + PAGESIZE * 2 ^ n) n h1"
      by (auto split: if_splits)
    from "1.IH" [of q h1] "1.prems" r n Nil p
    have IH: "no_null h1" "heap_pages h = heap_pages h1 + mset (pages q (2 ^ (n + 1)))" by auto
    have "pages q (2 ^ (n + 1)) = pages q (2 ^ n) @ pages (q + PAGESIZE * 2 ^ n) (2 ^ n)"
      using pages_add [of q "2 ^ n" "2 ^ n"] by (simp add: mult.commute mult_2)
    with IH n p h' show ?thesis by (simp add: heap_pages_push_bucket)
  qed
qed

lemma pop_retry_eq: "no_null h \<Longrightarrow> pop_retry (Suc k) b h = pop_bucket b h"
proof (induction k)
  case (Suc k)
  obtain p h1 where r: "pop_bucket b h = (p, h1)" by fastforce
  show ?case
  proof (cases "p = NULL")
    case True
    with r Suc pop_bucket_NULL have "h1 = h" by blast
    with r True Suc show ?thesis by simp
  qed (use r in simp)
qed (simp split: prod.split)

subsection \<open>Freeing and adding\<close>

lemma free_blocks_adds:
  "i_page \<noteq> NULL \<Longrightarrow> n < 2 ^ BUCKETS \<Longrightarrow> no_null (snd s) \<Longrightarrow>
     fst (free_blocks i_page n over s) = fst s + of_nat n
     \<and> no_null (snd (free_blocks i_page n over s))
     \<and> heap_pages (snd (free_blocks i_page n over s)) = heap_pages (snd s) + mset (pages i_page n)"
proof (induction i_page n over s rule: free_blocks.induct)
  case (1 p n over s)
  show ?case
  proof (cases "n = 0")
    case True
    with 1 show ?thesis by (simp add: free_blocks.simps)
  next
    case False
    let ?w = "top_bit n" and ?k = "2 ^ top_bit n"
    let ?q = "p + (if over then (n - ?k) * PAGESIZE else 0)"
    let ?r = "p + (if over then 0 else ?k * PAGESIZE)"
    let ?h = "push_bucket ?q ?w (snd s)"
    have k: "?k \<le> n" "?w < BUCKETS" using False "1.prems" by (auto intro: top_bit_le top_bit_bound)
    have parts: "mset (pages p n) = mset (pages ?q ?k) + mset (pages ?r (n - ?k))"
    proof (cases over)
      case True
      with arg_cong [OF pages_add [of p "n - ?k" ?k], of mset] k(1) show ?thesis by (simp add: add.commute)
    next
      case False
      with pages_add [of p ?k "n - ?k"] k(1) show ?thesis by simp
    qed
    have h: "heap_pages ?h = heap_pages (snd s) + mset (pages ?q ?k)" "no_null ?h"
      using k(2) "1.prems" by (simp_all add: heap_pages_push_bucket)
    show ?thesis
    proof (cases "?k = n")
      case True
      with False "1.prems" h parts show ?thesis
        by (subst (1 2 3) free_blocks.simps) (simp add: Let_def)
    next
      case neq: False
      have eq: "free_blocks p n over s = free_blocks ?r (n - ?k) over (fst s + of_nat ?k, ?h)"
        using False neq "1.prems" by (subst free_blocks.simps) (simp add: Let_def)
      have "fst (free_blocks ?r (n - ?k) over (fst s + of_nat ?k, ?h)) = fst s + of_nat ?k + of_nat (n - ?k)
        \<and> no_null (snd (free_blocks ?r (n - ?k) over (fst s + of_nat ?k, ?h)))
        \<and> heap_pages (snd (free_blocks ?r (n - ?k) over (fst s + of_nat ?k, ?h)))
            = heap_pages ?h + mset (pages ?r (n - ?k))"
        using "1.IH" [OF _ refl refl refl refl] False neq "1.prems" h(2) by (auto simp: less_imp_diff_less)
      moreover have "(of_nat ?k + of_nat (n - ?k) :: u64) = of_nat n"
        using k(1) by (metis le_add_diff_inverse of_nat_add)
      ultimately show ?thesis using h parts unfolding eq by (simp add: add.assoc)
    qed
  qed
qed

lemma add_blocks_adds:
  "page_length < BUCKETS \<Longrightarrow> page \<noteq> NULL \<Longrightarrow> no_null h \<Longrightarrow>
     no_null (add_blocks page_length page len h)
     \<and> heap_pages (add_blocks page_length page len h) = heap_pages h + mset (pages page len)"
proof (induction page_length page len h rule: add_blocks.induct)
  case (1 b p n h)
  consider "n = 0" | "n \<noteq> 0" "n < 2 ^ b" | "n \<noteq> 0" "2 ^ b \<le> n" by linarith
  then show ?case
  proof cases
    case 1
    then show ?thesis using "1.prems" by (simp add: add_blocks.simps)
  next
    case 2
    with "1.IH"(1) "1.prems" have "no_null (add_blocks (b - 1) p n h)
      \<and> heap_pages (add_blocks (b - 1) p n h) = heap_pages h + mset (pages p n)" by simp
    with 2 show ?thesis by (simp add: add_blocks.simps [of b p n h])
  next
    case 3
    let ?h = "push_stack p b h" and ?q = "p + 2 ^ b * PAGESIZE" and ?m = "n - 2 ^ b"
    have "no_null (add_blocks b ?q ?m ?h)
      \<and> heap_pages (add_blocks b ?q ?m ?h) = heap_pages ?h + mset (pages ?q ?m)"
      using "1.IH"(2) 3 "1.prems" by simp
    moreover have "pages p n = pages p (2 ^ b) @ pages ?q ?m"
      using 3 pages_add [of p "2 ^ b" ?m] by simp
    ultimately show ?thesis using 3 "1.prems"
      by (simp add: add_blocks.simps [of b p n h] heap_pages_push)
  qed
qed

lemma ALIGN_PAGE_id: "PAGESIZE dvd a \<Longrightarrow> ALIGN_PAGE a = a"
  by (simp add: ALIGN_PAGE_def ALIGN_X_id)

subsection \<open>The core's invariant\<close>

definition core_inv :: "pmcore \<Rightarrow> bool" where
  "core_inv c \<longleftrightarrow> no_null (iv_heap c) \<and> iv_available c = of_nat (size (heap_pages (iv_heap c)))"

definition core_pages :: "pmcore \<Rightarrow> addr multiset" where
  "core_pages c = heap_pages (iv_heap c)"

lemma core_init_inv [simp]: "core_inv (pmcore_init b)" "core_pages (pmcore_init b) = {#}"
  by (simp_all add: core_inv_def core_pages_def pmcore_init_def no_null_def heap_pages_def)

lemma core_freePage_spec:
  assumes "core_inv c" "p \<noteq> NULL" "n < 2 ^ BUCKETS"
  shows "core_inv (core_freePage p n over c)"
    and "core_pages (core_freePage p n over c) = core_pages c + mset (pages p n)"
    and "iv_supports_coalesce (core_freePage p n over c) = iv_supports_coalesce c"
    and "iv_ranges (core_freePage p n over c) = iv_ranges c"
  using free_blocks_adds [of p n "(iv_available c, iv_heap c)" over] assms
  by (auto simp: core_inv_def core_pages_def core_freePage_def split: prod.split)

text \<open>The bucket a request is served from: the least power of two that is large enough.\<close>

definition req_bucket :: "nat \<Rightarrow> nat" where
  "req_bucket n = (if 2 ^ top_bit n \<noteq> n then top_bit n + 1 else top_bit n)"

lemma req_bucket_ge: "0 < n \<Longrightarrow> n \<le> 2 ^ req_bucket n"
  using top_bit_less [of n] by (simp add: req_bucket_def)

lemma req_bucket_least: "0 < n \<Longrightarrow> n \<le> 2 ^ b \<Longrightarrow> req_bucket n \<le> b"
proof -
  assume n: "0 < n" "n \<le> 2 ^ b"
  show ?thesis
  proof (cases "2 ^ top_bit n = n")
    case True
    with n have "(2::nat) ^ top_bit n \<le> 2 ^ b" by simp
    then have "top_bit n \<le> b" using power_le_imp_le_exp [of "2::nat" "top_bit n" b] by simp
    with True show ?thesis by (simp add: req_bucket_def)
  next
    case False
    with n top_bit_le [of n] have "(2::nat) ^ top_bit n < 2 ^ b" by linarith
    with False show ?thesis by (simp add: req_bucket_def Suc_le_eq)
  qed
qed

lemma core_allocatePage_eq:
  assumes "core_inv c"
  shows "core_allocatePage n c =
    (let (p, h) = pop_bucket (req_bucket n) (iv_heap c); sz = 2 ^ req_bucket n;
         c1 = c\<lparr>iv_heap := h, iv_available := iv_available c - of_nat sz\<rparr>
     in if p = NULL then (NULL, c\<lparr>iv_heap := h\<rparr>)
        else (p, if sz \<noteq> n then core_freePage (p + n * PAGESIZE) (sz - n) True c1 else c1))"
proof -
  have "pop_retry 6 b (iv_heap c) = pop_bucket b (iv_heap c)" for b
    using pop_retry_eq [of "iv_heap c" 5 b] assms by (simp add: core_inv_def numeral_eq_Suc)
  then show ?thesis
    unfolding core_allocatePage_def Let_def req_bucket_def [symmetric]
    by (simp split: prod.split)
qed

lemma core_allocatePage_NULL:
  assumes "core_inv c" "core_allocatePage n c = (NULL, c')"
  shows "c' = c" and "\<forall>k. req_bucket n \<le> k \<longrightarrow> k < BUCKETS \<longrightarrow> iv_heap c k = []"
proof -
  obtain p h where r: "pop_bucket (req_bucket n) (iv_heap c) = (p, h)" by fastforce
  with assms have "p = NULL" "c' = c\<lparr>iv_heap := h\<rparr>"
    by (auto simp: core_allocatePage_eq Let_def split: if_splits)
  with r pop_bucket_NULL [of "iv_heap c" "req_bucket n" h] assms(1)
  show "c' = c" and "\<forall>k. req_bucket n \<le> k \<longrightarrow> k < BUCKETS \<longrightarrow> iv_heap c k = []"
    by (auto simp: core_inv_def)
qed

lemma core_allocatePage_takes:
  assumes inv: "core_inv c" and n: "0 < n" and a: "core_allocatePage n c = (p, c')" "p \<noteq> NULL"
  shows "core_inv c'" and "core_pages c = core_pages c' + mset (pages p n)"
    and "iv_supports_coalesce c' = iv_supports_coalesce c" and "iv_ranges c' = iv_ranges c"
    and "n < 2 ^ BUCKETS"
proof -
  let ?b = "req_bucket n" and ?sz = "2 ^ req_bucket n"
  obtain h where r: "pop_bucket ?b (iv_heap c) = (p, h)"
    using a by (auto simp: core_allocatePage_eq [OF inv] Let_def split: prod.splits if_splits)
  let ?c1 = "c\<lparr>iv_heap := h, iv_available := iv_available c - of_nat ?sz\<rparr>"
  have c': "c' = (if ?sz \<noteq> n then core_freePage (p + n * PAGESIZE) (?sz - n) True ?c1 else ?c1)"
    using a r by (simp add: core_allocatePage_eq [OF inv] Let_def)
  from pop_bucket_takes [OF _ r a(2)] inv
  have t: "?b < BUCKETS" "no_null h" "heap_pages (iv_heap c) = heap_pages h + mset (pages p ?sz)"
    by (auto simp: core_inv_def)
  then have c1: "core_inv ?c1" "core_pages c = core_pages ?c1 + mset (pages p ?sz)"
    using inv by (simp_all add: core_inv_def core_pages_def)
  have le: "n \<le> ?sz" using n by (rule req_bucket_ge)
  have "(2::nat) ^ ?b < 2 ^ BUCKETS" using t(1) by simp
  with n le have lt: "?sz - n < 2 ^ BUCKETS" and "n < 2 ^ BUCKETS" by linarith+
  then show "n < 2 ^ BUCKETS" by simp
  have sp: "mset (pages p ?sz) = mset (pages p n) + mset (pages (p + n * PAGESIZE) (?sz - n))"
    using pages_add [of p n "?sz - n"] le by simp
  have "core_inv c' \<and> core_pages c = core_pages c' + mset (pages p n)
    \<and> iv_supports_coalesce c' = iv_supports_coalesce c \<and> iv_ranges c' = iv_ranges c"
  proof (cases "?sz = n")
    case True
    then have "c' = ?c1" using c' by simp
    moreover have "mset (pages p ?sz) = mset (pages p n)" using True by (rule arg_cong)
    ultimately show ?thesis using c1 by (simp del: of_nat_power)
  next
    case False
    then have "c' = core_freePage (p + n * PAGESIZE) (?sz - n) True ?c1" using c' by simp
    with core_freePage_spec [OF c1(1) _ lt, of "p + n * PAGESIZE" True] c1(2) sp a(2) show ?thesis
      by (simp add: add.assoc add.commute del: of_nat_power)
  qed
  then show "core_inv c'" and "core_pages c = core_pages c' + mset (pages p n)"
    and "iv_supports_coalesce c' = iv_supports_coalesce c" and "iv_ranges c' = iv_ranges c"
    by auto
qed

subsection \<open>Merging\<close>

lemma bucket_pages_mset: "mset xs = mset ys \<Longrightarrow> bucket_pages n xs = bucket_pages n ys"
  by (metis bucket_pages_def mset_map sum_mset_sum_list)

lemma mset_drain_bucket [simp]: "mset (drain_bucket ps pq) = mset ps + mset pq"
  by (induction ps pq rule: drain_bucket.induct) auto

lemma set_drain_bucket [simp]: "set (drain_bucket ps pq) = set ps \<union> set pq"
  by (metis mset_drain_bucket set_mset_mset set_mset_union)

lemma sorted_drain_bucket: "sorted pq \<Longrightarrow> sorted (drain_bucket ps pq)"
  by (induction ps pq rule: drain_bucket.induct) (auto simp: sorted_insort)

lemma pages_double: "mset (pages p (2 ^ b)) + mset (pages (p + 2 ^ b * PAGESIZE) (2 ^ b)) = mset (pages p (2 ^ (b + 1)))"
  using pages_add [of p "2 ^ b" "2 ^ b"] by (simp add: mult_2)

text \<open>
  The queue of \<open>coalesce\<close> is the pointer-level \<open>PQueue\<close> of \<open>Intrusive_List\<close> with each block's own
  address as its key: inserting there places a block where \<open>insort\<close> does.
\<close>

lemma pq_place_is_insort:
  assumes "desc m xs" "\<And>a. key (m a) = a"
  shows "rev (pq_place m x xs) = insort x (rev xs)"
proof -
  have srt: "sorted (rev ys)" if "desc m ys" for ys
    using that by (induction ys) (auto simp: desc_def sorted_append assms(2))
  have "mset (rev (pq_place m x xs)) = mset (insort x (rev xs))"
    by (simp add: mset_pq_place)
  moreover have "sorted (rev (pq_place m x xs))" "sorted (insort x (rev xs))"
    using srt desc_pq_place assms(1) by (auto simp: sorted_insort)
  ultimately show ?thesis by (metis properties_for_sort)
qed

text \<open>
  A block is \<open>even\<close> if its index, counted in blocks of its size from the start of its memory range,
  is. The rule below is the induction that follows the merging loop: a block is kept, joined with
  its buddy, or kept together with an overlapping successor.
\<close>

definition even_block :: "range list \<Rightarrow> nat \<Rightarrow> addr \<Rightarrow> bool" where
  "even_block rs b p \<longleftrightarrow> (case find_range rs p of None \<Rightarrow> False
     | Some (f, sz) \<Rightarrow> (p - f) div (2 ^ b * PAGESIZE) mod 2 = 0)"

lemma merge_bucket_rule [consumes 1, case_names nil keep join overlap]:
  assumes run: "merge_bucket rs b pq s = Inr s'"
    and nil: "P [] s'"
    and keep: "\<And>p pq s. (even_block rs b p \<Longrightarrow> pq = [] \<or> p + 2 ^ b * PAGESIZE < hd pq) \<Longrightarrow>
      P pq (fst s, push_stack p b (snd s)) \<Longrightarrow> P (p # pq) s"
    and join: "\<And>p qs s. even_block rs b p \<Longrightarrow>
      P qs (fst s + 1, push_bucket p (b + 1) (snd s)) \<Longrightarrow> P (p # (p + 2 ^ b * PAGESIZE) # qs) s"
    and overlap: "\<And>p q qs s. q < p + 2 ^ b * PAGESIZE \<Longrightarrow>
      P qs (fst s, push_stack q b (push_stack p b (snd s))) \<Longrightarrow> P (p # q # qs) s"
  shows "P pq s"
  using run
proof (induction pq arbitrary: s rule: length_induct)
  case (1 pq)
  show ?case
  proof (cases pq)
    case Nil
    with 1 nil show ?thesis by simp
  next
    case (Cons p ps)
    with 1 obtain f sz where fr: "find_range rs p = Some (f, sz)" by (auto split: option.splits)
    have IH: "P qs t" if "length qs < length pq" "merge_bucket rs b qs t = Inr s'" for qs t
      using 1 that by blast
    show ?thesis
    proof (cases "even_block rs b p")
      case False
      with fr Cons 1 have "P ps (fst s, push_stack p b (snd s))"
        by (intro IH) (auto simp: even_block_def)
      with False Cons keep show ?thesis by blast
    next
      case True
      then have ev: "(p - f) div (2 ^ b * PAGESIZE) mod 2 = 0" using fr by (simp add: even_block_def)
      show ?thesis
      proof (cases ps)
        case Nil
        with fr ev Cons 1 have "P ps (fst s, push_stack p b (snd s))" by (intro IH) auto
        with Nil Cons keep show ?thesis by blast
      next
        case (Cons q qs)
        have run: "merge_bucket rs b (p # q # qs) s = Inr s'" using 1 Cons \<open>pq = p # ps\<close> by simp
        consider "p + 2 ^ b * PAGESIZE < q" | "q = p + 2 ^ b * PAGESIZE" | "q < p + 2 ^ b * PAGESIZE"
          by linarith
        then show ?thesis
        proof cases
          case 1
          with run fr ev have "merge_bucket rs b (q # qs) (fst s, push_stack p b (snd s)) = Inr s'"
            by simp
          then have "P (q # qs) (fst s, push_stack p b (snd s))"
            using Cons \<open>pq = p # ps\<close> by (intro IH) auto
          with 1 Cons \<open>pq = p # ps\<close> keep show ?thesis by auto
        next
          case 2
          with run fr ev have "merge_bucket rs b qs (fst s + 1, push_bucket p (b + 1) (snd s)) = Inr s'"
            by simp
          then have "P qs (fst s + 1, push_bucket p (b + 1) (snd s))"
            using Cons \<open>pq = p # ps\<close> by (intro IH) auto
          with 2 True Cons \<open>pq = p # ps\<close> join show ?thesis by auto
        next
          case 3
          with run fr ev
          have "merge_bucket rs b qs (fst s, push_stack q b (push_stack p b (snd s))) = Inr s'" by simp
          then have "P qs (fst s, push_stack q b (push_stack p b (snd s)))"
            using Cons \<open>pq = p # ps\<close> by (intro IH) auto
          with 3 Cons \<open>pq = p # ps\<close> overlap show ?thesis by auto
        qed
      qed
    qed
  qed
qed

lemma merge_bucket_pages:
  assumes "merge_bucket rs b pq s = Inr s'" "b + 1 < BUCKETS"
  shows "no_null (snd s) \<longrightarrow> NULL \<notin> set pq \<longrightarrow>
     no_null (snd s') \<and> heap_pages (snd s') = heap_pages (snd s) + bucket_pages b pq"
  using assms(1)
proof (induction rule: merge_bucket_rule)
  case (join p qs s)
  with pages_double [of p b] assms(2) show ?case
    by (auto simp: heap_pages_push_bucket add.assoc)
qed (use assms(2) in \<open>auto simp: heap_pages_push add.assoc\<close>)

lemma merge_bucket_total:
  "(\<And>p. p \<in> set pq \<Longrightarrow> find_range rs p \<noteq> None) \<Longrightarrow> \<exists>s'. merge_bucket rs b pq s = Inr s'"
proof (induction rs b pq s rule: merge_bucket.induct)
  case (2 rs b p pq s)
  then obtain f sz where "find_range rs p = Some (f, sz)" by fastforce
  with 2 show ?case by (auto simp: Let_def split: list.splits)
qed simp

lemma push_mem: "x \<in> set (push_stack p b h n) \<longleftrightarrow> x \<in> set (h n) \<or> n = b \<and> x = p"
  by (auto simp: push_stack_def)

lemma push_bucket_mem: "x \<in> set (push_bucket p b h n) \<Longrightarrow> x \<in> set (h n) \<or> n = b \<and> x = p"
  by (auto simp: push_bucket_def push_mem split: if_splits)

lemma push_other: "n \<noteq> b \<Longrightarrow> push_stack p b h n = h n" "n \<noteq> b \<Longrightarrow> push_bucket p b h n = h n"
  by (auto simp: push_bucket_def push_stack_def)

lemma merge_bucket_mem:
  assumes "merge_bucket rs b pq s = Inr s'"
  shows "set (snd s' n) \<subseteq> set (snd s n) \<union> set pq"
  using assms
  by (induction rule: merge_bucket_rule) (auto simp: push_mem dest!: push_bucket_mem)

lemma merge_bucket_other:
  assumes "merge_bucket rs b pq s = Inr s'" "n \<noteq> b" "n \<noteq> b + 1"
  shows "snd s' n = snd s n"
  using assms(1) by (induction rule: merge_bucket_rule) (use assms(2,3) in \<open>auto simp: push_other\<close>)

text \<open>\<open>mergeable rs b ps\<close>: the bucket still holds an even block together with its buddy.\<close>

definition mergeable :: "range list \<Rightarrow> nat \<Rightarrow> addr list \<Rightarrow> bool" where
  "mergeable rs b ps \<longleftrightarrow> (\<exists>p\<in>set ps. even_block rs b p \<and> p + 2 ^ b * PAGESIZE \<in> set ps)"

definition spaced :: "nat \<Rightarrow> addr list \<Rightarrow> bool" where
  "spaced b ps \<longleftrightarrow> sorted_wrt (\<lambda>p q. p + 2 ^ b * PAGESIZE \<le> q) ps"

definition settled :: "range list \<Rightarrow> nat \<Rightarrow> addr list \<Rightarrow> addr list \<Rightarrow> bool" where
  "settled rs b acc pq \<longleftrightarrow> \<not> mergeable rs b acc
     \<and> (\<forall>a\<in>set acc. \<forall>p\<in>set pq. a < p \<and> (even_block rs b a \<longrightarrow> a + 2 ^ b * PAGESIZE \<noteq> p))"

lemma spaced_Cons:
  "spaced b (p # pq) \<longleftrightarrow> spaced b pq \<and> (\<forall>q\<in>set pq. p + 2 ^ b * PAGESIZE \<le> q)"
  by (auto simp: spaced_def)

lemma settled_push:
  assumes st: "settled rs b acc (p # pq)" and sp: "spaced b (p # pq)"
    and "even_block rs b p \<Longrightarrow> p + 2 ^ b * PAGESIZE \<notin> set pq"
  shows "settled rs b (p # acc) pq"
proof -
  have pos: "0 < (2::nat) ^ b * PAGESIZE" by simp
  have lt: "a < p" if "a \<in> set acc" for a using st that by (auto simp: settled_def)
  have "p + 2 ^ b * PAGESIZE \<notin> set acc" using lt pos by fastforce
  moreover have "p + 2 ^ b * PAGESIZE \<noteq> p" using pos by linarith
  moreover have "a + 2 ^ b * PAGESIZE \<noteq> p" if "a \<in> set acc" "even_block rs b a" for a
    using st that by (auto simp: settled_def)
  ultimately have "\<not> mergeable rs b (p # acc)"
    using st unfolding settled_def mergeable_def by auto
  moreover have "p < q" if "q \<in> set pq" for q
    using sp that pos unfolding spaced_Cons by (metis less_add_same_cancel1 less_le_trans)
  ultimately show ?thesis using assms unfolding settled_def by auto
qed

lemma merge_bucket_settled:
  assumes "merge_bucket rs b pq s = Inr s'"
  shows "spaced b pq \<longrightarrow> settled rs b (snd s b) pq \<longrightarrow> \<not> mergeable rs b (snd s' b)"
  using assms
proof (induction rule: merge_bucket_rule)
  case nil
  then show ?case by (simp add: settled_def)
next
  case (keep p pq s)
  have "p + 2 ^ b * PAGESIZE \<notin> set pq" if "even_block rs b p" "spaced b (p # pq)"
    using keep(1) [OF that(1)] that(2) by (cases pq) (auto simp: spaced_Cons)
  with keep show ?case by (auto simp: spaced_Cons push_stack_def intro!: settled_push)
next
  case (join p qs s)
  then show ?case by (auto simp: spaced_Cons push_other settled_def)
next
  case (overlap p q qs s)
  then show ?case by (auto simp: spaced_Cons)
qed

subsection \<open>Coalescing a whole heap\<close>

definition in_ranges :: "range list \<Rightarrow> buckets \<Rightarrow> bool" where
  "in_ranges rs h \<longleftrightarrow> (\<forall>n<BUCKETS. \<forall>p\<in>set (h n). find_range rs p \<noteq> None)"

text \<open>Every page is held once, at a page boundary.\<close>

definition proper :: "addr multiset \<Rightarrow> bool" where
  "proper A \<longleftrightarrow> (\<forall>a. count A a \<le> 1) \<and> (\<forall>a\<in>#A. PAGESIZE dvd a)"

lemma first_page: "0 < k \<Longrightarrow> p \<in> set (pages p k)"
  by (auto simp: pages_def intro: rev_image_eqI [of 0])

lemma bucket_member_page: "p \<in> set ps \<Longrightarrow> p \<in># bucket_pages n ps"
  by (induction ps) (auto simp: first_page)

lemma bucket_pages_subset: "n < BUCKETS \<Longrightarrow> bucket_pages n (h n) \<subseteq># heap_pages h"
  unfolding heap_pages_def by (subst sum.remove [of _ n]) auto

lemma proper_mono: "A \<subseteq># B \<Longrightarrow> proper B \<Longrightarrow> proper A"
  unfolding proper_def by (meson le_trans mset_subset_eqD mset_subset_eq_count)

lemma page_in_block:
  assumes "PAGESIZE dvd p" "PAGESIZE dvd q" "p \<le> q" "q < p + k * PAGESIZE"
  shows "q \<in> set (pages p k)"
proof -
  from assms(1,2) have "PAGESIZE dvd q - p" by simp
  then obtain i where i: "q - p = PAGESIZE * i" by blast
  with assms(3) have q: "q = p + i * PAGESIZE" by (simp add: mult.commute)
  with assms(4) have "i < k" by simp
  with q show ?thesis by (auto simp: pages_def)
qed

lemma proper_spaced: "sorted xs \<Longrightarrow> proper (bucket_pages n xs) \<Longrightarrow> spaced n xs"
proof (induction xs)
  case (Cons p xs)
  have sub: "bucket_pages n xs \<subseteq># bucket_pages n (p # xs)" by simp
  have "p + 2 ^ n * PAGESIZE \<le> q" if q: "q \<in> set xs" for q
  proof (rule ccontr)
    assume "\<not> ?thesis"
    moreover have "PAGESIZE dvd p" "PAGESIZE dvd q"
      using Cons.prems(2) bucket_member_page [of p "p # xs" n] bucket_member_page [of q "p # xs" n] q
      by (auto simp: proper_def)
    ultimately have "q \<in># mset (pages p (2 ^ n))" using Cons.prems(1) q by (simp add: page_in_block)
    moreover have "q \<in># bucket_pages n xs" using q by (rule bucket_member_page)
    ultimately have "1 \<le> count (mset (pages p (2 ^ n))) q" "1 \<le> count (bucket_pages n xs) q"
      by (simp_all add: Suc_le_eq)
    then have "\<not> count (mset (pages p (2 ^ n))) q + count (bucket_pages n xs) q \<le> 1" by linarith
    then have "\<not> count (bucket_pages n (p # xs)) q \<le> 1" by (metis bucket_pages_simps(2) count_union)
    with Cons.prems(2) show False unfolding proper_def by blast
  qed
  with Cons proper_mono [OF sub] show ?case by (simp add: spaced_Cons)
qed (simp add: spaced_def)

lemma coalesce_step:
  assumes b: "b + 1 < BUCKETS" and nn: "no_null h" and ir: "in_ranges rs h"
  shows "\<exists>s1. merge_bucket rs b (drain_bucket (h b) []) (c, h(b := [])) = Inr s1
    \<and> no_null (snd s1) \<and> in_ranges rs (snd s1) \<and> heap_pages (snd s1) = heap_pages h
    \<and> (\<forall>n. n \<noteq> b \<longrightarrow> n \<noteq> b + 1 \<longrightarrow> snd s1 n = h n)
    \<and> (proper (heap_pages h) \<longrightarrow> \<not> mergeable rs b (snd s1 b))"
proof -
  let ?pq = "drain_bucket (h b) []" and ?h = "h(b := [])"
  have mem: "find_range rs p \<noteq> None" if "p \<in> set ?pq" for p
  proof -
    have "b < BUCKETS" using b by simp
    with that ir show ?thesis unfolding in_ranges_def by simp
  qed
  then obtain s1 where r: "merge_bucket rs b ?pq (c, ?h) = Inr s1"
    using merge_bucket_total [of ?pq rs b "(c, ?h)"] by blast
  have "no_null ?h" "NULL \<notin> set ?pq" using nn b by (auto simp: no_null_def)
  with merge_bucket_pages [OF r b] have pg: "no_null (snd s1)"
    "heap_pages (snd s1) = heap_pages ?h + bucket_pages b ?pq" by auto
  have eqb: "bucket_pages b ?pq = bucket_pages b (h b)" by (rule bucket_pages_mset) simp
  have "heap_pages ?h + bucket_pages b (h b) = heap_pages h"
    using heap_pages_upd [of b h "[]"] b by simp
  with pg eqb have pg2: "heap_pages (snd s1) = heap_pages h" by simp
  have "in_ranges rs (snd s1)"
    unfolding in_ranges_def
  proof (intro allI ballI impI)
    fix n p assume "n < BUCKETS" "p \<in> set (snd s1 n)"
    with merge_bucket_mem [OF r, of n] have "p \<in> set (?h n) \<or> p \<in> set ?pq" by auto
    with ir \<open>n < BUCKETS\<close> mem show "find_range rs p \<noteq> None"
      by (auto simp: in_ranges_def split: if_splits)
  qed
  moreover have "\<not> mergeable rs b (snd s1 b)" if pr: "proper (heap_pages h)"
  proof -
    have "bucket_pages b ?pq \<subseteq># heap_pages h" using eqb bucket_pages_subset [of b h] b by simp
    with pr have "spaced b ?pq" by (intro proper_spaced sorted_drain_bucket) (auto intro: proper_mono)
    moreover have "settled rs b (?h b) ?pq" by (simp add: settled_def mergeable_def)
    ultimately show ?thesis using merge_bucket_settled [OF r] by simp
  qed
  moreover have "snd s1 n = h n" if "n \<noteq> b" "n \<noteq> b + 1" for n
    using merge_bucket_other [OF r that] that by simp
  ultimately show ?thesis using r pg(1) pg2 by blast
qed

lemma coalesce_buckets_spec:
  "k \<le> m \<Longrightarrow> m < BUCKETS \<Longrightarrow> no_null h \<Longrightarrow> in_ranges rs h \<Longrightarrow>
   \<exists>s'. coalesce_buckets rs [k..<m] (c, h) = Inr s' \<and> no_null (snd s') \<and> in_ranges rs (snd s')
     \<and> heap_pages (snd s') = heap_pages h \<and> (\<forall>n<k. snd s' n = h n)
     \<and> (proper (heap_pages h) \<longrightarrow> (\<forall>n. k \<le> n \<longrightarrow> n < m \<longrightarrow> \<not> mergeable rs n (snd s' n)))"
proof (induction "m - k" arbitrary: k c h)
  case (Suc d)
  then have km: "k < m" "d = m - Suc k" "k + 1 < BUCKETS" by auto
  from coalesce_step [OF km(3) Suc.prems(3,4), of c] obtain c1 h1 where
    st: "merge_bucket rs k (drain_bucket (h k) []) (c, h(k := [])) = Inr (c1, h1)"
      "no_null h1" "in_ranges rs h1" "heap_pages h1 = heap_pages h"
      "\<And>n. n \<noteq> k \<Longrightarrow> n \<noteq> k + 1 \<Longrightarrow> h1 n = h n"
      "proper (heap_pages h) \<Longrightarrow> \<not> mergeable rs k (h1 k)"
    by fastforce
  from Suc.hyps(1) [OF km(2) _ Suc.prems(2) st(2,3), of c1] km obtain s' where
    s': "coalesce_buckets rs [Suc k..<m] (c1, h1) = Inr s'" "no_null (snd s')" "in_ranges rs (snd s')"
      "heap_pages (snd s') = heap_pages h1" "\<forall>n<Suc k. snd s' n = h1 n"
      "proper (heap_pages h1) \<longrightarrow> (\<forall>n. Suc k \<le> n \<longrightarrow> n < m \<longrightarrow> \<not> mergeable rs n (snd s' n))"
    by auto
  have "coalesce_buckets rs [k..<m] (c, h) = Inr s'"
    using km(1) st(1) s'(1) by (simp add: upt_conv_Cons)
  moreover have "\<not> mergeable rs n (snd s' n)" if "proper (heap_pages h)" "k \<le> n" "n < m" for n
    using that s'(5,6) st(4,6) by (cases "n = k") auto
  ultimately show ?case using s' st(4,5) by auto
qed simp

lemma core_coalesce_spec:
  assumes "core_inv c" "iv_supports_coalesce c" "in_ranges (iv_ranges c) (iv_heap c)"
  shows "\<exists>n' c'. core_coalesce (n, c) = Inr (n', c') \<and> core_inv c' \<and> core_pages c' = core_pages c
    \<and> iv_available c' = iv_available c \<and> iv_ranges c' = iv_ranges c
    \<and> iv_supports_coalesce c' = iv_supports_coalesce c \<and> in_ranges (iv_ranges c) (iv_heap c')
    \<and> (proper (core_pages c) \<longrightarrow> (\<forall>b<BUCKETS - 1. \<not> mergeable (iv_ranges c) b (iv_heap c' b)))"
proof -
  from coalesce_buckets_spec [of 0 "BUCKETS - 1" "iv_heap c" "iv_ranges c" n] assms
  obtain n' h where "coalesce_buckets (iv_ranges c) [0..<BUCKETS - 1] (n, iv_heap c) = Inr (n', h)"
    "no_null h" "in_ranges (iv_ranges c) h" "heap_pages h = heap_pages (iv_heap c)"
    "proper (heap_pages (iv_heap c)) \<longrightarrow> (\<forall>b<BUCKETS - 1. \<not> mergeable (iv_ranges c) b (h b))"
    by (auto simp: core_inv_def BUCKETS_def)
  with assms show ?thesis
    by (auto simp: core_coalesce_def core_inv_def core_pages_def)
qed

section \<open>PageManager's invariant\<close>

definition pm_pages :: "pagemgr \<Rightarrow> addr multiset" where
  "pm_pages s = core_pages (heap s) + core_pages (heapKernel s)"

definition pm_inv :: "pagemgr \<Rightarrow> bool" where
  "pm_inv s \<longleftrightarrow> core_inv (heap s) \<and> core_inv (heapKernel s)
     \<and> \<not> iv_supports_coalesce (heapKernel s)
     \<and> iv_pagesAvail s = of_nat (size (pm_pages s))
     \<and> (\<forall>a\<in>#pm_pages s. PAGESIZE dvd a)"

lemma alloc_aligned:
  assumes "core_pages c = core_pages c' + mset (pages p n)" "0 < n" "\<forall>a\<in>#core_pages c. PAGESIZE dvd a"
  shows "PAGESIZE dvd p"
  using assms first_page [of n p] by auto

lemma core_allocatePage_cases:
  assumes "core_inv c" "0 < n"
  obtains "core_allocatePage n c = (NULL, c)" "\<forall>k. req_bucket n \<le> k \<longrightarrow> k < BUCKETS \<longrightarrow> iv_heap c k = []"
  | p c' where "core_allocatePage n c = (p, c')" "p \<noteq> NULL" "core_inv c'"
      "core_pages c = core_pages c' + mset (pages p n)"
      "iv_supports_coalesce c' = iv_supports_coalesce c" "iv_ranges c' = iv_ranges c"
      "n < 2 ^ BUCKETS"
proof -
  obtain p c' where r: "core_allocatePage n c = (p, c')" by fastforce
  show thesis
  proof (cases "p = NULL")
    case True
    with core_allocatePage_NULL [OF assms(1)] r that(1) show thesis by blast
  next
    case False
    with core_allocatePage_takes [OF assms r] r that(2) show thesis by blast
  qed
qed

lemma core_addMemory_plain:
  assumes "core_inv c" "\<not> iv_supports_coalesce c" "PAGESIZE dvd a" "a \<noteq> NULL"
  shows "\<exists>c'. core_addMemory a n c = Inr c' \<and> core_inv c' \<and> \<not> iv_supports_coalesce c'
    \<and> core_pages c' = core_pages c + mset (pages a n)"
  using assms add_blocks_adds [of "BUCKETS - 1" a "iv_heap c" n]
  by (auto simp: core_addMemory_def ALIGN_PAGE_id core_inv_def core_pages_def BUCKETS_def)

lemma pm_allocatePage_inv:
  assumes inv: "pm_inv s" and n: "0 < n" and r: "pm_allocatePage n u oom s = Inr (p, s')"
  shows "pm_inv s' \<and> (if p = NULL then pm_pages s' = pm_pages s
     else pm_pages s = pm_pages s' + mset (pages p n) \<and> PAGESIZE dvd p \<and> n < 2 ^ BUCKETS)
    \<and> iv_ranges (heap s') = iv_ranges (heap s)
    \<and> iv_supports_coalesce (heap s') = iv_supports_coalesce (heap s)"
proof -
  have ci: "core_inv (heap s)" "core_inv (heapKernel s)" using inv by (auto simp: pm_inv_def)
  have al: "PAGESIZE dvd q" if "pm_pages s = pm_pages t + mset (pages q n)" for q t
    using that inv first_page [OF n, of q] by (auto simp: pm_inv_def)
  show ?thesis
  proof (cases rule: core_allocatePage_cases [OF ci(1) n])
    case 1
    show ?thesis
    proof (cases rule: core_allocatePage_cases [OF ci(2) n])
      case 1
      with \<open>core_allocatePage n (heap s) = _\<close> r inv show ?thesis
        by (cases u) (auto simp: pm_allocatePage_def pm_inv_def pm_pages_def Let_def split: if_splits)
    next
      case (2 q c')
      with \<open>core_allocatePage n (heap s) = _\<close> r inv al [of s' q] show ?thesis
        by (cases u) (auto simp: pm_allocatePage_def pm_inv_def pm_pages_def Let_def add.assoc split: if_splits)
    qed
  next
    case (2 q c')
    with r inv al [of s' q] show ?thesis
      by (auto simp: pm_allocatePage_def pm_inv_def pm_pages_def Let_def split: if_splits)
  qed
qed

lemma pm_freePage_inv:
  assumes inv: "pm_inv s" and p: "p \<noteq> NULL" "PAGESIZE dvd p" and n: "n < 2 ^ BUCKETS"
  shows "\<exists>s'. pm_freePage p n s = Inr s' \<and> pm_inv s' \<and> pm_pages s' = pm_pages s + mset (pages p n)
    \<and> iv_ranges (heap s') = iv_ranges (heap s)
    \<and> iv_supports_coalesce (heap s') = iv_supports_coalesce (heap s)"
proof -
  let ?c = "core_freePage p n False (heap s)"
  let ?s1 = "s\<lparr>heap := ?c, iv_pagesAvail := iv_pagesAvail s + of_nat n\<rparr>"
  note f = core_freePage_spec [OF _ p(1) n, of "heap s" False]
  have ci: "core_inv (heap s)" "core_inv (heapKernel s)" using inv by (auto simp: pm_inv_def)
  have pg: "pm_pages ?s1 = pm_pages s + mset (pages p n)"
    using f(2) [OF ci(1)] by (simp add: pm_pages_def)
  have al: "PAGESIZE dvd a" if "a \<in> set (pages p n)" for a
    using that p(2) by (auto simp: pages_def)
  have inv1: "pm_inv ?s1"
    using inv pg al f(1) [OF ci(1)] by (auto simp: pm_inv_def)
  show ?thesis
  proof (cases "core_getFreePageCount (heapKernel s) < of_nat KERNEL_HEAP_RESERVED_PAGES")
    case False
    with inv1 pg f(3,4) [OF ci(1)] show ?thesis by (simp add: pm_freePage_def Let_def)
  next
    case True
    have ci1: "core_inv ?c" using f(1) [OF ci(1)] .
    show ?thesis
    proof (cases rule: core_allocatePage_cases [OF ci1 zero_less_one])
      case 1
      with True inv1 pg f(3,4) [OF ci(1)] show ?thesis
        by (simp add: pm_freePage_def Let_def pm_inv_def pm_pages_def)
    next
      case (2 q c')
      have "\<forall>a\<in>#core_pages ?c. PAGESIZE dvd a" using inv1 by (auto simp: pm_inv_def pm_pages_def)
      with 2(4) have q: "PAGESIZE dvd q" by (rule alloc_aligned [OF _ zero_less_one])
      have nc: "\<not> iv_supports_coalesce (heapKernel s)" using inv by (simp add: pm_inv_def)
      from core_addMemory_plain [OF ci(2) nc q 2(2), of 1] obtain ck where
        ck: "core_addMemory q 1 (heapKernel s) = Inr ck" "core_inv ck" "\<not> iv_supports_coalesce ck"
          "core_pages ck = core_pages (heapKernel s) + mset (pages q 1)" by blast
      let ?s' = "?s1\<lparr>heap := c', heapKernel := ck\<rparr>"
      have "pm_pages ?s' = pm_pages ?s1" using 2(4) ck(4) by (simp add: pm_pages_def)
      moreover have "pm_freePage p n s = Inr ?s'"
        using True 2(1,2) ck(1) by (simp add: pm_freePage_def Let_def)
      ultimately show ?thesis using inv1 pg 2(3,5,6) ck f(3,4) [OF ci(1)]
        by (auto simp: pm_inv_def)
    qed
  qed
qed

lemma pm_coalesce_inv:
  assumes inv: "pm_inv s" and c: "iv_supports_coalesce (heap s)"
    and r: "in_ranges (iv_ranges (heap s)) (iv_heap (heap s))"
  shows "\<exists>s'. pm_coalesce s = Inr s' \<and> pm_inv s' \<and> pm_pages s' = pm_pages s
    \<and> iv_ranges (heap s') = iv_ranges (heap s) \<and> iv_supports_coalesce (heap s')
    \<and> (proper (pm_pages s) \<longrightarrow>
         (\<forall>b<BUCKETS - 1. \<not> mergeable (iv_ranges (heap s)) b (iv_heap (heap s') b)))"
proof -
  have ci: "core_inv (heap s)" using inv by (simp add: pm_inv_def)
  have pr: "proper (core_pages (heap s))" if "proper (pm_pages s)"
    using that by (rule proper_mono [rotated]) (simp add: pm_pages_def)
  from core_coalesce_spec [OF ci c r, of "cv_coalesce_count s"] obtain n' c' where
    "core_coalesce (cv_coalesce_count s, heap s) = Inr (n', c')" "core_inv c'"
    "core_pages c' = core_pages (heap s)" "iv_ranges c' = iv_ranges (heap s)"
    "iv_supports_coalesce c' = iv_supports_coalesce (heap s)"
    "proper (core_pages (heap s)) \<longrightarrow> (\<forall>b<BUCKETS - 1. \<not> mergeable (iv_ranges (heap s)) b (iv_heap c' b))"
    by blast
  with inv c pr show ?thesis by (auto simp: pm_coalesce_def pm_inv_def pm_pages_def)
qed

section \<open>The allocator's contract\<close>

text \<open>
  What a client of a page allocator relies on: \<open>held s\<close> is the multiset of pages the allocator still
  has; an allocation takes exactly the pages it returns, a release gives exactly them back. A client
  run starts with nothing owned, owns what it was given and releases only what it owns.
\<close>

inductive client_run ::
  "('f \<Rightarrow> nat \<Rightarrow> 's \<Rightarrow> 'e + addr \<times> 's) \<Rightarrow> (addr \<Rightarrow> nat \<Rightarrow> 's \<Rightarrow> 'e + 's) \<Rightarrow> ('s \<Rightarrow> 'e + 's) \<Rightarrow> 's \<Rightarrow>
   's \<Rightarrow> (addr \<times> nat) list \<Rightarrow> bool"
  for alloc release tidy s0 where
  run_start: "client_run alloc release tidy s0 s0 []"
| run_alloc: "client_run alloc release tidy s0 s bs \<Longrightarrow> 0 < n \<Longrightarrow> alloc f n s = Inr (p, s') \<Longrightarrow>
    client_run alloc release tidy s0 s' (if p = NULL then bs else (p, n) # bs)"
| run_release: "client_run alloc release tidy s0 s (bs @ (p, n) # cs) \<Longrightarrow> release p n s = Inr s' \<Longrightarrow>
    client_run alloc release tidy s0 s' (bs @ cs)"
| run_tidy: "client_run alloc release tidy s0 s bs \<Longrightarrow> tidy s = Inr s' \<Longrightarrow>
    client_run alloc release tidy s0 s' bs"

definition blocks_pages :: "(addr \<times> nat) list \<Rightarrow> addr list" where
  "blocks_pages bs = concat (map (\<lambda>(p, n). pages p n) bs)"

locale page_allocator =
  fixes alloc :: "'f \<Rightarrow> nat \<Rightarrow> 's \<Rightarrow> 'e + addr \<times> 's"
    and release :: "addr \<Rightarrow> nat \<Rightarrow> 's \<Rightarrow> 'e + 's"
    and tidy :: "'s \<Rightarrow> 'e + 's"
    and held :: "'s \<Rightarrow> addr multiset"
    and known :: "'s \<Rightarrow> addr set"
    and inv :: "'s \<Rightarrow> bool"
  assumes held_known: "inv s \<Longrightarrow> set_mset (held s) \<subseteq> known s"
    and alloc_none: "inv s \<Longrightarrow> 0 < n \<Longrightarrow> alloc f n s = Inr (NULL, s') \<Longrightarrow>
      inv s' \<and> held s' = held s \<and> known s' = known s"
    and alloc_some: "inv s \<Longrightarrow> 0 < n \<Longrightarrow> alloc f n s = Inr (p, s') \<Longrightarrow> p \<noteq> NULL \<Longrightarrow>
      inv s' \<and> held s = held s' + mset (pages p n) \<and> known s' = known s
      \<and> n < 2 ^ BUCKETS \<and> PAGESIZE dvd p"
    and release_ok: "inv s \<Longrightarrow> p \<noteq> NULL \<Longrightarrow> PAGESIZE dvd p \<Longrightarrow> n < 2 ^ BUCKETS \<Longrightarrow>
      set (pages p n) \<subseteq> known s \<Longrightarrow>
      \<exists>s'. release p n s = Inr s' \<and> inv s' \<and> held s' = held s + mset (pages p n) \<and> known s' = known s"
    and tidy_ok: "inv s \<Longrightarrow> \<exists>s'. tidy s = Inr s' \<and> inv s' \<and> held s' = held s \<and> known s' = known s"
begin

lemma run_conserves:
  "client_run alloc release tidy s0 s bs \<Longrightarrow> inv s0 \<Longrightarrow>
     inv s \<and> known s = known s0 \<and> held s0 = held s + mset (blocks_pages bs)
     \<and> (\<forall>(p, n)\<in>set bs. p \<noteq> NULL \<and> n < 2 ^ BUCKETS \<and> PAGESIZE dvd p)"
proof (induction rule: client_run.induct)
  case run_start
  then show ?case by (simp add: blocks_pages_def)
next
  case (run_alloc s bs n f p s')
  show ?case
  proof (cases "p = NULL")
    case True
    with run_alloc alloc_none [of s n f s'] show ?thesis by auto
  next
    case False
    with run_alloc alloc_some [of s n f p s'] show ?thesis by (auto simp: blocks_pages_def)
  qed
next
  case (run_release s bs p n cs s')
  then have I: "inv s" "known s = known s0" "held s0 = held s + mset (blocks_pages (bs @ (p, n) # cs))"
    "p \<noteq> NULL" "n < 2 ^ BUCKETS" "PAGESIZE dvd p" by auto
  have "set (pages p n) \<subseteq> known s"
    using held_known [of s0] I run_release.prems by (auto simp: blocks_pages_def)
  with release_ok [of s p n] I run_release show ?case by (auto simp: blocks_pages_def)
next
  case (run_tidy s bs s')
  with tidy_ok [of s] show ?case by auto
qed

lemma run_disjoint:
  assumes "client_run alloc release tidy s0 s bs" "inv s0" "proper (held s0)"
  shows "distinct (blocks_pages bs)" and "set (blocks_pages bs) \<inter> set_mset (held s) = {}"
proof -
  have eq: "held s0 = held s + mset (blocks_pages bs)" using run_conserves assms by blast
  have c: "count (held s) a + count_list (blocks_pages bs) a \<le> 1" for a
    using assms(3) unfolding proper_def eq by (metis count_union count_mset)
  have "count_list (blocks_pages bs) a \<le> 1" for a
    using c [of a] by linarith
  then show "distinct (blocks_pages bs)"
    by (metis One_nat_def count_list_0_iff distinct_count_atmost_1 le_Suc_eq le_zero_eq count_mset)
  show "set (blocks_pages bs) \<inter> set_mset (held s) = {}"
  proof (rule ccontr)
    assume "\<not> ?thesis"
    then obtain a where "a \<in> set (blocks_pages bs)" "a \<in># held s" by blast
    then have "0 < count_list (blocks_pages bs) a" "0 < count (held s) a"
      by (metis count_list_0_iff gr0I, simp)
    with c [of a] show False by linarith
  qed
qed

lemma release_owned:
  assumes "client_run alloc release tidy s0 s (bs @ (p, n) # cs)" "inv s0"
  shows "\<exists>s'. release p n s = Inr s'" and "\<exists>s'. tidy s = Inr s'"
proof -
  have I: "inv s" "known s = known s0" "held s0 = held s + mset (blocks_pages (bs @ (p, n) # cs))"
    "p \<noteq> NULL" "n < 2 ^ BUCKETS" "PAGESIZE dvd p" using run_conserves [OF assms] by auto
  then have "set (pages p n) \<subseteq> known s"
    using held_known [of s0] assms(2) by (auto simp: blocks_pages_def)
  with release_ok [of s p n] I show "\<exists>s'. release p n s = Inr s'" by blast
  from tidy_ok I(1) show "\<exists>s'. tidy s = Inr s'" by blast
qed

end

definition pm_alloc :: "bool \<times> bool \<Rightarrow> nat \<Rightarrow> pagemgr \<Rightarrow> kerror + addr \<times> pagemgr" where
  "pm_alloc f n s = pm_allocatePage n (fst f) (snd f) s"

definition pm_known :: "pagemgr \<Rightarrow> addr set" where
  "pm_known s = {a. find_range (iv_ranges (heap s)) a \<noteq> None}"

definition pm_good :: "pagemgr \<Rightarrow> bool" where
  "pm_good s \<longleftrightarrow> pm_inv s \<and> iv_supports_coalesce (heap s) \<and> set_mset (pm_pages s) \<subseteq> pm_known s"

lemma pm_good_in_ranges:
  assumes "pm_good s"
  shows "in_ranges (iv_ranges (heap s)) (iv_heap (heap s))"
  unfolding in_ranges_def
proof (intro allI ballI impI)
  fix n p assume "n < BUCKETS" "p \<in> set (iv_heap (heap s) n)"
  then have "p \<in># core_pages (heap s)"
    unfolding core_pages_def by (metis bucket_member_page bucket_pages_subset mset_subset_eqD)
  with assms show "find_range (iv_ranges (heap s)) p \<noteq> None"
    by (auto simp: pm_good_def pm_pages_def pm_known_def)
qed

interpretation pm: page_allocator pm_alloc pm_freePage pm_coalesce pm_pages pm_known pm_good
proof
  fix s assume "pm_good s"
  then show "set_mset (pm_pages s) \<subseteq> pm_known s" by (simp add: pm_good_def)
next
  fix s n f s' assume "pm_good s" "0 < n" "pm_alloc f n s = Inr (NULL, s')"
  with pm_allocatePage_inv [of s n "fst f" "snd f" NULL s']
  show "pm_good s' \<and> pm_pages s' = pm_pages s \<and> pm_known s' = pm_known s"
    by (auto simp: pm_good_def pm_alloc_def pm_known_def)
next
  fix s n f p s' assume "pm_good s" "0 < n" "pm_alloc f n s = Inr (p, s')" "p \<noteq> NULL"
  with pm_allocatePage_inv [of s n "fst f" "snd f" p s']
  show "pm_good s' \<and> pm_pages s = pm_pages s' + mset (pages p n) \<and> pm_known s' = pm_known s
      \<and> n < 2 ^ BUCKETS \<and> PAGESIZE dvd p"
    by (auto simp: pm_good_def pm_alloc_def pm_known_def)
next
  fix s p n assume "pm_good s" "p \<noteq> NULL" "PAGESIZE dvd p" "n < 2 ^ BUCKETS" "set (pages p n) \<subseteq> pm_known s"
  with pm_freePage_inv [of s p n]
  show "\<exists>s'. pm_freePage p n s = Inr s' \<and> pm_good s' \<and> pm_pages s' = pm_pages s + mset (pages p n)
      \<and> pm_known s' = pm_known s"
    by (auto simp: pm_good_def pm_known_def)
next
  fix s assume g: "pm_good s"
  with pm_coalesce_inv [OF _ _ pm_good_in_ranges [OF g]]
  show "\<exists>s'. pm_coalesce s = Inr s' \<and> pm_good s' \<and> pm_pages s' = pm_pages s \<and> pm_known s' = pm_known s"
    by (auto simp: pm_good_def pm_known_def)
qed

section \<open>Initialisation\<close>

lemma add_blocks_grows: "set (h k) \<subseteq> set (add_blocks b p n h k)"
proof (induction b p n h rule: add_blocks.induct)
  case (1 b p n h)
  consider "n = 0" | "n \<noteq> 0" "n < 2 ^ b" | "n \<noteq> 0" "2 ^ b \<le> n" by linarith
  then show ?case
  proof cases
    case 3
    with "1.IH"(2) have "set (push_stack p b h k) \<subseteq> set (add_blocks b p n h k)"
      by (simp add: add_blocks.simps [of b p n h])
    then show ?thesis by (auto simp: push_stack_def split: if_splits)
  qed (use 1 in \<open>simp_all add: add_blocks.simps [of b p n h] add_blocks.simps [of b p 0 h]\<close>)
qed

lemma add_blocks_top:
  "2 ^ c \<le> n \<Longrightarrow> c \<le> b \<Longrightarrow> \<exists>k. c \<le> k \<and> k \<le> b \<and> p \<in> set (add_blocks b p n h k)"
proof (induction b arbitrary: h)
  case 0
  then have n: "0 < n" "c = 0" by auto
  then have "add_blocks 0 p n h = add_blocks 0 (p + PAGESIZE) (n - 1) (push_stack p 0 h)"
    by (simp add: add_blocks.simps [of 0 p n h])
  moreover have "p \<in> set (push_stack p 0 h 0)" by (simp add: push_stack_def)
  ultimately have "p \<in> set (add_blocks 0 p n h 0)" using add_blocks_grows by fastforce
  with n show ?case by auto
next
  case (Suc b)
  have n0: "n \<noteq> 0" using Suc.prems by (metis le_zero_eq power_eq_0_iff zero_neq_numeral)
  show ?case
  proof (cases "n < 2 ^ Suc b")
    case True
    with Suc.prems have "c \<le> b"
      by (metis le_SucE not_le)
    with Suc.IH Suc.prems obtain k where "c \<le> k" "k \<le> b" "p \<in> set (add_blocks b p n h k)" by blast
    moreover have "add_blocks (Suc b) p n h = add_blocks b p n h"
      using True n0 by (simp add: add_blocks.simps [of "Suc b" p n h])
    ultimately show ?thesis using le_Suc_eq by metis
  next
    case False
    have "p \<in> set (push_stack p (Suc b) h (Suc b))" by (simp add: push_stack_def)
    with False n0 have "p \<in> set (add_blocks (Suc b) p n h (Suc b))"
      using add_blocks_grows [of "push_stack p (Suc b) h" "Suc b" "Suc b" "p + 2 ^ Suc b * PAGESIZE" "n - 2 ^ Suc b"]
      by (auto simp: add_blocks.simps [of "Suc b" p n h])
    with Suc.prems show ?thesis by blast
  qed
qed

lemma core_addMemory_ranges:
  assumes "core_inv c" "iv_supports_coalesce c" "PAGESIZE dvd a" "a \<noteq> NULL"
    and "fst (last (iv_ranges c)) = 0" "add_range a n (iv_ranges c) = Inr rs"
  shows "\<exists>c'. core_addMemory a n c = Inr c' \<and> core_inv c' \<and> iv_supports_coalesce c'
    \<and> core_pages c' = core_pages c + mset (pages a n) \<and> iv_ranges c' = rs
    \<and> iv_heap c' = add_blocks (BUCKETS - 1) a n (iv_heap c)"
  using assms add_blocks_adds [of "BUCKETS - 1" a "iv_heap c" n]
  by (auto simp: core_addMemory_def ALIGN_PAGE_id core_inv_def core_pages_def BUCKETS_def)

lemma find_range_iff: "find_range rs a \<noteq> None \<longleftrightarrow> (\<exists>(f, sz)\<in>set rs. f \<le> a \<and> a < f + sz)"
  by (induction rs) auto

lemma pages_interval: "a \<in> set (pages p n) \<Longrightarrow> p \<le> a \<and> a < p + n * PAGESIZE"
  by (auto simp: pages_def)

lemma distinct_pages: "distinct (pages p n)"
  by (auto simp: pages_def distinct_map inj_on_def)

lemma proper_pages: "PAGESIZE dvd p \<Longrightarrow> proper (mset (pages p n))"
  using distinct_pages [of p n]
  by (auto simp: proper_def distinct_count_atmost_1 pages_def)

lemma proper_add:
  assumes "proper A" "proper B" "set_mset A \<inter> set_mset B = {}"
  shows "proper (A + B)"
proof -
  have "count A a + count B a \<le> 1" for a
  proof (cases "a \<in># A")
    case True
    with assms(3) have "count B a = 0" by (metis disjoint_iff count_eq_zero_iff)
    with assms(1) show ?thesis by (simp add: proper_def)
  next
    case False
    then have "count A a = 0" by (simp add: count_eq_zero_iff)
    with assms(2) show ?thesis by (simp add: proper_def)
  qed
  with assms(1,2) show ?thesis by (auto simp: proper_def)
qed

lemma layout_aligned:
  "PAGESIZE dvd endPreservedOffset e" "PAGESIZE dvd pageTableOffset e"
  "endPreservedOffset e \<le> pageTableOffset e" "e \<le> endPreservedOffset e"
proof -
  have "PAGESIZE dvd PT_ALIGNMENT" by (simp add: PAGESIZE_def PT_ALIGNMENT_def)
  then show "PAGESIZE dvd pageTableOffset e"
    unfolding pageTableOffset_def using ALIGN_X_dvd dvd_trans by blast
qed (simp_all add: endPreservedOffset_def pageTableOffset_def ALIGN_PAGE_def ALIGN_X_ge PT_ALIGNMENT_def)

text \<open>
  A heap under construction: the ranges registered so far start below \<open>bnd\<close>, and so do its pages.
\<close>

definition built :: "pmcore \<Rightarrow> range list \<Rightarrow> addr \<Rightarrow> bool" where
  "built c rs bnd \<longleftrightarrow> core_inv c \<and> iv_supports_coalesce c \<and> proper (core_pages c)
     \<and> iv_ranges c = rs @ replicate (MAX_HEAP_RANGES - length rs) (0, 0)
     \<and> (\<forall>(f, sz)\<in>set rs. f \<noteq> 0 \<and> f < bnd)
     \<and> (\<forall>a\<in>#core_pages c. a < bnd \<and> find_range (iv_ranges c) a \<noteq> None)"

lemma built_init: "built (pmcore_init True) [] bnd"
  by (simp add: built_def pmcore_init_def core_inv_def core_pages_def no_null_def heap_pages_def
      proper_def)

lemma add_range_next:
  "\<forall>(f, sz)\<in>set rs. f \<noteq> 0 \<and> f < a \<Longrightarrow>
   add_range a n (rs @ (0, 0) # ts) = Inr (rs @ (a, n * PAGESIZE) # ts)"
  by (induction rs) auto

lemma built_add:
  assumes b: "built c rs bnd" and a: "bnd \<le> a" "0 < a" "PAGESIZE dvd a"
    and l: "length rs < MAX_HEAP_RANGES"
  shows "\<exists>c'. core_addMemory a n c = Inr c' \<and> built c' (rs @ [(a, n * PAGESIZE)]) (a + n * PAGESIZE + 1)
    \<and> core_pages c' = core_pages c + mset (pages a n)
    \<and> iv_heap c' = add_blocks (BUCKETS - 1) a n (iv_heap c)"
proof -
  let ?k = "MAX_HEAP_RANGES - length rs - 1" and ?r = "(a, n * PAGESIZE)"
  let ?rs = "rs @ ?r # replicate ?k (0, 0)"
  have ir: "iv_ranges c = rs @ (0, 0) # replicate ?k (0, 0)"
    using b l by (simp add: built_def replicate_Suc [symmetric] del: replicate_Suc)
  have last: "fst (last (iv_ranges c)) = 0" by (simp add: ir last_append)
  have st: "\<forall>(f, sz)\<in>set rs. f \<noteq> 0 \<and> f < a" using b a(1) by (auto simp: built_def)
  then have ar: "add_range a n (iv_ranges c) = Inr ?rs" unfolding ir by (rule add_range_next)
  from core_addMemory_ranges [OF _ _ a(3) _ last ar] b a(2) obtain c' where
    c': "core_addMemory a n c = Inr c'" "core_inv c'" "iv_supports_coalesce c'"
      "core_pages c' = core_pages c + mset (pages a n)" "iv_ranges c' = ?rs"
      "iv_heap c' = add_blocks (BUCKETS - 1) a n (iv_heap c)"
    by (auto simp: built_def)
  have old: "x < a \<and> find_range ?rs x \<noteq> None" if "x \<in># core_pages c" for x
  proof -
    have "x < a" "find_range (iv_ranges c) x \<noteq> None" using that b a(1) by (auto simp: built_def)
    then show ?thesis unfolding ir find_range_iff by auto
  qed
  have new: "a \<le> x \<and> x < a + n * PAGESIZE \<and> find_range ?rs x \<noteq> None" if "x \<in> set (pages a n)" for x
    using pages_interval [OF that] unfolding find_range_iff by auto
  have "proper (core_pages c')"
    unfolding c'(4) using b proper_pages [OF a(3)] old new
    by (intro proper_add) (fastforce simp: built_def)+
  moreover have "\<forall>(f, sz)\<in>set (rs @ [?r]). f \<noteq> 0 \<and> f < a + n * PAGESIZE + 1"
    using st a(2) by fastforce
  moreover have "\<forall>x\<in>#core_pages c'. x < a + n * PAGESIZE + 1 \<and> find_range (iv_ranges c') x \<noteq> None"
    unfolding c'(4,5) using old new by fastforce
  ultimately have "built c' (rs @ [?r]) (a + n * PAGESIZE + 1)"
    using c' by (simp add: built_def)
  with c' show ?thesis by blast
qed

lemma req_bucket_reserve: "req_bucket KERNEL_HEAP_RESERVED_PAGES = 4"
  by (simp add: req_bucket_def KERNEL_HEAP_RESERVED_PAGES_def top_bit.simps)

lemma reserve_kernel_pages:
  assumes b: "built c rs bnd" and k: "4 \<le> k" "k < BUCKETS" "iv_heap c k \<noteq> []"
  shows "\<exists>p c' ck. core_allocatePage KERNEL_HEAP_RESERVED_PAGES c = (p, c')
    \<and> core_addMemory p KERNEL_HEAP_RESERVED_PAGES (pmcore_init False) = Inr ck
    \<and> core_inv c' \<and> core_inv ck \<and> \<not> iv_supports_coalesce ck \<and> iv_supports_coalesce c'
    \<and> core_pages c = core_pages c' + core_pages ck \<and> iv_ranges c' = iv_ranges c
    \<and> size (core_pages ck) = KERNEL_HEAP_RESERVED_PAGES"
proof -
  have ci: "core_inv c" "proper (core_pages c)" "iv_supports_coalesce c" using b by (auto simp: built_def)
  have pos: "0 < KERNEL_HEAP_RESERVED_PAGES" by (simp add: KERNEL_HEAP_RESERVED_PAGES_def)
  show ?thesis
  proof (cases rule: core_allocatePage_cases [OF ci(1) pos])
    case 1
    with k show ?thesis by (auto simp: req_bucket_reserve)
  next
    case (2 p c')
    have "PAGESIZE dvd p" using ci(2) alloc_aligned [OF 2(4) pos] by (auto simp: proper_def)
    from core_addMemory_plain [OF _ _ this 2(2), of "pmcore_init False"] obtain ck where
      "core_addMemory p KERNEL_HEAP_RESERVED_PAGES (pmcore_init False) = Inr ck" "core_inv ck"
      "\<not> iv_supports_coalesce ck" "core_pages ck = mset (pages p KERNEL_HEAP_RESERVED_PAGES)"
      by (auto simp: pmcore_init_def core_inv_def core_pages_def no_null_def heap_pages_def)
    with 2 ci show ?thesis by auto
  qed
qed

lemma pm_initialize_good:
  assumes e: "0 < e" "pageTableOffset e + PTSIZE \<le> SINGLE_CACHE_SIZE_BYTES"
    and hb: "SINGLE_CACHE_SIZE_BYTES + 17 * PAGESIZE \<le> hb" "hb < 2 ^ 64"
  shows "\<exists>s. pm_initialize e hb = Inr s \<and> pm_good s \<and> proper (pm_pages s)
    \<and> size (core_pages (heapKernel s)) = KERNEL_HEAP_RESERVED_PAGES
    \<and> iv_pagesTotal s = of_nat (size (pm_pages s))"
proof -
  let ?a1 = "endPreservedOffset e" and ?pt = "pageTableOffset e" and ?a2 = "pageTableOffset e + PTSIZE"
  let ?a3 = "SINGLE_CACHE_SIZE_BYTES + VMM_OCC_BOOTLOADER_SIZE"
  let ?n1 = "(?pt - ?a1) div PAGESIZE" and ?n2 = "(SINGLE_CACHE_SIZE_BYTES - ?a2) div PAGESIZE"
  let ?n3 = "(hb - ?a3) div PAGESIZE"
  note la = layout_aligned [of e]
  have sz: "SINGLE_CACHE_SIZE_BYTES < 2 ^ 64" "PAGESIZE dvd PTSIZE" "0 < PTSIZE"
    "PAGESIZE dvd SINGLE_CACHE_SIZE_BYTES"
    by (simp_all add: SINGLE_CACHE_SIZE_BYTES_def MEGABYTE_def PAGESIZE_def PTSIZE_def)
  have a2: "PAGESIZE dvd ?a2" "PAGESIZE dvd ?a3" using la sz by (auto simp: VMM_OCC_BOOTLOADER_SIZE_def)
  have le1: "?a1 + ?n1 * PAGESIZE + 1 \<le> ?a2"
    using div_times_less_eq_dividend [of "?pt - ?a1" PAGESIZE] la(3) sz(3) by linarith
  have le2: "?a2 + ?n2 * PAGESIZE + 1 \<le> ?a3"
    using e(2) div_times_less_eq_dividend [of "SINGLE_CACHE_SIZE_BYTES - ?a2" PAGESIZE] PAGESIZE_pos
    unfolding VMM_OCC_BOOTLOADER_SIZE_def by linarith
  have gap: "sub64 ?pt ?a1 = ?pt - ?a1" "sub64 SINGLE_CACHE_SIZE_BYTES ?a2 = SINGLE_CACHE_SIZE_BYTES - ?a2"
    "sub64 hb ?a3 = hb - ?a3"
    using la e(2) sz hb by (auto intro!: sub64_eq simp: VMM_OCC_BOOTLOADER_SIZE_def)
  have n3: "2 ^ 4 \<le> ?n3"
  proof -
    have "16 * PAGESIZE \<le> hb - ?a3" using hb(1) unfolding VMM_OCC_BOOTLOADER_SIZE_def by linarith
    then have "16 * PAGESIZE div PAGESIZE \<le> ?n3" by (rule div_le_mono)
    then show ?thesis by simp
  qed
  obtain c1 rs1 where c1: "(if ?pt - ?a1 > 0 then core_addMemory ?a1 ?n1 (pmcore_init True)
      else Inr (pmcore_init True)) = Inr c1" "built c1 rs1 ?a2" "length rs1 \<le> 1"
      "size (core_pages c1) = ?n1"
  proof (cases "?pt - ?a1 > 0")
    case True
    from built_add [OF built_init, of ?a1 ?a1 ?n1] la e(1) obtain c1 where
      "core_addMemory ?a1 ?n1 (pmcore_init True) = Inr c1"
      "built c1 ([] @ [(?a1, ?n1 * PAGESIZE)]) (?a1 + ?n1 * PAGESIZE + 1)"
      "core_pages c1 = core_pages (pmcore_init True) + mset (pages ?a1 ?n1)"
      by (auto simp: MAX_HEAP_RANGES_def)
    moreover from this(2) le1 have "built c1 [(?a1, ?n1 * PAGESIZE)] ?a2" by (auto simp: built_def)
    ultimately show thesis using that True by simp
  next
    case False
    then show thesis using that [of "pmcore_init True" "[]"] built_init by simp
  qed
  from built_add [OF c1(2) order_refl _ a2(1), of ?n2] c1(3) sz(3) obtain c2 where
    c2: "core_addMemory ?a2 ?n2 c1 = Inr c2" "built c2 (rs1 @ [(?a2, ?n2 * PAGESIZE)]) (?a2 + ?n2 * PAGESIZE + 1)"
      "core_pages c2 = core_pages c1 + mset (pages ?a2 ?n2)"
    by (auto simp: MAX_HEAP_RANGES_def)
  from built_add [OF c2(2) le2 _ a2(2), of ?n3] c1(3) obtain c3 rs3 where
    c3: "core_addMemory ?a3 ?n3 c2 = Inr c3" "built c3 rs3 (?a3 + ?n3 * PAGESIZE + 1)"
      "core_pages c3 = core_pages c2 + mset (pages ?a3 ?n3)"
      "iv_heap c3 = add_blocks (BUCKETS - 1) ?a3 ?n3 (iv_heap c2)"
    by (auto simp: MAX_HEAP_RANGES_def SINGLE_CACHE_SIZE_BYTES_def MEGABYTE_def)
  from add_blocks_top [OF n3, of "BUCKETS - 1" ?a3 "iv_heap c2"] obtain k where
    "4 \<le> k" "k \<le> BUCKETS - 1" "?a3 \<in> set (iv_heap c3 k)" by (auto simp: c3(4) BUCKETS_def)
  then have "4 \<le> k" "k < BUCKETS" "iv_heap c3 k \<noteq> []" by (auto simp: BUCKETS_def)
  from reserve_kernel_pages [OF c3(2) this] obtain p c4 ck where
    r: "core_allocatePage KERNEL_HEAP_RESERVED_PAGES c3 = (p, c4)"
      "core_addMemory p KERNEL_HEAP_RESERVED_PAGES (pmcore_init False) = Inr ck"
      "core_inv c4" "core_inv ck" "\<not> iv_supports_coalesce ck" "iv_supports_coalesce c4"
      "core_pages c3 = core_pages c4 + core_pages ck" "iv_ranges c4 = iv_ranges c3"
      "size (core_pages ck) = KERNEL_HEAP_RESERVED_PAGES" by blast
  let ?t = "of_nat (?n1 + ?n2 + ?n3) :: u64"
  let ?s = "\<lparr>iv_pagesAvail = ?t, iv_pagesTotal = ?t, heap = c4, heapKernel = ck,
    cv_coalesce_count = 0, cv_low_page_count = ?t, forced = 0\<rparr>"
  have "pm_initialize e hb = Inr ?s"
    using c1(1) c2(1) c3(1) r(1,2) by (auto simp: pm_initialize_def Let_def gap split: if_splits)
  moreover have pg: "pm_pages ?s = core_pages c3" using r(7) by (simp add: pm_pages_def)
  moreover have tot: "size (core_pages c3) = ?n1 + ?n2 + ?n3" using c1(4) c2(3) c3(3) by simp
  moreover have "pm_good ?s"
    using r c3(2) tot pg by (auto simp: pm_good_def pm_inv_def pm_known_def built_def proper_def)
  ultimately show ?thesis using c3(2) r(9) by (auto simp: built_def)
qed

lemma pm_initialize_example:
  "\<exists>s. pm_initialize MEGABYTE (8 * MEGABYTE) = Inr s \<and> pm_good s \<and> proper (pm_pages s)"
proof -
  have "pageTableOffset MEGABYTE + PTSIZE \<le> SINGLE_CACHE_SIZE_BYTES"
    by (simp add: pageTableOffset_def endPreservedOffset_def ALIGN_PAGE_def ALIGN_X_def PAGESIZE_def
        PT_ALIGNMENT_def PTSIZE_def MEGABYTE_def SINGLE_CACHE_SIZE_BYTES_def)
  then show ?thesis using pm_initialize_good [of MEGABYTE "8 * MEGABYTE"]
    by (auto simp: MEGABYTE_def SINGLE_CACHE_SIZE_BYTES_def PAGESIZE_def)
qed

lemma pm_allocatePage_oom_total:
  "\<exists>p s'. pm_allocatePage n u True s = Inr (p, s')"
  by (simp add: pm_allocatePage_def Let_def split: prod.split)

text \<open>Blocks of more pages than the largest bucket are counted but not kept.\<close>

lemma core_freePage_oversize:
  assumes "p \<noteq> NULL"
  shows "core_freePage p (2 ^ BUCKETS) over c = c\<lparr>iv_available := iv_available c + of_nat (2 ^ BUCKETS)\<rparr>"
proof -
  have "top_bit 65536 = 16" by (simp add: top_bit.simps)
  with assms show ?thesis
    by (simp add: core_freePage_def free_blocks.simps push_bucket_def BUCKETS_def)
qed

section \<open>Properties\<close>

text \<open>C1. From the moment the page manager is initialised, whatever its clients allocate, release and
  coalesce in whatever order: the pages they own are pairwise different and none of them is still in
  the manager, every page of the initial heap is either owned or held, and the statistic of
  available pages is the exact number of pages held.\<close>

theorem pm_pages_never_shared:
  assumes "pm_initialize e hb = Inr s0" and "pm_good s0" and "proper (pm_pages s0)"
    and "client_run pm_alloc pm_freePage pm_coalesce s0 s bs"
  shows "distinct (blocks_pages bs) \<and> set (blocks_pages bs) \<inter> set_mset (pm_pages s) = {}
    \<and> pm_pages s0 = pm_pages s + mset (blocks_pages bs)
    \<and> iv_pagesAvail s = of_nat (size (pm_pages s))"
  using pm.run_disjoint [OF assms(4,2,3)] pm.run_conserves [OF assms(4,2)]
  by (auto simp: pm_good_def pm_inv_def)

theorem pm_pages_never_shared_witness:
  "\<exists>s0 p s bs. pm_initialize MEGABYTE (8 * MEGABYTE) = Inr s0 \<and> pm_alloc (False, True) 3 s0 = Inr (p, s)
    \<and> bs = (if p = NULL then [] else [(p, 3)])
    \<and> distinct (blocks_pages bs) \<and> pm_pages s0 = pm_pages s + mset (blocks_pages bs)"
proof -
  obtain s0 where s0: "pm_initialize MEGABYTE (8 * MEGABYTE) = Inr s0" "pm_good s0" "proper (pm_pages s0)"
    using pm_initialize_example by blast
  obtain p s where a: "pm_alloc (False, True) 3 s0 = Inr (p, s)"
    using pm_allocatePage_oom_total [of 3 False s0] by (auto simp: pm_alloc_def)
  have "client_run pm_alloc pm_freePage pm_coalesce s0 s (if p = NULL then [] else [(p, 3)])"
    using run_alloc [where alloc = pm_alloc, OF run_start _ a, of pm_freePage pm_coalesce] by simp
  with pm_pages_never_shared [OF s0] s0 a show ?thesis by blast
qed

lemma pm_example_page:
  "\<exists>s0 p s. pm_initialize MEGABYTE (8 * MEGABYTE) = Inr s0 \<and> pm_good s0 \<and> proper (pm_pages s0)
    \<and> pm_alloc (False, True) 1 s0 = Inr (p, s) \<and> p \<noteq> NULL"
proof -
  have lay: "pageTableOffset MEGABYTE + PTSIZE \<le> SINGLE_CACHE_SIZE_BYTES"
    by (simp add: pageTableOffset_def endPreservedOffset_def ALIGN_PAGE_def ALIGN_X_def PAGESIZE_def
        PT_ALIGNMENT_def PTSIZE_def MEGABYTE_def SINGLE_CACHE_SIZE_BYTES_def)
  obtain s0 where s0: "pm_initialize MEGABYTE (8 * MEGABYTE) = Inr s0" "pm_good s0"
    "size (core_pages (heapKernel s0)) = KERNEL_HEAP_RESERVED_PAGES" "proper (pm_pages s0)"
    using pm_initialize_good [OF _ lay, of "8 * MEGABYTE"]
    by (auto simp: MEGABYTE_def SINGLE_CACHE_SIZE_BYTES_def PAGESIZE_def)
  obtain p s where a: "pm_alloc (False, True) 1 s0 = Inr (p, s)"
    using pm_allocatePage_oom_total [of 1 False s0] by (auto simp: pm_alloc_def)
  have "p \<noteq> NULL"
  proof
    assume "p = NULL"
    with a have n: "fst (core_allocatePage 1 (heapKernel s0)) = NULL"
      by (auto simp: pm_alloc_def pm_allocatePage_def Let_def split: prod.splits if_splits)
    have ci: "core_inv (heapKernel s0)" using s0(2) by (simp add: pm_good_def pm_inv_def)
    have "req_bucket 1 = 0" by (simp add: req_bucket_def top_bit.simps)
    with n core_allocatePage_NULL(2) [OF ci, of 1] have "\<forall>k<BUCKETS. iv_heap (heapKernel s0) k = []"
      by (metis prod.collapse zero_le)
    then have "core_pages (heapKernel s0) = {#}" by (simp add: core_pages_def heap_pages_def)
    with s0(3) show False by (simp add: KERNEL_HEAP_RESERVED_PAGES_def)
  qed
  with s0 a show ?thesis by blast
qed

text \<open>C27. In the same runs no assertion of the page manager fires: releasing an owned block and
  coalescing always succeed.\<close>

theorem pm_release_and_coalesce_succeed:
  assumes "pm_initialize e hb = Inr s0" and "pm_good s0"
    and "client_run pm_alloc pm_freePage pm_coalesce s0 s (bs @ (p, n) # cs)"
  shows "(\<exists>s'. pm_freePage p n s = Inr s') \<and> (\<exists>s'. pm_coalesce s = Inr s')"
  using pm.release_owned [OF assms(3,2)] by blast

theorem pm_release_and_coalesce_succeed_witness:
  "\<exists>s0 p s. pm_initialize MEGABYTE (8 * MEGABYTE) = Inr s0 \<and> pm_alloc (False, True) 1 s0 = Inr (p, s)
    \<and> p \<noteq> NULL \<and> (\<exists>s'. pm_freePage p 1 s = Inr s') \<and> (\<exists>s'. pm_coalesce s = Inr s')"
proof -
  obtain s0 p s where s0: "pm_initialize MEGABYTE (8 * MEGABYTE) = Inr s0" "pm_good s0"
    and a: "pm_alloc (False, True) 1 s0 = Inr (p, s)" "p \<noteq> NULL" using pm_example_page by blast
  have "client_run pm_alloc pm_freePage pm_coalesce s0 s ([] @ (p, 1) # [])"
    using run_alloc [where alloc = pm_alloc, OF run_start _ a(1), of pm_freePage pm_coalesce] a(2) by simp
  with pm_release_and_coalesce_succeed [OF s0] s0 a show ?thesis by blast
qed

text \<open>\<open>PageManager::_initialize\<close> succeeds for every layout in which the page table fits below the
  first 4MB and the cache is large enough, and leaves a heap of distinct, page-aligned pages inside
  the registered ranges, with ten of them in the kernel's reserve.\<close>

theorem pm_initialize_establishes:
  assumes "0 < e" and "pageTableOffset e + PTSIZE \<le> SINGLE_CACHE_SIZE_BYTES"
    and "SINGLE_CACHE_SIZE_BYTES + 17 * PAGESIZE \<le> hb" and "hb < 2 ^ 64"
  shows "\<exists>s. pm_initialize e hb = Inr s \<and> pm_good s \<and> proper (pm_pages s)
    \<and> size (core_pages (heapKernel s)) = KERNEL_HEAP_RESERVED_PAGES
    \<and> iv_pagesTotal s = of_nat (size (pm_pages s))"
  using assms by (rule pm_initialize_good)

theorem pm_initialize_establishes_witness:
  "\<exists>s. pm_initialize MEGABYTE (8 * MEGABYTE) = Inr s \<and> pm_good s
    \<and> size (core_pages (heapKernel s)) = KERNEL_HEAP_RESERVED_PAGES"
  using pm_initialize_establishes [of MEGABYTE "8 * MEGABYTE"]
  by (auto simp: pageTableOffset_def endPreservedOffset_def ALIGN_PAGE_def ALIGN_X_def PAGESIZE_def
      PT_ALIGNMENT_def PTSIZE_def MEGABYTE_def SINGLE_CACHE_SIZE_BYTES_def)

text \<open>\<open>PageManagerCore::allocatePage\<close> for \<open>n\<close> pages fails only when every bucket of blocks large
  enough is empty, and then changes nothing; otherwise it takes exactly the \<open>n\<close> pages it returns out
  of the heap (what it split off goes back) and the statistic stays exact.\<close>

theorem core_allocatePage_exact:
  assumes "core_inv c" and "0 < n" and "core_allocatePage n c = (p, c')"
  shows "if p = NULL then c' = c \<and> (\<forall>b<BUCKETS. n \<le> 2 ^ b \<longrightarrow> iv_heap c b = [])
    else core_inv c' \<and> core_pages c = core_pages c' + mset (pages p n)"
proof (cases "p = NULL")
  case True
  with core_allocatePage_NULL [of c n c'] assms req_bucket_least [OF assms(2)] show ?thesis by auto
next
  case False
  with core_allocatePage_takes [OF assms False] show ?thesis by simp
qed

theorem core_allocatePage_exact_witness:
  "let c = (pmcore_init True)\<lparr>iv_heap := (\<lambda>_. [])(3 := [32768]), iv_available := 8\<rparr>;
       (p, c') = core_allocatePage 3 c
   in p \<noteq> NULL \<and> core_inv c' \<and> core_pages c = core_pages c' + mset (pages p 3)"
proof -
  let ?c = "(pmcore_init True)\<lparr>iv_heap := (\<lambda>_. [])(3 := [32768]), iv_available := 8\<rparr>"
  have pg: "heap_pages ((\<lambda>_. [])(3 := [32768])) = mset (pages 32768 8)"
    using heap_pages_upd [of 3 "\<lambda>_. []" "[32768]"] by (simp add: BUCKETS_def heap_pages_def)
  have inv: "core_inv ?c" by (simp add: core_inv_def no_null_def pg)
  obtain p c' where r: "core_allocatePage 3 ?c = (p, c')" by fastforce
  have "3 < BUCKETS" "(3::nat) \<le> 2 ^ 3" "iv_heap ?c 3 \<noteq> []" by (simp_all add: BUCKETS_def)
  moreover have "\<forall>b<BUCKETS. (3::nat) \<le> 2 ^ b \<longrightarrow> iv_heap ?c b = []" if "p = NULL"
    using core_allocatePage_exact [OF inv _ r] that by simp
  ultimately have "p \<noteq> NULL" by blast
  with core_allocatePage_exact [OF inv _ r] r show ?thesis by (simp add: Let_def)
qed

text \<open>Coalescing changes neither the pages held nor their number, and afterwards no bucket but the
  largest holds an even block together with its buddy: every possible merge has been made.\<close>

theorem core_coalesce_complete:
  assumes "core_inv c" and "iv_supports_coalesce c"
    and "in_ranges (iv_ranges c) (iv_heap c)" and "proper (core_pages c)"
  shows "\<exists>n' c'. core_coalesce (n, c) = Inr (n', c') \<and> core_inv c' \<and> core_pages c' = core_pages c
    \<and> iv_available c' = iv_available c
    \<and> (\<forall>b<BUCKETS - 1. \<not> mergeable (iv_ranges c) b (iv_heap c' b))"
  using core_coalesce_spec [OF assms(1-3)] assms(4) by blast

theorem core_coalesce_complete_witness:
  "let c = (pmcore_init True)\<lparr>iv_heap := (\<lambda>_. [])(0 := [8192, 4096]), iv_available := 2,
       iv_ranges := [(4096, 8192), (0, 0), (0, 0), (0, 0)]\<rparr>
   in \<exists>n' c'. core_coalesce (0, c) = Inr (n', c') \<and> core_pages c' = core_pages c
    \<and> \<not> mergeable (iv_ranges c) 0 (iv_heap c' 0)"
proof -
  let ?c = "(pmcore_init True)\<lparr>iv_heap := (\<lambda>_. [])(0 := [8192, 4096]), iv_available := 2,
       iv_ranges := [(4096, 8192), (0, 0), (0, 0), (0, 0)]\<rparr>"
  have pg: "heap_pages ((\<lambda>_. [])(0 := [8192, 4096])) = {#8192, 4096#}"
    using heap_pages_upd [of 0 "\<lambda>_. []" "[8192, 4096]"]
    by (simp add: BUCKETS_def heap_pages_def pages_def add_mset_commute)
  have "core_inv ?c" "iv_supports_coalesce ?c" "in_ranges (iv_ranges ?c) (iv_heap ?c)"
    "proper (core_pages ?c)"
    by (auto simp: core_inv_def no_null_def pg pmcore_init_def in_ranges_def core_pages_def proper_def PAGESIZE_def)
  from core_coalesce_complete [OF this, of 0] show ?thesis by (auto simp: Let_def BUCKETS_def)
qed

end
