(* ===== verification/Heap_Manager.thy ===== *)
theory Heap_Manager
  imports Page_Manager
begin

text \<open>
  The small heap of \<open>kernel/heapmgr.C\<close>, a Fibonacci buddy system on pages of the page manager:
  bucket search, allocation with splitting, release, and the coalescing of free neighbours. Chunk
  headers are a map from addresses to records, data is a map from addresses to bytes; the free list
  of a bucket is a list from the top of its lock-free stack. The calls are those of kernel mode, in a
  build without \<open>CONFIG_MALLOC_FENCING\<close> and \<open>HOSTBOOT_DEBUG\<close>.
\<close>

section \<open>Model\<close>

record chunk_t =
  cfree :: char
  ccoalesce :: char
  csize :: u16
  callocator :: u16
  cbucket :: nat

text \<open>A descriptor is named by its own address.\<close>

record big_chunk_t =
  bc_self :: addr
  bc_addr :: addr
  bc_page_count :: nat

record heapmgr =
  chunks :: "addr \<Rightarrow> chunk_t"
  bytes :: "addr \<Rightarrow> u8"
  first_chunk :: "nat \<Rightarrow> addr list"
  big_chunk_stack :: "big_chunk_t list"
  huge_chunk_stack :: "big_chunk_t list"
  cv_coalesced :: u32
  cv_free_bytes :: u32
  cv_free_chunks :: u32
  cv_smallheap_page_count :: u32
  cv_largeheap_page_count :: u32
  cv_largeheap_page_max :: u32
  cv_hugeblock_allocated :: u32
  page_mgr :: pagemgr

definition HM_BUCKETS :: nat where
  "HM_BUCKETS = 12"

definition MIN_BUCKET_SIZE :: nat where
  "MIN_BUCKET_SIZE = 16"

definition FIB_START_INCR :: nat where
  "FIB_START_INCR = 16"

definition CHUNK_HEADER_PLUS_RESERVED :: nat where
  "CHUNK_HEADER_PLUS_RESERVED = 9"

fun BUCKET_SIZE :: "nat \<Rightarrow> nat" where
  "BUCKET_SIZE 0 = MIN_BUCKET_SIZE"
| "BUCKET_SIZE (Suc 0) = BUCKET_SIZE 0 + FIB_START_INCR"
| "BUCKET_SIZE (Suc (Suc n)) = BUCKET_SIZE (Suc n) + BUCKET_SIZE n"

definition cv_chunk_size :: "nat list" where
  "cv_chunk_size = map BUCKET_SIZE [0..<HM_BUCKETS]"

definition MAX_SMALL_ALLOC_SIZE :: nat where
  "MAX_SMALL_ALLOC_SIZE = BUCKET_SIZE 11 - CHUNK_HEADER_PLUS_RESERVED"

text \<open>
  An index beyond the table reads past its end in the source. The invariant below keeps every index
  in range; the model has the size of a page there.
\<close>

definition bucketByteSize :: "nat \<Rightarrow> nat" where
  "bucketByteSize b = (if b < HM_BUCKETS then cv_chunk_size ! b else PAGESIZE)"

text \<open>
  \<open>bucketIndex\<close>: a binary search that stops early. For the smallest size it computes index -1 and
  reads the word before the table: \<open>below\<close> is that word.
\<close>

function bucket_search :: "nat \<Rightarrow> nat \<Rightarrow> nat \<Rightarrow> int \<Rightarrow> nat \<Rightarrow> nat" where
  "bucket_search below i_sz low_idx high_idx bucket =
     (if int low_idx \<le> high_idx
      then let b = (low_idx + nat high_idx) div 2
           in if i_sz > bucketByteSize b then bucket_search below i_sz (b + 1) high_idx b
              else let h = int b - 1
                   in if i_sz > (if h < 0 then below else bucketByteSize (nat h)) then b
                      else bucket_search below i_sz low_idx h b
      else bucket)"
  by pat_completeness auto
termination
  by (relation "measure (\<lambda>(below, sz, l, h, b). nat (h - int l + 1))") auto

declare bucket_search.simps [simp del]

definition bucketIndex :: "nat \<Rightarrow> nat \<Rightarrow> nat" where
  "bucketIndex below i_sz =
     (if i_sz > bucketByteSize (HM_BUCKETS - 1) then HM_BUCKETS
      else bucket_search below i_sz 0 (int HM_BUCKETS - 1) 0)"

definition upd_chunk :: "addr \<Rightarrow> (chunk_t \<Rightarrow> chunk_t) \<Rightarrow> heapmgr \<Rightarrow> heapmgr" where
  "upd_chunk c f h = h\<lparr>chunks := (chunks h)(c := f (chunks h c))\<rparr>"

definition hm_push_bucket :: "addr \<Rightarrow> nat \<Rightarrow> heapmgr \<Rightarrow> heapmgr" where
  "hm_push_bucket c b h =
     (if b \<ge> HM_BUCKETS then h
      else (upd_chunk c (\<lambda>r. r\<lparr>cfree := CHR ''F'', csize := 0, callocator := 0\<rparr>) h)
             \<lparr>first_chunk := (first_chunk h)(b := c # first_chunk h b)\<rparr>)"

function hm_pop_bucket :: "nat \<Rightarrow> nat \<Rightarrow> heapmgr \<Rightarrow> addr \<times> heapmgr" where
  "hm_pop_bucket below b h =
     (if b \<ge> HM_BUCKETS then (NULL, h)
      else case first_chunk h b of
        c # cs \<Rightarrow> (c, h\<lparr>first_chunk := (first_chunk h)(b := cs)\<rparr>)
      | [] \<Rightarrow>
          (case hm_pop_bucket below (b + 1) h of
             (c, h1) \<Rightarrow>
               if c = NULL then (NULL, h1)
               else let c_size = bucketByteSize b;
                        c1_size = bucketByteSize (cbucket (chunks h1 c)) - c_size;
                        c1_bucket = bucketIndex below c1_size;
                        c1 = c + c_size;
                        h2 = upd_chunk c (\<lambda>r. r\<lparr>cbucket := b\<rparr>) (upd_chunk c1 (\<lambda>r. r\<lparr>cbucket := c1_bucket\<rparr>) h1)
                    in (c, if c1_size \<ge> MIN_BUCKET_SIZE then hm_push_bucket c1 c1_bucket h2 else h2)))"
  by pat_completeness auto
termination
  by (relation "measure (\<lambda>(below, b, h). HM_BUCKETS - b)") auto

declare hm_pop_bucket.simps [simp del]

text \<open>The loop of \<open>newPage\<close>.\<close>

definition fit_bucket :: "nat \<Rightarrow> nat \<Rightarrow> nat" where
  "fit_bucket below remaining =
     (let bucket = bucketIndex below remaining
      in if bucket = HM_BUCKETS \<or> bucketByteSize bucket > remaining then bucket - 1 else bucket)"

lemma BUCKET_SIZE_pos: "16 \<le> BUCKET_SIZE n"
  by (induction n rule: BUCKET_SIZE.induct) (auto simp: MIN_BUCKET_SIZE_def)

lemma bucketByteSize_pos: "16 \<le> bucketByteSize b"
  by (simp add: bucketByteSize_def cv_chunk_size_def BUCKET_SIZE_pos PAGESIZE_def)

function carve :: "nat \<Rightarrow> addr \<Rightarrow> nat \<Rightarrow> heapmgr \<Rightarrow> heapmgr" where
  "carve below c remaining h =
     (if remaining \<ge> MIN_BUCKET_SIZE
      then let bucket = fit_bucket below remaining; bsize = bucketByteSize bucket;
               h1 = hm_push_bucket c bucket (upd_chunk c (\<lambda>r. r\<lparr>cbucket := bucket\<rparr>) h)
           in carve below (c + bsize) (remaining - bsize) h1
      else h)"
  by pat_completeness auto
termination
proof (relation "measure (\<lambda>(below, c, r, h). r)")
  fix below c r h bucket bsize h1
  assume "MIN_BUCKET_SIZE \<le> r" "bsize = bucketByteSize bucket"
  then show "((below, c + bsize, r - bsize, h1), (below, c, r, h)) \<in> measure (\<lambda>(below, c, r, h). r)"
    using bucketByteSize_pos [of bucket] by (simp add: MIN_BUCKET_SIZE_def)
qed simp

declare carve.simps [simp del]

definition newPage :: "nat \<Rightarrow> heapmgr \<Rightarrow> kerror + heapmgr" where
  "newPage below h =
     sbind (pm_alloc (False, False) 1 (page_mgr h)) (\<lambda>(page, s).
       Inr (carve below page PAGESIZE
         (h\<lparr>page_mgr := s, cv_smallheap_page_count := cv_smallheap_page_count h + 1\<rparr>)))"

text \<open>\<open>_allocate\<close>; \<open>tid\<close> is what \<open>task_gettid\<close> returns.\<close>

partial_function (option) hm_allocate :: "nat \<Rightarrow> u16 \<Rightarrow> nat \<Rightarrow> heapmgr \<Rightarrow> (kerror + addr \<times> heapmgr) option" where
  "hm_allocate below tid i_sz h =
     (case hm_pop_bucket below (bucketIndex below (i_sz + CHUNK_HEADER_PLUS_RESERVED)) h of
        (chunk, h1) \<Rightarrow>
          if chunk = NULL then obind (Some (newPage below h1)) (\<lambda>h2. hm_allocate below tid i_sz h2)
          else if cfree (chunks h1 chunk) \<noteq> CHR ''F'' then Some (Inl CritAssert)
          else let size = bucketByteSize (cbucket (chunks h1 chunk));
                   h2 = h1\<lparr>bytes := (bytes h1)(chunk + size - 1 := of_char (CHR ''V''))\<rparr>
               in Some (Inr (chunk + 8, upd_chunk chunk (\<lambda>r. r\<lparr>cfree := CHR ''A'', csize := of_nat i_sz,
                    callocator := tid\<rparr>) h2)))"

text \<open>The small case of \<open>_free\<close>.\<close>

definition hm_free_small :: "addr \<Rightarrow> heapmgr \<Rightarrow> kerror + heapmgr" where
  "hm_free_small i_ptr h =
     (let chunk = i_ptr - 8; size = bucketByteSize (cbucket (chunks h chunk))
      in if cfree (chunks h chunk) = CHR ''F'' then Inl CritAssert
         else if bytes h (chunk + size - 1) \<noteq> of_char (CHR ''V'') then Inl TaskCrash
         else Inr (hm_push_bucket chunk (cbucket (chunks h chunk)) h))"

section \<open>The bucket search\<close>

lemma BUCKET_SIZE_Suc: "BUCKET_SIZE n < BUCKET_SIZE (Suc n)"
  by (cases n) (use BUCKET_SIZE_pos in \<open>simp_all add: FIB_START_INCR_def MIN_BUCKET_SIZE_def Suc_le_eq less_le_trans [OF _ BUCKET_SIZE_pos]\<close>)

lemma bucketByteSize_less: "a < b \<Longrightarrow> b < HM_BUCKETS \<Longrightarrow> bucketByteSize a < bucketByteSize b"
  using lift_Suc_mono_less [of BUCKET_SIZE a b] BUCKET_SIZE_Suc by (simp add: bucketByteSize_def cv_chunk_size_def)

lemma bucketByteSize_le: "a \<le> b \<Longrightarrow> b < HM_BUCKETS \<Longrightarrow> bucketByteSize a \<le> bucketByteSize b"
  using bucketByteSize_less [of a b] by (cases "a = b") auto

text \<open>Every bucket below the answer is too small, and the answer is large enough.\<close>

lemma bucket_search_least:
  assumes "int low \<le> high" "high < int HM_BUCKETS" "i_sz \<le> bucketByteSize (nat high)"
    "\<forall>b<low. bucketByteSize b < i_sz"
  shows "bucket_search below i_sz low high b0 < HM_BUCKETS
    \<and> i_sz \<le> bucketByteSize (bucket_search below i_sz low high b0)
    \<and> (\<forall>b<bucket_search below i_sz low high b0. bucketByteSize b < i_sz)"
  using assms
proof (induction below i_sz low high b0 rule: bucket_search.induct)
  case (1 below i_sz low high b0)
  let ?b = "(low + nat high) div 2"
  have b: "low \<le> ?b" "int ?b \<le> high" using 1(3) by linarith+
  have hb: "nat high < HM_BUCKETS" using 1(3,4) by linarith
  have bl: "?b < HM_BUCKETS" using b(2) hb by linarith
  have below_b: "bucketByteSize i < i_sz" if "i \<le> j" "bucketByteSize j < i_sz" "j < HM_BUCKETS" for i j
    using bucketByteSize_le [OF that(1,3)] that(2) by linarith
  show ?case
  proof (cases "i_sz > bucketByteSize ?b")
    case True
    then have "?b \<noteq> nat high" using 1(5) by auto
    with b have le: "int (?b + 1) \<le> high" by linarith
    have "bucketByteSize i < i_sz" if "i < ?b + 1" for i
      using below_b [of i ?b] that True bl by linarith
    with 1(1) [OF 1(3) refl True le 1(4,5)] 1(3) True show ?thesis
      by (simp add: bucket_search.simps [of below i_sz low] Let_def)
  next
    case False
    consider (stop) "0 < ?b" "i_sz > bucketByteSize (?b - 1)" | (zero) "?b = 0" | (go) "0 < ?b" "i_sz \<le> bucketByteSize (?b - 1)"
      by linarith
    then show ?thesis
    proof cases
      case stop
      have "bucketByteSize i < i_sz" if "i < ?b" for i
        using below_b [of i "?b - 1"] that stop bl by linarith
      with stop False bl 1(3) show ?thesis
        by (simp add: bucket_search.simps [of below i_sz low] Let_def nat_diff_distrib)
    next
      case zero
      then have "bucket_search below i_sz low high b0 = 0"
        using False 1(3) by (simp add: bucket_search.simps [of below i_sz low] bucket_search.simps [of below i_sz 0 "-1"] Let_def)
      with zero False bl show ?thesis by simp
    next
      case go
      have l: "int low \<le> int ?b - 1"
      proof -
        have "bucketByteSize (?b - 1) < i_sz" if "low = ?b" using that go(1) 1(6) by auto
        with go b(1) show ?thesis by (cases "low = ?b") auto
      qed
      have n: "nat (int ?b - 1) = ?b - 1" by simp
      have eq: "bucket_search below i_sz low high b0 = bucket_search below i_sz low (int ?b - 1) ?b"
        using go False 1(3) n by (subst bucket_search.simps) (simp only: Let_def if_True if_False not_less, simp)
      have nb: "\<not> (if int ?b - 1 < 0 then below else bucketByteSize (nat (int ?b - 1))) < i_sz"
        and hi: "int ?b - 1 < int HM_BUCKETS" and sz: "i_sz \<le> bucketByteSize (nat (int ?b - 1))"
        using go n bl by simp_all
      from 1(2) [OF 1(3) refl False refl nb l hi sz 1(6)] show ?thesis unfolding eq .
    qed
  qed
qed

lemma bucketIndex_least:
  assumes "i_sz \<le> bucketByteSize (HM_BUCKETS - 1)"
  shows "bucketIndex below i_sz < HM_BUCKETS" "i_sz \<le> bucketByteSize (bucketIndex below i_sz)"
    "b < bucketIndex below i_sz \<Longrightarrow> bucketByteSize b < i_sz"
  using bucket_search_least [of 0 "int HM_BUCKETS - 1" i_sz below 0] assms
  by (simp_all add: bucketIndex_def HM_BUCKETS_def)

lemma bucketIndex_size: "b < HM_BUCKETS \<Longrightarrow> bucketIndex below (bucketByteSize b) = b"
proof -
  assume b: "b < HM_BUCKETS"
  have le: "bucketByteSize b \<le> bucketByteSize (HM_BUCKETS - 1)" using b by (intro bucketByteSize_le) (auto simp: HM_BUCKETS_def)
  note i = bucketIndex_least [where below = below, OF le]
  show ?thesis
  proof (rule linorder_cases [of "bucketIndex below (bucketByteSize b)" b])
    assume "bucketIndex below (bucketByteSize b) < b"
    with bucketByteSize_less [OF this b] i(2) show ?thesis by linarith
  next
    assume "b < bucketIndex below (bucketByteSize b)"
    with i(3) show ?thesis by blast
  qed simp
qed

lemma bucketIndex_large: "bucketByteSize (HM_BUCKETS - 1) < i_sz \<Longrightarrow> bucketIndex below i_sz = HM_BUCKETS"
  by (simp add: bucketIndex_def)

lemma sizes: "bucketByteSize 0 = 16" "bucketByteSize 1 = 32" "bucketByteSize (Suc 0) = 32" "bucketByteSize 6 = 336" "bucketByteSize 7 = 544"
  "bucketByteSize 11 = 3728"
  by (simp_all add: bucketByteSize_def cv_chunk_size_def HM_BUCKETS_def MIN_BUCKET_SIZE_def FIB_START_INCR_def
      numeral_eq_Suc)

lemma buckets_12 [simp]: "HM_BUCKETS - 1 = 11" "HM_BUCKETS - Suc 0 = 11"
  by (simp_all add: HM_BUCKETS_def)

text \<open>The two parts of a chunk that is split, and the neighbours that can be merged, are Fibonacci.\<close>

lemma split_sizes:
  assumes "b + 1 < HM_BUCKETS"
  shows "bucketByteSize (b + 1) - bucketByteSize b = bucketByteSize (b - 1)" "bucketByteSize b < bucketByteSize (b + 1)"
proof -
  show "bucketByteSize (b + 1) - bucketByteSize b = bucketByteSize (b - 1)"
    using assms by (cases b) (simp_all add: bucketByteSize_def cv_chunk_size_def FIB_START_INCR_def MIN_BUCKET_SIZE_def)
  show "bucketByteSize b < bucketByteSize (b + 1)" using bucketByteSize_less [of b "b + 1"] assms by simp
qed

section \<open>Coalescing\<close>

text \<open>The chain of chunks that \<open>_coalesce\<close> links through \<open>next\<close> is a list.\<close>

fun drain_chain :: "addr list \<Rightarrow> addr list \<times> heapmgr \<Rightarrow> kerror + addr list \<times> heapmgr" where
  "drain_chain [] r = Inr r"
| "drain_chain (c # cs) r =
     (if cfree (chunks (snd r) c) \<noteq> CHR ''F'' then Inl KAssert
      else drain_chain cs (c # fst r, upd_chunk c (\<lambda>x. x\<lparr>ccoalesce := CHR ''C''\<rparr>) (snd r)))"

definition free_list :: "heapmgr \<Rightarrow> addr list" where
  "free_list h = concat (map (first_chunk h) [0..<HM_BUCKETS])"

definition drain_all :: "heapmgr \<Rightarrow> kerror + addr list \<times> heapmgr" where
  "drain_all h = drain_chain (free_list h) ([], h\<lparr>first_chunk := (\<lambda>b. if b < HM_BUCKETS then [] else first_chunk h b)\<rparr>)"

definition marked :: "heapmgr \<Rightarrow> addr \<Rightarrow> bool" where
  "marked h c \<longleftrightarrow> cfree (chunks h c) = CHR ''F'' \<and> ccoalesce (chunks h c) = CHR ''C''"

text \<open>The body of the inner loop: the state after a merge of \<open>chunk\<close> with its neighbour, if there is one.\<close>

definition try_merge :: "nat \<Rightarrow> addr \<Rightarrow> heapmgr \<Rightarrow> heapmgr option" where
  "try_merge below chunk h =
     (let size = bucketByteSize (cbucket (chunks h chunk)); buddy = chunk + size;
          newSize = size + bucketByteSize (cbucket (chunks h buddy)); newBucket = bucketIndex below newSize
      in if \<not> marked h chunk then None
         else if buddy div PAGESIZE \<noteq> chunk div PAGESIZE then None
         else if \<not> marked h buddy then None
         else if newBucket \<ge> HM_BUCKETS \<or> bucketByteSize newBucket \<noteq> newSize then None
         else Some ((upd_chunk chunk (\<lambda>r. r\<lparr>cbucket := newBucket\<rparr>)
                (upd_chunk buddy (\<lambda>r. r\<lparr>cfree := CHR 0x00, ccoalesce := CHR 0x00\<rparr>) h))
                \<lparr>cv_coalesced := cv_coalesced h + 1\<rparr>))"

lemma try_merge_grows:
  assumes "try_merge below c h = Some h'"
  shows "HM_BUCKETS - cbucket (chunks h' c) < HM_BUCKETS - cbucket (chunks h c)"
    "d \<noteq> c \<Longrightarrow> cbucket (chunks h' d) = cbucket (chunks h d)"
proof -
  let ?b = "cbucket (chunks h c)" and ?b' = "cbucket (chunks h' c)"
  have s: "?b' < HM_BUCKETS" "bucketByteSize ?b < bucketByteSize ?b'"
    using assms bucketByteSize_pos [of "cbucket (chunks h (c + bucketByteSize ?b))"]
    by (auto simp: try_merge_def Let_def upd_chunk_def split: if_splits)
  have "?b < ?b'"
  proof (rule ccontr)
    assume n: "\<not> ?b < ?b'"
    have "bucketByteSize ?b' \<le> bucketByteSize ?b"
    proof (cases "?b < HM_BUCKETS")
      case True
      then show ?thesis using n bucketByteSize_le [of ?b' ?b] by simp
    next
      case False
      then have "bucketByteSize ?b = PAGESIZE" by (simp add: bucketByteSize_def)
      moreover have "bucketByteSize ?b' \<le> bucketByteSize 11" using s(1) by (intro bucketByteSize_le) (auto simp: HM_BUCKETS_def)
      ultimately show ?thesis by (simp add: sizes PAGESIZE_def)
    qed
    with s(2) show False by simp
  qed
  with s(1) show "HM_BUCKETS - ?b' < HM_BUCKETS - ?b" by simp
  show "d \<noteq> c \<Longrightarrow> cbucket (chunks h' d) = cbucket (chunks h d)"
    using assms by (auto simp: try_merge_def Let_def upd_chunk_def split: if_splits)
qed

text \<open>One pass over the chain; a chunk that was merged is tried again.\<close>

function merge_pass :: "nat \<Rightarrow> addr list \<Rightarrow> bool \<times> heapmgr \<Rightarrow> bool \<times> heapmgr" where
  "merge_pass below [] r = r"
| "merge_pass below (c # cs) r =
     (case try_merge below c (snd r) of
        Some h' \<Rightarrow> merge_pass below (c # cs) (True, h')
      | None \<Rightarrow> merge_pass below cs r)"
  by pat_completeness auto
termination
proof (relation "measures [\<lambda>(below, cs, r). length cs,
    \<lambda>(below, cs, r). case cs of [] \<Rightarrow> 0 | c # _ \<Rightarrow> HM_BUCKETS - cbucket (chunks (snd r) c)]")
  fix below c cs r h'
  assume "try_merge below c (snd (r :: bool \<times> heapmgr)) = Some h'"
  from try_merge_grows(1) [OF this]
  show "((below, c # cs, True, h'), below, c # cs, r) \<in> measures [\<lambda>(below, cs, r). length cs,
    \<lambda>(below, cs, r). case cs of [] \<Rightarrow> 0 | c # _ \<Rightarrow> HM_BUCKETS - cbucket (chunks (snd r) c)]" by simp
qed auto

declare merge_pass.simps(2) [simp del]

definition room :: "addr list \<Rightarrow> heapmgr \<Rightarrow> nat" where
  "room cs h = (\<Sum>c\<leftarrow>cs. HM_BUCKETS - cbucket (chunks h c))"

lemma room_try_merge:
  assumes "try_merge below c h = Some h'"
  shows "room cs h' \<le> room cs h" "c \<in> set cs \<Longrightarrow> room cs h' < room cs h"
proof -
  have le: "HM_BUCKETS - cbucket (chunks h' d) \<le> HM_BUCKETS - cbucket (chunks h d)" for d
    using try_merge_grows(1) [OF assms] try_merge_grows(2) [OF assms, of d] by (cases "d = c") auto
  then show "room cs h' \<le> room cs h" by (auto simp: room_def intro: sum_list_mono)
  show "c \<in> set cs \<Longrightarrow> room cs h' < room cs h"
  proof (induction cs)
    case (Cons d ds)
    have "room ds h' \<le> room ds h" using le by (auto simp: room_def intro: sum_list_mono)
    with Cons le [of d] try_merge_grows(1) [OF assms] show ?case by (cases "d = c") (auto simp: room_def)
  qed simp
qed

lemma room_merge_pass:
  "set cs \<subseteq> set ds \<Longrightarrow> room ds (snd (merge_pass below cs r)) \<le> room ds (snd r)
     \<and> (fst (merge_pass below cs r) \<longrightarrow> fst r \<or> room ds (snd (merge_pass below cs r)) < room ds (snd r))"
proof (induction below cs r rule: merge_pass.induct)
  case (2 below c cs r)
  show ?case
  proof (cases "try_merge below c (snd r)")
    case None
    with 2(1) [OF None] 2(3) show ?thesis by (simp add: merge_pass.simps(2))
  next
    case (Some h')
    with 2(2) [OF Some] 2(3) room_try_merge [OF Some, of ds] show ?thesis by (simp add: merge_pass.simps(2))
  qed
qed simp

text \<open>The chunks that are still marked, in the order the rebuilt chain has them.\<close>

definition sweep :: "addr list \<Rightarrow> heapmgr \<Rightarrow> addr list" where
  "sweep cs h = rev (filter (marked h) cs)"

lemma room_sweep: "room (sweep cs h) h \<le> room cs h"
  by (induction cs) (auto simp: room_def sweep_def)

lemma room_merged:
  assumes "(True, h1) = merge_pass below cs (False, h)"
  shows "room (sweep cs h1) h1 < room cs h"
  using room_merge_pass [of cs cs below "(False, h)"] room_sweep [of cs h1] unfolding assms [symmetric] by simp

function merge_all :: "nat \<Rightarrow> addr list \<Rightarrow> heapmgr \<Rightarrow> addr list \<times> heapmgr" where
  "merge_all below cs h =
     (case merge_pass below cs (False, h) of
        (merged, h1) \<Rightarrow>
          if merged then merge_all below (sweep cs h1) h1 else (sweep cs h1, h1))"
  by pat_completeness auto
termination
  by (relation "measure (\<lambda>(below, cs, h). room cs h)") (auto intro: room_merged)

declare merge_all.simps [simp del]

fun restore_chunks :: "addr list \<Rightarrow> heapmgr \<Rightarrow> heapmgr" where
  "restore_chunks [] h = h"
| "restore_chunks (c # cs) h =
     (let h1 = upd_chunk c (\<lambda>r. r\<lparr>ccoalesce := CHR 0x00\<rparr>) h;
          h2 = hm_push_bucket c (cbucket (chunks h1 c)) h1
      in restore_chunks cs (h2\<lparr>cv_free_chunks := cv_free_chunks h2 + 1,
           cv_free_bytes := cv_free_bytes h2 + of_nat (bucketByteSize (cbucket (chunks h2 c)) - 8)\<rparr>))"

definition hm_coalesce :: "nat \<Rightarrow> heapmgr \<Rightarrow> kerror + heapmgr" where
  "hm_coalesce below h =
     sbind (drain_all h) (\<lambda>(head, h1).
       case merge_all below head h1 of
         (cs, h2) \<Rightarrow> Inr (restore_chunks cs (h2\<lparr>cv_free_chunks := 0, cv_free_bytes := 0\<rparr>)))"

section \<open>The invariant\<close>

text \<open>
  \<open>cov h M a\<close> counts the chunks of \<open>M\<close> that contain the address \<open>a\<close>. The chunks on the free lists
  and the chunks that are \<open>out\<close> together cover every address of the heap's pages \<open>P\<close> (page numbers)
  exactly once, and nothing else; a chunk lies in one page, and the free ones are in the bucket that
  their header says.
\<close>

abbreviation csz :: "heapmgr \<Rightarrow> addr \<Rightarrow> nat" where
  "csz h c \<equiv> bucketByteSize (cbucket (chunks h c))"

definition cov :: "heapmgr \<Rightarrow> addr multiset \<Rightarrow> addr \<Rightarrow> nat" where
  "cov h M a = (\<Sum>c\<in>#M. of_bool (c \<le> a \<and> a < c + csz h c))"

definition chunk_ok :: "heapmgr \<Rightarrow> addr \<Rightarrow> bool" where
  "chunk_ok h c \<longleftrightarrow> c \<noteq> NULL \<and> cbucket (chunks h c) < HM_BUCKETS \<and> c mod PAGESIZE + csz h c \<le> PAGESIZE"

definition tiled :: "nat set \<Rightarrow> addr multiset \<Rightarrow> heapmgr \<Rightarrow> bool" where
  "tiled P M h \<longleftrightarrow> (\<forall>c\<in>#M. chunk_ok h c) \<and> (\<forall>a. cov h M a = of_bool (a div PAGESIZE \<in> P))"

definition bucketed :: "heapmgr \<Rightarrow> bool" where
  "bucketed h \<longleftrightarrow> (\<forall>b<HM_BUCKETS. \<forall>c\<in>set (first_chunk h b). cbucket (chunks h c) = b \<and> cfree (chunks h c) = CHR ''F'')"

definition heap_inv :: "nat set \<Rightarrow> addr multiset \<Rightarrow> heapmgr \<Rightarrow> bool" where
  "heap_inv P out h \<longleftrightarrow> bucketed h \<and> tiled P (mset (free_list h) + out) h"

lemma cov_simps [simp]:
  "cov h {#} a = 0" "cov h (add_mset c M) a = of_bool (c \<le> a \<and> a < c + csz h c) + cov h M a"
  "cov h (M + N) a = cov h M a + cov h N a"
  by (simp_all add: cov_def)

lemma cov_cong: "(\<And>c. c \<in># M \<Longrightarrow> cbucket (chunks h' c) = cbucket (chunks h c)) \<Longrightarrow> cov h' M a = cov h M a"
  by (induction M) auto

lemma cov_pos: "c \<in># M \<Longrightarrow> c \<le> a \<Longrightarrow> a < c + csz h c \<Longrightarrow> 0 < cov h M a"
  by (auto dest!: multi_member_split)

lemma csz_pos: "0 < csz h c"
  using bucketByteSize_pos [of "cbucket (chunks h c)"] by simp

lemma tiled_apart:
  assumes "tiled P (add_mset c M) h" "d \<in># M" "a < c + csz h c" "c \<le> a" "d \<le> a"
  shows "d + csz h d \<le> a"
proof (rule ccontr)
  assume "\<not> ?thesis"
  then have "0 < cov h M a" using assms(2,5) by (intro cov_pos) auto
  then have "2 \<le> cov h (add_mset c M) a" using assms(3,4) by simp
  moreover have "cov h (add_mset c M) a \<le> 1" using assms(1) unfolding tiled_def by (metis of_bool_def le_refl zero_le_one)
  ultimately show False by linarith
qed

lemma tiled_once: "tiled P (add_mset c M) h \<Longrightarrow> c \<notin># M"
  using tiled_apart [of P c M h c c] csz_pos [of h c] by auto

lemma tiled_inside:
  assumes "tiled P (add_mset c M) h" "c < d" "d < c + csz h c"
  shows "d \<notin># add_mset c M"
  using tiled_apart [OF assms(1), of d d] assms(2,3) csz_pos [of h d] by auto

lemma tiled_cong:
  assumes "tiled P M h" "\<And>c. c \<in># M \<Longrightarrow> cbucket (chunks h' c) = cbucket (chunks h c)"
  shows "tiled P M h'"
  using assms cov_cong [OF assms(2)] by (simp add: tiled_def chunk_ok_def)

text \<open>Two neighbours in place of one chunk, or the other way round.\<close>

lemma cov_split:
  assumes "csz h c = s + s1" "csz h' c = s" "csz h' (c + s) = s1"
    "\<And>d. d \<in># N \<Longrightarrow> cbucket (chunks h' d) = cbucket (chunks h d)"
  shows "cov h' (add_mset (c + s) (add_mset c N)) a = cov h (add_mset c N) a"
  using assms(1-3) cov_cong [OF assms(4)] by auto

lemma free_list_upd:
  assumes "b < HM_BUCKETS" "first_chunk h' = (first_chunk h)(b := x)"
  shows "mset (free_list h') + mset (first_chunk h b) = mset (free_list h) + mset x"
proof -
  have eq: "mset (concat (map f [0..<n])) = (\<Sum>k<n. mset (f k))" for f :: "nat \<Rightarrow> addr list" and n
    by (induction n) (auto simp: lessThan_Suc)
  have "(\<Sum>k\<in>{..<HM_BUCKETS} - {b}. mset (((first_chunk h)(b := x)) k)) = (\<Sum>k\<in>{..<HM_BUCKETS} - {b}. mset (first_chunk h k))"
    by (intro sum.cong) auto
  then show ?thesis using assms
    by (simp add: free_list_def eq sum.remove [of "{..<HM_BUCKETS}" b] add.commute add.left_commute)
qed

lemma upd_chunk_simps [simp]:
  "chunks (upd_chunk c f h) = (chunks h)(c := f (chunks h c))" "first_chunk (upd_chunk c f h) = first_chunk h"
  "free_list (upd_chunk c f h) = free_list h" "bytes (upd_chunk c f h) = bytes h" "page_mgr (upd_chunk c f h) = page_mgr h"
  by (simp_all add: upd_chunk_def free_list_def)

lemma free_list_in: "b < HM_BUCKETS \<Longrightarrow> c \<in> set (first_chunk h b) \<Longrightarrow> c \<in> set (free_list h)"
  by (auto simp: free_list_def)

lemma push_bucket_chunks:
  assumes "b < HM_BUCKETS"
  shows "chunks (hm_push_bucket c b h) = (chunks h)(c := (chunks h c)\<lparr>cfree := CHR ''F'', csize := 0, callocator := 0\<rparr>)"
    "first_chunk (hm_push_bucket c b h) = (first_chunk h)(b := c # first_chunk h b)"
    "bytes (hm_push_bucket c b h) = bytes h" "page_mgr (hm_push_bucket c b h) = page_mgr h"
  using assms by (simp_all add: hm_push_bucket_def)

lemma push_bucket_inv:
  assumes inv: "heap_inv P (add_mset c out) h" and b: "cbucket (chunks h c) = b"
  shows "heap_inv P out (hm_push_bucket c b h)" "d \<in># out \<Longrightarrow> chunks (hm_push_bucket c b h) d = chunks h d"
proof -
  have ti: "tiled P (add_mset c (mset (free_list h) + out)) h" using inv by (simp add: heap_inv_def)
  then have bl: "b < HM_BUCKETS" using b by (auto simp: tiled_def chunk_ok_def)
  note p = push_bucket_chunks [OF bl, of c h]
  have cn: "c \<notin># mset (free_list h) + out" by (rule tiled_once [OF ti])
  show "d \<in># out \<Longrightarrow> chunks (hm_push_bucket c b h) d = chunks h d" using cn p(1) by auto
  have fl: "mset (free_list (hm_push_bucket c b h)) = add_mset c (mset (free_list h))"
    using free_list_upd [OF bl p(2)] by simp
  have "tiled P (add_mset c (mset (free_list h) + out)) (hm_push_bucket c b h)"
    by (rule tiled_cong [OF ti]) (simp add: p(1))
  moreover have "bucketed (hm_push_bucket c b h)"
    using inv b cn by (auto simp: heap_inv_def bucketed_def p(1,2) dest: free_list_in)
  ultimately show "heap_inv P out (hm_push_bucket c b h)" by (simp add: heap_inv_def fl)
qed

lemma hm_pop_bucket_NULL:
  "hm_pop_bucket below b h = (NULL, h') \<Longrightarrow> bucketed h \<Longrightarrow> tiled P (mset (free_list h) + out) h \<Longrightarrow>
     h' = h \<and> (\<forall>k. b \<le> k \<and> k < HM_BUCKETS \<longrightarrow> first_chunk h k = [])"
proof (induction below b h arbitrary: h' rule: hm_pop_bucket.induct)
  case (1 below b h)
  show ?case
  proof (cases "b < HM_BUCKETS")
    case True
    show ?thesis
    proof (cases "first_chunk h b")
      case Nil
      with 1(2) True have "hm_pop_bucket below (b + 1) h = (NULL, h')"
        by (auto simp: hm_pop_bucket.simps [of below b h] Let_def split: prod.splits if_splits)
      with 1(1) [of h'] 1(3,4) True Nil show ?thesis by (metis Suc_eq_plus1 le_antisym not_le not_less_eq_eq)
    next
      case (Cons c cs)
      then have "c \<noteq> NULL" using 1(4) free_list_in [OF True, of c h] by (auto simp: tiled_def chunk_ok_def)
      with 1(2) True Cons show ?thesis by (simp add: hm_pop_bucket.simps [of below b h])
    qed
  qed (use 1(2) in \<open>auto simp: hm_pop_bucket.simps [of below b h]\<close>)
qed

lemma split_inv:
  assumes inv: "heap_inv P (add_mset c out) h" and b: "b + 1 < HM_BUCKETS" "cbucket (chunks h c) = b + 1"
    and c1: "c1 = c + bucketByteSize b"
    and h2: "h2 = upd_chunk c (\<lambda>r. r\<lparr>cbucket := b\<rparr>) (upd_chunk c1 (\<lambda>r. r\<lparr>cbucket := b - 1\<rparr>) h)"
  shows "heap_inv P (add_mset c1 (add_mset c out)) h2" "c1 \<notin># out" "c \<notin># out" "c1 \<noteq> c" "c1 \<notin> set (free_list h)"
proof -
  let ?N = "mset (free_list h) + out"
  have ti: "tiled P (add_mset c ?N) h" using inv by (simp add: heap_inv_def)
  have s: "csz h c = bucketByteSize b + bucketByteSize (b - 1)" "bucketByteSize b < csz h c"
    using split_sizes [OF b(1)] b(2) by simp_all
  have c1n: "c1 \<notin># add_mset c ?N"
    using tiled_inside [OF ti, of c1] s bucketByteSize_pos [of b] by (simp add: c1)
  have cn: "c \<notin># ?N" by (rule tiled_once [OF ti])
  from c1n cn show "c1 \<notin># out" "c \<notin># out" "c1 \<noteq> c" "c1 \<notin> set (free_list h)" by auto
  have h2s: "cbucket (chunks h2 c) = b" "cbucket (chunks h2 c1) = b - 1" "\<And>d. d \<noteq> c \<Longrightarrow> d \<noteq> c1 \<Longrightarrow> chunks h2 d = chunks h d"
    "first_chunk h2 = first_chunk h" "free_list h2 = free_list h"
    using c1n by (simp_all add: h2)
  have same: "chunks h2 d = chunks h d" if "d \<in># ?N" for d
  proof (rule h2s(3))
    show "d \<noteq> c" "d \<noteq> c1" using that cn c1n by auto
  qed
  have cv: "cov h2 (add_mset c1 (add_mset c ?N)) a = cov h (add_mset c ?N) a" for a
  proof -
    have "cbucket (chunks h2 d) = cbucket (chunks h d)" if "d \<in># ?N" for d using same [OF that] by simp
    with s(1) h2s(1,2) show ?thesis unfolding c1 by (intro cov_split) (simp_all add: c1)
  qed
  have ok: "chunk_ok h c" using ti by (simp add: tiled_def)
  have m: "c1 mod PAGESIZE = c mod PAGESIZE + bucketByteSize b"
    using ok s bucketByteSize_pos [of "b - 1"] unfolding c1 chunk_ok_def by (subst mod_add_eq [symmetric]) (simp add: mod_less)
  have "chunk_ok h2 c1" "chunk_ok h2 c"
    using ok m s b h2s by (auto simp: chunk_ok_def c1)
  moreover have "chunk_ok h2 d" if "d \<in># ?N" for d
    using that ti same [OF that] by (simp add: tiled_def chunk_ok_def)
  ultimately have "tiled P (add_mset c1 (add_mset c ?N)) h2"
    using ti cv unfolding tiled_def by (metis (no_types, lifting) insert_iff set_mset_add_mset_insert)
  moreover have "bucketed h2"
    unfolding bucketed_def
  proof (intro allI impI ballI)
    fix k d assume k: "k < HM_BUCKETS" and d: "d \<in> set (first_chunk h2 k)"
    then have "d \<in> set (free_list h)" using free_list_in [OF k, of d h] h2s(4) by simp
    then have "chunks h2 d = chunks h d" by (intro same) simp
    with inv k d h2s(4) show "cbucket (chunks h2 d) = k \<and> cfree (chunks h2 d) = CHR ''F''"
      by (simp add: heap_inv_def bucketed_def)
  qed
  ultimately show "heap_inv P (add_mset c1 (add_mset c out)) h2" by (simp add: heap_inv_def h2s(5))
qed

lemma pop_bucket_inv:
  assumes "hm_pop_bucket below b h = (c, h')" "c \<noteq> NULL" "heap_inv P out h"
  shows "heap_inv P (add_mset c out) h' \<and> cbucket (chunks h' c) = b \<and> cfree (chunks h' c) = CHR ''F'' \<and> b < HM_BUCKETS
    \<and> (\<forall>d\<in>#out. chunks h' d = chunks h d) \<and> bytes h' = bytes h \<and> page_mgr h' = page_mgr h"
  using assms
proof (induction below b h arbitrary: c h' rule: hm_pop_bucket.induct)
  case (1 below b h)
  have b: "b < HM_BUCKETS" using 1(2,3) by (auto simp: hm_pop_bucket.simps [of below b h] split: if_splits)
  show ?case
  proof (cases "first_chunk h b")
    case (Cons x cs)
    with 1(2) b have r: "x = c" "h' = h\<lparr>first_chunk := (first_chunk h)(b := cs)\<rparr>"
      by (simp_all add: hm_pop_bucket.simps [of below b h])
    have "mset (free_list h) = add_mset c (mset (free_list h'))"
      using free_list_upd [OF b, of h' h cs] Cons r by (simp add: r(2))
    moreover have "chunks h' = chunks h" by (simp add: r(2))
    ultimately have "heap_inv P (add_mset c out) h'"
      using 1(4) b Cons unfolding heap_inv_def bucketed_def tiled_def chunk_ok_def cov_def
      by (auto simp: r(2))
    with 1(4) b Cons r show ?thesis by (auto simp: heap_inv_def bucketed_def)
  next
    case Nil
    obtain c0 h1 where p: "hm_pop_bucket below (b + 1) h = (c0, h1)" by fastforce
    have c0: "c0 = c" "c \<noteq> NULL" using 1(2,3) b Nil p by (auto simp: hm_pop_bucket.simps [of below b h] Let_def split: if_splits)
    from 1(1) [of c h1] b Nil p c0 1(4) have ih: "heap_inv P (add_mset c out) h1" "cbucket (chunks h1 c) = b + 1"
      "cfree (chunks h1 c) = CHR ''F''" "b + 1 < HM_BUCKETS" "\<forall>d\<in>#out. chunks h1 d = chunks h d" "bytes h1 = bytes h"
      "page_mgr h1 = page_mgr h" by auto
    define c1 where "c1 = c + bucketByteSize b"
    define h2 where "h2 = upd_chunk c (\<lambda>r. r\<lparr>cbucket := b\<rparr>) (upd_chunk c1 (\<lambda>r. r\<lparr>cbucket := b - 1\<rparr>) h1)"
    note sp = split_inv [OF ih(1,4,2) c1_def h2_def]
    have b1: "bucketIndex below (bucketByteSize (b + 1) - bucketByteSize b) = b - 1"
      using split_sizes(1) [OF ih(4)] bucketIndex_size [of "b - 1" below] b by simp
    have "bucketByteSize (b + 1) - bucketByteSize b \<ge> MIN_BUCKET_SIZE"
      using split_sizes(1) [OF ih(4)] bucketByteSize_pos [of "b - 1"] by (simp add: MIN_BUCKET_SIZE_def)
    then have h': "h' = hm_push_bucket c1 (b - 1) h2"
      using 1(2) b Nil p c0 ih(2) b1 by (simp add: hm_pop_bucket.simps [of below b h] Let_def c1_def h2_def)
    have bk: "cbucket (chunks h2 c1) = b - 1" "cbucket (chunks h2 c) = b" "cfree (chunks h2 c) = CHR ''F''"
      using sp(4) ih(3) by (simp_all add: h2_def)
    note pu = push_bucket_inv [OF sp(1) bk(1)]
    have "chunks h' c = chunks h2 c" unfolding h' by (rule pu(2)) simp
    moreover have "chunks h' d = chunks h d" if "d \<in># out" for d
    proof -
      have "chunks h' d = chunks h2 d" unfolding h' using that by (intro pu(2)) simp
      also have "\<dots> = chunks h d" using that sp(2,3) ih(5) by (auto simp: h2_def)
      finally show ?thesis .
    qed
    moreover have "bytes h' = bytes h" "page_mgr h' = page_mgr h"
      using push_bucket_chunks(3,4) [of "b - 1" c1 h2] b ih(6,7) by (simp_all add: h' h2_def)
    ultimately show ?thesis using pu(1) bk(2,3) b by (simp add: h')
  qed
qed

subsection \<open>A new page\<close>

definition new_chunk :: "addr \<Rightarrow> nat \<Rightarrow> heapmgr \<Rightarrow> heapmgr" where
  "new_chunk c b h = hm_push_bucket c b (upd_chunk c (\<lambda>r. r\<lparr>cbucket := b\<rparr>) h)"

lemma fit_bucket_eqs: "fit_bucket below 4096 = 11" "fit_bucket below 368 = 6" "fit_bucket below 32 = 1"
proof -
  have "bucketIndex below 4096 = HM_BUCKETS" by (rule bucketIndex_large) (simp add: sizes)
  then show "fit_bucket below 4096 = 11" by (simp add: fit_bucket_def)
  have le: "368 \<le> bucketByteSize (HM_BUCKETS - 1)" by (simp add: sizes)
  have "bucketIndex below 368 = 7"
  proof (rule linorder_cases [of "bucketIndex below 368" 7])
    assume "bucketIndex below 368 < 7"
    then have "bucketByteSize (bucketIndex below 368) \<le> bucketByteSize 6" by (intro bucketByteSize_le) (auto simp: HM_BUCKETS_def)
    with bucketIndex_least(2) [OF le, of below] show ?thesis by (simp add: sizes)
  next
    assume "7 < bucketIndex below 368"
    from bucketIndex_least(3) [OF le this] show ?thesis by (simp add: sizes)
  qed
  then show "fit_bucket below 368 = 6" by (simp add: fit_bucket_def sizes HM_BUCKETS_def)
  have "bucketIndex below 32 = 1" using bucketIndex_size [of 1 below] by (simp add: sizes HM_BUCKETS_def)
  then show "fit_bucket below 32 = 1" by (simp add: fit_bucket_def sizes HM_BUCKETS_def)
qed

lemma carve_page:
  "carve below p PAGESIZE h = new_chunk (p + 4064) 1 (new_chunk (p + 3728) 6 (new_chunk p 11 h))"
proof -
  have "carve below p 4096 h = carve below (p + 3728) 368 (new_chunk p 11 h)"
    by (subst carve.simps) (simp add: MIN_BUCKET_SIZE_def Let_def fit_bucket_eqs sizes new_chunk_def)
  also have "\<dots> = carve below (p + 4064) 32 (new_chunk (p + 3728) 6 (new_chunk p 11 h))"
    by (subst carve.simps) (simp add: MIN_BUCKET_SIZE_def Let_def fit_bucket_eqs sizes new_chunk_def add.commute)
  also have "\<dots> = carve below (p + 4096) 0 (new_chunk (p + 4064) 1 (new_chunk (p + 3728) 6 (new_chunk p 11 h)))"
    by (subst carve.simps) (simp add: MIN_BUCKET_SIZE_def Let_def fit_bucket_eqs sizes new_chunk_def add.commute)
  also have "\<dots> = new_chunk (p + 4064) 1 (new_chunk (p + 3728) 6 (new_chunk p 11 h))"
    by (subst carve.simps) (simp add: MIN_BUCKET_SIZE_def)
  finally show ?thesis by (simp add: PAGESIZE_def)
qed

text \<open>The chunks of a fresh page are new, and cover it.\<close>

lemma new_page_inv:
  assumes inv: "heap_inv P out h" and p: "PAGESIZE dvd p" "p \<noteq> NULL" "p div PAGESIZE \<notin> P"
  shows "heap_inv (insert (p div PAGESIZE) P) out (carve below p PAGESIZE h)"
    "d \<in># out \<Longrightarrow> chunks (carve below p PAGESIZE h) d = chunks h d"
    "first_chunk (carve below p PAGESIZE h) 11 = p # first_chunk h 11"
    "bytes (carve below p PAGESIZE h) = bytes h" "page_mgr (carve below p PAGESIZE h) = page_mgr h"
proof -
  let ?M = "mset (free_list h) + out"
  let ?h' = "carve below p PAGESIZE h"
  have ti: "tiled P ?M h" using inv by (simp add: heap_inv_def)
  have far: "p \<notin># ?M" "p + 3728 \<notin># ?M" "p + 4064 \<notin># ?M"
  proof -
    have "c div PAGESIZE \<in> P" if "c \<in># ?M" for c
    proof (rule ccontr)
      assume "c div PAGESIZE \<notin> P"
      then have "cov h ?M c = 0" using ti by (simp add: tiled_def)
      with cov_pos [OF that, of c h] csz_pos [of h c] show False by simp
    qed
    moreover have "(p + 3728) div PAGESIZE = p div PAGESIZE" "(p + 4064) div PAGESIZE = p div PAGESIZE"
      using p(1) by (auto simp: PAGESIZE_def elim!: dvdE)
    ultimately show "p \<notin># ?M" "p + 3728 \<notin># ?M" "p + 4064 \<notin># ?M" using p(3) by metis+
  qed
  have b: "11 < HM_BUCKETS" "6 < HM_BUCKETS" "1 < HM_BUCKETS" "Suc 0 < HM_BUCKETS" by (simp_all add: HM_BUCKETS_def)
  have ch: "chunks ?h' d = (if d = p + 4064 then (chunks h d)\<lparr>cfree := CHR ''F'', csize := 0, callocator := 0, cbucket := 1\<rparr>
      else if d = p + 3728 then (chunks h d)\<lparr>cfree := CHR ''F'', csize := 0, callocator := 0, cbucket := 6\<rparr>
      else if d = p then (chunks h d)\<lparr>cfree := CHR ''F'', csize := 0, callocator := 0, cbucket := 11\<rparr> else chunks h d)" for d
    by (simp add: carve_page new_chunk_def push_bucket_chunks b)
  have fc: "first_chunk ?h' = (first_chunk h)(11 := p # first_chunk h 11, 6 := (p + 3728) # first_chunk h 6,
      1 := (p + 4064) # first_chunk h 1)"
    by (simp add: carve_page new_chunk_def push_bucket_chunks b)
  then show "first_chunk ?h' 11 = p # first_chunk h 11" by simp
  show "bytes ?h' = bytes h" "page_mgr ?h' = page_mgr h"
    by (simp_all add: carve_page new_chunk_def push_bucket_chunks b)
  have same: "chunks ?h' d = chunks h d" if "d \<in># ?M" for d
    using that far unfolding ch by auto
  then show "d \<in># out \<Longrightarrow> chunks ?h' d = chunks h d" by simp
  have fl: "mset (free_list ?h') = add_mset (p + 4064) (add_mset (p + 3728) (add_mset p (mset (free_list h))))"
  proof -
    have "mset (free_list (new_chunk c k g)) = add_mset c (mset (free_list g))" if "k < HM_BUCKETS" for c k g
      using free_list_upd [OF that push_bucket_chunks(2) [OF that]] that by (simp add: new_chunk_def)
    then show ?thesis by (simp add: carve_page b)
  qed
  have sz: "csz ?h' p = 3728" "csz ?h' (p + 3728) = 336" "csz ?h' (p + 4064) = 32"
    by (simp_all add: ch sizes)
  have cvM: "cov ?h' ?M a = cov h ?M a" for a by (rule cov_cong) (simp add: same)
  have "cov ?h' (mset (free_list ?h') + out) a = of_bool (a div PAGESIZE \<in> insert (p div PAGESIZE) P)" for a
  proof -
    have "a div PAGESIZE = p div PAGESIZE \<longleftrightarrow> p \<le> a \<and> a < p + 4096"
      using p(1) by (auto simp: PAGESIZE_def elim!: dvdE)
    then show ?thesis using cvM [of a] ti p(3) sz by (auto simp: fl tiled_def)
  qed
  moreover have "chunk_ok ?h' c" if "c \<in># mset (free_list ?h') + out" for c
  proof -
    have "chunk_ok ?h' p" "chunk_ok ?h' (p + 3728)" "chunk_ok ?h' (p + 4064)"
    proof -
      have "p mod PAGESIZE = 0" "(p + 3728) mod PAGESIZE = 3728" "(p + 4064) mod PAGESIZE = 4064"
        using p(1) by (auto simp: PAGESIZE_def elim!: dvdE)
      moreover have "cbucket (chunks ?h' p) = 11" "cbucket (chunks ?h' (p + 3728)) = 6" "cbucket (chunks ?h' (p + 4064)) = 1"
        by (simp_all add: ch)
      ultimately show "chunk_ok ?h' p" "chunk_ok ?h' (p + 3728)" "chunk_ok ?h' (p + 4064)"
        using p(2) b by (simp_all add: chunk_ok_def sizes) (simp_all add: PAGESIZE_def)
    qed
    moreover have "chunk_ok ?h' c" if "c \<in># ?M" using ti that same [OF that] by (simp add: tiled_def chunk_ok_def)
    ultimately show ?thesis using that by (auto simp: fl)
  qed
  ultimately have "tiled (insert (p div PAGESIZE) P) (mset (free_list ?h') + out) ?h'" by (simp add: tiled_def)
  moreover have "bucketed ?h'"
    unfolding bucketed_def
  proof (intro allI impI ballI)
    fix k d assume k: "k < HM_BUCKETS" and d: "d \<in> set (first_chunk ?h' k)"
    show "cbucket (chunks ?h' d) = k \<and> cfree (chunks ?h' d) = CHR ''F''"
    proof (cases "d \<in> set (first_chunk h k)")
      case True
      then have "d \<in># ?M" using free_list_in [OF k True] by simp
      with same [OF this] inv True k show ?thesis by (simp add: heap_inv_def bucketed_def)
    next
      case False
      with d have "(d = p \<and> k = 11) \<or> (d = p + 3728 \<and> k = 6) \<or> (d = p + 4064 \<and> k = 1)"
        by (auto simp: fc split: if_splits)
      then show ?thesis by (auto simp: ch)
    qed
  qed
  ultimately show "heap_inv (insert (p div PAGESIZE) P) out ?h'" by (simp add: heap_inv_def)
qed

subsection \<open>Allocation and release\<close>

text \<open>The heap together with the page manager below it, which still holds only pages outside the heap.\<close>

definition heap_sys :: "nat set \<Rightarrow> addr multiset \<Rightarrow> heapmgr \<Rightarrow> bool" where
  "heap_sys P out h \<longleftrightarrow> heap_inv P out h \<and> pm_good (page_mgr h) \<and> proper (pm_pages (page_mgr h))
     \<and> (\<forall>p\<in>#pm_pages (page_mgr h). p div PAGESIZE \<notin> P)"

text \<open>What a client sees of its chunk, and that an operation leaves other clients' chunks alone.\<close>

definition allocated :: "heapmgr \<Rightarrow> addr \<Rightarrow> bool" where
  "allocated h c \<longleftrightarrow> cfree (chunks h c) = CHR ''A'' \<and> bytes h (c + csz h c - 1) = of_char (CHR ''V'')"

lemma pm_alloc_kernel_cases:
  assumes "pm_alloc (False, False) n s = r"
  shows "r = Inl KAssert \<or> (\<exists>p s'. r = Inr (p, s') \<and> p \<noteq> NULL)"
  using assms by (auto simp: pm_alloc_def pm_allocatePage_def Let_def split: prod.splits if_splits)

lemma newPage_sys:
  assumes sys: "heap_sys P out h" and r: "newPage below h = Inr h'"
  shows "\<exists>p. heap_sys (insert (p div PAGESIZE) P) out h' \<and> first_chunk h' 11 = p # first_chunk h 11 \<and> bytes h' = bytes h
    \<and> (\<forall>d\<in>#out. chunks h' d = chunks h d)"
proof -
  obtain p s where a: "pm_alloc (False, False) 1 (page_mgr h) = Inr (p, s)"
    and h': "h' = carve below p PAGESIZE (h\<lparr>page_mgr := s, cv_smallheap_page_count := cv_smallheap_page_count h + 1\<rparr>)"
    using r by (auto simp: newPage_def sbind_Inr_iff)
  let ?h = "h\<lparr>page_mgr := s, cv_smallheap_page_count := cv_smallheap_page_count h + 1\<rparr>"
  have pn: "p \<noteq> NULL" using pm_alloc_kernel_cases [OF a] by auto
  from pm.alloc_some [OF _ _ a pn] sys
  have s: "pm_good s" "pm_pages (page_mgr h) = pm_pages s + {#p#}" "PAGESIZE dvd p"
    by (simp_all add: heap_sys_def pages_def)
  have pr: "proper (pm_pages (page_mgr h))" "\<forall>q\<in>#pm_pages (page_mgr h). q div PAGESIZE \<notin> P"
    using sys by (simp_all add: heap_sys_def)
  have np: "p div PAGESIZE \<notin> P" using pr(2) s(2) by simp
  have iv: "heap_inv P out ?h"
    using sys by (simp add: heap_sys_def heap_inv_def bucketed_def tiled_def chunk_ok_def cov_def free_list_def)
  note c = new_page_inv [where below = below, OF iv s(3) pn np]
  have "proper (pm_pages s)" by (rule proper_mono [OF _ pr(1)]) (simp add: s(2))
  moreover have "q div PAGESIZE \<notin> insert (p div PAGESIZE) P" if "q \<in># pm_pages s" for q
  proof -
    have "q \<noteq> p"
    proof
      assume "q = p"
      then have "0 < count (pm_pages s) p" using that by simp
      moreover have "count (pm_pages (page_mgr h)) p = Suc (count (pm_pages s) p)" by (simp add: s(2))
      moreover have "count (pm_pages (page_mgr h)) p \<le> 1" using pr(1) by (simp add: proper_def)
      ultimately show False by linarith
    qed
    moreover have "PAGESIZE dvd q" using pr(1) that by (simp add: proper_def s(2))
    ultimately have "q div PAGESIZE \<noteq> p div PAGESIZE" using s(3) by (metis dvd_div_mult_self)
    with pr(2) that show ?thesis by (simp add: s(2))
  qed
  ultimately have "heap_sys (insert (p div PAGESIZE) P) out h'"
    using c(1,5) s(1) by (simp add: heap_sys_def h')
  then show ?thesis using c(2,3,4) by (auto simp: h')
qed

lemma pop_bucket_sys:
  assumes sys: "heap_sys P out h" and p: "hm_pop_bucket below b h = (c, h1)" "c \<noteq> NULL"
  shows "heap_sys P (add_mset c out) h1" "cbucket (chunks h1 c) = b" "cfree (chunks h1 c) = CHR ''F''" "b < HM_BUCKETS"
    "d \<in># out \<Longrightarrow> chunks h1 d = chunks h d" "bytes h1 = bytes h" "c \<notin># out"
proof -
  note p' = pop_bucket_inv [OF p, of P out]
  show "heap_sys P (add_mset c out) h1" "cbucket (chunks h1 c) = b" "cfree (chunks h1 c) = CHR ''F''" "b < HM_BUCKETS"
    "d \<in># out \<Longrightarrow> chunks h1 d = chunks h d" "bytes h1 = bytes h"
    using p' sys by (simp_all add: heap_sys_def)
  have "tiled P (add_mset c (mset (free_list h1) + out)) h1" using p' sys by (simp add: heap_sys_def heap_inv_def)
  from tiled_once [OF this] show "c \<notin># out" by simp
qed

lemma heap_sys_mark:
  assumes "heap_sys P (add_mset c out) h" "\<And>r. cbucket (f r) = cbucket r"
  shows "heap_sys P (add_mset c out) (upd_chunk c f (h\<lparr>bytes := m\<rparr>))"
proof -
  have ti: "tiled P (add_mset c (mset (free_list h) + out)) h" using assms(1) by (simp add: heap_sys_def heap_inv_def)
  have "c \<notin># mset (free_list h) + out" by (rule tiled_once [OF ti])
  then have nf: "c \<notin> set (first_chunk h b)" if "b < HM_BUCKETS" for b using free_list_in [OF that] by auto
  let ?h = "upd_chunk c f (h\<lparr>bytes := m\<rparr>)"
  have "tiled P (add_mset c (mset (free_list h) + out)) ?h"
    by (rule tiled_cong [OF ti]) (simp add: assms(2))
  moreover have "bucketed ?h" using assms(1) nf by (auto simp: heap_sys_def heap_inv_def bucketed_def)
  moreover have "free_list ?h = free_list h" by (simp add: free_list_def)
  ultimately show ?thesis using assms(1) by (simp add: heap_sys_def heap_inv_def)
qed

definition hm_result :: "nat set \<Rightarrow> addr multiset \<Rightarrow> nat \<Rightarrow> heapmgr \<Rightarrow> kerror + addr \<times> heapmgr \<Rightarrow> bool" where
  "hm_result P out i_sz h x \<longleftrightarrow> x = Inl KAssert \<or>
     (\<exists>P' c h'. x = Inr (c + 8, h') \<and> P \<subseteq> P' \<and> heap_sys P' (add_mset c out) h' \<and> allocated h' c
        \<and> i_sz + CHUNK_HEADER_PLUS_RESERVED \<le> csz h' c \<and> (\<forall>d\<in>#out. chunks h' d = chunks h d)
        \<and> (\<forall>a. a \<noteq> c + csz h' c - 1 \<longrightarrow> bytes h' a = bytes h a))"

lemma allocate_pop:
  assumes sys: "heap_sys P out h" and sz: "i_sz \<le> MAX_SMALL_ALLOC_SIZE"
    and p: "hm_pop_bucket below (bucketIndex below (i_sz + CHUNK_HEADER_PLUS_RESERVED)) h = (c, h1)" "c \<noteq> NULL"
  shows "\<exists>x. hm_allocate below tid i_sz h = Some (Inr x) \<and> hm_result P out i_sz h (Inr x)"
proof -
  let ?b = "bucketIndex below (i_sz + CHUNK_HEADER_PLUS_RESERVED)"
  note q = pop_bucket_sys [OF sys p]
  let ?f = "\<lambda>r. r\<lparr>cfree := CHR ''A'', csize := of_nat i_sz, callocator := tid\<rparr>"
  let ?h2 = "upd_chunk c ?f (h1\<lparr>bytes := (bytes h1)(c + csz h1 c - 1 := of_char (CHR ''V''))\<rparr>)"
  have r: "hm_allocate below tid i_sz h = Some (Inr (c + 8, ?h2))"
    using p q(3) by (subst hm_allocate.simps) (simp add: Let_def)
  have le: "i_sz + CHUNK_HEADER_PLUS_RESERVED \<le> bucketByteSize (HM_BUCKETS - 1)"
  proof -
    have "BUCKET_SIZE 11 = bucketByteSize 11" by (simp add: bucketByteSize_def cv_chunk_size_def HM_BUCKETS_def)
    then show ?thesis using sz bucketByteSize_pos [of 11] by (simp add: MAX_SMALL_ALLOC_SIZE_def CHUNK_HEADER_PLUS_RESERVED_def)
  qed
  have "i_sz + CHUNK_HEADER_PLUS_RESERVED \<le> csz ?h2 c"
    using bucketIndex_least(2) [OF le, of below] q(2) by simp
  moreover have "allocated ?h2 c" using q(2) by (simp add: allocated_def)
  moreover have "heap_sys P (add_mset c out) ?h2" by (rule heap_sys_mark [OF q(1)]) simp
  moreover have "chunks ?h2 d = chunks h d" if "d \<in># out" for d using that q(5) [OF that] q(7) by auto
  moreover have "bytes ?h2 a = bytes h a" if "a \<noteq> c + csz ?h2 c - 1" for a using that q(6) by simp
  ultimately show ?thesis using r unfolding hm_result_def by blast
qed

lemma hm_allocate_sys:
  assumes sys: "heap_sys P out h" and sz: "i_sz \<le> MAX_SMALL_ALLOC_SIZE"
  shows "\<exists>x. hm_allocate below tid i_sz h = Some x \<and> hm_result P out i_sz h x \<and> (\<forall>e. x = Inl e \<longrightarrow> newPage below h = Inl e)"
proof -
  let ?b = "bucketIndex below (i_sz + CHUNK_HEADER_PLUS_RESERVED)"
  obtain c h1 where p: "hm_pop_bucket below ?b h = (c, h1)" by fastforce
  show ?thesis
  proof (cases "c = NULL")
    case False
    from allocate_pop [OF sys sz p False] show ?thesis by blast
  next
    case True
    have h1: "h1 = h" using hm_pop_bucket_NULL [of below ?b h h1 P out] p True sys by (simp add: heap_sys_def heap_inv_def)
    have unf: "hm_allocate below tid i_sz h = obind (Some (newPage below h)) (\<lambda>h2. hm_allocate below tid i_sz h2)"
      using p True h1 by (subst hm_allocate.simps) simp
    show ?thesis
    proof (cases "newPage below h")
      case (Inl e)
      then have "e = KAssert" using pm_alloc_kernel_cases [of 1 "page_mgr h"] by (auto simp: newPage_def)
      with Inl unf show ?thesis by (simp add: hm_result_def)
    next
      case (Inr h2)
      from newPage_sys [OF sys Inr] obtain pg where
        n: "heap_sys (insert (pg div PAGESIZE) P) out h2" "first_chunk h2 11 = pg # first_chunk h 11" "bytes h2 = bytes h"
          "\<forall>d\<in>#out. chunks h2 d = chunks h d" by blast
      obtain c2 h3 where p2: "hm_pop_bucket below ?b h2 = (c2, h3)" by fastforce
      have "c2 \<noteq> NULL"
      proof
        assume "c2 = NULL"
        with hm_pop_bucket_NULL [of below ?b h2 h3 "insert (pg div PAGESIZE) P" out] p2 n(1)
        have "\<forall>k. ?b \<le> k \<and> k < HM_BUCKETS \<longrightarrow> first_chunk h2 k = []" by (simp add: heap_sys_def heap_inv_def)
        moreover have "?b \<le> 11"
        proof -
          have "BUCKET_SIZE 11 = bucketByteSize 11" by (simp add: bucketByteSize_def cv_chunk_size_def HM_BUCKETS_def)
          then have "i_sz + CHUNK_HEADER_PLUS_RESERVED \<le> bucketByteSize (HM_BUCKETS - 1)"
            using sz bucketByteSize_pos [of 11] by (simp add: MAX_SMALL_ALLOC_SIZE_def CHUNK_HEADER_PLUS_RESERVED_def)
          from bucketIndex_least(1) [OF this, of below] show ?thesis by (simp add: HM_BUCKETS_def)
        qed
        ultimately show False using n(2) by (simp add: HM_BUCKETS_def)
      qed
      from allocate_pop [OF n(1) sz p2 this, of tid] obtain x where
        x: "hm_allocate below tid i_sz h2 = Some (Inr x)" "hm_result (insert (pg div PAGESIZE) P) out i_sz h2 (Inr x)" by blast
      have "hm_result P out i_sz h (Inr x)"
        using x(2) n(3,4) unfolding hm_result_def by fastforce
      with x(1) unf Inr show ?thesis by simp
    qed
  qed
qed

lemma hm_free_sys:
  assumes sys: "heap_sys P (add_mset c out) h" and al: "allocated h c"
  shows "\<exists>h'. hm_free_small (c + 8) h = Inr h' \<and> heap_sys P out h' \<and> (\<forall>d\<in>#out. chunks h' d = chunks h d) \<and> bytes h' = bytes h"
proof -
  let ?h = "hm_push_bucket c (cbucket (chunks h c)) h"
  have iv: "heap_inv P (add_mset c out) h" using sys by (simp add: heap_sys_def)
  then have b: "cbucket (chunks h c) < HM_BUCKETS" by (simp add: heap_inv_def tiled_def chunk_ok_def)
  have "hm_free_small (c + 8) h = Inr ?h" using al by (simp add: hm_free_small_def allocated_def Let_def)
  moreover have "heap_sys P out ?h"
    using push_bucket_inv(1) [OF iv refl] sys push_bucket_chunks(4) [OF b] by (simp add: heap_sys_def)
  ultimately show ?thesis using push_bucket_inv(2) [OF iv refl] push_bucket_chunks(3) [OF b] by auto
qed

subsection \<open>Coalescing\<close>

text \<open>
  While \<open>_coalesce\<close> runs the free lists are empty, the chunks of the chain that are still marked and
  the chunks that are out tile the pages, and the chunks that are out stay as they are.
\<close>

definition same_out :: "addr multiset \<Rightarrow> heapmgr \<Rightarrow> heapmgr \<Rightarrow> bool" where
  "same_out out h h' \<longleftrightarrow> (\<forall>d\<in>#out. chunks h' d = chunks h d) \<and> bytes h' = bytes h \<and> page_mgr h' = page_mgr h"

definition chain_inv :: "nat set \<Rightarrow> addr multiset \<Rightarrow> addr list \<Rightarrow> heapmgr \<Rightarrow> bool" where
  "chain_inv P out cs h \<longleftrightarrow> free_list h = [] \<and> (\<forall>d\<in>#out. cfree (chunks h d) \<noteq> CHR ''F'')
     \<and> tiled P (mset (filter (marked h) cs) + out) h"

lemma same_out_trans: "same_out out h1 h2 \<Longrightarrow> same_out out h2 h3 \<Longrightarrow> same_out out h1 h3"
  by (simp add: same_out_def)

lemma cov_ex: "0 < cov h M a \<Longrightarrow> \<exists>d. d \<in># M \<and> d \<le> a \<and> a < d + csz h d"
  by (induction M) (auto split: if_splits)

lemma tiled_next:
  assumes ti: "tiled P M h" and c: "c \<in># M" and pg: "(c + csz h c) div PAGESIZE = c div PAGESIZE"
  shows "c + csz h c \<in># M"
proof -
  let ?y = "c + csz h c"
  obtain N where N: "M = add_mset c N" using c by (metis multi_member_split)
  have "c div PAGESIZE \<in> P"
  proof (rule ccontr)
    assume "c div PAGESIZE \<notin> P"
    then have "cov h M c = 0" using ti by (simp add: tiled_def)
    with cov_pos [OF c, of c h] csz_pos [of h c] show False by simp
  qed
  then have "cov h M ?y = 1" using ti pg by (simp add: tiled_def)
  then obtain d where d: "d \<in># M" "d \<le> ?y" "?y < d + csz h d" using cov_ex [of h M ?y] by auto
  then have "d \<noteq> c" by auto
  then have dN: "d \<in># N" using d(1) N by simp
  have ap: "d + csz h d \<le> a" if "c \<le> a" "a < ?y" "d \<le> a" for a
    using tiled_apart [OF ti [unfolded N] dN] that by simp
  have "d = ?y"
  proof (rule ccontr)
    assume "d \<noteq> ?y"
    then have lt: "d < ?y" using d(2) by simp
    show False
    proof (cases "c \<le> d")
      case True
      with ap [of d] lt csz_pos [of h d] show False by simp
    next
      case False
      then have "d + csz h d \<le> c" using ap [of c] csz_pos [of h c] by simp
      with d(3) show False by simp
    qed
  qed
  with d(1) show ?thesis by simp
qed

lemma try_merge_inv:
  assumes iv: "chain_inv P out cs h" and c: "c \<in> set cs" and m: "try_merge below c h = Some h'"
  shows "chain_inv P out cs h' \<and> same_out out h h'"
proof -
  define y where "y = c + csz h c"
  define nb where "nb = bucketIndex below (csz h c + csz h y)"
  have mk: "marked h c" "y div PAGESIZE = c div PAGESIZE" "marked h y" "nb < HM_BUCKETS" "bucketByteSize nb = csz h c + csz h y"
    and h': "h' = (upd_chunk c (\<lambda>r. r\<lparr>cbucket := nb\<rparr>)
        (upd_chunk y (\<lambda>r. r\<lparr>cfree := CHR 0x00, ccoalesce := CHR 0x00\<rparr>) h))\<lparr>cv_coalesced := cv_coalesced h + 1\<rparr>"
    using m by (auto simp: try_merge_def Let_def y_def nb_def split: if_splits)
  let ?L = "mset (filter (marked h) cs)"
  have ti: "tiled P (?L + out) h" using iv by (simp add: chain_inv_def)
  have cL: "c \<in># ?L" using c mk(1) by simp
  have "y \<in># ?L + out" using tiled_next [OF ti, of c] cL mk(2) by (simp add: y_def)
  moreover have "y \<notin># out" using iv mk(3) by (auto simp: chain_inv_def marked_def)
  ultimately have yL: "y \<in># ?L" by simp
  have yc: "y \<noteq> c" using csz_pos [of h c] by (simp add: y_def)
  obtain N where N: "?L = add_mset c (add_mset y N)"
    using cL yL yc by (metis insert_noteq_member multi_member_split)
  have c1: "c \<notin># add_mset y N + out" and y1: "y \<notin># add_mset c N + out"
  proof -
    have "tiled P (add_mset c (add_mset y N + out)) h" using ti unfolding N by simp
    then show "c \<notin># add_mset y N + out" by (rule tiled_once)
    have "tiled P (add_mset y (add_mset c N + out)) h" using ti unfolding N by (simp add: add_mset_commute)
    then show "y \<notin># add_mset c N + out" by (rule tiled_once)
  qed
  have ch: "chunks h' d = chunks h d" if "d \<noteq> c" "d \<noteq> y" for d using that by (simp add: h')
  have hc: "cbucket (chunks h' c) = nb" "cbucket (chunks h y) = cbucket (chunks h' y)" using yc by (simp_all add: h')
  have same: "chunks h' d = chunks h d" if "d \<in># N + out" for d using that c1 y1 by (intro ch) auto
  have mk': "marked h' d \<longleftrightarrow> marked h d \<and> d \<noteq> y" for d using yc mk(1) by (auto simp: marked_def h')
  have "filter_mset (\<lambda>d. d \<noteq> y) ?L = add_mset c N"
    using yc y1 unfolding N by (auto simp: filter_mset_eq_conv)
  moreover have "filter (marked h') cs = filter (\<lambda>d. d \<noteq> y) (filter (marked h) cs)"
    unfolding filter_filter by (rule filter_cong) (auto simp: mk')
  ultimately have L': "mset (filter (marked h') cs) = add_mset c N" by (metis mset_filter)
  have cv: "cov h (add_mset y (add_mset c (N + out))) a = cov h' (add_mset c (N + out)) a" for a
    unfolding y_def
  proof (rule cov_split)
    show "csz h' c = csz h c + csz h y" using hc(1) mk(5) by simp
  qed (use same in \<open>simp_all add: y_def\<close>)
  have okc: "chunk_ok h c" "chunk_ok h y" using ti cL yL by (auto simp: tiled_def)
  have md: "y mod PAGESIZE = c mod PAGESIZE + csz h c"
  proof -
    have "y = c div PAGESIZE * PAGESIZE + (c mod PAGESIZE + csz h c)" by (simp add: y_def)
    moreover have "y = c div PAGESIZE * PAGESIZE + y mod PAGESIZE" using mk(2) by (metis div_mult_mod_eq)
    ultimately show ?thesis by linarith
  qed
  have "chunk_ok h' c" using okc md mk(4,5) hc(1) by (auto simp: chunk_ok_def)
  moreover have "chunk_ok h' d" if "d \<in># N + out" for d
    using that ti [unfolded N] same [OF that] by (auto simp: tiled_def chunk_ok_def)
  moreover have "cov h' (add_mset c (N + out)) a = of_bool (a div PAGESIZE \<in> P)" for a
    using ti cv [of a] unfolding tiled_def N by (metis add_mset_commute union_mset_add_mset_left)
  ultimately have "tiled P (mset (filter (marked h') cs) + out) h'" unfolding L' tiled_def by auto
  moreover have "free_list h' = free_list h" by (simp add: h' free_list_def)
  moreover have "same_out out h h'" using same by (simp add: same_out_def h')
  ultimately show ?thesis using iv same by (simp add: chain_inv_def)
qed

lemma merge_pass_inv:
  "chain_inv P out L (snd r) \<Longrightarrow> set cs \<subseteq> set L \<Longrightarrow>
     chain_inv P out L (snd (merge_pass below cs r)) \<and> same_out out (snd r) (snd (merge_pass below cs r))"
proof (induction below cs r rule: merge_pass.induct)
  case (2 below c cs r)
  show ?case
  proof (cases "try_merge below c (snd r)")
    case None
    with 2(1) [OF None] 2(3,4) show ?thesis by (simp add: merge_pass.simps(2))
  next
    case (Some h')
    have "c \<in> set L" using 2(4) by simp
    note t = try_merge_inv [OF 2(3) this Some]
    with 2(2) [OF Some] 2(4) Some same_out_trans show ?thesis by (auto simp: merge_pass.simps(2))
  qed
qed (simp add: same_out_def)

lemma merge_pass_none:
  "fst (merge_pass below cs r) = False \<Longrightarrow> snd (merge_pass below cs r) = snd r \<and> (\<forall>c\<in>set cs. try_merge below c (snd r) = None)"
proof (induction below cs r rule: merge_pass.induct)
  case (2 below c cs r)
  have mono: "fst (merge_pass below ds q)" if "fst q" for ds q
    using that by (induction below ds q rule: merge_pass.induct) (auto simp: merge_pass.simps(2) split: option.split)
  show ?case
  proof (cases "try_merge below c (snd r)")
    case None
    with 2(1) [OF None] 2(3) show ?thesis by (simp add: merge_pass.simps(2))
  next
    case (Some h')
    with 2(3) mono [of "(True, h')" "c # cs"] show ?thesis by (simp add: merge_pass.simps(2) [of below c cs r])
  qed
qed simp

lemma chain_inv_sweep: "chain_inv P out cs h \<Longrightarrow> chain_inv P out (sweep cs h) h"
  by (simp add: chain_inv_def sweep_def rev_filter [symmetric])

lemma merge_all_inv:
  assumes "chain_inv P out cs h" "merge_all below cs h = (cs', h')"
  shows "chain_inv P out cs' h' \<and> same_out out h h' \<and> (\<forall>c\<in>set cs'. marked h' c \<and> try_merge below c h' = None)"
  using assms
proof (induction below cs h arbitrary: cs' h' rule: merge_all.induct)
  case (1 below cs h)
  obtain mg h1 where p: "merge_pass below cs (False, h) = (mg, h1)" by fastforce
  have i: "chain_inv P out cs h1 \<and> same_out out h h1"
    using merge_pass_inv [of P out cs "(False, h)" cs below] 1(2) p by simp
  show ?case
  proof (cases mg)
    case True
    then have "merge_all below (sweep cs h1) h1 = (cs', h')" using 1(3) p by (simp add: merge_all.simps [of below cs h])
    with 1(1) [OF p [symmetric] True chain_inv_sweep] i same_out_trans show ?thesis by blast
  next
    case False
    then have "cs' = sweep cs h1" "h' = h1" using 1(3) p by (auto simp: merge_all.simps [of below cs h])
    moreover have "\<forall>c\<in>set cs. try_merge below c h1 = None"
      using merge_pass_none [of below cs "(False, h)"] p False by auto
    ultimately show ?thesis using i chain_inv_sweep by (auto simp: sweep_def)
  qed
qed

lemma drain_chain_ok:
  assumes "\<forall>c\<in>set cs. cfree (chunks h c) = CHR ''F''"
  shows "\<exists>h'. drain_chain cs (hs, h) = Inr (rev cs @ hs, h') \<and> first_chunk h' = first_chunk h \<and> bytes h' = bytes h
    \<and> page_mgr h' = page_mgr h
    \<and> (\<forall>d. chunks h' d = (if d \<in> set cs then (chunks h d)\<lparr>ccoalesce := CHR ''C''\<rparr> else chunks h d))"
  using assms
proof (induction cs arbitrary: hs h)
  case (Cons c cs)
  let ?h = "upd_chunk c (\<lambda>x. x\<lparr>ccoalesce := CHR ''C''\<rparr>) h"
  have "\<forall>d\<in>set cs. cfree (chunks ?h d) = CHR ''F''" using Cons.prems by auto
  from Cons.IH [OF this, of "c # hs"] Cons.prems show ?case by (auto simp: fun_eq_iff)
qed simp

lemma drain_all_ok:
  assumes iv: "heap_inv P out h" and out: "\<forall>d\<in>#out. cfree (chunks h d) \<noteq> CHR ''F''"
  shows "\<exists>cs h'. drain_all h = Inr (cs, h') \<and> chain_inv P out cs h' \<and> same_out out h h'"
proof -
  let ?h = "h\<lparr>first_chunk := (\<lambda>b. if b < HM_BUCKETS then [] else first_chunk h b)\<rparr>"
  have fr: "cfree (chunks h c) = CHR ''F''" if "c \<in> set (free_list h)" for c
    using iv that by (auto simp: heap_inv_def bucketed_def free_list_def)
  from drain_chain_ok [of "free_list h" ?h "[]"] fr obtain h' where
    d: "drain_all h = Inr (rev (free_list h), h')" "first_chunk h' = first_chunk ?h" "bytes h' = bytes h" "page_mgr h' = page_mgr h"
      "\<And>d. chunks h' d = (if d \<in> set (free_list h) then (chunks h d)\<lparr>ccoalesce := CHR ''C''\<rparr> else chunks h d)"
    by (auto simp: drain_all_def)
  have nf: "d \<notin> set (free_list h)" if "d \<in># out" for d using fr [of d] out that by blast
  have "free_list h' = []" by (simp add: free_list_def d(2))
  moreover have "filter (marked h') (rev (free_list h)) = rev (free_list h)"
    using fr d(5) by (intro filter_True) (auto simp: marked_def)
  moreover have "tiled P (mset (rev (free_list h)) + out) h'"
  proof (rule tiled_cong [where h = h])
    show "tiled P (mset (rev (free_list h)) + out) h" using iv by (simp add: heap_inv_def)
  qed (simp add: d(5))
  ultimately have "chain_inv P out (rev (free_list h)) h'" using out d(5) nf by (auto simp: chain_inv_def)
  moreover have "same_out out h h'" using d nf by (simp add: same_out_def)
  ultimately show ?thesis using d(1) by blast
qed

lemma restore_inv:
  assumes "heap_inv P (mset cs + out) h"
  shows "heap_inv P out (restore_chunks cs h) \<and> same_out out h (restore_chunks cs h)
    \<and> (\<forall>c. cbucket (chunks (restore_chunks cs h) c) = cbucket (chunks h c))
    \<and> mset (free_list (restore_chunks cs h)) = mset cs + mset (free_list h)"
  using assms
proof (induction cs arbitrary: h)
  case Nil
  then show ?case by (simp add: same_out_def)
next
  case (Cons c cs)
  let ?h1 = "upd_chunk c (\<lambda>r. r\<lparr>ccoalesce := CHR 0x00\<rparr>) h"
  let ?h2 = "hm_push_bucket c (cbucket (chunks ?h1 c)) ?h1"
  let ?h3 = "?h2\<lparr>cv_free_chunks := cv_free_chunks ?h2 + 1,
    cv_free_bytes := cv_free_bytes ?h2 + of_nat (bucketByteSize (cbucket (chunks ?h2 c)) - 8)\<rparr>"
  have iv: "heap_inv P (add_mset c (mset cs + out)) h" using Cons.prems by simp
  have ti: "tiled P (add_mset c (mset (free_list h) + (mset cs + out))) h" using iv by (simp add: heap_inv_def)
  have cn: "c \<notin># mset (free_list h) + (mset cs + out)" by (rule tiled_once [OF ti])
  have b: "cbucket (chunks h c) < HM_BUCKETS" using ti by (simp add: tiled_def chunk_ok_def)
  have "tiled P (add_mset c (mset (free_list h) + (mset cs + out))) ?h1" by (rule tiled_cong [OF ti]) simp
  moreover have "bucketed ?h1" using iv cn by (auto simp: heap_inv_def bucketed_def dest: free_list_in)
  ultimately have iv1: "heap_inv P (add_mset c (mset cs + out)) ?h1" by (simp add: heap_inv_def)
  note p = push_bucket_inv [OF iv1 refl] and pc = push_bucket_chunks [of "cbucket (chunks ?h1 c)" c ?h1]
  have iv3: "heap_inv P (mset cs + out) ?h3"
    using p(1) by (simp add: heap_inv_def bucketed_def tiled_def chunk_ok_def cov_def free_list_def)
  have ch: "chunks ?h3 d = chunks h d" if "d \<in># out" for d using that p(2) [of d] cn by auto
  have fl: "mset (free_list ?h3) = add_mset c (mset (free_list h))"
    using free_list_upd [of "cbucket (chunks ?h1 c)" ?h3 ?h1 "c # first_chunk h (cbucket (chunks h c))"] pc b by simp
  have eq: "restore_chunks (c # cs) h = restore_chunks cs ?h3" by (simp add: Let_def)
  have bk: "cbucket (chunks ?h3 d) = cbucket (chunks h d)" for d using pc(1) b by simp
  have "same_out out h ?h3" using ch pc(3,4) b by (simp add: same_out_def)
  with Cons.IH [OF iv3] bk fl show ?case unfolding eq using same_out_trans by auto
qed

lemma hm_coalesce_sys:
  assumes sys: "heap_sys P out h" and out: "\<forall>d\<in>#out. cfree (chunks h d) \<noteq> CHR ''F''"
  shows "\<exists>h'. hm_coalesce below h = Inr h' \<and> heap_sys P out h' \<and> same_out out h h'
    \<and> (\<forall>c\<in>set (free_list h'). \<forall>d\<in>set (free_list h'). d = c + csz h' c \<and> d div PAGESIZE = c div PAGESIZE \<longrightarrow>
         (\<forall>b<HM_BUCKETS. bucketByteSize b \<noteq> csz h' c + csz h' d))"
proof -
  have iv: "heap_inv P out h" using sys by (simp add: heap_sys_def)
  from drain_all_ok [OF iv out] obtain cs h1 where
    1: "drain_all h = Inr (cs, h1)" "chain_inv P out cs h1" "same_out out h h1" by blast
  obtain ds h2 where m: "merge_all below cs h1 = (ds, h2)" by fastforce
  note 2 = merge_all_inv [OF 1(2) m]
  let ?h2 = "h2\<lparr>cv_free_chunks := 0, cv_free_bytes := 0\<rparr>"
  let ?h3 = "restore_chunks ds ?h2"
  have fl: "filter (marked h2) ds = ds" "free_list h2 = []" using 2 by (auto simp: filter_id_conv chain_inv_def)
  have "bucketed ?h2" using fl(2) by (auto simp: bucketed_def free_list_def)
  moreover have "tiled P (mset ds + out) ?h2"
  proof (rule tiled_cong [where h = h2])
    show "tiled P (mset ds + out) h2" using 2 fl(1) unfolding chain_inv_def by metis
  qed simp
  moreover have f0: "free_list ?h2 = []" using fl(2) by (simp add: free_list_def)
  ultimately have "heap_inv P (mset ds + out) ?h2" by (simp add: heap_inv_def)
  note r = restore_inv [OF this]
  have so: "same_out out h ?h3"
  proof -
    have "same_out out h2 ?h2" by (simp add: same_out_def)
    with 1(3) 2 r show ?thesis using same_out_trans by blast
  qed
  have "hm_coalesce below h = Inr ?h3" using 1(1) m by (simp add: hm_coalesce_def)
  moreover have "heap_sys P out ?h3" using r so sys by (simp add: heap_sys_def same_out_def)
  moreover have "\<forall>b<HM_BUCKETS. bucketByteSize b \<noteq> csz ?h3 c + csz ?h3 d"
    if c: "c \<in> set (free_list ?h3)" and d: "d \<in> set (free_list ?h3)" "d = c + csz ?h3 c" "d div PAGESIZE = c div PAGESIZE" for c d
  proof (intro allI impI notI)
    fix b assume b: "b < HM_BUCKETS" "bucketByteSize b = csz ?h3 c + csz ?h3 d"
    have s: "csz ?h3 x = csz h2 x" for x using r by simp
    have "mset (free_list ?h3) = mset ds" using r f0 by simp
    then have st: "set (free_list ?h3) = set ds" by (metis set_mset_mset)
    have "marked h2 c" "marked h2 d" "try_merge below c h2 = None" using 2 c d(1) st by auto
    moreover have "bucketIndex below (csz h2 c + csz h2 d) = b" using bucketIndex_size [OF b(1), of below] b(2) s by simp
    ultimately show False using d(2,3) b s by (simp add: try_merge_def Let_def)
  qed
  ultimately show ?thesis using so by blast
qed

section \<open>Properties\<close>

definition blank_chunk :: chunk_t where
  "blank_chunk = \<lparr>cfree = CHR 0x00, ccoalesce = CHR 0x00, csize = 0, callocator = 0, cbucket = 0\<rparr>"

text \<open>The heap before its first allocation; memory holds anything.\<close>

definition hm_init :: "(addr \<Rightarrow> chunk_t) \<Rightarrow> (addr \<Rightarrow> u8) \<Rightarrow> pagemgr \<Rightarrow> heapmgr" where
  "hm_init c m s = \<lparr>chunks = c, bytes = m, first_chunk = (\<lambda>_. []), big_chunk_stack = [], huge_chunk_stack = [],
     cv_coalesced = 0, cv_free_bytes = 0, cv_free_chunks = 0, cv_smallheap_page_count = 0, cv_largeheap_page_count = 0,
     cv_largeheap_page_max = 0, cv_hugeblock_allocated = 0, page_mgr = s\<rparr>"

text \<open>
  A run of the small heap: clients own what \<open>_allocate\<close> gave them, with the size they asked for, write
  inside it, and release only what they own; the kernel coalesces at any time.
\<close>

inductive heap_run :: "nat \<Rightarrow> heapmgr \<Rightarrow> heapmgr \<Rightarrow> (addr \<times> nat) list \<Rightarrow> bool" for below h0 where
  hr_start: "heap_run below h0 h0 []"
| hr_malloc: "heap_run below h0 h bs \<Longrightarrow> n \<le> MAX_SMALL_ALLOC_SIZE \<Longrightarrow> hm_allocate below tid n h = Some (Inr (p, h')) \<Longrightarrow>
    heap_run below h0 h' ((p, n) # bs)"
| hr_free: "heap_run below h0 h (bs @ (p, n) # cs) \<Longrightarrow> hm_free_small p h = Inr h' \<Longrightarrow> heap_run below h0 h' (bs @ cs)"
| hr_coalesce: "heap_run below h0 h bs \<Longrightarrow> hm_coalesce below h = Inr h' \<Longrightarrow> heap_run below h0 h' bs"
| hr_write: "heap_run below h0 h bs \<Longrightarrow> (p, n) \<in> set bs \<Longrightarrow> i < n \<Longrightarrow>
    heap_run below h0 (h\<lparr>bytes := (bytes h)(p + i := v)\<rparr>) bs"

definition held_by :: "(addr \<times> nat) list \<Rightarrow> addr multiset" where
  "held_by bs = mset (map (\<lambda>x. fst x - 8) bs)"

definition clients :: "nat set \<Rightarrow> heapmgr \<Rightarrow> (addr \<times> nat) list \<Rightarrow> bool" where
  "clients P h bs \<longleftrightarrow> heap_sys P (held_by bs) h
     \<and> (\<forall>x\<in>set bs. 8 \<le> fst x \<and> allocated h (fst x - 8) \<and> snd x + CHUNK_HEADER_PLUS_RESERVED \<le> csz h (fst x - 8))"

lemma held_by_simps [simp]: "held_by [] = {#}" "held_by (x # bs) = add_mset (fst x - 8) (held_by bs)" "held_by (bs @ cs) = held_by bs + held_by cs"
  by (simp_all add: held_by_def)

lemma held_by_in: "x \<in> set bs \<Longrightarrow> fst x - 8 \<in># held_by bs"
  by (auto simp: held_by_def)

lemma clients_apart:
  assumes "clients P h (bs @ (p, n) # cs)" "(q, m) \<in> set (bs @ cs)"
  shows "p - 8 + csz h (p - 8) \<le> q - 8 \<or> q - 8 + csz h (q - 8) \<le> p - 8"
proof -
  let ?c = "p - 8" and ?d = "q - 8"
  have ti: "tiled P (add_mset ?c (mset (free_list h) + held_by (bs @ cs))) h"
    using assms(1) by (simp add: clients_def heap_sys_def heap_inv_def)
  have d: "?d \<in># mset (free_list h) + held_by (bs @ cs)" using held_by_in [OF assms(2)] by simp
  show ?thesis
  proof (cases "?c \<le> ?d")
    case True
    show ?thesis
    proof (rule disjI1, rule ccontr)
      assume "\<not> ?c + csz h ?c \<le> ?d"
      with tiled_apart [OF ti d, of ?d] True csz_pos [of h ?d] show False by simp
    qed
  next
    case False
    with tiled_apart [OF ti d, of ?c] csz_pos [of h ?c] show ?thesis by simp
  qed
qed

text \<open>A byte that belongs to a client's request is no chunk's validation byte.\<close>

lemma client_byte:
  assumes cl: "clients P h bs" and x: "(p, n) \<in> set bs" "i < n" and y: "(q, m) \<in> set bs"
  shows "p + i \<noteq> q - 8 + csz h (q - 8) - 1"
proof (cases "q = p")
  case True
  have "n + CHUNK_HEADER_PLUS_RESERVED \<le> csz h (p - 8)" "8 \<le> p" using cl x(1) by (auto simp: clients_def)
  with x(2) True show ?thesis by (simp add: CHUNK_HEADER_PLUS_RESERVED_def)
next
  case False
  obtain bs1 bs2 where bs: "bs = bs1 @ (p, n) # bs2" using x(1) by (meson split_list)
  then have "(q, m) \<in> set (bs1 @ bs2)" using y False by auto
  note ap = clients_apart [OF cl [unfolded bs] this]
  have "n + CHUNK_HEADER_PLUS_RESERVED \<le> csz h (p - 8)" "8 \<le> p" "8 \<le> q" using cl x(1) y by (auto simp: clients_def)
  with x(2) ap csz_pos [of h "q - 8"] show ?thesis by (auto simp: CHUNK_HEADER_PLUS_RESERVED_def)
qed

lemma clients_keep:
  assumes "clients P h bs0" "set bs \<subseteq> set bs0" "heap_sys P' (held_by bs) h'" "\<forall>d\<in>#held_by bs. chunks h' d = chunks h d"
    "\<forall>x\<in>set bs. bytes h' (fst x - 8 + csz h (fst x - 8) - 1) = bytes h (fst x - 8 + csz h (fst x - 8) - 1)"
  shows "clients P' h' bs"
  using assms held_by_in by (auto simp: clients_def allocated_def)

lemma clients_malloc:
  assumes cl: "clients P h bs" and n: "n \<le> MAX_SMALL_ALLOC_SIZE" and r: "hm_allocate below tid n h = Some (Inr (p, h'))"
  shows "\<exists>P'. clients P' h' ((p, n) # bs) \<and> (\<forall>x\<in>set bs. \<forall>i < snd x. bytes h' (fst x + i) = bytes h (fst x + i))"
proof -
  have sys: "heap_sys P (held_by bs) h" using cl by (simp add: clients_def)
  from hm_allocate_sys [OF sys n, of below tid] r obtain P' c where
    a: "p = c + 8" "heap_sys P' (add_mset c (held_by bs)) h'" "allocated h' c" "n + CHUNK_HEADER_PLUS_RESERVED \<le> csz h' c"
      "\<forall>d\<in>#held_by bs. chunks h' d = chunks h d" "\<And>a. a \<noteq> c + csz h' c - 1 \<Longrightarrow> bytes h' a = bytes h a"
    by (auto simp: hm_result_def)
  have ti: "tiled P' (add_mset c (mset (free_list h') + held_by bs)) h'" using a(2) by (simp add: heap_sys_def heap_inv_def)
  have far: "b \<noteq> c + csz h' c - 1" if "x \<in> set bs" "fst x - 8 \<le> b" "b < fst x - 8 + csz h' (fst x - 8)" for x b
  proof
    assume "b = c + csz h' c - 1"
    with csz_pos [of h' c] have "c \<le> b" "b < c + csz h' c" by linarith+
    moreover have "fst x - 8 \<in># mset (free_list h') + held_by bs" using held_by_in [OF that(1)] by simp
    ultimately show False using tiled_apart [OF ti, of "fst x - 8" b] that by linarith
  qed
  have ch: "chunks h' (fst x - 8) = chunks h (fst x - 8)" if "x \<in> set bs" for x using a(5) held_by_in [OF that] by blast
  have cx: "8 \<le> fst x" "snd x + CHUNK_HEADER_PLUS_RESERVED \<le> csz h (fst x - 8)" "allocated h (fst x - 8)" if "x \<in> set bs" for x
    using cl that by (auto simp: clients_def)
  have "bytes h' (fst x - 8 + csz h (fst x - 8) - 1) = bytes h (fst x - 8 + csz h (fst x - 8) - 1)" if "x \<in> set bs" for x
    using far [OF that] ch [OF that] csz_pos [of h "fst x - 8"] by (intro a(6)) simp
  then have "allocated h' (fst x - 8)" if "x \<in> set bs" for x using cx(3) [OF that] ch [OF that] that by (simp add: allocated_def)
  then have "clients P' h' ((p, n) # bs)" using a(1-4) ch cx by (simp add: clients_def)
  moreover have "bytes h' (fst x + i) = bytes h (fst x + i)" if "x \<in> set bs" "i < snd x" for x i
    using far [OF that(1), of "fst x + i"] cx(1,2) [OF that(1)] ch [OF that(1)] that(2)
    by (intro a(6)) (simp add: CHUNK_HEADER_PLUS_RESERVED_def)
  ultimately show ?thesis by blast
qed

lemma clients_free:
  assumes cl: "clients P h (bs @ (p, n) # cs)"
  shows "\<exists>h'. hm_free_small p h = Inr h' \<and> clients P h' (bs @ cs) \<and> bytes h' = bytes h"
proof -
  have c: "heap_sys P (add_mset (p - 8) (held_by (bs @ cs))) h" "allocated h (p - 8)" "8 \<le> p"
    using cl by (auto simp: clients_def)
  from hm_free_sys [OF c(1,2)] c(3) obtain h' where
    h': "hm_free_small p h = Inr h'" "heap_sys P (held_by (bs @ cs)) h'" "\<forall>d\<in>#held_by (bs @ cs). chunks h' d = chunks h d"
      "bytes h' = bytes h" by auto
  have "clients P h' (bs @ cs)" by (rule clients_keep [OF cl _ h'(2,3)]) (auto simp: h'(4))
  with h' show ?thesis by blast
qed

lemma clients_coalesce:
  assumes cl: "clients P h bs"
  shows "\<exists>h'. hm_coalesce below h = Inr h' \<and> clients P h' bs \<and> bytes h' = bytes h"
proof -
  have "\<forall>d\<in>#held_by bs. cfree (chunks h d) \<noteq> CHR ''F''" using cl by (auto simp: clients_def held_by_def allocated_def)
  with hm_coalesce_sys [of P "held_by bs" h below] cl obtain h' where
    h': "hm_coalesce below h = Inr h'" "heap_sys P (held_by bs) h'" "same_out (held_by bs) h h'" by (auto simp: clients_def)
  then have "clients P h' bs" by (intro clients_keep [OF cl _ h'(2)]) (simp_all add: same_out_def)
  with h' show ?thesis by (auto simp: same_out_def)
qed

lemma heap_run_clients:
  assumes "heap_run below h0 h bs" "heap_sys {} {#} h0"
  shows "\<exists>P. clients P h bs"
  using assms(1)
proof induction
  case hr_start
  then show ?case using assms(2) by (auto simp: clients_def)
next
  case (hr_malloc h bs n tid p h')
  then show ?case using clients_malloc by blast
next
  case (hr_free h bs p n cs h')
  then show ?case using clients_free by fastforce
next
  case (hr_coalesce h bs h')
  then obtain P where "clients P h bs" by blast
  from clients_coalesce [OF this, of below] hr_coalesce(2) show ?case by auto
next
  case (hr_write h bs p n i v)
  then obtain P where P: "clients P h bs" by blast
  let ?h = "h\<lparr>bytes := (bytes h)(p + i := v)\<rparr>"
  have "heap_sys P (held_by bs) ?h"
    using P by (simp add: clients_def heap_sys_def heap_inv_def bucketed_def tiled_def chunk_ok_def cov_def free_list_def)
  moreover have "\<forall>x\<in>set bs. bytes ?h (fst x - 8 + csz h (fst x - 8) - 1) = bytes h (fst x - 8 + csz h (fst x - 8) - 1)"
  proof
    fix x assume "x \<in> set bs"
    then have "p + i \<noteq> fst x - 8 + csz h (fst x - 8) - 1"
      using client_byte [OF P hr_write(2,3), of "fst x" "snd x"] by simp
    then show "bytes ?h (fst x - 8 + csz h (fst x - 8) - 1) = bytes h (fst x - 8 + csz h (fst x - 8) - 1)" by auto
  qed
  ultimately have "clients P ?h bs" by (intro clients_keep [OF P]) simp_all
  then show ?case by blast
qed

lemma hm_init_sys: "pm_good s \<Longrightarrow> proper (pm_pages s) \<Longrightarrow> heap_sys {} {#} (hm_init c m s)"
proof -
  have "free_list (hm_init c m s) = []" by (simp add: free_list_def hm_init_def concat_eq_Nil_conv)
  then show "pm_good s \<Longrightarrow> proper (pm_pages s) \<Longrightarrow> heap_sys {} {#} (hm_init c m s)"
    by (simp add: heap_sys_def heap_inv_def bucketed_def tiled_def) (simp add: hm_init_def)
qed

text \<open>
  A concrete run: the first request needs a new page and takes its largest chunk, the second one takes
  the chunk at the end of that page.
\<close>

lemma hm_example:
  "\<exists>s0 q h h'. pm_good s0 \<and> proper (pm_pages s0) \<and> hm_allocate 0 5 3719 (hm_init c m s0) = Some (Inr (q + 8, h))
    \<and> hm_allocate 0 5 8 h = Some (Inr (q + 4072, h'))"
proof -
  obtain s0 q s where s0: "pm_good s0" "proper (pm_pages s0)" "pm_alloc (False, True) 1 s0 = Inr (q, s)" "q \<noteq> NULL"
    using pm_example_page by blast
  let ?h = "hm_init c m s0"
  define h1 where "h1 = carve 0 q PAGESIZE (?h\<lparr>page_mgr := s, cv_smallheap_page_count := cv_smallheap_page_count ?h + 1\<rparr>)"
  have al: "pm_alloc (False, False) 1 s0 = Inr (q, s)"
    using s0(3,4) by (auto simp: pm_alloc_def pm_allocatePage_def Let_def split: prod.splits if_splits)
  then have n: "newPage 0 ?h = Inr h1" by (simp add: newPage_def h1_def hm_init_def)
  have b: "11 < HM_BUCKETS" "6 < HM_BUCKETS" "Suc 0 < HM_BUCKETS" by (simp_all add: HM_BUCKETS_def)
  have ch: "first_chunk h1 11 = [q]" "first_chunk h1 (Suc 0) = [q + 4064]" "cfree (chunks h1 q) = CHR ''F''"
    "cfree (chunks h1 (q + 4064)) = CHR ''F''"
    by (simp_all add: h1_def carve_page new_chunk_def push_bucket_chunks b) (simp_all add: hm_init_def)
  have i11: "bucketIndex 0 (3719 + CHUNK_HEADER_PLUS_RESERVED) = 11"
    using bucketIndex_size [OF b(1), of 0] by (simp add: CHUNK_HEADER_PLUS_RESERVED_def sizes)
  have i1: "bucketIndex 0 (8 + CHUNK_HEADER_PLUS_RESERVED) = Suc 0"
  proof -
    have le: "(17::nat) \<le> bucketByteSize (HM_BUCKETS - 1)" by (simp add: sizes)
    have "bucketIndex 0 17 \<noteq> 0" using bucketIndex_least(2) [OF le, of 0] sizes(1) by (intro notI) simp
    moreover have "\<not> Suc 0 < bucketIndex 0 17" using bucketIndex_least(3) [OF le, of "Suc 0" 0] sizes(3) by auto
    ultimately show ?thesis by (simp add: CHUNK_HEADER_PLUS_RESERVED_def)
  qed
  have "first_chunk ?h 11 = []" by (simp add: hm_init_def)
  then have "hm_pop_bucket 0 11 ?h = (NULL, ?h)"
    using b by (simp add: hm_pop_bucket.simps [of 0 11 ?h] hm_pop_bucket.simps [of 0 12 ?h] HM_BUCKETS_def)
  then have e1: "hm_allocate 0 5 3719 ?h = hm_allocate 0 5 3719 h1" using n i11 by (subst hm_allocate.simps) simp
  obtain h2 where h2: "hm_allocate 0 5 3719 h1 = Some (Inr (q + 8, h2))" "first_chunk h2 (Suc 0) = [q + 4064]"
      "cfree (chunks h2 (q + 4064)) = CHR ''F''"
  proof -
    have "hm_pop_bucket 0 11 h1 = (q, h1\<lparr>first_chunk := (first_chunk h1)(11 := [])\<rparr>)"
      using ch(1) b(1) by (simp add: hm_pop_bucket.simps [of 0 11 h1])
    then show ?thesis using that ch i11 s0(4) by (subst (asm) hm_allocate.simps) (simp add: Let_def)
  qed
  have "hm_pop_bucket 0 (Suc 0) h2 = (q + 4064, h2\<lparr>first_chunk := (first_chunk h2)(Suc 0 := [])\<rparr>)"
    using h2(2) b(3) by (simp add: hm_pop_bucket.simps [of 0 "Suc 0" h2])
  then have "\<exists>h'. hm_allocate 0 5 8 h2 = Some (Inr (q + 4064 + 8, h'))"
    using h2(3) i1 by (subst hm_allocate.simps) (simp add: Let_def)
  then obtain h' where "hm_allocate 0 5 8 h2 = Some (Inr (q + 4064 + 8, h'))" by blast
  moreover have "q + 4064 + 8 = q + 4072" by simp
  ultimately have "hm_allocate 0 5 8 h2 = Some (Inr (q + 4072, h'))" by (simp only:)
  with e1 h2(1) s0(1,2) show ?thesis by metis
qed

lemma small_requests: "3719 \<le> MAX_SMALL_ALLOC_SIZE" "8 \<le> MAX_SMALL_ALLOC_SIZE"
  by (simp_all add: MAX_SMALL_ALLOC_SIZE_def CHUNK_HEADER_PLUS_RESERVED_def MIN_BUCKET_SIZE_def FIB_START_INCR_def numeral_eq_Suc)

text \<open>Two free neighbours in a page that would fit a bucket together.\<close>

definition mergeable_free :: "heapmgr \<Rightarrow> bool" where
  "mergeable_free h \<longleftrightarrow> (\<exists>c\<in>set (free_list h). \<exists>d\<in>set (free_list h). d = c + csz h c \<and> d div PAGESIZE = c div PAGESIZE
     \<and> (\<exists>b<HM_BUCKETS. bucketByteSize b = csz h c + csz h d))"

text \<open>C20. In every run of the small heap over an initialised page manager, whatever the memory holds at
  first, the blocks that clients own are apart: any two of them have at least the 9 bytes of
  bookkeeping between them, so no byte is given to two clients.\<close>

theorem heap_blocks_disjoint:
  assumes "pm_good s" and "proper (pm_pages s)" and "heap_run below (hm_init c m s) h (bs @ (p, n) # cs)"
    and "(q, k) \<in> set (bs @ cs)"
  shows "p + n + CHUNK_HEADER_PLUS_RESERVED \<le> q \<or> q + k + CHUNK_HEADER_PLUS_RESERVED \<le> p"
proof -
  obtain P where P: "clients P h (bs @ (p, n) # cs)" using heap_run_clients [OF assms(3) hm_init_sys [OF assms(1,2)]] by blast
  have all: "\<forall>x\<in>set (bs @ (p, n) # cs). 8 \<le> fst x \<and> snd x + CHUNK_HEADER_PLUS_RESERVED \<le> csz h (fst x - 8)"
    using P by (simp add: clients_def)
  have "(q, k) \<in> set (bs @ (p, n) # cs)" using assms(4) by auto
  from bspec [OF all this] bspec [OF all, of "(p, n)"]
  have "8 \<le> p" "n + CHUNK_HEADER_PLUS_RESERVED \<le> csz h (p - 8)" "8 \<le> q" "k + CHUNK_HEADER_PLUS_RESERVED \<le> csz h (q - 8)"
    by simp_all
  with clients_apart [OF P assms(4)] show ?thesis by linarith
qed

theorem heap_blocks_disjoint_witness:
  "\<exists>s0 q h h'. pm_good s0 \<and> hm_allocate 0 5 3719 (hm_init (\<lambda>_. blank_chunk) (\<lambda>_. 0) s0) = Some (Inr (q + 8, h))
    \<and> hm_allocate 0 5 8 h = Some (Inr (q + 4072, h'))
    \<and> (q + 8 + 3719 + CHUNK_HEADER_PLUS_RESERVED \<le> q + 4072 \<or> q + 4072 + 8 + CHUNK_HEADER_PLUS_RESERVED \<le> q + 8)"
proof -
  let ?i = "hm_init (\<lambda>_. blank_chunk) (\<lambda>_. 0)"
  obtain s0 q h h' where e: "pm_good s0" "proper (pm_pages s0)" "hm_allocate 0 5 3719 (?i s0) = Some (Inr (q + 8, h))"
    "hm_allocate 0 5 8 h = Some (Inr (q + 4072, h'))" using hm_example by blast
  have "heap_run 0 (?i s0) h' ([(q + 4072, 8)] @ (q + 8, 3719) # [])"
    using hr_malloc [OF hr_malloc [OF hr_start small_requests(1) e(3)] small_requests(2) e(4)] by simp
  from heap_blocks_disjoint [OF e(1,2) this, of "q + 4072" 8] e show ?thesis by auto
qed

text \<open>C21. In the same runs nothing goes wrong and data is safe: an allocation of a small size always
  returns, with a block or with the failed assertion of a page manager that has no page left; the
  release of an owned block and a coalesce always succeed, no assertion and no validity check fires;
  and none of them changes a byte that a client owns.\<close>

theorem heap_calls_succeed:
  assumes "pm_good s" and "proper (pm_pages s)" and "heap_run below (hm_init c m s) h (bs @ (p, n) # cs)"
    and "k \<le> MAX_SMALL_ALLOC_SIZE"
  shows "(\<exists>x. hm_allocate below tid k h = Some x \<and> (\<forall>e. x = Inl e \<longrightarrow> newPage below h = Inl e)
        \<and> (\<forall>q h'. x = Inr (q, h') \<longrightarrow> (\<forall>i<n. bytes h' (p + i) = bytes h (p + i))))
    \<and> (\<exists>h'. hm_free_small p h = Inr h' \<and> bytes h' = bytes h)
    \<and> (\<exists>h'. hm_coalesce below h = Inr h' \<and> bytes h' = bytes h)"
proof -
  obtain P where P: "clients P h (bs @ (p, n) # cs)" using heap_run_clients [OF assms(3) hm_init_sys [OF assms(1,2)]] by blast
  have sys: "heap_sys P (held_by (bs @ (p, n) # cs)) h" using P by (simp add: clients_def)
  have "\<forall>i<n. bytes h' (p + i) = bytes h (p + i)" if "hm_allocate below tid k h = Some (Inr (q, h'))" for q h'
    using clients_malloc [OF P assms(4) that] by auto
  with hm_allocate_sys [OF sys assms(4), of below tid] clients_free [OF P] clients_coalesce [OF P, of below] show ?thesis by blast
qed

theorem heap_calls_succeed_witness:
  "\<exists>s0 q h. pm_good s0 \<and> hm_allocate 0 5 3719 (hm_init (\<lambda>_. blank_chunk) (\<lambda>_. 0) s0) = Some (Inr (q + 8, h))
    \<and> (\<exists>h'. hm_free_small (q + 8) h = Inr h' \<and> bytes h' = bytes h)
    \<and> (\<exists>h'. hm_coalesce 0 h = Inr h' \<and> bytes h' = bytes h)"
proof -
  let ?i = "hm_init (\<lambda>_. blank_chunk) (\<lambda>_. 0)"
  obtain s0 q h h' where e: "pm_good s0" "proper (pm_pages s0)" "hm_allocate 0 5 3719 (?i s0) = Some (Inr (q + 8, h))"
    using hm_example by blast
  have "heap_run 0 (?i s0) h ([] @ (q + 8, 3719) # [])"
    using hr_malloc [OF hr_start small_requests(1) e(3)] by simp
  from heap_calls_succeed [OF e(1,2) this small_requests(2)] e show ?thesis by blast
qed

text \<open>Coalescing is complete: afterwards no two free chunks that are neighbours in a page have
  together the size of a bucket.\<close>

theorem heap_coalesce_complete:
  assumes "pm_good s" and "proper (pm_pages s)" and "heap_run below (hm_init c m s) h bs"
  shows "\<exists>h'. hm_coalesce below h = Inr h' \<and> \<not> mergeable_free h'"
proof -
  obtain P where P: "clients P h bs" using heap_run_clients [OF assms(3) hm_init_sys [OF assms(1,2)]] by blast
  have "\<forall>d\<in>#held_by bs. cfree (chunks h d) \<noteq> CHR ''F''" using P by (auto simp: clients_def held_by_def allocated_def)
  moreover have "heap_sys P (held_by bs) h" using P by (simp add: clients_def)
  ultimately obtain h' where h': "hm_coalesce below h = Inr h'"
    "\<forall>c\<in>set (free_list h'). \<forall>d\<in>set (free_list h'). d = c + csz h' c \<and> d div PAGESIZE = c div PAGESIZE \<longrightarrow>
         (\<forall>b<HM_BUCKETS. bucketByteSize b \<noteq> csz h' c + csz h' d)"
    using hm_coalesce_sys [of P "held_by bs" h below] by metis
  then have "\<not> mergeable_free h'" unfolding mergeable_free_def by metis
  with h'(1) show ?thesis by blast
qed

theorem heap_coalesce_complete_witness:
  "\<exists>s0 q h h1. pm_good s0 \<and> hm_allocate 0 5 3719 (hm_init (\<lambda>_. blank_chunk) (\<lambda>_. 0) s0) = Some (Inr (q + 8, h))
    \<and> hm_coalesce 0 h = Inr h1 \<and> \<not> mergeable_free h1"
proof -
  let ?i = "hm_init (\<lambda>_. blank_chunk) (\<lambda>_. 0)"
  obtain s0 q h where e: "pm_good s0" "proper (pm_pages s0)" "hm_allocate 0 5 3719 (?i s0) = Some (Inr (q + 8, h))"
    using hm_example by blast
  from heap_coalesce_complete [OF e(1,2) hr_malloc [OF hr_start small_requests(1) e(3)]] e show ?thesis by blast
qed

lemma bucketIndex_linear:
  "bucketIndex below i_sz = length (takeWhile (\<lambda>s. s < i_sz) cv_chunk_size)"
proof (cases "i_sz \<le> bucketByteSize (HM_BUCKETS - 1)")
  case True
  note l = bucketIndex_least [OF True, where below = below]
  have ln: "length cv_chunk_size = HM_BUCKETS" by (simp add: cv_chunk_size_def)
  have nth: "cv_chunk_size ! b = bucketByteSize b" if "b < HM_BUCKETS" for b using that by (simp add: bucketByteSize_def)
  have "takeWhile (\<lambda>s. s < i_sz) cv_chunk_size = take (bucketIndex below i_sz) cv_chunk_size"
    using l ln nth by (intro takeWhile_eq_take_P_nth) auto
  then show ?thesis using l(1) ln by simp
next
  case False
  have "s < i_sz" if "s \<in> set cv_chunk_size" for s
  proof -
    from that obtain b where "b < HM_BUCKETS" "s = bucketByteSize b"
      by (auto simp: cv_chunk_size_def bucketByteSize_def)
    with bucketByteSize_le [of b "HM_BUCKETS - 1"] False show ?thesis by (simp add: HM_BUCKETS_def)
  qed
  then have "takeWhile (\<lambda>s. s < i_sz) cv_chunk_size = cv_chunk_size" by (simp add: takeWhile_eq_all_conv)
  moreover have "length cv_chunk_size = HM_BUCKETS" by (simp add: cv_chunk_size_def)
  ultimately have "length (takeWhile (\<lambda>s. s < i_sz) cv_chunk_size) = HM_BUCKETS" by (simp only:)
  with False show ?thesis by (simp add: bucketIndex_def)
qed

text \<open>The bucket search finds the smallest bucket that fits: it agrees with a linear search of the
  table for every size, whatever the word before the table holds, although for the smallest bucket
  it reads that word.\<close>

theorem bucketIndex_is_linear_search:
  "bucketIndex below i_sz = length (takeWhile (\<lambda>s. s < i_sz) cv_chunk_size)"
  by (rule bucketIndex_linear)

end
