(* ===== verification/Heap_Big.thy ===== *)
theory Heap_Big
  imports Heap_Manager
begin

text \<open>
  The rest of \<open>kernel/heapmgr.C\<close>: big allocations, which are whole pages of the page manager under a
  chain of descriptors, huge allocations, which are slots of one block of virtual memory, and the
  entry points \<open>allocate\<close>, \<open>free\<close> and \<open>realloc\<close> that choose between the three. A chain is a list of
  descriptors from its first element on. The virtual memory calls are arguments that return the
  result code: \<open>mm_alloc_block\<close>, \<open>mm_set_permission\<close> and \<open>mm_remove_pages\<close> take an address and a size.
\<close>

section \<open>Big allocations\<close>

definition MAX_BIG_ALLOC_SIZE :: nat where
  "MAX_BIG_ALLOC_SIZE = 20 * PAGESIZE"

definition SIZEOF_BIG_CHUNK :: nat where
  "SIZEOF_BIG_CHUNK = 24"

text \<open>The walk along the chain: the descriptors before the first one that satisfies the test, and it.\<close>

fun find_desc :: "(big_chunk_t \<Rightarrow> bool) \<Rightarrow> big_chunk_t list \<Rightarrow> (big_chunk_t list \<times> big_chunk_t \<times> big_chunk_t list) option" where
  "find_desc P [] = None"
| "find_desc P (d # ds) =
     (if P d then Some ([], d, ds)
      else case find_desc P ds of None \<Rightarrow> None | Some (xs, e, ys) \<Rightarrow> Some (d # xs, e, ys))"

definition count_pages :: "u32 \<Rightarrow> heapmgr \<Rightarrow> heapmgr" where
  "count_pages n h =
     (let c = cv_largeheap_page_count h + n
      in h\<lparr>cv_largeheap_page_count := c,
           cv_largeheap_page_max := (if cv_largeheap_page_max h < c then c else cv_largeheap_page_max h)\<rparr>)"

definition hm_allocateBig :: "nat \<Rightarrow> u16 \<Rightarrow> nat \<Rightarrow> heapmgr \<Rightarrow> (kerror + addr \<times> heapmgr) option" where
  "hm_allocateBig below tid i_sz h =
     (let pages = ALIGN_PAGE i_sz div PAGESIZE
      in obind (Some (pm_alloc (False, False) pages (page_mgr h))) (\<lambda>(v, s).
           let h1 = count_pages (of_nat pages) (h\<lparr>page_mgr := s\<rparr>)
           in case find_desc (\<lambda>d. bc_page_count d = 0 \<and> bc_addr d = NULL) (big_chunk_stack h1) of
                Some (xs, d, ys) \<Rightarrow>
                  Some (Inr (v, h1\<lparr>big_chunk_stack := xs @ d\<lparr>bc_addr := v, bc_page_count := pages\<rparr> # ys\<rparr>))
              | None \<Rightarrow>
                  obind (hm_allocate below tid SIZEOF_BIG_CHUNK h1) (\<lambda>(bc, h2).
                    Some (Inr (v, h2\<lparr>big_chunk_stack :=
                      \<lparr>bc_self = bc, bc_addr = v, bc_page_count = pages\<rparr> # big_chunk_stack h2\<rparr>)))))"

definition hm_freeBig :: "addr \<Rightarrow> heapmgr \<Rightarrow> kerror + bool \<times> heapmgr" where
  "hm_freeBig i_ptr h =
     (if ALIGN_PAGE i_ptr \<noteq> i_ptr then Inr (False, h)
      else case find_desc (\<lambda>d. bc_addr d = i_ptr) (big_chunk_stack h) of
        None \<Rightarrow> Inl CritAssert
      | Some (xs, d, ys) \<Rightarrow>
          sbind (pm_freePage i_ptr (bc_page_count d) (page_mgr h)) (\<lambda>s.
            Inr (True, h\<lparr>cv_largeheap_page_count := cv_largeheap_page_count h - of_nat (bc_page_count d),
              big_chunk_stack := xs @ d\<lparr>bc_addr := NULL, bc_page_count := 0\<rparr> # ys, page_mgr := s\<rparr>)))"

definition memcpy_bytes :: "addr \<Rightarrow> addr \<Rightarrow> nat \<Rightarrow> heapmgr \<Rightarrow> heapmgr" where
  "memcpy_bytes dst src n h = h\<lparr>bytes := (\<lambda>a. if dst \<le> a \<and> a < dst + n then bytes h (src + (a - dst)) else bytes h a)\<rparr>"

text \<open>\<open>_reallocBig\<close>; a null result says that the pointer is not a big allocation.\<close>

definition hm_reallocBig :: "addr \<Rightarrow> nat \<Rightarrow> heapmgr \<Rightarrow> kerror + addr \<times> heapmgr" where
  "hm_reallocBig i_ptr i_sz h =
     (if ALIGN_PAGE i_ptr \<noteq> i_ptr then Inr (NULL, h)
      else case find_desc (\<lambda>d. bc_addr d = i_ptr) (big_chunk_stack h) of
        None \<Rightarrow> Inr (NULL, h)
      | Some (xs, d, ys) \<Rightarrow>
          let new_size = ALIGN_PAGE i_sz div PAGESIZE
          in if new_size > bc_page_count d
             then sbind (pm_alloc (False, False) new_size
                    (page_mgr (count_pages (of_nat (new_size - bc_page_count d)) h))) (\<lambda>(new_ptr, s).
                    let h1 = memcpy_bytes new_ptr i_ptr (bc_page_count d * PAGESIZE)
                               ((count_pages (of_nat (new_size - bc_page_count d)) h)
                                  \<lparr>big_chunk_stack := xs @ d\<lparr>bc_addr := new_ptr, bc_page_count := new_size\<rparr> # ys\<rparr>)
                    in sbind (pm_freePage i_ptr (bc_page_count d) s) (\<lambda>s'.
                         Inr (new_ptr, h1\<lparr>page_mgr := s'\<rparr>)))
             else Inr (i_ptr, h))"

section \<open>Huge allocations\<close>

definition VMM_VADDR_MALLOC :: addr where
  "VMM_VADDR_MALLOC = 16 * (1024 * MEGABYTE)"

definition VMM_MALLOC_SIZE :: nat where
  "VMM_MALLOC_SIZE = 1024 * MEGABYTE"

definition HC_SLOT_SIZE :: nat where
  "HC_SLOT_SIZE = 3 * MEGABYTE"

definition HC_NUM_SLOTS :: nat where
  "HC_NUM_SLOTS = 20"

definition HC_TOTAL_SIZE :: nat where
  "HC_TOTAL_SIZE = HC_SLOT_SIZE * HC_NUM_SLOTS"

lemma HC_SLOT_SIZE_pos [simp]: "0 < HC_SLOT_SIZE"
  by (simp add: HC_SLOT_SIZE_def MEGABYTE_def)

lemma HC_SLOT_below: "HC_SLOT_SIZE < VMM_VADDR_MALLOC"
  by (simp add: HC_SLOT_SIZE_def VMM_VADDR_MALLOC_def MEGABYTE_def)

text \<open>The loop that makes the descriptors of the slots.\<close>

function huge_fill :: "nat \<Rightarrow> u16 \<Rightarrow> addr \<Rightarrow> heapmgr \<Rightarrow> (kerror + heapmgr) option" where
  "huge_fill below tid addr h =
     (if addr \<ge> VMM_VADDR_MALLOC
      then obind (hm_allocate below tid SIZEOF_BIG_CHUNK h) (\<lambda>(hc, h1).
             huge_fill below tid (addr - HC_SLOT_SIZE)
               (h1\<lparr>huge_chunk_stack := \<lparr>bc_self = hc, bc_addr = addr, bc_page_count = 0\<rparr> # huge_chunk_stack h1\<rparr>))
      else Some (Inr h))"
  by pat_completeness auto
termination
proof (relation "measure (\<lambda>(below, tid, a, h). a)")
  fix below tid a h x xa y
  assume "VMM_VADDR_MALLOC \<le> a"
  then show "((below, tid, a - HC_SLOT_SIZE, y\<lparr>huge_chunk_stack := \<lparr>bc_self = xa, bc_addr = a, bc_page_count = 0\<rparr> # huge_chunk_stack y\<rparr>), (below :: nat), (tid :: u16), a, (h :: heapmgr))
    \<in> measure (\<lambda>(below, tid, a, h). a)" using HC_SLOT_below by simp
qed simp

declare huge_fill.simps [simp del]

text \<open>
  \<open>_allocateHuge\<close>. A call that finds \<open>cv_hugeblock_allocated\<close> at 1 yields until some other task sets it
  to 2; when no other task does, it never returns, and the value is \<open>None\<close>.
\<close>

definition huge_init ::
  "(addr \<Rightarrow> nat \<Rightarrow> int) \<Rightarrow> nat \<Rightarrow> u16 \<Rightarrow> heapmgr \<Rightarrow> (kerror + bool \<times> heapmgr) option" where
  "huge_init mm_alloc_block below tid h =
     (if cv_hugeblock_allocated h = 0
      then if mm_alloc_block VMM_VADDR_MALLOC HC_TOTAL_SIZE \<noteq> 0
           then Some (Inr (False, h\<lparr>cv_hugeblock_allocated := 1\<rparr>))
           else obind (huge_fill below tid (VMM_VADDR_MALLOC + HC_TOTAL_SIZE) (h\<lparr>cv_hugeblock_allocated := 1\<rparr>))
                  (\<lambda>h1. Some (Inr (True, h1\<lparr>cv_hugeblock_allocated := 2\<rparr>)))
      else if cv_hugeblock_allocated h \<noteq> 2 then None
      else Some (Inr (True, h)))"

definition hm_allocateHuge ::
  "(addr \<Rightarrow> nat \<Rightarrow> int) \<Rightarrow> nat \<Rightarrow> u16 \<Rightarrow> nat \<Rightarrow> heapmgr \<Rightarrow> (kerror + addr \<times> heapmgr) option" where
  "hm_allocateHuge mm_alloc_block below tid i_sz h =
     (let pages = ALIGN_PAGE i_sz div PAGESIZE
      in if pages * PAGESIZE > HC_SLOT_SIZE then Some (Inr (NULL, h))
         else obind (huge_init mm_alloc_block below tid h) (\<lambda>(ready, h1).
           if \<not> ready then Some (Inr (NULL, h1))
           else case find_desc (\<lambda>d. bc_page_count d = 0) (huge_chunk_stack h1) of
             None \<Rightarrow> Some (Inr (NULL, h1))
           | Some (xs, d, ys) \<Rightarrow>
               Some (Inr (bc_addr d, h1\<lparr>huge_chunk_stack := xs @ d\<lparr>bc_page_count := pages\<rparr> # ys\<rparr>))))"

definition hm_freeHuge ::
  "(addr \<Rightarrow> nat \<Rightarrow> int) \<Rightarrow> (addr \<Rightarrow> nat \<Rightarrow> int) \<Rightarrow> addr \<Rightarrow> heapmgr \<Rightarrow> bool \<times> heapmgr" where
  "hm_freeHuge mm_remove_pages mm_set_permission i_ptr h =
     (if i_ptr < VMM_VADDR_MALLOC \<or> i_ptr \<ge> VMM_VADDR_MALLOC + VMM_MALLOC_SIZE then (False, h)
      else case find_desc (\<lambda>d. bc_addr d = i_ptr) (huge_chunk_stack h) of
        None \<Rightarrow> (False, h)
      | Some (xs, d, ys) \<Rightarrow>
          if mm_remove_pages i_ptr (bc_page_count d * PAGESIZE) \<noteq> 0 then (False, h)
          else if mm_set_permission i_ptr (bc_page_count d * PAGESIZE) \<noteq> 0 then (False, h)
          else (True, h\<lparr>huge_chunk_stack := xs @ d\<lparr>bc_page_count := 0\<rparr> # ys\<rparr>))"

definition hm_reallocHuge :: "(addr \<Rightarrow> nat \<Rightarrow> int) \<Rightarrow> addr \<Rightarrow> nat \<Rightarrow> heapmgr \<Rightarrow> kerror + addr \<times> heapmgr" where
  "hm_reallocHuge mm_set_permission i_ptr i_sz h =
     (if i_ptr < VMM_VADDR_MALLOC \<or> i_ptr \<ge> VMM_VADDR_MALLOC + VMM_MALLOC_SIZE then Inl CritAssert
      else if i_sz > HC_SLOT_SIZE then Inl CritAssert
      else case find_desc (\<lambda>d. bc_addr d = i_ptr) (huge_chunk_stack h) of
        None \<Rightarrow> Inr (NULL, h)
      | Some (xs, d, ys) \<Rightarrow>
          let n = ALIGN_PAGE i_sz div PAGESIZE;
              h1 = h\<lparr>huge_chunk_stack := xs @ d\<lparr>bc_page_count := n\<rparr> # ys\<rparr>
          in if mm_set_permission i_ptr (n * PAGESIZE) \<noteq> 0 then Inr (NULL, h1)
             else if mm_set_permission (i_ptr + n * PAGESIZE) (HC_SLOT_SIZE - n * PAGESIZE) \<noteq> 0 then Inr (NULL, h1)
             else Inr (i_ptr, h1))"

section \<open>Entry points\<close>

definition heap_allocate ::
  "(addr \<Rightarrow> nat \<Rightarrow> int) \<Rightarrow> bool \<Rightarrow> nat \<Rightarrow> u16 \<Rightarrow> nat \<Rightarrow> heapmgr \<Rightarrow> (kerror + addr \<times> heapmgr) option" where
  "heap_allocate mm_alloc_block kernel_mode below tid i_sz h =
     (if i_sz > MAX_BIG_ALLOC_SIZE \<and> i_sz \<le> HC_SLOT_SIZE \<and> \<not> kernel_mode
      then obind (hm_allocateHuge mm_alloc_block below tid i_sz h) (\<lambda>(ptr, h1).
             if ptr \<noteq> NULL then Some (Inr (ptr, h1)) else hm_allocateBig below tid i_sz h1)
      else if i_sz > MAX_SMALL_ALLOC_SIZE then hm_allocateBig below tid i_sz h
      else hm_allocate below tid i_sz h)"

definition heap_free ::
  "(addr \<Rightarrow> nat \<Rightarrow> int) \<Rightarrow> (addr \<Rightarrow> nat \<Rightarrow> int) \<Rightarrow> addr \<Rightarrow> heapmgr \<Rightarrow> kerror + heapmgr" where
  "heap_free mm_remove_pages mm_set_permission i_ptr h =
     (if i_ptr = NULL then Inr h
      else case hm_freeHuge mm_remove_pages mm_set_permission i_ptr h of
        (True, h1) \<Rightarrow> Inr h1
      | (False, h1) \<Rightarrow>
          sbind (hm_freeBig i_ptr h1) (\<lambda>(freed, h2). if freed then Inr h2 else hm_free_small i_ptr h2))"

definition heap_realloc ::
  "(addr \<Rightarrow> nat \<Rightarrow> int) \<Rightarrow> (addr \<Rightarrow> nat \<Rightarrow> int) \<Rightarrow> nat \<Rightarrow> u16 \<Rightarrow> addr \<Rightarrow> nat \<Rightarrow> heapmgr \<Rightarrow> (kerror + addr \<times> heapmgr) option" where
  "heap_realloc mm_remove_pages mm_set_permission below tid i_ptr i_sz h =
     (if i_ptr \<ge> VMM_VADDR_MALLOC then Some (hm_reallocHuge mm_set_permission i_ptr i_sz h)
      else obind (Some (hm_reallocBig i_ptr i_sz h)) (\<lambda>(new_ptr, h1).
        if new_ptr \<noteq> NULL then Some (Inr (new_ptr, h1))
        else
          let chunk = i_ptr - 8;
              asize = bucketByteSize (cbucket (chunks h1 chunk)) - CHUNK_HEADER_PLUS_RESERVED
          in if asize < i_sz
             then obind (if i_sz > MAX_SMALL_ALLOC_SIZE then hm_allocateBig below tid i_sz h1
                         else hm_allocate below tid i_sz h1) (\<lambda>(p, h2).
                    obind (Some (heap_free mm_remove_pages mm_set_permission i_ptr (memcpy_bytes p i_ptr asize h2))) (\<lambda>h3.
                      if p = NULL then Some (Inl CritAssert) else Some (Inr (p, h3))))
             else if i_ptr = NULL then Some (Inl CritAssert) else Some (Inr (i_ptr, h1))))"

section \<open>What the small heap leaves alone\<close>

definition directories :: "heapmgr \<Rightarrow> big_chunk_t list \<times> big_chunk_t list \<times> u32" where
  "directories h = (big_chunk_stack h, huge_chunk_stack h, cv_hugeblock_allocated h)"

lemma directories_simps [simp]:
  "directories (upd_chunk c f h) = directories h" "directories (hm_push_bucket c b h) = directories h"
  "directories (h\<lparr>first_chunk := x\<rparr>) = directories h" "directories (h\<lparr>bytes := m\<rparr>) = directories h"
  "directories (h\<lparr>page_mgr := s\<rparr>) = directories h" "directories (h\<lparr>page_mgr := s, cv_smallheap_page_count := k\<rparr>) = directories h"
  by (simp_all add: directories_def upd_chunk_def hm_push_bucket_def)

lemma pop_bucket_directories: "hm_pop_bucket below b h = (c, h') \<Longrightarrow> directories h' = directories h"
proof (induction below b h arbitrary: c h' rule: hm_pop_bucket.induct)
  case (1 below b h)
  show ?case
  proof (cases "b < HM_BUCKETS \<and> first_chunk h b = []")
    case True
    obtain c1 h1 where p: "hm_pop_bucket below (b + 1) h = (c1, h1)" by fastforce
    have "directories h1 = directories h" using 1(1) [OF _ _ p] True by simp
    with 1(2) True p show ?thesis
      by (auto simp: hm_pop_bucket.simps [of below b h] Let_def split: if_splits)
  next
    case False
    with 1(2) show ?thesis by (auto simp: hm_pop_bucket.simps [of below b h] split: if_splits list.splits)
  qed
qed

lemma newPage_directories: "newPage below h = Inr h' \<Longrightarrow> directories h' = directories h"
  by (auto simp: newPage_def sbind_Inr_iff carve_page new_chunk_def)

lemma hm_allocate_directories:
  assumes "hm_allocate below tid n h = Some (Inr (p, h'))"
  shows "directories h' = directories h"
proof -
  have "\<forall>p h'. x = Inr (p, h') \<longrightarrow> directories h' = directories h" if "hm_allocate below tid n h = Some x" for x
  proof (rule hm_allocate.raw_induct [where P = "\<lambda>_ _ _ h x. \<forall>p h'. x = Inr (p, h') \<longrightarrow> directories h' = directories h", OF _ that])
    fix hm below tid n h x
    assume 1: "\<And>below tid n h x. hm below tid n h = Some x \<Longrightarrow> \<forall>p h'. x = Inr (p, h') \<longrightarrow> directories h' = directories h"
      "(case hm_pop_bucket below (bucketIndex below (n + CHUNK_HEADER_PLUS_RESERVED)) h of
        (chunk, h1) \<Rightarrow>
          if chunk = NULL then obind (Some (newPage below h1)) (hm below tid n)
          else if cfree (chunks h1 chunk) \<noteq> CHR ''F'' then Some (Inl CritAssert)
          else let size = bucketByteSize (cbucket (chunks h1 chunk));
                   h2 = h1\<lparr>bytes := (bytes h1)(chunk + size - 1 := of_char (CHR ''V''))\<rparr>
               in Some (Inr (chunk + 8, upd_chunk chunk (\<lambda>r. r\<lparr>cfree := CHR ''A'', csize := of_nat n,
                    callocator := tid\<rparr>) h2))) = Some x"
    obtain c h1 where p: "hm_pop_bucket below (bucketIndex below (n + CHUNK_HEADER_PLUS_RESERVED)) h = (c, h1)" by fastforce
    note d1 = pop_bucket_directories [OF p]
    show "\<forall>p h'. x = Inr (p, h') \<longrightarrow> directories h' = directories h"
    proof (cases "c = NULL")
      case True
      show ?thesis
      proof (cases "newPage below h1")
        case (Inl e)
        with 1(2) p True show ?thesis by auto
      next
        case (Inr h2)
        then have "hm below tid n h2 = Some x" using 1(2) p True by simp
        from 1(1) [OF this] newPage_directories [OF Inr] d1 show ?thesis by simp
      qed
    next
      case False
      with 1(2) p d1 show ?thesis by (auto simp: Let_def split: if_splits)
    qed
  qed
  with assms show ?thesis by blast
qed

lemma huge_fill_slots:
  assumes "huge_fill below tid (VMM_VADDR_MALLOC + n * HC_SLOT_SIZE) h = Some (Inr h')"
  shows "\<exists>ds. huge_chunk_stack h' = ds @ huge_chunk_stack h \<and> map bc_addr ds = map (\<lambda>i. VMM_VADDR_MALLOC + i * HC_SLOT_SIZE) [0..<Suc n]
    \<and> (\<forall>d\<in>set ds. bc_page_count d = 0)"
  using assms
proof (induction n arbitrary: h)
  case 0
  then obtain p h1 where a: "hm_allocate below tid SIZEOF_BIG_CHUNK h = Some (Inr (p, h1))"
    "huge_fill below tid (VMM_VADDR_MALLOC - HC_SLOT_SIZE) (h1\<lparr>huge_chunk_stack :=
       \<lparr>bc_self = p, bc_addr = VMM_VADDR_MALLOC, bc_page_count = 0\<rparr> # huge_chunk_stack h1\<rparr>) = Some (Inr h')"
    by (auto simp: huge_fill.simps [of below tid VMM_VADDR_MALLOC] obind_def split: Option.bind_splits sum.splits)
  have "\<not> VMM_VADDR_MALLOC \<le> VMM_VADDR_MALLOC - HC_SLOT_SIZE" using HC_SLOT_below HC_SLOT_SIZE_pos by linarith
  with a(2) have "h' = h1\<lparr>huge_chunk_stack := \<lparr>bc_self = p, bc_addr = VMM_VADDR_MALLOC, bc_page_count = 0\<rparr> # huge_chunk_stack h1\<rparr>"
    by (simp add: huge_fill.simps [of below tid "VMM_VADDR_MALLOC - HC_SLOT_SIZE"])
  with hm_allocate_directories [OF a(1)] show ?case by (auto simp: directories_def)
next
  case (Suc n)
  let ?a = "VMM_VADDR_MALLOC + Suc n * HC_SLOT_SIZE"
  from Suc.prems obtain p h1 where a: "hm_allocate below tid SIZEOF_BIG_CHUNK h = Some (Inr (p, h1))"
    "huge_fill below tid (?a - HC_SLOT_SIZE) (h1\<lparr>huge_chunk_stack :=
       \<lparr>bc_self = p, bc_addr = ?a, bc_page_count = 0\<rparr> # huge_chunk_stack h1\<rparr>) = Some (Inr h')"
    by (subst (asm) huge_fill.simps) (auto simp: obind_def split: Option.bind_splits sum.splits)
  have "?a - HC_SLOT_SIZE = VMM_VADDR_MALLOC + n * HC_SLOT_SIZE" by simp
  from Suc.IH [OF a(2) [unfolded this]] obtain ds where
    d: "huge_chunk_stack h' = ds @ \<lparr>bc_self = p, bc_addr = ?a, bc_page_count = 0\<rparr> # huge_chunk_stack h1"
      "map bc_addr ds = map (\<lambda>i. VMM_VADDR_MALLOC + i * HC_SLOT_SIZE) [0..<Suc n]" "\<forall>d\<in>set ds. bc_page_count d = 0" by auto
  have "huge_chunk_stack h1 = huge_chunk_stack h" using hm_allocate_directories [OF a(1)] by (simp add: directories_def)
  with d show ?case by (intro exI [of _ "ds @ [\<lparr>bc_self = p, bc_addr = ?a, bc_page_count = 0\<rparr>]"]) simp
qed

section \<open>Properties\<close>

lemma find_desc_Some:
  "find_desc P ds = Some (xs, d, ys) \<longleftrightarrow> ds = xs @ d # ys \<and> P d \<and> (\<forall>e\<in>set xs. \<not> P e)"
proof (induction ds arbitrary: xs)
  case (Cons e ds)
  show ?case
  proof (cases "P e")
    case True
    then show ?thesis by (cases xs) auto
  next
    case False
    then show ?thesis using Cons.IH by (cases "find_desc P ds"; cases xs) (auto split: prod.splits)
  qed
qed simp

text \<open>The chain of big allocations: an unused descriptor is empty, a used one names pages that are not free.\<close>

definition big_inv :: "heapmgr \<Rightarrow> bool" where
  "big_inv h \<longleftrightarrow> (\<forall>d\<in>set (big_chunk_stack h). (bc_page_count d = 0 \<longleftrightarrow> bc_addr d = NULL) \<and> (bc_addr d \<noteq> NULL \<longrightarrow> bc_addr d \<notin># pm_pages (page_mgr h)))"

definition has_unused :: "heapmgr \<Rightarrow> bool" where
  "has_unused h \<longleftrightarrow> (\<exists>d\<in>set (big_chunk_stack h). bc_page_count d = 0 \<and> bc_addr d = NULL)"

lemma find_desc_ex: "d \<in> set ds \<Longrightarrow> P d \<Longrightarrow> \<exists>x. find_desc P ds = Some x"
  by (induction ds) (auto split: option.split)

text \<open>A big allocation is a round trip: where an unused descriptor is on the chain, the block is a
  page-aligned run of pages taken from the page manager, and its release gives exactly these pages
  back and leaves chain and page count as they were.\<close>

theorem big_round_trip:
  assumes "pm_good (page_mgr h)" and "big_inv h" and "has_unused h" and "0 < i_sz"
    and "hm_allocateBig below tid i_sz h = Some (Inr (v, h1))"
  shows "PAGESIZE dvd v \<and> pm_pages (page_mgr h) = pm_pages (page_mgr h1) + mset (pages v (ALIGN_PAGE i_sz div PAGESIZE))
    \<and> (\<exists>h2. hm_freeBig v h1 = Inr (True, h2) \<and> pm_pages (page_mgr h2) = pm_pages (page_mgr h)
        \<and> big_chunk_stack h2 = big_chunk_stack h \<and> cv_largeheap_page_count h2 = cv_largeheap_page_count h)"
proof -
  let ?n = "ALIGN_PAGE i_sz div PAGESIZE"
  have n: "0 < ?n"
  proof -
    have "i_sz \<le> ALIGN_PAGE i_sz" "PAGESIZE dvd ALIGN_PAGE i_sz" by (simp_all add: ALIGN_PAGE_def ALIGN_X_ge)
    with assms(4) show ?thesis by (metis PAGESIZE_pos div_greater_zero_iff dvd_imp_le le_trans less_le_trans not_less)
  qed
  from assms(3) obtain xs d ys where fd: "find_desc (\<lambda>d. bc_page_count d = 0 \<and> bc_addr d = NULL) (big_chunk_stack h) = Some (xs, d, ys)"
    unfolding has_unused_def using find_desc_ex [of _ "big_chunk_stack h" "\<lambda>d. bc_page_count d = 0 \<and> bc_addr d = NULL"] by fastforce
  have st: "big_chunk_stack h = xs @ d # ys" "bc_page_count d = 0" "bc_addr d = NULL" using fd by (simp_all add: find_desc_Some)
  obtain s where a: "pm_alloc (False, False) ?n (page_mgr h) = Inr (v, s)"
    and h1: "h1 = (count_pages (of_nat ?n) (h\<lparr>page_mgr := s\<rparr>))\<lparr>big_chunk_stack := xs @ d\<lparr>bc_addr := v, bc_page_count := ?n\<rparr> # ys\<rparr>"
    using assms(5) fd unfolding hm_allocateBig_def Let_def
    by (cases "pm_alloc (False, False) ?n (page_mgr h)") (auto simp: count_pages_def Let_def)
  have vn: "v \<noteq> NULL" using pm_alloc_kernel_cases [OF a] by auto
  note al = pm.alloc_some [OF assms(1) n a vn]
  have vp: "v \<in># pm_pages (page_mgr h)" using al first_page [OF n, of v] by simp
  have pg: "page_mgr h1 = s" "cv_largeheap_page_count h1 = cv_largeheap_page_count h + of_nat ?n"
    by (simp_all add: h1 count_pages_def Let_def)
  have kn: "set (pages v ?n) \<subseteq> pm_known s"
    using pm.held_known [OF assms(1)] al by (auto simp: subset_iff)
  from al pm.release_ok [of s v ?n] vn kn obtain s' where
    s': "pm_freePage v ?n s = Inr s'" "pm_pages s' = pm_pages s + mset (pages v ?n)" by auto
  have "\<forall>e\<in>set xs. bc_addr e \<noteq> v" using assms(2) st(1) vp vn by (auto simp: big_inv_def)
  then have "find_desc (\<lambda>e. bc_addr e = v) (big_chunk_stack h1) = Some (xs, d\<lparr>bc_addr := v, bc_page_count := ?n\<rparr>, ys)"
    unfolding find_desc_Some by (simp add: h1)
  moreover have "ALIGN_PAGE v = v" using al by (simp add: ALIGN_PAGE_def ALIGN_X_id)
  ultimately have fr: "hm_freeBig v h1 = Inr (True, h1\<lparr>cv_largeheap_page_count := cv_largeheap_page_count h1 - of_nat ?n,
      big_chunk_stack := xs @ d\<lparr>bc_addr := NULL, bc_page_count := 0\<rparr> # ys, page_mgr := s'\<rparr>)"
    using s'(1) pg(1) by (simp add: hm_freeBig_def)
  have "d\<lparr>bc_addr := NULL, bc_page_count := 0\<rparr> = d" using st(2,3) by simp
  with fr al pg s' st(1) show ?thesis by simp
qed

theorem big_round_trip_witness:
  "\<exists>s0 v h1 h2. pm_initialize MEGABYTE (8 * MEGABYTE) = Inr s0
    \<and> hm_allocateBig 0 5 4000 ((hm_init (\<lambda>_. blank_chunk) (\<lambda>_. 0) s0)\<lparr>big_chunk_stack := [\<lparr>bc_self = 64, bc_addr = 0, bc_page_count = 0\<rparr>]\<rparr>)
         = Some (Inr (v, h1)) \<and> hm_freeBig v h1 = Inr (True, h2) \<and> pm_pages (page_mgr h2) = pm_pages s0"
proof -
  obtain s0 q s where s0: "pm_initialize MEGABYTE (8 * MEGABYTE) = Inr s0" "pm_good s0" "proper (pm_pages s0)"
    "pm_alloc (False, True) 1 s0 = Inr (q, s)" "q \<noteq> NULL" using pm_example_page by blast
  have al: "pm_alloc (False, False) 1 s0 = Inr (q, s)"
    using s0(4,5) by (auto simp: pm_alloc_def pm_allocatePage_def Let_def split: prod.splits if_splits)
  let ?h = "(hm_init (\<lambda>_. blank_chunk) (\<lambda>_. 0) s0)\<lparr>big_chunk_stack := [\<lparr>bc_self = 64, bc_addr = 0, bc_page_count = 0\<rparr>]\<rparr>"
  have pm: "page_mgr ?h = s0" by (simp add: hm_init_def)
  have one: "ALIGN_PAGE 4000 div PAGESIZE = 1" by (simp add: ALIGN_PAGE_def ALIGN_X_def PAGESIZE_def)
  have iv: "big_inv ?h" "has_unused ?h" using pm by (simp_all add: big_inv_def has_unused_def)
  have "\<exists>v h1. hm_allocateBig 0 5 4000 ?h = Some (Inr (v, h1))"
    using al pm by (simp add: hm_allocateBig_def one Let_def count_pages_def)
  then obtain v h1 where a: "hm_allocateBig 0 5 4000 ?h = Some (Inr (v, h1))" by blast
  from big_round_trip [OF _ iv _ a] s0 pm a show ?thesis by auto
qed

text \<open>One slot too many: the descriptors of the huge slots include one just behind the block of
  virtual memory that was reserved for them. When every slot inside the block is in use, the next
  huge allocation returns an address outside the block instead of failing.\<close>

theorem huge_slot_outside:
  assumes "huge_chunk_stack h = []" and "cv_hugeblock_allocated h = 0"
    and "huge_init (\<lambda>_ _. 0) below tid h = Some (Inr (True, h1))"
    and "h2 = h1\<lparr>huge_chunk_stack := map (\<lambda>d. if bc_addr d < VMM_VADDR_MALLOC + HC_TOTAL_SIZE then d\<lparr>bc_page_count := 1\<rparr> else d) (huge_chunk_stack h1)\<rparr>"
    and "0 < i_sz" and "i_sz \<le> HC_SLOT_SIZE"
  shows "length (huge_chunk_stack h1) = Suc HC_NUM_SLOTS
    \<and> (\<exists>h3. hm_allocateHuge (\<lambda>_ _. 0) below tid i_sz h2 = Some (Inr (VMM_VADDR_MALLOC + HC_TOTAL_SIZE, h3)))"
proof -
  have tot: "HC_TOTAL_SIZE = HC_NUM_SLOTS * HC_SLOT_SIZE" by (simp add: HC_TOTAL_SIZE_def)
  from assms(2,3) obtain h' where hf: "huge_fill below tid (VMM_VADDR_MALLOC + HC_NUM_SLOTS * HC_SLOT_SIZE) (h\<lparr>cv_hugeblock_allocated := 1\<rparr>) = Some (Inr h')"
    and h1: "h1 = h'\<lparr>cv_hugeblock_allocated := 2\<rparr>"
    unfolding huge_init_def tot by (auto simp: obind_def split: Option.bind_splits sum.splits)
  from huge_fill_slots [OF hf] assms(1) obtain ds where
    ds: "huge_chunk_stack h1 = ds" "map bc_addr ds = map (\<lambda>i. VMM_VADDR_MALLOC + i * HC_SLOT_SIZE) [0..<Suc HC_NUM_SLOTS]"
      "\<forall>d\<in>set ds. bc_page_count d = 0" by (auto simp: h1)
  have len: "length ds = Suc HC_NUM_SLOTS" using arg_cong [OF ds(2), of length] by simp
  then obtain xs d where xd: "ds = xs @ [d]" by (metis append_butlast_last_id list.size(3) nat.distinct(1))
  have mx: "map bc_addr xs = map (\<lambda>i. VMM_VADDR_MALLOC + i * HC_SLOT_SIZE) [0..<HC_NUM_SLOTS]" "bc_addr d = VMM_VADDR_MALLOC + HC_TOTAL_SIZE"
    using ds(2) by (simp_all add: xd tot)
  have lx: "bc_addr e < VMM_VADDR_MALLOC + HC_TOTAL_SIZE" if "e \<in> set xs" for e
  proof -
    have "bc_addr e \<in> set (map bc_addr xs)" using that by simp
    then obtain i where "i < HC_NUM_SLOTS" "bc_addr e = VMM_VADDR_MALLOC + i * HC_SLOT_SIZE" unfolding mx(1) by auto
    then show ?thesis by (simp add: tot)
  qed
  let ?f = "\<lambda>d. if bc_addr d < VMM_VADDR_MALLOC + HC_TOTAL_SIZE then d\<lparr>bc_page_count := 1\<rparr> else d"
  have "huge_chunk_stack h2 = map ?f xs @ [d]" using mx(2) by (simp add: assms(4) ds(1) xd)
  then have "find_desc (\<lambda>d. bc_page_count d = 0) (huge_chunk_stack h2) = Some (map ?f xs, d, [])"
    unfolding find_desc_Some using lx ds(3) by (auto simp: xd)
  moreover have "cv_hugeblock_allocated h2 = 2" by (simp add: assms(4) h1)
  moreover have "\<not> HC_SLOT_SIZE < ALIGN_PAGE i_sz div PAGESIZE * PAGESIZE"
  proof -
    have k: "HC_SLOT_SIZE = PAGESIZE * 768" by (simp add: HC_SLOT_SIZE_def MEGABYTE_def PAGESIZE_def)
    have "ALIGN_PAGE i_sz < HC_SLOT_SIZE + PAGESIZE" using ALIGN_X_less [of PAGESIZE i_sz] assms(6) by (simp add: ALIGN_PAGE_def)
    moreover have "PAGESIZE dvd ALIGN_PAGE i_sz" by (simp add: ALIGN_PAGE_def)
    ultimately show ?thesis unfolding k by (auto elim!: dvdE)
  qed
  ultimately have "hm_allocateHuge (\<lambda>_ _. 0) below tid i_sz h2 = Some (Inr (bc_addr d,
      h2\<lparr>huge_chunk_stack := map ?f xs @ [d\<lparr>bc_page_count := ALIGN_PAGE i_sz div PAGESIZE\<rparr>]\<rparr>))"
    by (simp add: hm_allocateHuge_def huge_init_def Let_def)
  with len ds(1) mx(2) show ?thesis by auto
qed

text \<open>A heap with enough free chunks for the descriptors.\<close>

lemma huge_fill_returns:
  assumes "n < length (first_chunk h 2)" "distinct (first_chunk h 2)" "NULL \<notin> set (first_chunk h 2)"
    "\<forall>c\<in>set (first_chunk h 2). cfree (chunks h c) = CHR ''F''"
  shows "\<exists>h'. huge_fill below tid (VMM_VADDR_MALLOC + n * HC_SLOT_SIZE) h = Some (Inr h')"
  using assms
proof (induction n arbitrary: h)
  have i2: "bucketIndex below (SIZEOF_BIG_CHUNK + CHUNK_HEADER_PLUS_RESERVED) = 2"
    unfolding bucketIndex_linear
    by (simp add: cv_chunk_size_def HM_BUCKETS_def upt_rec SIZEOF_BIG_CHUNK_def CHUNK_HEADER_PLUS_RESERVED_def
        MIN_BUCKET_SIZE_def FIB_START_INCR_def numeral_eq_Suc)
  have step: "\<exists>h'. hm_allocate below tid SIZEOF_BIG_CHUNK h = Some (Inr (c + 8, h')) \<and> first_chunk h' 2 = cs
      \<and> (\<forall>d. d \<noteq> c \<longrightarrow> chunks h' d = chunks h d)"
    if "first_chunk h 2 = c # cs" "c \<noteq> NULL" "cfree (chunks h c) = CHR ''F''" for h c cs
  proof -
    have "hm_pop_bucket below 2 h = (c, h\<lparr>first_chunk := (first_chunk h)(2 := cs)\<rparr>)"
      using that(1) by (simp add: hm_pop_bucket.simps [of below 2 h] HM_BUCKETS_def)
    then show ?thesis using that(2,3) i2 by (subst hm_allocate.simps) (simp add: Let_def)
  qed
  {
    case 0
    then obtain c cs where c: "first_chunk h 2 = c # cs" by (cases "first_chunk h 2") auto
    from step [OF c] 0 c obtain h1 where a: "hm_allocate below tid SIZEOF_BIG_CHUNK h = Some (Inr (c + 8, h1))" by auto
    have "\<not> VMM_VADDR_MALLOC \<le> VMM_VADDR_MALLOC - HC_SLOT_SIZE" using HC_SLOT_below HC_SLOT_SIZE_pos by linarith
    with a show ?case
      by (simp add: huge_fill.simps [of below tid VMM_VADDR_MALLOC] huge_fill.simps [of below tid "VMM_VADDR_MALLOC - HC_SLOT_SIZE"])
  next
    case (Suc n)
    let ?a = "VMM_VADDR_MALLOC + Suc n * HC_SLOT_SIZE"
    from Suc.prems obtain c cs where c: "first_chunk h 2 = c # cs" by (cases "first_chunk h 2") auto
    from step [OF c] Suc.prems c obtain h1 where a: "hm_allocate below tid SIZEOF_BIG_CHUNK h = Some (Inr (c + 8, h1))"
      "first_chunk h1 2 = cs" "\<And>d. d \<noteq> c \<Longrightarrow> chunks h1 d = chunks h d" by auto
    let ?h = "h1\<lparr>huge_chunk_stack := \<lparr>bc_self = c + 8, bc_addr = ?a, bc_page_count = 0\<rparr> # huge_chunk_stack h1\<rparr>"
    have "chunks h1 d = chunks h d" if "d \<in> set cs" for d using that Suc.prems(2) c by (intro a(3)) auto
    with Suc.IH [of ?h] Suc.prems a(2) c obtain h' where
      "huge_fill below tid (VMM_VADDR_MALLOC + n * HC_SLOT_SIZE) ?h = Some (Inr h')" by auto
    moreover have "?a - HC_SLOT_SIZE = VMM_VADDR_MALLOC + n * HC_SLOT_SIZE" by simp
    ultimately show ?case using a(1) by (subst huge_fill.simps) simp
  }
qed

definition no_pages :: pagemgr where
  "no_pages = \<lparr>iv_pagesAvail = 0, iv_pagesTotal = 0, heap = pmcore_init True, heapKernel = pmcore_init False,
     cv_coalesce_count = 0, cv_low_page_count = 0, forced = 0\<rparr>"

definition huge_example :: heapmgr where
  "huge_example = (hm_init (\<lambda>_. blank_chunk\<lparr>cfree := CHR ''F'', cbucket := 2\<rparr>) (\<lambda>_. 0) no_pages)
     \<lparr>first_chunk := (\<lambda>_. [])(2 := map (\<lambda>i. 4096 + i * 48) [0..<21])\<rparr>"

theorem huge_slot_outside_witness:
  "\<exists>h1 h3. huge_init (\<lambda>_ _. 0) 0 5 huge_example = Some (Inr (True, h1))
    \<and> hm_allocateHuge (\<lambda>_ _. 0) 0 5 100000 (h1\<lparr>huge_chunk_stack := map (\<lambda>d. if bc_addr d < VMM_VADDR_MALLOC + HC_TOTAL_SIZE
          then d\<lparr>bc_page_count := 1\<rparr> else d) (huge_chunk_stack h1)\<rparr>)
        = Some (Inr (VMM_VADDR_MALLOC + HC_TOTAL_SIZE, h3))"
proof -
  let ?h = "huge_example\<lparr>cv_hugeblock_allocated := 1\<rparr>"
  have e: "huge_chunk_stack huge_example = []" "cv_hugeblock_allocated huge_example = 0"
    by (simp_all add: huge_example_def hm_init_def)
  have "\<exists>h'. huge_fill 0 5 (VMM_VADDR_MALLOC + HC_NUM_SLOTS * HC_SLOT_SIZE) ?h = Some (Inr h')"
    by (rule huge_fill_returns) (auto simp: huge_example_def hm_init_def HC_NUM_SLOTS_def distinct_map inj_on_def)
  then obtain h1 where h1: "huge_init (\<lambda>_ _. 0) 0 5 huge_example = Some (Inr (True, h1))"
    using e(2) by (auto simp: huge_init_def HC_TOTAL_SIZE_def mult.commute)
  have "(100000::nat) \<le> HC_SLOT_SIZE" by (simp add: HC_SLOT_SIZE_def MEGABYTE_def)
  with huge_slot_outside [OF e h1 refl, of 100000] h1 show ?thesis by auto
qed

text \<open>A failed reservation is final: when the first huge allocation finds no virtual memory it
  returns null, which falls back to pages, and every later one waits for ever.\<close>

theorem huge_init_failure_blocks:
  assumes "cv_hugeblock_allocated h = 0" and "mm VMM_VADDR_MALLOC HC_TOTAL_SIZE \<noteq> 0" and "ALIGN_PAGE n div PAGESIZE * PAGESIZE \<le> HC_SLOT_SIZE"
  shows "\<exists>h1. hm_allocateHuge mm below tid n h = Some (Inr (NULL, h1)) \<and> hm_allocateHuge mm below tid' n h1 = None"
  using assms by (auto simp: hm_allocateHuge_def huge_init_def Let_def obind_def)

theorem huge_init_failure_blocks_witness:
  "\<exists>h1. hm_allocateHuge (\<lambda>_ _. - 12) 0 5 100000 (hm_init (\<lambda>_. blank_chunk) (\<lambda>_. 0) no_pages) = Some (Inr (NULL, h1))
    \<and> hm_allocateHuge (\<lambda>_ _. - 12) 0 6 100000 h1 = None"
  using huge_init_failure_blocks [of "hm_init (\<lambda>_. blank_chunk) (\<lambda>_. 0) no_pages" "\<lambda>_ _. - 12" 100000 0 5 6]
  by (auto simp: hm_init_def ALIGN_PAGE_def ALIGN_X_def PAGESIZE_def HC_SLOT_SIZE_def MEGABYTE_def)

end
