(* ===== verification/Page_Table.thy ===== *)
theory Page_Table
  imports HB_Prelude
begin

text \<open>
  The hashed page table, \<open>kernel/ptmgr.C\<close>: 2048 groups of eight entries at a fixed address, found
  by the hardware through a hash of the virtual address. The kernel adds, steals and removes
  entries and must invalidate the translations the processors have cached. The entries are
  records with the bit fields of the source at their widths; the cached translations (\<open>tlb\<close>) and
  the calls of \<open>SegmentManager::updateRefCount\<close> (\<open>usage\<close>) are part of the state. The operations run
  under the lock of the virtual memory manager. The mode in which a unit test keeps the table in
  user space is left out.
\<close>

section \<open>Bit fields and hash\<close>

text \<open>The subtraction of the first check is unsigned, so it fails for a start behind the last bit too.\<close>

definition EXTRACT_RJ :: "u64 \<Rightarrow> nat \<Rightarrow> nat \<Rightarrow> u64" where
  "EXTRACT_RJ i_var64 i_startbit i_lastbit =
     (let m = drop_bit i_startbit (-1) AND push_bit (63 - i_lastbit) (-1)
      in drop_bit (63 - i_lastbit) (i_var64 AND m))"

definition EXTRACT_RJ_LEN :: "u64 \<Rightarrow> nat \<Rightarrow> nat \<Rightarrow> nat \<Rightarrow> kerror + u64" where
  "EXTRACT_RJ_LEN i_lastword i_bitlen i_startbit i_lastbit =
     (if i_lastbit < i_startbit \<or> i_lastbit - i_startbit > 64 then Inl KAssert
      else if i_lastbit \<ge> i_bitlen then Inl KAssert
      else if i_bitlen \<le> 64 then
        let diff = 64 - i_bitlen in Inr (EXTRACT_RJ i_lastword (i_startbit + diff) (i_lastbit + diff))
      else if i_lastbit < i_bitlen - 64 then Inr 0
      else
        let diff = i_bitlen - 64;
            w = (if i_startbit < diff then drop_bit (diff - i_startbit) i_lastword
                 else push_bit (i_startbit - diff) i_lastword)
        in Inr (EXTRACT_RJ w 0 (i_lastbit - i_startbit)))"

definition SLBE_b :: nat where
  "SLBE_b = 12"

definition computeHash :: "u64 \<Rightarrow> kerror + u64" where
  "computeHash i_vAddr =
     sbind (EXTRACT_RJ_LEN i_vAddr 78 24 37) (\<lambda>va__24_37.
     sbind (EXTRACT_RJ_LEN i_vAddr 78 0 37) (\<lambda>va__0_37.
     sbind (EXTRACT_RJ_LEN i_vAddr 78 38 (77 - SLBE_b)) (\<lambda>va__38_77b.
       Inr (push_bit 25 va__24_37 XOR va__0_37 XOR va__38_77b))))"

section \<open>Entries\<close>

text \<open>Dword 0 has the fields up to \<open>vbit\<close>, dword 1 the others.\<close>

record pte =
  rsv0 :: "12 word"
  AVA :: "45 word"
  SW :: bool
  R2 :: bool
  LRU :: "2 word"
  lbit :: bool
  hbit :: bool
  vbit :: bool
  pp0 :: bool
  TS :: bool
  key0_1 :: "2 word"
  bsize :: "2 word"
  rsv1 :: bool
  PN :: "45 word"
  key2_4 :: "3 word"
  rbit :: bool
  cbit :: bool
  WIMG :: "4 word"
  nbit :: bool
  pp1_2 :: "2 word"

record usage_stats =
  us_C :: bool
  us_R :: bool
  us_LRU :: "2 word"

text \<open>What the hardware caches of an entry: the page number and the protection and storage bits.\<close>

type_synonym xlate = "45 word \<times> bool \<times> 4 word \<times> bool \<times> 2 word"

definition xlate_of :: "pte \<Rightarrow> xlate" where
  "xlate_of p = (PN p, pp0 p, WIMG p, nbit p, pp1_2 p)"

record ptmgr =
  htaborg :: addr
  ivIdleTaskPN :: u64
  ptab :: "addr \<Rightarrow> pte"
  tlb :: "(u64 \<times> xlate) list"
  usage :: "(u64 \<times> usage_stats) list"

definition PTE_AVA_MASK :: "45 word" where
  "PTE_AVA_MASK = 0x1FFFFFFFFFFF"

definition PTE_SIZE :: nat where
  "PTE_SIZE = 16"

definition PTEG_SIZE_BYTES :: nat where
  "PTEG_SIZE_BYTES = PTE_SIZE * 8"

definition PT_SIZE :: nat where
  "PT_SIZE = 2 ^ 18"

definition PTEG_COUNT :: nat where
  "PTEG_COUNT = PT_SIZE div PTE_SIZE div 8"

definition READ_ONLY :: u64 where
  "READ_ONLY = 1"

definition WRITABLE :: u64 where
  "WRITABLE = 2"

definition EXECUTABLE :: u64 where
  "EXECUTABLE = 4"

definition NO_ACCESS :: u64 where
  "NO_ACCESS = 0x40"

definition BYPASS_HRMOR :: u64 where
  "BYPASS_HRMOR = 0x80"

definition GUARDED :: u64 where
  "GUARDED = 0x100"

definition CI_ACCESS :: u64 where
  "CI_ACCESS = 0xFFFFFFFF"

definition upd_pte :: "addr \<Rightarrow> (pte \<Rightarrow> pte) \<Rightarrow> ptmgr \<Rightarrow> ptmgr" where
  "upd_pte a f s = s\<lparr>ptab := (ptab s)(a := f (ptab s a))\<rparr>"

section \<open>Access types and status\<close>

definition setAccessBits :: "u64 \<Rightarrow> pte \<Rightarrow> pte" where
  "setAccessBits i_accessType p =
     (let p = p\<lparr>pp0 := False, WIMG := 0, pp1_2 := 0\<rparr>
      in if i_accessType = CI_ACCESS then p\<lparr>WIMG := 0b0101, nbit := True, pp1_2 := 0b10\<rparr>
         else
           let p = p\<lparr>WIMG := 0b0010\<rparr>;
               p = (if i_accessType AND GUARDED \<noteq> 0 then p\<lparr>WIMG := WIMG p OR 0b0001\<rparr> else p)
           in if i_accessType AND READ_ONLY \<noteq> 0 then p\<lparr>nbit := True, pp1_2 := 0b01\<rparr>
              else if i_accessType AND WRITABLE \<noteq> 0 then p\<lparr>nbit := True, pp1_2 := 0b10\<rparr>
              else if i_accessType AND EXECUTABLE \<noteq> 0 then p\<lparr>nbit := False, pp1_2 := 0b01\<rparr>
              else p)"

definition getAccessType :: "pte \<Rightarrow> kerror + u64" where
  "getAccessType p =
     (if \<not> pp0 p \<and> WIMG p = 0b0101 \<and> pp1_2 p = 0b10 then Inr CI_ACCESS
      else if \<not> pp0 p \<and> WIMG p AND 0b1110 = 0b0010 \<and> pp1_2 p = 0b00 then Inr NO_ACCESS
      else if \<not> pp0 p \<and> WIMG p AND 0b1110 = 0b0010 \<and> pp1_2 p = 0b01 \<and> nbit p then Inr READ_ONLY
      else if \<not> pp0 p \<and> WIMG p AND 0b1110 = 0b0010 \<and> pp1_2 p = 0b10 \<and> nbit p then Inr WRITABLE
      else if \<not> pp0 p \<and> WIMG p AND 0b1110 = 0b0010 \<and> pp1_2 p = 0b01 \<and> \<not> nbit p then Inr EXECUTABLE
      else Inl KAssert)"

datatype pte_status = PTE_PRESENT | PTE_VALID | PTE_READ | PTE_WRITABLE | PTE_EXECUTE | PTE_CACHE_INHIBITED | PTE_ACCESSED

fun status_bit :: "pte_status \<Rightarrow> u64" where
  "status_bit PTE_PRESENT = 0x01"
| "status_bit PTE_VALID = 0x02"
| "status_bit PTE_READ = 0x04"
| "status_bit PTE_WRITABLE = 0x08"
| "status_bit PTE_EXECUTE = 0x10"
| "status_bit PTE_CACHE_INHIBITED = 0x20"
| "status_bit PTE_ACCESSED = 0x80"

definition getStatus :: "pte option \<Rightarrow> kerror + u64" where
  "getStatus i_pte = (case i_pte of
     None \<Rightarrow> Inr 0
   | Some p \<Rightarrow>
       sbind (getAccessType p) (\<lambda>access.
         Inr (status_bit PTE_PRESENT
           OR (if vbit p then status_bit PTE_VALID else 0)
           OR (if access = CI_ACCESS then status_bit PTE_CACHE_INHIBITED
               else if access = READ_ONLY then status_bit PTE_READ
               else if access = WRITABLE then status_bit PTE_WRITABLE OR status_bit PTE_READ
               else if access = EXECUTABLE then status_bit PTE_EXECUTE OR status_bit PTE_READ
               else 0)
           OR (if rbit p then status_bit PTE_ACCESSED else 0))))"

section \<open>Search\<close>

definition findPTEG :: "ptmgr \<Rightarrow> u64 \<Rightarrow> kerror + addr" where
  "findPTEG s i_vAddr =
     sbind (computeHash i_vAddr) (\<lambda>hash.
       Inr (htaborg s + unat (hash mod of_nat PTEG_COUNT) * PTEG_SIZE_BYTES))"

text \<open>The loops over the eight entries of a group that stop at the first match.\<close>

fun scan :: "(pte \<Rightarrow> bool) \<Rightarrow> (addr \<Rightarrow> pte) \<Rightarrow> addr \<Rightarrow> nat \<Rightarrow> addr option" where
  "scan P m a 0 = None"
| "scan P m a (Suc n) = (if P (m a) then Some a else scan P m (a + PTE_SIZE) n)"

definition findPTE_in :: "ptmgr \<Rightarrow> u64 \<Rightarrow> addr \<Rightarrow> addr option" where
  "findPTE_in s i_vAddr i_ptegAddr = scan (\<lambda>p. ucast (AVA p) = drop_bit 23 i_vAddr) (ptab s) i_ptegAddr 8"

definition findPTE :: "ptmgr \<Rightarrow> u64 \<Rightarrow> kerror + addr option" where
  "findPTE s i_vAddr = sbind (findPTEG s i_vAddr) (\<lambda>pteg_addr. Inr (findPTE_in s i_vAddr pteg_addr))"

definition findEmptyPTE :: "ptmgr \<Rightarrow> addr \<Rightarrow> addr option" where
  "findEmptyPTE s i_ptegAddr = scan (\<lambda>p. \<not> vbit p) (ptab s) i_ptegAddr 8"

definition idle_page :: "ptmgr \<Rightarrow> addr \<Rightarrow> bool" where
  "idle_page s a \<longleftrightarrow> ucast (PN (ptab s a)) = ivIdleTaskPN s \<or> ucast (PN (ptab s a)) = ivIdleTaskPN s + 1"

fun old_loop :: "ptmgr \<Rightarrow> addr \<Rightarrow> addr \<Rightarrow> nat \<Rightarrow> addr" where
  "old_loop s old a 0 = old"
| "old_loop s old a (Suc n) =
     old_loop s (if idle_page s old then a
                 else if LRU (ptab s a) > LRU (ptab s old) \<and> \<not> idle_page s a then a
                 else old) (a + PTE_SIZE) n"

definition findOldPTE :: "ptmgr \<Rightarrow> addr \<Rightarrow> addr" where
  "findOldPTE s i_ptegAddr = old_loop s i_ptegAddr i_ptegAddr 8"

definition getVirtAddrFromPTE :: "ptmgr \<Rightarrow> addr \<Rightarrow> kerror + u64" where
  "getVirtAddrFromPTE s pte_addr =
     (let pteg_num = of_nat ((pte_addr - htaborg s) div PTEG_SIZE_BYTES); ava = ucast (AVA (ptab s pte_addr))
      in sbind (EXTRACT_RJ_LEN ava 55 27 37) (\<lambda>Yp.
           let Zp = Yp XOR pteg_num in Inr (push_bit 12 Zp OR push_bit 23 ava)))"

definition ptmgr_getStatus :: "ptmgr \<Rightarrow> u64 \<Rightarrow> kerror + u64 \<times> u64" where
  "ptmgr_getStatus s i_vAddr =
     sbind (findPTE s i_vAddr) (\<lambda>r.
       sbind (getStatus (map_option (ptab s) r)) (\<lambda>st.
         Inr (st, case r of None \<Rightarrow> NOT 0 | Some a \<Rightarrow> ucast (PN (ptab s a)))))"

section \<open>Changes\<close>

text \<open>The \<open>tlbie\<close> instruction drops the cached translation of the page that \<open>rB\<close> names.\<close>

definition tlbie :: "u64 \<Rightarrow> ptmgr \<Rightarrow> ptmgr" where
  "tlbie rB s = s\<lparr>tlb := filter (\<lambda>(v, x). v \<noteq> drop_bit 12 rB) (tlb s)\<rparr>"

definition invalidateTLB :: "addr \<Rightarrow> ptmgr \<Rightarrow> kerror + ptmgr" where
  "invalidateTLB i_pte s =
     sbind (getVirtAddrFromPTE s i_pte) (\<lambda>va.
     sbind (EXTRACT_RJ_LEN va 78 14 65) (\<lambda>tlbie_ava.
       Inr (tlbie (push_bit 12 (tlbie_ava AND 0x000FFFFFFFFFFFFF) OR 0x0100) s)))"

definition copy_dword0 :: "pte \<Rightarrow> pte \<Rightarrow> pte" where
  "copy_dword0 p q = q\<lparr>rsv0 := rsv0 p, AVA := AVA p, SW := SW p, R2 := R2 p, LRU := LRU p, lbit := lbit p,
     hbit := hbit p, vbit := vbit p\<rparr>"

definition updateLRUEntry :: "addr \<Rightarrow> ptmgr \<Rightarrow> kerror + ptmgr" where
  "updateLRUEntry a s =
     (let p = ptab s a
      in if vbit p \<and> rbit p then
           sbind (invalidateTLB a (upd_pte a (\<lambda>q. q\<lparr>rbit := False\<rparr>) s)) (\<lambda>s1.
             Inr (upd_pte a (copy_dword0 (p\<lparr>R2 := True, LRU := 0\<rparr>)) s1))
         else Inr (upd_pte a (copy_dword0 (if LRU p < 0b11 then p\<lparr>LRU := LRU p + 1\<rparr> else p)) s))"

fun lru_loop :: "addr \<Rightarrow> addr \<Rightarrow> nat \<Rightarrow> ptmgr \<Rightarrow> kerror + ptmgr" where
  "lru_loop new a 0 s = Inr s"
| "lru_loop new a (Suc n) s =
     sbind (if a \<noteq> new then updateLRUEntry a s else Inr s) (lru_loop new (a + PTE_SIZE) n)"

definition updateLRUGroup :: "addr \<Rightarrow> ptmgr \<Rightarrow> kerror + ptmgr" where
  "updateLRUGroup i_newPTE s = lru_loop i_newPTE (i_newPTE div PTEG_SIZE_BYTES * PTEG_SIZE_BYTES) 8 s"

definition writePTE :: "pte \<Rightarrow> addr \<Rightarrow> bool \<Rightarrow> ptmgr \<Rightarrow> kerror + ptmgr" where
  "writePTE i_pte i_dest i_valid s =
     (if vbit (ptab s i_dest) \<and> i_valid \<and> AVA i_pte \<noteq> AVA (ptab s i_dest) then Inl KAssert
      else
        sbind (if \<not> i_valid \<or> vbit (ptab s i_dest)
               then invalidateTLB i_dest (upd_pte i_dest (\<lambda>q. q\<lparr>vbit := False\<rparr>) s)
               else Inr s) (\<lambda>s1.
          if i_valid then updateLRUGroup i_dest (upd_pte i_dest (\<lambda>_. i_pte\<lparr>LRU := 0, vbit := True\<rparr>) s1)
          else Inr s1))"

definition pushUsageStats :: "addr \<Rightarrow> ptmgr \<Rightarrow> kerror + ptmgr" where
  "pushUsageStats a s =
     (let p = ptab s a
      in sbind (if rbit p then invalidateTLB a (upd_pte a (\<lambda>q. q\<lparr>rbit := False\<rparr>) s) else Inr s) (\<lambda>s1.
           let s2 = (if R2 p then upd_pte a (\<lambda>q. q\<lparr>R2 := False\<rparr>) s1 else s1)
           in sbind (getVirtAddrFromPTE s2 a) (\<lambda>va.
                Inr (s2\<lparr>usage := usage s2 @ [(va, \<lparr>us_C = False, us_R = (rbit p \<or> R2 p), us_LRU = LRU p\<rparr>)]\<rparr>))))"

definition delEntry_pte :: "addr \<Rightarrow> ptmgr \<Rightarrow> kerror + ptmgr" where
  "delEntry_pte i_pte s =
     (if vbit (ptab s i_pte) then sbind (writePTE (ptab s i_pte) i_pte False s) (pushUsageStats i_pte)
      else Inr s)"

definition ptmgr_delEntry :: "u64 \<Rightarrow> ptmgr \<Rightarrow> kerror + ptmgr" where
  "ptmgr_delEntry i_vAddr s =
     sbind (findPTE s i_vAddr) (\<lambda>r. case r of None \<Rightarrow> Inr s | Some a \<Rightarrow> delEntry_pte a s)"

text \<open>The bound may lie so high that the loop variable wraps, and then the loop need not end.\<close>

partial_function (option) ptmgr_delRangeVA :: "u64 \<Rightarrow> u64 \<Rightarrow> ptmgr \<Rightarrow> (kerror + ptmgr) option" where
  "ptmgr_delRangeVA va i_vAddrFinish s =
     (if va < i_vAddrFinish then
        (case ptmgr_delEntry va s of
           Inl e \<Rightarrow> Some (Inl e)
         | Inr s1 \<Rightarrow> ptmgr_delRangeVA (va + of_nat PAGESIZE) i_vAddrFinish s1)
      else Some (Inr s))"

fun pn_loop :: "u64 \<Rightarrow> u64 \<Rightarrow> addr \<Rightarrow> nat \<Rightarrow> ptmgr \<Rightarrow> kerror + ptmgr" where
  "pn_loop i_pnStart i_pnFinish a 0 s = Inr s"
| "pn_loop i_pnStart i_pnFinish a (Suc n) s =
     sbind (if vbit (ptab s a) \<and> ucast (PN (ptab s a)) \<ge> i_pnStart \<and> ucast (PN (ptab s a)) \<le> i_pnFinish
            then delEntry_pte a s else Inr s)
       (pn_loop i_pnStart i_pnFinish (a + PTE_SIZE) n)"

definition ptmgr_delRangePN :: "u64 \<Rightarrow> u64 \<Rightarrow> ptmgr \<Rightarrow> kerror + ptmgr" where
  "ptmgr_delRangePN i_pnStart i_pnFinish s =
     pn_loop i_pnStart i_pnFinish (htaborg s) (PT_SIZE div PTE_SIZE) s"

fun flush_loop :: "addr \<Rightarrow> nat \<Rightarrow> ptmgr \<Rightarrow> kerror + ptmgr" where
  "flush_loop a 0 s = Inr s"
| "flush_loop a (Suc n) s =
     sbind (if vbit (ptab s a) then pushUsageStats a s else Inr s) (flush_loop (a + PTE_SIZE) n)"

definition ptmgr_flush :: "ptmgr \<Rightarrow> kerror + ptmgr" where
  "ptmgr_flush s = flush_loop (htaborg s) (PT_SIZE div PTE_SIZE) s"

definition setupDefaultPTE :: "pte \<Rightarrow> pte" where
  "setupDefaultPTE p = p\<lparr>bsize := 0b01, lbit := False, hbit := False, cbit := True\<rparr>"

text \<open>
  \<open>_addEntry\<close>. The local variable \<open>pte_data\<close> is not initialised: its contents \<open>junk\<close> are an argument. The
  last check for a missing slot cannot fail, since \<open>findOldPTE\<close> always answers one.
\<close>

definition ptmgr_addEntry :: "pte \<Rightarrow> u64 \<Rightarrow> u64 \<Rightarrow> u64 \<Rightarrow> ptmgr \<Rightarrow> kerror + ptmgr" where
  "ptmgr_addEntry junk i_vAddr i_page i_accessType s =
     (let l_vaddr = i_vAddr - i_vAddr mod of_nat PAGESIZE;
          pte_data = setupDefaultPTE junk;
          fresh = pte_data\<lparr>rbit := False, LRU := 0\<rparr>
      in sbind (findPTEG s l_vaddr) (\<lambda>pteg_addr.
         sbind (case findPTE_in s l_vaddr pteg_addr of
                  Some a \<Rightarrow>
                    if vbit (ptab s a)
                    then if i_page \<noteq> ucast (PN (ptab s a)) then Inl KAssert else Inr (a, pte_data, s)
                    else Inr (a, fresh, s)
                | None \<Rightarrow>
                    (case findEmptyPTE s pteg_addr of
                       Some a \<Rightarrow> Inr (a, fresh, s)
                     | None \<Rightarrow>
                         let a = findOldPTE s pteg_addr
                         in sbind (delEntry_pte a s) (\<lambda>s1. Inr (a, fresh, s1))))
           (\<lambda>(pte_slot, data, s1).
              writePTE ((setAccessBits i_accessType data)\<lparr>AVA := ucast (drop_bit 23 i_vAddr), PN := ucast i_page\<rparr>)
                pte_slot True s1)))"

text \<open>The static \<open>addEntry\<close> and \<open>delRangePN\<close> add the offset of the hypervisor to the page number.\<close>

definition addEntry :: "u64 \<Rightarrow> pte \<Rightarrow> u64 \<Rightarrow> u64 \<Rightarrow> u64 \<Rightarrow> ptmgr \<Rightarrow> kerror + ptmgr" where
  "addEntry hrmor junk i_vAddr i_page i_accessType s =
     (let i_page = (if i_accessType \<noteq> CI_ACCESS \<and> BYPASS_HRMOR AND i_accessType = 0
                    then i_page OR hrmor div of_nat PAGESIZE else i_page)
      in ptmgr_addEntry junk i_vAddr i_page i_accessType s)"

definition delRangePN :: "u64 \<Rightarrow> u64 \<Rightarrow> u64 \<Rightarrow> bool \<Rightarrow> ptmgr \<Rightarrow> kerror + ptmgr" where
  "delRangePN hrmor i_pnStart i_pnFinish i_applyHRMOR s =
     (if i_applyHRMOR
      then ptmgr_delRangePN (i_pnStart OR hrmor div of_nat PAGESIZE) (i_pnFinish OR hrmor div of_nat PAGESIZE) s
      else ptmgr_delRangePN i_pnStart i_pnFinish s)"

definition invalidatePT :: "ptmgr \<Rightarrow> ptmgr" where
  "invalidatePT s =
     s\<lparr>ptab := fold (\<lambda>i m. m(htaborg s + i * PTE_SIZE := (m (htaborg s + i * PTE_SIZE))\<lparr>AVA := PTE_AVA_MASK, vbit := False\<rparr>))
        [0..<PT_SIZE div PTE_SIZE] (ptab s)\<rparr>"

section \<open>The hash and its inverse\<close>

lemma bit_EXTRACT_RJ:
  assumes "l < 64"
  shows "bit (EXTRACT_RJ w s l) n \<longleftrightarrow> n + s \<le> l \<and> bit w (n + (63 - l))"
proof -
  have "n + (63 - l) = 63 + n - l" "n + (63 - l) = n + 63 - l" using assms by simp_all
  then show ?thesis using assms by (auto simp: EXTRACT_RJ_def Let_def bit_simps)
qed

text \<open>The group of an address, and the address of the page.\<close>

definition group_of :: "u64 \<Rightarrow> nat" where
  "group_of va = unat (take_bit 11 (drop_bit 12 va XOR drop_bit 40 va))"

definition page_addr :: "u64 \<Rightarrow> u64" where
  "page_addr va = push_bit 12 (drop_bit 12 va)"

lemma group_of_less: "group_of va < 2048"
proof -
  have "take_bit 11 (w :: u64) < 2 ^ 11" for w by (simp add: take_bit_eq_mod word_mod_less_divisor)
  then have "unat (take_bit 11 (w :: u64)) < unat (2 ^ 11 :: u64)" for w by (simp only: word_less_nat_alt)
  then have "unat (take_bit 11 (w :: u64)) < 2048" for w by simp
  then show ?thesis unfolding group_of_def .
qed

lemma computeHash_ok:
  "\<exists>h. computeHash va = Inr h \<and> take_bit 11 h = take_bit 11 (drop_bit 12 va XOR drop_bit 40 va)"
  by (simp add: computeHash_def EXTRACT_RJ_LEN_def SLBE_b_def)
    (auto simp: bit_simps bit_EXTRACT_RJ add.commute intro!: bit_word_eqI)

lemma findPTEG_eq: "findPTEG s va = Inr (htaborg s + group_of va * 128)"
proof -
  obtain h where h: "computeHash va = Inr h" "take_bit 11 h = take_bit 11 (drop_bit 12 va XOR drop_bit 40 va)"
    using computeHash_ok by blast
  have "h mod of_nat PTEG_COUNT = take_bit 11 h"
    by (simp add: PTEG_COUNT_def PT_SIZE_def PTE_SIZE_def take_bit_eq_mod)
  then show ?thesis using h by (simp add: findPTEG_def group_of_def PTEG_SIZE_BYTES_def PTE_SIZE_def)
qed

text \<open>The virtual address that belongs to an entry with these address bits in this group.\<close>

definition entry_va :: "45 word \<Rightarrow> nat \<Rightarrow> u64" where
  "entry_va ava g = push_bit 12 (take_bit 11 (drop_bit 17 (ucast ava)) XOR of_nat g) OR push_bit 23 (ucast ava)"

lemma getVirtAddr_eq:
  "getVirtAddrFromPTE s a = Inr (entry_va (AVA (ptab s a)) ((a - htaborg s) div 128))"
proof -
  have "EXTRACT_RJ (ucast (w :: 45 word)) 36 46 = take_bit 11 (drop_bit 17 (ucast w))" for w
    by (auto simp: bit_simps bit_EXTRACT_RJ add.commute intro!: bit_word_eqI)
  then show ?thesis
    by (simp add: getVirtAddrFromPTE_def EXTRACT_RJ_LEN_def entry_va_def PTEG_SIZE_BYTES_def PTE_SIZE_def Let_def)
qed

lemma of_nat_group_of: "(of_nat (group_of va) :: u64) = take_bit 11 (drop_bit 12 va XOR drop_bit 40 va)"
  by (simp add: group_of_def)

text \<open>Round trip: the address bits and the group determine the page.\<close>

lemma entry_va_page: "entry_va (ucast (drop_bit 23 va)) (group_of va) = page_addr va"
proof (rule bit_word_eqI)
  fix n assume "n < LENGTH(64)"
  then have n: "n < 64" by simp
  have "bit (entry_va (ucast (drop_bit 23 va)) (group_of va)) n \<longleftrightarrow>
    (12 \<le> n \<and> n < 23 \<and> bit va n) \<or> (23 \<le> n \<and> bit va n)"
    unfolding entry_va_def of_nat_group_of using n by (auto simp: bit_simps)
  also have "\<dots> \<longleftrightarrow> bit (page_addr va) n" using n by (auto simp: page_addr_def bit_simps)
  finally show "bit (entry_va (ucast (drop_bit 23 va)) (group_of va)) n \<longleftrightarrow> bit (page_addr va) n" .
qed

definition small :: "45 word \<Rightarrow> bool" where
  "small ava \<longleftrightarrow> drop_bit 41 ava = 0"

lemma small_bits: "small ava \<Longrightarrow> bit ava n \<Longrightarrow> n < 41"
proof (rule ccontr)
  assume s: "small ava" "bit ava n" "\<not> n < 41"
  then have "bit (drop_bit 41 ava) (n - 41)" by (simp add: bit_simps)
  with s(1) show False by (simp add: small_def)
qed

lemma small_va: "small (ucast (drop_bit 23 (va :: u64)))"
  unfolding small_def by (rule bit_word_eqI) (auto simp: bit_simps dest: bit_imp_le_length)

lemma not_small_mask [simp]: "\<not> small PTE_AVA_MASK"
  by (simp add: small_def PTE_AVA_MASK_def)

lemma ucast_va: "ucast (ucast (drop_bit 23 (va :: u64)) :: 45 word) = drop_bit 23 va"
  by (rule bit_word_eqI) (auto simp: bit_simps dest: bit_imp_le_length)

lemma entry_va_decode:
  assumes sm: "small ava" and g: "g < 2048"
  shows "drop_bit 23 (entry_va ava g) = ucast ava" "group_of (entry_va ava g) = g"
proof -
  have gb: "\<not> bit g n" if "11 \<le> n" for n
  proof -
    have "g < 2 ^ n" using g power_increasing [OF that, of "2 :: nat"] by simp
    then show ?thesis by (simp add: bit_nat_def)
  qed
  show "drop_bit 23 (entry_va ava g) = ucast ava"
    by (rule bit_word_eqI) (use gb small_bits [OF sm] in \<open>auto simp: entry_va_def bit_simps\<close>)
  have "take_bit 11 (drop_bit 12 (entry_va ava g) XOR drop_bit 40 (entry_va ava g)) = (of_nat g :: u64)"
    by (rule bit_word_eqI) (use gb in \<open>auto simp: entry_va_def bit_simps add.commute\<close>)
  moreover have "unat (of_nat g :: u64) = g" using g by (simp add: unat_of_nat take_bit_nat_eq_self)
  ultimately show "group_of (entry_va ava g) = g" unfolding group_of_def by metis
qed

lemma page_addr_parts [simp]:
  "drop_bit 23 (page_addr va) = drop_bit 23 va" "drop_bit 12 (page_addr va) = drop_bit 12 va"
  "group_of (page_addr va) = group_of va"
proof -
  have hi: "bit va (k + n) \<Longrightarrow> n < 64 - k" for k n using bit_imp_le_length [of va "k + n"] by simp
  show "drop_bit 23 (page_addr va) = drop_bit 23 va" "drop_bit 12 (page_addr va) = drop_bit 12 va"
    using hi [of 23] hi [of 12] by (auto simp: page_addr_def bit_simps intro!: bit_word_eqI)
  then show "group_of (page_addr va) = group_of va"
    by (simp add: group_of_def) (auto simp: page_addr_def bit_simps intro!: arg_cong [where f = unat] bit_word_eqI)
qed

text \<open>An entry belongs to the page of \<open>va\<close> exactly if its address bits and its group say so.\<close>

lemma entry_va_iff:
  assumes "small ava" "g < 2048"
  shows "entry_va ava g = page_addr va \<longleftrightarrow> ucast ava = drop_bit 23 va \<and> g = group_of va"
proof
  assume "entry_va ava g = page_addr va"
  then show "ucast ava = drop_bit 23 va \<and> g = group_of va" using entry_va_decode [OF assms] by simp
next
  assume h: "ucast ava = drop_bit 23 va \<and> g = group_of va"
  have "ava = ucast (drop_bit 23 va)"
  proof -
    have "ucast (ucast ava :: u64) = ava" by (rule bit_word_eqI) (auto simp: bit_simps)
    with h show ?thesis by metis
  qed
  then show "entry_va ava g = page_addr va" using h entry_va_page [of va] by simp
qed

lemma entry_va_inj:
  assumes "small a" "small b" "g < 2048" "k < 2048"
  shows "drop_bit 12 (entry_va a g) = drop_bit 12 (entry_va b k) \<longleftrightarrow> a = b \<and> g = k"
proof
  have pg: "entry_va c m = page_addr (entry_va c m)" for c m
    by (rule bit_word_eqI) (auto simp: entry_va_def page_addr_def bit_simps)
  assume "drop_bit 12 (entry_va a g) = drop_bit 12 (entry_va b k)"
  then have "entry_va a g = entry_va b k" using pg [of a g] pg [of b k] by (simp add: page_addr_def)
  then have "(ucast a :: u64) = ucast b" "g = k" using entry_va_decode assms by metis+
  moreover have "ucast (ucast c :: u64) = c" for c :: "45 word" by (rule bit_word_eqI) (auto simp: bit_simps)
  ultimately show "a = b \<and> g = k" by metis
qed simp

lemma align_down_page: "va - va mod of_nat PAGESIZE = page_addr va"
proof -
  have "va mod of_nat PAGESIZE = take_bit 12 va" by (simp add: PAGESIZE_def take_bit_eq_mod)
  moreover have "push_bit 12 (drop_bit 12 va) + take_bit 12 va = va" by (rule bits_ident)
  ultimately show ?thesis by (simp add: page_addr_def) (metis add_diff_cancel_right')
qed

section \<open>Invariant\<close>

definition is_slot :: "ptmgr \<Rightarrow> addr \<Rightarrow> bool" where
  "is_slot s a \<longleftrightarrow> (\<exists>i < 16384. a = htaborg s + i * 16)"

definition group_at :: "ptmgr \<Rightarrow> addr \<Rightarrow> nat" where
  "group_at s a = (a - htaborg s) div 128"

definition va_at :: "ptmgr \<Rightarrow> addr \<Rightarrow> u64" where
  "va_at s a = entry_va (AVA (ptab s a)) (group_at s a)"

definition vpn_at :: "ptmgr \<Rightarrow> addr \<Rightarrow> u64" where
  "vpn_at s a = drop_bit 12 (va_at s a)"

text \<open>
  Entries that were never written have the mask as their address bits; two entries of a group
  never have the same address bits, not even if one of them has been removed; every cached
  translation is that of a valid entry.
\<close>

definition entries_ok :: "ptmgr \<Rightarrow> bool" where
  "entries_ok s \<longleftrightarrow> PT_SIZE dvd htaborg s
     \<and> (\<forall>a. is_slot s a \<longrightarrow> small (AVA (ptab s a)) \<and> (\<exists>t. getAccessType (ptab s a) = Inr t)
           \<or> AVA (ptab s a) = PTE_AVA_MASK \<and> \<not> vbit (ptab s a))
     \<and> (\<forall>a b. is_slot s a \<and> is_slot s b \<and> a \<noteq> b \<and> group_at s a = group_at s b \<and> AVA (ptab s a) = AVA (ptab s b)
           \<longrightarrow> AVA (ptab s a) = PTE_AVA_MASK)"

definition tlb_ok :: "ptmgr \<Rightarrow> bool" where
  "tlb_ok s \<longleftrightarrow> (\<forall>(v, x)\<in>set (tlb s). \<exists>a. is_slot s a \<and> vbit (ptab s a) \<and> v = vpn_at s a \<and> x = xlate_of (ptab s a))"

definition pt_inv :: "ptmgr \<Rightarrow> bool" where
  "pt_inv s \<longleftrightarrow> entries_ok s \<and> tlb_ok s"

text \<open>\<open>translate\<close>: what the hardware finds for an address, a valid entry of its page.\<close>

definition translate :: "ptmgr \<Rightarrow> u64 \<Rightarrow> xlate option" where
  "translate s va = (case scan (\<lambda>p. vbit p \<and> ucast (AVA p) = drop_bit 23 va) (ptab s) (htaborg s + group_of va * 128) 8 of
     None \<Rightarrow> None | Some a \<Rightarrow> Some (xlate_of (ptab s a)))"

lemma group_slot:
  assumes "g < 2048" "x < 8"
  shows "is_slot s (htaborg s + g * 128 + x * 16)" "group_at s (htaborg s + g * 128 + x * 16) = g"
proof -
  have "htaborg s + g * 128 + x * 16 = htaborg s + (g * 8 + x) * 16" by simp
  moreover have "g * 8 + x < 16384" using assms by linarith
  ultimately show "is_slot s (htaborg s + g * 128 + x * 16)" unfolding is_slot_def by blast
  have "x * 16 < 128" using assms(2) by simp
  then show "group_at s (htaborg s + g * 128 + x * 16) = g" by (simp add: group_at_def div_add1_eq)
qed

lemma slot_in_group:
  assumes "is_slot s a"
  obtains x where "x < 8" "a = htaborg s + group_at s a * 128 + x * 16" "group_at s a < 2048"
proof -
  from assms obtain i where i: "i < 16384" "a = htaborg s + i * 16" by (auto simp: is_slot_def)
  then have g: "group_at s a = i div 8" by (simp add: group_at_def)
  have "a = htaborg s + group_at s a * 128 + (i mod 8) * 16"
    unfolding g using i(2) div_mult_mod_eq [of i 8] by linarith
  moreover have "i div 8 < 2048" using i(1) by linarith
  ultimately show thesis using that [of "i mod 8"] g by simp
qed

lemma scan_Some:
  "scan P m a n = Some b \<Longrightarrow> \<exists>x < n. b = a + x * 16 \<and> P (m b)"
proof (induction n arbitrary: a)
  case (Suc n)
  show ?case
  proof (cases "P (m a)")
    case True
    then show ?thesis using Suc.prems by (intro exI [of _ 0]) simp
  next
    case False
    with Suc.prems Suc.IH [of "a + PTE_SIZE"] obtain x where "x < n" "b = a + PTE_SIZE + x * 16" "P (m b)" by auto
    then show ?thesis by (intro exI [of _ "Suc x"]) (simp add: PTE_SIZE_def)
  qed
qed simp

lemma scan_None: "scan P m a n = None \<longleftrightarrow> (\<forall>x < n. \<not> P (m (a + x * 16)))"
proof (induction n arbitrary: a)
  case (Suc n)
  have "(\<forall>x < Suc n. \<not> P (m (a + x * 16))) \<longleftrightarrow> \<not> P (m a) \<and> (\<forall>x < n. \<not> P (m (a + 16 + x * 16)))"
    by (auto simp: less_Suc_eq_0_disj add.assoc)
  then show ?case using Suc by (simp add: PTE_SIZE_def)
qed simp

text \<open>The entry of a page, valid or removed, is unique, and the search finds it.\<close>

definition entry_for :: "ptmgr \<Rightarrow> u64 \<Rightarrow> addr \<Rightarrow> bool" where
  "entry_for s va a \<longleftrightarrow> is_slot s a \<and> small (AVA (ptab s a)) \<and> va_at s a = page_addr va"

lemma entry_for_iff:
  "entry_for s va a \<longleftrightarrow> is_slot s a \<and> small (AVA (ptab s a)) \<and> ucast (AVA (ptab s a)) = drop_bit 23 va
     \<and> group_at s a = group_of va"
  using entry_va_iff [of "AVA (ptab s a)" "group_at s a" va] slot_in_group [of s a]
  by (auto simp: entry_for_def va_at_def)

lemma matching_small: "ucast (ava :: 45 word) = drop_bit 23 (va :: u64) \<Longrightarrow> small ava"
proof -
  assume h: "ucast ava = drop_bit 23 va"
  have "ucast (ucast ava :: u64) = ava" by (rule bit_word_eqI) (auto simp: bit_simps)
  with h show ?thesis using small_va [of va] by metis
qed

lemma ucast45_inj: "(ucast (a :: 45 word) :: u64) = ucast b \<longleftrightarrow> a = b"
proof
  assume "(ucast a :: u64) = ucast b"
  moreover have "ucast (ucast c :: u64) = c" for c :: "45 word" by (rule bit_word_eqI) (auto simp: bit_simps)
  ultimately show "a = b" by metis
qed simp

lemma entry_for_unique:
  assumes "entries_ok s" "entry_for s va a" "entry_for s va b"
  shows "a = b"
proof (rule ccontr)
  assume "a \<noteq> b"
  moreover from assms(2,3) have "AVA (ptab s a) = AVA (ptab s b)" "group_at s a = group_at s b"
    by (simp_all add: entry_for_iff) (metis ucast45_inj)
  ultimately have "AVA (ptab s a) = PTE_AVA_MASK" using assms unfolding entries_ok_def entry_for_def by blast
  then show False using assms(2) by (simp add: entry_for_def)
qed

lemma scan_entry:
  assumes "entries_ok s" "\<And>p. P p \<Longrightarrow> ucast (AVA p) = drop_bit 23 va"
  shows "scan P (ptab s) (htaborg s + group_of va * 128) 8 = Some a \<longleftrightarrow> entry_for s va a \<and> P (ptab s a)"
proof -
  let ?b = "htaborg s + group_of va * 128"
  have ef: "entry_for s va a" if "x < 8" "a = ?b + x * 16" "P (ptab s a)" for a x
    using group_slot [OF group_of_less that(1), of s va] assms(2) [OF that(3)] matching_small [of "AVA (ptab s a)" va]
    by (simp add: that(2) entry_for_iff)
  show ?thesis
  proof
    assume "scan P (ptab s) ?b 8 = Some a"
    from scan_Some [OF this] ef show "entry_for s va a \<and> P (ptab s a)" by blast
  next
    assume a: "entry_for s va a \<and> P (ptab s a)"
    then obtain x where "x < 8" "a = ?b + x * 16" using slot_in_group [of s a] by (auto simp: entry_for_iff)
    with a have "scan P (ptab s) ?b 8 \<noteq> None" by (auto simp: scan_None)
    then obtain c where c: "scan P (ptab s) ?b 8 = Some c" by blast
    from scan_Some [OF this] ef have "entry_for s va c" by blast
    then show "scan P (ptab s) ?b 8 = Some a" using c a entry_for_unique [OF assms(1)] by blast
  qed
qed

lemma findPTE_in_iff:
  assumes "entries_ok s"
  shows "findPTE_in s va (htaborg s + group_of va * 128) = Some a \<longleftrightarrow> entry_for s va a"
  unfolding findPTE_in_def using scan_entry [OF assms, of "\<lambda>p. ucast (AVA p) = drop_bit 23 va" va a]
  by (auto simp: entry_for_iff)

lemma translate_iff:
  assumes "entries_ok s"
  shows "translate s va = Some x \<longleftrightarrow> (\<exists>a. entry_for s va a \<and> vbit (ptab s a) \<and> x = xlate_of (ptab s a))"
proof -
  let ?f = "scan (\<lambda>p. vbit p \<and> ucast (AVA p) = drop_bit 23 va) (ptab s) (htaborg s + group_of va * 128) 8"
  have f: "?f = Some a \<longleftrightarrow> entry_for s va a \<and> vbit (ptab s a)" for a
    using scan_entry [OF assms, of "\<lambda>p. vbit p \<and> ucast (AVA p) = drop_bit 23 va" va a] by (auto simp: entry_for_iff)
  have "translate s va = Some x \<longleftrightarrow> (\<exists>a. ?f = Some a \<and> x = xlate_of (ptab s a))"
    by (auto simp: translate_def split: option.splits)
  then show ?thesis unfolding f by blast
qed

section \<open>Effects\<close>

subsection \<open>Changes that no translation sees\<close>

lemma tlbie_page:
  "EXTRACT_RJ_LEN va 78 14 65 = Inr (drop_bit 12 va)"
  "drop_bit 12 (push_bit 12 (drop_bit 12 va AND 0x000FFFFFFFFFFFFF) OR 0x0100) = drop_bit 12 (va :: u64)"
proof -
  have hi: "bit va (12 + n) \<Longrightarrow> n < 52" for n using bit_imp_le_length [of va "12 + n"] by simp
  have "EXTRACT_RJ va 0 51 = drop_bit 12 va"
    using hi by (auto simp: bit_EXTRACT_RJ bit_simps add.commute less_Suc_eq_le intro!: bit_word_eqI) fastforce
  then show "EXTRACT_RJ_LEN va 78 14 65 = Inr (drop_bit 12 va)" by (simp add: EXTRACT_RJ_LEN_def)
  have m: "0x000FFFFFFFFFFFFF = (mask 52 :: u64)" by (simp add: mask_eq_exp_minus_1)
  have c: "drop_bit 12 (0x0100 :: u64) = 0" by simp
  have "drop_bit 12 (push_bit 12 (drop_bit 12 va AND mask 52)) = drop_bit 12 va"
    using hi by (auto simp: bit_simps bit_mask_iff intro!: bit_word_eqI)
  then show "drop_bit 12 (push_bit 12 (drop_bit 12 va AND 0x000FFFFFFFFFFFFF) OR 0x0100) = drop_bit 12 va"
    unfolding m drop_bit_or c by simp
qed

lemma invalidateTLB_eq:
  "invalidateTLB a s = Inr (s\<lparr>tlb := filter (\<lambda>(v, x). v \<noteq> vpn_at s a) (tlb s)\<rparr>)"
  unfolding invalidateTLB_def getVirtAddr_eq sbind.simps tlbie_page tlbie_def
  by (simp add: vpn_at_def va_at_def group_at_def)

definition core :: "pte \<Rightarrow> 45 word \<times> bool \<times> xlate" where
  "core p = (AVA p, vbit p, xlate_of p)"

definition same_core :: "ptmgr \<Rightarrow> ptmgr \<Rightarrow> bool" where
  "same_core s s' \<longleftrightarrow> htaborg s' = htaborg s \<and> ivIdleTaskPN s' = ivIdleTaskPN s
     \<and> (\<forall>a. core (ptab s' a) = core (ptab s a)) \<and> set (tlb s') \<subseteq> set (tlb s)"

lemma same_core_refl [simp]: "same_core s s"
  by (simp add: same_core_def)

lemma same_core_trans: "same_core s t \<Longrightarrow> same_core t u \<Longrightarrow> same_core s u"
  by (auto simp: same_core_def)

lemma access_core: "xlate_of p = xlate_of q \<Longrightarrow> getAccessType p = getAccessType q"
  by (simp add: xlate_of_def getAccessType_def)

lemma same_core_fields:
  assumes "same_core s s'"
  shows "AVA (ptab s' a) = AVA (ptab s a)" "vbit (ptab s' a) = vbit (ptab s a)"
    "xlate_of (ptab s' a) = xlate_of (ptab s a)" "is_slot s' a = is_slot s a" "group_at s' a = group_at s a"
    "va_at s' a = va_at s a" "vpn_at s' a = vpn_at s a" "getAccessType (ptab s' a) = getAccessType (ptab s a)"
proof -
  have c: "core (ptab s' a) = core (ptab s a)" and h: "htaborg s' = htaborg s" using assms by (auto simp: same_core_def)
  from c show *: "AVA (ptab s' a) = AVA (ptab s a)" "vbit (ptab s' a) = vbit (ptab s a)"
    "xlate_of (ptab s' a) = xlate_of (ptab s a)" by (simp_all add: core_def)
  from h * show "is_slot s' a = is_slot s a" "group_at s' a = group_at s a" "va_at s' a = va_at s a"
    "vpn_at s' a = vpn_at s a" by (simp_all add: is_slot_def group_at_def va_at_def vpn_at_def)
  show "getAccessType (ptab s' a) = getAccessType (ptab s a)" by (rule access_core) (rule *(3))
qed

lemma same_core_inv:
  assumes "same_core s s'" "pt_inv s"
  shows "pt_inv s'" "translate s' va = translate s va" "entry_for s' va a = entry_for s va a"
proof -
  note f = same_core_fields [OF assms(1)]
  have h: "htaborg s' = htaborg s" and t: "set (tlb s') \<subseteq> set (tlb s)" using assms(1) by (simp_all add: same_core_def)
  have e: "entries_ok s'" using assms(2) unfolding pt_inv_def entries_ok_def f h by blast
  moreover have "tlb_ok s'" using assms(2) t unfolding pt_inv_def tlb_ok_def f by blast
  ultimately show "pt_inv s'" by (simp add: pt_inv_def)
  show ef: "entry_for s' va a = entry_for s va a" for a by (simp add: entry_for_def f)
  have "entries_ok s" using assms(2) by (simp add: pt_inv_def)
  then have "translate s' va = Some x \<longleftrightarrow> translate s va = Some x" for x
    by (simp add: translate_iff [OF e] translate_iff ef f)
  then show "translate s' va = translate s va" by (metis not_Some_eq)
qed

lemma updateLRUEntry_core: "\<exists>s'. updateLRUEntry a s = Inr s' \<and> same_core s s' \<and> usage s' = usage s"
  by (auto simp: updateLRUEntry_def Let_def invalidateTLB_eq same_core_def upd_pte_def core_def xlate_of_def
      copy_dword0_def)

lemma lru_loop_core: "\<exists>s'. lru_loop new a n s = Inr s' \<and> same_core s s' \<and> usage s' = usage s \<and> ptab s' new = ptab s new"
proof (induction n arbitrary: a s)
  case (Suc n)
  have "\<exists>s1. (if a \<noteq> new then updateLRUEntry a s else Inr s) = Inr s1 \<and> same_core s s1 \<and> usage s1 = usage s
    \<and> ptab s1 new = ptab s new"
    using updateLRUEntry_core [of a s]
    by (auto simp: updateLRUEntry_def Let_def invalidateTLB_eq upd_pte_def split: if_splits)
  then obtain s1 where s1: "(if a \<noteq> new then updateLRUEntry a s else Inr s) = Inr s1" "same_core s s1"
    "usage s1 = usage s" "ptab s1 new = ptab s new" by blast
  moreover from Suc [of "a + PTE_SIZE" s1] obtain s2 where "lru_loop new (a + PTE_SIZE) n s1 = Inr s2"
    "same_core s1 s2" "usage s2 = usage s1" "ptab s2 new = ptab s1 new" by blast
  ultimately show ?case using same_core_trans [of s s1 s2] by (simp del: if_split_eq2)
qed simp

subsection \<open>Removing\<close>

definition kill :: "addr \<Rightarrow> ptmgr \<Rightarrow> ptmgr" where
  "kill a s = (upd_pte a (\<lambda>q. q\<lparr>vbit := False\<rparr>) s)\<lparr>tlb := filter (\<lambda>(v, x). v \<noteq> vpn_at s a) (tlb s)\<rparr>"

lemma kill_fields [simp]:
  "AVA (ptab (kill a s) b) = AVA (ptab s b)" "xlate_of (ptab (kill a s) b) = xlate_of (ptab s b)"
  "vbit (ptab (kill a s) b) = (b \<noteq> a \<and> vbit (ptab s b))" "is_slot (kill a s) b = is_slot s b"
  "group_at (kill a s) b = group_at s b" "va_at (kill a s) b = va_at s b" "vpn_at (kill a s) b = vpn_at s b"
  "htaborg (kill a s) = htaborg s" "ivIdleTaskPN (kill a s) = ivIdleTaskPN s" "usage (kill a s) = usage s"
  "entry_for (kill a s) va b = entry_for s va b"
  by (simp_all add: kill_def upd_pte_def xlate_of_def is_slot_def group_at_def va_at_def vpn_at_def entry_for_def)

lemma kill_inv:
  assumes "pt_inv s"
  shows "pt_inv (kill a s)"
    "translate (kill a s) va = (if entry_for s va a then None else translate s va)"
proof -
  have e: "entries_ok s" and t: "tlb_ok s" using assms by (simp_all add: pt_inv_def)
  have "getAccessType (ptab (kill a s) b) = getAccessType (ptab s b)" for b by (rule access_core) simp
  then have e': "entries_ok (kill a s)" using e by (auto simp: entries_ok_def)
  moreover have "tlb_ok (kill a s)" unfolding tlb_ok_def
  proof clarify
    fix v x assume "(v, x) \<in> set (tlb (kill a s))"
    then have vx: "(v, x) \<in> set (tlb s)" "v \<noteq> vpn_at s a" by (auto simp: kill_def)
    with t obtain b where "is_slot s b" "vbit (ptab s b)" "v = vpn_at s b" "x = xlate_of (ptab s b)"
      unfolding tlb_ok_def by blast
    with vx(2) show "\<exists>b. is_slot (kill a s) b \<and> vbit (ptab (kill a s) b) \<and> v = vpn_at (kill a s) b
      \<and> x = xlate_of (ptab (kill a s) b)" by (intro exI [of _ b]) auto
  qed
  ultimately show "pt_inv (kill a s)" by (simp add: pt_inv_def)
  have "translate (kill a s) va = Some x \<longleftrightarrow> \<not> entry_for s va a \<and> translate s va = Some x" for x
    unfolding translate_iff [OF e'] translate_iff [OF e] using entry_for_unique [OF e] by auto
  then show "translate (kill a s) va = (if entry_for s va a then None else translate s va)" by (metis not_Some_eq)
qed

lemma pushUsageStats_core:
  "\<exists>s'. pushUsageStats a s = Inr s' \<and> same_core s s'
    \<and> usage s' = usage s @ [(va_at s a, \<lparr>us_C = False, us_R = (rbit (ptab s a) \<or> R2 (ptab s a)), us_LRU = LRU (ptab s a)\<rparr>)]"
  by (auto simp: pushUsageStats_def Let_def invalidateTLB_eq getVirtAddr_eq same_core_def upd_pte_def core_def
      xlate_of_def va_at_def group_at_def)

lemma delEntry_pte_spec:
  assumes "vbit (ptab s a)"
  shows "\<exists>s'. delEntry_pte a s = Inr s' \<and> same_core (kill a s) s'
    \<and> usage s' = usage s @ [(va_at s a, \<lparr>us_C = False, us_R = (rbit (ptab s a) \<or> R2 (ptab s a)), us_LRU = LRU (ptab s a)\<rparr>)]"
proof -
  have "writePTE (ptab s a) a False s = Inr (kill a s)"
    by (simp add: writePTE_def invalidateTLB_eq kill_def upd_pte_def vpn_at_def va_at_def group_at_def)
  moreover have "rbit (ptab (kill a s) a) = rbit (ptab s a)" "R2 (ptab (kill a s) a) = R2 (ptab s a)"
    "LRU (ptab (kill a s) a) = LRU (ptab s a)" by (simp_all add: kill_def upd_pte_def)
  ultimately show ?thesis using assms pushUsageStats_core [of a "kill a s"] by (simp add: delEntry_pte_def)
qed

subsection \<open>Adding\<close>

definition install :: "addr \<Rightarrow> pte \<Rightarrow> ptmgr \<Rightarrow> ptmgr" where
  "install a q s = s\<lparr>ptab := (ptab s)(a := q)\<rparr>"

lemma install_fields [simp]:
  "ptab (install a q s) b = (if b = a then q else ptab s b)" "is_slot (install a q s) b = is_slot s b"
  "group_at (install a q s) b = group_at s b" "htaborg (install a q s) = htaborg s" "tlb (install a q s) = tlb s"
  "usage (install a q s) = usage s"
  by (simp_all add: install_def is_slot_def group_at_def)

lemma install_inv:
  assumes inv: "pt_inv s" and a: "is_slot s a" "\<not> vbit (ptab s a)"
    and q: "small (AVA q)" "getAccessType q = Inr t" "vbit q"
    and u: "\<And>b. is_slot s b \<Longrightarrow> b \<noteq> a \<Longrightarrow> group_at s b = group_at s a \<Longrightarrow> AVA (ptab s b) \<noteq> AVA q"
  shows "pt_inv (install a q s)"
    "translate (install a q s) va =
       (if entry_va (AVA q) (group_at s a) = page_addr va then Some (xlate_of q) else translate s va)"
proof -
  have e: "entries_ok s" and tl: "tlb_ok s" using inv by (simp_all add: pt_inv_def)
  let ?s = "install a q s"
  have e': "entries_ok ?s"
    unfolding entries_ok_def
  proof (intro conjI allI impI)
    show "PT_SIZE dvd htaborg ?s" using e by (simp add: entries_ok_def)
  next
    fix b assume "is_slot ?s b"
    then show "small (AVA (ptab ?s b)) \<and> (\<exists>t. getAccessType (ptab ?s b) = Inr t)
      \<or> AVA (ptab ?s b) = PTE_AVA_MASK \<and> \<not> vbit (ptab ?s b)"
      using e q by (cases "b = a") (auto simp: entries_ok_def)
  next
    fix b c assume h: "is_slot ?s b \<and> is_slot ?s c \<and> b \<noteq> c \<and> group_at ?s b = group_at ?s c
      \<and> AVA (ptab ?s b) = AVA (ptab ?s c)"
    then have "b \<noteq> a" "c \<noteq> a" using u [of b] u [of c] by (auto split: if_splits)
    with h have "is_slot s b \<and> is_slot s c \<and> b \<noteq> c \<and> group_at s b = group_at s c
      \<and> AVA (ptab s b) = AVA (ptab s c)" by simp
    then have "AVA (ptab s b) = PTE_AVA_MASK" using e unfolding entries_ok_def by blast
    with \<open>b \<noteq> a\<close> show "AVA (ptab ?s b) = PTE_AVA_MASK" by simp
  qed
  moreover have "tlb_ok ?s" unfolding tlb_ok_def
  proof clarify
    fix v x assume "(v, x) \<in> set (tlb ?s)"
    with tl obtain b where b: "is_slot s b" "vbit (ptab s b)" "v = vpn_at s b" "x = xlate_of (ptab s b)"
      by (auto simp: tlb_ok_def)
    then have "b \<noteq> a" using a(2) by auto
    with b show "\<exists>b. is_slot ?s b \<and> vbit (ptab ?s b) \<and> v = vpn_at ?s b \<and> x = xlate_of (ptab ?s b)"
      by (intro exI [of _ b]) (simp add: vpn_at_def va_at_def)
  qed
  ultimately show "pt_inv ?s" by (simp add: pt_inv_def)
  have other: "entry_for ?s va b = entry_for s va b" if "b \<noteq> a" for b using that by (simp add: entry_for_def va_at_def)
  have mine: "entry_for ?s va a \<longleftrightarrow> entry_va (AVA q) (group_at s a) = page_addr va"
    using a(1) q(1) by (simp add: entry_for_def va_at_def)
  have "translate ?s va = Some x \<longleftrightarrow>
    (if entry_va (AVA q) (group_at s a) = page_addr va then Some (xlate_of q) else translate s va) = Some x" for x
  proof (cases "entry_for ?s va a")
    case True
    then have "translate ?s va = Some x \<longleftrightarrow> x = xlate_of q"
      unfolding translate_iff [OF e'] using entry_for_unique [OF e' True] q(3) by auto
    with True mine show ?thesis by auto
  next
    case False
    then have "translate ?s va = Some x \<longleftrightarrow> (\<exists>b. b \<noteq> a \<and> entry_for s va b \<and> vbit (ptab s b) \<and> x = xlate_of (ptab s b))"
      unfolding translate_iff [OF e'] using other by auto
    also have "\<dots> \<longleftrightarrow> translate s va = Some x" unfolding translate_iff [OF e] using a(2) by auto
    finally show ?thesis using False mine by simp
  qed
  then show "translate ?s va = (if entry_va (AVA q) (group_at s a) = page_addr va then Some (xlate_of q) else translate s va)"
    by (metis not_Some_eq)
qed

lemma write_valid:
  assumes inv: "pt_inv s" and a: "is_slot s a" "vbit (ptab s a) \<Longrightarrow> AVA q = AVA (ptab s a)"
    and q: "small (AVA q)" "getAccessType q = Inr t"
    and u: "\<And>b. is_slot s b \<Longrightarrow> b \<noteq> a \<Longrightarrow> group_at s b = group_at s a \<Longrightarrow> AVA (ptab s b) \<noteq> AVA q"
  shows "\<exists>s'. writePTE q a True s = Inr s' \<and> pt_inv s' \<and> usage s' = usage s \<and> htaborg s' = htaborg s
    \<and> ptab s' a = q\<lparr>LRU := 0, vbit := True\<rparr>
    \<and> (\<forall>w. translate s' w = (if entry_va (AVA q) (group_at s a) = page_addr w then Some (xlate_of q)
            else if entry_for s w a then None else translate s w))"
proof -
  define s1 where "s1 = (if vbit (ptab s a) then kill a s else s)"
  let ?q = "q\<lparr>LRU := 0, vbit := True\<rparr>"
  have e: "entries_ok s" using inv by (simp add: pt_inv_def)
  have inv1: "pt_inv s1" using inv kill_inv(1) [OF inv] by (simp add: s1_def)
  have none: "translate s w = None" if "\<not> vbit (ptab s a)" "entry_for s w a" for w
    using translate_iff [OF e, of w] entry_for_unique [OF e that(2)] that(1) by (metis not_Some_eq)
  have tr1: "translate s1 w = (if entry_for s w a then None else translate s w)" for w
    using kill_inv(2) [OF inv, of a w] none [of w] by (simp add: s1_def)
  have sl: "is_slot s1 b = is_slot s b" "group_at s1 b = group_at s b" "AVA (ptab s1 b) = AVA (ptab s b)" for b
    by (simp_all add: s1_def)
  have acc: "getAccessType ?q = Inr t" using q(2) access_core [of ?q q] by (simp add: xlate_of_def)
  have nv: "\<not> vbit (ptab s1 a)" by (simp add: s1_def)
  have ii: "pt_inv (install a ?q s1)"
    "translate (install a ?q s1) w = (if entry_va (AVA q) (group_at s a) = page_addr w then Some (xlate_of q)
      else translate s1 w)" for w
    using install_inv [OF inv1 _ nv, of ?q t] a(1) q(1) acc u by (simp_all add: sl xlate_of_def)
  obtain s' where s': "updateLRUGroup a (install a ?q s1) = Inr s'" "same_core (install a ?q s1) s'"
    "usage s' = usage (install a ?q s1)" "ptab s' a = ptab (install a ?q s1) a"
    using lru_loop_core [of a "a div PTEG_SIZE_BYTES * PTEG_SIZE_BYTES" 8 "install a ?q s1"]
    by (auto simp: updateLRUGroup_def)
  have "writePTE q a True s = updateLRUGroup a (install a ?q s1)"
    using a(2)
    by (auto simp: writePTE_def invalidateTLB_eq install_def s1_def kill_def upd_pte_def vpn_at_def va_at_def group_at_def)
  with s' have "writePTE q a True s = Inr s'" by simp
  moreover have "pt_inv s'" by (rule same_core_inv(1) [OF s'(2) ii(1)])
  moreover have "usage s' = usage s" using s'(3) by (simp add: s1_def)
  moreover have "htaborg s' = htaborg s" using s'(2) by (simp add: same_core_def s1_def)
  moreover have "translate s' w = translate (install a ?q s1) w" for w by (rule same_core_inv(2) [OF s'(2) ii(1)])
  ultimately show ?thesis using s'(4) by (simp add: ii(2) tr1)
qed

lemma setAccessBits_fields [simp]:
  "rbit (setAccessBits t p) = rbit p" "R2 (setAccessBits t p) = R2 p" "vbit (setAccessBits t p) = vbit p"
  by (simp_all add: setAccessBits_def Let_def)

text \<open>The access type an entry is given: the first of the permissions in this order.\<close>

definition access_kind :: "u64 \<Rightarrow> u64" where
  "access_kind t = (if t = CI_ACCESS then CI_ACCESS
     else if t AND READ_ONLY \<noteq> 0 then READ_ONLY
     else if t AND WRITABLE \<noteq> 0 then WRITABLE
     else if t AND EXECUTABLE \<noteq> 0 then EXECUTABLE
     else NO_ACCESS)"

lemma access_round_trip: "getAccessType (setAccessBits t p) = Inr (access_kind t)"
  by (simp add: setAccessBits_def getAccessType_def access_kind_def Let_def)

definition run_of :: "addr \<Rightarrow> nat \<Rightarrow> addr set" where
  "run_of a n = (\<lambda>x. a + x * 16) ` {..<n}"

lemma run_of_simps [simp]: "run_of a 0 = {}" "run_of a (Suc n) = insert a (run_of (a + 16) n)"
  by (auto simp: run_of_def image_iff lessThan_Suc_eq_insert_0)

lemma old_loop_spec:
  "old_loop s old a n \<in> insert old (run_of a n)
   \<and> (\<forall>b \<in> insert old (run_of a n). \<not> idle_page s b \<longrightarrow>
        \<not> idle_page s (old_loop s old a n) \<and> LRU (ptab s b) \<le> LRU (ptab s (old_loop s old a n)))"
proof (induction n arbitrary: old a)
  case (Suc n)
  define old' where "old' = (if idle_page s old then a
                 else if LRU (ptab s a) > LRU (ptab s old) \<and> \<not> idle_page s a then a else old)"
  let ?r = "old_loop s old a (Suc n)"
  have r: "?r = old_loop s old' (a + 16) n" by (simp add: old'_def PTE_SIZE_def)
  note IH = Suc.IH [of old' "a + 16", folded r]
  have "?r \<in> insert old (run_of a (Suc n))" using IH [THEN conjunct1] by (auto simp: old'_def split: if_splits)
  moreover have "\<not> idle_page s ?r \<and> LRU (ptab s b) \<le> LRU (ptab s ?r)"
    if b: "b \<in> insert old (run_of a (Suc n))" "\<not> idle_page s b" for b
  proof (cases "b \<in> run_of (a + 16) n")
    case True
    with IH b(2) show ?thesis by blast
  next
    case False
    then have "b = old \<or> b = a" using b(1) by auto
    then have "\<not> idle_page s old' \<and> LRU (ptab s b) \<le> LRU (ptab s old')" using b(2) by (auto simp: old'_def)
    with IH show ?thesis by (meson insertI1 order_trans)
  qed
  ultimately show ?case by blast
qed simp

lemma findOldPTE_spec:
  shows "findOldPTE s base \<in> run_of base 8"
    "b \<in> run_of base 8 \<Longrightarrow> \<not> idle_page s b \<Longrightarrow>
       \<not> idle_page s (findOldPTE s base) \<and> LRU (ptab s b) \<le> LRU (ptab s (findOldPTE s base))"
  using old_loop_spec [of s base base 8] by (auto simp: findOldPTE_def run_of_def)

text \<open>The entry that has to give way when the group of \<open>va\<close> is full of other pages.\<close>

definition victim :: "ptmgr \<Rightarrow> u64 \<Rightarrow> addr option" where
  "victim s va =
     (let base = htaborg s + group_of va * 128
      in if findPTE_in s va base = None \<and> findEmptyPTE s base = None then Some (findOldPTE s base) else None)"

definition stats_of :: "pte \<Rightarrow> usage_stats" where
  "stats_of p = \<lparr>us_C = False, us_R = (rbit p \<or> R2 p), us_LRU = LRU p\<rparr>"

definition added :: "pte \<Rightarrow> u64 \<Rightarrow> u64 \<Rightarrow> u64 \<Rightarrow> pte" where
  "added data va page t = (setAccessBits t data)\<lparr>AVA := ucast (drop_bit 23 va), PN := ucast page\<rparr>"

lemma access_added: "getAccessType (added data va page t) = Inr (access_kind t)"
  by (simp add: added_def setAccessBits_def getAccessType_def access_kind_def Let_def)

lemma add_to_slot:
  assumes inv: "pt_inv s" and a: "is_slot s a" "group_at s a = group_of va"
    "vbit (ptab s a) \<Longrightarrow> ucast (AVA (ptab s a)) = drop_bit 23 va"
    and u: "\<And>b. entry_for s va b \<Longrightarrow> b = a"
  shows "\<exists>s'. writePTE (added data va page t) a True s = Inr s' \<and> pt_inv s' \<and> usage s' = usage s \<and> htaborg s' = htaborg s
    \<and> ptab s' a = (added data va page t)\<lparr>LRU := 0, vbit := True\<rparr>
    \<and> (\<forall>w. translate s' w = (if page_addr w = page_addr va then Some (xlate_of (added data va page t))
            else if entry_for s w a then None else translate s w))"
proof -
  let ?q = "added data va page t"
  have ava: "AVA ?q = ucast (drop_bit 23 va)" by (simp add: added_def)
  have pg: "entry_va (AVA ?q) (group_at s a) = page_addr va" unfolding ava a(2) by (rule entry_va_page)
  have "AVA (ptab s b) \<noteq> AVA ?q" if "is_slot s b" "b \<noteq> a" "group_at s b = group_at s a" for b
  proof
    assume "AVA (ptab s b) = AVA ?q"
    then have "entry_for s va b" using that(1,3) a(2) small_va [of va] ucast_va [of va] by (simp add: entry_for_iff ava)
    with u that(2) show False by blast
  qed
  moreover have "AVA ?q = AVA (ptab s a)" if "vbit (ptab s a)"
    using a(3) [OF that] ucast_va [of va] ucast45_inj [of "AVA ?q" "AVA (ptab s a)"] by (simp add: ava)
  ultimately obtain s' where "writePTE ?q a True s = Inr s'" "pt_inv s'" "usage s' = usage s" "htaborg s' = htaborg s"
    "ptab s' a = ?q\<lparr>LRU := 0, vbit := True\<rparr>"
    "\<forall>w. translate s' w = (if page_addr va = page_addr w then Some (xlate_of ?q)
            else if entry_for s w a then None else translate s w)"
    using write_valid [OF inv a(1), of ?q, OF _ _ access_added] small_va [of va] unfolding pg unfolding ava by blast
  then show ?thesis by (intro exI [of _ s']) (auto simp: eq_commute)
qed

lemma findPTE_in_page: "findPTE_in s (page_addr va) b = findPTE_in s va b"
  by (simp add: findPTE_in_def)

lemma group_base_slot:
  assumes "a \<in> run_of (htaborg s + group_of va * 128) 8"
  shows "is_slot s a" "group_at s a = group_of va"
  using assms group_slot [OF group_of_less, of _ s va] by (auto simp: run_of_def)

lemma scan_run: "scan P m a n = Some b \<Longrightarrow> b \<in> run_of a n \<and> P (m b)"
  using scan_Some [of P m a n b] by (auto simp: run_of_def)

text \<open>The three ways of \<open>_addEntry\<close> to find a slot.\<close>

lemma addEntry_found:
  assumes inv: "pt_inv s" and a: "entry_for s va a" and ok: "\<And>x. translate s va = Some x \<Longrightarrow> page = ucast (fst x)"
  shows "\<exists>s' data. ptmgr_addEntry junk va page t s = Inr s' \<and> pt_inv s' \<and> usage s' = usage s
    \<and> (\<forall>w. translate s' w = (if page_addr w = page_addr va then Some (xlate_of (added data va page t)) else translate s w))"
proof -
  have e: "entries_ok s" using inv by (simp add: pt_inv_def)
  let ?base = "htaborg s + group_of va * 128" and ?d = "setupDefaultPTE junk"
  let ?data = "if vbit (ptab s a) then ?d else ?d\<lparr>rbit := False, LRU := 0\<rparr>"
  have f: "findPTE_in s va ?base = Some a" using findPTE_in_iff [OF e] a by blast
  have pn: "page = ucast (PN (ptab s a))" if "vbit (ptab s a)"
  proof -
    have "translate s va = Some (xlate_of (ptab s a))" using that a translate_iff [OF e] by blast
    from ok [OF this] show ?thesis by (simp add: xlate_of_def)
  qed
  have "ptmgr_addEntry junk va page t s = writePTE (added ?data va page t) a True s"
    using f pn unfolding ptmgr_addEntry_def align_down_page findPTEG_eq page_addr_parts
    by (auto simp: Let_def findPTE_in_page added_def)
  moreover obtain s' where s': "writePTE (added ?data va page t) a True s = Inr s'" "pt_inv s'" "usage s' = usage s"
    "\<forall>w. translate s' w = (if page_addr w = page_addr va then Some (xlate_of (added ?data va page t))
            else if entry_for s w a then None else translate s w)"
  proof -
    have h: "is_slot s a" "group_at s a = group_of va" "ucast (AVA (ptab s a)) = drop_bit 23 va"
      using a by (simp_all add: entry_for_iff)
    show thesis using add_to_slot [OF inv h(1,2), of ?data page t] h(3) entry_for_unique [OF e _ a] that by blast
  qed
  moreover have "\<not> entry_for s w a" if "page_addr w \<noteq> page_addr va" for w using a that by (simp add: entry_for_def)
  ultimately show ?thesis by (intro exI [of _ s'] exI [of _ ?data]) auto
qed

lemma addEntry_absent:
  assumes inv: "pt_inv s" and no: "\<And>a. \<not> entry_for s va a" and s1: "pt_inv s1" "same_core s s1 \<or> same_core (kill a s) s1"
    and a: "a \<in> run_of (htaborg s + group_of va * 128) 8" "\<not> vbit (ptab s1 a)"
    and eq: "ptmgr_addEntry junk va page t s = writePTE (added data va page t) a True s1"
  shows "\<exists>s'. ptmgr_addEntry junk va page t s = Inr s' \<and> pt_inv s' \<and> usage s' = usage s1 \<and> htaborg s' = htaborg s
    \<and> ptab s' a = (added data va page t)\<lparr>LRU := 0, vbit := True\<rparr>
    \<and> (\<forall>w. translate s' w = (if page_addr w = page_addr va then Some (xlate_of (added data va page t))
          else if entry_for s w a then None else translate s w))"
proof -
  have e: "entries_ok s" using inv by (simp add: pt_inv_def)
  have ef: "entry_for s1 w b = entry_for s w b" and sl: "is_slot s1 b = is_slot s b" "group_at s1 b = group_at s b" for w b
    using s1(2) same_core_inv(3) [OF _ inv, of s1] same_core_inv(3) [OF _ kill_inv(1) [OF inv], of a s1]
      same_core_fields(4,5) [of s s1] same_core_fields(4,5) [of "kill a s" s1] by auto
  have tr: "(if entry_for s w a then None else translate s1 w) = (if entry_for s w a then None else translate s w)" for w
    using s1(2) same_core_inv(2) [OF _ inv, of s1 w] same_core_inv(2) [OF _ kill_inv(1) [OF inv], of a s1 w]
      kill_inv(2) [OF inv, of a w] by auto
  obtain s' where s': "writePTE (added data va page t) a True s1 = Inr s'" "pt_inv s'" "usage s' = usage s1" "htaborg s' = htaborg s1"
    "ptab s' a = (added data va page t)\<lparr>LRU := 0, vbit := True\<rparr>"
    "\<forall>w. translate s' w = (if page_addr w = page_addr va then Some (xlate_of (added data va page t))
            else if entry_for s1 w a then None else translate s1 w)"
    using add_to_slot [OF s1(1), of a va data page t] group_base_slot [OF a(1)] a(2) no ef sl by metis
  moreover have "htaborg s1 = htaborg s" using s1(2) by (auto simp: same_core_def)
  ultimately show ?thesis unfolding eq using ef tr by (intro exI [of _ s']) metis
qed

text \<open>\<open>entry_data\<close> is some entry with this page number and access type: what \<open>addEntry\<close> installs.\<close>

definition entry_data :: "u64 \<Rightarrow> u64 \<Rightarrow> xlate \<Rightarrow> bool" where
  "entry_data page t x \<longleftrightarrow> (\<exists>p. x = xlate_of p \<and> PN p = ucast page \<and> getAccessType p = Inr (access_kind t))"

lemma entry_data_added: "entry_data page t (xlate_of (added data va page t))"
  unfolding entry_data_def by (intro exI [of _ "added data va page t"]) (simp add: access_added, simp add: added_def)

lemma addEntry_new:
  assumes inv: "pt_inv s" and no: "\<And>a. \<not> entry_for s va a"
  shows "\<exists>s' a. ptmgr_addEntry junk va page t s = Inr s' \<and> pt_inv s' \<and> entry_for s' va a
    \<and> ptab s' a = (added ((setupDefaultPTE junk)\<lparr>rbit := False, LRU := 0\<rparr>) va page t)\<lparr>LRU := 0, vbit := True\<rparr>
    \<and> (\<forall>w. translate s' w = (if page_addr w = page_addr va
            then Some (xlate_of (added ((setupDefaultPTE junk)\<lparr>rbit := False, LRU := 0\<rparr>) va page t))
          else if \<exists>a. victim s va = Some a \<and> va_at s a = page_addr w then None
          else translate s w))
    \<and> usage s' = usage s @ (case victim s va of None \<Rightarrow> [] | Some a \<Rightarrow> [(va_at s a, stats_of (ptab s a))])"
proof -
  have e: "entries_ok s" using inv by (simp add: pt_inv_def)
  let ?base = "htaborg s + group_of va * 128" and ?data = "(setupDefaultPTE junk)\<lparr>rbit := False, LRU := 0\<rparr>"
  let ?q = "added ?data va page t"
  have none: "findPTE_in s va ?base = None" using findPTE_in_iff [OF e] no by (metis not_Some_eq)
  have ef: "entry_for s' va a"
    if "a \<in> run_of ?base 8" "htaborg s' = htaborg s" "ptab s' a = ?q\<lparr>LRU := 0, vbit := True\<rparr>" for a s'
    using group_base_slot [OF that(1)] that(2,3) small_va [of va] ucast_va [of va]
    by (simp add: entry_for_iff is_slot_def group_at_def added_def)
  show ?thesis
  proof (cases "findEmptyPTE s ?base")
    case (Some a)
    then have a: "a \<in> run_of ?base 8" "\<not> vbit (ptab s a)"
      using scan_run [of "\<lambda>p. \<not> vbit p" "ptab s" ?base 8 a] by (simp_all add: findEmptyPTE_def)
    have eq: "ptmgr_addEntry junk va page t s = writePTE ?q a True s"
      using none Some unfolding ptmgr_addEntry_def align_down_page findPTEG_eq page_addr_parts
      by (simp add: Let_def findPTE_in_page added_def)
    have stale: "translate s w = None" if "entry_for s w a" for w
      using translate_iff [OF e, of w] entry_for_unique [OF e that] a(2) by (metis not_Some_eq)
    have v: "victim s va = None" using none Some by (simp add: victim_def)
    obtain s' where "ptmgr_addEntry junk va page t s = Inr s'" "pt_inv s'" "usage s' = usage s" "htaborg s' = htaborg s"
      "ptab s' a = ?q\<lparr>LRU := 0, vbit := True\<rparr>"
      "\<forall>w. translate s' w = (if page_addr w = page_addr va then Some (xlate_of ?q)
        else if entry_for s w a then None else translate s w)"
      using addEntry_absent [OF inv no inv _ a eq] by auto
    with stale v ef [OF a(1), of s'] show ?thesis by (intro exI [of _ s'] exI [of _ a]) simp
  next
    case empty: None
    define a where "a = findOldPTE s ?base"
    have a: "a \<in> run_of ?base 8" using findOldPTE_spec(1) by (simp add: a_def)
    then have vb: "vbit (ptab s a)" using empty by (auto simp: findEmptyPTE_def scan_None run_of_def)
    then obtain s1 where s1: "delEntry_pte a s = Inr s1" "same_core (kill a s) s1"
      "usage s1 = usage s @ [(va_at s a, stats_of (ptab s a))]"
      using delEntry_pte_spec [of s a] by (auto simp: stats_of_def)
    have inv1: "pt_inv s1" by (rule same_core_inv(1) [OF s1(2) kill_inv(1) [OF inv]])
    have nv: "\<not> vbit (ptab s1 a)" using same_core_fields(2) [OF s1(2)] by simp
    have eq: "ptmgr_addEntry junk va page t s = writePTE ?q a True s1"
      using none empty s1(1) unfolding ptmgr_addEntry_def align_down_page findPTEG_eq page_addr_parts
      by (simp add: Let_def findPTE_in_page added_def a_def)
    have sm: "small (AVA (ptab s a))" using e vb group_base_slot(1) [OF a] by (auto simp: entries_ok_def)
    have v: "victim s va = Some a" using none empty by (simp add: victim_def a_def)
    have own: "entry_for s w a \<longleftrightarrow> va_at s a = page_addr w" for w
      using sm group_base_slot(1) [OF a] by (simp add: entry_for_def)
    obtain s' where s': "ptmgr_addEntry junk va page t s = Inr s'" "pt_inv s'" "usage s' = usage s1" "htaborg s' = htaborg s"
      "ptab s' a = ?q\<lparr>LRU := 0, vbit := True\<rparr>"
      "\<forall>w. translate s' w = (if page_addr w = page_addr va then Some (xlate_of ?q)
        else if entry_for s w a then None else translate s w)"
      using addEntry_absent [OF inv no inv1 _ a nv eq] s1(2) by auto
    with ef [OF a, of s'] show ?thesis by (intro exI [of _ s'] exI [of _ a]) (simp add: s1(3) v own)
  qed
qed

lemma addEntry_effect:
  assumes inv: "pt_inv s" and ok: "\<And>x. translate s va = Some x \<Longrightarrow> page = ucast (fst x)"
  shows "\<exists>s' x. ptmgr_addEntry junk va page t s = Inr s' \<and> pt_inv s' \<and> entry_data page t x
    \<and> (\<forall>w. translate s' w = (if page_addr w = page_addr va then Some x
          else if \<exists>a. victim s va = Some a \<and> va_at s a = page_addr w then None
          else translate s w))
    \<and> usage s' = usage s @ (case victim s va of None \<Rightarrow> [] | Some a \<Rightarrow> [(va_at s a, stats_of (ptab s a))])"
proof (cases "\<exists>a. entry_for s va a")
  case True
  then obtain a where a: "entry_for s va a" by blast
  have e: "entries_ok s" using inv by (simp add: pt_inv_def)
  have v: "victim s va = None" using findPTE_in_iff [OF e] a by (auto simp: victim_def Let_def)
  from addEntry_found [OF inv a ok, of junk t] obtain s' data where
    "ptmgr_addEntry junk va page t s = Inr s'" "pt_inv s'" "usage s' = usage s"
    "\<forall>w. translate s' w = (if page_addr w = page_addr va then Some (xlate_of (added data va page t)) else translate s w)"
    by blast
  with v show ?thesis
    by (intro exI [of _ s'] exI [of _ "xlate_of (added data va page t)"]) (simp add: entry_data_added)
next
  case False
  from addEntry_new [OF inv, of va junk page t] False show ?thesis using entry_data_added by blast
qed

subsection \<open>Removal of pages and ranges\<close>

definition without :: "addr set \<Rightarrow> ptmgr \<Rightarrow> ptmgr \<Rightarrow> bool" where
  "without D s s' \<longleftrightarrow> htaborg s' = htaborg s \<and> ivIdleTaskPN s' = ivIdleTaskPN s
     \<and> (\<forall>b. AVA (ptab s' b) = AVA (ptab s b) \<and> xlate_of (ptab s' b) = xlate_of (ptab s b)
          \<and> vbit (ptab s' b) = (b \<notin> D \<and> vbit (ptab s b)))"

lemma without_fields:
  assumes "without D s s'"
  shows "is_slot s' b = is_slot s b" "entry_for s' w b = entry_for s w b" "va_at s' b = va_at s b"
  using assms by (simp_all add: without_def is_slot_def entry_for_def va_at_def group_at_def)

lemma without_trans: "without D s s1 \<Longrightarrow> without E s1 s' \<Longrightarrow> without (D \<union> E) s s'"
  by (auto simp: without_def)

lemma without_translate:
  assumes "without D s s'" "pt_inv s" "pt_inv s'"
  shows "translate s' w = (if \<exists>a\<in>D. entry_for s w a then None else translate s w)"
proof -
  have e: "entries_ok s" "entries_ok s'" using assms by (simp_all add: pt_inv_def)
  have "translate s' w = Some x \<longleftrightarrow> (\<exists>a. entry_for s w a \<and> a \<notin> D \<and> vbit (ptab s a) \<and> x = xlate_of (ptab s a))" for x
    unfolding translate_iff [OF e(2)] without_fields [OF assms(1)] using assms(1) by (auto simp: without_def)
  also have "\<And>x. (\<exists>a. entry_for s w a \<and> a \<notin> D \<and> vbit (ptab s a) \<and> x = xlate_of (ptab s a)) \<longleftrightarrow>
      \<not> (\<exists>a\<in>D. entry_for s w a) \<and> translate s w = Some x"
    unfolding translate_iff [OF e(1)] using entry_for_unique [OF e(1)] by blast
  finally show ?thesis by (metis not_Some_eq)
qed

lemma delEntry_pte_inv:
  assumes inv: "pt_inv s"
  shows "\<exists>s'. delEntry_pte a s = Inr s' \<and> pt_inv s' \<and> without {a} s s'"
proof (cases "vbit (ptab s a)")
  case True
  then obtain s' where s': "delEntry_pte a s = Inr s'" "same_core (kill a s) s'" using delEntry_pte_spec by blast
  have "without {a} s s'" using same_core_fields(1-3) [OF s'(2)] s'(2) by (auto simp: without_def same_core_def)
  then show ?thesis using s'(1) same_core_inv(1) [OF s'(2) kill_inv(1) [OF inv]] by blast
next
  case False
  then show ?thesis using inv by (auto simp: delEntry_pte_def without_def)
qed

lemma delEntry_effect:
  assumes inv: "pt_inv s"
  shows "\<exists>s'. ptmgr_delEntry va s = Inr s' \<and> pt_inv s'
    \<and> (\<forall>w. translate s' w = (if page_addr w = page_addr va then None else translate s w))"
proof -
  have e: "entries_ok s" using inv by (simp add: pt_inv_def)
  let ?f = "findPTE_in s va (htaborg s + group_of va * 128)"
  have d: "ptmgr_delEntry va s = (case ?f of None \<Rightarrow> Inr s | Some a \<Rightarrow> delEntry_pte a s)"
    by (simp add: ptmgr_delEntry_def findPTE_def findPTEG_eq)
  have same: "page_addr w = page_addr va \<Longrightarrow> entry_for s w b = entry_for s va b" for w b by (simp add: entry_for_def)
  show ?thesis
  proof (cases ?f)
    case None
    then have "\<not> entry_for s va a" for a using findPTE_in_iff [OF e] by (metis option.distinct(1))
    then have "translate s w = None" if "page_addr w = page_addr va" for w
      using translate_iff [OF e, of w] same [OF that] by (metis not_Some_eq)
    then show ?thesis using d None inv by auto
  next
    case (Some a)
    then have a: "entry_for s va a" using findPTE_in_iff [OF e] by blast
    obtain s' where s': "delEntry_pte a s = Inr s'" "pt_inv s'" "without {a} s s'" using delEntry_pte_inv [OF inv] by blast
    have "entry_for s w a \<longleftrightarrow> page_addr w = page_addr va" for w using a by (auto simp: entry_for_def)
    then show ?thesis using d Some s' without_translate [OF s'(3) inv s'(2)] by auto
  qed
qed

definition in_range :: "u64 \<Rightarrow> u64 \<Rightarrow> xlate \<Rightarrow> bool" where
  "in_range lo hi x \<longleftrightarrow> lo \<le> ucast (fst x) \<and> ucast (fst x) \<le> hi"

lemma pn_loop_effect:
  "pt_inv s \<Longrightarrow> \<exists>s'. pn_loop lo hi a n s = Inr s' \<and> pt_inv s'
    \<and> without {b \<in> run_of a n. vbit (ptab s b) \<and> in_range lo hi (xlate_of (ptab s b))} s s'"
proof (induction n arbitrary: a s)
  case 0
  then show ?case by (simp add: without_def)
next
  case (Suc n)
  let ?c = "vbit (ptab s a) \<and> in_range lo hi (xlate_of (ptab s a))"
  let ?D = "if ?c then {a} else {}"
  have st: "(if vbit (ptab s a) \<and> ucast (PN (ptab s a)) \<ge> lo \<and> ucast (PN (ptab s a)) \<le> hi
    then delEntry_pte a s else Inr s) = (if ?c then delEntry_pte a s else Inr s)"
    by (simp add: in_range_def xlate_of_def)
  obtain s1 where s1: "(if ?c then delEntry_pte a s else Inr s) = Inr s1" "pt_inv s1" "without ?D s s1"
  proof (cases ?c)
    case True
    then show thesis using that delEntry_pte_inv [OF Suc.prems, of a] by auto
  next
    case False
    then show thesis using that Suc.prems by (auto simp: without_def)
  qed
  from Suc.IH [OF s1(2), of "a + 16"] obtain s' where s': "pn_loop lo hi (a + 16) n s1 = Inr s'" "pt_inv s'"
    "without {b \<in> run_of (a + 16) n. vbit (ptab s1 b) \<and> in_range lo hi (xlate_of (ptab s1 b))} s1 s'" by blast
  have D: "?D \<union> {b \<in> run_of (a + 16) n. vbit (ptab s1 b) \<and> in_range lo hi (xlate_of (ptab s1 b))}
    = {b \<in> run_of a (Suc n). vbit (ptab s b) \<and> in_range lo hi (xlate_of (ptab s b))}"
    using s1(3) by (auto simp: without_def split: if_splits)
  have "pn_loop lo hi a (Suc n) s = Inr s'" using st s1(1) s'(1) by (simp add: PTE_SIZE_def)
  then show ?case using s'(2) without_trans [OF s1(3) s'(3), unfolded D] by blast
qed

lemma slots_run: "is_slot s a \<longleftrightarrow> a \<in> run_of (htaborg s) 16384"
  by (auto simp: is_slot_def run_of_def)

lemma delRangePN_effect:
  assumes inv: "pt_inv s"
  shows "\<exists>s'. ptmgr_delRangePN lo hi s = Inr s' \<and> pt_inv s'
    \<and> (\<forall>w. translate s' w = (case translate s w of None \<Rightarrow> None | Some x \<Rightarrow> if in_range lo hi x then None else Some x))"
proof -
  have e: "entries_ok s" using inv by (simp add: pt_inv_def)
  let ?D = "{b \<in> run_of (htaborg s) 16384. vbit (ptab s b) \<and> in_range lo hi (xlate_of (ptab s b))}"
  obtain s' where s': "pn_loop lo hi (htaborg s) 16384 s = Inr s'" "pt_inv s'" "without ?D s s'"
    using pn_loop_effect [OF inv] by blast
  have "translate s' w = (case translate s w of None \<Rightarrow> None | Some x \<Rightarrow> if in_range lo hi x then None else Some x)" for w
  proof (cases "translate s w")
    case None
    then show ?thesis using without_translate [OF s'(3) inv s'(2), of w] by simp
  next
    case (Some x)
    then obtain a where a: "entry_for s w a" "vbit (ptab s a)" "x = xlate_of (ptab s a)" using translate_iff [OF e] by blast
    have "a \<in> run_of (htaborg s) 16384" using a(1) by (simp only: entry_for_def slots_run)
    then have "(\<exists>b\<in>?D. entry_for s w b) \<longleftrightarrow> in_range lo hi x" using a entry_for_unique [OF e a(1)] by blast
    then show ?thesis using Some without_translate [OF s'(3) inv s'(2), of w] by simp
  qed
  moreover have "ptmgr_delRangePN lo hi s = Inr s'"
    using s'(1) by (simp add: ptmgr_delRangePN_def PT_SIZE_def PTE_SIZE_def)
  ultimately show ?thesis using s'(2) by blast
qed

lemma flush_loop_core: "\<exists>s'. flush_loop a n s = Inr s' \<and> same_core s s'"
proof (induction n arbitrary: a s)
  case (Suc n)
  obtain s1 where s1: "(if vbit (ptab s a) then pushUsageStats a s else Inr s) = Inr s1" "same_core s s1"
    using pushUsageStats_core [of a s] by (cases "vbit (ptab s a)") auto
  with Suc [of "a + PTE_SIZE" s1] show ?case by (auto intro: same_core_trans)
qed simp

lemma page_addr_iff: "page_addr va = va \<longleftrightarrow> 4096 dvd unat va"
proof -
  have "page_addr va = va \<longleftrightarrow> va mod of_nat PAGESIZE = 0"
    unfolding align_down_page [symmetric] by (simp add: diff_eq_eq)
  also have "\<dots> \<longleftrightarrow> unat va mod 4096 = 0" by (simp add: word_unat_eq_iff unat_mod PAGESIZE_def)
  finally show ?thesis by (simp add: dvd_eq_mod_eq_0)
qed

lemma page_addr_idem [simp]: "page_addr (page_addr va) = page_addr va"
  by (rule bit_word_eqI) (auto simp: page_addr_def bit_simps)

lemma next_page:
  assumes "page_addr va = va" "unat va + 4096 < 2 ^ 64"
  shows "unat (va + of_nat PAGESIZE) = unat va + 4096" "page_addr (va + of_nat PAGESIZE) = va + of_nat PAGESIZE"
    "va \<le> page_addr w \<longleftrightarrow> page_addr w = va \<or> va + of_nat PAGESIZE \<le> page_addr w"
proof -
  have p: "unat (of_nat PAGESIZE :: u64) = 4096" by (simp add: PAGESIZE_def)
  show u: "unat (va + of_nat PAGESIZE) = unat va + 4096" using assms(2) p by (simp add: unat_word_ariths)
  then show "page_addr (va + of_nat PAGESIZE) = va + of_nat PAGESIZE" using assms(1) by (simp add: page_addr_iff)
  have "4096 dvd unat (page_addr w)" using page_addr_iff [of "page_addr w"] by simp
  then obtain j where j: "unat (page_addr w) = 4096 * j" by blast
  obtain k where k: "unat va = 4096 * k" using assms(1) by (auto simp: page_addr_iff)
  have "unat va \<le> unat (page_addr w) \<longleftrightarrow> unat (page_addr w) = unat va \<or> unat va + 4096 \<le> unat (page_addr w)"
    unfolding j k by auto
  then show "va \<le> page_addr w \<longleftrightarrow> page_addr w = va \<or> va + of_nat PAGESIZE \<le> page_addr w"
    by (simp add: word_le_nat_alt word_unat_eq_iff u)
qed

lemma delRangeVA_effect:
  assumes "pt_inv s" "page_addr va = va" "unat hi + 4096 < 2 ^ 64"
  shows "\<exists>s'. ptmgr_delRangeVA va hi s = Some (Inr s') \<and> pt_inv s'
    \<and> (\<forall>w. translate s' w = (if va \<le> page_addr w \<and> page_addr w < hi then None else translate s w))"
  using assms
proof (induction "unat hi - unat va" arbitrary: va s rule: less_induct)
  case less
  show ?case
  proof (cases "va < hi")
    case False
    then show ?thesis using less.prems(1) by (subst ptmgr_delRangeVA.simps) auto
  next
    case True
    then have lt: "unat va < unat hi" by (simp add: word_less_nat_alt)
    then have sm: "unat va + 4096 < 2 ^ 64" using less.prems(3) by simp
    note np = next_page [OF less.prems(2) sm]
    obtain s1 where s1: "ptmgr_delEntry va s = Inr s1" "pt_inv s1"
      "\<And>w. translate s1 w = (if page_addr w = page_addr va then None else translate s w)"
      using delEntry_effect [OF less.prems(1)] by blast
    have "unat hi - unat (va + of_nat PAGESIZE) < unat hi - unat va" using lt np(1) by simp
    from less.hyps [OF this s1(2) np(2) less.prems(3)] obtain s' where
      s': "ptmgr_delRangeVA (va + of_nat PAGESIZE) hi s1 = Some (Inr s')" "pt_inv s'"
      "\<And>w. translate s' w = (if va + of_nat PAGESIZE \<le> page_addr w \<and> page_addr w < hi then None else translate s1 w)"
      by blast
    have "translate s' w = (if va \<le> page_addr w \<and> page_addr w < hi then None else translate s w)" for w
      using np(3) [of w] True less.prems(2) by (auto simp: s'(3) s1(3))
    then show ?thesis using s' True s1(1) by (subst ptmgr_delRangeVA.simps) simp
  qed
qed

section \<open>The table and the hardware together\<close>

text \<open>
  A processor that misses in its cache of translations walks the table, sets the reference bit of
  the entry it finds and caches the translation; it may drop cached translations at any time.
\<close>

definition hw_walk :: "u64 \<Rightarrow> ptmgr \<Rightarrow> ptmgr" where
  "hw_walk va s =
     (case scan (\<lambda>p. vbit p \<and> ucast (AVA p) = drop_bit 23 va) (ptab s) (htaborg s + group_of va * 128) 8 of
        None \<Rightarrow> s
      | Some a \<Rightarrow> (upd_pte a (\<lambda>q. q\<lparr>rbit := True\<rparr>) s)\<lparr>tlb := (drop_bit 12 va, xlate_of (ptab s a)) # tlb s\<rparr>)"

inductive ptreach :: "ptmgr \<Rightarrow> bool" where
  pt_init: "PT_SIZE dvd htaborg s \<Longrightarrow> tlb s = [] \<Longrightarrow> ptreach (invalidatePT s)"
| pt_add: "ptreach s \<Longrightarrow> ptmgr_addEntry junk va page t s = Inr s' \<Longrightarrow> ptreach s'"
| pt_del: "ptreach s \<Longrightarrow> ptmgr_delEntry va s = Inr s' \<Longrightarrow> ptreach s'"
| pt_delPN: "ptreach s \<Longrightarrow> ptmgr_delRangePN lo hi s = Inr s' \<Longrightarrow> ptreach s'"
| pt_flush: "ptreach s \<Longrightarrow> ptmgr_flush s = Inr s' \<Longrightarrow> ptreach s'"
| pt_walk: "ptreach s \<Longrightarrow> ptreach (hw_walk va s)"
| pt_evict: "ptreach s \<Longrightarrow> ptreach (s\<lparr>tlb := filter P (tlb s)\<rparr>)"

lemma invalidate_fold:
  "fold (\<lambda>i m. m(b + i * PTE_SIZE := (m (b + i * PTE_SIZE))\<lparr>AVA := PTE_AVA_MASK, vbit := False\<rparr>)) is m a
     = (if a \<in> (\<lambda>i. b + i * PTE_SIZE) ` set is then (m a)\<lparr>AVA := PTE_AVA_MASK, vbit := False\<rparr> else m a)"
  by (induction "is" arbitrary: m) auto

lemma invalidatePT_slot:
  assumes "is_slot (invalidatePT s) a"
  shows "AVA (ptab (invalidatePT s) a) = PTE_AVA_MASK \<and> \<not> vbit (ptab (invalidatePT s) a)"
proof -
  let ?n = "PT_SIZE div PTE_SIZE"
  have "?n = 16384" by (simp add: PT_SIZE_def PTE_SIZE_def)
  with assms have "a \<in> (\<lambda>i. htaborg s + i * PTE_SIZE) ` set [0..<?n]"
    unfolding set_upt by (auto simp: is_slot_def invalidatePT_def PTE_SIZE_def image_iff)
  then have "ptab (invalidatePT s) a = (ptab s a)\<lparr>AVA := PTE_AVA_MASK, vbit := False\<rparr>"
    using invalidate_fold [of "htaborg s" "[0..<?n]" "ptab s" a] by (simp add: invalidatePT_def del: set_upt)
  then show ?thesis by simp
qed

lemma invalidatePT_inv:
  assumes "PT_SIZE dvd htaborg s" "tlb s = []"
  shows "pt_inv (invalidatePT s)" "translate (invalidatePT s) va = None"
proof -
  have "htaborg (invalidatePT s) = htaborg s" "tlb (invalidatePT s) = tlb s" by (simp_all add: invalidatePT_def)
  then show inv: "pt_inv (invalidatePT s)"
    using assms invalidatePT_slot [of s] by (auto simp: pt_inv_def entries_ok_def tlb_ok_def)
  then have e: "entries_ok (invalidatePT s)" by (simp add: pt_inv_def)
  show "translate (invalidatePT s) va = None"
    using translate_iff [OF e, of va] invalidatePT_slot [of s] by (metis entry_for_def not_Some_eq)
qed

lemma entries_ok_tlb: "entries_ok (s\<lparr>tlb := x\<rparr>) = entries_ok s"
  by (simp add: entries_ok_def is_slot_def group_at_def)

lemma tlb_okD:
  "tlb_ok s \<Longrightarrow> (v, x) \<in> set (tlb s) \<Longrightarrow> \<exists>a. is_slot s a \<and> vbit (ptab s a) \<and> v = vpn_at s a \<and> x = xlate_of (ptab s a)"
  unfolding tlb_ok_def by (drule (1) bspec) simp

lemma hw_walk_inv:
  assumes inv: "pt_inv s"
  shows "pt_inv (hw_walk va s)"
proof (cases "scan (\<lambda>p. vbit p \<and> ucast (AVA p) = drop_bit 23 va) (ptab s) (htaborg s + group_of va * 128) 8")
  case None
  then show ?thesis using inv by (simp add: hw_walk_def)
next
  case (Some a)
  have e: "entries_ok s" using inv by (simp add: pt_inv_def)
  have a: "entry_for s va a" "vbit (ptab s a)"
    using scan_entry [OF e, of "\<lambda>p. vbit p \<and> ucast (AVA p) = drop_bit 23 va" va a] Some by auto
  let ?s = "upd_pte a (\<lambda>q. q\<lparr>rbit := True\<rparr>) s"
  have sc: "same_core s ?s" by (auto simp: same_core_def upd_pte_def core_def xlate_of_def)
  then have inv': "pt_inv ?s" using same_core_inv(1) inv by blast
  note f = same_core_fields [OF sc]
  let ?t = "(drop_bit 12 va, xlate_of (ptab s a)) # tlb s"
  have s1: "is_slot (?s\<lparr>tlb := ?t\<rparr>) b = is_slot s b" "vpn_at (?s\<lparr>tlb := ?t\<rparr>) b = vpn_at s b"
    "group_at (?s\<lparr>tlb := ?t\<rparr>) b = group_at s b" for b
    using f [of b] by (simp_all add: is_slot_def vpn_at_def va_at_def group_at_def)
  have "entries_ok (?s\<lparr>tlb := ?t\<rparr>)" using inv' by (simp add: pt_inv_def entries_ok_tlb)
  moreover have "is_slot s a \<and> drop_bit 12 va = vpn_at s a" using a(1) by (simp add: entry_for_def vpn_at_def)
  then have "tlb_ok (?s\<lparr>tlb := ?t\<rparr>)"
    using inv a(2) unfolding tlb_ok_def pt_inv_def s1 by (auto simp: f split: prod.splits)
  ultimately show ?thesis using Some by (simp add: hw_walk_def pt_inv_def)
qed

lemma va_at_page: "page_addr (va_at s a) = va_at s a"
  by (rule bit_word_eqI) (auto simp: va_at_def entry_va_def page_addr_def bit_simps)

lemma own_entry: "entries_ok s \<Longrightarrow> is_slot s a \<Longrightarrow> vbit (ptab s a) \<Longrightarrow> entry_for s (va_at s a) a"
  using va_at_page [of s a] by (auto simp: entries_ok_def entry_for_def)

text \<open>What a processor has cached is what the table has.\<close>

lemma cached_current:
  assumes inv: "pt_inv s" and vx: "(v, x) \<in> set (tlb s)"
  shows "translate s (push_bit 12 v) = Some x"
proof -
  have e: "entries_ok s" using inv by (simp add: pt_inv_def)
  obtain a where a: "is_slot s a" "vbit (ptab s a)" "v = vpn_at s a" "x = xlate_of (ptab s a)"
    using tlb_okD [OF _ vx] inv by (auto simp: pt_inv_def)
  have "push_bit 12 v = va_at s a" using va_at_page [of s a] by (simp add: a(3) vpn_at_def page_addr_def)
  then have "entry_for s (push_bit 12 v) a" using own_entry [OF e a(1,2)] by simp
  then show ?thesis unfolding translate_iff [OF e] using a(2,4) by blast
qed

lemma tlb_irrelevant [simp]: "translate (s\<lparr>tlb := x\<rparr>) = translate s"
  by (simp add: translate_def fun_eq_iff split: option.split)

lemma hw_walk_translate:
  assumes "pt_inv s"
  shows "translate (hw_walk va s) = translate s"
proof (cases "scan (\<lambda>p. vbit p \<and> ucast (AVA p) = drop_bit 23 va) (ptab s) (htaborg s + group_of va * 128) 8")
  case (Some a)
  let ?s = "upd_pte a (\<lambda>q. q\<lparr>rbit := True\<rparr>) s"
  have "same_core s ?s" by (auto simp: same_core_def upd_pte_def core_def xlate_of_def)
  then have "translate ?s = translate s" using same_core_inv(2) [OF _ assms] by (intro ext)
  then show ?thesis using Some by (simp add: hw_walk_def)
qed (simp add: hw_walk_def)

lemma evict_inv: "pt_inv s \<Longrightarrow> pt_inv (s\<lparr>tlb := filter P (tlb s)\<rparr>)"
  by (auto simp: pt_inv_def entries_ok_tlb tlb_ok_def is_slot_def vpn_at_def va_at_def group_at_def)

lemma addEntry_conflict:
  assumes inv: "pt_inv s" and x: "translate s va = Some x" "page \<noteq> ucast (fst x)"
  shows "ptmgr_addEntry junk va page t s = Inl KAssert"
proof -
  have e: "entries_ok s" using inv by (simp add: pt_inv_def)
  then obtain a where a: "entry_for s va a" "vbit (ptab s a)" "x = xlate_of (ptab s a)" using translate_iff x(1) by blast
  then have "findPTE_in s va (htaborg s + group_of va * 128) = Some a" using findPTE_in_iff [OF e] by blast
  then show ?thesis using a(2,3) x(2) unfolding ptmgr_addEntry_def align_down_page findPTEG_eq page_addr_parts
    by (simp add: Let_def findPTE_in_page xlate_of_def)
qed

lemma ptreach_inv: "ptreach s \<Longrightarrow> pt_inv s"
proof (induction rule: ptreach.induct)
  case (pt_init s)
  then show ?case by (rule invalidatePT_inv(1))
next
  case (pt_add s junk va page t s')
  have ok: "page = ucast (fst x)" if "translate s va = Some x" for x
    using addEntry_conflict [OF pt_add.IH that, of page junk t] pt_add.hyps(2) by auto
  from addEntry_effect [OF pt_add.IH, of va page junk t, OF ok] pt_add.hyps(2) show ?case by auto
next
  case (pt_del s va s')
  then show ?case using delEntry_effect [of s va] by auto
next
  case (pt_delPN s lo hi s')
  then show ?case using delRangePN_effect [of s lo hi] by auto
next
  case (pt_flush s s')
  then show ?case using flush_loop_core [of "htaborg s" "PT_SIZE div PTE_SIZE" s] same_core_inv(1) [of s s']
    by (auto simp: ptmgr_flush_def)
next
  case (pt_walk s va)
  then show ?case by (simp add: hw_walk_inv)
next
  case (pt_evict s P)
  then show ?case by (simp add: evict_inv)
qed

section \<open>Properties\<close>

text \<open>C24. No stale translation: in every run of table operations, table walks and evictions, each
  translation that a processor has cached is the one the table gives for that page, and a page has
  at most one valid entry.\<close>

theorem cached_translations_current:
  assumes "ptreach s"
  shows "(\<forall>(v, x) \<in> set (tlb s). translate s (push_bit 12 v) = Some x)
    \<and> (\<forall>a b. is_slot s a \<and> is_slot s b \<and> vbit (ptab s a) \<and> vbit (ptab s b) \<and> va_at s a = va_at s b \<longrightarrow> a = b)"
proof -
  have inv: "pt_inv s" by (rule ptreach_inv [OF assms])
  then have e: "entries_ok s" by (simp add: pt_inv_def)
  have own: "entry_for s (va_at s a) a" if "is_slot s a" "vbit (ptab s a)" for a by (rule own_entry [OF e that])
  have "translate s (push_bit 12 v) = Some x" if "(v, x) \<in> set (tlb s)" for v x by (rule cached_current [OF inv that])
  moreover have "a = b" if "is_slot s a" "is_slot s b" "vbit (ptab s a)" "vbit (ptab s b)" "va_at s a = va_at s b" for a b
    using entry_for_unique [OF e own [OF that(1,3)]] own [OF that(2,4)] that(5) by simp
  ultimately show ?thesis by blast
qed

text \<open>C25. Adding an entry: unless the page is mapped to another page already, \<open>_addEntry\<close> succeeds, the page
  is mapped to the given real page with the given kind of access, and every other page keeps its
  translation, except that of the one entry that gives way when the group is full. That entry is not
  one of the idle task's if the group has another one, it is the least recently used of those, and
  its use is reported to the segment manager under its own address.\<close>

theorem addEntry_exact:
  assumes "ptreach s" and "\<And>x. translate s va = Some x \<Longrightarrow> page = ucast (fst x)"
  shows "\<exists>s' x. ptmgr_addEntry junk va page t s = Inr s' \<and> ptreach s' \<and> entry_data page t x
    \<and> (\<forall>w. translate s' w = (if page_addr w = page_addr va then Some x
          else if \<exists>a. victim s va = Some a \<and> va_at s a = page_addr w then None
          else translate s w))
    \<and> usage s' = usage s @ (case victim s va of None \<Rightarrow> [] | Some a \<Rightarrow> [(va_at s a, stats_of (ptab s a))])
    \<and> (\<forall>a b. victim s va = Some a \<and> b \<in> run_of (htaborg s + group_of va * 128) 8 \<and> \<not> idle_page s b \<longrightarrow>
          \<not> idle_page s a \<and> LRU (ptab s b) \<le> LRU (ptab s a))"
proof -
  obtain s' x where s': "ptmgr_addEntry junk va page t s = Inr s'" "entry_data page t x"
    "\<forall>w. translate s' w = (if page_addr w = page_addr va then Some x
          else if \<exists>a. victim s va = Some a \<and> va_at s a = page_addr w then None
          else translate s w)"
    "usage s' = usage s @ (case victim s va of None \<Rightarrow> [] | Some a \<Rightarrow> [(va_at s a, stats_of (ptab s a))])"
    using addEntry_effect [OF ptreach_inv [OF assms(1)] assms(2)] by blast
  moreover have "\<not> idle_page s a \<and> LRU (ptab s b) \<le> LRU (ptab s a)"
    if "victim s va = Some a" "b \<in> run_of (htaborg s + group_of va * 128) 8" "\<not> idle_page s b" for a b
    using findOldPTE_spec(2) [OF that(2,3)] that(1) by (auto simp: victim_def Let_def split: if_splits)
  ultimately show ?thesis using pt_add [OF assms(1) s'(1)] by blast
qed

text \<open>C26. Removal is exact: \<open>_delEntry\<close> unmaps the page of its address, \<open>_delRangePN\<close> the pages that are
  mapped to a real page of the range, and neither changes another translation or fails.\<close>

theorem removal_exact:
  assumes "ptreach s"
  shows "(\<exists>s'. ptmgr_delEntry va s = Inr s' \<and> ptreach s'
      \<and> (\<forall>w. translate s' w = (if page_addr w = page_addr va then None else translate s w)))
    \<and> (\<exists>s'. ptmgr_delRangePN lo hi s = Inr s' \<and> ptreach s'
      \<and> (\<forall>w. translate s' w = (case translate s w of None \<Rightarrow> None | Some x \<Rightarrow> if in_range lo hi x then None else Some x)))"
  using delEntry_effect [OF ptreach_inv [OF assms], of va] delRangePN_effect [OF ptreach_inv [OF assms], of lo hi]
    pt_del [OF assms] pt_delPN [OF assms] by meson

text \<open>A removed entry still answers: after \<open>_delEntry\<close> of a mapped page \<open>getStatus\<close> finds the old entry by
  its address bits and hands out its page number, not \<open>INVALID_PN\<close>, with the valid flag clear.\<close>

theorem status_of_removed:
  assumes "ptreach s" and "translate s va = Some x"
  shows "\<exists>s' st. ptmgr_delEntry va s = Inr s' \<and> ptmgr_getStatus s' va = Inr (st, ucast (fst x))
    \<and> st AND status_bit PTE_PRESENT \<noteq> 0 \<and> st AND status_bit PTE_VALID = 0"
proof -
  have inv: "pt_inv s" by (rule ptreach_inv [OF assms(1)])
  then have e: "entries_ok s" by (simp add: pt_inv_def)
  then obtain a where a: "entry_for s va a" "vbit (ptab s a)" "x = xlate_of (ptab s a)" using translate_iff assms(2) by blast
  then have f: "findPTE_in s va (htaborg s + group_of va * 128) = Some a" using findPTE_in_iff [OF e] by blast
  obtain s' where s': "delEntry_pte a s = Inr s'" "pt_inv s'" "without {a} s s'" using delEntry_pte_inv [OF inv] by blast
  have d: "ptmgr_delEntry va s = Inr s'" using f s'(1) by (simp add: ptmgr_delEntry_def findPTE_def findPTEG_eq)
  have e': "entries_ok s'" using s'(2) by (simp add: pt_inv_def)
  have a': "entry_for s' va a" using a(1) without_fields [OF s'(3)] by simp
  then have f': "findPTE s' va = Inr (Some a)" using findPTE_in_iff [OF e'] by (simp add: findPTE_def findPTEG_eq)
  have nv: "\<not> vbit (ptab s' a)" and pn: "PN (ptab s' a) = fst x"
    using s'(3) a(3) by (auto simp: without_def xlate_of_def)
  obtain t where t: "getAccessType (ptab s' a) = Inr t"
    using e' a' by (auto simp: entries_ok_def entry_for_def)
  then obtain st where "getStatus (Some (ptab s' a)) = Inr st"
    "st AND status_bit PTE_PRESENT \<noteq> 0 \<and> st AND status_bit PTE_VALID = 0"
    using nv by (auto simp: getStatus_def bit.conj_disj_distrib2)
  then show ?thesis using d f' pn by (auto simp: ptmgr_getStatus_def)
qed

text \<open>\<open>_addEntry\<close> writes parts of an uninitialised local variable into the table: a page that is added
  and removed again without having been accessed is reported as referenced exactly if the shadow
  reference bit of that variable happens to be set.\<close>

theorem addEntry_writes_uninitialised:
  assumes "ptreach s" and "\<And>a. \<not> entry_for s va a"
  shows "\<exists>s1 s2. ptmgr_addEntry junk va page t s = Inr s1 \<and> ptmgr_delEntry va s1 = Inr s2
    \<and> usage s2 = usage s1 @ [(page_addr va, \<lparr>us_C = False, us_R = R2 junk, us_LRU = 0\<rparr>)]"
proof -
  let ?q = "added ((setupDefaultPTE junk)\<lparr>rbit := False, LRU := 0\<rparr>) va page t"
  obtain s1 a where s1: "ptmgr_addEntry junk va page t s = Inr s1" "pt_inv s1" "entry_for s1 va a"
    "ptab s1 a = ?q\<lparr>LRU := 0, vbit := True\<rparr>"
    using addEntry_new [OF ptreach_inv [OF assms(1)] assms(2)] by blast
  have e: "entries_ok s1" using s1(2) by (simp add: pt_inv_def)
  have f: "findPTE s1 va = Inr (Some a)" using findPTE_in_iff [OF e] s1(3) by (simp add: findPTE_def findPTEG_eq)
  have p: "vbit (ptab s1 a)" "rbit (ptab s1 a) = False" "R2 (ptab s1 a) = R2 junk" "LRU (ptab s1 a) = 0"
    by (simp_all add: s1(4) added_def setupDefaultPTE_def)
  have "va_at s1 a = page_addr va" using s1(3) by (simp add: entry_for_def)
  then show ?thesis using delEntry_pte_spec [OF p(1)] p(2-4) f s1(1) by (auto simp: ptmgr_delEntry_def)
qed

section \<open>Examples\<close>

definition blank_pte :: pte where
  "blank_pte = \<lparr>rsv0 = 0, AVA = 0, SW = False, R2 = False, LRU = 0, lbit = False, hbit = False, vbit = False,
     pp0 = False, TS = False, key0_1 = 0, bsize = 0, rsv1 = False, PN = 0, key2_4 = 0, rbit = False, cbit = False,
     WIMG = 0, nbit = False, pp1_2 = 0\<rparr>"

definition pt_example :: ptmgr where
  "pt_example = invalidatePT \<lparr>htaborg = PT_SIZE, ivIdleTaskPN = 18, ptab = (\<lambda>_. blank_pte), tlb = [], usage = []\<rparr>"

lemma pt_example_reach: "ptreach pt_example"
  unfolding pt_example_def by (rule pt_init) simp_all

lemma pt_example_empty: "translate pt_example va = None" "\<not> entry_for pt_example va a"
proof -
  let ?s = "\<lparr>htaborg = PT_SIZE, ivIdleTaskPN = 18, ptab = (\<lambda>_. blank_pte), tlb = [], usage = []\<rparr>"
  show "translate pt_example va = None" unfolding pt_example_def by (rule invalidatePT_inv(2)) simp_all
  show "\<not> entry_for pt_example va a"
    using invalidatePT_slot [of ?s a] unfolding pt_example_def entry_for_def by auto
qed

lemma pt_example_mapped:
  "\<exists>s x. ptmgr_addEntry blank_pte 0x40000123 7 WRITABLE pt_example = Inr s \<and> ptreach s
     \<and> translate s 0x40000FFF = Some x \<and> fst x = 7"
proof -
  have pg: "page_addr 0x40000FFF = page_addr 0x40000123" by (simp add: page_addr_def)
  obtain s x where s: "ptmgr_addEntry blank_pte 0x40000123 7 WRITABLE pt_example = Inr s" "entry_data 7 WRITABLE x"
    "\<forall>w. translate s w = (if page_addr w = page_addr 0x40000123 then Some x
          else if \<exists>a. victim pt_example 0x40000123 = Some a \<and> va_at pt_example a = page_addr w then None
          else translate pt_example w)"
    using addEntry_effect [OF ptreach_inv [OF pt_example_reach], where va = "0x40000123" and page = 7 and junk = blank_pte
        and t = WRITABLE] pt_example_empty(1) by auto
  have "fst x = 7" using s(2) by (auto simp: entry_data_def xlate_of_def)
  then show ?thesis using s pg pt_add [OF pt_example_reach s(1)] by (intro exI [of _ s] exI [of _ x]) simp
qed

lemma walk_caches: "translate s va = Some x \<Longrightarrow> (drop_bit 12 va, x) \<in> set (tlb (hw_walk va s))"
  by (auto simp: translate_def hw_walk_def split: option.splits)

theorem cached_translations_current_witness:
  "\<exists>s x. ptreach s \<and> (0x40000, x) \<in> set (tlb s) \<and> translate s 0x40000000 = Some x"
proof -
  obtain s x where s: "ptreach s" "translate s 0x40000FFF = Some x" using pt_example_mapped by blast
  have c: "(0x40000, x) \<in> set (tlb (hw_walk 0x40000FFF s))" using walk_caches [OF s(2)] by simp
  moreover have r: "ptreach (hw_walk 0x40000FFF s)" by (rule pt_walk [OF s(1)])
  moreover have "translate (hw_walk 0x40000FFF s) 0x40000000 = Some x"
    using cached_translations_current [OF r] c by fastforce
  ultimately show ?thesis by blast
qed

theorem addEntry_exact_witness:
  "\<exists>s' x. ptmgr_addEntry blank_pte 0x40000123 7 WRITABLE pt_example = Inr s' \<and> entry_data 7 WRITABLE x
     \<and> translate s' 0x40000FFF = Some x"
proof -
  have pg: "page_addr 0x40000FFF = page_addr 0x40000123" by (simp add: page_addr_def)
  from addEntry_exact [OF pt_example_reach, where va = "0x40000123" and page = 7 and junk = blank_pte and t = WRITABLE]
    pt_example_empty(1)
  obtain s' x where "ptmgr_addEntry blank_pte 0x40000123 7 WRITABLE pt_example = Inr s'" "entry_data 7 WRITABLE x"
    "\<forall>w. translate s' w = (if page_addr w = page_addr 0x40000123 then Some x
          else if \<exists>a. victim pt_example 0x40000123 = Some a \<and> va_at pt_example a = page_addr w then None
          else translate pt_example w)" by auto
  with pg show ?thesis by (intro exI [of _ s'] exI [of _ x]) simp
qed

theorem removal_exact_witness:
  "\<exists>s s' x. translate s 0x40000FFF = Some x \<and> ptmgr_delRangePN 7 7 s = Inr s' \<and> translate s' 0x40000FFF = None"
proof -
  obtain s x where s: "ptreach s" "translate s 0x40000FFF = Some x" "fst x = 7" using pt_example_mapped by blast
  from removal_exact [OF s(1), of 0 7 7] obtain s' where s': "ptmgr_delRangePN 7 7 s = Inr s'"
    "\<forall>w. translate s' w = (case translate s w of None \<Rightarrow> None | Some x \<Rightarrow> if in_range 7 7 x then None else Some x)"
    by blast
  have "in_range 7 7 x" by (simp add: in_range_def s(3))
  with s' s(2) show ?thesis by (intro exI [of _ s] exI [of _ s'] exI [of _ x]) simp
qed

theorem status_of_removed_witness:
  "\<exists>s s' st. ptmgr_delEntry 0x40000FFF s = Inr s' \<and> ptmgr_getStatus s' 0x40000FFF = Inr (st, 7)
     \<and> st AND status_bit PTE_VALID = 0"
proof -
  obtain s x where s: "ptreach s" "translate s 0x40000FFF = Some x" "fst x = 7" using pt_example_mapped by blast
  from status_of_removed [OF s(1,2)] s(3) show ?thesis by auto
qed

theorem addEntry_writes_uninitialised_witness:
  "\<exists>s1 s2. ptmgr_addEntry (blank_pte\<lparr>R2 := True\<rparr>) 0x40000123 7 WRITABLE pt_example = Inr s1
     \<and> ptmgr_delEntry 0x40000123 s1 = Inr s2 \<and> us_R (snd (last (usage s2)))"
  using addEntry_writes_uninitialised [OF pt_example_reach pt_example_empty(2), where junk = "blank_pte\<lparr>R2 := True\<rparr>"
      and va = "0x40000123" and page = 7 and t = WRITABLE]
  by auto

end
