(* ===== verification/Vm_Block.thy ===== *)
theory Vm_Block
  imports Messages Page_Table Page_Manager
begin

text \<open>
  Blocks of virtual memory, \<open>kernel/block.C\<close>, \<open>include/kernel/spte.H\<close> and \<open>kernel/blockmsghdlr.C\<close>. A
  block is a range of virtual addresses with a shadow page table, from which the hardware table of
  \<open>Page_Table\<close> is filled on demand. Pages come from the \<open>Page_Manager\<close>; a block backed by a resource
  provider sends messages for pages to be read and written back. The record \<open>vmm\<close> is the state of
  all of virtual memory, because blocks, the base segment and the page table call each other. All
  operations run under the lock of the virtual memory manager.
\<close>

section \<open>Shadow page table entries\<close>

record spte =
  sp_page :: "20 word"
  sp_present :: bool
  sp_readable :: bool
  sp_writable :: bool
  sp_executable :: bool
  sp_track_write :: bool
  sp_dirty :: bool
  sp_allocate_from_zero :: bool
  sp_last_access :: "3 word"
  sp_reserved :: "2 word"

definition spte_init :: spte where
  "spte_init = \<lparr>sp_page = 0, sp_present = False, sp_readable = False, sp_writable = False,
     sp_executable = False, sp_track_write = False, sp_dirty = False, sp_allocate_from_zero = False,
     sp_last_access = 0, sp_reserved = 0\<rparr>"

definition getPageAddr :: "spte \<Rightarrow> u32" where
  "getPageAddr q = push_bit 12 (ucast (sp_page q))"

definition setPageAddr :: "u32 \<Rightarrow> spte \<Rightarrow> spte" where
  "setPageAddr i_page q = q\<lparr>sp_page := ucast (drop_bit 12 i_page)\<rparr>"

definition incLRU :: "spte \<Rightarrow> spte" where
  "incLRU q = (if sp_last_access q < 0b111 then q\<lparr>sp_last_access := sp_last_access q + 1\<rparr> else q)"

definition zeroLRU :: "spte \<Rightarrow> spte" where
  "zeroLRU q = q\<lparr>sp_last_access := 0\<rparr>"

section \<open>State\<close>

text \<open>The write handler's lists of outstanding messages per task and of pages being written.\<close>

record write_hdlr =
  iv_msgGrpList :: "(addr \<times> u64) list"
  iv_va2paList :: "(u64 \<times> u64) list"

record block =
  iv_baseAddr :: u64
  iv_size :: u64
  iv_ptes :: "spte list"
  iv_readMsgHdlr :: bool
  iv_writeMsgHdlr :: "write_hdlr option"
  iv_mappedToPhysical :: bool

record devSegData =
  dv_addr :: u64
  dv_no_ci :: bool
  dv_guarded :: bool
  dv_size :: "62 word"

record device_segment =
  iv_baseAddress :: u64
  iv_mmioMap :: "devSegData list"

datatype segment = BaseSegment | StackSegment | DeviceSegment device_segment

datatype mm_msg_type = MSG_MM_RP_READ | MSG_MM_RP_WRITE

record mm_msg =
  mm_block :: addr
  mm_type :: mm_msg_type
  mm_va :: u64
  mm_page :: u64
  mm_task :: "addr option"

text \<open>
  The block objects live at addresses in \<open>blk\<close>; the blocks linked through \<open>iv_nextBlock\<close> from the base
  segment's first one are \<open>base_chain\<close>, and \<open>iv_blockList\<close> is the list of the stack segment. \<open>hrmor\<close> is
  the offset register, \<open>hbCacheSize\<close> the size of the cache as the boot loader reports it, \<open>ram\<close> the
  contents of memory, and \<open>sent\<close> are the calls of \<open>MessageHandler::sendMessage\<close>, in order.
\<close>

record vmm =
  hrmor :: u64
  hbCacheSize :: u64
  blk :: "addr \<Rightarrow> block"
  base_chain :: "addr list"
  iv_physMemSize :: u64
  iv_blockList :: "(u64 \<times> addr) list"
  iv_segments :: "segment option list"
  ptm :: ptmgr
  pgm :: pagemgr
  ram :: "addr \<Rightarrow> u8"
  sent :: "mm_msg list"
  cv_ro_evict_req :: u32
  cv_rw_evict_req :: u32

definition EALREADY :: int where
  "EALREADY = 114"

definition WRITE_TRACKED :: u64 where
  "WRITE_TRACKED = 8"

definition ALLOCATE_FROM_ZERO :: u64 where
  "ALLOCATE_FROM_ZERO = 0x10"

definition page_size :: u64 where
  "page_size = 0x1000"

definition ALIGN_PAGE_UP :: "u64 \<Rightarrow> u64" where
  "ALIGN_PAGE_UP u = (u + (page_size - 1)) AND NOT (page_size - 1)"

definition ALIGN_PAGE_DOWN :: "u64 \<Rightarrow> u64" where
  "ALIGN_PAGE_DOWN u = u - u mod page_size"

text \<open>
  The addresses a loop \<open>for (a = va; a < fin; a += PAGESIZE)\<close> runs through. The bounds of all such
  loops are page aligned, or far from the end of the address space, so the addition does not wrap.
\<close>

function page_list :: "u64 \<Rightarrow> u64 \<Rightarrow> u64 list" where
  "page_list va fin =
     (if va < fin then va # (if va < va + page_size then page_list (va + page_size) fin else []) else [])"
  by pat_completeness auto
termination
  by (relation "measure (\<lambda>(va, fin). unat fin - unat va)") (auto simp: word_less_nat_alt)

declare page_list.simps [simp del]

text \<open>A loop whose body can fail.\<close>

fun sfold :: "('a \<Rightarrow> 's \<Rightarrow> kerror + 's) \<Rightarrow> 'a list \<Rightarrow> 's \<Rightarrow> kerror + 's" where
  "sfold f [] s = Inr s"
| "sfold f (x # xs) s = sbind (f x s) (sfold f xs)"

section \<open>Blocks\<close>

definition isContained :: "block \<Rightarrow> u64 \<Rightarrow> bool" where
  "isContained b i_addr \<longleftrightarrow> i_addr \<ge> iv_baseAddr b \<and> i_addr < iv_baseAddr b + iv_size b"

definition Block_init :: "u64 \<Rightarrow> u64 \<Rightarrow> bool \<Rightarrow> bool \<Rightarrow> block" where
  "Block_init i_baseAddr i_size has_msgQ i_mappedToPhy =
     \<lparr>iv_baseAddr = i_baseAddr, iv_size = i_size, iv_ptes = replicate (unat (i_size div page_size)) spte_init,
      iv_readMsgHdlr = has_msgQ,
      iv_writeMsgHdlr = (if has_msgQ then Some \<lparr>iv_msgGrpList = [], iv_va2paList = []\<rparr> else None),
      iv_mappedToPhysical = i_mappedToPhy\<rparr>"

text \<open>The index of the entry of an address; the array has no other elements.\<close>

definition getPTE :: "block \<Rightarrow> u64 \<Rightarrow> kerror + nat" where
  "getPTE b i_addr =
     (let i = unat ((i_addr - iv_baseAddr b) div page_size)
      in if i < length (iv_ptes b) then Inr i else Inl OutOfBounds)"

definition spte_at :: "vmm \<Rightarrow> addr \<Rightarrow> nat \<Rightarrow> spte" where
  "spte_at s p i = iv_ptes (blk s p) ! i"

definition upd_spte :: "addr \<Rightarrow> nat \<Rightarrow> (spte \<Rightarrow> spte) \<Rightarrow> vmm \<Rightarrow> vmm" where
  "upd_spte p i f s = s\<lparr>blk := (blk s)(p := (blk s p)\<lparr>iv_ptes := (iv_ptes (blk s p))[i := f (spte_at s p i)]\<rparr>)\<rparr>"

text \<open>
  Every operation on a chain first looks for the block that contains its address: a block that
  does not passes the call on to the next one.
\<close>

fun find_block :: "vmm \<Rightarrow> addr list \<Rightarrow> u64 \<Rightarrow> addr option" where
  "find_block s [] i_addr = None"
| "find_block s (p # ps) i_addr = (if isContained (blk s p) i_addr then Some p else find_block s ps i_addr)"

definition Block_updateRefCount :: "addr list \<Rightarrow> u64 \<Rightarrow> usage_stats \<Rightarrow> vmm \<Rightarrow> kerror + vmm" where
  "Block_updateRefCount blocks i_vaddr i_stats s =
     (case find_block s blocks i_vaddr of
        None \<Rightarrow> Inl KAssert
      | Some p \<Rightarrow>
          sbind (getPTE (blk s p) i_vaddr) (\<lambda>i.
            Inr (upd_spte p i (if us_R i_stats then zeroLRU else incLRU) s)))"

section \<open>The page table's callers and its call back\<close>

definition MAX_SEGMENTS :: nat where
  "MAX_SEGMENTS = 16"

definition SLBE_s :: nat where
  "SLBE_s = 40"

definition getSegmentIdFromAddress :: "u64 \<Rightarrow> nat" where
  "getSegmentIdFromAddress i_addr = unat (drop_bit SLBE_s i_addr)"

definition segment_of :: "vmm \<Rightarrow> u64 \<Rightarrow> segment option" where
  "segment_of s i_addr =
     (let segId = getSegmentIdFromAddress i_addr
      in if segId < MAX_SEGMENTS then iv_segments s ! segId else None)"

definition SegmentManager_updateRefCount :: "u64 \<Rightarrow> usage_stats \<Rightarrow> vmm \<Rightarrow> kerror + vmm" where
  "SegmentManager_updateRefCount i_vaddr i_stats s =
     (case segment_of s i_vaddr of
        Some BaseSegment \<Rightarrow> Block_updateRefCount (base_chain s) i_vaddr i_stats s
      | _ \<Rightarrow> Inr s)"

text \<open>
  The page table manager reports the use of an entry it removes to the segment manager. It keeps
  the reports in \<open>usage\<close>; here they are delivered.
\<close>

definition pt_call :: "(ptmgr \<Rightarrow> kerror + ptmgr) \<Rightarrow> vmm \<Rightarrow> kerror + vmm" where
  "pt_call f s =
     sbind (f ((ptm s)\<lparr>usage := []\<rparr>)) (\<lambda>t.
       sfold (\<lambda>(va, st). SegmentManager_updateRefCount va st) (usage t) (s\<lparr>ptm := t\<lparr>usage := []\<rparr>\<rparr>))"

definition vm_delEntry :: "u64 \<Rightarrow> vmm \<Rightarrow> kerror + vmm" where
  "vm_delEntry i_vAddr s = pt_call (ptmgr_delEntry i_vAddr) s"

definition vm_addEntry :: "pte \<Rightarrow> u64 \<Rightarrow> u64 \<Rightarrow> u64 \<Rightarrow> vmm \<Rightarrow> kerror + vmm" where
  "vm_addEntry junk i_vAddr i_page i_accessType s = pt_call (addEntry (hrmor s) junk i_vAddr i_page i_accessType) s"

section \<open>Permissions\<close>

definition getPermission :: "spte \<Rightarrow> u64" where
  "getPermission q =
     (if \<not> sp_readable q \<and> \<not> sp_executable q \<and> \<not> sp_writable q \<and> \<not> sp_allocate_from_zero q \<and> \<not> sp_track_write q
      then NO_ACCESS
      else if sp_readable q \<and> \<not> sp_executable q \<and> \<not> sp_writable q then READ_ONLY
      else (if sp_writable q then WRITABLE else 0) OR (if sp_executable q then EXECUTABLE else 0)
        OR (if sp_track_write q then WRITE_TRACKED else 0)
        OR (if sp_allocate_from_zero q then ALLOCATE_FROM_ZERO else 0))"

text \<open>
  \<open>setPermSPTE\<close> of a block with (\<open>has_wr\<close>) or without a write handler: the return code and the entry,
  which an error may leave partly changed.
\<close>

definition setPermSPTE :: "bool \<Rightarrow> u64 \<Rightarrow> spte \<Rightarrow> int \<times> spte" where
  "setPermSPTE has_wr t q =
     (if t AND READ_ONLY \<noteq> 0 \<and> (t AND WRITABLE \<noteq> 0 \<or> t AND EXECUTABLE \<noteq> 0 \<or> t AND WRITE_TRACKED \<noteq> 0
           \<or> t AND ALLOCATE_FROM_ZERO \<noteq> 0)
      then (- EINVAL, q)
      else if t AND READ_ONLY = 0 \<and> t AND WRITABLE \<noteq> 0 \<and> t AND EXECUTABLE \<noteq> 0 then (- EINVAL, q)
      else
        let q1 = (if t AND READ_ONLY \<noteq> 0 then q\<lparr>sp_readable := True, sp_executable := False, sp_writable := False\<rparr>
                  else if t AND WRITABLE \<noteq> 0 then q\<lparr>sp_readable := True, sp_writable := True, sp_executable := False\<rparr>
                  else if t AND EXECUTABLE \<noteq> 0 then q\<lparr>sp_readable := True, sp_executable := True, sp_writable := False\<rparr>
                  else q)
        in if t AND WRITE_TRACKED \<noteq> 0 \<and> (getPermission q1 = READ_ONLY \<or> \<not> has_wr) then (- EINVAL, q1)
           else
             let q2 = q1\<lparr>sp_track_write := (t AND WRITE_TRACKED \<noteq> 0)\<rparr>
             in if t AND ALLOCATE_FROM_ZERO \<noteq> 0 \<and> getPermission q2 = READ_ONLY then (- EINVAL, q2)
                else
                  let q3 = q2\<lparr>sp_allocate_from_zero := (t AND ALLOCATE_FROM_ZERO \<noteq> 0)\<rparr>
                  in (0, if t AND NO_ACCESS \<noteq> 0
                         then q3\<lparr>sp_readable := False, sp_executable := False, sp_writable := False,
                                 sp_allocate_from_zero := False, sp_track_write := False\<rparr>
                         else q3))"

definition set_perm :: "addr \<Rightarrow> nat \<Rightarrow> u64 \<Rightarrow> vmm \<Rightarrow> int \<times> vmm" where
  "set_perm p i t s =
     (let (rc, q) = setPermSPTE (iv_writeMsgHdlr (blk s p) \<noteq> None) t (spte_at s p i)
      in (rc, upd_spte p i (\<lambda>_. q) s))"

fun perm_loop :: "addr \<Rightarrow> u64 \<Rightarrow> u64 list \<Rightarrow> vmm \<Rightarrow> kerror + int \<times> vmm" where
  "perm_loop p t [] s = Inr (0, s)"
| "perm_loop p t (va # vas) s =
     sbind (getPTE (blk s p) va) (\<lambda>i.
     sbind (if sp_present (spte_at s p i) then vm_delEntry va s else Inr s) (\<lambda>s1.
       let (rc, s2) = set_perm p i t s1
       in if rc \<noteq> 0 then Inr (- EINVAL, s2) else perm_loop p t vas s2))"

definition Block_mmSetPermission :: "addr list \<Rightarrow> u64 \<Rightarrow> u64 \<Rightarrow> u64 \<Rightarrow> vmm \<Rightarrow> kerror + int \<times> vmm" where
  "Block_mmSetPermission blocks i_va i_size i_access_type s =
     (let l_aligned_va = ALIGN_PAGE_DOWN i_va; l_aligned_size = ALIGN_PAGE_UP i_size
      in case find_block s blocks l_aligned_va of
           None \<Rightarrow> Inr (- EINVAL, s)
         | Some p \<Rightarrow>
             let l_aligned_size = (if i_size = 0 then l_aligned_size + page_size else l_aligned_size)
             in perm_loop p i_access_type (page_list l_aligned_va (l_aligned_va + l_aligned_size)) s)"

definition BaseSegment_mmSetPermission :: "u64 \<Rightarrow> u64 \<Rightarrow> u64 \<Rightarrow> vmm \<Rightarrow> kerror + int \<times> vmm" where
  "BaseSegment_mmSetPermission i_va i_size i_access_type s =
     Block_mmSetPermission (base_chain s) i_va i_size i_access_type s"

section \<open>Page faults\<close>

definition send_msg :: "addr \<Rightarrow> mm_msg_type \<Rightarrow> u64 \<Rightarrow> u64 \<Rightarrow> addr option \<Rightarrow> vmm \<Rightarrow> vmm" where
  "send_msg p ty va pg task s =
     s\<lparr>sent := sent s @ [\<lparr>mm_block = p, mm_type = ty, mm_va = va, mm_page = pg, mm_task = task\<rparr>]\<rparr>"

text \<open>The type of access with which a present page is entered into the hardware table.\<close>

definition accessType :: "block \<Rightarrow> spte \<Rightarrow> u64" where
  "accessType b q = (if iv_mappedToPhysical b then BYPASS_HRMOR else 0)
     OR (if sp_executable q then EXECUTABLE
         else if sp_writable q \<and> sp_dirty q then WRITABLE
         else READ_ONLY)"

definition add_page :: "pte \<Rightarrow> addr \<Rightarrow> nat \<Rightarrow> u64 \<Rightarrow> vmm \<Rightarrow> kerror + vmm" where
  "add_page junk p i va s =
     vm_addEntry junk va (ucast (sp_page (spte_at s p i))) (accessType (blk s p) (spte_at s p i)) s"

definition memset_page :: "addr \<Rightarrow> vmm \<Rightarrow> vmm" where
  "memset_page pg s = s\<lparr>ram := (\<lambda>a. if pg \<le> a \<and> a < pg + PAGESIZE then 0 else ram s a)\<rparr>"

text \<open>
  The result is whether the fault was handled, whether \<open>*o_oom\<close> was set, and the state; \<open>allowOom\<close> says
  that \<open>o_oom\<close> is not null. \<open>junk\<close> is the uninitialised variable of \<open>_addEntry\<close>.
\<close>

definition Block_handlePageFault ::
  "pte \<Rightarrow> addr list \<Rightarrow> addr option \<Rightarrow> u64 \<Rightarrow> bool \<Rightarrow> bool \<Rightarrow> vmm \<Rightarrow> kerror + bool \<times> bool \<times> vmm" where
  "Block_handlePageFault junk blocks i_task i_addr i_store allowOom s =
     (case find_block s blocks i_addr of
        None \<Rightarrow> Inr (False, False, s)
      | Some p \<Rightarrow>
          let l_addr_palign = i_addr div page_size * page_size
          in sbind (getPTE (blk s p) l_addr_palign) (\<lambda>i.
             let q = spte_at s p i
             in if getPermission q = NO_ACCESS then Inr (False, False, s)
                else if i_store \<and> \<not> sp_writable q then Inr (False, False, s)
                else
                  let s1 = (if i_store then upd_spte p i (\<lambda>q. q\<lparr>sp_dirty := True\<rparr>) s else s)
                  in if sp_present q then
                       sbind (add_page junk p i l_addr_palign s1) (\<lambda>s2. Inr (True, False, s2))
                     else if iv_readMsgHdlr (blk s p) then
                       if sp_page q = 0 then
                         sbind (pm_allocatePage 1 False allowOom (pgm s1)) (\<lambda>(pg, m).
                           if pg = NULL then Inr (False, True, s1\<lparr>pgm := m\<rparr>)
                           else Inr (True, False,
                             send_msg p MSG_MM_RP_READ l_addr_palign (of_nat pg) i_task
                               (upd_spte p i (setPageAddr (of_nat pg)) (s1\<lparr>pgm := m\<rparr>))))
                       else Inr (True, False,
                         send_msg p MSG_MM_RP_READ l_addr_palign (ucast (getPageAddr q)) i_task s1)
                     else if sp_allocate_from_zero q then
                       sbind (pm_allocatePage 1 False allowOom (pgm s1)) (\<lambda>(pg, m).
                         if pg = NULL then Inr (False, True, s1\<lparr>pgm := m\<rparr>)
                         else
                           sbind (BaseSegment_mmSetPermission (of_nat pg) 0 READ_ONLY (s1\<lparr>pgm := m\<rparr>)) (\<lambda>(_, s2).
                             sbind (add_page junk p i l_addr_palign
                                 (upd_spte p i (\<lambda>q. (setPageAddr (of_nat pg) q)\<lparr>sp_present := True\<rparr>) (memset_page pg s2)))
                               (\<lambda>s3. Inr (True, False, s3))))
                     else Inr (False, False, s1)))"

definition Block_setPhysicalPage :: "addr list \<Rightarrow> u64 \<Rightarrow> u64 \<Rightarrow> u64 \<Rightarrow> vmm \<Rightarrow> kerror + vmm" where
  "Block_setPhysicalPage blocks i_vAddr i_pAddr i_access s =
     (case find_block s blocks i_vAddr of
        None \<Rightarrow> Inl KAssert
      | Some p \<Rightarrow>
          sbind (getPTE (blk s p) i_vAddr) (\<lambda>i.
          sbind (if i_pAddr \<noteq> 0
                 then vm_delEntry i_vAddr (upd_spte p i (\<lambda>q. (setPageAddr (ucast i_pAddr) q)\<lparr>sp_present := True\<rparr>) s)
                 else if sp_present (spte_at s p i) then vm_delEntry i_vAddr s
                 else Inr s) (\<lambda>s1.
            let (rc, s2) = set_perm p i i_access s1
            in if rc \<noteq> 0 then Inl KAssert else Inr s2)))"

definition attachSPTE :: "pte \<Rightarrow> addr \<Rightarrow> u64 \<Rightarrow> vmm \<Rightarrow> kerror + vmm" where
  "attachSPTE junk p i_vaddr s =
     sbind (getPTE (blk s p) i_vaddr) (\<lambda>i.
       let s1 = upd_spte p i (\<lambda>q. q\<lparr>sp_present := True\<rparr>) s
       in sbind (add_page junk p i (i_vaddr div page_size * page_size) s1) (\<lambda>s2.
          sbind (BaseSegment_mmSetPermission (ucast (getPageAddr (spte_at s2 p i))) 0 READ_ONLY s2) (\<lambda>(_, s3).
            Inr s3)))"

definition Block_findPhysicalAddress :: "addr list \<Rightarrow> u64 \<Rightarrow> vmm \<Rightarrow> kerror + u64" where
  "Block_findPhysicalAddress blocks i_vaddr s =
     (case find_block s blocks i_vaddr of
        None \<Rightarrow> Inr (of_int (- EFAULT))
      | Some p \<Rightarrow>
          sbind (getPTE (blk s p) i_vaddr) (\<lambda>i.
            let q = spte_at s p i
            in if sp_present q \<and> sp_page q \<noteq> 0 then
                 let paddr = ucast (getPageAddr q) + i_vaddr mod page_size
                 in Inr (if iv_mappedToPhysical (blk s p) then paddr else paddr OR hrmor s)
               else Inr (of_int (- EFAULT))))"

section \<open>Releasing pages\<close>

datatype page_removal_op = RELEASE | FLUSH | EVICT

definition releaseSPTE :: "addr \<Rightarrow> nat \<Rightarrow> vmm \<Rightarrow> kerror + vmm" where
  "releaseSPTE p i s =
     (let s1 = upd_spte p i (\<lambda>q. q\<lparr>sp_dirty := False, sp_present := False\<rparr>) s
      in sbind (BaseSegment_mmSetPermission (ucast (getPageAddr (spte_at s1 p i))) 0 WRITABLE s1) (\<lambda>(_, s2).
           Inr (upd_spte p i (setPageAddr 0) s2)))"

definition vm_freePage :: "addr \<Rightarrow> vmm \<Rightarrow> kerror + vmm" where
  "vm_freePage pg s = sbind (pm_freePage pg 1 (pgm s)) (\<lambda>m. Inr (s\<lparr>pgm := m\<rparr>))"

definition release_page :: "addr \<Rightarrow> u64 \<Rightarrow> vmm \<Rightarrow> kerror + vmm" where
  "release_page p page s =
     sbind (getPTE (blk s p) page) (\<lambda>i.
       if sp_present (spte_at s p i) then
         sbind (vm_delEntry page s) (\<lambda>s1.
           let addr = getPageAddr (spte_at s1 p i)
           in if addr \<noteq> 0 then sbind (releaseSPTE p i s1) (vm_freePage (unat addr)) else Inr s1)
       else Inr s)"

definition releaseAllPages :: "addr \<Rightarrow> vmm \<Rightarrow> kerror + vmm" where
  "releaseAllPages p s =
     sfold (release_page p) (page_list (iv_baseAddr (blk s p)) (iv_baseAddr (blk s p) + iv_size (blk s p))) s"

definition upd_whdlr :: "addr \<Rightarrow> (write_hdlr \<Rightarrow> write_hdlr) \<Rightarrow> vmm \<Rightarrow> vmm" where
  "upd_whdlr p f s = s\<lparr>blk := (blk s)(p := (blk s p)\<lparr>iv_writeMsgHdlr := map_option f (iv_writeMsgHdlr (blk s p))\<rparr>)\<rparr>"

text \<open>The lists insert at the head, find the first node with a key and erase that node.\<close>

fun alist_set :: "'k \<Rightarrow> 'v \<Rightarrow> ('k \<times> 'v) list \<Rightarrow> ('k \<times> 'v) list" where
  "alist_set k v [] = []"
| "alist_set k v (x # xs) = (if fst x = k then (k, v) # xs else x # alist_set k v xs)"

fun alist_erase :: "'k \<Rightarrow> ('k \<times> 'v) list \<Rightarrow> ('k \<times> 'v) list" where
  "alist_erase k [] = []"
| "alist_erase k (x # xs) = (if fst x = k then xs else x # alist_erase k xs)"

definition incMsgCount :: "addr \<Rightarrow> write_hdlr \<Rightarrow> write_hdlr" where
  "incMsgCount i_task h =
     (case map_of (iv_msgGrpList h) i_task of
        None \<Rightarrow> h\<lparr>iv_msgGrpList := (i_task, 1) # iv_msgGrpList h\<rparr>
      | Some n \<Rightarrow> h\<lparr>iv_msgGrpList := alist_set i_task (n + 1) (iv_msgGrpList h)\<rparr>)"

definition addVirtAddr :: "u64 \<Rightarrow> u64 \<Rightarrow> write_hdlr \<Rightarrow> write_hdlr" where
  "addVirtAddr i_vaddr i_pgAddr h = h\<lparr>iv_va2paList := (i_vaddr, i_pgAddr) # iv_va2paList h\<rparr>"

definition remove_page :: "page_removal_op \<Rightarrow> addr \<Rightarrow> addr option \<Rightarrow> u64 \<Rightarrow> vmm \<Rightarrow> kerror + vmm" where
  "remove_page i_op p i_task l_vaddr s =
     sbind (getPTE (blk s p) l_vaddr) (\<lambda>i.
       let pageAddr = getPageAddr (spte_at s p i)
       in if sp_present (spte_at s p i) \<and> pageAddr \<noteq> 0 then
            sbind (vm_delEntry l_vaddr s) (\<lambda>s1.
              let q = spte_at s1 p i
              in if sp_dirty q \<and> sp_track_write q \<and> iv_writeMsgHdlr (blk s1 p) \<noteq> None then
                   sbind (releaseSPTE p i s1) (\<lambda>s2.
                     Inr (send_msg p MSG_MM_RP_WRITE l_vaddr (ucast pageAddr) i_task
                       (upd_whdlr p (addVirtAddr l_vaddr (ucast pageAddr))
                         (case i_task of None \<Rightarrow> s2 | Some t \<Rightarrow> upd_whdlr p (incMsgCount t) s2))))
                 else if sp_dirty q \<and> \<not> sp_track_write q \<and> i_op = EVICT then Inr s1
                 else if i_op \<noteq> FLUSH then sbind (releaseSPTE p i s1) (vm_freePage (unat pageAddr))
                 else Inr s1)
          else Inr s)"

definition Block_removePages :: "page_removal_op \<Rightarrow> addr list \<Rightarrow> u64 \<Rightarrow> u64 \<Rightarrow> addr option \<Rightarrow> vmm \<Rightarrow> kerror + int \<times> vmm" where
  "Block_removePages i_op blocks i_vaddr i_size i_task s =
     (let l_aligned_va = ALIGN_PAGE_DOWN i_vaddr;
          l_aligned_size = ALIGN_PAGE_UP (i_size + i_vaddr mod page_size)
      in case find_block s blocks l_aligned_va of
           None \<Rightarrow> Inr (- EINVAL, s)
         | Some p \<Rightarrow>
             if l_aligned_va + l_aligned_size > iv_baseAddr (blk s p) + iv_size (blk s p) then Inr (- EINVAL, s)
             else
               sbind (sfold (remove_page i_op p i_task) (page_list l_aligned_va (l_aligned_va + l_aligned_size)) s)
                 (\<lambda>s1. Inr (0, s1)))"

text \<open>
  Casting out: the blocks behind this one first, then this one unless it is the base block or the
  extended memory. \<open>aggressive\<close> is the configuration option, \<open>critical\<close> the type of the cast out.
\<close>

definition cast_page :: "3 word \<Rightarrow> 3 word \<Rightarrow> addr list \<Rightarrow> u64 \<Rightarrow> vmm \<Rightarrow> kerror + vmm" where
  "cast_page rw_constraint ro_constraint blocks page s =
     (let p = hd blocks
      in sbind (getPTE (blk s p) page) (\<lambda>i.
         let q = spte_at s p i
         in if sp_present q \<and> getPageAddr q \<noteq> 0 then
              if sp_writable q then
                if sp_last_access q > rw_constraint \<and> sp_track_write q then
                  sbind (Block_removePages EVICT blocks page page_size None s) (\<lambda>(_, s1).
                    Inr (s1\<lparr>cv_rw_evict_req := cv_rw_evict_req s1 + 1\<rparr>))
                else Inr s
              else if sp_last_access q > ro_constraint then
                sbind (Block_removePages EVICT blocks page page_size None s) (\<lambda>(_, s1).
                  Inr (s1\<lparr>cv_ro_evict_req := cv_ro_evict_req s1 + 1\<rparr>))
              else Inr s
            else Inr s))"

fun Block_castOutPages :: "bool \<Rightarrow> bool \<Rightarrow> addr list \<Rightarrow> vmm \<Rightarrow> kerror + vmm" where
  "Block_castOutPages aggressive critical [] s = Inr s"
| "Block_castOutPages aggressive critical (p # ps) s =
     sbind (Block_castOutPages aggressive critical ps s) (\<lambda>s1.
       let b = blk s1 p; low = (aggressive \<or> critical)
       in if iv_baseAddr b \<noteq> 0 \<and> iv_baseAddr b \<noteq> hbCacheSize s1 then
            sfold (cast_page (if low then 2 else 5) (if low then 1 else 6) (p # ps))
              (page_list (iv_baseAddr b) (iv_baseAddr b + iv_size b)) s1
          else Inr s1)"

section \<open>Responses of the resource provider\<close>

definition read_handleResponse :: "pte \<Rightarrow> addr \<Rightarrow> u64 \<Rightarrow> int \<Rightarrow> vmm \<Rightarrow> kerror + HandleResult \<times> vmm" where
  "read_handleResponse junk p i_key i_rc s =
     (if i_rc \<noteq> 0 then Inr (UNHANDLED_RC, s)
      else sbind (attachSPTE junk p i_key s) (\<lambda>s1. Inr (SUCCESS, s1)))"

definition write_handleResponse :: "addr \<Rightarrow> u64 \<Rightarrow> addr option \<Rightarrow> int \<Rightarrow> vmm \<Rightarrow> kerror + HandleResult \<times> vmm" where
  "write_handleResponse p i_key i_task i_rc s =
     (if i_rc \<noteq> 0 then Inr (UNHANDLED_RC, s)
      else case iv_writeMsgHdlr (blk s p) of
        None \<Rightarrow> Inl NullDeref
      | Some h \<Rightarrow>
          sbind (case map_of (iv_va2paList h) i_key of
                   None \<Rightarrow> Inr (UNHANDLED_RC, s)
                 | Some pageAddr \<Rightarrow>
                     sbind (vm_freePage (unat pageAddr) s) (\<lambda>s1.
                       Inr (SUCCESS, upd_whdlr p (\<lambda>h. h\<lparr>iv_va2paList := alist_erase i_key (iv_va2paList h)\<rparr>) s1)))
            (\<lambda>(l_result, s1).
              case i_task of
                None \<Rightarrow> Inr (l_result, s1)
              | Some t \<Rightarrow>
                  (case map_of (iv_msgGrpList h) t of
                     None \<Rightarrow> Inr (l_result, s1)
                   | Some n \<Rightarrow>
                       if n = 1
                       then Inr (SUCCESS, upd_whdlr p (\<lambda>h. h\<lparr>iv_msgGrpList := alist_erase t (iv_msgGrpList h)\<rparr>) s1)
                       else Inr (CONTINUE_DEFER, upd_whdlr p (\<lambda>h. h\<lparr>iv_msgGrpList := alist_set t (n - 1) (iv_msgGrpList h)\<rparr>) s1))))"

end
