(* ===== verification/Vm_Segments.thy ===== *)
theory Vm_Segments
  imports Vm_Block
begin

text \<open>
  The segments of the address space and their managers: \<open>kernel/basesegment.C\<close> (linear memory and the
  blocks made by system calls), \<open>kernel/stacksegment.C\<close> (one block for the stack of each task),
  \<open>kernel/devicesegment.C\<close> (windows onto device memory), \<open>kernel/segmentmgr.C\<close> and \<open>kernel/vmmmgr.C\<close>.
\<close>

section \<open>Device segments\<close>

definition MMIO_MAP_DEVICES :: nat where
  "MMIO_MAP_DEVICES = 32"

definition segment_size :: u64 where
  "segment_size = push_bit SLBE_s 1"

definition window_size :: u64 where
  "window_size = segment_size div of_nat MMIO_MAP_DEVICES"

definition THIRTYTWO_GB :: u64 where
  "THIRTYTWO_GB = 32 * 1024 * 1024 * 1024"

definition DeviceSegment_new :: "nat \<Rightarrow> device_segment" where
  "DeviceSegment_new segId = \<lparr>iv_baseAddress = of_nat segId * segment_size,
     iv_mmioMap = replicate MMIO_MAP_DEVICES \<lparr>dv_addr = 0, dv_no_ci = False, dv_guarded = False, dv_size = 0\<rparr>\<rparr>"

text \<open>The check that an address is in the segment, and the window it is in.\<close>

definition dev_contains :: "device_segment \<Rightarrow> u64 \<Rightarrow> bool" where
  "dev_contains d ea \<longleftrightarrow> \<not> (ea < iv_baseAddress d \<or> ea \<ge> iv_baseAddress d + segment_size)"

definition dev_idx :: "device_segment \<Rightarrow> u64 \<Rightarrow> nat" where
  "dev_idx d ea = unat ((ea - iv_baseAddress d) div window_size)"

definition DeviceSegment_handlePageFault :: "pte \<Rightarrow> device_segment \<Rightarrow> u64 \<Rightarrow> vmm \<Rightarrow> kerror + bool \<times> vmm" where
  "DeviceSegment_handlePageFault junk d i_addr s =
     (if \<not> dev_contains d i_addr then Inr (False, s)
      else
        let idx = dev_idx d i_addr; m = iv_mmioMap d ! idx;
            device_offset = i_addr - iv_baseAddress d - of_nat idx * segment_size div of_nat MMIO_MAP_DEVICES
        in if device_offset \<ge> ucast (dv_size m) then Inr (False, s)
           else
             sbind (vm_addEntry junk (i_addr div page_size * page_size) ((dv_addr m + device_offset) div page_size)
                 (if dv_no_ci m then BYPASS_HRMOR OR WRITABLE OR (if dv_guarded m then GUARDED else 0) else CI_ACCESS) s)
               (\<lambda>s1. Inr (True, s1)))"

fun free_slot :: "nat \<Rightarrow> devSegData list \<Rightarrow> nat option" where
  "free_slot i [] = None"
| "free_slot i (m # ms) = (if dv_addr m = 0 \<and> dv_size m = 0 then Some i else free_slot (Suc i) ms)"

definition DeviceSegment_devMap :: "u64 \<Rightarrow> u64 \<Rightarrow> bool \<Rightarrow> bool \<Rightarrow> device_segment \<Rightarrow> u64 \<times> device_segment" where
  "DeviceSegment_devMap ra i_devDataSize i_nonCI i_guarded d =
     (if i_devDataSize \<le> THIRTYTWO_GB then
        (case free_slot 0 (iv_mmioMap d) of
           None \<Rightarrow> (0, d)
         | Some i \<Rightarrow>
             (of_nat i * window_size + iv_baseAddress d,
              d\<lparr>iv_mmioMap := (iv_mmioMap d)[i := \<lparr>dv_addr = ra, dv_no_ci = i_nonCI, dv_guarded = i_guarded,
                                                dv_size = ucast i_devDataSize\<rparr>]\<rparr>))
      else (0, d))"

definition set_segment :: "nat \<Rightarrow> segment \<Rightarrow> vmm \<Rightarrow> vmm" where
  "set_segment k g s = s\<lparr>iv_segments := (iv_segments s)[k := Some g]\<rparr>"

text \<open>\<open>k\<close> is the id under which the segment \<open>d\<close> is registered.\<close>

definition DeviceSegment_devUnmap :: "nat \<Rightarrow> device_segment \<Rightarrow> u64 \<Rightarrow> vmm \<Rightarrow> kerror + int \<times> vmm" where
  "DeviceSegment_devUnmap k d ea s =
     (if \<not> dev_contains d ea then Inr (- EINVAL, s)
      else
        let idx = dev_idx d ea; m = iv_mmioMap d ! idx
        in if dv_addr m \<noteq> 0 \<or> dv_size m \<noteq> 0 then
             sbind (pt_call (delRangePN (hrmor s) (dv_addr m div page_size)
                 ((dv_addr m + ucast (dv_size m)) div page_size) False) s) (\<lambda>s1.
               Inr (0, set_segment k (DeviceSegment (d\<lparr>iv_mmioMap := (iv_mmioMap d)[idx :=
                 m\<lparr>dv_addr := 0, dv_size := 0, dv_guarded := False\<rparr>]\<rparr>)) s1))
           else Inr (- EINVAL, s))"

definition DeviceSegment_findPhysicalAddress :: "device_segment \<Rightarrow> u64 \<Rightarrow> u64" where
  "DeviceSegment_findPhysicalAddress d i_vaddr =
     (if \<not> dev_contains d i_vaddr then of_int (- EFAULT)
      else
        let idx = dev_idx d i_vaddr; m = iv_mmioMap d ! idx
        in if dv_addr m \<noteq> 0 \<or> dv_size m \<noteq> 0
           then dv_addr m + (i_vaddr - iv_baseAddress d - of_nat idx * window_size)
           else of_int (- EFAULT))"

section \<open>Base segment\<close>

definition VMM_MEMORY_SIZE :: u64 where
  "VMM_MEMORY_SIZE = 64 * 1024 * 1024"

definition new_block :: "addr \<Rightarrow> block \<Rightarrow> vmm \<Rightarrow> vmm" where
  "new_block p b s = s\<lparr>blk := (blk s)(p := b)\<rparr>"

definition addSegment :: "segment \<Rightarrow> nat \<Rightarrow> vmm \<Rightarrow> kerror + vmm" where
  "addSegment i_segment i_segId s =
     (if \<not> i_segId < MAX_SEGMENTS then Inl KAssert else Inr (set_segment i_segId i_segment s))"

text \<open>
  \<open>_init\<close>, for the processors without \<open>CONFIG_VPO_COMPILE\<close>; \<open>data_load_address\<close> is the linker's start of
  the data pages and \<open>p\<close> the address of the new block.
\<close>

definition BaseSegment_init :: "addr \<Rightarrow> u64 \<Rightarrow> vmm \<Rightarrow> kerror + vmm" where
  "BaseSegment_init p data_load_address s =
     sbind (addSegment BaseSegment 0 s) (\<lambda>s1.
       let sz = hbCacheSize s1;
           s2 = (new_block p (Block_init 0 sz False False) s1)\<lparr>iv_physMemSize := sz, base_chain := [p]\<rparr>
       in sfold (\<lambda>i s. if i = 0 then Inr s
                      else Block_setPhysicalPage (base_chain s) i i
                             (if ALIGN_PAGE_DOWN data_load_address > i then EXECUTABLE else WRITABLE) s)
            (page_list 0 sz) s2)"

definition totalBlocksAlloc :: "vmm \<Rightarrow> u64" where
  "totalBlocksAlloc s = sum_list (map (\<lambda>p. iv_size (blk s p)) (base_chain s))"

definition mmAllocBlock :: "addr \<Rightarrow> bool \<Rightarrow> u64 \<Rightarrow> u64 \<Rightarrow> bool \<Rightarrow> vmm \<Rightarrow> kerror + int \<times> vmm" where
  "mmAllocBlock p has_mq l_vaddr i_size i_mappedToPhy s =
     (if l_vaddr \<ge> segment_size \<or> totalBlocksAlloc s + ALIGN_PAGE_UP i_size \<ge> segment_size
         \<or> l_vaddr \<noteq> ALIGN_PAGE_DOWN l_vaddr
      then Inr (- EINVAL, s)
      else if find_block s (base_chain s) l_vaddr \<noteq> None then Inr (- EALREADY, s)
      else Inr (0, (new_block p (Block_init l_vaddr (ALIGN_PAGE_UP i_size) has_mq i_mappedToPhy) s)
                     \<lparr>base_chain := base_chain s @ [p]\<rparr>))"

definition BaseSegment_findPhysicalAddress :: "u64 \<Rightarrow> vmm \<Rightarrow> kerror + u64" where
  "BaseSegment_findPhysicalAddress i_vaddr s =
     (if i_vaddr < iv_physMemSize s
      then if i_vaddr \<ge> page_size then Inr (i_vaddr OR hrmor s) else Inr (of_int (- EFAULT))
      else Block_findPhysicalAddress (base_chain s) i_vaddr s)"

text \<open>The base block, the first of the chain, is left out.\<close>

definition mmRemovePages :: "page_removal_op \<Rightarrow> u64 \<Rightarrow> u64 \<Rightarrow> addr option \<Rightarrow> vmm \<Rightarrow> kerror + int \<times> vmm" where
  "mmRemovePages i_op i_vaddr i_size i_task s =
     Block_removePages i_op (tl (base_chain s)) i_vaddr i_size i_task s"

definition set_linear :: "u64 \<Rightarrow> vmm \<Rightarrow> kerror + vmm" where
  "set_linear i s = Block_setPhysicalPage (base_chain s) i i WRITABLE s"

text \<open>
  \<open>_mmExtend\<close>. The shadow table of the new block lies in its own first pages, which are not given to
  the page manager. The report of the memory size in a scratch register is left out.
\<close>

definition mmExtend :: "addr \<Rightarrow> vmm \<Rightarrow> kerror + int \<times> vmm" where
  "mmExtend p s =
     (let l_vaddr = hbCacheSize s; l_size = VMM_MEMORY_SIZE - hbCacheSize s
      in sbind (mmAllocBlock p False l_vaddr l_size False s) (\<lambda>(rc, s1).
         if rc \<noteq> 0 then Inr (rc, s1)
         else
           sbind (sfold set_linear (page_list l_vaddr (l_vaddr + l_size)) s1) (\<lambda>s2.
             let spte_pages = ALIGN_PAGE_UP (ALIGN_PAGE_UP l_size div page_size * 4) div page_size
             in sbind (pm_addMemory (unat (l_vaddr + spte_pages * page_size))
                   (unat (l_size div page_size - spte_pages)) (pgm s2)) (\<lambda>m.
                  Inr (0, s2\<lparr>pgm := m, iv_physMemSize := iv_physMemSize s2 + (VMM_MEMORY_SIZE - hbCacheSize s)\<rparr>)))))"

definition mmLinearMap :: "addr \<Rightarrow> u64 \<Rightarrow> u64 \<Rightarrow> vmm \<Rightarrow> kerror + int \<times> vmm" where
  "mmLinearMap p i_paddr i_size s =
     sbind (mmAllocBlock p False i_paddr i_size True s) (\<lambda>(rc, s1).
       if rc \<noteq> 0 then Inr (rc, s1)
       else sbind (sfold set_linear (page_list i_paddr (i_paddr + i_size)) s1) (\<lambda>s2. Inr (0, s2)))"

section \<open>Stack segment\<close>

definition stack_slot :: u64 where
  "stack_slot = 8 * 1024 * 1024"

definition VMM_VADDR_STACK_SEGMENT :: u64 where
  "VMM_VADDR_STACK_SEGMENT = segment_size"

definition stack_key :: "u64 \<Rightarrow> u64" where
  "stack_key i_addr = i_addr AND NOT (stack_slot - 1)"

definition stack_base :: "u16 \<Rightarrow> u64" where
  "stack_base i_task = ucast i_task * stack_slot + VMM_VADDR_STACK_SEGMENT"

definition stack_bottom :: "u16 \<Rightarrow> u64" where
  "stack_bottom i_task = stack_base i_task + (64 + 128 * (ucast i_task mod 61)) * 1024"

definition stack_top :: "u16 \<Rightarrow> u64" where
  "stack_top i_task = stack_base i_task + ((64 + 128 * (ucast i_task mod 61)) * 1024 + 256 * 1024 - 8)"

definition createStack :: "addr \<Rightarrow> u16 \<Rightarrow> vmm \<Rightarrow> kerror + u64 \<times> vmm" where
  "createStack p i_task s =
     (if map_of (iv_blockList s) (stack_base i_task) \<noteq> None then Inl KAssert
      else
        sbind (sfold (\<lambda>i. Block_setPhysicalPage [p] i 0 (WRITABLE OR ALLOCATE_FROM_ZERO))
            (page_list (stack_bottom i_task) (stack_top i_task + 1))
            (new_block p (Block_init (stack_bottom i_task) (256 * 1024) False False) s)) (\<lambda>s1.
          Inr (stack_top i_task, s1\<lparr>iv_blockList := (stack_base i_task, p) # iv_blockList s1\<rparr>)))"

definition deleteStack :: "u16 \<Rightarrow> vmm \<Rightarrow> kerror + vmm" where
  "deleteStack i_task s =
     (case map_of (iv_blockList s) (stack_base i_task) of
        None \<Rightarrow> Inl KAssert
      | Some p \<Rightarrow> releaseAllPages p (s\<lparr>iv_blockList := alist_erase (stack_base i_task) (iv_blockList s)\<rparr>))"

definition StackSegment_handlePageFault ::
  "pte \<Rightarrow> addr option \<Rightarrow> u64 \<Rightarrow> bool \<Rightarrow> bool \<Rightarrow> vmm \<Rightarrow> kerror + bool \<times> bool \<times> vmm" where
  "StackSegment_handlePageFault junk i_task i_addr i_store allowOom s =
     (case map_of (iv_blockList s) (stack_key i_addr) of
        None \<Rightarrow> Inr (False, False, s)
      | Some p \<Rightarrow> Block_handlePageFault junk [p] i_task i_addr i_store allowOom s)"

definition StackSegment_findPhysicalAddress :: "u64 \<Rightarrow> vmm \<Rightarrow> kerror + u64" where
  "StackSegment_findPhysicalAddress i_vaddr s =
     (case map_of (iv_blockList s) (stack_key i_vaddr) of
        None \<Rightarrow> Inr (of_int (- EFAULT))
      | Some p \<Rightarrow> Block_findPhysicalAddress [p] i_vaddr s)"

section \<open>Segment manager\<close>

definition MMIO_FIRST_SEGMENT_ID :: nat where
  "MMIO_FIRST_SEGMENT_ID = 2"

definition MMIO_LAST_SEGMENT_ID :: nat where
  "MMIO_LAST_SEGMENT_ID = MMIO_FIRST_SEGMENT_ID + 8"

definition SegmentManager_handlePageFault ::
  "pte \<Rightarrow> addr option \<Rightarrow> u64 \<Rightarrow> bool \<Rightarrow> bool \<Rightarrow> vmm \<Rightarrow> kerror + bool \<times> bool \<times> vmm" where
  "SegmentManager_handlePageFault junk i_task i_addr i_store allowOom s =
     (case segment_of s i_addr of
        None \<Rightarrow> Inr (False, False, s)
      | Some BaseSegment \<Rightarrow> Block_handlePageFault junk (base_chain s) i_task i_addr i_store allowOom s
      | Some StackSegment \<Rightarrow> StackSegment_handlePageFault junk i_task i_addr i_store allowOom s
      | Some (DeviceSegment d) \<Rightarrow>
          sbind (DeviceSegment_handlePageFault junk d i_addr s) (\<lambda>(r, s1). Inr (r, False, s1)))"

definition SegmentManager_findPhysicalAddress :: "u64 \<Rightarrow> vmm \<Rightarrow> kerror + u64" where
  "SegmentManager_findPhysicalAddress i_vaddr s =
     (case segment_of s i_vaddr of
        None \<Rightarrow> Inr (of_int (- EFAULT))
      | Some BaseSegment \<Rightarrow> BaseSegment_findPhysicalAddress i_vaddr s
      | Some StackSegment \<Rightarrow> StackSegment_findPhysicalAddress i_vaddr s
      | Some (DeviceSegment d) \<Rightarrow> Inr (DeviceSegment_findPhysicalAddress d i_vaddr))"

text \<open>Only the base segment overrides \<open>castOutPages\<close>.\<close>

definition SegmentManager_castOutPages :: "bool \<Rightarrow> bool \<Rightarrow> vmm \<Rightarrow> kerror + vmm" where
  "SegmentManager_castOutPages aggressive critical s =
     sfold (\<lambda>g s. if g = Some BaseSegment then Block_castOutPages aggressive critical (base_chain s) s else Inr s)
       (iv_segments s) s"

fun devMap_loop :: "u64 \<Rightarrow> u64 \<Rightarrow> bool \<Rightarrow> bool \<Rightarrow> nat list \<Rightarrow> vmm \<Rightarrow> u64 \<times> vmm" where
  "devMap_loop ra sz nonCI guarded [] s = (0, s)"
| "devMap_loop ra sz nonCI guarded (k # ks) s =
     (case iv_segments s ! k of
        Some (DeviceSegment d) \<Rightarrow>
          let (ea, d1) = DeviceSegment_devMap ra sz nonCI guarded d
          in if ea \<noteq> 0 then (ea, set_segment k (DeviceSegment d1) s) else devMap_loop ra sz nonCI guarded ks s
      | _ \<Rightarrow> devMap_loop ra sz nonCI guarded ks s)"

definition SegmentManager_devMap :: "u64 \<Rightarrow> u64 \<Rightarrow> bool \<Rightarrow> bool \<Rightarrow> vmm \<Rightarrow> u64 \<times> vmm" where
  "SegmentManager_devMap ra i_devDataSize i_nonCI i_guarded s =
     devMap_loop ra i_devDataSize i_nonCI i_guarded [MMIO_FIRST_SEGMENT_ID..<Suc MMIO_LAST_SEGMENT_ID] s"

definition SegmentManager_devUnmap :: "u64 \<Rightarrow> vmm \<Rightarrow> kerror + int \<times> vmm" where
  "SegmentManager_devUnmap ea s =
     (let segId = getSegmentIdFromAddress ea
      in if segId < MMIO_FIRST_SEGMENT_ID \<or> segId > MMIO_LAST_SEGMENT_ID then Inr (- EINVAL, s)
         else case iv_segments s ! segId of
                Some (DeviceSegment d) \<Rightarrow> DeviceSegment_devUnmap segId d ea s
              | _ \<Rightarrow> Inr (- EINVAL, s))"

text \<open>The pairs of register values that \<open>_initSLB\<close> hands to \<open>slbmte\<close>, one for each segment there is.\<close>

fun slb_loop :: "segment option list \<Rightarrow> u64 \<Rightarrow> u64 \<Rightarrow> (u64 \<times> u64) list" where
  "slb_loop [] slbRS slbRB = []"
| "slb_loop (g # gs) slbRS slbRB =
     (if g \<noteq> None then [(slbRS, slbRB)] else []) @ slb_loop gs (slbRS + 0x0000000001000000) (slbRB + 0x0000010000000001)"

definition initSLB :: "vmm \<Rightarrow> (u64 \<times> u64) list" where
  "initSLB s = slb_loop (iv_segments s) 0x4000000000000400 0x0000000008000001"

section \<open>Virtual memory manager\<close>

definition FORCE_PHYS_ADDR :: u64 where
  "FORCE_PHYS_ADDR = 0x8000000000000000"

definition new_device :: "nat \<Rightarrow> vmm \<Rightarrow> kerror + vmm" where
  "new_device segId s =
     (if segId \<ge> MMIO_FIRST_SEGMENT_ID \<and> segId \<le> MMIO_LAST_SEGMENT_ID
      then addSegment (DeviceSegment (DeviceSegment_new segId)) segId s
      else Inl KAssert)"

text \<open>\<open>init\<close>: the segments; the page table is cleared when its manager is first used.\<close>

definition VmmManager_init :: "addr \<Rightarrow> u64 \<Rightarrow> vmm \<Rightarrow> kerror + vmm" where
  "VmmManager_init p data_load_address s =
     sbind (BaseSegment_init p data_load_address
         (s\<lparr>iv_segments := replicate MAX_SEGMENTS None, iv_blockList := [], ptm := invalidatePT (ptm s)\<rparr>)) (\<lambda>s1.
     sbind (addSegment StackSegment 1 s1)
       (sfold new_device [MMIO_FIRST_SEGMENT_ID..<MMIO_LAST_SEGMENT_ID]))"

definition pteMiss :: "pte \<Rightarrow> addr option \<Rightarrow> u64 \<Rightarrow> bool \<Rightarrow> vmm \<Rightarrow> kerror + bool \<times> vmm" where
  "pteMiss junk t effAddr store s =
     sbind (SegmentManager_handlePageFault junk t effAddr store True s) (\<lambda>(rc, oom, s1).
       if oom then Inl KAssert else Inr (rc, s1))"

definition findKernelAddress :: "u64 \<Rightarrow> vmm \<Rightarrow> kerror + u64" where
  "findKernelAddress i_vaddr s =
     sbind (SegmentManager_findPhysicalAddress i_vaddr s) (\<lambda>phys.
       Inr (if phys \<noteq> of_int (- EFAULT) then phys OR FORCE_PHYS_ADDR else phys))"

definition flushPageTable :: "vmm \<Rightarrow> kerror + vmm" where
  "flushPageTable s = pt_call ptmgr_flush s"

end
