(* ===== verification/Vm_Table.thy ===== *)
theory Vm_Table
  imports Page_Table
begin

text \<open>
  The page table as the rest of virtual memory sees it: the locale \<open>page_map\<close> with the laws of its
  operations and what follows from them for a client that keeps a condition on all translations,
  and its interpretation on the hashed page table of \<open>Page_Table\<close>.
\<close>

section \<open>What the table promises to the segments\<close>

text \<open>
  A page table as virtual memory uses it: \<open>lookup\<close> is the translation of an address, the same for all
  addresses of a page, \<open>reports\<close> the use of removed entries that is still to be told to the segment
  manager. Adding a page succeeds unless the page is mapped to another frame; it may drop other
  pages. Removing a page or a range of frames removes exactly these. Only pages that were mapped
  are reported.
\<close>

locale page_map =
  fixes inv :: "'t \<Rightarrow> bool"
    and lookup :: "'t \<Rightarrow> u64 \<Rightarrow> 'x option"
    and reports :: "'t \<Rightarrow> (u64 \<times> usage_stats) list"
    and add :: "'j \<Rightarrow> u64 \<Rightarrow> u64 \<Rightarrow> u64 \<Rightarrow> 't \<Rightarrow> kerror + 't"
    and del :: "u64 \<Rightarrow> 't \<Rightarrow> kerror + 't"
    and del_frames :: "u64 \<Rightarrow> u64 \<Rightarrow> 't \<Rightarrow> kerror + 't"
    and flush :: "'t \<Rightarrow> kerror + 't"
    and frame_no :: "'x \<Rightarrow> u64"
    and entry :: "u64 \<Rightarrow> u64 \<Rightarrow> 'x \<Rightarrow> bool"
  assumes lookup_page: "inv t \<Longrightarrow> page_addr v = page_addr w \<Longrightarrow> lookup t v = lookup t w"
    and add_law: "inv t \<Longrightarrow> reports t = [] \<Longrightarrow> (\<And>x. lookup t va = Some x \<Longrightarrow> pg = frame_no x) \<Longrightarrow>
      \<exists>t' x. add j va pg a t = Inr t' \<and> inv t' \<and> entry pg a x
        \<and> (\<forall>w. page_addr w = page_addr va \<longrightarrow> lookup t' w = Some x)
        \<and> (\<forall>w. page_addr w \<noteq> page_addr va \<longrightarrow> lookup t' w = None \<or> lookup t' w = lookup t w)
        \<and> (\<forall>v\<in>fst ` set (reports t'). lookup t v \<noteq> None)"
    and del_law: "inv t \<Longrightarrow> reports t = [] \<Longrightarrow>
      \<exists>t'. del va t = Inr t' \<and> inv t'
        \<and> (\<forall>w. lookup t' w = (if page_addr w = page_addr va then None else lookup t w))
        \<and> (\<forall>v\<in>fst ` set (reports t'). lookup t v \<noteq> None)"
    and del_frames_law: "inv t \<Longrightarrow> reports t = [] \<Longrightarrow>
      \<exists>t'. del_frames lo hi t = Inr t' \<and> inv t'
        \<and> (\<forall>w. lookup t' w = (case lookup t w of None \<Rightarrow> None
              | Some x \<Rightarrow> if lo \<le> frame_no x \<and> frame_no x \<le> hi then None else Some x))
        \<and> (\<forall>v\<in>fst ` set (reports t'). lookup t v \<noteq> None)"
    and flush_law: "inv t \<Longrightarrow> reports t = [] \<Longrightarrow>
      \<exists>t'. flush t = Inr t' \<and> inv t' \<and> lookup t' = lookup t \<and> (\<forall>v\<in>fst ` set (reports t'). lookup t v \<noteq> None)"
begin

text \<open>Every translation satisfies \<open>ok\<close>.\<close>

definition obeys :: "(u64 \<Rightarrow> 'x \<Rightarrow> bool) \<Rightarrow> 't \<Rightarrow> bool" where
  "obeys ok t \<longleftrightarrow> inv t \<and> (\<forall>va x. lookup t va = Some x \<longrightarrow> ok va x)"

lemma obeysD: "obeys ok t \<Longrightarrow> lookup t va = Some x \<Longrightarrow> ok va x"
  by (simp add: obeys_def)

lemma obeys_mono: "obeys ok t \<Longrightarrow> (\<And>va x. lookup t va = Some x \<Longrightarrow> ok va x \<Longrightarrow> ok' va x) \<Longrightarrow> obeys ok' t"
  by (auto simp: obeys_def)

lemma obeys_del:
  assumes "obeys ok t" "reports t = []"
  obtains t' where "del va t = Inr t'" "obeys ok t'"
    "\<And>w. lookup t' w = (if page_addr w = page_addr va then None else lookup t w)"
    "\<And>v. v \<in> fst ` set (reports t') \<Longrightarrow> lookup t v \<noteq> None"
proof -
  obtain t' where t': "del va t = Inr t'" "inv t'"
    "\<forall>w. lookup t' w = (if page_addr w = page_addr va then None else lookup t w)"
    "\<forall>v\<in>fst ` set (reports t'). lookup t v \<noteq> None"
    using del_law [of t va] assms unfolding obeys_def by blast
  have "obeys ok t'" using assms(1) t'(2,3) by (auto simp: obeys_def)
  then show thesis using that t' by blast
qed

lemma obeys_del_frames:
  assumes "obeys ok t" "reports t = []"
  obtains t' where "del_frames lo hi t = Inr t'" "obeys ok t'"
    "\<And>w x. lookup t' w = Some x \<longleftrightarrow> lookup t w = Some x \<and> \<not> (lo \<le> frame_no x \<and> frame_no x \<le> hi)"
    "\<And>v. v \<in> fst ` set (reports t') \<Longrightarrow> lookup t v \<noteq> None"
proof -
  obtain t' where t': "del_frames lo hi t = Inr t'" "inv t'"
    "\<forall>w. lookup t' w = (case lookup t w of None \<Rightarrow> None
       | Some x \<Rightarrow> if lo \<le> frame_no x \<and> frame_no x \<le> hi then None else Some x)"
    "\<forall>v\<in>fst ` set (reports t'). lookup t v \<noteq> None"
    using del_frames_law [of t lo hi] assms by (auto simp: obeys_def)
  have l: "lookup t' w = Some x \<longleftrightarrow> lookup t w = Some x \<and> \<not> (lo \<le> frame_no x \<and> frame_no x \<le> hi)" for w x
    using t'(3) by (auto split: option.splits if_splits)
  show thesis
  proof (rule that [OF t'(1) _ l])
    show "obeys ok t'" using assms(1) t'(2) l by (auto simp: obeys_def)
  qed (use t'(4) in blast)
qed

lemma obeys_flush:
  assumes "obeys ok t" "reports t = []"
  obtains t' where "flush t = Inr t'" "obeys ok t'" "lookup t' = lookup t"
    "\<And>v. v \<in> fst ` set (reports t') \<Longrightarrow> lookup t v \<noteq> None"
proof -
  obtain t' where t': "flush t = Inr t'" "inv t'" "lookup t' = lookup t" "\<forall>v\<in>fst ` set (reports t'). lookup t v \<noteq> None"
    using flush_law [of t] assms unfolding obeys_def by blast
  have "obeys ok t'" using assms(1) t'(2,3) by (auto simp: obeys_def)
  then show thesis using that t' by blast
qed

text \<open>An entry may be added if \<open>ok\<close> fixes the frame of the page and allows every such entry.\<close>

lemma obeys_add:
  assumes "obeys ok t" "reports t = []"
    and fr: "\<And>x. ok va x \<Longrightarrow> frame_no x = pg"
    and new: "\<And>w x. page_addr w = page_addr va \<Longrightarrow> entry pg a x \<Longrightarrow> ok w x"
  obtains t' x where "add j va pg a t = Inr t'" "obeys ok t'" "lookup t' va = Some x" "entry pg a x"
    "\<And>w. page_addr w \<noteq> page_addr va \<Longrightarrow> lookup t' w = None \<or> lookup t' w = lookup t w"
    "\<And>v. v \<in> fst ` set (reports t') \<Longrightarrow> lookup t v \<noteq> None"
proof -
  obtain t' x where t': "add j va pg a t = Inr t'" "inv t'" "entry pg a x"
    "\<And>w. page_addr w = page_addr va \<Longrightarrow> lookup t' w = Some x"
    "\<And>w. page_addr w \<noteq> page_addr va \<Longrightarrow> lookup t' w = None \<or> lookup t' w = lookup t w"
    "\<forall>v\<in>fst ` set (reports t'). lookup t v \<noteq> None"
    using add_law [of t va pg j a] assms(1,2) fr unfolding obeys_def by metis
  have "ok w y" if "lookup t' w = Some y" for w y
  proof (cases "page_addr w = page_addr va")
    case True
    then show ?thesis using new t'(3,4) that by auto
  next
    case False
    then show ?thesis using t'(5) [OF False] that obeysD [OF assms(1)] by auto
  qed
  then have "obeys ok t'" using t'(2) by (simp add: obeys_def)
  then show thesis using that [of t' x] t' by blast
qed

end

section \<open>The hashed page table keeps the promise\<close>


lemma translate_page: "page_addr v = page_addr w \<Longrightarrow> translate s v = translate s w"
  using page_addr_parts(1) [of v] page_addr_parts(1) [of w] page_addr_parts(3) [of v] page_addr_parts(3) [of w]
  by (simp add: translate_def)

lemma page_addr_push: "page_addr (push_bit 12 z) = push_bit 12 z"
  by (rule bit_word_eqI) (auto simp: page_addr_def bit_simps)

lemma valid_slot_translates:
  assumes "pt_inv s" "is_slot s a" "vbit (ptab s a)"
  shows "translate s (va_at s a) \<noteq> None"
proof -
  have e: "entries_ok s" using assms(1) by (simp add: pt_inv_def)
  then have "small (AVA (ptab s a))" using assms(2,3) unfolding entries_ok_def by blast
  then have "entry_for s (va_at s a) a" using assms(2) va_at_page by (simp add: entry_for_def)
  then show ?thesis using translate_iff [OF e] assms(3) by blast
qed


text \<open>The entries that an operation reports.\<close>

definition reported :: "addr set \<Rightarrow> ptmgr \<Rightarrow> ptmgr \<Rightarrow> bool" where
  "reported D s s' \<longleftrightarrow> (\<forall>v\<in>fst ` set (usage s'). v \<in> fst ` set (usage s) \<or> (\<exists>b\<in>D. vbit (ptab s b) \<and> v = va_at s b))"

lemma reported_mapped:
  assumes "reported D s s'" "pt_inv s" "usage s = []" "\<And>b. b \<in> D \<Longrightarrow> is_slot s b"
  shows "\<forall>v\<in>fst ` set (usage s'). translate s v \<noteq> None"
proof
  fix v assume "v \<in> fst ` set (usage s')"
  then obtain b where "b \<in> D" "vbit (ptab s b)" "v = va_at s b" using assms(1,3) by (auto simp: reported_def)
  then show "translate s v \<noteq> None" using valid_slot_translates [OF assms(2)] assms(4) by blast
qed

lemma reported_refl: "reported D s s"
  by (simp add: reported_def)

lemma reported_trans:
  assumes "reported {a} s s1" "reported D s1 s'" "\<And>b. vbit (ptab s1 b) \<Longrightarrow> vbit (ptab s b) \<and> va_at s1 b = va_at s b"
  shows "reported (insert a D) s s'"
  unfolding reported_def
proof
  fix v assume "v \<in> fst ` set (usage s')"
  then consider "v \<in> fst ` set (usage s1)" | b where "b \<in> D" "vbit (ptab s1 b)" "v = va_at s1 b"
    using assms(2) unfolding reported_def by blast
  then show "v \<in> fst ` set (usage s) \<or> (\<exists>b\<in>insert a D. vbit (ptab s b) \<and> v = va_at s b)"
    using assms(1,3) unfolding reported_def by cases blast+
qed

lemma delEntry_pte_reports:
  assumes "pt_inv s"
  shows "\<exists>s'. delEntry_pte a s = Inr s' \<and> pt_inv s' \<and> without {a} s s' \<and> reported {a} s s'"
proof -
  obtain s' where s': "delEntry_pte a s = Inr s'" "pt_inv s'" "without {a} s s'" using delEntry_pte_inv [OF assms] by blast
  moreover have "reported {a} s s'"
    using s'(1) delEntry_pte_spec [of s a] by (cases "vbit (ptab s a)") (auto simp: reported_def delEntry_pte_def)
  ultimately show ?thesis by blast
qed

lemma delEntry_reports:
  assumes inv: "pt_inv s" and s': "ptmgr_delEntry va s = Inr s'" and "usage s = []"
  shows "\<forall>v\<in>fst ` set (usage s'). translate s v \<noteq> None"
proof -
  have e: "entries_ok s" using inv by (simp add: pt_inv_def)
  let ?f = "findPTE_in s va (htaborg s + group_of va * 128)"
  have d: "(case ?f of None \<Rightarrow> Inr s | Some a \<Rightarrow> delEntry_pte a s) = Inr s'"
    using s' by (simp add: ptmgr_delEntry_def findPTE_def findPTEG_eq)
  show ?thesis
  proof (cases ?f)
    case (Some a)
    then have "is_slot s a" using findPTE_in_iff [OF e] by (simp add: entry_for_def)
    moreover have "reported {a} s s'" using delEntry_pte_reports [OF inv, of a] d Some by auto
    ultimately show ?thesis using reported_mapped [OF _ inv assms(3), of "{a}"] by blast
  qed (use d assms(3) in auto)
qed

lemma pn_loop_reports:
  "pt_inv s \<Longrightarrow> pn_loop lo hi a n s = Inr s' \<Longrightarrow> reported (run_of a n) s s'"
proof (induction n arbitrary: a s)
  case 0
  then show ?case by (simp add: reported_def)
next
  case (Suc n)
  let ?c = "vbit (ptab s a) \<and> ucast (PN (ptab s a)) \<ge> lo \<and> ucast (PN (ptab s a)) \<le> hi"
  obtain s1 where s1: "(if ?c then delEntry_pte a s else Inr s) = Inr s1" "pt_inv s1" "without {a} s s1 \<or> s1 = s"
    "reported {a} s s1"
  proof (cases ?c)
    case True
    then show thesis using that delEntry_pte_reports [OF Suc.prems(1), of a] by auto
  next
    case False
    then have "(if ?c then delEntry_pte a s else Inr s) = Inr s" by (rule if_not_P)
    then show thesis using that [of s] Suc.prems(1) reported_refl by blast
  qed
  have "reported (run_of (a + 16) n) s1 s'" using Suc.IH [OF s1(2)] Suc.prems(2) s1(1) by (simp add: PTE_SIZE_def)
  moreover have "vbit (ptab s1 b) \<Longrightarrow> vbit (ptab s b) \<and> va_at s1 b = va_at s b" for b
    using s1(3) without_fields(3) [of "{a}" s s1 b] by (auto simp: without_def)
  ultimately show ?case unfolding run_of_simps using reported_trans [OF s1(4)] by blast
qed

lemma delRangePN_reports:
  assumes "pt_inv s" "ptmgr_delRangePN lo hi s = Inr s'" "usage s = []"
  shows "\<forall>v\<in>fst ` set (usage s'). translate s v \<noteq> None"
proof -
  have "reported (run_of (htaborg s) 16384) s s'"
    using pn_loop_reports [OF assms(1)] assms(2) by (simp add: ptmgr_delRangePN_def PT_SIZE_def PTE_SIZE_def)
  then show ?thesis using reported_mapped [OF _ assms(1,3)] slots_run by blast
qed

lemma flush_loop_reports:
  "flush_loop a n s = Inr s' \<Longrightarrow> reported (run_of a n) s s'"
proof (induction n arbitrary: a s)
  case (Suc n)
  obtain s1 where s1: "(if vbit (ptab s a) then pushUsageStats a s else Inr s) = Inr s1" "same_core s s1" "reported {a} s s1"
    using pushUsageStats_core [of a s] by (cases "vbit (ptab s a)") (auto simp: reported_def)
  have "reported (run_of (a + 16) n) s1 s'" using Suc.IH [of "a + 16" s1] Suc.prems s1(1) by (simp add: PTE_SIZE_def)
  moreover have "vbit (ptab s1 b) = vbit (ptab s b)" "va_at s1 b = va_at s b" for b
    using same_core_fields [OF s1(2)] by (simp_all add: va_at_def)
  ultimately show ?case unfolding run_of_simps using reported_trans [OF s1(3)] by blast
qed (simp add: reported_def)

lemma flush_effect:
  assumes "pt_inv s" "usage s = []"
  shows "\<exists>s'. ptmgr_flush s = Inr s' \<and> pt_inv s' \<and> translate s' = translate s \<and> (\<forall>v\<in>fst ` set (usage s'). translate s v \<noteq> None)"
proof -
  obtain s' where s': "ptmgr_flush s = Inr s'" "same_core s s'"
    using flush_loop_core [of "htaborg s" "PT_SIZE div PTE_SIZE" s] by (auto simp: ptmgr_flush_def)
  have "reported (run_of (htaborg s) 16384) s s'"
    using flush_loop_reports s'(1) by (simp add: ptmgr_flush_def PT_SIZE_def PTE_SIZE_def)
  then have "\<forall>v\<in>fst ` set (usage s'). translate s v \<noteq> None" using reported_mapped [OF _ assms] slots_run by blast
  then show ?thesis using s' same_core_inv [OF s'(2) assms(1)] by blast
qed

lemma victim_translates:
  assumes "pt_inv s" "victim s va = Some a"
  shows "translate s (va_at s a) \<noteq> None"
proof -
  let ?b = "htaborg s + group_of va * 128"
  have a: "a = findOldPTE s ?b" "findEmptyPTE s ?b = None" using assms(2) by (auto simp: victim_def Let_def split: if_splits)
  have m: "a \<in> run_of ?b 8" using findOldPTE_spec(1) a(1) by simp
  have "vbit (ptab s a)" using a(2) m by (auto simp: findEmptyPTE_def scan_None run_of_def)
  moreover have "is_slot s a" using group_base_slot [OF m] by blast
  ultimately show ?thesis using valid_slot_translates [OF assms(1)] by blast
qed


interpretation pt: page_map pt_inv translate usage ptmgr_addEntry ptmgr_delEntry ptmgr_delRangePN ptmgr_flush
  "\<lambda>x. ucast (fst x)" entry_data
proof
  fix t :: ptmgr and v w :: u64
  assume "page_addr v = page_addr w"
  then show "translate t v = translate t w" by (rule translate_page)
next
  fix t and va pg :: u64 and j a
  assume t: "pt_inv t" "usage t = []" and c: "\<And>x. translate t va = Some x \<Longrightarrow> pg = ucast (fst x)"
  obtain t' x where t': "ptmgr_addEntry j va pg a t = Inr t'" "pt_inv t'" "entry_data pg a x"
    "\<forall>w. translate t' w = (if page_addr w = page_addr va then Some x
          else if \<exists>a. victim t va = Some a \<and> va_at t a = page_addr w then None else translate t w)"
    "usage t' = usage t @ (case victim t va of None \<Rightarrow> [] | Some a \<Rightarrow> [(va_at t a, stats_of (ptab t a))])"
    using addEntry_effect [OF t(1) c] by blast
  have "\<forall>v\<in>fst ` set (usage t'). translate t v \<noteq> None"
    using t'(5) t(2) victim_translates [OF t(1)] by (auto split: option.splits)
  moreover have "\<forall>w. page_addr w = page_addr va \<longrightarrow> translate t' w = Some x" using t'(4) by simp
  moreover have "\<forall>w. page_addr w \<noteq> page_addr va \<longrightarrow> translate t' w = None \<or> translate t' w = translate t w"
    using t'(4) by simp
  ultimately show "\<exists>t' x. ptmgr_addEntry j va pg a t = Inr t' \<and> pt_inv t' \<and> entry_data pg a x
      \<and> (\<forall>w. page_addr w = page_addr va \<longrightarrow> translate t' w = Some x)
      \<and> (\<forall>w. page_addr w \<noteq> page_addr va \<longrightarrow> translate t' w = None \<or> translate t' w = translate t w)
      \<and> (\<forall>v\<in>fst ` set (usage t'). translate t v \<noteq> None)"
    using t'(1-3) by blast
next
  fix t va
  assume t: "pt_inv t" "usage t = []"
  show "\<exists>t'. ptmgr_delEntry va t = Inr t' \<and> pt_inv t'
      \<and> (\<forall>w. translate t' w = (if page_addr w = page_addr va then None else translate t w))
      \<and> (\<forall>v\<in>fst ` set (usage t'). translate t v \<noteq> None)"
    using delEntry_effect [OF t(1), of va] delEntry_reports [OF t(1) _ t(2), of va] by blast
next
  fix t lo hi
  assume t: "pt_inv t" "usage t = []"
  show "\<exists>t'. ptmgr_delRangePN lo hi t = Inr t' \<and> pt_inv t'
      \<and> (\<forall>w. translate t' w = (case translate t w of None \<Rightarrow> None
            | Some x \<Rightarrow> if lo \<le> ucast (fst x) \<and> ucast (fst x) \<le> hi then None else Some x))
      \<and> (\<forall>v\<in>fst ` set (usage t'). translate t v \<noteq> None)"
    using delRangePN_effect [OF t(1), of lo hi] delRangePN_reports [OF t(1) _ t(2), of lo hi]
    unfolding in_range_def by blast
next
  fix t
  assume "pt_inv t" "usage t = []"
  then show "\<exists>t'. ptmgr_flush t = Inr t' \<and> pt_inv t' \<and> translate t' = translate t
      \<and> (\<forall>v\<in>fst ` set (usage t'). translate t v \<noteq> None)" by (rule flush_effect)
qed

end
