(* ===== verification/Vm_Coherence.thy ===== *)
theory Vm_Coherence
  imports Vm_Segments Vm_Table
begin

text \<open>
  The shadow tables of the blocks and the windows of the device segments govern the hardware page
  table: every translation the hardware can use is one that they allow. This theory states that
  condition and shows that the operations of \<open>Vm_Block\<close> keep it and do not fail.
\<close>

section \<open>Pages and entries\<close>

definition pno :: "u64 \<Rightarrow> nat" where
  "pno va = unat va div 4096"

lemma page_addr_pno: "page_addr v = page_addr w \<longleftrightarrow> pno v = pno w"
proof -
  have "pno z = unat (drop_bit 12 z)" for z by (simp add: pno_def drop_bit_eq_div unat_div)
  moreover have "page_addr v = page_addr w \<longleftrightarrow> drop_bit 12 v = drop_bit 12 w"
    by (metis page_addr_def page_addr_parts(2))
  ultimately show ?thesis by (simp add: word_unat_eq_iff)
qed

lemma page_aligned: "page_addr va = va \<longleftrightarrow> unat va = 4096 * pno va"
  unfolding page_addr_iff pno_def by (metis dvd_mult_div_cancel dvd_triv_left)

lemma unat_page_size [simp]: "unat page_size = 4096"
  by (simp add: page_size_def)

definition block_ok :: "block \<Rightarrow> bool" where
  "block_ok b \<longleftrightarrow> page_addr (iv_baseAddr b) = iv_baseAddr b \<and> page_addr (iv_size b) = iv_size b
     \<and> unat (iv_baseAddr b) + unat (iv_size b) < 2 ^ 64 \<and> length (iv_ptes b) = pno (iv_size b)"

lemma block_bounds:
  assumes "block_ok b"
  shows "unat (iv_baseAddr b) = 4096 * pno (iv_baseAddr b)" "unat (iv_size b) = 4096 * length (iv_ptes b)"
    "unat (iv_baseAddr b + iv_size b) = 4096 * (pno (iv_baseAddr b) + length (iv_ptes b))"
    "4096 * (pno (iv_baseAddr b) + length (iv_ptes b)) < 2 ^ 64"
proof -
  show b: "unat (iv_baseAddr b) = 4096 * pno (iv_baseAddr b)" and z: "unat (iv_size b) = 4096 * length (iv_ptes b)"
    using assms page_aligned by (auto simp: block_ok_def)
  have lt: "unat (iv_baseAddr b) + unat (iv_size b) < 2 ^ 64" using assms by (simp add: block_ok_def)
  then show "4096 * (pno (iv_baseAddr b) + length (iv_ptes b)) < 2 ^ 64" using b z by simp
  show "unat (iv_baseAddr b + iv_size b) = 4096 * (pno (iv_baseAddr b) + length (iv_ptes b))"
    using lt b z by (simp add: unat_word_ariths)
qed

lemma contained_iff:
  assumes "block_ok b"
  shows "isContained b va \<longleftrightarrow> pno (iv_baseAddr b) \<le> pno va \<and> pno va < pno (iv_baseAddr b) + length (iv_ptes b)"
proof -
  define k n q where "k = pno (iv_baseAddr b)" and "n = length (iv_ptes b)" and "q = unat va"
  have "isContained b va \<longleftrightarrow> 4096 * k \<le> q \<and> q < 4096 * (k + n)"
    unfolding isContained_def word_le_nat_alt word_less_nat_alt block_bounds(3) [OF assms]
    by (simp add: block_bounds(1) [OF assms] k_def n_def q_def)
  also have "\<dots> \<longleftrightarrow> k \<le> q div 4096 \<and> q div 4096 < k + n" by auto
  finally show ?thesis by (simp add: k_def n_def q_def pno_def)
qed

lemma getPTE_eq:
  assumes "block_ok b"
  shows "getPTE b va = (if isContained b va then Inr (pno va - pno (iv_baseAddr b)) else Inl OutOfBounds)"
proof -
  note bb = block_bounds [OF assms]
  let ?k = "pno (iv_baseAddr b)"
  have d: "unat ((va - iv_baseAddr b) div page_size) = unat (va - iv_baseAddr b) div 4096" by (simp add: unat_div)
  show ?thesis
  proof (cases "iv_baseAddr b \<le> va")
    case True
    then have "unat (va - iv_baseAddr b) = unat va - 4096 * ?k" using bb(1) by (simp add: unat_sub)
    moreover have "(q - 4096 * k) div 4096 = q div 4096 - k" if "4096 * k \<le> q" for q k :: nat
    proof -
      from that obtain r where "q = 4096 * k + r" using le_Suc_ex by blast
      then show ?thesis by simp
    qed
    moreover have "4096 * ?k \<le> unat va" using True bb(1) by (simp add: word_le_nat_alt)
    ultimately have "unat ((va - iv_baseAddr b) div page_size) = unat va div 4096 - ?k" using d by presburger
    then have "unat ((va - iv_baseAddr b) div page_size) = pno va - ?k" by (simp only: pno_def [of va])
    moreover have "?k \<le> pno va" using True div_le_mono [of "unat (iv_baseAddr b)" "unat va" 4096]
      by (simp add: word_le_nat_alt pno_def)
    ultimately show ?thesis by (auto simp: getPTE_def contained_iff [OF assms] Let_def)
  next
    case False
    then have lt: "unat va < unat (iv_baseAddr b)" by (simp add: word_le_nat_alt)
    have "unat (va - iv_baseAddr b) = unat va + 2 ^ 64 - unat (iv_baseAddr b)"
      using lt by (simp add: unat_sub_if_size word_size)
    then have "4096 * length (iv_ptes b) \<le> unat (va - iv_baseAddr b)" using bb(1,4) by simp
    then have "length (iv_ptes b) \<le> unat (va - iv_baseAddr b) div 4096" by simp
    then show ?thesis using False d by (simp add: getPTE_def isContained_def Let_def)
  qed
qed

section \<open>Which entry governs an address\<close>

text \<open>
  What never changes in an operation on blocks: the chains and segments, and the extent and kind of
  each block.
\<close>

definition shape :: "block \<Rightarrow> u64 \<times> u64 \<times> nat \<times> bool \<times> bool \<times> bool" where
  "shape b = (iv_baseAddr b, iv_size b, length (iv_ptes b), iv_readMsgHdlr b, iv_writeMsgHdlr b \<noteq> None, iv_mappedToPhysical b)"

definition skel :: "vmm \<Rightarrow> u64 \<times> u64 \<times> addr list \<times> u64 \<times> (u64 \<times> addr) list \<times> segment option list \<times> (addr \<Rightarrow> u64 \<times> u64 \<times> nat \<times> bool \<times> bool \<times> bool)" where
  "skel s = (hrmor s, hbCacheSize s, base_chain s, iv_physMemSize s, iv_blockList s, iv_segments s, \<lambda>p. shape (blk s p))"

lemma skelD:
  assumes "skel s' = skel s"
  shows "hrmor s' = hrmor s" "hbCacheSize s' = hbCacheSize s" "base_chain s' = base_chain s"
    "iv_physMemSize s' = iv_physMemSize s" "iv_blockList s' = iv_blockList s" "iv_segments s' = iv_segments s"
    "shape (blk s' p) = shape (blk s p)"
  using assms by (auto simp: skel_def fun_eq_iff)

lemma shapeD:
  assumes "shape b' = shape b"
  shows "iv_baseAddr b' = iv_baseAddr b" "iv_size b' = iv_size b" "length (iv_ptes b') = length (iv_ptes b)"
    "iv_readMsgHdlr b' = iv_readMsgHdlr b" "iv_writeMsgHdlr b' = None \<longleftrightarrow> iv_writeMsgHdlr b = None"
    "iv_mappedToPhysical b' = iv_mappedToPhysical b" "isContained b' va = isContained b va" "block_ok b' = block_ok b"
    "getPTE b' va = getPTE b va"
  using assms by (auto simp: shape_def isContained_def block_ok_def getPTE_def)

text \<open>
  The chain of blocks that an address belongs to, with the blocks \<open>L\<close> of the stack segment, and the
  block and index of the entry for it.
\<close>

definition chain_of :: "(u64 \<times> addr) list \<Rightarrow> vmm \<Rightarrow> u64 \<Rightarrow> addr list" where
  "chain_of L s va = (case segment_of s va of
     Some BaseSegment \<Rightarrow> base_chain s
   | Some StackSegment \<Rightarrow> (case map_of L (stack_key va) of None \<Rightarrow> [] | Some p \<Rightarrow> [p])
   | _ \<Rightarrow> [])"

definition governs :: "(u64 \<times> addr) list \<Rightarrow> vmm \<Rightarrow> u64 \<Rightarrow> (addr \<times> nat) option" where
  "governs L s va = map_option (\<lambda>p. (p, pno va - pno (iv_baseAddr (blk s p)))) (find_block s (chain_of L s va) va)"

lemma find_block_skel:
  assumes "skel s' = skel s"
  shows "find_block s' ps va = find_block s ps va"
  by (induction ps) (simp_all only: find_block.simps shapeD(7) [OF skelD(7) [OF assms]])

lemma segment_of_skel:
  assumes "skel s' = skel s"
  shows "segment_of s' va = segment_of s va"
  unfolding segment_of_def skelD(6) [OF assms] by (rule refl)

lemma chain_of_skel:
  assumes "skel s' = skel s"
  shows "chain_of L s' va = chain_of L s va"
  unfolding chain_of_def skelD(3) [OF assms] segment_of_skel [OF assms] by (rule refl)

lemma governs_skel:
  assumes "skel s' = skel s"
  shows "governs L s' va = governs L s va"
  unfolding governs_def chain_of_skel [OF assms] find_block_skel [OF assms] shapeD(1) [OF skelD(7) [OF assms]] by (rule refl)

lemma find_block_Some: "find_block s ps va = Some p \<Longrightarrow> p \<in> set ps \<and> isContained (blk s p) va"
  by (induction ps) (auto split: if_splits)

lemma chain_of_cases [case_names base stack none]:
  obtains "segment_of s va = Some BaseSegment" "chain_of L s va = base_chain s"
  | p where "segment_of s va = Some StackSegment" "map_of L (stack_key va) = Some p" "chain_of L s va = [p]"
  | "chain_of L s va = []"
proof (cases "segment_of s va")
  case (Some g)
  then show thesis using that by (cases g; cases "map_of L (stack_key va)") (auto simp: chain_of_def)
qed (use that in \<open>simp add: chain_of_def\<close>)

lemma chain_of_blocks: "p \<in> set (chain_of L s va) \<Longrightarrow> p \<in> set (base_chain s) \<union> snd ` set L"
  by (cases rule: chain_of_cases [of s va L]) (force dest: map_of_SomeD)+

lemma segment_of_page: "pno v = pno w \<Longrightarrow> segment_of s v = segment_of s w"
proof -
  assume "pno v = pno w"
  moreover have "unat (drop_bit 40 z) = pno z div 2 ^ 28" for z :: u64
    by (simp add: drop_bit_eq_div unat_div pno_def div_mult2_eq [symmetric])
  ultimately show ?thesis by (simp add: segment_of_def getSegmentIdFromAddress_def SLBE_s_def)
qed

lemma stack_key_page: "pno v = pno w \<Longrightarrow> stack_key v = stack_key w"
proof -
  assume "pno v = pno w"
  then have "page_addr v = page_addr w" by (simp add: page_addr_pno)
  moreover have "stack_key z = stack_key (page_addr z)" for z
  proof -
    have "stack_slot - 1 = mask 23" by (simp add: stack_slot_def mask_eq_exp_minus_1)
    then show ?thesis by (simp add: stack_key_def page_addr_def) (auto simp: bit_simps intro!: bit_word_eqI)
  qed
  ultimately show ?thesis by metis
qed

section \<open>What the shadow tables allow\<close>

text \<open>The type of access the hardware grants through a translation.\<close>

definition hw_access :: "xlate \<Rightarrow> kerror + u64" where
  "hw_access x = (case x of (pn, p0, w, n, pp) \<Rightarrow>
     getAccessType (blank_pte\<lparr>PN := pn, pp0 := p0, WIMG := w, nbit := n, pp1_2 := pp\<rparr>))"

lemma hw_access_xlate: "hw_access (xlate_of p) = getAccessType p"
  by (simp add: hw_access_def xlate_of_def getAccessType_def)

lemma entry_dataD: "entry_data pg a x \<Longrightarrow> fst x = ucast pg \<and> hw_access x = Inr (access_kind a)"
  by (auto simp: entry_data_def hw_access_xlate) (simp add: xlate_of_def)

definition frame_of :: "vmm \<Rightarrow> addr \<Rightarrow> nat \<Rightarrow> u64" where
  "frame_of s p i = (if iv_mappedToPhysical (blk s p) then ucast (sp_page (spte_at s p i))
     else ucast (sp_page (spte_at s p i)) OR hrmor s div of_nat PAGESIZE)"

definition spte_allows :: "vmm \<Rightarrow> addr \<Rightarrow> nat \<Rightarrow> xlate \<Rightarrow> bool" where
  "spte_allows s p i x \<longleftrightarrow> i < length (iv_ptes (blk s p)) \<and> sp_present (spte_at s p i) \<and> ucast (fst x) = frame_of s p i
     \<and> (hw_access x = Inr READ_ONLY
        \<or> hw_access x = Inr WRITABLE \<and> sp_writable (spte_at s p i) \<and> sp_dirty (spte_at s p i)
        \<or> hw_access x = Inr EXECUTABLE \<and> sp_executable (spte_at s p i))"

definition dev_offset :: "device_segment \<Rightarrow> u64 \<Rightarrow> u64" where
  "dev_offset d va = va - iv_baseAddress d - of_nat (dev_idx d va) * window_size"

definition dev_allows :: "device_segment \<Rightarrow> u64 \<Rightarrow> xlate \<Rightarrow> bool" where
  "dev_allows d va x \<longleftrightarrow> (let m = iv_mmioMap d ! dev_idx d va in
     dev_contains d va \<and> dev_offset d va < ucast (dv_size m)
     \<and> ucast (fst x) = (dv_addr m + dev_offset d va) div page_size
     \<and> hw_access x = Inr (if dv_no_ci m then WRITABLE else CI_ACCESS))"

definition allowed :: "(u64 \<times> addr) list \<Rightarrow> vmm \<Rightarrow> u64 \<Rightarrow> xlate \<Rightarrow> bool" where
  "allowed L s va x \<longleftrightarrow> (case segment_of s va of
     Some (DeviceSegment d) \<Rightarrow> dev_allows d (page_addr va) x
   | _ \<Rightarrow> (\<exists>p i. governs L s va = Some (p, i) \<and> spte_allows s p i x))"

lemma allowed_transfer:
  assumes "skel s' = skel s" "allowed L s va x"
    and "\<And>p i. governs L s va = Some (p, i) \<Longrightarrow> spte_allows s p i x \<Longrightarrow> spte_allows s' p i x"
  shows "allowed L s' va x"
  using assms(2,3) unfolding allowed_def segment_of_skel [OF assms(1)] governs_skel [OF assms(1)]
  by (auto split: option.splits segment.splits)

text \<open>The windows of device segment \<open>k\<close>: page aligned, with frame numbers the table can hold.\<close>

definition slot_ok :: "devSegData \<Rightarrow> bool" where
  "slot_ok m \<longleftrightarrow> page_addr (dv_addr m) = dv_addr m \<and> unat (dv_addr m) + unat (dv_size m) < 2 ^ 57"

definition seg_ok :: "nat \<Rightarrow> segment option \<Rightarrow> bool" where
  "seg_ok k g \<longleftrightarrow> (case g of
     None \<Rightarrow> True
   | Some BaseSegment \<Rightarrow> k = 0
   | Some StackSegment \<Rightarrow> k = 1
   | Some (DeviceSegment d) \<Rightarrow> MMIO_FIRST_SEGMENT_ID \<le> k \<and> k \<le> MMIO_LAST_SEGMENT_ID
       \<and> iv_baseAddress d = of_nat k * segment_size \<and> length (iv_mmioMap d) = MMIO_MAP_DEVICES
       \<and> (\<forall>m\<in>set (iv_mmioMap d). slot_ok m))"

definition vm_wf :: "(u64 \<times> addr) list \<Rightarrow> vmm \<Rightarrow> bool" where
  "vm_wf L s \<longleftrightarrow> length (iv_segments s) = MAX_SEGMENTS \<and> (\<forall>k<MAX_SEGMENTS. seg_ok k (iv_segments s ! k))
     \<and> unat (hrmor s) < 2 ^ 57 \<and> distinct (map fst L)
     \<and> (\<forall>p\<in>set (base_chain s) \<union> snd ` set L. block_ok (blk s p))"

lemma vm_wf_block: "vm_wf L s \<Longrightarrow> p \<in> set (base_chain s) \<union> snd ` set L \<Longrightarrow> block_ok (blk s p)"
  unfolding vm_wf_def by blast

lemma vm_wf_skel:
  assumes "skel s' = skel s"
  shows "vm_wf L s' = vm_wf L s"
  unfolding vm_wf_def skelD(1,3,6) [OF assms] shapeD(8) [OF skelD(7) [OF assms]] by (rule refl)

text \<open>
  Requests to read a page are for the block that governs it; requests to write one for a block with
  a write handler, whose list has real pages only.
\<close>

definition msgs_ok :: "vmm \<Rightarrow> bool" where
  "msgs_ok s \<longleftrightarrow> (\<forall>m\<in>set (sent s).
     (mm_type m = MSG_MM_RP_READ \<longrightarrow> segment_of s (mm_va m) = Some BaseSegment
        \<and> find_block s (base_chain s) (mm_va m) = Some (mm_block m))
   \<and> (mm_type m = MSG_MM_RP_WRITE \<longrightarrow> mm_block m \<in> set (base_chain s) \<and> iv_writeMsgHdlr (blk s (mm_block m)) \<noteq> None))"

definition hdlrs_ok :: "vmm \<Rightarrow> bool" where
  "hdlrs_ok s \<longleftrightarrow> (\<forall>p h va pa. iv_writeMsgHdlr (blk s p) = Some h \<and> (va, pa) \<in> set (iv_va2paList h) \<longrightarrow>
     pa \<noteq> 0 \<and> 4096 dvd unat pa)"

definition handlers_base :: "(u64 \<times> addr) list \<Rightarrow> vmm \<Rightarrow> bool" where
  "handlers_base L s \<longleftrightarrow> (\<forall>p\<in>snd ` set L. \<not> iv_readMsgHdlr (blk s p) \<and> iv_writeMsgHdlr (blk s p) = None)"

definition good :: "(u64 \<times> addr) list \<Rightarrow> vmm \<Rightarrow> bool" where
  "good L s \<longleftrightarrow> vm_wf L s \<and> pt.obeys (allowed L s) (ptm s) \<and> pm_inv (pgm s) \<and> msgs_ok s \<and> hdlrs_ok s \<and> handlers_base L s"

section \<open>Changes of single entries\<close>

lemma upd_spte_fields [simp]:
  "hrmor (upd_spte p i f s) = hrmor s" "base_chain (upd_spte p i f s) = base_chain s" "ptm (upd_spte p i f s) = ptm s"
  "pgm (upd_spte p i f s) = pgm s" "sent (upd_spte p i f s) = sent s" "iv_segments (upd_spte p i f s) = iv_segments s"
  "iv_blockList (upd_spte p i f s) = iv_blockList s" "hbCacheSize (upd_spte p i f s) = hbCacheSize s"
  "iv_physMemSize (upd_spte p i f s) = iv_physMemSize s" "ram (upd_spte p i f s) = ram s"
  "shape (blk (upd_spte p i f s) q) = shape (blk s q)"
  "iv_writeMsgHdlr (blk (upd_spte p i f s) q) = iv_writeMsgHdlr (blk s q)"
  "iv_mappedToPhysical (blk (upd_spte p i f s) q) = iv_mappedToPhysical (blk s q)"
  "iv_baseAddr (blk (upd_spte p i f s) q) = iv_baseAddr (blk s q)"
  "iv_readMsgHdlr (blk (upd_spte p i f s) q) = iv_readMsgHdlr (blk s q)"
  "length (iv_ptes (blk (upd_spte p i f s) q)) = length (iv_ptes (blk s q))"
  by (simp_all add: upd_spte_def shape_def)

lemma skel_upd [simp]: "skel (upd_spte p i f s) = skel s"
  by (simp add: skel_def)

lemma spte_at_upd:
  "i < length (iv_ptes (blk s p)) \<Longrightarrow>
   spte_at (upd_spte p i f s) q j = (if q = p \<and> j = i then f (spte_at s p i) else spte_at s q j)"
  by (simp add: upd_spte_def spte_at_def)

lemma spte_allows_upd_other:
  assumes "(q, j) \<noteq> (p, i)" "i < length (iv_ptes (blk s p))"
  shows "spte_allows (upd_spte p i f s) q j x = spte_allows s q j x"
  using assms(1) by (auto simp: spte_allows_def frame_of_def spte_at_upd [OF assms(2)])

lemma msgs_ok_skel:
  assumes "skel s' = skel s" "sent s' = sent s"
  shows "msgs_ok s' = msgs_ok s"
  unfolding msgs_ok_def assms(2) segment_of_skel [OF assms(1)] find_block_skel [OF assms(1)] skelD(3) [OF assms(1)]
    shapeD(5) [OF skelD(7) [OF assms(1)]] by (rule refl)

lemma handlers_base_skel:
  assumes "skel s' = skel s"
  shows "handlers_base L s' = handlers_base L s"
  unfolding handlers_base_def shapeD(4,5) [OF skelD(7) [OF assms]] by (rule refl)

lemma good_allowed: "good L s \<Longrightarrow> translate (ptm s) va = Some x \<Longrightarrow> allowed L s va x"
  unfolding good_def using pt.obeysD by blast

lemma good_skel:
  assumes "good L s" "skel s' = skel s" "pt.obeys (allowed L s') (ptm s')" "pm_inv (pgm s')" "msgs_ok s'" "hdlrs_ok s'"
  shows "good L s'"
  using assms vm_wf_skel [OF assms(2)] handlers_base_skel [OF assms(2)] by (simp add: good_def)

text \<open>No translation that the hardware can use is governed by the entry.\<close>

definition unused :: "(u64 \<times> addr) list \<Rightarrow> vmm \<Rightarrow> addr \<Rightarrow> nat \<Rightarrow> bool" where
  "unused L s p i \<longleftrightarrow> (\<forall>va. governs L s va = Some (p, i) \<longrightarrow> translate (ptm s) va = None)"

text \<open>An entry may be changed if what it governs stays allowed; any way if it is unused.\<close>

lemma good_upd:
  assumes g: "good L s" and i: "i < length (iv_ptes (blk s p))"
    and ok: "\<And>va x. governs L s va = Some (p, i) \<Longrightarrow> translate (ptm s) va = Some x \<Longrightarrow> spte_allows s p i x \<Longrightarrow>
      spte_allows (upd_spte p i f s) p i x"
  shows "good L (upd_spte p i f s)"
proof (rule good_skel [OF g])
  have "pt.obeys (allowed L s) (ptm s)" using g by (simp add: good_def)
  then have "pt.obeys (allowed L (upd_spte p i f s)) (ptm s)"
  proof (rule pt.obeys_mono)
    fix va x assume t: "translate (ptm s) va = Some x" and a: "allowed L s va x"
    show "allowed L (upd_spte p i f s) va x"
    proof (rule allowed_transfer [OF _ a])
      fix q j assume q: "governs L s va = Some (q, j)" "spte_allows s q j x"
      then show "spte_allows (upd_spte p i f s) q j x"
        using ok [OF _ t] spte_allows_upd_other [OF _ i, of q j f x] by (cases "(q, j) = (p, i)") auto
    qed simp
  qed
  then show "pt.obeys (allowed L (upd_spte p i f s)) (ptm (upd_spte p i f s))" by simp
  show "msgs_ok (upd_spte p i f s)" using g msgs_ok_skel [of "upd_spte p i f s" s] by (simp add: good_def)
qed (use g in \<open>simp_all add: good_def hdlrs_ok_def\<close>)

lemma good_upd_unused:
  assumes "good L s" "i < length (iv_ptes (blk s p))" "unused L s p i"
  shows "good L (upd_spte p i f s)" "unused L (upd_spte p i f s) p i"
  using good_upd [OF assms(1,2)] assms(3) governs_skel [OF skel_upd] by (auto simp: unused_def)

lemma unused_absent:
  assumes "good L s" "\<not> sp_present (spte_at s p i)"
  shows "unused L s p i"
  unfolding unused_def
proof (intro allI impI)
  fix va assume gv: "governs L s va = Some (p, i)"
  show "translate (ptm s) va = None"
  proof (rule ccontr)
    assume "translate (ptm s) va \<noteq> None"
    then obtain x where "translate (ptm s) va = Some x" by blast
    then have "allowed L s va x" by (rule good_allowed [OF assms(1)])
    then show False using gv assms(2)
      by (cases rule: chain_of_cases [of s va L]) (auto simp: allowed_def spte_allows_def governs_def)
  qed
qed

section \<open>Calls of the page table\<close>

text \<open>The state up to the ages of the entries.\<close>

definition strip :: "vmm \<Rightarrow> vmm" where
  "strip s = s\<lparr>blk := \<lambda>p. (blk s p)\<lparr>iv_ptes := map zeroLRU (iv_ptes (blk s p))\<rparr>\<rparr>"

lemma strip_fields:
  assumes "strip s' = strip s"
  shows "skel s' = skel s" "ptm s' = ptm s" "pgm s' = pgm s" "ram s' = ram s" "sent s' = sent s"
    "iv_writeMsgHdlr (blk s' p) = iv_writeMsgHdlr (blk s p)"
    "cv_ro_evict_req s' = cv_ro_evict_req s" "cv_rw_evict_req s' = cv_rw_evict_req s"
proof -
  have b: "iv_baseAddr (blk s' p) = iv_baseAddr (blk s p) \<and> iv_size (blk s' p) = iv_size (blk s p)
    \<and> map zeroLRU (iv_ptes (blk s' p)) = map zeroLRU (iv_ptes (blk s p)) \<and> iv_readMsgHdlr (blk s' p) = iv_readMsgHdlr (blk s p)
    \<and> iv_writeMsgHdlr (blk s' p) = iv_writeMsgHdlr (blk s p) \<and> iv_mappedToPhysical (blk s' p) = iv_mappedToPhysical (blk s p)" for p
  proof -
    have "blk (strip s') p = blk (strip s) p" using assms by simp
    then show ?thesis by (simp add: strip_def) (metis block.ext_inject block.surjective block.update_convs(3))
  qed
  then show "iv_writeMsgHdlr (blk s' p) = iv_writeMsgHdlr (blk s p)" by blast
  have "length (iv_ptes (blk s' p)) = length (iv_ptes (blk s p))" for p using b [of p] by (metis length_map)
  then have sh: "shape (blk s' p) = shape (blk s p)" for p using b [of p] by (simp add: shape_def)
  have f: "f (strip s') = f (strip s)" for f :: "vmm \<Rightarrow> 'a" using assms by simp
  show "ptm s' = ptm s" using f [of ptm] by (simp add: strip_def)
  show "pgm s' = pgm s" using arg_cong [OF assms, of pgm] by (simp add: strip_def)
  show "ram s' = ram s" using arg_cong [OF assms, of ram] by (simp add: strip_def)
  show "sent s' = sent s" using arg_cong [OF assms, of sent] by (simp add: strip_def)
  show "cv_ro_evict_req s' = cv_ro_evict_req s" using arg_cong [OF assms, of cv_ro_evict_req] by (simp add: strip_def)
  show "cv_rw_evict_req s' = cv_rw_evict_req s" using arg_cong [OF assms, of cv_rw_evict_req] by (simp add: strip_def)
  show "skel s' = skel s"
    using arg_cong [OF assms, of hrmor] arg_cong [OF assms, of hbCacheSize] arg_cong [OF assms, of base_chain]
      arg_cong [OF assms, of iv_physMemSize] arg_cong [OF assms, of iv_blockList] arg_cong [OF assms, of iv_segments] sh
    by (simp add: skel_def strip_def)
qed


lemma strip_spte:
  assumes "strip s' = strip s" "i < length (iv_ptes (blk s p))"
  shows "zeroLRU (spte_at s' p i) = zeroLRU (spte_at s p i)"
proof -
  have "iv_ptes (blk (strip s') p) ! i = iv_ptes (blk (strip s) p) ! i" using assms(1) by simp
  moreover have "length (iv_ptes (blk s' p)) = length (iv_ptes (blk s p))"
    using shapeD(3) [OF skelD(7) [OF strip_fields(1) [OF assms(1)]]] .
  ultimately show ?thesis using assms(2) by (simp add: strip_def spte_at_def)
qed

lemma zeroLRU_fields:
  assumes "zeroLRU q' = zeroLRU q"
  shows "sp_page q' = sp_page q" "sp_present q' = sp_present q" "sp_readable q' = sp_readable q" "sp_writable q' = sp_writable q"
    "sp_executable q' = sp_executable q" "sp_track_write q' = sp_track_write q" "sp_dirty q' = sp_dirty q"
    "sp_allocate_from_zero q' = sp_allocate_from_zero q"
proof -
  show "sp_page q' = sp_page q" using arg_cong [OF assms, of sp_page] by (simp add: zeroLRU_def)
  show "sp_present q' = sp_present q" using arg_cong [OF assms, of sp_present] by (simp add: zeroLRU_def)
  show "sp_readable q' = sp_readable q" using arg_cong [OF assms, of sp_readable] by (simp add: zeroLRU_def)
  show "sp_writable q' = sp_writable q" using arg_cong [OF assms, of sp_writable] by (simp add: zeroLRU_def)
  show "sp_executable q' = sp_executable q" using arg_cong [OF assms, of sp_executable] by (simp add: zeroLRU_def)
  show "sp_track_write q' = sp_track_write q" using arg_cong [OF assms, of sp_track_write] by (simp add: zeroLRU_def)
  show "sp_dirty q' = sp_dirty q" using arg_cong [OF assms, of sp_dirty] by (simp add: zeroLRU_def)
  show "sp_allocate_from_zero q' = sp_allocate_from_zero q" using arg_cong [OF assms, of sp_allocate_from_zero] by (simp add: zeroLRU_def)
qed

lemma strip_allows:
  assumes "strip s' = strip s"
  shows "spte_allows s' p i x = spte_allows s p i x"
proof (cases "i < length (iv_ptes (blk s p))")
  case True
  note z = zeroLRU_fields [OF strip_spte [OF assms True]]
  note sk = strip_fields(1) [OF assms]
  show ?thesis
    unfolding spte_allows_def frame_of_def z skelD(1) [OF sk] shapeD(3,6) [OF skelD(7) [OF sk]] by (rule refl)
next
  case False
  then show ?thesis using shapeD(3) [OF skelD(7) [OF strip_fields(1) [OF assms]], of p] by (simp add: spte_allows_def)
qed

lemma strip_allowed:
  assumes "strip s' = strip s"
  shows "allowed L s' = allowed L s"
proof -
  have "allowed L s' va x" if "allowed L s va x" "strip s' = strip s" for s s' va x
    using allowed_transfer [OF strip_fields(1) [OF that(2)] that(1)] strip_allows [OF that(2)] by blast
  from this [OF _ assms] this [OF _ assms [symmetric]] show ?thesis by (intro ext iffI)
qed

lemma strip_zeroLRU:
  assumes "i < length (iv_ptes (blk s p))" "zeroLRU (f (spte_at s p i)) = zeroLRU (spte_at s p i)"
  shows "strip (upd_spte p i f s) = strip s"
proof -
  have "map zeroLRU ((iv_ptes (blk s p))[i := f (spte_at s p i)]) = map zeroLRU (iv_ptes (blk s p))"
    using assms by (simp add: map_update spte_at_def) (metis list_update_id nth_map length_map)
  then show ?thesis by (simp add: strip_def upd_spte_def fun_eq_iff)
qed

text \<open>A report never fails: the pages that are reported were mapped, so a block contains them.\<close>

definition reportable :: "vmm \<Rightarrow> u64 \<Rightarrow> bool" where
  "reportable s va \<longleftrightarrow> (segment_of s va = Some BaseSegment \<longrightarrow> find_block s (base_chain s) va \<noteq> None)"

lemma reportable_strip:
  assumes "strip s' = strip s"
  shows "reportable s' va = reportable s va"
  unfolding reportable_def segment_of_skel [OF strip_fields(1) [OF assms]] find_block_skel [OF strip_fields(1) [OF assms]]
    skelD(3) [OF strip_fields(1) [OF assms]] by (rule refl)

lemma updateRefCount_ok:
  assumes w: "vm_wf L s" and r: "reportable s va"
  shows "\<exists>s'. SegmentManager_updateRefCount va st s = Inr s' \<and> strip s' = strip s"
proof (cases "segment_of s va = Some BaseSegment")
  case True
  then obtain p where p: "find_block s (base_chain s) va = Some p" using r by (auto simp: reportable_def)
  then have pb: "p \<in> set (base_chain s)" "isContained (blk s p) va" using find_block_Some by blast+
  then have ok: "block_ok (blk s p)" using w by (auto simp: vm_wf_def)
  let ?i = "pno va - pno (iv_baseAddr (blk s p))"
  have i: "?i < length (iv_ptes (blk s p))" using pb(2) contained_iff [OF ok] by auto
  have z: "zeroLRU ((if us_R st then zeroLRU else incLRU) q) = zeroLRU q" for q by (simp add: zeroLRU_def incLRU_def)
  have "SegmentManager_updateRefCount va st s = Inr (upd_spte p ?i (if us_R st then zeroLRU else incLRU) s)"
    using True p pb(2) getPTE_eq [OF ok]
    by (simp add: SegmentManager_updateRefCount_def Block_updateRefCount_def)
  then show ?thesis using strip_zeroLRU [OF i, of "if us_R st then zeroLRU else incLRU"] z by blast
next
  case False
  then have "SegmentManager_updateRefCount va st s = Inr s"
    by (auto simp: SegmentManager_updateRefCount_def split: option.splits segment.splits)
  then show ?thesis by blast
qed

lemma sfold_reports:
  "vm_wf L s \<Longrightarrow> (\<And>v. v \<in> fst ` set rs \<Longrightarrow> reportable s v) \<Longrightarrow>
   \<exists>s'. sfold (\<lambda>(va, st). SegmentManager_updateRefCount va st) rs s = Inr s' \<and> strip s' = strip s"
proof (induction rs arbitrary: s)
  case (Cons r rs)
  obtain va st where r: "r = (va, st)" by (cases r)
  obtain s1 where s1: "SegmentManager_updateRefCount va st s = Inr s1" "strip s1 = strip s"
    using updateRefCount_ok [OF Cons.prems(1), of va st] Cons.prems(2) r by auto
  have w: "vm_wf L s1" using Cons.prems(1) vm_wf_skel [OF strip_fields(1) [OF s1(2)]] by simp
  have "reportable s1 v" if "v \<in> fst ` set rs" for v using Cons.prems(2) that reportable_strip [OF s1(2)] by auto
  from Cons.IH [OF w this] s1 r show ?case by auto
qed simp

lemma usage_irrelevant [simp]:
  "translate (t\<lparr>usage := u\<rparr>) = translate t" "pt_inv (t\<lparr>usage := u\<rparr>) = pt_inv t"
  "pt.obeys ok (t\<lparr>usage := u\<rparr>) = pt.obeys ok t"
proof -
  show tr: "translate (t\<lparr>usage := u\<rparr>) = translate t" by (rule ext) (simp add: translate_def split: option.split)
  show inv: "pt_inv (t\<lparr>usage := u\<rparr>) = pt_inv t"
    by (simp add: pt_inv_def entries_ok_def tlb_ok_def is_slot_def group_at_def vpn_at_def va_at_def)
  show "pt.obeys ok (t\<lparr>usage := u\<rparr>) = pt.obeys ok t" by (simp only: pt.obeys_def tr inv)
qed

text \<open>A call of the page table changes nothing else but the ages of entries.\<close>

definition pt_quiet :: "vmm \<Rightarrow> vmm \<Rightarrow> bool" where
  "pt_quiet s s' \<longleftrightarrow> strip s' = strip (s\<lparr>ptm := ptm s'\<rparr>)"

lemma pt_call_quiet:
  assumes "vm_wf L s" "f ((ptm s)\<lparr>usage := []\<rparr>) = Inr t" "\<And>v. v \<in> fst ` set (usage t) \<Longrightarrow> reportable s v"
  shows "\<exists>s'. pt_call f s = Inr s' \<and> pt_quiet s s' \<and> ptm s' = t\<lparr>usage := []\<rparr>"
proof -
  let ?s = "s\<lparr>ptm := t\<lparr>usage := []\<rparr>\<rparr>"
  have w: "vm_wf L ?s" using vm_wf_skel [of ?s s] assms(1) by (simp add: skel_def)
  have "reportable ?s v" if "v \<in> fst ` set (usage t)" for v
  proof -
    have "skel ?s = skel s" by (simp add: skel_def)
    from segment_of_skel [OF this] find_block_skel [OF this] assms(3) [OF that] show ?thesis by (simp add: reportable_def)
  qed
  from sfold_reports [OF w this] obtain s' where
    s': "sfold (\<lambda>(va, st). SegmentManager_updateRefCount va st) (usage t) ?s = Inr s'" "strip s' = strip ?s" by blast
  have "ptm s' = t\<lparr>usage := []\<rparr>" using strip_fields(2) [OF s'(2)] by simp
  then show ?thesis using s' assms(2) by (simp add: pt_call_def pt_quiet_def)
qed

lemma quiet_fields:
  assumes "pt_quiet s s'"
  shows "skel s' = skel s" "pgm s' = pgm s" "ram s' = ram s" "sent s' = sent s"
    "iv_writeMsgHdlr (blk s' p) = iv_writeMsgHdlr (blk s p)" "allowed L s' = allowed L s"
    "i < length (iv_ptes (blk s p)) \<Longrightarrow> zeroLRU (spte_at s' p i) = zeroLRU (spte_at s p i)"
proof -
  note q = assms [unfolded pt_quiet_def]
  have sk: "skel (s\<lparr>ptm := ptm s'\<rparr>) = skel s" by (simp add: skel_def)
  show "skel s' = skel s" using strip_fields(1) [OF q] sk by simp
  show "pgm s' = pgm s" "ram s' = ram s" "sent s' = sent s" "iv_writeMsgHdlr (blk s' p) = iv_writeMsgHdlr (blk s p)"
    using strip_fields(3-6) [OF q] by simp_all
  show "i < length (iv_ptes (blk s p)) \<Longrightarrow> zeroLRU (spte_at s' p i) = zeroLRU (spte_at s p i)"
    using strip_spte [OF q, of i p] by (simp add: spte_at_def)
  have "spte_allows (s\<lparr>ptm := ptm s'\<rparr>) q j x = spte_allows s q j x" for q j x
    by (simp add: spte_allows_def frame_of_def spte_at_def)
  then have "allowed L (s\<lparr>ptm := ptm s'\<rparr>) va x = allowed L s va x" for va x
    unfolding allowed_def segment_of_skel [OF sk] governs_skel [OF sk] by presburger
  then have "allowed L (s\<lparr>ptm := ptm s'\<rparr>) = allowed L s" by (intro ext)
  then show "allowed L s' = allowed L s" using strip_allowed [OF q] by simp
qed

lemma good_quiet:
  assumes "good L s" "pt_quiet s s'" "pt.obeys (allowed L s) (ptm s')"
  shows "good L s'"
proof (rule good_skel [OF assms(1) quiet_fields(1) [OF assms(2)]])
  show "pt.obeys (allowed L s') (ptm s')" using assms(3) quiet_fields(6) [OF assms(2)] by simp
  show "pm_inv (pgm s')" using assms(1) quiet_fields(2) [OF assms(2)] by (simp add: good_def)
  show "msgs_ok s'"
    using assms(1) msgs_ok_skel [OF quiet_fields(1) [OF assms(2)] quiet_fields(4) [OF assms(2)]] by (simp add: good_def)
  show "hdlrs_ok s'" using assms(1) unfolding good_def hdlrs_ok_def quiet_fields(5) [OF assms(2)] by blast
qed

lemma good_reportable:
  assumes "good L s" "translate (ptm s) va \<noteq> None"
  shows "reportable s va"
  unfolding reportable_def
proof
  assume b: "segment_of s va = Some BaseSegment"
  from assms(2) obtain x where "translate (ptm s) va = Some x" by blast
  then have "allowed L s va x" by (rule good_allowed [OF assms(1)])
  then show "find_block s (base_chain s) va \<noteq> None" using b by (auto simp: allowed_def governs_def chain_of_def)
qed

lemma good_usage: "good L s \<Longrightarrow> pt.obeys (allowed L s) ((ptm s)\<lparr>usage := []\<rparr>)" "good L s \<Longrightarrow> vm_wf L s"
  by (simp_all add: good_def)

lemma vm_delEntry_good:
  assumes g: "good L s"
  shows "\<exists>s'. vm_delEntry va s = Inr s' \<and> good L s' \<and> pt_quiet s s'
    \<and> (\<forall>w. translate (ptm s') w = (if page_addr w = page_addr va then None else translate (ptm s) w))"
proof -
  obtain t where t: "ptmgr_delEntry va ((ptm s)\<lparr>usage := []\<rparr>) = Inr t" "pt.obeys (allowed L s) t"
    "\<And>w. translate t w = (if page_addr w = page_addr va then None else translate (ptm s) w)"
    "\<And>v. v \<in> fst ` set (usage t) \<Longrightarrow> translate (ptm s) v \<noteq> None"
    by (rule pt.obeys_del [OF good_usage(1) [OF g], of va]) auto
  obtain s' where s': "pt_call (ptmgr_delEntry va) s = Inr s'" "pt_quiet s s'" "ptm s' = t\<lparr>usage := []\<rparr>"
    using pt_call_quiet [of L s "ptmgr_delEntry va", OF good_usage(2) [OF g] t(1) good_reportable [OF g t(4)]] by blast
  have "good L s'" using good_quiet [OF g s'(2)] t(2) s'(3) by simp
  then show ?thesis using s' t(3) by (auto simp: vm_delEntry_def)
qed

lemma vm_delRangePN_good:
  assumes g: "good L s"
  shows "\<exists>s'. pt_call (delRangePN h lo hi False) s = Inr s' \<and> good L s' \<and> pt_quiet s s'
    \<and> (\<forall>w x. translate (ptm s') w = Some x \<longleftrightarrow> translate (ptm s) w = Some x \<and> \<not> (lo \<le> ucast (fst x) \<and> ucast (fst x) \<le> hi))"
proof -
  obtain t where t: "ptmgr_delRangePN lo hi ((ptm s)\<lparr>usage := []\<rparr>) = Inr t" "pt.obeys (allowed L s) t"
    "\<And>w x. translate t w = Some x \<longleftrightarrow> translate (ptm s) w = Some x \<and> \<not> (lo \<le> ucast (fst x) \<and> ucast (fst x) \<le> hi)"
    "\<And>v. v \<in> fst ` set (usage t) \<Longrightarrow> translate (ptm s) v \<noteq> None"
    by (rule pt.obeys_del_frames [OF good_usage(1) [OF g], of lo hi]) auto
  have "delRangePN h lo hi False ((ptm s)\<lparr>usage := []\<rparr>) = Inr t" using t(1) by (simp add: delRangePN_def)
  from pt_call_quiet [of L s "delRangePN h lo hi False", OF good_usage(2) [OF g] this good_reportable [OF g t(4)]]
  obtain s' where s': "pt_call (delRangePN h lo hi False) s = Inr s'" "pt_quiet s s'" "ptm s' = t\<lparr>usage := []\<rparr>" by blast
  have "good L s'" using good_quiet [OF g s'(2)] t(2) s'(3) by simp
  then show ?thesis using s' t(3) by auto
qed

lemma flushPageTable_good:
  assumes g: "good L s"
  shows "\<exists>s'. flushPageTable s = Inr s' \<and> good L s' \<and> pt_quiet s s' \<and> translate (ptm s') = translate (ptm s)"
proof -
  obtain t where t: "ptmgr_flush ((ptm s)\<lparr>usage := []\<rparr>) = Inr t" "pt.obeys (allowed L s) t"
    "translate t = translate (ptm s)" "\<And>v. v \<in> fst ` set (usage t) \<Longrightarrow> translate (ptm s) v \<noteq> None"
    by (rule pt.obeys_flush [OF good_usage(1) [OF g]]) auto
  from pt_call_quiet [of L s ptmgr_flush, OF good_usage(2) [OF g] t(1) good_reportable [OF g t(4)]]
  obtain s' where s': "pt_call ptmgr_flush s = Inr s'" "pt_quiet s s'" "ptm s' = t\<lparr>usage := []\<rparr>" by blast
  have "good L s'" using good_quiet [OF g s'(2)] t(2) s'(3) by simp
  then show ?thesis using s' t(3) by (auto simp: flushPageTable_def)
qed

text \<open>Adding an entry that is allowed for the whole page, with a frame number of at most 45 bits.\<close>

lemma vm_addEntry_good:
  assumes g: "good L s" and pg: "\<And>t. addEntry (hrmor s) junk va page a t = ptmgr_addEntry junk va pg a t"
    and fr: "\<And>x. allowed L s va x \<Longrightarrow> ucast (fst x) = pg"
    and new: "\<And>w x. page_addr w = page_addr va \<Longrightarrow> entry_data pg a x \<Longrightarrow> allowed L s w x"
  shows "\<exists>s' x. vm_addEntry junk va page a s = Inr s' \<and> good L s' \<and> pt_quiet s s' \<and> translate (ptm s') va = Some x
    \<and> entry_data pg a x
    \<and> (\<forall>w. page_addr w \<noteq> page_addr va \<longrightarrow> translate (ptm s') w = None \<or> translate (ptm s') w = translate (ptm s) w)"
proof -
  obtain t x where t: "ptmgr_addEntry junk va pg a ((ptm s)\<lparr>usage := []\<rparr>) = Inr t" "pt.obeys (allowed L s) t"
    "translate t va = Some x" "entry_data pg a x"
    "\<And>w. page_addr w \<noteq> page_addr va \<Longrightarrow> translate t w = None \<or> translate t w = translate (ptm s) w"
    "\<And>v. v \<in> fst ` set (usage t) \<Longrightarrow> translate (ptm s) v \<noteq> None"
    by (rule pt.obeys_add [OF good_usage(1) [OF g], of va pg a junk]) (use fr new in auto)
  have "addEntry (hrmor s) junk va page a ((ptm s)\<lparr>usage := []\<rparr>) = Inr t" using t(1) pg by simp
  from pt_call_quiet [of L s "addEntry (hrmor s) junk va page a", OF good_usage(2) [OF g] this good_reportable [OF g t(6)]]
  obtain s' where s': "pt_call (addEntry (hrmor s) junk va page a) s = Inr s'" "pt_quiet s s'" "ptm s' = t\<lparr>usage := []\<rparr>" by blast
  have "good L s'" using good_quiet [OF g s'(2)] t(2) s'(3) by simp
  then show ?thesis using s' t(3-5) by (intro exI [of _ s'] exI [of _ x]) (simp add: vm_addEntry_def)
qed

section \<open>Operations on blocks\<close>

subsection \<open>Changes that only take translations away\<close>

definition evolves :: "(u64 \<times> addr) list \<Rightarrow> vmm \<Rightarrow> vmm \<Rightarrow> bool" where
  "evolves L s s' \<longleftrightarrow> good L s' \<and> skel s' = skel s
     \<and> (\<forall>w. translate (ptm s') w = None \<or> translate (ptm s') w = translate (ptm s) w)"

lemma evolves_refl: "good L s \<Longrightarrow> evolves L s s"
  by (simp add: evolves_def)

lemma evolves_trans: "evolves L s s1 \<Longrightarrow> evolves L s1 s' \<Longrightarrow> evolves L s s'"
  unfolding evolves_def by metis

lemma evolvesD: "evolves L s s' \<Longrightarrow> good L s'" "evolves L s s' \<Longrightarrow> skel s' = skel s"
  by (simp_all add: evolves_def)

lemma unused_evolves:
  assumes "evolves L s s'" "unused L s p i"
  shows "unused L s' p i"
  unfolding unused_def governs_skel [OF evolvesD(2) [OF assms(1)]]
proof (intro allI impI)
  fix va assume "governs L s va = Some (p, i)"
  then have "translate (ptm s) va = None" using assms(2) by (simp add: unused_def)
  then show "translate (ptm s') va = None" using assms(1) unfolding evolves_def by metis
qed

lemma evolves_fields:
  assumes "evolves L s s'"
  shows "base_chain s' = base_chain s" "shape (blk s' p) = shape (blk s p)" "length (iv_ptes (blk s' p)) = length (iv_ptes (blk s p))"
    "block_ok (blk s' p) = block_ok (blk s p)" "isContained (blk s' p) va = isContained (blk s p) va"
    "getPTE (blk s' p) va = getPTE (blk s p) va" "find_block s' ps va = find_block s ps va"
  using skelD(3,7) [OF evolvesD(2) [OF assms]] shapeD(3,7,8,9) [OF skelD(7) [OF evolvesD(2) [OF assms]]]
    find_block_skel [OF evolvesD(2) [OF assms]] by auto

lemma getPTE_D:
  assumes "block_ok b" "getPTE b va = Inr i"
  shows "isContained b va" "i < length (iv_ptes b)" "pno va = pno (iv_baseAddr b) + i"
proof -
  show c: "isContained b va" and i: "pno va = pno (iv_baseAddr b) + i"
    using assms getPTE_eq [OF assms(1), of va] contained_iff [OF assms(1), of va] by (auto split: if_splits)
  then show "i < length (iv_ptes b)" using contained_iff [OF assms(1), of va] by simp
qed

lemma getPTE_contained:
  assumes "block_ok b" "isContained b va"
  obtains i where "getPTE b va = Inr i" "i < length (iv_ptes b)"
  using that [of "pno va - pno (iv_baseAddr b)"] getPTE_eq [OF assms(1)] contained_iff [OF assms(1)] assms(2) by auto

lemma governsD:
  assumes "vm_wf L s" "governs L s va = Some (p, i)"
  shows "p \<in> set (base_chain s) \<union> snd ` set L" "block_ok (blk s p)" "getPTE (blk s p) va = Inr i"
proof -
  have f: "find_block s (chain_of L s va) va = Some p" "i = pno va - pno (iv_baseAddr (blk s p))"
    using assms(2) by (auto simp: governs_def)
  then show p: "p \<in> set (base_chain s) \<union> snd ` set L" using find_block_Some chain_of_blocks by blast
  then show b: "block_ok (blk s p)" using assms(1) by (auto simp: vm_wf_def)
  show "getPTE (blk s p) va = Inr i" using getPTE_eq [OF b] find_block_Some [OF f(1)] f(2) by simp
qed

lemma governs_page:
  assumes "vm_wf L s" "pno v = pno w"
  shows "governs L s v = governs L s w"
proof -
  have ch: "chain_of L s v = chain_of L s w"
    unfolding chain_of_def segment_of_page [OF assms(2)] stack_key_page [OF assms(2)] by (rule refl)
  have "find_block s ps v = find_block s ps w" if "\<forall>p\<in>set ps. block_ok (blk s p)" for ps
    using that
  proof (induction ps)
    case (Cons p ps)
    then have "isContained (blk s p) v = isContained (blk s p) w" using contained_iff [of "blk s p"] assms(2) by simp
    then show ?case using Cons by simp
  qed simp
  moreover have "\<forall>p\<in>set (chain_of L s w). block_ok (blk s p)"
    by (intro ballI) (rule vm_wf_block [OF assms(1)], rule chain_of_blocks)
  ultimately have f: "find_block s (chain_of L s w) v = find_block s (chain_of L s w) w" by blast
  show ?thesis unfolding governs_def ch assms(2) f by (rule refl)
qed

lemma delEntry_unused:
  assumes g: "good L s" and b: "block_ok (blk s p)" and i: "getPTE (blk s p) va = Inr i"
  shows "\<exists>s'. vm_delEntry va s = Inr s' \<and> evolves L s s' \<and> pt_quiet s s' \<and> unused L s' p i"
proof -
  obtain s' where s': "vm_delEntry va s = Inr s'" "good L s'" "pt_quiet s s'"
    "\<forall>w. translate (ptm s') w = (if page_addr w = page_addr va then None else translate (ptm s) w)"
    using vm_delEntry_good [OF g] by blast
  have "unused L s' p i" unfolding unused_def governs_skel [OF quiet_fields(1) [OF s'(3)]]
  proof (intro allI impI)
    fix w assume "governs L s w = Some (p, i)"
    then have "getPTE (blk s p) w = Inr i" using governsD(3) [OF good_usage(2) [OF g]] by blast
    then have "pno w = pno va" using getPTE_D(3) [OF b] i by metis
    then show "translate (ptm s') w = None" using s'(4) page_addr_pno by auto
  qed
  moreover have "evolves L s s'" using s'(2,4) quiet_fields(1) [OF s'(3)] by (simp add: evolves_def)
  ultimately show ?thesis using s'(1,3) by blast
qed

lemma upd_evolves:
  assumes "good L s" "i < length (iv_ptes (blk s p))" "unused L s p i"
  shows "evolves L s (upd_spte p i f s)"
  using good_upd_unused(1) [OF assms] by (simp add: evolves_def)

text \<open>Setting permissions changes no frame, and not which pages are present or dirty.\<close>

definition keeps_pages :: "vmm \<Rightarrow> vmm \<Rightarrow> bool" where
  "keeps_pages s s' \<longleftrightarrow> sent s' = sent s \<and> pgm s' = pgm s \<and> ram s' = ram s
     \<and> (\<forall>p. iv_writeMsgHdlr (blk s' p) = iv_writeMsgHdlr (blk s p) \<and> length (iv_ptes (blk s' p)) = length (iv_ptes (blk s p)))
     \<and> (\<forall>p i. i < length (iv_ptes (blk s p)) \<longrightarrow> sp_page (spte_at s' p i) = sp_page (spte_at s p i)
          \<and> sp_present (spte_at s' p i) = sp_present (spte_at s p i) \<and> sp_dirty (spte_at s' p i) = sp_dirty (spte_at s p i))"

lemma keeps_pages_refl: "keeps_pages s s"
  by (simp add: keeps_pages_def)

lemma keeps_pages_trans: "keeps_pages s s1 \<Longrightarrow> keeps_pages s1 s' \<Longrightarrow> keeps_pages s s'"
  by (simp add: keeps_pages_def)

lemma quiet_keeps:
  assumes "pt_quiet s s'"
  shows "keeps_pages s s'"
  using quiet_fields(2-5) [OF assms] zeroLRU_fields(1,2,7) [OF quiet_fields(7) [OF assms]]
    shapeD(3) [OF skelD(7) [OF quiet_fields(1) [OF assms]]]
  by (simp add: keeps_pages_def)

lemma setPermSPTE_keeps:
  "sp_page (snd (setPermSPTE w t q)) = sp_page q" "sp_present (snd (setPermSPTE w t q)) = sp_present q"
  "sp_dirty (snd (setPermSPTE w t q)) = sp_dirty q"
  by (simp_all add: setPermSPTE_def Let_def)

lemma set_perm_evolves:
  assumes "good L s" "i < length (iv_ptes (blk s p))" "unused L s p i" "set_perm p i t s = (rc, s')"
  shows "evolves L s s'" "keeps_pages s s'"
proof -
  have s': "s' = upd_spte p i (\<lambda>_. snd (setPermSPTE (iv_writeMsgHdlr (blk s p) \<noteq> None) t (spte_at s p i))) s"
    using assms(4) by (auto simp: set_perm_def split: prod.splits)
  show "evolves L s s'" unfolding s' by (rule upd_evolves [OF assms(1-3)])
  show "keeps_pages s s'" unfolding s' by (simp add: keeps_pages_def spte_at_upd [OF assms(2)] setPermSPTE_keeps)
qed

text \<open>
  Setting permissions takes the pages out of the hardware table first. It goes on behind the end of
  the block when the range does.
\<close>

lemma perm_loop_evolves:
  "good L s \<Longrightarrow> block_ok (blk s p) \<Longrightarrow>
   (\<exists>rc s'. perm_loop p t vas s = Inr (rc, s') \<and> evolves L s s' \<and> keeps_pages s s')
   \<or> perm_loop p t vas s = Inl OutOfBounds \<and> (\<exists>va\<in>set vas. \<not> isContained (blk s p) va)"
proof (induction vas arbitrary: s)
  case Nil
  then show ?case using evolves_refl keeps_pages_refl by auto
next
  case (Cons va vas)
  show ?case
  proof (cases "isContained (blk s p) va")
    case False
    then show ?thesis using getPTE_eq [OF Cons.prems(2), of va] by simp
  next
    case True
    obtain i where i: "getPTE (blk s p) va = Inr i" "i < length (iv_ptes (blk s p))"
      using getPTE_contained [OF Cons.prems(2) True] by blast
    obtain s1 where s1: "(if sp_present (spte_at s p i) then vm_delEntry va s else Inr s) = Inr s1" "evolves L s s1"
      "unused L s1 p i" "keeps_pages s s1"
    proof (cases "sp_present (spte_at s p i)")
      case True
      then show thesis using that delEntry_unused [OF Cons.prems i(1)] quiet_keeps by auto
    next
      case False
      then show thesis
        using that [of s] unused_absent [OF Cons.prems(1)] evolves_refl [OF Cons.prems(1)] keeps_pages_refl by simp
    qed
    obtain rc s2 where s2: "set_perm p i t s1 = (rc, s2)" by (cases "set_perm p i t s1")
    have i1: "i < length (iv_ptes (blk s1 p))" using i(2) evolves_fields(3) [OF s1(2)] by simp
    note sp = set_perm_evolves [OF evolvesD(1) [OF s1(2)] i1 s1(3) s2]
    note e = evolves_trans [OF s1(2) sp(1)] and k = keeps_pages_trans [OF s1(4) sp(2)]
    show ?thesis
    proof (cases "rc = 0")
      case False
      then show ?thesis using i(1) s1(1) s2 e k by auto
    next
      case True
      have "block_ok (blk s2 p)" using Cons.prems(2) evolves_fields(4) [OF e] by simp
      from Cons.IH [OF evolvesD(1) [OF e] this] show ?thesis
        using i(1) s1(1) s2 True evolves_trans [OF e] keeps_pages_trans [OF k] evolves_fields(5) [OF e] by auto
    qed
  qed
qed

lemma page_list_same [simp]: "page_list a a = []"
  by (simp add: page_list.simps)

lemma page_list_one: "set (page_list a (a + page_size)) \<subseteq> {a}"
  by (subst page_list.simps) auto

lemma BaseSegment_perm_page:
  assumes g: "good L s"
  shows "\<exists>rc s'. BaseSegment_mmSetPermission va 0 t s = Inr (rc, s') \<and> evolves L s s' \<and> keeps_pages s s'"
proof (cases "find_block s (base_chain s) (ALIGN_PAGE_DOWN va)")
  case None
  then show ?thesis using evolves_refl [OF g] keeps_pages_refl [of s]
    by (simp add: BaseSegment_mmSetPermission_def Block_mmSetPermission_def)
next
  case (Some p)
  let ?a = "ALIGN_PAGE_DOWN va"
  have p: "p \<in> set (base_chain s)" "isContained (blk s p) ?a" using find_block_Some [OF Some] by simp_all
  have b: "block_ok (blk s p)" using good_usage(2) [OF g] p(1) by (auto simp: vm_wf_def)
  have "ALIGN_PAGE_UP 0 = 0" by (simp add: ALIGN_PAGE_UP_def page_size_def)
  then have "BaseSegment_mmSetPermission va 0 t s = perm_loop p t (page_list ?a (?a + page_size)) s"
    using Some by (simp add: BaseSegment_mmSetPermission_def Block_mmSetPermission_def Let_def)
  then show ?thesis using perm_loop_evolves [OF g b, of t "page_list ?a (?a + page_size)"] page_list_one [of ?a] p(2) by auto
qed

subsection \<open>Pages, messages and handlers\<close>

lemma allowed_cong:
  assumes "skel s' = skel s" "\<And>p i. spte_at s' p i = spte_at s p i"
  shows "allowed L s' = allowed L s"
proof -
  have "spte_allows s' p i x = spte_allows s p i x" for p i x
    unfolding spte_allows_def frame_of_def assms(2) skelD(1) [OF assms(1)] shapeD(3,6) [OF skelD(7) [OF assms(1)]] by (rule refl)
  then have "allowed L s' va x = allowed L s va x" for va x
    unfolding allowed_def segment_of_skel [OF assms(1)] governs_skel [OF assms(1)] by presburger
  then show ?thesis by (intro ext)
qed

lemma evolves_other:
  assumes "good L s" "skel s' = skel s" "\<And>p i. spte_at s' p i = spte_at s p i" "ptm s' = ptm s"
    and "pm_inv (pgm s')" "msgs_ok s'" "hdlrs_ok s'"
  shows "evolves L s s'"
  using good_skel [OF assms(1,2) _ assms(5-7)] assms(1,2,4) allowed_cong [OF assms(2,3)]
  by (simp add: evolves_def good_def)

lemma evolves_pgm:
  assumes "good L s" "pm_inv m"
  shows "evolves L s (s\<lparr>pgm := m\<rparr>)"
proof (rule evolves_other [OF assms(1)])
  show sk: "skel (s\<lparr>pgm := m\<rparr>) = skel s" by (simp add: skel_def)
  show "msgs_ok (s\<lparr>pgm := m\<rparr>)" using msgs_ok_skel [OF sk] assms(1) by (simp add: good_def)
qed (use assms in \<open>simp_all add: good_def hdlrs_ok_def spte_at_def\<close>)

lemma vm_freePage_evolves:
  assumes "good L s" "pg \<noteq> NULL" "PAGESIZE dvd pg"
  shows "\<exists>s'. vm_freePage pg s = Inr s' \<and> evolves L s s'"
proof -
  have "pm_inv (pgm s)" using assms(1) by (simp add: good_def)
  then obtain m where "pm_freePage pg 1 (pgm s) = Inr m" "pm_inv m"
    using pm_freePage_inv [of "pgm s" pg 1] assms(2,3) by (auto simp: BUCKETS_def)
  then show ?thesis using evolves_pgm [OF assms(1)] by (auto simp: vm_freePage_def)
qed

lemma getPageAddr_page:
  assumes "getPageAddr q \<noteq> 0"
  shows "unat (getPageAddr q) \<noteq> NULL" "PAGESIZE dvd unat (getPageAddr q)" "(ucast (getPageAddr q) :: u64) \<noteq> 0"
    "4096 dvd unat (ucast (getPageAddr q) :: u64)"
proof -
  have u: "unat (ucast (w :: u32) :: u64) = unat w" for w
    using unsigned_less [of w, where ?'a = nat] by (simp add: unsigned_ucast_eq take_bit_nat_eq_self)
  have "getPageAddr q = ucast (sp_page q) * 4096" by (simp add: getPageAddr_def push_bit_eq_mult)
  moreover have "unat (ucast (sp_page q) :: u32) < 2 ^ 20"
    using unsigned_less [of "sp_page q", where ?'a = nat] by (simp add: unsigned_ucast_eq take_bit_nat_eq_self)
  ultimately have "unat (getPageAddr q) = unat (ucast (sp_page q) :: u32) * 4096" by (simp add: unat_word_ariths)
  then show "PAGESIZE dvd unat (getPageAddr q)" by (simp add: PAGESIZE_def)
  then show "4096 dvd unat (ucast (getPageAddr q) :: u64)" by (simp add: u PAGESIZE_def)
  show n: "unat (getPageAddr q) \<noteq> NULL" using assms by (simp add: unat_eq_0)
  then show "(ucast (getPageAddr q) :: u64) \<noteq> 0" using u by (metis unat_0)
qed

lemma releaseSPTE_evolves:
  assumes g: "good L s" and i: "i < length (iv_ptes (blk s p))" and un: "unused L s p i"
  shows "\<exists>s'. releaseSPTE p i s = Inr s' \<and> evolves L s s'"
proof -
  let ?s1 = "upd_spte p i (\<lambda>q. q\<lparr>sp_dirty := False, sp_present := False\<rparr>) s"
  have e1: "evolves L s ?s1" by (rule upd_evolves [OF g i un])
  obtain rc s2 where s2: "BaseSegment_mmSetPermission (ucast (getPageAddr (spte_at ?s1 p i))) 0 WRITABLE ?s1 = Inr (rc, s2)"
    "evolves L ?s1 s2" using BaseSegment_perm_page [OF evolvesD(1) [OF e1]] by blast
  note e2 = evolves_trans [OF e1 s2(2)]
  have "evolves L s2 (upd_spte p i (setPageAddr 0) s2)"
    using upd_evolves [OF evolvesD(1) [OF e2] _ unused_evolves [OF e2 un]] i evolves_fields(3) [OF e2] by simp
  then show ?thesis using s2(1) evolves_trans [OF e2] by (simp add: releaseSPTE_def)
qed

lemma release_and_free:
  assumes "good L s" "i < length (iv_ptes (blk s p))" "unused L s p i" "getPageAddr q \<noteq> 0"
  shows "\<exists>s'. sbind (releaseSPTE p i s) (vm_freePage (unat (getPageAddr q))) = Inr s' \<and> evolves L s s'"
proof -
  obtain s1 where s1: "releaseSPTE p i s = Inr s1" "evolves L s s1" using releaseSPTE_evolves [OF assms(1-3)] by blast
  obtain s2 where "vm_freePage (unat (getPageAddr q)) s1 = Inr s2" "evolves L s1 s2"
    using vm_freePage_evolves [OF evolvesD(1) [OF s1(2)] getPageAddr_page(1,2) [OF assms(4)]] by blast
  then show ?thesis using s1 evolves_trans by auto
qed

lemma send_fields [simp]:
  "skel (send_msg p ty va pg t s) = skel s" "spte_at (send_msg p ty va pg t s) q j = spte_at s q j"
  "ptm (send_msg p ty va pg t s) = ptm s" "pgm (send_msg p ty va pg t s) = pgm s" "blk (send_msg p ty va pg t s) = blk s"
  by (simp_all add: send_msg_def skel_def spte_at_def)

lemma msgs_ok_send:
  assumes "msgs_ok s"
    and "ty = MSG_MM_RP_READ \<Longrightarrow> segment_of s va = Some BaseSegment \<and> find_block s (base_chain s) va = Some p"
    and "ty = MSG_MM_RP_WRITE \<Longrightarrow> p \<in> set (base_chain s) \<and> iv_writeMsgHdlr (blk s p) \<noteq> None"
  shows "msgs_ok (send_msg p ty va pg t s)"
proof -
  have sk: "skel (send_msg p ty va pg t s) = skel s" by simp
  show ?thesis
    using assms unfolding msgs_ok_def segment_of_skel [OF sk] find_block_skel [OF sk] skelD(3) [OF sk]
    by (auto simp: send_msg_def)
qed

lemma send_evolves:
  assumes "good L s"
    and "ty = MSG_MM_RP_READ \<Longrightarrow> segment_of s va = Some BaseSegment \<and> find_block s (base_chain s) va = Some p"
    and "ty = MSG_MM_RP_WRITE \<Longrightarrow> p \<in> set (base_chain s) \<and> iv_writeMsgHdlr (blk s p) \<noteq> None"
  shows "evolves L s (send_msg p ty va pg t s)"
  by (rule evolves_other [OF assms(1)]) (use assms(1) msgs_ok_send [OF _ assms(2,3)] in \<open>simp_all add: good_def hdlrs_ok_def\<close>)

lemma whdlr_fields [simp]:
  "skel (upd_whdlr p f s) = skel s" "spte_at (upd_whdlr p f s) q j = spte_at s q j"
  "ptm (upd_whdlr p f s) = ptm s" "pgm (upd_whdlr p f s) = pgm s" "sent (upd_whdlr p f s) = sent s"
  by (auto simp: upd_whdlr_def skel_def spte_at_def shape_def fun_eq_iff)

lemma incMsgCount_va2pa [simp]: "iv_va2paList (incMsgCount t h) = iv_va2paList h"
  by (simp add: incMsgCount_def split: option.split)

lemma whdlr_evolves:
  assumes "good L s"
    and "\<And>h va pa. iv_writeMsgHdlr (blk s p) = Some h \<Longrightarrow> (va, pa) \<in> set (iv_va2paList (f h)) \<Longrightarrow>
      (va, pa) \<in> set (iv_va2paList h) \<or> pa \<noteq> 0 \<and> 4096 dvd unat pa"
  shows "evolves L s (upd_whdlr p f s)"
proof (rule evolves_other [OF assms(1)])
  show "msgs_ok (upd_whdlr p f s)" using msgs_ok_skel [of "upd_whdlr p f s" s] assms(1) by (simp add: good_def)
  have "hdlrs_ok s" using assms(1) by (simp add: good_def)
  then show "hdlrs_ok (upd_whdlr p f s)"
    unfolding hdlrs_ok_def using assms(2) by (auto simp: upd_whdlr_def split: if_splits) blast+
qed (use assms(1) in \<open>simp_all add: good_def\<close>)


subsection \<open>Removing and casting out\<close>

lemma remove_page_evolves:
  assumes g: "good L s" and p: "p \<in> set (base_chain s)" and c: "isContained (blk s p) va"
  shows "\<exists>s'. remove_page op p task va s = Inr s' \<and> evolves L s s'"
proof -
  have b: "block_ok (blk s p)" using vm_wf_block [OF good_usage(2) [OF g]] p by simp
  obtain i where i: "getPTE (blk s p) va = Inr i" "i < length (iv_ptes (blk s p))" using getPTE_contained [OF b c] by blast
  let ?q = "spte_at s p i"
  show ?thesis
  proof (cases "sp_present ?q \<and> getPageAddr ?q \<noteq> 0")
    case False
    then have "remove_page op p task va s = Inr s" using i(1) by (auto simp: remove_page_def Let_def)
    then show ?thesis using evolves_refl [OF g] by blast
  next
    case True
    obtain s1 where s1: "vm_delEntry va s = Inr s1" "evolves L s s1" "unused L s1 p i"
      using delEntry_unused [OF g b i(1)] by blast
    have i1: "i < length (iv_ptes (blk s1 p))" using i(2) evolves_fields(3) [OF s1(2)] by simp
    note g1 = evolvesD(1) [OF s1(2)]
    obtain s2 where s2: "releaseSPTE p i s1 = Inr s2" "evolves L s1 s2" using releaseSPTE_evolves [OF g1 i1 s1(3)] by blast
    obtain s3 where s3: "sbind (releaseSPTE p i s1) (vm_freePage (unat (getPageAddr ?q))) = Inr s3" "evolves L s1 s3"
      using release_and_free [OF g1 i1 s1(3), of ?q] True by blast
    let ?q1 = "spte_at s1 p i"
    have eq: "remove_page op p task va s =
      (if sp_dirty ?q1 \<and> sp_track_write ?q1 \<and> iv_writeMsgHdlr (blk s1 p) \<noteq> None then
         Inr (send_msg p MSG_MM_RP_WRITE va (ucast (getPageAddr ?q)) task
           (upd_whdlr p (addVirtAddr va (ucast (getPageAddr ?q)))
             (case task of None \<Rightarrow> s2 | Some t \<Rightarrow> upd_whdlr p (incMsgCount t) s2)))
       else if sp_dirty ?q1 \<and> \<not> sp_track_write ?q1 \<and> op = EVICT then Inr s1
       else if op \<noteq> FLUSH then Inr s3 else Inr s1)"
      using i(1) True s1(1) s2(1) s3(1) by (auto simp: remove_page_def Let_def)
    show ?thesis
    proof (cases "sp_dirty ?q1 \<and> sp_track_write ?q1 \<and> iv_writeMsgHdlr (blk s1 p) \<noteq> None")
      case False
      then show ?thesis unfolding eq using s1(2) evolves_trans [OF s1(2) s3(2)] by (auto split: if_splits)
    next
      case True
      let ?s3 = "case task of None \<Rightarrow> s2 | Some t \<Rightarrow> upd_whdlr p (incMsgCount t) s2"
      let ?s4 = "upd_whdlr p (addVirtAddr va (ucast (getPageAddr ?q))) ?s3"
      have e3: "evolves L s2 ?s3"
      proof (cases task)
        case (Some t)
        then show ?thesis using whdlr_evolves [OF evolvesD(1) [OF s2(2)], of p "incMsgCount t"] by simp
      qed (use evolves_refl [OF evolvesD(1) [OF s2(2)]] in simp)
      have e4: "evolves L ?s3 ?s4"
        by (rule whdlr_evolves [OF evolvesD(1) [OF e3]])
          (use getPageAddr_page(3,4) [of ?q] \<open>sp_present ?q \<and> getPageAddr ?q \<noteq> 0\<close> in \<open>auto simp: addVirtAddr_def\<close>)
      note e = evolves_trans [OF evolves_trans [OF s2(2) e3] e4]
      have "p \<in> set (base_chain ?s4)" using p evolves_fields(1) [OF evolves_trans [OF s1(2) e]] by simp
      moreover have "iv_writeMsgHdlr (blk ?s4 p) \<noteq> None"
        using True shapeD(5) [OF evolves_fields(2) [OF e], of p] by simp
      ultimately have "evolves L ?s4 (send_msg p MSG_MM_RP_WRITE va (ucast (getPageAddr ?q)) task ?s4)"
        by (intro send_evolves [OF evolvesD(1) [OF e]]) simp_all
      then show ?thesis unfolding eq using True evolves_trans [OF evolves_trans [OF s1(2) e]] by auto
    qed
  qed
qed


lemma sfold_evolves:
  assumes "good L s" and "\<And>x s1. x \<in> set xs \<Longrightarrow> evolves L s s1 \<Longrightarrow> \<exists>s'. f x s1 = Inr s' \<and> evolves L s1 s'"
  shows "\<exists>s'. sfold f xs s = Inr s' \<and> evolves L s s'"
  using assms
proof (induction xs arbitrary: s)
  case Nil
  then show ?case using evolves_refl by simp
next
  case (Cons x xs)
  obtain s1 where s1: "f x s = Inr s1" "evolves L s s1"
    using Cons.prems(2) [of x s] evolves_refl [OF Cons.prems(1)] by auto
  from Cons.IH [OF evolvesD(1) [OF s1(2)] Cons.prems(2)] evolves_trans [OF s1(2)]
  obtain s' where "sfold f xs s1 = Inr s'" "evolves L s1 s'" by (meson list.set_intros(2))
  then show ?case using s1 evolves_trans by auto
qed

lemma page_list_bounds: "va \<in> set (page_list lo hi) \<Longrightarrow> lo \<le> va \<and> va < hi"
proof (induction lo hi rule: page_list.induct)
  case (1 lo hi)
  show ?case
  proof (cases "lo < hi")
    case True
    then have "va = lo \<or> lo < lo + page_size \<and> va \<in> set (page_list (lo + page_size) hi)"
      using "1.prems" by (subst (asm) page_list.simps) (auto split: if_splits)
    then show ?thesis
    proof
      assume h: "lo < lo + page_size \<and> va \<in> set (page_list (lo + page_size) hi)"
      with "1.IH" [OF True] show ?thesis by auto
    qed (use True in simp)
  next
    case False
    then show ?thesis using "1.prems" by (subst (asm) page_list.simps) simp
  qed
qed

lemma Block_removePages_evolves:
  assumes g: "good L s" and ps: "set ps \<subseteq> set (base_chain s)"
  shows "\<exists>rc s'. Block_removePages op ps va sz task s = Inr (rc, s') \<and> evolves L s s'"
proof -
  let ?a = "ALIGN_PAGE_DOWN va" and ?n = "ALIGN_PAGE_UP (sz + va mod page_size)"
  show ?thesis
  proof (cases "find_block s ps ?a")
    case None
    then have "Block_removePages op ps va sz task s = Inr (- EINVAL, s)" by (simp add: Block_removePages_def Let_def)
    then show ?thesis using evolves_refl [OF g] by blast
  next
    case (Some p)
    have p: "p \<in> set (base_chain s)" "isContained (blk s p) ?a" using find_block_Some [OF Some] ps by auto
    show ?thesis
    proof (cases "?a + ?n > iv_baseAddr (blk s p) + iv_size (blk s p)")
      case True
      then have "Block_removePages op ps va sz task s = Inr (- EINVAL, s)" using Some by (simp add: Block_removePages_def Let_def)
      then show ?thesis using evolves_refl [OF g] by blast
    next
      case False
      have "\<exists>s'. remove_page op p task w s1 = Inr s' \<and> evolves L s1 s'"
        if w: "w \<in> set (page_list ?a (?a + ?n))" and e: "evolves L s s1" for w s1
      proof (rule remove_page_evolves [OF evolvesD(1) [OF e]])
        show "p \<in> set (base_chain s1)" using p(1) evolves_fields(1) [OF e] by simp
        have "isContained (blk s p) w" using page_list_bounds [OF w] p(2) False unfolding isContained_def
          by (meson less_le_trans not_less order_trans)
        then show "isContained (blk s1 p) w" using evolves_fields(5) [OF e] by simp
      qed
      from sfold_evolves [of L s "page_list ?a (?a + ?n)" "remove_page op p task", OF g this] obtain s' where
        "sfold (remove_page op p task) (page_list ?a (?a + ?n)) s = Inr s'" "evolves L s s'" by blast
      then show ?thesis using Some False by (auto simp: Block_removePages_def Let_def)
    qed
  qed
qed

lemma counters_evolve:
  assumes "good L s"
  shows "evolves L s (s\<lparr>cv_ro_evict_req := a\<rparr>)" "evolves L s (s\<lparr>cv_rw_evict_req := a\<rparr>)"
proof -
  have sk: "skel (s\<lparr>cv_ro_evict_req := a\<rparr>) = skel s" "skel (s\<lparr>cv_rw_evict_req := a\<rparr>) = skel s" by (simp_all add: skel_def)
  show "evolves L s (s\<lparr>cv_ro_evict_req := a\<rparr>)"
    using evolves_other [OF assms sk(1)] msgs_ok_skel [OF sk(1)] assms by (simp add: good_def hdlrs_ok_def spte_at_def)
  show "evolves L s (s\<lparr>cv_rw_evict_req := a\<rparr>)"
    using evolves_other [OF assms sk(2)] msgs_ok_skel [OF sk(2)] assms by (simp add: good_def hdlrs_ok_def spte_at_def)
qed

lemma cast_page_evolves:
  assumes g: "good L s" and ps: "set (p # ps) \<subseteq> set (base_chain s)" and c: "isContained (blk s p) va"
  shows "\<exists>s'. cast_page rw ro (p # ps) va s = Inr s' \<and> evolves L s s'"
proof -
  have "block_ok (blk s p)" using vm_wf_block [OF good_usage(2) [OF g]] ps by auto
  then obtain i where i: "getPTE (blk s p) va = Inr i" using getPTE_contained [OF _ c] by blast
  obtain rc s1 where s1: "Block_removePages EVICT (p # ps) va page_size None s = Inr (rc, s1)" "evolves L s s1"
    using Block_removePages_evolves [OF g ps] by blast
  show ?thesis
    using i s1 evolves_refl [OF g] evolves_trans [OF s1(2) counters_evolve(1) [OF evolvesD(1) [OF s1(2)]]]
      evolves_trans [OF s1(2) counters_evolve(2) [OF evolvesD(1) [OF s1(2)]]]
    by (auto simp: cast_page_def Let_def)
qed

lemma Block_castOutPages_evolves:
  "good L s \<Longrightarrow> set ps \<subseteq> set (base_chain s) \<Longrightarrow> \<exists>s'. Block_castOutPages a c ps s = Inr s' \<and> evolves L s s'"
proof (induction ps)
  case Nil
  then show ?case using evolves_refl by simp
next
  case (Cons p ps)
  obtain s1 where s1: "Block_castOutPages a c ps s = Inr s1" "evolves L s s1" using Cons by auto
  let ?b = "blk s1 p" and ?rw = "if a \<or> c then 2 else 5 :: 3 word" and ?ro = "if a \<or> c then 1 else 6 :: 3 word"
  have "\<exists>s'. cast_page ?rw ?ro (p # ps) w s2 = Inr s' \<and> evolves L s2 s'"
    if w: "w \<in> set (page_list (iv_baseAddr ?b) (iv_baseAddr ?b + iv_size ?b))" and e: "evolves L s1 s2" for w s2
  proof (rule cast_page_evolves [OF evolvesD(1) [OF e]])
    show "set (p # ps) \<subseteq> set (base_chain s2)"
      using Cons.prems(2) evolves_fields(1) [OF evolves_trans [OF s1(2) e]] by simp
    have "isContained ?b w" using page_list_bounds [OF w] by (simp add: isContained_def)
    then show "isContained (blk s2 p) w" using evolves_fields(5) [OF e] by simp
  qed
  from sfold_evolves [of L s1 "page_list (iv_baseAddr ?b) (iv_baseAddr ?b + iv_size ?b)" "cast_page ?rw ?ro (p # ps)",
      OF evolvesD(1) [OF s1(2)] this] obtain s2 where
    s2: "sfold (cast_page ?rw ?ro (p # ps)) (page_list (iv_baseAddr ?b) (iv_baseAddr ?b + iv_size ?b)) s1 = Inr s2"
      "evolves L s1 s2" by blast
  show ?case using s1 s2 evolves_trans [OF s1(2) s2(2)] by (auto simp: Let_def)
qed

end
