(* ===== verification/Vm_Faults.thy ===== *)
theory Vm_Faults
  imports Vm_Coherence
begin

text \<open>
  The operations that let the hardware see a page, page faults and the responses of resource
  providers, and those that create and delete blocks. All of them keep the hardware table within
  what the shadow tables allow.
\<close>

section \<open>Entering a page\<close>

lemma access_of_accessType:
  "access_kind (accessType b q) = (if sp_executable q then EXECUTABLE else if sp_writable q \<and> sp_dirty q then WRITABLE else READ_ONLY)"
  "accessType b q \<noteq> CI_ACCESS" "BYPASS_HRMOR AND accessType b q = 0 \<longleftrightarrow> \<not> iv_mappedToPhysical b"
  by (auto simp: access_kind_def accessType_def READ_ONLY_def WRITABLE_def EXECUTABLE_def BYPASS_HRMOR_def CI_ACCESS_def)

text \<open>A frame number of at most 45 bits survives the table.\<close>

lemma take_45: "(w :: u64) < 2 ^ 45 \<Longrightarrow> take_bit 45 w = w"
  by (simp add: take_bit_eq_mod word_unat_eq_iff unat_mod word_less_nat_alt)

lemma frame_45: "(w :: u64) < 2 ^ 45 \<Longrightarrow> ucast (ucast w :: 45 word) = w"
proof -
  assume "w < 2 ^ 45"
  moreover have "(ucast (ucast w :: 45 word) :: u64) = take_bit 45 w" by (rule bit_word_eqI) (auto simp: bit_simps)
  ultimately show ?thesis by (simp add: take_45)
qed

lemma frame_of_small:
  assumes "unat (hrmor s) < 2 ^ 57"
  shows "frame_of s p i < 2 ^ 45"
proof -
  have pg: "take_bit 45 (ucast (sp_page (spte_at s p i)) :: u64) = ucast (sp_page (spte_at s p i))"
    by (rule bit_word_eqI) (auto simp: bit_simps dest: bit_imp_le_length)
  have "hrmor s div of_nat PAGESIZE < 2 ^ 45"
    using assms by (simp add: word_less_nat_alt unat_div PAGESIZE_def less_mult_imp_div_less)
  then have h: "take_bit 45 (hrmor s div of_nat PAGESIZE) = hrmor s div of_nat PAGESIZE"
    by (simp add: take_45)
  have "take_bit 45 (frame_of s p i) = frame_of s p i"
    unfolding frame_of_def using pg h by (auto simp: take_bit_or)
  moreover have "take_bit 45 (w :: u64) < 2 ^ 45" for w by (simp add: take_bit_eq_mod word_mod_less_divisor)
  ultimately show ?thesis by metis
qed


lemma governs_segment: "governs L s va = Some (p, i) \<Longrightarrow> segment_of s va = Some BaseSegment \<or> segment_of s va = Some StackSegment"
  by (cases rule: chain_of_cases [of s va L]) (auto simp: governs_def)

lemma allowed_governed:
  assumes "governs L s va = Some (p, i)"
  shows "allowed L s va x = spte_allows s p i x"
  using governs_segment [OF assms] assms by (auto simp: allowed_def)

lemma good_hrmor: "good L s \<Longrightarrow> unat (hrmor s) < 2 ^ 57"
  by (simp add: good_def vm_wf_def)

lemma add_page_good:
  assumes g: "good L s" and gv: "governs L s va = Some (p, i)" and pr: "sp_present (spte_at s p i)"
  shows "\<exists>s' x. add_page junk p i va s = Inr s' \<and> good L s' \<and> pt_quiet s s' \<and> translate (ptm s') va = Some x
    \<and> ucast (fst x) = frame_of s p i \<and> hw_access x = Inr (access_kind (accessType (blk s p) (spte_at s p i)))
    \<and> (\<forall>w. page_addr w \<noteq> page_addr va \<longrightarrow> translate (ptm s') w = None \<or> translate (ptm s') w = translate (ptm s) w)"
proof -
  let ?q = "spte_at s p i" and ?a = "accessType (blk s p) (spte_at s p i)" and ?pg = "frame_of s p i"
  have f: "ucast (ucast ?pg :: 45 word) = ?pg" by (rule frame_45 [OF frame_of_small [OF good_hrmor [OF g]]])
  have d: "ucast (fst x) = ?pg \<and> hw_access x = Inr (access_kind ?a)" if "entry_data ?pg ?a x" for x
    using entry_dataD [OF that] f by simp
  have i: "i < length (iv_ptes (blk s p))"
    using governsD [OF good_usage(2) [OF g] gv] getPTE_D(2) by blast
  have eq: "addEntry (hrmor s) junk va (ucast (sp_page ?q)) ?a t = ptmgr_addEntry junk va ?pg ?a t" for t
    by (auto simp: addEntry_def frame_of_def access_of_accessType)
  have fr: "ucast (fst x) = ?pg" if "allowed L s va x" for x
    using that allowed_governed [OF gv] by (simp add: spte_allows_def)
  have new: "allowed L s w x" if "page_addr w = page_addr va" "entry_data ?pg ?a x" for w x
  proof -
    have "governs L s w = Some (p, i)"
      using governs_page [OF good_usage(2) [OF g], of w va] that(1) gv page_addr_pno by simp
    then show ?thesis using allowed_governed [of L s w p i x] d [OF that(2)] pr i
      by (auto simp: spte_allows_def access_of_accessType)
  qed
  from vm_addEntry_good [OF g eq fr new] obtain s' x where
    "vm_addEntry junk va (ucast (sp_page ?q)) ?a s = Inr s'" "good L s'" "pt_quiet s s'" "translate (ptm s') va = Some x"
    "entry_data ?pg ?a x"
    "\<forall>w. page_addr w \<noteq> page_addr va \<longrightarrow> translate (ptm s') w = None \<or> translate (ptm s') w = translate (ptm s) w"
    by blast
  then show ?thesis using d by (intro exI [of _ s'] exI [of _ x]) (simp add: add_page_def)
qed

section \<open>Page faults of blocks\<close>

lemma align_page: "va div page_size * page_size = page_addr va" "ALIGN_PAGE_DOWN va = page_addr va"
proof -
  have e: "va - va mod page_size = page_addr va" using align_down_page [of va] by (simp add: PAGESIZE_def page_size_def)
  then show "ALIGN_PAGE_DOWN va = page_addr va" by (simp add: ALIGN_PAGE_DOWN_def)
  show "va div page_size * page_size = page_addr va" using e div_mult_mod_eq [of va page_size] by (metis add_diff_cancel_right')
qed

lemma pno_page_addr [simp]: "pno (page_addr va) = pno va"
  using page_addr_pno [of "page_addr va" va] by simp

lemma upd_allows:
  assumes "i < length (iv_ptes (blk s p))" "spte_allows s p i x"
  shows "spte_allows (upd_spte p i (\<lambda>q. q\<lparr>sp_dirty := True\<rparr>) s) p i x" "spte_allows (upd_spte p i (\<lambda>q. q\<lparr>sp_present := True\<rparr>) s) p i x"
  using assms by (auto simp: spte_allows_def frame_of_def spte_at_upd)

lemma mark_evolves:
  assumes "good L s" "i < length (iv_ptes (blk s p))"
  shows "evolves L s (upd_spte p i (\<lambda>q. q\<lparr>sp_dirty := True\<rparr>) s)" "evolves L s (upd_spte p i (\<lambda>q. q\<lparr>sp_present := True\<rparr>) s)"
  using good_upd [OF assms] upd_allows [OF assms(2)] by (auto simp: evolves_def)

lemma alloc_evolves:
  assumes "good L s"
  shows "\<exists>pg m. pm_allocatePage 1 False True (pgm s) = Inr (pg, m) \<and> evolves L s (s\<lparr>pgm := m\<rparr>)"
proof -
  obtain pg m where pm: "pm_allocatePage 1 False True (pgm s) = Inr (pg, m)"
    using pm_allocatePage_oom_total [of 1 False "pgm s"] by auto
  have "pm_inv (pgm s)" using assms by (simp add: good_def)
  then have "pm_inv m" using pm_allocatePage_inv [OF _ _ pm] by simp
  then show ?thesis using pm evolves_pgm [OF assms] by blast
qed

lemma memset_evolves: "good L s \<Longrightarrow> evolves L s (memset_page pg s)"
proof -
  assume g: "good L s"
  have sk: "skel (memset_page pg s) = skel s" by (simp add: memset_page_def skel_def)
  show ?thesis
    using evolves_other [OF g sk] msgs_ok_skel [OF sk] g by (simp add: memset_page_def good_def hdlrs_ok_def spte_at_def)
qed

lemma governs_find:
  "governs L s va = Some (p, i) \<longleftrightarrow>
     find_block s (chain_of L s va) va = Some p \<and> i = pno va - pno (iv_baseAddr (blk s p))"
  by (auto simp: governs_def)

lemma read_block_base:
  assumes g: "good L s" and gv: "governs L s va = Some (p, i)" and r: "iv_readMsgHdlr (blk s p)"
  shows "segment_of s va = Some BaseSegment" "find_block s (base_chain s) va = Some p"
proof -
  have f: "find_block s (chain_of L s va) va = Some p" using gv governs_find by blast
  have n: "p \<notin> snd ` set L" using g r by (auto simp: good_def handlers_base_def)
  show "segment_of s va = Some BaseSegment" "find_block s (base_chain s) va = Some p"
    using f n by (cases rule: chain_of_cases [of s va L]; force dest: map_of_SomeD split: if_splits)+
qed

lemma governs_align:
  assumes "good L s" "governs L s va = Some (p, i)"
  shows "governs L s (page_addr va) = Some (p, i)" "getPTE (blk s p) (page_addr va) = Inr i" "i < length (iv_ptes (blk s p))"
proof -
  show g: "governs L s (page_addr va) = Some (p, i)"
    using governs_page [OF good_usage(2) [OF assms(1)], of "page_addr va" va] assms(2) by simp
  note d = governsD [OF good_usage(2) [OF assms(1)] g]
  show "getPTE (blk s p) (page_addr va) = Inr i" by (rule d(3))
  show "i < length (iv_ptes (blk s p))" by (rule getPTE_D(2) [OF d(2,3)])
qed

text \<open>
  How a page fault ends: it is refused, with nothing entered; or a message to the resource provider
  is on its way; or the hardware table has the page, with the access its entry gives.
\<close>

definition awaiting :: "addr \<Rightarrow> u64 \<Rightarrow> vmm \<Rightarrow> vmm \<Rightarrow> bool" where
  "awaiting p va s s' \<longleftrightarrow> (\<exists>pg task. sent s' = sent s @
     [\<lparr>mm_block = p, mm_type = MSG_MM_RP_READ, mm_va = page_addr va, mm_page = pg, mm_task = task\<rparr>])"

definition entered :: "addr \<Rightarrow> nat \<Rightarrow> u64 \<Rightarrow> bool \<Rightarrow> vmm \<Rightarrow> bool" where
  "entered p i va store s \<longleftrightarrow> (\<exists>x. translate (ptm s) va = Some x \<and> spte_allows s p i x
     \<and> hw_access x = Inr (access_kind (accessType (blk s p) (spte_at s p i)))) \<and> (store \<longrightarrow> sp_dirty (spte_at s p i))"

definition faulted :: "(u64 \<times> addr) list \<Rightarrow> addr \<Rightarrow> nat \<Rightarrow> u64 \<Rightarrow> bool \<Rightarrow> vmm \<Rightarrow> bool \<times> bool \<times> vmm \<Rightarrow> bool" where
  "faulted L p i va store s r \<longleftrightarrow> (case r of (ok, oom, s') \<Rightarrow>
     good L s' \<and> skel s' = skel s
     \<and> (if ok then \<not> oom \<and> (awaiting p va s s' \<or> sent s' = sent s \<and> entered p i va store s')
        else sent s' = sent s \<and> translate (ptm s') va = translate (ptm s) va))"

lemma faulted_refuse: "evolves L s s' \<Longrightarrow> sent s' = sent s \<Longrightarrow> ptm s' = ptm s \<Longrightarrow> faulted L p i va store s (False, oom, s')"
  by (simp add: faulted_def evolves_def)

lemma faulted_enter:
  assumes e: "evolves L s s1" and gv: "governs L s va = Some (p, i)" and pr: "sp_present (spte_at s1 p i)"
    and se: "sent s1 = sent s" and di: "store \<Longrightarrow> sp_dirty (spte_at s1 p i)"
  shows "\<exists>s'. add_page junk p i (page_addr va) s1 = Inr s' \<and> faulted L p i va store s (True, False, s')"
proof -
  have gv1: "governs L s1 (page_addr va) = Some (p, i)"
    using governs_align(1) [OF evolvesD(1) [OF e]] governs_skel [OF evolvesD(2) [OF e]] gv by simp
  have gv2: "governs L s1 va = Some (p, i)" using governs_skel [OF evolvesD(2) [OF e]] gv by simp
  obtain s' x where s': "add_page junk p i (page_addr va) s1 = Inr s'" "good L s'" "pt_quiet s1 s'" "translate (ptm s') (page_addr va) = Some x"
    "hw_access x = Inr (access_kind (accessType (blk s1 p) (spte_at s1 p i)))"
    using add_page_good [OF evolvesD(1) [OF e] gv1 pr] by blast
  have t: "translate (ptm s') va = Some x" using s'(4) translate_page [of va "page_addr va"] by simp
  have i: "i < length (iv_ptes (blk s1 p))" using governs_align(3) [OF evolvesD(1) [OF e] gv2] .
  note z = zeroLRU_fields [OF quiet_fields(7) [OF s'(3) i]] and sk = quiet_fields(1) [OF s'(3)]
  have "accessType (blk s' p) (spte_at s' p i) = accessType (blk s1 p) (spte_at s1 p i)"
    unfolding accessType_def z shapeD(6) [OF skelD(7) [OF sk]] by (rule refl)
  moreover have "governs L s' va = Some (p, i)" using gv2 governs_skel [OF sk] by simp
  then have "spte_allows s' p i x" using allowed_governed [of L s' va p i x] good_allowed [OF s'(2) t] by simp
  moreover have "store \<Longrightarrow> sp_dirty (spte_at s' p i)" using di z by simp
  ultimately have "entered p i va store s'" unfolding entered_def using s'(5) t by metis
  then have "faulted L p i va store s (True, False, s')"
    using s'(2) sk evolvesD(2) [OF e] quiet_fields(4) [OF s'(3)] se by (simp add: faulted_def)
  then show ?thesis using s'(1) by blast
qed

lemma faulted_send:
  assumes "evolves L s s1" "sent s1 = sent s" "governs L s va = Some (p, i)" "iv_readMsgHdlr (blk s p)"
  shows "faulted L p i va store s (True, False, send_msg p MSG_MM_RP_READ (page_addr va) pg task s1)"
proof -
  have gv: "governs L s1 (page_addr va) = Some (p, i)"
    using governs_align(1) [OF evolvesD(1) [OF assms(1)]] governs_skel [OF evolvesD(2) [OF assms(1)]] assms(3) by simp
  have "iv_readMsgHdlr (blk s1 p)" using assms(4) shapeD(4) [OF evolves_fields(2) [OF assms(1)]] by simp
  note rb = read_block_base [OF evolvesD(1) [OF assms(1)] gv this]
  have "evolves L s1 (send_msg p MSG_MM_RP_READ (page_addr va) pg task s1)"
    by (rule send_evolves [OF evolvesD(1) [OF assms(1)]]) (use rb in simp_all)
  moreover have "awaiting p va s (send_msg p MSG_MM_RP_READ (page_addr va) pg task s1)"
    using assms(2) by (simp add: awaiting_def send_msg_def)
  ultimately show ?thesis using evolvesD(2) [OF assms(1)] by (simp add: faulted_def evolves_def)
qed


lemma fill_zero_page:
  assumes gv: "governs L s va = Some (p, i)" and e: "evolves L s s1" and se: "sent s1 = sent s"
    and np: "\<not> sp_present (spte_at s1 p i)" and di: "store \<Longrightarrow> sp_dirty (spte_at s1 p i)"
  shows "\<exists>rc s2 s3. BaseSegment_mmSetPermission pa 0 READ_ONLY s1 = Inr (rc, s2)
    \<and> add_page junk p i (page_addr va) (upd_spte p i (\<lambda>q. (setPageAddr w q)\<lparr>sp_present := True\<rparr>) (memset_page pg s2)) = Inr s3
    \<and> faulted L p i va store s (True, False, s3)"
proof -
  note g1 = evolvesD(1) [OF e]
  have i1: "i < length (iv_ptes (blk s1 p))"
    using governs_align(3) [OF g1, of va p i] governs_skel [OF evolvesD(2) [OF e]] gv by simp
  obtain rc s2 where s2: "BaseSegment_mmSetPermission pa 0 READ_ONLY s1 = Inr (rc, s2)" "evolves L s1 s2" "keeps_pages s1 s2"
    using BaseSegment_perm_page [OF g1] by blast
  let ?m = "memset_page pg s2"
  let ?u = "upd_spte p i (\<lambda>q. (setPageAddr w q)\<lparr>sp_present := True\<rparr>) ?m"
  have e2: "evolves L s1 ?m" by (rule evolves_trans [OF s2(2) memset_evolves [OF evolvesD(1) [OF s2(2)]]])
  have un: "unused L ?m p i" by (rule unused_evolves [OF e2 unused_absent [OF g1 np]])
  have im: "i < length (iv_ptes (blk ?m p))" using i1 evolves_fields(3) [OF e2] by simp
  have eu: "evolves L s ?u" by (rule evolves_trans [OF evolves_trans [OF e e2] upd_evolves [OF evolvesD(1) [OF e2] im un]])
  have "spte_at ?m p i = spte_at s2 p i" "sent ?m = sent s2" by (simp_all add: memset_page_def spte_at_def)
  then have "store \<Longrightarrow> sp_dirty (spte_at ?u p i)" "sent ?u = sent s" "sp_present (spte_at ?u p i)"
    using s2(3) di se i1 im by (simp_all add: keeps_pages_def spte_at_upd setPageAddr_def)
  then show ?thesis using faulted_enter [OF eu gv] s2(1) by blast
qed

lemma Block_fault_good:
  assumes g: "good L s" and gv: "governs L s va = Some (p, i)"
  shows "\<exists>r. Block_handlePageFault junk (chain_of L s va) task va store True s = Inr r \<and> faulted L p i va store s r"
proof -
  let ?q = "spte_at s p i"
  have fb: "find_block s (chain_of L s va) va = Some p" using gv governs_find by blast
  note al = governs_align [OF g gv]
  define s1 where "s1 = (if store then upd_spte p i (\<lambda>q. q\<lparr>sp_dirty := True\<rparr>) s else s)"
  have e1: "evolves L s s1" using mark_evolves(1) [OF g al(3)] evolves_refl [OF g] by (simp add: s1_def)
  have f1: "sent s1 = sent s" "ptm s1 = ptm s" "pgm s1 = pgm s" "sp_present (spte_at s1 p i) = sp_present ?q"
    "store \<Longrightarrow> sp_dirty (spte_at s1 p i)" using al(3) by (simp_all add: s1_def spte_at_upd)
  obtain pg m where pm: "pm_allocatePage 1 False True (pgm s1) = Inr (pg, m)" "evolves L s1 (s1\<lparr>pgm := m\<rparr>)"
    using alloc_evolves [OF evolvesD(1) [OF e1]] by blast
  let ?s2 = "s1\<lparr>pgm := m\<rparr>"
  note e2 = evolves_trans [OF e1 pm(2)]
  have f2: "sent ?s2 = sent s" "ptm ?s2 = ptm s" "spte_at ?s2 p i = spte_at s1 p i" using f1 by (simp_all add: spte_at_def)
  have i2: "i < length (iv_ptes (blk ?s2 p))" using al(3) evolves_fields(3) [OF e2] by simp
  have eq: "Block_handlePageFault junk (chain_of L s va) task va store True s =
    (if getPermission ?q = NO_ACCESS then Inr (False, False, s)
     else if store \<and> \<not> sp_writable ?q then Inr (False, False, s)
     else if sp_present ?q then sbind (add_page junk p i (page_addr va) s1) (\<lambda>s2. Inr (True, False, s2))
     else if iv_readMsgHdlr (blk s p) then
       if sp_page ?q = 0 then
         if pg = NULL then Inr (False, True, ?s2)
         else Inr (True, False, send_msg p MSG_MM_RP_READ (page_addr va) (of_nat pg) task (upd_spte p i (setPageAddr (of_nat pg)) ?s2))
       else Inr (True, False, send_msg p MSG_MM_RP_READ (page_addr va) (ucast (getPageAddr ?q)) task s1)
     else if sp_allocate_from_zero ?q then
       if pg = NULL then Inr (False, True, ?s2)
       else sbind (BaseSegment_mmSetPermission (of_nat pg) 0 READ_ONLY ?s2) (\<lambda>(_, s2).
              sbind (add_page junk p i (page_addr va)
                  (upd_spte p i (\<lambda>q. (setPageAddr (of_nat pg) q)\<lparr>sp_present := True\<rparr>) (memset_page pg s2)))
                (\<lambda>s3. Inr (True, False, s3)))
     else Inr (False, False, s1))"
    unfolding Block_handlePageFault_def fb option.case align_page Let_def al(2) sbind.simps s1_def [symmetric] pm(1) prod.case
    by (rule refl)
  show ?thesis
  proof (cases "getPermission ?q = NO_ACCESS \<or> store \<and> \<not> sp_writable ?q")
    case True
    then have "Block_handlePageFault junk (chain_of L s va) task va store True s = Inr (False, False, s)"
      unfolding eq by (cases "getPermission ?q = NO_ACCESS") (simp_all only: if_True if_False simp_thms)
    then show ?thesis using faulted_refuse [OF evolves_refl [OF g] refl refl] by blast
  next
    case ok: False
    show ?thesis
    proof (cases "sp_present ?q")
      case True
      then obtain s' where "add_page junk p i (page_addr va) s1 = Inr s'" "faulted L p i va store s (True, False, s')"
        using faulted_enter [OF e1 gv _ f1(1) f1(5)] f1(4) by blast
      moreover have "Block_handlePageFault junk (chain_of L s va) task va store True s
          = sbind (add_page junk p i (page_addr va) s1) (\<lambda>s2. Inr (True, False, s2))"
        unfolding eq using ok True by (simp only: if_True if_False simp_thms de_Morgan_disj)
      ultimately show ?thesis by auto
    next
      case np: False
      have un: "unused L ?s2 p i" by (rule unused_evolves [OF e2 unused_absent [OF g np]])
      have send: "faulted L p i va store s (True, False, send_msg p MSG_MM_RP_READ (page_addr va) d task t)"
        if "iv_readMsgHdlr (blk s p)" "evolves L s t" "sent t = sent s" for d t
        using faulted_send [OF that(2,3) gv that(1)] .
      have refuse: "faulted L p i va store s (False, b, s1)" "faulted L p i va store s (False, b, ?s2)" for b
        using faulted_refuse [OF e1 f1(1,2)] faulted_refuse [OF e2 f2(1,2)] by blast+
      have "evolves L s (upd_spte p i (setPageAddr (of_nat pg)) ?s2)"
        by (rule evolves_trans [OF e2 upd_evolves [OF evolvesD(1) [OF e2] i2 un]])
      then have rd: "faulted L p i va store s (True, False,
          send_msg p MSG_MM_RP_READ (page_addr va) (of_nat pg) task (upd_spte p i (setPageAddr (of_nat pg)) ?s2))"
        if "iv_readMsgHdlr (blk s p)" using send [OF that] f2(1) by simp
      have "\<not> sp_present (spte_at ?s2 p i)" "store \<Longrightarrow> sp_dirty (spte_at ?s2 p i)" using f2(3) f1(4,5) np by simp_all
      then obtain rc t u where z: "BaseSegment_mmSetPermission (of_nat pg) 0 READ_ONLY ?s2 = Inr (rc, t)"
        "add_page junk p i (page_addr va) (upd_spte p i (\<lambda>q. (setPageAddr (of_nat pg) q)\<lparr>sp_present := True\<rparr>) (memset_page pg t)) = Inr u"
        "faulted L p i va store s (True, False, u)"
        using fill_zero_page [OF gv e2 f2(1), of store "of_nat pg" junk "of_nat pg" pg] by blast
      show ?thesis
      proof (cases "iv_readMsgHdlr (blk s p)")
        case True
        then show ?thesis unfolding eq using ok np rd [OF True] send [OF True e1 f1(1)] refuse(2)
          by (cases "sp_page ?q = 0"; cases "pg = NULL")
            (simp_all only: if_True if_False simp_thms de_Morgan_disj sum.inject)
      next
        case False
        then show ?thesis unfolding eq using ok np refuse z
          by (cases "sp_allocate_from_zero ?q"; cases "pg = NULL")
            (simp_all only: if_True if_False simp_thms de_Morgan_disj sum.inject sbind.simps prod.case)
      qed
    qed
  qed
qed

section \<open>Mapping a page by hand\<close>

text \<open>
  \<open>setPhysicalPage\<close> changes the entry before it takes the page out of the hardware table: in between,
  the table has a translation that the entry no longer allows.
\<close>

lemma upd_then_del:
  assumes g: "good L s" and b: "block_ok (blk s p)" and i: "getPTE (blk s p) va = Inr i"
  shows "\<exists>s'. vm_delEntry va (upd_spte p i f s) = Inr s' \<and> evolves L s s' \<and> pt_quiet (upd_spte p i f s) s' \<and> unused L s' p i"
proof -
  let ?u = "upd_spte p i f s"
  have il: "i < length (iv_ptes (blk s p))" by (rule getPTE_D(2) [OF b i])
  have sk: "skel ?u = skel s" by simp
  obtain t where t: "ptmgr_delEntry va ((ptm s)\<lparr>usage := []\<rparr>) = Inr t" "pt.obeys (allowed L s) t"
    "\<And>w. translate t w = (if page_addr w = page_addr va then None else translate (ptm s) w)"
    "\<And>v. v \<in> fst ` set (usage t) \<Longrightarrow> translate (ptm s) v \<noteq> None"
    by (rule pt.obeys_del [OF good_usage(1) [OF g], of va]) auto
  have r: "reportable ?u v" if "v \<in> fst ` set (usage t)" for v
    using good_reportable [OF g t(4) [OF that]]
    unfolding reportable_def segment_of_skel [OF sk] find_block_skel [OF sk] skelD(3) [OF sk] .
  have w: "vm_wf L ?u" using good_usage(2) [OF g] vm_wf_skel [OF sk] by simp
  obtain s' where s': "pt_call (ptmgr_delEntry va) ?u = Inr s'" "pt_quiet ?u s'" "ptm s' = t\<lparr>usage := []\<rparr>"
    using pt_call_quiet [of L ?u "ptmgr_delEntry va", OF w _ r] t(1) by auto
  have page: "page_addr w = page_addr va" if "governs L s w = Some (p, i)" for w
  proof -
    have "getPTE (blk s p) w = Inr i" using governsD(3) [OF good_usage(2) [OF g] that] .
    then have "pno w = pno va" using getPTE_D(3) [OF b] i by metis
    then show ?thesis by (simp add: page_addr_pno)
  qed
  have ob: "pt.obeys (allowed L s') (ptm s')"
  proof -
    have "pt.obeys (allowed L ?u) t"
    proof (rule pt.obeys_mono [OF t(2)])
      fix w x assume tr: "translate t w = Some x" and a: "allowed L s w x"
      show "allowed L ?u w x"
      proof (rule allowed_transfer [OF sk a])
        fix q j assume q: "governs L s w = Some (q, j)" "spte_allows s q j x"
        have "(q, j) \<noteq> (p, i)" using page q(1) tr t(3) by (auto split: if_splits)
        then show "spte_allows ?u q j x" using spte_allows_upd_other [OF _ il] q(2) by blast
      qed
    qed
    then show ?thesis using quiet_fields(6) [OF s'(2)] s'(3) by simp
  qed
  have sk': "skel s' = skel s" using quiet_fields(1) [OF s'(2)] by simp
  have "good L s'"
  proof (rule good_skel [OF g sk' ob])
    show "pm_inv (pgm s')" using g quiet_fields(2) [OF s'(2)] by (simp add: good_def)
    show "msgs_ok s'" using g msgs_ok_skel [OF sk'] quiet_fields(4) [OF s'(2)] by (simp add: good_def)
    show "hdlrs_ok s'" using g quiet_fields(5) [OF s'(2)] by (simp add: good_def hdlrs_ok_def)
  qed
  moreover have tr: "translate (ptm s') w = (if page_addr w = page_addr va then None else translate (ptm s) w)" for w
    using s'(3) t(3) by simp
  ultimately have "evolves L s s'" using sk' by (simp add: evolves_def)
  moreover have "unused L s' p i" unfolding unused_def governs_skel [OF sk'] using tr page by simp
  ultimately show ?thesis using s'(1,2) by (auto simp: vm_delEntry_def)
qed

lemma setPermSPTE_simps:
  "setPermSPTE w WRITABLE q = (0, q\<lparr>sp_readable := True, sp_writable := True, sp_executable := False,
     sp_track_write := False, sp_allocate_from_zero := False\<rparr>)"
  "setPermSPTE w READ_ONLY q = (0, q\<lparr>sp_readable := True, sp_writable := False, sp_executable := False,
     sp_track_write := False, sp_allocate_from_zero := False\<rparr>)"
  "setPermSPTE w EXECUTABLE q = (0, q\<lparr>sp_readable := True, sp_writable := False, sp_executable := True,
     sp_track_write := False, sp_allocate_from_zero := False\<rparr>)"
  "setPermSPTE w (WRITABLE OR ALLOCATE_FROM_ZERO) q = (0, q\<lparr>sp_readable := True, sp_writable := True, sp_executable := False,
     sp_track_write := False, sp_allocate_from_zero := True\<rparr>)"
  by (simp_all add: setPermSPTE_def Let_def getPermission_def WRITABLE_def EXECUTABLE_def READ_ONLY_def ALLOCATE_FROM_ZERO_def
      WRITE_TRACKED_def NO_ACCESS_def)

lemma setPermSPTE_ok: "a \<in> {WRITABLE, EXECUTABLE, READ_ONLY, WRITABLE OR ALLOCATE_FROM_ZERO} \<Longrightarrow> fst (setPermSPTE w a q) = 0"
  using setPermSPTE_simps by (elim insertE emptyE) simp_all

lemma setPhysicalPage_evolves:
  assumes g: "good L s" and f: "find_block s ps va = Some p" and b: "block_ok (blk s p)"
    and a: "acc \<in> {WRITABLE, EXECUTABLE, READ_ONLY, WRITABLE OR ALLOCATE_FROM_ZERO}"
  shows "\<exists>s'. Block_setPhysicalPage ps va pa acc s = Inr s' \<and> evolves L s s'"
proof -
  have c: "isContained (blk s p) va" using find_block_Some [OF f] by simp
  obtain i where i: "getPTE (blk s p) va = Inr i" "i < length (iv_ptes (blk s p))" using getPTE_contained [OF b c] by blast
  let ?u = "upd_spte p i (\<lambda>q. (setPageAddr (ucast pa) q)\<lparr>sp_present := True\<rparr>) s"
  obtain s1 where s1: "(if pa \<noteq> 0 then vm_delEntry va ?u else if sp_present (spte_at s p i) then vm_delEntry va s else Inr s) = Inr s1"
    "evolves L s s1" "unused L s1 p i"
  proof (cases "pa \<noteq> 0 \<or> sp_present (spte_at s p i)")
    case True
    then show thesis using that upd_then_del [OF g b i(1)] delEntry_unused [OF g b i(1)] by (cases "pa = 0") auto
  next
    case False
    then show thesis using that [of s] evolves_refl [OF g] unused_absent [OF g] by auto
  qed
  obtain rc s2 where s2: "set_perm p i acc s1 = (rc, s2)" by (cases "set_perm p i acc s1")
  have "evolves L s1 s2"
    using set_perm_evolves(1) [OF evolvesD(1) [OF s1(2)] _ s1(3) s2] i(2) evolves_fields(3) [OF s1(2)] by simp
  moreover have "rc = 0" using s2 setPermSPTE_ok [OF a] by (auto simp: set_perm_def split: prod.splits) (metis fst_conv)
  ultimately show ?thesis using s1(1) s2 f i(1) evolves_trans [OF s1(2)] by (auto simp: Block_setPhysicalPage_def)
qed

section \<open>Responses\<close>

lemma attachSPTE_good:
  assumes g: "good L s" and gv: "governs L s va = Some (p, i)"
  shows "\<exists>s'. attachSPTE junk p va s = Inr s' \<and> good L s' \<and> skel s' = skel s"
proof -
  note al = governs_align [OF g gv]
  let ?u = "upd_spte p i (\<lambda>q. q\<lparr>sp_present := True\<rparr>) s"
  have e: "evolves L s ?u" by (rule mark_evolves(2) [OF g al(3)])
  have "governs L ?u (page_addr va) = Some (p, i)" using al(1) governs_skel [OF evolvesD(2) [OF e]] by simp
  moreover have "sp_present (spte_at ?u p i)" using al(3) by (simp add: spte_at_upd)
  ultimately obtain s2 where s2: "add_page junk p i (page_addr va) ?u = Inr s2" "good L s2" "pt_quiet ?u s2"
    using add_page_good [OF evolvesD(1) [OF e]] by blast
  obtain rc s3 where s3: "BaseSegment_mmSetPermission (ucast (getPageAddr (spte_at s2 p i))) 0 READ_ONLY s2 = Inr (rc, s3)" "evolves L s2 s3"
    using BaseSegment_perm_page [OF s2(2)] by blast
  have "getPTE (blk s p) va = Inr i" by (rule governsD(3) [OF good_usage(2) [OF g] gv])
  then have "attachSPTE junk p va s = Inr s3" using s2(1) s3(1) by (simp add: attachSPTE_def align_page)
  then show ?thesis using s3(2) quiet_fields(1) [OF s2(3)] by (simp add: evolves_def)
qed

lemma read_message_governs:
  assumes "good L s" "m \<in> set (sent s)" "mm_type m = MSG_MM_RP_READ"
  obtains i where "governs L s (mm_va m) = Some (mm_block m, i)"
  using assms that by (auto simp: good_def msgs_ok_def governs_def chain_of_def)

lemma read_response_good:
  assumes "good L s" "m \<in> set (sent s)" "mm_type m = MSG_MM_RP_READ"
  shows "\<exists>r s'. read_handleResponse junk (mm_block m) (mm_va m) rc s = Inr (r, s') \<and> good L s' \<and> skel s' = skel s"
proof -
  obtain i where "governs L s (mm_va m) = Some (mm_block m, i)" using read_message_governs [OF assms] .
  from attachSPTE_good [OF assms(1) this, of junk] obtain s' where
    "attachSPTE junk (mm_block m) (mm_va m) s = Inr s'" "good L s'" "skel s' = skel s" by blast
  then show ?thesis using assms(1) by (simp add: read_handleResponse_def)
qed

lemma alist_set_erase: "set (alist_erase k xs) \<subseteq> set xs"
  by (induction xs) auto

lemma write_response_good:
  assumes g: "good L s" and m: "m \<in> set (sent s)" "mm_type m = MSG_MM_RP_WRITE"
  shows "\<exists>r s'. write_handleResponse (mm_block m) (mm_va m) task rc s = Inr (r, s') \<and> evolves L s s'"
proof (cases "rc = 0")
  case False
  then show ?thesis using evolves_refl [OF g] by (simp add: write_handleResponse_def)
next
  case True
  let ?p = "mm_block m"
  obtain h where h: "iv_writeMsgHdlr (blk s ?p) = Some h" using g m by (auto simp: good_def msgs_ok_def)
  let ?r = "case map_of (iv_va2paList h) (mm_va m) of
      None \<Rightarrow> Inr (UNHANDLED_RC, s)
    | Some pageAddr \<Rightarrow>
        sbind (vm_freePage (unat pageAddr) s) (\<lambda>s1.
          Inr (SUCCESS, upd_whdlr ?p (\<lambda>h. h\<lparr>iv_va2paList := alist_erase (mm_va m) (iv_va2paList h)\<rparr>) s1))"
  obtain r1 s1 where s1: "?r = Inr (r1, s1)" "evolves L s s1"
  proof (cases "map_of (iv_va2paList h) (mm_va m)")
    case None
    then show thesis using that evolves_refl [OF g] by simp
  next
    case (Some pa)
    have "hdlrs_ok s" using g by (simp add: good_def)
    then have pa: "pa \<noteq> 0" "4096 dvd unat pa" using h map_of_SomeD [OF Some] unfolding hdlrs_ok_def by blast+
    then have "unat pa \<noteq> NULL" "PAGESIZE dvd unat pa" by (simp_all add: unat_eq_0 PAGESIZE_def)
    then obtain s1 where s1: "vm_freePage (unat pa) s = Inr s1" "evolves L s s1" using vm_freePage_evolves [OF g] by blast
    have "evolves L s1 (upd_whdlr ?p (\<lambda>h. h\<lparr>iv_va2paList := alist_erase (mm_va m) (iv_va2paList h)\<rparr>) s1)"
      by (rule whdlr_evolves [OF evolvesD(1) [OF s1(2)]]) (use alist_set_erase in fastforce)
    then show thesis using that s1 Some evolves_trans [OF s1(2)] by simp
  qed
  have e: "evolves L s (upd_whdlr ?p (\<lambda>h. h\<lparr>iv_msgGrpList := f h\<rparr>) s1)" for f
    by (rule evolves_trans [OF s1(2) whdlr_evolves [OF evolvesD(1) [OF s1(2)]]]) simp
  have eq: "write_handleResponse ?p (mm_va m) task rc s = (case task of
      None \<Rightarrow> Inr (r1, s1)
    | Some t \<Rightarrow> (case map_of (iv_msgGrpList h) t of
        None \<Rightarrow> Inr (r1, s1)
      | Some n \<Rightarrow>
          if n = 1 then Inr (SUCCESS, upd_whdlr ?p (\<lambda>h. h\<lparr>iv_msgGrpList := alist_erase t (iv_msgGrpList h)\<rparr>) s1)
          else Inr (CONTINUE_DEFER, upd_whdlr ?p (\<lambda>h. h\<lparr>iv_msgGrpList := alist_set t (n - 1) (iv_msgGrpList h)\<rparr>) s1)))"
    unfolding write_handleResponse_def h option.case s1(1) sbind.simps prod.case using True by simp
  show ?thesis unfolding eq using s1(2) e by (cases task; cases "map_of (iv_msgGrpList h) (the task)") auto
qed

section \<open>Deleting a block of a stack\<close>

lemma sfold_evolves_all:
  assumes "good L s" and step: "\<And>x s1. x \<in> set xs \<Longrightarrow> evolves L s s1 \<Longrightarrow> \<exists>s'. f x s1 = Inr s' \<and> evolves L s1 s' \<and> Q x s'"
    and stable: "\<And>x s1 s2. Q x s1 \<Longrightarrow> evolves L s1 s2 \<Longrightarrow> Q x s2"
  shows "\<exists>s'. sfold f xs s = Inr s' \<and> evolves L s s' \<and> (\<forall>x\<in>set xs. Q x s')"
  using assms(1) step
proof (induction xs arbitrary: s)
  case Nil
  then show ?case using evolves_refl by simp
next
  case (Cons x xs)
  obtain s1 where s1: "f x s = Inr s1" "evolves L s s1" "Q x s1"
    using Cons.prems(2) [of x s] evolves_refl [OF Cons.prems(1)] by auto
  obtain s' where s': "sfold f xs s1 = Inr s'" "evolves L s1 s'" "\<forall>x\<in>set xs. Q x s'"
    using Cons.IH [OF evolvesD(1) [OF s1(2)]] Cons.prems(2) evolves_trans [OF s1(2)] by (meson list.set_intros(2))
  then show ?case using s1 evolves_trans stable [OF s1(3) s'(2)] by auto
qed

lemma page_list_complete:
  "page_addr lo = lo \<Longrightarrow> page_addr w = w \<Longrightarrow> lo \<le> w \<Longrightarrow> w < hi \<Longrightarrow> w \<in> set (page_list lo hi)"
proof (induction lo hi rule: page_list.induct)
  case (1 lo hi)
  have lt: "lo < hi" using "1.prems"(3,4) by simp
  show ?case
  proof (cases "w = lo")
    case True
    then show ?thesis using lt by (subst page_list.simps) simp
  next
    case False
    obtain j k where jk: "unat lo = 4096 * j" "unat w = 4096 * k" using "1.prems"(1,2) page_aligned by blast
    have "unat lo < unat w" using False "1.prems"(3) by (simp add: word_le_nat_alt word_unat_eq_iff)
    then have le: "unat lo + 4096 \<le> unat w" unfolding jk by auto
    moreover have "unat w < 2 ^ 64" using unsigned_less [of w, where ?'a = nat] by simp
    ultimately have sm: "unat lo + 4096 < 2 ^ 64"
      by (metis add_mult_distrib2 dvd_triv_left jk linorder_not_less mult.right_neutral nat_less_le order_le_less_trans)
    have ps: "of_nat PAGESIZE = page_size" by (simp add: PAGESIZE_def page_size_def)
    note np = next_page [OF "1.prems"(1) sm, unfolded ps]
    have st: "lo < lo + page_size" using np(1) by (simp add: word_less_nat_alt)
    have "w \<in> set (page_list (lo + page_size) hi)"
      using "1.IH" [OF lt st np(2) "1.prems"(2) _ "1.prems"(4)] le np(1) by (simp add: word_le_nat_alt)
    then show ?thesis using lt st by (subst page_list.simps) simp
  qed
qed

lemma block_pages:
  assumes "block_ok b" "isContained b va"
  shows "page_addr va \<in> set (page_list (iv_baseAddr b) (iv_baseAddr b + iv_size b))"
proof -
  have "isContained b (page_addr va)" using assms contained_iff [OF assms(1)] by simp
  moreover have "page_addr (iv_baseAddr b) = iv_baseAddr b" using assms(1) by (simp add: block_ok_def)
  ultimately show ?thesis using page_list_complete [of "iv_baseAddr b" "page_addr va"] by (simp add: isContained_def)
qed

lemma release_page_evolves:
  assumes g: "good L s" and b: "block_ok (blk s p)" and c: "isContained (blk s p) va"
  shows "\<exists>s'. release_page p va s = Inr s' \<and> evolves L s s' \<and> (\<forall>i. governs L s' va = Some (p, i) \<longrightarrow> translate (ptm s') va = None)"
proof -
  obtain i where i: "getPTE (blk s p) va = Inr i" "i < length (iv_ptes (blk s p))" using getPTE_contained [OF b c] by blast
  have un: "\<forall>j. governs L s' va = Some (p, j) \<longrightarrow> translate (ptm s') va = None" if e: "evolves L s s'" "unused L s' p i" for s'
  proof (intro allI impI)
    fix j assume gv: "governs L s' va = Some (p, j)"
    have "getPTE (blk s' p) va = Inr j" by (rule governsD(3) [OF good_usage(2) [OF evolvesD(1) [OF e(1)]] gv])
    then have "j = i" using i(1) evolves_fields(6) [OF e(1), of p va] by simp
    then show "translate (ptm s') va = None" using e(2) gv by (simp add: unused_def)
  qed
  show ?thesis
  proof (cases "sp_present (spte_at s p i)")
    case False
    then have "release_page p va s = Inr s" using i(1) by (simp add: release_page_def)
    then show ?thesis using un [OF evolves_refl [OF g] unused_absent [OF g False]] evolves_refl [OF g] by blast
  next
    case True
    obtain s1 where s1: "vm_delEntry va s = Inr s1" "evolves L s s1" "unused L s1 p i"
      using delEntry_unused [OF g b i(1)] by blast
    let ?q = "spte_at s1 p i"
    have i1: "i < length (iv_ptes (blk s1 p))" using i(2) evolves_fields(3) [OF s1(2)] by simp
    show ?thesis
    proof (cases "getPageAddr ?q = 0")
      case True
      then have "release_page p va s = Inr s1" using i(1) \<open>sp_present (spte_at s p i)\<close> s1(1) by (simp add: release_page_def)
      then show ?thesis using un [OF s1(2,3)] s1(2) by blast
    next
      case False
      obtain s2 where s2: "sbind (releaseSPTE p i s1) (vm_freePage (unat (getPageAddr ?q))) = Inr s2" "evolves L s1 s2"
        using release_and_free [OF evolvesD(1) [OF s1(2)] i1 s1(3) False] by blast
      have "release_page p va s = Inr s2" using i(1) True s1(1) False s2(1) by (simp add: release_page_def Let_def)
      then show ?thesis
        using un [OF evolves_trans [OF s1(2) s2(2)] unused_evolves [OF s2(2) s1(3)]] evolves_trans [OF s1(2) s2(2)] by blast
    qed
  qed
qed

lemma releaseAllPages_evolves:
  assumes g: "good L s" and b: "block_ok (blk s p)"
  shows "\<exists>s'. releaseAllPages p s = Inr s' \<and> evolves L s s' \<and> (\<forall>va i. governs L s' va = Some (p, i) \<longrightarrow> translate (ptm s') va = None)"
proof -
  let ?Q = "\<lambda>va s. \<forall>i. governs L s va = Some (p, i) \<longrightarrow> translate (ptm s) va = None"
  let ?ps = "page_list (iv_baseAddr (blk s p)) (iv_baseAddr (blk s p) + iv_size (blk s p))"
  have step: "\<exists>s'. release_page p va s1 = Inr s' \<and> evolves L s1 s' \<and> ?Q va s'"
    if va: "va \<in> set ?ps" and e: "evolves L s s1" for va s1
  proof (rule release_page_evolves [OF evolvesD(1) [OF e]])
    show "block_ok (blk s1 p)" using b evolves_fields(4) [OF e] by simp
    have "isContained (blk s p) va" using page_list_bounds [OF va] by (simp add: isContained_def)
    then show "isContained (blk s1 p) va" using evolves_fields(5) [OF e] by simp
  qed
  have stable: "?Q va s2" if "?Q va s1" "evolves L s1 s2" for va s1 s2
    using that(1) governs_skel [OF evolvesD(2) [OF that(2)]] that(2) unfolding evolves_def by metis
  have "\<exists>s'. sfold (release_page p) ?ps s = Inr s' \<and> evolves L s s' \<and> (\<forall>va\<in>set ?ps. ?Q va s')"
  proof (rule sfold_evolves_all [OF g])
    show "\<exists>s'. release_page p x s1 = Inr s' \<and> evolves L s1 s' \<and> ?Q x s'" if "x \<in> set ?ps" "evolves L s s1" for x s1
      by (rule step [OF that])
    show "?Q x s2" if "?Q x s1" "evolves L s1 s2" for x s1 s2 by (rule stable [OF that])
  qed
  then obtain s' where s': "sfold (release_page p) ?ps s = Inr s'" "evolves L s s'" "\<forall>va\<in>set ?ps. ?Q va s'" by blast
  have "translate (ptm s') va = None" if gv: "governs L s' va = Some (p, i)" for va i
  proof -
    note al = governs_align [OF evolvesD(1) [OF s'(2)] gv]
    have "isContained (blk s' p) va"
      using gv find_block_Some governs_find by blast
    then have "isContained (blk s p) va" using evolves_fields(5) [OF s'(2)] by simp
    then have "translate (ptm s') (page_addr va) = None" using block_pages [OF b] s'(3) al(1) by blast
    then show ?thesis using translate_page [of va "page_addr va"] by simp
  qed
  then show ?thesis using s'(1,2) by (auto simp: releaseAllPages_def)
qed

end
