(* ===== verification/Vm_Regions.thy ===== *)
theory Vm_Regions
  imports Vm_Faults
begin

text \<open>
  Regions of the address space come and go: blocks at the end of the base segment's chain, stacks in
  the list of the stack segment, memory mapped linearly and the extension of the kernel's memory. Each
  of these operations keeps the hardware table within what the shadow tables allow.
\<close>

section \<open>New blocks\<close>

lemma find_block_other:
  "blk s' = blk s \<Longrightarrow> find_block s' ps va = find_block s ps va"
  by (induction ps) simp_all

text \<open>Two states with the same blocks, segments and tables are equally good.\<close>

lemma good_same:
  assumes "good L s" "blk s' = blk s" "base_chain s' = base_chain s" "iv_segments s' = iv_segments s" "hrmor s' = hrmor s"
    and "ptm s' = ptm s" "pm_inv (pgm s')" "sent s' = sent s"
  shows "good L s'"
proof -
  have seg: "segment_of s' va = segment_of s va" for va using assms(4) by (simp add: segment_of_def Let_def)
  have fb: "find_block s' ps va = find_block s ps va" for ps va by (rule find_block_other [OF assms(2)])
  have ch: "chain_of L s' va = chain_of L s va" for va unfolding chain_of_def seg assms(3) by (rule refl)
  have gv: "governs L s' va = governs L s va" for va unfolding governs_def ch fb assms(2) by (rule refl)
  have "spte_allows s' p i x = spte_allows s p i x" for p i x
    unfolding spte_allows_def frame_of_def spte_at_def assms(2,5) by (rule refl)
  then have "allowed L s' va x = allowed L s va x" for va x unfolding allowed_def seg gv by presburger
  then have "allowed L s' = allowed L s" by (intro ext)
  moreover have "vm_wf L s'" using assms(1) unfolding good_def vm_wf_def assms(2-5) by blast
  moreover have "msgs_ok s'" using assms(1) unfolding good_def msgs_ok_def seg fb assms(2,3,8) by blast
  moreover have "hdlrs_ok s'" using assms(1) unfolding good_def hdlrs_ok_def assms(2) by blast
  moreover have "handlers_base L s'" using assms(1) unfolding good_def handlers_base_def assms(2) by (elim conjE)
  ultimately show ?thesis using assms(1,6,7) by (simp add: good_def)
qed

lemma find_block_new: "p \<notin> set ps \<Longrightarrow> find_block (new_block p b s) ps va = find_block s ps va"
  by (induction ps) (auto simp: new_block_def)

definition fresh :: "(u64 \<times> addr) list \<Rightarrow> addr \<Rightarrow> vmm \<Rightarrow> bool" where
  "fresh L p s \<longleftrightarrow> p \<notin> set (base_chain s) \<union> snd ` set L"

text \<open>The state of an object that has just been made.\<close>

definition blank :: "block \<Rightarrow> bool" where
  "blank b \<longleftrightarrow> block_ok b \<and> (\<forall>h. iv_writeMsgHdlr b = Some h \<longrightarrow> iv_va2paList h = [])"

lemma new_block_fields [simp]:
  "base_chain (new_block p b s) = base_chain s" "iv_segments (new_block p b s) = iv_segments s" "hrmor (new_block p b s) = hrmor s"
  "ptm (new_block p b s) = ptm s" "pgm (new_block p b s) = pgm s" "sent (new_block p b s) = sent s"
  "blk (new_block p b s) q = (if q = p then b else blk s q)" "iv_blockList (new_block p b s) = iv_blockList s"
  "segment_of (new_block p b s) va = segment_of s va"
  by (simp_all add: new_block_def segment_of_def Let_def)

lemma good_new_block:
  assumes g: "good L s" and f: "fresh L p s" and b: "blank b"
  shows "good L (new_block p b s)"
proof -
  let ?s = "new_block p b s"
  have ch: "chain_of L ?s va = chain_of L s va" for va unfolding chain_of_def new_block_fields by (rule refl)
  have np: "p \<notin> set (chain_of L s va)" for va using f chain_of_blocks [of p L s va] by (auto simp: fresh_def)
  have fb: "find_block ?s (chain_of L s va) va = find_block s (chain_of L s va) va" for va by (rule find_block_new [OF np])
  have gv: "governs L ?s va = governs L s va" for va
  proof (cases "find_block s (chain_of L s va) va")
    case None
    then show ?thesis by (simp add: governs_def ch fb)
  next
    case (Some q)
    then have "q \<noteq> p" using find_block_Some np by metis
    then show ?thesis using Some by (simp add: governs_def ch fb)
  qed
  have "allowed L ?s va x" if a: "allowed L s va x" for va x
  proof (cases "\<exists>d. segment_of s va = Some (DeviceSegment d)")
    case True
    then show ?thesis using a by (auto simp: allowed_def)
  next
    case False
    then obtain q i where q: "governs L s va = Some (q, i)" "spte_allows s q i x"
      using a by (auto simp: allowed_def split: option.splits segment.splits)
    have "q \<noteq> p" using q(1) governs_find find_block_Some np by metis
    then have "spte_allows ?s q i x" using q(2) by (simp add: spte_allows_def frame_of_def spte_at_def)
    then show ?thesis using allowed_governed [of L ?s va q i x] q(1) gv by simp
  qed
  then have "pt.obeys (allowed L ?s) (ptm ?s)" using g pt.obeys_mono [of "allowed L s" "ptm s"] by (simp add: good_def)
  moreover have "vm_wf L ?s" using g f b by (auto simp: good_def vm_wf_def fresh_def blank_def)
  moreover have "msgs_ok ?s"
    using g f find_block_new [of p "base_chain s" b s] by (auto simp: good_def msgs_ok_def fresh_def)
  moreover have "hdlrs_ok ?s" using g b by (auto simp: good_def hdlrs_ok_def blank_def)
  moreover have "handlers_base L ?s" using g f by (auto simp: good_def handlers_base_def fresh_def)
  ultimately show ?thesis using g by (simp add: good_def)
qed


lemma find_block_append:
  "find_block s (ps @ qs) va = (case find_block s ps va of Some p \<Rightarrow> Some p | None \<Rightarrow> find_block s qs va)"
  by (induction ps) simp_all

text \<open>A block at the end of the chain only governs addresses that no block governed.\<close>

lemma good_append:
  assumes g: "good L s" and b: "block_ok (blk s p)" and n: "p \<notin> snd ` set L"
  shows "good L (s\<lparr>base_chain := base_chain s @ [p]\<rparr>)"
proof -
  let ?s = "s\<lparr>base_chain := base_chain s @ [p]\<rparr>"
  have seg: "segment_of ?s va = segment_of s va" for va by (simp add: segment_of_def Let_def)
  have fb: "find_block ?s ps va = find_block s ps va" for ps va by (rule find_block_other) simp
  have gv: "governs L ?s va = Some (q, i)" if "governs L s va = Some (q, i)" for va q i
    using that by (cases rule: chain_of_cases [of s va L]) (auto simp: governs_def chain_of_def fb seg find_block_append split: if_splits)
  have "allowed L ?s va x" if a: "allowed L s va x" for va x
  proof (cases "\<exists>d. segment_of s va = Some (DeviceSegment d)")
    case True
    then show ?thesis using a by (auto simp: allowed_def seg)
  next
    case False
    then obtain q i where q: "governs L s va = Some (q, i)" "spte_allows s q i x"
      using a by (auto simp: allowed_def split: option.splits segment.splits)
    then have "spte_allows ?s q i x" by (simp add: spte_allows_def frame_of_def spte_at_def)
    then show ?thesis using allowed_governed [OF gv [OF q(1)]] by simp
  qed
  then have "pt.obeys (allowed L ?s) (ptm ?s)" using g pt.obeys_mono [of "allowed L s" "ptm s"] by (simp add: good_def)
  moreover have "vm_wf L ?s" using g b by (auto simp: good_def vm_wf_def)
  moreover have "msgs_ok ?s" using g by (auto simp: good_def msgs_ok_def seg fb find_block_append)
  moreover have "hdlrs_ok ?s" "handlers_base L ?s" using g by (auto simp: good_def hdlrs_ok_def handlers_base_def)
  ultimately show ?thesis using g by (simp add: good_def)
qed

lemma align_page_up:
  assumes "unat z < 2 ^ 41"
  shows "unat (ALIGN_PAGE_UP z) = (unat z + 4095) div 4096 * 4096" "page_addr (ALIGN_PAGE_UP z) = ALIGN_PAGE_UP z"
proof -
  have m: "page_size - 1 = mask 12" by (simp add: page_size_def mask_eq_exp_minus_1)
  have "w AND NOT (mask 12) = page_addr w" for w :: u64
    by (rule bit_word_eqI) (auto simp: page_addr_def bit_simps)
  then have e: "ALIGN_PAGE_UP z = page_addr (z + 4095)" unfolding ALIGN_PAGE_UP_def m by (simp add: mask_eq_exp_minus_1)
  then show "page_addr (ALIGN_PAGE_UP z) = ALIGN_PAGE_UP z" by simp
  have "unat (z + 4095) = unat z + 4095" using assms by (simp add: unat_word_ariths)
  moreover have "unat (page_addr w) = unat w div 4096 * 4096" for w
    using page_aligned [of "page_addr w"] by (simp add: pno_def [of w])
  ultimately show "unat (ALIGN_PAGE_UP z) = (unat z + 4095) div 4096 * 4096" using e by simp
qed

lemma new_block_ok:
  assumes "page_addr va = va" "unat va < 2 ^ 62" "page_addr z = z" "unat z < 2 ^ 62"
  shows "blank (Block_init va z q m)"
proof -
  have "unat (z div page_size) = pno z" by (simp add: unat_div pno_def)
  then show ?thesis using assms by (auto simp: blank_def block_ok_def Block_init_def)
qed

text \<open>
  A size of a terabyte or more is refused, except near the end of the 64-bit range, where the check
  wraps around; such a block would need a shadow table of more than the memory of the machine.
\<close>

lemma mmAllocBlock_good:
  assumes g: "good L s" and f: "fresh L p s" and z: "unat sz < 2 ^ 41" and r: "mmAllocBlock p mq va sz ph s = Inr (rc, s')"
  shows "good L s' \<and> iv_blockList s' = iv_blockList s \<and> translate (ptm s') = translate (ptm s)
    \<and> (rc = 0 \<longrightarrow> base_chain s' = base_chain s @ [p] \<and> blk s' p = Block_init va (ALIGN_PAGE_UP sz) mq ph
         \<and> page_addr va = va \<and> unat va < 2 ^ 40 \<and> (\<forall>q. q \<noteq> p \<longrightarrow> blk s' q = blk s q))
    \<and> (rc \<noteq> 0 \<longrightarrow> s' = s)"
proof (cases "rc = 0")
  case False
  then have "s' = s" using r by (auto simp: mmAllocBlock_def EINVAL_def EALREADY_def split: if_splits)
  then show ?thesis using g False by simp
next
  case True
  let ?b = "Block_init va (ALIGN_PAGE_UP sz) mq ph"
  have c: "\<not> va \<ge> segment_size" "va = ALIGN_PAGE_DOWN va"
    and s': "s' = (new_block p ?b s)\<lparr>base_chain := base_chain s @ [p]\<rparr>"
    using r True by (auto simp: mmAllocBlock_def EINVAL_def EALREADY_def split: if_splits)
  have va: "page_addr va = va" "unat va < 2 ^ 40"
    using c by (simp_all add: align_page segment_size_def SLBE_s_def word_le_nat_alt not_le)
  have "unat (ALIGN_PAGE_UP sz) < 2 ^ 62" using align_page_up(1) [OF z] z by simp
  then have b: "blank ?b" using new_block_ok [OF va(1) _ align_page_up(2) [OF z]] va(2) by simp
  have "good L ((new_block p ?b s)\<lparr>base_chain := base_chain (new_block p ?b s) @ [p]\<rparr>)"
    by (rule good_append [OF good_new_block [OF g f b]]) (use b f in \<open>auto simp: blank_def fresh_def\<close>)
  then show ?thesis using True va s' by simp
qed


section \<open>Stacks\<close>

lemma segment_of_upd [simp]: "segment_of (s\<lparr>iv_blockList := X\<rparr>) va = segment_of s va"
  by (simp add: segment_of_def Let_def)

lemma stack_words:
  "unat (stack_base t) = unat t * 2 ^ 23 + 2 ^ 40"
  "unat (stack_bottom t) = unat t * 2 ^ 23 + 2 ^ 40 + (64 + 128 * (unat t mod 61)) * 1024"
  "unat (stack_top t) = unat (stack_bottom t) + 256 * 1024 - 8"
proof -
  have t: "unat t < 2 ^ 16" using unsigned_less [of t, where ?'a = nat] by simp
  have u: "unat (ucast t :: u64) = unat t" using t by (simp add: unsigned_ucast_eq take_bit_nat_eq_self)
  have m: "unat t mod 61 < 61" by simp
  have "unat (ucast t * stack_slot) = unat t * 2 ^ 23" using t u by (simp add: unat_word_ariths stack_slot_def)
  then show b: "unat (stack_base t) = unat t * 2 ^ 23 + 2 ^ 40"
    using t by (simp add: stack_base_def VMM_VADDR_STACK_SEGMENT_def segment_size_def SLBE_s_def unat_word_ariths)
  have o: "unat ((64 + 128 * (ucast t mod 61)) * 1024 :: u64) = (64 + 128 * (unat t mod 61)) * 1024"
    using m u by (simp add: unat_word_ariths)
  show c: "unat (stack_bottom t) = unat t * 2 ^ 23 + 2 ^ 40 + (64 + 128 * (unat t mod 61)) * 1024"
    using b o t m by (simp add: stack_bottom_def unat_word_ariths)
  have "stack_top t = stack_bottom t + (256 * 1024 - 8)" by (simp add: stack_top_def stack_bottom_def)
  moreover have "unat (256 * 1024 - 8 :: u64) = 256 * 1024 - 8" by simp
  ultimately show "unat (stack_top t) = unat (stack_bottom t) + 256 * 1024 - 8"
    using c t m by (simp add: unat_word_ariths)
qed

lemma good_add_stack:
  assumes g: "good L s" and k: "map_of L k = None" and b: "block_ok (blk s p)"
    and h: "\<not> iv_readMsgHdlr (blk s p)" "iv_writeMsgHdlr (blk s p) = None"
  shows "good ((k, p) # L) s"
proof -
  have gv: "governs ((k, p) # L) s va = Some (q, i)" if "governs L s va = Some (q, i)" for va q i
    using that k by (cases rule: chain_of_cases [of s va L]) (auto simp: governs_def chain_of_def split: if_splits)
  have "allowed ((k, p) # L) s va x" if a: "allowed L s va x" for va x
  proof (cases "\<exists>d. segment_of s va = Some (DeviceSegment d)")
    case True
    then show ?thesis using a by (auto simp: allowed_def)
  next
    case False
    then obtain q i where q: "governs L s va = Some (q, i)" "spte_allows s q i x"
      using a by (auto simp: allowed_def split: option.splits segment.splits)
    then show ?thesis using allowed_governed [OF gv [OF q(1)]] by simp
  qed
  then have "pt.obeys (allowed ((k, p) # L) s) (ptm s)" using g pt.obeys_mono [of "allowed L s" "ptm s"] by (simp add: good_def)
  moreover have "k \<notin> fst ` set L" using k by (simp add: map_of_eq_None_iff)
  then have "vm_wf ((k, p) # L) s" using g b by (auto simp: good_def vm_wf_def)
  moreover have "handlers_base ((k, p) # L) s" using g h by (auto simp: good_def handlers_base_def)
  ultimately show ?thesis using g by (simp add: good_def)
qed

lemma map_of_erase: "distinct (map fst L) \<Longrightarrow> map_of (alist_erase k L) k' = (if k' = k then None else map_of L k')"
proof (induction L)
  case (Cons x L)
  show ?case
  proof (cases "fst x = k")
    case True
    then have "map_of L k = None" using Cons.prems by (auto simp: map_of_eq_None_iff)
    then show ?thesis using True by (cases x) simp
  qed (use Cons in \<open>cases x; auto\<close>)
qed simp

lemma distinct_erase: "distinct (map fst L) \<Longrightarrow> distinct (map fst (alist_erase k L))"
proof (induction L)
  case (Cons x L)
  then show ?case using alist_set_erase [of k L] by auto
qed simp

lemma good_drop_stack:
  assumes g: "good L s" and k: "map_of L k = Some p" and un: "\<And>va i. governs L s va = Some (p, i) \<Longrightarrow> translate (ptm s) va = None"
  shows "good (alist_erase k L) s"
proof -
  have d: "distinct (map fst L)" using g by (simp add: good_def vm_wf_def)
  note m = map_of_erase [OF d, of k]
  have gv: "governs (alist_erase k L) s va = Some (q, i)" if "governs L s va = Some (q, i)" "q \<noteq> p" for va q i
    using that k by (cases rule: chain_of_cases [of s va L]) (auto simp: governs_def chain_of_def m split: if_splits)
  have "allowed (alist_erase k L) s va x" if t: "translate (ptm s) va = Some x" and a: "allowed L s va x" for va x
  proof (cases "\<exists>d. segment_of s va = Some (DeviceSegment d)")
    case True
    then show ?thesis using a by (auto simp: allowed_def)
  next
    case False
    then obtain q i where q: "governs L s va = Some (q, i)" "spte_allows s q i x"
      using a by (auto simp: allowed_def split: option.splits segment.splits)
    then have "q \<noteq> p" using un t by auto
    then show ?thesis using allowed_governed [OF gv [OF q(1)]] q(2) by simp
  qed
  then have "pt.obeys (allowed (alist_erase k L) s) (ptm s)" using g pt.obeys_mono [of "allowed L s" "ptm s"] by (simp add: good_def)
  moreover have "vm_wf (alist_erase k L) s"
  proof -
    have "snd ` set (alist_erase k L) \<subseteq> snd ` set L" using alist_set_erase [of k L] by (rule image_mono)
    then show ?thesis using g distinct_erase [OF d, of k] unfolding good_def vm_wf_def by blast
  qed
  moreover have "handlers_base (alist_erase k L) s"
    using g alist_set_erase [of k L] unfolding good_def handlers_base_def by auto
  ultimately show ?thesis using g by (simp add: good_def)
qed


lemma stack_block:
  "blank (Block_init (stack_bottom t) (256 * 1024) False False)"
proof (rule new_block_ok)
  have t: "unat t < 2 ^ 16" using unsigned_less [of t, where ?'a = nat] by simp
  have "unat (stack_bottom t) = 4096 * (unat t * 2 ^ 11 + 2 ^ 28 + 16 + 32 * (unat t mod 61))" by (simp add: stack_words)
  then show "page_addr (stack_bottom t) = stack_bottom t" by (simp add: page_addr_iff)
  show "unat (stack_bottom t) < 2 ^ 62" using t by (simp add: stack_words)
qed (simp_all add: page_addr_iff)

lemma stack_contains:
  assumes "stack_bottom t \<le> va \<and> va < stack_top t + 1"
  shows "isContained (Block_init (stack_bottom t) (256 * 1024) False False) va"
proof -
  have t: "unat t < 2 ^ 16" using unsigned_less [of t, where ?'a = nat] by simp
  have b: "unat (stack_bottom t) < 2 ^ 62" using t by (simp add: stack_words(2))
  have "unat (stack_top t + 1) = unat (stack_bottom t) + 256 * 1024 - 7" "unat (stack_bottom t + 256 * 1024) = unat (stack_bottom t) + 256 * 1024"
    using b stack_words(3) [of t] by (simp_all add: unat_word_ariths)
  then show ?thesis using assms by (simp add: isContained_def Block_init_def word_le_nat_alt word_less_nat_alt)
qed

lemma createStack_good:
  assumes g: "good (iv_blockList s) s" and f: "fresh (iv_blockList s) p s" and n: "map_of (iv_blockList s) (stack_base t) = None"
  shows "\<exists>s'. createStack p t s = Inr (stack_top t, s') \<and> good (iv_blockList s') s'
    \<and> iv_blockList s' = (stack_base t, p) # iv_blockList s \<and> iv_segments s' = iv_segments s
    \<and> shape (blk s' p) = shape (Block_init (stack_bottom t) (256 * 1024) False False)"
proof -
  let ?L = "iv_blockList s" and ?b = "Block_init (stack_bottom t) (256 * 1024) False False"
  let ?s1 = "new_block p ?b s"
  have g1: "good ?L ?s1" by (rule good_new_block [OF g f stack_block])
  have b: "block_ok ?b" using stack_block by (simp add: blank_def)
  let ?f = "\<lambda>i. Block_setPhysicalPage [p] i 0 (WRITABLE OR ALLOCATE_FROM_ZERO)"
  let ?ps = "page_list (stack_bottom t) (stack_top t + 1)"
  have "\<exists>s'. sfold ?f ?ps ?s1 = Inr s' \<and> evolves ?L ?s1 s'"
  proof (rule sfold_evolves [OF g1])
    fix va s2 assume va: "va \<in> set ?ps" and e: "evolves ?L ?s1 s2"
    have "stack_bottom t \<le> va \<and> va < stack_top t + 1" by (rule page_list_bounds [OF va])
    then have "isContained ?b va" by (rule stack_contains)
    then have c: "find_block s2 [p] va = Some p" using evolves_fields(5) [OF e, of p va] by simp
    have "block_ok (blk s2 p)" using evolves_fields(4) [OF e, of p] b by simp
    then show "\<exists>s'. ?f va s2 = Inr s' \<and> evolves ?L s2 s'" using setPhysicalPage_evolves [OF evolvesD(1) [OF e] c] by simp
  qed
  then obtain s2 where s2: "sfold ?f ?ps ?s1 = Inr s2" "evolves ?L ?s1 s2" by blast
  let ?s3 = "s2\<lparr>iv_blockList := (stack_base t, p) # iv_blockList s2\<rparr>"
  have L: "iv_blockList s2 = ?L" using skelD(5) [OF evolvesD(2) [OF s2(2)]] by simp
  note sh = shapeD [OF evolves_fields(2) [OF s2(2), of p]]
  have "good ((stack_base t, p) # ?L) s2"
    by (rule good_add_stack [OF evolvesD(1) [OF s2(2)] n]) (use sh(4,5,8) b in \<open>simp_all add: Block_init_def\<close>)
  then have "good ((stack_base t, p) # ?L) ?s3"
    by (rule good_same) (use evolvesD(1) [OF s2(2)] in \<open>simp_all add: good_def\<close>)
  moreover have "iv_segments s2 = iv_segments s" using skelD(6) [OF evolvesD(2) [OF s2(2)]] by simp
  ultimately show ?thesis using s2(1) n L evolves_fields(2) [OF s2(2), of p] by (simp add: createStack_def)
qed


lemma deleteStack_good:
  assumes g: "good (iv_blockList s) s" and k: "map_of (iv_blockList s) (stack_base t) = Some p"
  shows "\<exists>s'. deleteStack t s = Inr s' \<and> good (iv_blockList s') s' \<and> iv_blockList s' = alist_erase (stack_base t) (iv_blockList s)
    \<and> (\<forall>va i. governs (iv_blockList s) s va = Some (p, i) \<longrightarrow> translate (ptm s') va = None)"
proof -
  let ?L = "iv_blockList s" and ?L' = "alist_erase (stack_base t) (iv_blockList s)"
  let ?s1 = "s\<lparr>iv_blockList := ?L'\<rparr>"
  have g1: "good ?L ?s1" by (rule good_same [OF g]) (use g in \<open>simp_all add: good_def\<close>)
  have "p \<in> snd ` set ?L" using map_of_SomeD [OF k] by force
  then have b: "block_ok (blk ?s1 p)" using vm_wf_block [OF good_usage(2) [OF g], of p] by simp
  obtain s' where s': "releaseAllPages p ?s1 = Inr s'" "evolves ?L ?s1 s'"
    "\<forall>va i. governs ?L s' va = Some (p, i) \<longrightarrow> translate (ptm s') va = None"
    using releaseAllPages_evolves [OF g1 b] by blast
  have "good ?L' s'" using good_drop_stack [OF evolvesD(1) [OF s'(2)] k] s'(3) by blast
  moreover have "iv_blockList s' = ?L'" using skelD(5) [OF evolvesD(2) [OF s'(2)]] by simp
  moreover have "governs ?L s' va = governs ?L s va" for va
  proof -
    have c: "chain_of ?L ?s1 va = chain_of ?L s va"
      by (simp add: chain_of_def segment_of_upd split: option.split segment.split)
    have "find_block ?s1 ps va = find_block s ps va" for ps by (rule find_block_other) simp_all
    then have "governs ?L ?s1 va = governs ?L s va" by (simp add: governs_def c)
    then show ?thesis using governs_skel [OF evolvesD(2) [OF s'(2)]] by simp
  qed
  ultimately show ?thesis using s' k by (simp add: deleteStack_def)
qed

section \<open>Linear memory\<close>

lemma set_linear_loop:
  assumes g: "good L s" and c: "\<And>va. va \<in> set vas \<Longrightarrow> find_block s (base_chain s) va \<noteq> None"
  shows "\<exists>s'. sfold set_linear vas s = Inr s' \<and> evolves L s s'"
proof (rule sfold_evolves [OF g])
  fix va s1 assume va: "va \<in> set vas" and e: "evolves L s s1"
  obtain p where p: "find_block s1 (base_chain s1) va = Some p"
    using c [OF va] evolves_fields(1,7) [OF e] by auto
  then have "p \<in> set (base_chain s1)" using find_block_Some by blast
  then have "block_ok (blk s1 p)" using vm_wf_block [OF good_usage(2) [OF evolvesD(1) [OF e]]] by blast
  from setPhysicalPage_evolves [OF evolvesD(1) [OF e] p this, of WRITABLE va]
  show "\<exists>s'. set_linear va s1 = Inr s' \<and> evolves L s1 s'" by (simp add: set_linear_def)
qed

lemma new_block_contains:
  assumes g: "good L s" and p: "p \<in> set (base_chain s)" and b: "blk s p = Block_init va (ALIGN_PAGE_UP sz) mq ph"
    and sz: "unat sz < 2 ^ 41" and va: "unat va < 2 ^ 40" and w: "w \<in> set (page_list va (va + sz))"
  shows "find_block s (base_chain s) w \<noteq> None"
proof -
  have up: "unat sz \<le> unat (ALIGN_PAGE_UP sz)" "unat (ALIGN_PAGE_UP sz) < 2 ^ 62" using align_page_up(1) [OF sz] sz by auto
  have "unat (va + sz) = unat va + unat sz" "unat (va + ALIGN_PAGE_UP sz) = unat va + unat (ALIGN_PAGE_UP sz)"
    using va sz up(2) by (simp_all add: unat_word_ariths)
  then have "isContained (blk s p) w" using page_list_bounds [OF w] up(1)
    by (simp add: b isContained_def Block_init_def word_le_nat_alt word_less_nat_alt)
  then have "find_block s ps w \<noteq> None" if "p \<in> set ps" for ps using that by (induction ps) auto
  then show ?thesis using p by blast
qed

lemma mmAllocBlock_total: "\<exists>rc s'. mmAllocBlock p mq va sz ph s = Inr (rc, s')"
  by (simp only: mmAllocBlock_def split: if_split) blast

lemma mmLinearMap_good:
  assumes g: "good L s" and f: "fresh L p s" and z: "unat sz < 2 ^ 41"
  shows "\<exists>rc s'. mmLinearMap p pa sz s = Inr (rc, s') \<and> good L s' \<and> iv_blockList s' = iv_blockList s"
proof -
  obtain rc s1 where s1: "mmAllocBlock p False pa sz True s = Inr (rc, s1)" using mmAllocBlock_total by blast
  note m = mmAllocBlock_good [OF g f z s1]
  show ?thesis
  proof (cases "rc = 0")
    case False
    then have "mmLinearMap p pa sz s = Inr (rc, s1)" using s1 by (simp add: mmLinearMap_def)
    then show ?thesis using m by blast
  next
    case True
    have "find_block s1 (base_chain s1) va \<noteq> None" if "va \<in> set (page_list pa (pa + sz))" for va
      using new_block_contains [OF _ _ _ z _ that, of L s1 p False True] m True by simp
    then obtain s' where "sfold set_linear (page_list pa (pa + sz)) s1 = Inr s'" "evolves L s1 s'"
      using set_linear_loop [of L s1] m by blast
    then show ?thesis using s1 True m skelD(5) [OF evolvesD(2)] evolvesD(1) by (simp add: mmLinearMap_def)
  qed
qed

section \<open>Extended memory\<close>

lemma pm_addMemory_inv:
  assumes i: "pm_inv m" and a: "PAGESIZE dvd a" "a \<noteq> NULL" and r: "pm_addMemory a n m = Inr m'"
  shows "pm_inv m'" "pm_pages m' = pm_pages m + mset (pages a n)"
proof -
  obtain c where c: "core_addMemory a n (heap m) = Inr c"
    and m': "m' = m\<lparr>heap := c, iv_pagesAvail := iv_pagesAvail m + of_nat n, iv_pagesTotal := iv_pagesTotal m + of_nat n\<rparr>"
    using r by (auto simp: pm_addMemory_def split: sum.splits)
  have ci: "core_inv (heap m)" using i by (simp add: pm_inv_def)
  have "core_inv c \<and> core_pages c = core_pages (heap m) + mset (pages a n)"
  proof (cases "iv_supports_coalesce (heap m)")
    case False
    then show ?thesis using core_addMemory_plain [OF ci False a, of n] c by auto
  next
    case True
    then obtain rs where "fst (last (iv_ranges (heap m))) = 0" "add_range a n (iv_ranges (heap m)) = Inr rs"
      using c by (auto simp: core_addMemory_def Let_def split: if_splits sum.splits)
    then show ?thesis using core_addMemory_ranges [OF ci True a] c by force
  qed
  moreover have "\<forall>b\<in>set (pages a n). PAGESIZE dvd b" using a(1) by (auto simp: pages_def)
  ultimately show "pm_inv m'" "pm_pages m' = pm_pages m + mset (pages a n)"
    using i m' by (auto simp: pm_inv_def pm_pages_def)
qed

text \<open>The memory the boot loader found: whole pages, and not more than the kernel can be extended to.\<close>

definition cache_ok :: "u64 \<Rightarrow> bool" where
  "cache_ok c \<longleftrightarrow> page_addr c = c \<and> 0 < c \<and> c \<le> VMM_MEMORY_SIZE"

lemma extend_start:
  assumes c: "cache_ok c"
  defines "sp \<equiv> ALIGN_PAGE_UP (ALIGN_PAGE_UP (VMM_MEMORY_SIZE - c) div page_size * 4) div page_size"
  shows "unat (VMM_MEMORY_SIZE - c) < 2 ^ 41" "PAGESIZE dvd unat (c + sp * page_size)" "unat (c + sp * page_size) \<noteq> NULL"
proof -
  have cn: "unat c \<le> 2 ^ 26" "0 < unat c" "4096 dvd unat c"
    using c by (auto simp: cache_ok_def VMM_MEMORY_SIZE_def word_le_nat_alt word_less_nat_alt page_addr_iff)
  have z: "unat (VMM_MEMORY_SIZE - c) \<le> 2 ^ 26" using c by (simp add: cache_ok_def VMM_MEMORY_SIZE_def unat_sub word_le_nat_alt)
  then show "unat (VMM_MEMORY_SIZE - c) < 2 ^ 41" by simp
  then have "unat (ALIGN_PAGE_UP (VMM_MEMORY_SIZE - c)) \<le> 2 ^ 26 + 4095" using align_page_up(1) z by fastforce
  then have "unat (ALIGN_PAGE_UP (VMM_MEMORY_SIZE - c) div page_size) \<le> (2 ^ 26 + 4095) div 4096"
    by (simp add: unat_div div_le_mono)
  then have y: "unat (ALIGN_PAGE_UP (VMM_MEMORY_SIZE - c) div page_size * 4) \<le> 4 * (2 ^ 26 + 4095)"
    by (simp add: unat_word_ariths)
  then have "unat (ALIGN_PAGE_UP (ALIGN_PAGE_UP (VMM_MEMORY_SIZE - c) div page_size * 4)) \<le> 4 * (2 ^ 26 + 4095) + 4095"
    using align_page_up(1) [of "ALIGN_PAGE_UP (VMM_MEMORY_SIZE - c) div page_size * 4"] by fastforce
  then have s: "unat sp * 4096 \<le> 4 * (2 ^ 26 + 4095) + 4095"
    unfolding sp_def by (simp add: unat_div)
  then have "unat (c + sp * page_size) = unat c + unat sp * 4096" using cn by (simp add: unat_word_ariths)
  then show "PAGESIZE dvd unat (c + sp * page_size)" "unat (c + sp * page_size) \<noteq> NULL"
    using cn by (simp_all add: PAGESIZE_def)
qed

lemma mmExtend_good:
  assumes g: "good L s" and f: "fresh L p s" and c: "cache_ok (hbCacheSize s)" and r: "mmExtend p s = Inr (rc, s')"
  shows "good L s' \<and> iv_blockList s' = iv_blockList s"
proof -
  let ?va = "hbCacheSize s" and ?z = "VMM_MEMORY_SIZE - hbCacheSize s"
  note x = extend_start [OF c]
  obtain rc1 s1 where s1: "mmAllocBlock p False ?va ?z False s = Inr (rc1, s1)" using mmAllocBlock_total by blast
  note m = mmAllocBlock_good [OF g f x(1) s1]
  show ?thesis
  proof (cases "rc1 = 0")
    case False
    then have "s' = s1" using r s1 by (simp add: mmExtend_def)
    then show ?thesis using m by blast
  next
    case True
    have "find_block s1 (base_chain s1) va \<noteq> None" if "va \<in> set (page_list ?va (?va + ?z))" for va
      using new_block_contains [OF _ _ _ x(1) _ that, of L s1 p False False] m True by simp
    then obtain s2 where s2: "sfold set_linear (page_list ?va (?va + ?z)) s1 = Inr s2" "evolves L s1 s2"
      using set_linear_loop [of L s1] m by blast
    let ?sp = "ALIGN_PAGE_UP (ALIGN_PAGE_UP ?z div page_size * 4) div page_size"
    obtain m' where m': "pm_addMemory (unat (?va + ?sp * page_size)) (unat (?z div page_size - ?sp)) (pgm s2) = Inr m'"
      "s' = s2\<lparr>pgm := m', iv_physMemSize := iv_physMemSize s2 + ?z\<rparr>"
      using r s1 True s2(1) by (auto simp: mmExtend_def Let_def sbind_Inr_iff)
    have g2: "good L s2" by (rule evolvesD(1) [OF s2(2)])
    then have "pm_inv m'" using pm_addMemory_inv(1) [OF _ x(2,3) m'(1)] by (simp add: good_def)
    then have "good L s'" by (intro good_same [OF g2]) (simp_all add: m'(2))
    moreover have "iv_blockList s' = iv_blockList s" using skelD(5) [OF evolvesD(2) [OF s2(2)]] m m'(2) by simp
    ultimately show ?thesis ..
  qed
qed

end
