(* ===== verification/Vm_Devices.thy ===== *)
theory Vm_Devices
  imports Vm_Regions
begin

text \<open>
  The windows of the device segments: which window an address is in, page faults on them, and the
  calls that map and unmap a window.
\<close>

section \<open>Addresses of windows\<close>

lemma segment_words [simp]: "unat segment_size = 2 ^ 40" "unat window_size = 2 ^ 35" "window_size = 2 ^ 35"
  by (simp_all add: segment_size_def window_size_def SLBE_s_def MMIO_MAP_DEVICES_def)

lemma segment_id: "getSegmentIdFromAddress va = unat va div 2 ^ 40"
  by (simp add: getSegmentIdFromAddress_def SLBE_s_def drop_bit_eq_div unat_div)

definition dev_at :: "nat \<Rightarrow> device_segment \<Rightarrow> bool" where
  "dev_at k d \<longleftrightarrow> k \<le> MMIO_LAST_SEGMENT_ID \<and> iv_baseAddress d = of_nat k * segment_size"

lemma dev_words:
  assumes d: "dev_at k d" and k: "unat va div 2 ^ 40 = k"
  shows "dev_contains d va" "dev_idx d va = unat va mod 2 ^ 40 div 2 ^ 35" "unat (dev_offset d va) = unat va mod 2 ^ 35"
    "va - iv_baseAddress d - of_nat (dev_idx d va) * segment_size div of_nat MMIO_MAP_DEVICES = dev_offset d va"
    "dev_idx d va < MMIO_MAP_DEVICES"
proof -
  have k10: "k \<le> 10" using d by (simp add: dev_at_def MMIO_LAST_SEGMENT_ID_def MMIO_FIRST_SEGMENT_ID_def)
  have b: "unat (iv_baseAddress d) = k * 2 ^ 40"
    using d k10 by (simp add: dev_at_def unat_word_ariths unat_of_nat)
  have e: "unat (iv_baseAddress d + segment_size) = k * 2 ^ 40 + 2 ^ 40" using b k10 by (simp add: unat_word_ariths)
  have va: "unat va = k * 2 ^ 40 + unat va mod 2 ^ 40" using k div_mult_mod_eq [of "unat va" "2 ^ 40"] by simp
  have m: "unat va mod 2 ^ 40 < 2 ^ 40" by simp
  have ge: "iv_baseAddress d \<le> va" using va b by (simp add: word_le_nat_alt)
  show "dev_contains d va" using va b e m unfolding dev_contains_def word_less_nat_alt word_le_nat_alt by linarith
  have o: "unat (va - iv_baseAddress d) = unat va mod 2 ^ 40" using va b ge by (simp add: unat_sub)
  then show i: "dev_idx d va = unat va mod 2 ^ 40 div 2 ^ 35" by (simp add: dev_idx_def unat_div)
  then show l: "dev_idx d va < MMIO_MAP_DEVICES" by (simp add: MMIO_MAP_DEVICES_def)
  have w: "unat (of_nat (dev_idx d va) * window_size) = unat va mod 2 ^ 40 div 2 ^ 35 * 2 ^ 35"
    using l unfolding i by (simp add: unat_word_ariths unat_of_nat MMIO_MAP_DEVICES_def)
  then have "of_nat (dev_idx d va) * window_size \<le> va - iv_baseAddress d" using o by (simp add: word_le_nat_alt)
  then have "unat (dev_offset d va) = unat va mod 2 ^ 40 mod 2 ^ 35"
    using o w unfolding dev_offset_def by (simp add: unat_sub minus_div_mult_eq_mod)
  then show "unat (dev_offset d va) = unat va mod 2 ^ 35" by (simp add: mod_mod_cancel)
  have "of_nat (dev_idx d va) * segment_size div of_nat MMIO_MAP_DEVICES = of_nat (dev_idx d va) * window_size"
    using l w unfolding word_unat_eq_iff i by (simp add: unat_div unat_word_ariths unat_of_nat MMIO_MAP_DEVICES_def)
  then show "va - iv_baseAddress d - of_nat (dev_idx d va) * segment_size div of_nat MMIO_MAP_DEVICES = dev_offset d va"
    by (simp add: dev_offset_def)
qed

lemma window_offset: "(x div 4096 * 4096) mod 2 ^ 35 = x mod 2 ^ 35 div 4096 * (4096 :: nat)"
proof -
  have "x mod 2 ^ 35 div 4096 = x div 4096 mod 2 ^ 23" using mod_mult2_eq [of x 4096 "2 ^ 23"] by simp
  moreover have "4096 * (x div 4096 mod 2 ^ 23) = 4096 * (x div 4096) mod 2 ^ 35"
    using mult_mod_right [of 4096 "x div 4096" "2 ^ 23"] by simp
  ultimately show ?thesis by (simp add: mult.commute)
qed

lemma unat_page_addr: "unat (page_addr va) = unat va div 4096 * 4096"
  using page_aligned [of "page_addr va"] by (simp add: pno_def [of va])

lemma page_segment: "unat (page_addr va) div 2 ^ 40 = unat va div 2 ^ 40"
  by (simp add: unat_page_addr div_mult2_eq [of _ 4096 "2 ^ 28", simplified])

lemma window_index:
  assumes d: "dev_at k d" and k: "unat va div 2 ^ 40 = k"
  shows "dev_idx d (page_addr va) = dev_idx d va"
proof -
  have e: "x mod 2 ^ 40 div 2 ^ 35 = x div 4096 div 2 ^ 23 mod 32" for x :: nat
    using mod_mult2_eq [of x "2 ^ 35" 32] by (simp add: div_mult2_eq [symmetric])
  show ?thesis using dev_words(2) [OF d k] dev_words(2) [OF d, of "page_addr va", unfolded page_segment, OF k]
    unfolding e by (simp add: unat_page_addr)
qed

text \<open>All of a page is in one window, at one frame; the window's last page is in it when it starts there.\<close>

lemma window_page:
  assumes d: "dev_at k d" and k: "unat va div 2 ^ 40 = k" and m: "slot_ok m" and o: "dev_offset d va < ucast (dv_size m)"
  shows "dev_idx d (page_addr va) = dev_idx d va" "dev_offset d (page_addr va) < ucast (dv_size m)"
    "(dv_addr m + dev_offset d (page_addr va)) div page_size = (dv_addr m + dev_offset d va) div page_size"
    "(dv_addr m + dev_offset d va) div page_size < 2 ^ 45"
proof -
  let ?w = "page_addr va"
  note v = dev_words [OF d k] and w = dev_words [OF d, of ?w, unfolded page_segment, OF k]
  show "dev_idx d ?w = dev_idx d va" by (rule window_index [OF d k])
  have ow: "unat (dev_offset d ?w) = unat (dev_offset d va) div 4096 * 4096"
    unfolding v(3) w(3) unat_page_addr by (rule window_offset)
  have sz: "unat (ucast (dv_size m) :: u64) = unat (dv_size m)" 
    using unsigned_less [of "dv_size m", where ?'a = nat] by (simp add: unsigned_ucast_eq take_bit_nat_eq_self)
  show "dev_offset d ?w < ucast (dv_size m)" using o ow unfolding word_less_nat_alt by (metis div_times_less_eq_dividend le_less_trans)
  have le: "unat (dv_addr m) + unat (dev_offset d va) < 2 ^ 57" using m o sz by (simp add: slot_ok_def word_less_nat_alt)
  then have u: "unat (dv_addr m + dev_offset d va) = unat (dv_addr m) + unat (dev_offset d va)" by (simp add: unat_word_ariths)
  have "unat (dev_offset d ?w) \<le> unat (dev_offset d va)" unfolding ow by (rule div_times_less_eq_dividend)
  then have u': "unat (dv_addr m + dev_offset d ?w) = unat (dv_addr m) + unat (dev_offset d ?w)"
    using le by (simp add: unat_word_ariths)
  have "4096 dvd unat (dv_addr m)" using m by (simp add: slot_ok_def page_addr_iff)
  then show "(dv_addr m + dev_offset d ?w) div page_size = (dv_addr m + dev_offset d va) div page_size"
    unfolding word_unat_eq_iff unat_div u u' ow by (simp add: div_plus_div_distrib_dvd_left)
  show "(dv_addr m + dev_offset d va) div page_size < 2 ^ 45"
    using le unfolding word_less_nat_alt unat_div u by (simp add: less_mult_imp_div_less)
qed

section \<open>Page faults on windows\<close>

lemma good_segment:
  assumes "good L s" "segment_of s va = Some (DeviceSegment d)"
  shows "dev_at (unat va div 2 ^ 40) d" "length (iv_mmioMap d) = MMIO_MAP_DEVICES" "\<forall>m\<in>set (iv_mmioMap d). slot_ok m"
proof -
  let ?k = "unat va div 2 ^ 40"
  have "?k < MAX_SEGMENTS" "iv_segments s ! ?k = Some (DeviceSegment d)"
    using assms(2) by (auto simp: segment_of_def segment_id Let_def split: if_splits)
  then have "seg_ok ?k (Some (DeviceSegment d))" using assms(1) unfolding good_def vm_wf_def by metis
  then show "dev_at ?k d" "length (iv_mmioMap d) = MMIO_MAP_DEVICES" "\<forall>m\<in>set (iv_mmioMap d). slot_ok m"
    by (auto simp: seg_ok_def dev_at_def)
qed

definition dev_access :: "devSegData \<Rightarrow> u64" where
  "dev_access m = (if dv_no_ci m then BYPASS_HRMOR OR WRITABLE OR (if dv_guarded m then GUARDED else 0) else CI_ACCESS)"

lemma dev_access_kind: "access_kind (dev_access m) = (if dv_no_ci m then WRITABLE else CI_ACCESS)"
    "dev_access m \<noteq> CI_ACCESS \<Longrightarrow> BYPASS_HRMOR AND dev_access m \<noteq> 0"
  by (auto simp: dev_access_def access_kind_def BYPASS_HRMOR_def WRITABLE_def GUARDED_def CI_ACCESS_def READ_ONLY_def)

lemma device_fault_good:
  assumes g: "good L s" and d: "segment_of s va = Some (DeviceSegment d)"
  defines "m \<equiv> iv_mmioMap d ! dev_idx d va"
  shows "\<exists>s'. DeviceSegment_handlePageFault junk d va s = Inr (dev_offset d va < ucast (dv_size m), s') \<and> good L s' \<and> skel s' = skel s
    \<and> sent s' = sent s \<and> (dev_offset d va < ucast (dv_size m) \<longrightarrow> (\<exists>x. translate (ptm s') va = Some x \<and> dev_allows d va x))
    \<and> (\<not> dev_offset d va < ucast (dv_size m) \<longrightarrow> s' = s)"
proof (cases "dev_offset d va < ucast (dv_size m)")
  case False
  note w = dev_words [OF good_segment(1) [OF g d] refl]
  have "DeviceSegment_handlePageFault junk d va s = Inr (False, s)"
    using False w(1) unfolding DeviceSegment_handlePageFault_def Let_def w(4) m_def [symmetric] by (simp add: not_less)
  then show ?thesis using False g by simp
next
  case True
  note w = dev_words [OF good_segment(1) [OF g d] refl]
  have mi: "m \<in> set (iv_mmioMap d)" using w(5) good_segment(2) [OF g d] by (simp add: m_def)
  then have ok: "slot_ok m" using good_segment(3) [OF g d] by blast
  note p = window_page [OF good_segment(1) [OF g d] refl ok True]
  let ?pg = "(dv_addr m + dev_offset d va) div page_size"
  have eq: "addEntry (hrmor s) junk (page_addr va) ?pg (dev_access m) t = ptmgr_addEntry junk (page_addr va) ?pg (dev_access m) t" for t
    using dev_access_kind(2) [of m] by (auto simp: addEntry_def Let_def)
  have al: "allowed L s u x \<longleftrightarrow> ucast (fst x) = ?pg \<and> hw_access x = Inr (access_kind (dev_access m))"
    if "page_addr u = page_addr va" for u x
  proof -
    have "segment_of s u = Some (DeviceSegment d)" using d segment_of_page [of u va s] that by (simp add: page_addr_pno)
    moreover have "dev_contains d (page_addr va)" using dev_words(1) [OF good_segment(1) [OF g d], of "page_addr va"] page_segment by simp
    ultimately show ?thesis using that p by (simp add: allowed_def dev_allows_def Let_def m_def [symmetric] dev_access_kind)
  qed
  have new: "allowed L s u x" if "page_addr u = page_addr (page_addr va)" "entry_data ?pg (dev_access m) x" for u x
    using al [of u x] that entry_dataD [OF that(2)] frame_45 [OF p(4)] by simp
  have fr: "ucast (fst x) = ?pg" if "allowed L s (page_addr va) x" for x using al [of "page_addr va" x] that by simp
  from vm_addEntry_good [OF g eq fr new] obtain s' x where
    s': "vm_addEntry junk (page_addr va) ?pg (dev_access m) s = Inr s'" "good L s'" "pt_quiet s s'"
      "translate (ptm s') (page_addr va) = Some x" "entry_data ?pg (dev_access m) x" by blast
  have "DeviceSegment_handlePageFault junk d va s = Inr (True, s')"
    using True w(1) s'(1) unfolding DeviceSegment_handlePageFault_def Let_def w(4) m_def [symmetric] align_page dev_access_def [symmetric]
    by (simp add: not_le)
  moreover have "dev_allows d va x"
    using True w(1) entry_dataD [OF s'(5)] frame_45 [OF p(4)] by (simp add: dev_allows_def Let_def m_def [symmetric] dev_access_kind)
  moreover have "translate (ptm s') va = Some x" using s'(4) translate_page [of va "page_addr va"] by simp
  ultimately show ?thesis using True s'(2) quiet_fields(1,4) [OF s'(3)] by (intro exI [of _ s']) (simp only: if_True simp_thms, blast)
qed

section \<open>Mapping and unmapping\<close>

definition set_window :: "nat \<Rightarrow> devSegData \<Rightarrow> device_segment \<Rightarrow> device_segment" where
  "set_window i m d = d\<lparr>iv_mmioMap := (iv_mmioMap d)[i := m]\<rparr>"

lemma set_window_fields [simp]:
  "iv_baseAddress (set_window i m d) = iv_baseAddress d" "iv_mmioMap (set_window i m d) = (iv_mmioMap d)[i := m]"
  "dev_idx (set_window i m d) va = dev_idx d va" "dev_offset (set_window i m d) va = dev_offset d va"
  "dev_contains (set_window i m d) va = dev_contains d va"
  by (simp_all add: set_window_def dev_idx_def dev_offset_def dev_contains_def)

lemma set_segment_fields [simp]:
  "blk (set_segment k g s) = blk s" "base_chain (set_segment k g s) = base_chain s" "hrmor (set_segment k g s) = hrmor s"
  "ptm (set_segment k g s) = ptm s" "pgm (set_segment k g s) = pgm s" "sent (set_segment k g s) = sent s"
  "iv_segments (set_segment k g s) = (iv_segments s)[k := Some g]" "iv_blockList (set_segment k g s) = iv_blockList s"
  "hbCacheSize (set_segment k g s) = hbCacheSize s" "spte_at (set_segment k g s) = spte_at s"
  by (simp_all add: set_segment_def spte_at_def fun_eq_iff)

lemma segment_of_set:
  "length (iv_segments s) = MAX_SEGMENTS \<Longrightarrow> k < MAX_SEGMENTS \<Longrightarrow>
   segment_of (set_segment k g s) va = (if unat va div 2 ^ 40 = k then Some g else segment_of s va)"
  by (auto simp: segment_of_def Let_def segment_id)

text \<open>A window that the hardware table does not use may be changed.\<close>

definition window_unused :: "nat \<Rightarrow> device_segment \<Rightarrow> nat \<Rightarrow> vmm \<Rightarrow> bool" where
  "window_unused k d i s \<longleftrightarrow> (\<forall>va. unat va div 2 ^ 40 = k \<and> dev_idx d va = i \<longrightarrow> translate (ptm s) va = None)"

lemma good_set_window:
  assumes g: "good L s" and k: "k < MAX_SEGMENTS" "iv_segments s ! k = Some (DeviceSegment d)" and i: "i < MMIO_MAP_DEVICES"
    and m: "slot_ok m" and un: "window_unused k d i s"
  shows "good L (set_segment k (DeviceSegment (set_window i m d)) s)"
proof -
  let ?d = "set_window i m d" and ?s = "set_segment k (DeviceSegment (set_window i m d)) s"
  have len: "length (iv_segments s) = MAX_SEGMENTS" using g by (simp add: good_def vm_wf_def)
  have ds: "segment_of s va = Some (DeviceSegment d)" if "unat va div 2 ^ 40 = k" for va
    using k that by (simp add: segment_of_def segment_id Let_def)
  note seg = segment_of_set [OF len k(1), of "DeviceSegment ?d"]
  have ch: "chain_of L ?s va = chain_of L s va" for va
    by (cases "unat va div 2 ^ 40 = k") (simp_all add: chain_of_def seg ds split: option.split segment.split)
  have fb: "find_block ?s ps va = find_block s ps va" for ps va by (rule find_block_other) simp
  have gv: "governs L ?s va = governs L s va" for va unfolding governs_def ch fb set_segment_fields by (rule refl)
  have al: "spte_allows ?s p j x = spte_allows s p j x" for p j x
    unfolding spte_allows_def frame_of_def set_segment_fields by (rule refl)
  have "allowed L ?s va x" if t: "translate (ptm s) va = Some x" and a: "allowed L s va x" for va x
  proof (cases "unat va div 2 ^ 40 = k")
    case False
    then show ?thesis using a unfolding allowed_def seg gv al by simp
  next
    case True
    have "translate (ptm s) (page_addr va) = Some x" using t translate_page [of va "page_addr va"] by simp
    then have "dev_idx d (page_addr va) \<noteq> i" using un True page_segment [of va] unfolding window_unused_def by auto
    then have "dev_allows ?d (page_addr va) x" using a ds [OF True] by (simp add: allowed_def dev_allows_def)
    then show ?thesis using True by (simp add: allowed_def seg)
  qed
  then have "pt.obeys (allowed L ?s) (ptm ?s)" using g pt.obeys_mono [of "allowed L s" "ptm s"] by (simp add: good_def)
  moreover have "vm_wf L ?s"
  proof -
    have "seg_ok k (Some (DeviceSegment d))" using g k unfolding good_def vm_wf_def by metis
    then have "seg_ok k (Some (DeviceSegment ?d))"
      using m by (auto simp: seg_ok_def dest!: set_update_subset_insert [THEN subsetD])
    then show ?thesis using g k(1) by (auto simp: good_def vm_wf_def nth_list_update)
  qed
  moreover have "segment_of ?s va = Some BaseSegment \<longleftrightarrow> segment_of s va = Some BaseSegment" for va
    using ds by (simp add: seg)
  then have "msgs_ok ?s" using g unfolding good_def msgs_ok_def fb set_segment_fields by blast
  moreover have "hdlrs_ok ?s" "handlers_base L ?s" using g by (auto simp: good_def hdlrs_ok_def handlers_base_def)
  ultimately show ?thesis using g by (simp add: good_def)
qed

lemma free_slot_Some:
  "free_slot i ms = Some j \<Longrightarrow> i \<le> j \<and> j < i + length ms \<and> dv_addr (ms ! (j - i)) = 0 \<and> dv_size (ms ! (j - i)) = 0"
proof (induction ms arbitrary: i)
  case (Cons m ms)
  then show ?case by (cases "dv_addr m = 0 \<and> dv_size m = 0") (force simp: nth_Cons' Suc_diff_Suc dest!: Cons.IH)+
qed simp

lemma empty_window_unused:
  assumes g: "good L s" and k: "k < MAX_SEGMENTS" "iv_segments s ! k = Some (DeviceSegment d)" and e: "dv_size (iv_mmioMap d ! i) = 0"
  shows "window_unused k d i s"
  unfolding window_unused_def
proof (intro allI impI)
  fix va assume va: "unat va div 2 ^ 40 = k \<and> dev_idx d va = i"
  then have d: "segment_of s va = Some (DeviceSegment d)" using k by (simp add: segment_of_def segment_id Let_def)
  then have "dev_idx d (page_addr va) = i" using window_index [OF good_segment(1) [OF g d] refl] va by simp
  then have "\<not> allowed L s va x" for x using d e by (simp add: allowed_def dev_allows_def)
  then show "translate (ptm s) va = None" using good_allowed [OF g, of va] by (cases "translate (ptm s) va") auto
qed

definition window :: "u64 \<Rightarrow> u64 \<Rightarrow> bool \<Rightarrow> bool \<Rightarrow> devSegData" where
  "window ra sz nonCI guarded = \<lparr>dv_addr = ra, dv_no_ci = nonCI, dv_guarded = guarded, dv_size = ucast sz\<rparr>"

lemma devMap_loop_cases:
  assumes "devMap_loop ra sz nonCI guarded ks s = (ea, s')"
  obtains "ea = 0" "s' = s"
  | k d i where "k \<in> set ks" "iv_segments s ! k = Some (DeviceSegment d)" "free_slot 0 (iv_mmioMap d) = Some i"
      "sz \<le> THIRTYTWO_GB" "ea = of_nat i * window_size + iv_baseAddress d"
      "s' = set_segment k (DeviceSegment (set_window i (window ra sz nonCI guarded) d)) s"
  using assms
proof (induction ks)
  case (Cons k ks)
  let ?r = "\<lambda>d. DeviceSegment_devMap ra sz nonCI guarded d"
  consider d where "iv_segments s ! k = Some (DeviceSegment d)" "fst (?r d) \<noteq> 0"
    | "devMap_loop ra sz nonCI guarded ks s = (ea, s')"
    using Cons.prems(3) by (auto split: option.splits segment.splits prod.splits if_splits)
  then show thesis
  proof cases
    case 1
    then have "free_slot 0 (iv_mmioMap d) \<noteq> None" "sz \<le> THIRTYTWO_GB"
      by (auto simp: DeviceSegment_devMap_def split: option.splits if_splits)
    then obtain i where i: "free_slot 0 (iv_mmioMap d) = Some i" "sz \<le> THIRTYTWO_GB" by blast
    show thesis
      by (rule Cons.prems(2) [OF _ 1(1) i]) (use 1 i Cons.prems(3) in \<open>auto simp: DeviceSegment_devMap_def set_window_def window_def\<close>)
  next
    case 2
    show thesis by (rule Cons.IH [OF _ _ 2]) ((rule Cons.prems(1); assumption), (rule Cons.prems(2); simp))
  qed
qed simp

lemma devMap_good:
  assumes g: "good L s" and m: "slot_ok (window ra sz nonCI guarded)" and r: "SegmentManager_devMap ra sz nonCI guarded s = (ea, s')"
  shows "good L s' \<and> iv_blockList s' = iv_blockList s \<and> hbCacheSize s' = hbCacheSize s"
  using r unfolding SegmentManager_devMap_def
proof (cases rule: devMap_loop_cases)
  case (2 k d i)
  have k: "k < MAX_SEGMENTS" using 2(1) by (auto simp: MMIO_LAST_SEGMENT_ID_def MMIO_FIRST_SEGMENT_ID_def MAX_SEGMENTS_def)
  then have "seg_ok k (Some (DeviceSegment d))" using g 2(2) unfolding good_def vm_wf_def by metis
  then have len: "length (iv_mmioMap d) = MMIO_MAP_DEVICES" by (simp add: seg_ok_def)
  have i: "i < MMIO_MAP_DEVICES" "dv_size (iv_mmioMap d ! i) = 0" using free_slot_Some [OF 2(3)] len by auto
  show ?thesis
    using good_set_window [OF g k 2(2) i(1) m empty_window_unused [OF g k 2(2) i(2)]] by (simp add: 2(6))
qed (use g in simp)

text \<open>Unmapping takes everything out of the hardware table that the window allowed.\<close>

lemma window_frames:
  assumes g: "good L s" and d: "segment_of s va = Some (DeviceSegment d)" and t: "translate (ptm s) va = Some x"
  defines "m \<equiv> iv_mmioMap d ! dev_idx d va"
  shows "dv_addr m div page_size \<le> ucast (fst x) \<and> ucast (fst x) \<le> (dv_addr m + ucast (dv_size m)) div page_size"
proof -
  let ?w = "page_addr va"
  note at = good_segment(1) [OF g d]
  have k: "unat ?w div 2 ^ 40 = unat va div 2 ^ 40" by (rule page_segment)
  have i: "dev_idx d ?w = dev_idx d va" by (rule window_index [OF at refl])
  have a: "dev_offset d ?w < ucast (dv_size m)" "ucast (fst x) = (dv_addr m + dev_offset d ?w) div page_size"
    using good_allowed [OF g t] d i by (simp_all add: allowed_def dev_allows_def Let_def m_def)
  have "m \<in> set (iv_mmioMap d)" using dev_words(5) [OF at refl] good_segment(2) [OF g d] by (simp add: m_def)
  then have ok: "unat (dv_addr m) + unat (dv_size m) < 2 ^ 57" using good_segment(3) [OF g d] by (simp add: slot_ok_def)
  have sz: "unat (ucast (dv_size m) :: u64) = unat (dv_size m)"
    using unsigned_less [of "dv_size m", where ?'a = nat] by (simp add: unsigned_ucast_eq take_bit_nat_eq_self)
  have o: "unat (dev_offset d ?w) < unat (dv_size m)" using a(1) sz by (simp add: word_less_nat_alt)
  have "unat (dv_addr m + dev_offset d ?w) = unat (dv_addr m) + unat (dev_offset d ?w)"
    "unat (dv_addr m + ucast (dv_size m)) = unat (dv_addr m) + unat (dv_size m)"
    using ok o sz by (simp_all add: unat_word_ariths)
  then show ?thesis using o unfolding a(2) word_le_nat_alt unat_div by (simp add: div_le_mono)
qed

lemma devUnmap_good:
  assumes g: "good L s"
  shows "\<exists>rc s'. SegmentManager_devUnmap ea s = Inr (rc, s') \<and> good L s' \<and> iv_blockList s' = iv_blockList s
    \<and> hbCacheSize s' = hbCacheSize s
    \<and> (rc = 0 \<longrightarrow> (\<exists>d. segment_of s ea = Some (DeviceSegment d) \<and> window_unused (unat ea div 2 ^ 40) d (dev_idx d ea) s'))
    \<and> (rc \<noteq> 0 \<longrightarrow> s' = s)"
proof (cases "\<exists>d. segment_of s ea = Some (DeviceSegment d)
    \<and> (dv_addr (iv_mmioMap d ! dev_idx d ea) \<noteq> 0 \<or> dv_size (iv_mmioMap d ! dev_idx d ea) \<noteq> 0)")
  case False
  have "SegmentManager_devUnmap ea s = Inr (- EINVAL, s)"
    using False unfolding SegmentManager_devUnmap_def DeviceSegment_devUnmap_def
    by (auto simp: Let_def segment_of_def MMIO_LAST_SEGMENT_ID_def MMIO_FIRST_SEGMENT_ID_def MAX_SEGMENTS_def split: option.split segment.split)
  then show ?thesis using g by (simp add: EINVAL_def)
next
  case True
  then obtain d where d: "segment_of s ea = Some (DeviceSegment d)"
    and ne: "dv_addr (iv_mmioMap d ! dev_idx d ea) \<noteq> 0 \<or> dv_size (iv_mmioMap d ! dev_idx d ea) \<noteq> 0" by blast
  let ?k = "unat ea div 2 ^ 40" and ?i = "dev_idx d ea" and ?m = "iv_mmioMap d ! dev_idx d ea"
  let ?m' = "?m\<lparr>dv_addr := 0, dv_size := 0, dv_guarded := False\<rparr>"
  let ?lo = "dv_addr ?m div page_size" and ?hi = "(dv_addr ?m + ucast (dv_size ?m)) div page_size"
  have at: "dev_at ?k d" by (rule good_segment(1) [OF g d])
  note w = dev_words [OF at refl]
  have k: "?k < MAX_SEGMENTS" "iv_segments s ! ?k = Some (DeviceSegment d)"
    using d by (auto simp: segment_of_def segment_id Let_def split: if_splits)
  have "seg_ok ?k (Some (DeviceSegment d))" using g k unfolding good_def vm_wf_def by metis
  then have kr: "MMIO_FIRST_SEGMENT_ID \<le> ?k" "?k \<le> MMIO_LAST_SEGMENT_ID" by (auto simp: seg_ok_def)
  obtain s1 where s1: "pt_call (delRangePN (hrmor s) ?lo ?hi False) s = Inr s1" "good L s1" "pt_quiet s s1"
    "\<forall>v x. translate (ptm s1) v = Some x \<longleftrightarrow> translate (ptm s) v = Some x \<and> \<not> (?lo \<le> ucast (fst x) \<and> ucast (fst x) \<le> ?hi)"
    using vm_delRangePN_good [OF g, of "hrmor s" ?lo ?hi] by blast
  let ?s' = "set_segment ?k (DeviceSegment (set_window ?i ?m' d)) s1"
  have k1: "iv_segments s1 ! ?k = Some (DeviceSegment d)" using k(2) skelD(6) [OF quiet_fields(1) [OF s1(3)]] by simp
  have un: "window_unused ?k d ?i s1"
    unfolding window_unused_def
  proof (intro allI impI)
    fix va assume va: "unat va div 2 ^ 40 = ?k \<and> dev_idx d va = ?i"
    then have dv: "segment_of s va = Some (DeviceSegment d)" using k by (simp add: segment_of_def segment_id Let_def)
    show "translate (ptm s1) va = None"
    proof (rule ccontr)
      assume "translate (ptm s1) va \<noteq> None"
      then obtain x where "translate (ptm s1) va = Some x" by blast
      then show False using s1(4) window_frames [OF g dv, of x] va by auto
    qed
  qed
  have "slot_ok ?m'" by (simp add: slot_ok_def page_addr_iff)
  from good_set_window [OF s1(2) k(1) k1 w(5) this un] have "good L ?s'" .
  moreover have "SegmentManager_devUnmap ea s = Inr (0, ?s')"
    using kr k(2) ne w(1) s1(1) unfolding SegmentManager_devUnmap_def DeviceSegment_devUnmap_def segment_id Let_def set_window_def
    by auto
  moreover have "window_unused ?k d ?i ?s'" using un by (simp add: window_unused_def)
  ultimately show ?thesis using d skelD(2,5) [OF quiet_fields(1) [OF s1(3)]] by auto
qed

end
