(* ===== verification/Vm_Linear.thy ===== *)
theory Vm_Linear
  imports Vm_Regions
begin

text \<open>
  What the loops that map memory linearly leave in the shadow table: every page of the range is
  present at its own address, with the access that was asked for, and no other entry is changed. The
  address goes through the 32-bit argument of \<open>setPageAddr\<close>.
\<close>

definition linear_frame :: "u64 \<Rightarrow> 20 word" where
  "linear_frame va = ucast (drop_bit 12 (ucast va :: u32))"

definition mapped_at :: "vmm \<Rightarrow> addr \<Rightarrow> u64 \<Rightarrow> u64 \<Rightarrow> bool" where
  "mapped_at s p va acc \<longleftrightarrow> (\<exists>i. getPTE (blk s p) va = Inr i \<and> sp_present (spte_at s p i)
     \<and> sp_page (spte_at s p i) = linear_frame va \<and> getPermission (spte_at s p i) = acc)"

text \<open>All entries but those of \<open>E\<close> are kept, up to their age.\<close>

definition kept_but :: "(addr \<times> nat) set \<Rightarrow> vmm \<Rightarrow> vmm \<Rightarrow> bool" where
  "kept_but E s s' \<longleftrightarrow> (\<forall>q j. (q, j) \<notin> E \<and> j < length (iv_ptes (blk s q)) \<longrightarrow> zeroLRU (spte_at s' q j) = zeroLRU (spte_at s q j))"

lemma kept_but_trans:
  "kept_but E s s1 \<Longrightarrow> kept_but F s1 s' \<Longrightarrow> evolves L s s1 \<Longrightarrow> E \<subseteq> G \<Longrightarrow> F \<subseteq> G \<Longrightarrow> kept_but G s s'"
  using evolves_fields(3) [of L s s1] unfolding kept_but_def by (metis subsetD)

lemma permission_age: "zeroLRU q' = zeroLRU q \<Longrightarrow> getPermission q' = getPermission q"
  using zeroLRU_fields [of q' q] by (simp add: getPermission_def)

lemma mapped_kept:
  assumes m: "mapped_at s p va acc" and k: "kept_but E s s'" and e: "evolves L s s'" and b: "block_ok (blk s p)"
    and o: "\<And>i. getPTE (blk s p) va = Inr i \<Longrightarrow> (p, i) \<notin> E"
  shows "mapped_at s' p va acc"
proof -
  obtain i where i: "getPTE (blk s p) va = Inr i" "sp_present (spte_at s p i)" "sp_page (spte_at s p i) = linear_frame va"
    "getPermission (spte_at s p i) = acc" using m by (auto simp: mapped_at_def)
  have z: "zeroLRU (spte_at s' p i) = zeroLRU (spte_at s p i)"
    using k o [OF i(1)] getPTE_D(2) [OF b i(1)] by (simp add: kept_but_def)
  then show ?thesis using i zeroLRU_fields [OF z] permission_age [OF z] evolves_fields(6) [OF e] by (auto simp: mapped_at_def)
qed

lemma set_then_get:
  assumes "acc \<in> {WRITABLE, EXECUTABLE}"
  shows "getPermission (snd (setPermSPTE w acc q)) = acc"
proof -
  have "getPermission (snd (setPermSPTE w WRITABLE q)) = WRITABLE" "getPermission (snd (setPermSPTE w EXECUTABLE q)) = EXECUTABLE"
    unfolding setPermSPTE_simps by (simp_all add: getPermission_def)
  then show ?thesis using assms by blast
qed

lemma map_page:
  assumes g: "good L s" and f: "find_block s ps va = Some p" and b: "block_ok (blk s p)"
    and a: "acc \<in> {WRITABLE, EXECUTABLE}" and nz: "va \<noteq> 0"
  shows "\<exists>s' i. Block_setPhysicalPage ps va va acc s = Inr s' \<and> evolves L s s' \<and> getPTE (blk s p) va = Inr i
    \<and> kept_but {(p, i)} s s' \<and> mapped_at s' p va acc"
proof -
  have c: "isContained (blk s p) va" using find_block_Some [OF f] by simp
  obtain i where i: "getPTE (blk s p) va = Inr i" "i < length (iv_ptes (blk s p))" using getPTE_contained [OF b c] by blast
  let ?f = "\<lambda>q. (setPageAddr (ucast va) q)\<lparr>sp_present := True\<rparr>"
  obtain s1 where s1: "vm_delEntry va (upd_spte p i ?f s) = Inr s1" "evolves L s s1" "pt_quiet (upd_spte p i ?f s) s1" "unused L s1 p i"
    using upd_then_del [OF g b i(1)] by blast
  have i1: "i < length (iv_ptes (blk s1 p))" using i(2) evolves_fields(3) [OF s1(2)] by simp
  obtain s' where s': "set_perm p i acc s1 = (0, s')"
    using a setPermSPTE_simps(1,3) by (auto simp: set_perm_def)
  then have u: "s' = upd_spte p i (\<lambda>_. snd (setPermSPTE (iv_writeMsgHdlr (blk s1 p) \<noteq> None) acc (spte_at s1 p i))) s1"
    by (auto simp: set_perm_def split: prod.splits)
  have e: "evolves L s s'"
    using evolves_trans [OF s1(2) set_perm_evolves(1) [OF evolvesD(1) [OF s1(2)] i1 s1(4) s']] .
  have at: "spte_at s' q j = (if q = p \<and> j = i then snd (setPermSPTE (iv_writeMsgHdlr (blk s1 p) \<noteq> None) acc (spte_at s1 p i))
      else spte_at s1 q j)" for q j
    unfolding u by (rule spte_at_upd [OF i1])
  have z1: "zeroLRU (spte_at s1 q j) = zeroLRU (spte_at (upd_spte p i ?f s) q j)" if "j < length (iv_ptes (blk s q))" for q j
    using quiet_fields(7) [OF s1(3)] that by simp
  have "kept_but {(p, i)} s s'" unfolding kept_but_def by (auto simp: at z1 spte_at_upd [OF i(2)])
  moreover have zi: "zeroLRU (spte_at s1 p i) = zeroLRU (?f (spte_at s p i))" using z1 [OF i(2)] i(2) by (simp add: spte_at_upd)
  have "sp_present (spte_at s' p i) \<and> sp_page (spte_at s' p i) = linear_frame va \<and> getPermission (spte_at s' p i) = acc"
    using zeroLRU_fields(1,2) [OF zi] set_then_get [OF a] by (simp add: at setPermSPTE_keeps setPageAddr_def linear_frame_def)
  then have "mapped_at s' p va acc" using i(1) evolves_fields(6) [OF e] by (auto simp: mapped_at_def)
  moreover have "Block_setPhysicalPage ps va va acc s = Inr s'"
    using f i(1) nz s1(1) s' by (simp add: Block_setPhysicalPage_def)
  ultimately show ?thesis using e i(1) by blast
qed

lemma page_list_distinct: "distinct (map pno (page_list lo hi))"
proof (induction lo hi rule: page_list.induct)
  case (1 va fin)
  show ?case
  proof (cases "va < fin \<and> va < va + page_size")
    case True
    have u: "unat (va + page_size) = unat va + 4096"
      using True by (metis unat_page_size unat_plus_simple less_imp_le)
    have "pno w \<noteq> pno va" if "w \<in> set (page_list (va + page_size) fin)" for w
    proof -
      have "unat va + 4096 \<le> unat w" using page_list_bounds [OF that] u by (simp add: word_le_nat_alt)
      then show ?thesis by (simp add: pno_def)
    qed
    then have "pno va \<notin> pno ` set (page_list (va + page_size) fin)" by (metis imageE)
    then show ?thesis using True 1 by (subst page_list.simps) simp
  qed (subst page_list.simps, auto)
qed

lemma page_list_aligned: "page_addr lo = lo \<Longrightarrow> va \<in> set (page_list lo hi) \<Longrightarrow> page_addr va = va"
proof (induction lo hi rule: page_list.induct)
  case (1 lo hi)
  have "page_addr (lo + page_size) = lo + page_size" if "lo < lo + page_size"
  proof -
    have "unat (lo + page_size) = unat lo + 4096" using that by (metis unat_page_size unat_plus_simple less_imp_le)
    then show ?thesis using "1.prems"(1) by (simp add: page_addr_iff)
  qed
  then show ?case using 1 page_list.simps [of lo hi] by (auto split: if_splits)
qed

text \<open>The loops of the initialisation and of the calls that map memory.\<close>

definition map_linear :: "(u64 \<Rightarrow> u64) \<Rightarrow> u64 \<Rightarrow> vmm \<Rightarrow> kerror + vmm" where
  "map_linear acc i s = (if i = 0 then Inr s else Block_setPhysicalPage (base_chain s) i i (acc i) s)"

lemma map_linear_loop:
  assumes acc: "\<And>va. acc va \<in> {WRITABLE, EXECUTABLE}"
  shows "good L s \<Longrightarrow> block_ok (blk s p) \<Longrightarrow> distinct (map pno vas) \<Longrightarrow>
    (\<And>va. va \<in> set vas \<Longrightarrow> find_block s (base_chain s) va = Some p) \<Longrightarrow>
    \<exists>s'. sfold (map_linear acc) vas s = Inr s' \<and> evolves L s s'
      \<and> kept_but {(p, i) | va i. va \<in> set vas \<and> va \<noteq> 0 \<and> getPTE (blk s p) va = Inr i} s s'
      \<and> (\<forall>va\<in>set vas. va \<noteq> 0 \<longrightarrow> mapped_at s' p va (acc va))"
proof (induction vas arbitrary: s)
  case Nil
  then show ?case by (simp add: evolves_refl kept_but_def)
next
  case (Cons va vas)
  let ?E = "\<lambda>vas s. {(p, i) | va i. va \<in> set vas \<and> va \<noteq> 0 \<and> getPTE (blk s p) va = Inr i}"
  have f: "find_block s (base_chain s) va = Some p" using Cons.prems(4) by simp
  obtain s1 where s1: "map_linear acc va s = Inr s1" "evolves L s s1" "kept_but (?E [va] s) s s1"
    "va \<noteq> 0 \<Longrightarrow> mapped_at s1 p va (acc va)"
  proof (cases "va = 0")
    case True
    then show thesis using that [of s] evolves_refl [OF Cons.prems(1)] by (simp add: map_linear_def kept_but_def)
  next
    case False
    obtain s1 i where "Block_setPhysicalPage (base_chain s) va va (acc va) s = Inr s1" "evolves L s s1" "getPTE (blk s p) va = Inr i"
      "kept_but {(p, i)} s s1" "mapped_at s1 p va (acc va)"
      using map_page [OF Cons.prems(1) f Cons.prems(2) acc False] by blast
    moreover from this False have "?E [va] s = {(p, i)}" by auto
    ultimately show thesis using that [of s1] False by (simp add: map_linear_def)
  qed
  have b1: "block_ok (blk s1 p)" using Cons.prems(2) evolves_fields(4) [OF s1(2)] by simp
  have gp: "getPTE (blk s1 p) w = getPTE (blk s p) w" for w by (rule evolves_fields(6) [OF s1(2)])
  have f1: "find_block s1 (base_chain s1) w = Some p" if "w \<in> set vas" for w
    using Cons.prems(4) [of w] that evolves_fields(1,7) [OF s1(2)] by simp
  obtain s' where s': "sfold (map_linear acc) vas s1 = Inr s'" "evolves L s1 s'" "kept_but (?E vas s) s1 s'"
    "\<forall>va\<in>set vas. va \<noteq> 0 \<longrightarrow> mapped_at s' p va (acc va)"
    using Cons.IH [OF evolvesD(1) [OF s1(2)] b1 _ f1] Cons.prems(3) by (auto simp: gp)
  have "mapped_at s' p va (acc va)" if nz: "va \<noteq> 0"
  proof (rule mapped_kept [OF s1(4) [OF nz] s'(3,2) b1])
    fix i assume i: "getPTE (blk s1 p) va = Inr i"
    have "pno w = pno va" if "getPTE (blk s p) w = Inr i" for w
      using getPTE_D(3) [OF Cons.prems(2)] that i gp by metis
    moreover have "pno va \<notin> pno ` set vas" using Cons.prems(3) by simp
    ultimately show "(p, i) \<notin> ?E vas s" by (auto simp: image_iff)
  qed
  moreover have "kept_but (?E (va # vas) s) s s'"
    by (rule kept_but_trans [OF s1(3) s'(3) s1(2)]) auto
  ultimately show ?case using s1(1) s'(1,4) evolves_trans [OF s1(2) s'(2)] by auto
qed

end
