(* ===== verification/Vm_Machine.thy ===== *)
theory Vm_Machine
  imports Vm_Devices Vm_Linear
begin

text \<open>
  Virtual memory as a whole: its initialisation, the entry points of the virtual memory manager
  together with the table walks of the hardware as one transition system, and the properties that
  hold in every state it reaches.
\<close>

section \<open>Initialisation\<close>

text \<open>
  The state the boot loader leaves behind: a page table at an aligned address and nothing cached,
  pages for the page manager, no objects of virtual memory.
\<close>

definition boot :: "vmm \<Rightarrow> bool" where
  "boot s \<longleftrightarrow> PT_SIZE dvd htaborg (ptm s) \<and> tlb (ptm s) = [] \<and> pm_inv (pgm s) \<and> sent s = [] \<and> unat (hrmor s) < 2 ^ 57
     \<and> cache_ok (hbCacheSize s) \<and> (\<forall>p. iv_writeMsgHdlr (blk s p) = None \<and> iv_ptes (blk s p) = [])"

lemma good_boot:
  assumes "length (iv_segments s) = MAX_SEGMENTS" "\<forall>k<MAX_SEGMENTS. seg_ok k (iv_segments s ! k)" "unat (hrmor s) < 2 ^ 57"
    and "\<forall>p\<in>set (base_chain s). block_ok (blk s p)" "pt_inv (ptm s)" "\<And>va. translate (ptm s) va = None" "pm_inv (pgm s)"
    and "sent s = []" "\<forall>p. iv_writeMsgHdlr (blk s p) = None"
  shows "good [] s"
  using assms by (simp add: good_def vm_wf_def pt.obeys_def msgs_ok_def hdlrs_ok_def handlers_base_def)

lemma good_set_segment:
  assumes g: "good L s" and k: "k < MAX_SEGMENTS" "iv_segments s ! k = None" and ok: "seg_ok k (Some sg)" "sg \<noteq> BaseSegment"
  shows "good L (set_segment k sg s)"
proof -
  let ?s = "set_segment k sg s"
  have len: "length (iv_segments s) = MAX_SEGMENTS" using g by (simp add: good_def vm_wf_def)
  note seg = segment_of_set [OF len k(1), of sg]
  have nk: "segment_of s va = None" if "unat va div 2 ^ 40 = k" for va
    using k that by (simp add: segment_of_def segment_id Let_def)
  have fb: "find_block ?s ps va = find_block s ps va" for ps va by (rule find_block_other) simp
  have al: "spte_allows ?s p j x = spte_allows s p j x" for p j x
    unfolding spte_allows_def frame_of_def set_segment_fields by (rule refl)
  have "allowed L ?s va x" if a: "allowed L s va x" for va x
  proof -
    have ne: "unat va div 2 ^ 40 \<noteq> k" using a nk by (auto simp: allowed_def governs_def chain_of_def)
    then have sg: "segment_of ?s va = segment_of s va" by (simp add: seg)
    have "chain_of L ?s va = chain_of L s va" unfolding chain_of_def sg set_segment_fields by (rule refl)
    then have gv: "governs L ?s va = governs L s va" unfolding governs_def fb set_segment_fields by simp
    show ?thesis using a unfolding allowed_def sg al gv .
  qed
  then have "pt.obeys (allowed L ?s) (ptm ?s)" using g pt.obeys_mono [of "allowed L s" "ptm s"] by (simp add: good_def)
  moreover have "vm_wf L ?s" using g k(1) ok(1) by (auto simp: good_def vm_wf_def nth_list_update)
  moreover have "segment_of ?s va = Some BaseSegment" if "segment_of s va = Some BaseSegment" for va
    using that nk by (auto simp: seg)
  then have "msgs_ok ?s" using g unfolding good_def msgs_ok_def fb set_segment_fields by blast
  moreover have "hdlrs_ok ?s" "handlers_base L ?s" using g by (auto simp: good_def hdlrs_ok_def handlers_base_def)
  ultimately show ?thesis using g by (simp add: good_def)
qed

lemma new_devices_good:
  "good L s \<Longrightarrow> (\<And>k. k \<in> set ks \<Longrightarrow> MMIO_FIRST_SEGMENT_ID \<le> k \<and> k \<le> MMIO_LAST_SEGMENT_ID \<and> iv_segments s ! k = None) \<Longrightarrow>
   distinct ks \<Longrightarrow> \<exists>s'. sfold new_device ks s = Inr s' \<and> good L s' \<and> (\<exists>g. s' = s\<lparr>iv_segments := g\<rparr>)
     \<and> (\<forall>k. iv_segments s' ! k = (if k \<in> set ks then Some (DeviceSegment (DeviceSegment_new k)) else iv_segments s ! k))"
proof (induction ks arbitrary: s)
  case (Cons k ks)
  let ?g = "DeviceSegment (DeviceSegment_new k)"
  have k: "MMIO_FIRST_SEGMENT_ID \<le> k" "k \<le> MMIO_LAST_SEGMENT_ID" "iv_segments s ! k = None" using Cons.prems(2) [of k] by auto
  then have km: "k < MAX_SEGMENTS" by (simp add: MMIO_LAST_SEGMENT_ID_def MMIO_FIRST_SEGMENT_ID_def MAX_SEGMENTS_def)
  have "seg_ok k (Some ?g)"
    using k(1,2) by (auto simp: seg_ok_def DeviceSegment_new_def slot_ok_def page_addr_iff MMIO_MAP_DEVICES_def)
  then have g: "good L (set_segment k ?g s)" by (intro good_set_segment [OF Cons.prems(1) km k(3)]) simp_all
  have "iv_segments (set_segment k ?g s) ! j = None" if "j \<in> set ks" for j
    using Cons.prems(2) [of j] Cons.prems(3) that by (cases "j = k") auto
  then obtain s' where s': "sfold new_device ks (set_segment k ?g s) = Inr s'" "good L s'" "\<exists>g. s' = (set_segment k ?g s)\<lparr>iv_segments := g\<rparr>"
    "\<forall>j. iv_segments s' ! j = (if j \<in> set ks then Some (DeviceSegment (DeviceSegment_new j)) else iv_segments (set_segment k ?g s) ! j)"
    using Cons.IH [OF g] Cons.prems(2,3) by auto
  have "length (iv_segments s) = MAX_SEGMENTS" using Cons.prems(1) by (simp add: good_def vm_wf_def)
  then have "\<forall>j. iv_segments s' ! j = (if j \<in> set (k # ks) then Some (DeviceSegment (DeviceSegment_new j)) else iv_segments s ! j)"
    using s'(4) km by (auto simp: nth_list_update)
  moreover have "\<exists>g. s' = s\<lparr>iv_segments := g\<rparr>" using s'(3) by (auto simp: set_segment_def)
  moreover have "new_device k s = Inr (set_segment k ?g s)" using k km by (simp add: new_device_def addSegment_def)
  ultimately show ?case using s'(1,2) by auto
next
  case Nil
  have "\<exists>g. s = s\<lparr>iv_segments := g\<rparr>" by (rule exI [of _ "iv_segments s"]) simp
  then show ?case using Nil by simp
qed

definition kernel_access :: "u64 \<Rightarrow> u64 \<Rightarrow> u64" where
  "kernel_access data i = (if ALIGN_PAGE_DOWN data > i then EXECUTABLE else WRITABLE)"

lemma map_linear_kernel:
  "(\<lambda>i s. if i = 0 then Inr s
     else Block_setPhysicalPage (base_chain s) i i (if ALIGN_PAGE_DOWN data > i then EXECUTABLE else WRITABLE) s)
   = map_linear (kernel_access data)"
  by (simp add: map_linear_def kernel_access_def fun_eq_iff)

text \<open>What the initialisation leaves in the base block \<open>p\<close>: every page but the first is mapped.\<close>

definition base_layout :: "addr \<Rightarrow> u64 \<Rightarrow> vmm \<Rightarrow> bool" where
  "base_layout p data s \<longleftrightarrow> base_chain s = [p] \<and> shape (blk s p) = shape (Block_init 0 (hbCacheSize s) False False)
     \<and> (\<forall>va. page_addr va = va \<and> 0 < va \<and> va < hbCacheSize s \<longrightarrow> mapped_at s p va (kernel_access data va))
     \<and> zeroLRU (spte_at s p 0) = zeroLRU spte_init \<and> iv_physMemSize s = hbCacheSize s"

lemma base_init_good:
  assumes b: "boot s" and sg: "iv_segments s = replicate MAX_SEGMENTS None" and pt: "pt_inv (ptm s)" "\<And>va. translate (ptm s) va = None"
  shows "\<exists>s'. BaseSegment_init p data s = Inr s' \<and> good [] s' \<and> iv_segments s' = (iv_segments s)[0 := Some BaseSegment]
    \<and> iv_blockList s' = iv_blockList s \<and> hbCacheSize s' = hbCacheSize s \<and> hrmor s' = hrmor s
    \<and> (\<forall>va. translate (ptm s') va = None) \<and> base_layout p data s'"
proof -
  let ?sz = "hbCacheSize s" and ?s1 = "set_segment 0 BaseSegment s"
  let ?b = "Block_init 0 ?sz False False"
  let ?s2 = "(new_block p ?b ?s1)\<lparr>iv_physMemSize := ?sz, base_chain := [p]\<rparr>"
  have m: "0 < MAX_SEGMENTS" by (simp add: MAX_SEGMENTS_def)
  have c: "page_addr ?sz = ?sz" "unat ?sz \<le> 2 ^ 26" "0 < ?sz"
    using b by (auto simp: boot_def cache_ok_def VMM_MEMORY_SIZE_def word_le_nat_alt)
  then have ok: "block_ok ?b" using new_block_ok [of 0 ?sz] by (simp add: page_addr_iff blank_def)
  have g2: "good [] ?s2"
    by (rule good_boot) (use b sg pt ok in \<open>auto simp: boot_def seg_ok_def nth_list_update Block_init_def\<close>)
  have fb: "find_block ?s2 (base_chain ?s2) va = Some p" if "va \<in> set (page_list 0 ?sz)" for va
    using page_list_bounds [OF that] by (simp add: isContained_def Block_init_def)
  let ?E = "{(p, i) | va i. va \<in> set (page_list 0 ?sz) \<and> va \<noteq> 0 \<and> getPTE (blk ?s2 p) va = Inr i}"
  have bs: "block_ok (blk ?s2 p)" using ok by simp
  have ka: "kernel_access data va \<in> {WRITABLE, EXECUTABLE}" for va by (simp add: kernel_access_def)
  obtain s' where s': "sfold (map_linear (kernel_access data)) (page_list 0 ?sz) ?s2 = Inr s'" "evolves [] ?s2 s'" "kept_but ?E ?s2 s'"
    "\<forall>va\<in>set (page_list 0 ?sz). va \<noteq> 0 \<longrightarrow> mapped_at s' p va (kernel_access data va)"
    using map_linear_loop [of "kernel_access data" "[]" ?s2 p "page_list 0 ?sz", OF ka g2 bs page_list_distinct fb] by blast
  note sk = skelD [OF evolvesD(2) [OF s'(2)]]
  have t: "translate (ptm s') va = None" for va
    using s'(2) pt(2) [of va] unfolding evolves_def by (simp, metis)
  have "(p, 0) \<notin> ?E"
  proof
    assume "(p, 0) \<in> ?E"
    then obtain va where va: "va \<in> set (page_list 0 ?sz)" "va \<noteq> 0" "getPTE (blk ?s2 p) va = Inr 0" by auto
    have "pno va = 0" using getPTE_D(3) [OF ok, of va 0] va(3) by (simp add: Block_init_def pno_def)
    moreover have "page_addr va = va" using page_list_aligned [OF _ va(1)] by (simp add: page_addr_iff)
    ultimately show False using va(2) by (metis mult_0_right page_aligned unat_eq_zero)
  qed
  moreover have "0 < length (iv_ptes (blk ?s2 p))"
    using c(1,3) page_aligned [of ?sz] by (auto simp: Block_init_def unat_div pno_def word_less_nat_alt intro!: gr0I)
  ultimately have "zeroLRU (spte_at s' p 0) = zeroLRU (spte_at ?s2 p 0)" using s'(3) unfolding kept_but_def by blast
  then have z: "zeroLRU (spte_at s' p 0) = zeroLRU spte_init"
    using \<open>0 < length (iv_ptes (blk ?s2 p))\<close> by (simp add: spte_at_def Block_init_def)
  have "mapped_at s' p va (kernel_access data va)" if "page_addr va = va" "0 < va" "va < ?sz" for va
    using s'(4) page_list_complete [of 0 va ?sz] that by (auto simp: page_addr_iff)
  then have "base_layout p data s'" using sk(2,3,4) sk(7) [of p] z by (simp add: base_layout_def new_block_def)
  moreover have "BaseSegment_init p data s = Inr s'"
    using s'(1) m unfolding BaseSegment_init_def map_linear_kernel by (simp add: addSegment_def Let_def)
  ultimately show ?thesis using t sk evolvesD(1) [OF s'(2)] by (simp add: new_block_def)
qed

text \<open>The segments that the initialisation creates. The loop over the device segments stops before the last.\<close>

definition initial_segments :: "nat \<Rightarrow> segment option" where
  "initial_segments k = (if k = 0 then Some BaseSegment else if k = 1 then Some StackSegment
     else if k < MMIO_LAST_SEGMENT_ID then Some (DeviceSegment (DeviceSegment_new k)) else None)"

lemma init_good:
  assumes b: "boot s"
  shows "\<exists>s'. VmmManager_init p data s = Inr s' \<and> good [] s' \<and> iv_blockList s' = [] \<and> hbCacheSize s' = hbCacheSize s
    \<and> hrmor s' = hrmor s \<and> (\<forall>va. translate (ptm s') va = None) \<and> base_layout p data s'
    \<and> (\<forall>k<MAX_SEGMENTS. iv_segments s' ! k = initial_segments k)"
proof -
  let ?s0 = "s\<lparr>iv_segments := replicate MAX_SEGMENTS None, iv_blockList := [], ptm := invalidatePT (ptm s)\<rparr>"
  let ?ks = "[MMIO_FIRST_SEGMENT_ID..<MMIO_LAST_SEGMENT_ID]"
  have pt: "pt_inv (ptm ?s0)" "\<And>va. translate (ptm ?s0) va = None" using b invalidatePT_inv [of "ptm s"] by (auto simp: boot_def)
  have b0: "boot ?s0" using b by (simp add: boot_def invalidatePT_def)
  obtain s1 where s1: "BaseSegment_init p data ?s0 = Inr s1" "good [] s1"
    "iv_segments s1 = (replicate MAX_SEGMENTS None)[0 := Some BaseSegment]" "iv_blockList s1 = []" "hbCacheSize s1 = hbCacheSize s"
    "hrmor s1 = hrmor s" "\<forall>va. translate (ptm s1) va = None" "base_layout p data s1"
    using base_init_good [OF b0 _ pt, of p data] by auto
  let ?s2 = "set_segment 1 StackSegment s1"
  have g2: "good [] ?s2" by (rule good_set_segment [OF s1(2)]) (simp_all add: s1(3) seg_ok_def MAX_SEGMENTS_def)
  have "iv_segments ?s2 ! k = None" if "k \<in> set ?ks" for k
    using that by (auto simp: s1(3) nth_list_update MMIO_LAST_SEGMENT_ID_def MMIO_FIRST_SEGMENT_ID_def MAX_SEGMENTS_def)
  then obtain s' g where s': "sfold new_device ?ks ?s2 = Inr s'" "good [] s'" "s' = ?s2\<lparr>iv_segments := g\<rparr>"
    "\<forall>k. iv_segments s' ! k = (if k \<in> set ?ks then Some (DeviceSegment (DeviceSegment_new k)) else iv_segments ?s2 ! k)"
    using new_devices_good [OF g2, of ?ks] by auto
  have "base_layout p data s'" using s1(8)
    unfolding s'(3) base_layout_def mapped_at_def spte_at_def by (simp add: set_segment_def)
  moreover have "iv_segments s' ! k = initial_segments k" if "k < MAX_SEGMENTS" for k
    using s'(4) that by (auto simp: s1(3) nth_list_update initial_segments_def MMIO_FIRST_SEGMENT_ID_def MAX_SEGMENTS_def)
  moreover have "VmmManager_init p data s = Inr s'" using s1(1) s'(1) by (simp add: VmmManager_init_def addSegment_def MAX_SEGMENTS_def)
  ultimately show ?thesis using s1 s'(2,3) by simp
qed

section \<open>The machine\<close>

text \<open>
  The calls of the virtual memory manager, the responses to its messages, and what the hardware does
  on its own. Addresses of new objects and the variable left uninitialised by \<open>_addEntry\<close> are parts of
  a call.
\<close>

datatype vm_call =
    PteMiss pte "addr option" u64 bool
  | AllocBlock addr bool u64 u64
  | SetPermission u64 u64 u64
  | RemovePages page_removal_op u64 u64 "addr option"
  | CastOut bool bool
  | FlushPageTable
  | DevMap u64 u64 bool bool
  | DevUnmap u64
  | Extend addr
  | LinearMap addr u64 u64
  | CreateStack addr u16
  | DeleteStack u16
  | ReadResponse pte mm_msg int
  | WriteResponse mm_msg "addr option" int
  | Walk u64
  | TlbDrop "u64 \<times> xlate \<Rightarrow> bool"

definition state_of :: "kerror + 'a \<times> vmm \<Rightarrow> kerror + vmm" where
  "state_of r = sbind r (\<lambda>(_, s). Inr s)"

fun vm_do :: "vm_call \<Rightarrow> vmm \<Rightarrow> kerror + vmm" where
  "vm_do (PteMiss junk t va store) s = state_of (pteMiss junk t va store s)"
| "vm_do (AllocBlock p mq va sz) s = state_of (mmAllocBlock p mq va sz False s)"
| "vm_do (SetPermission va sz t) s = state_of (BaseSegment_mmSetPermission va sz t s)"
| "vm_do (RemovePages i_op va sz t) s = state_of (mmRemovePages i_op va sz t s)"
| "vm_do (CastOut aggressive critical) s = SegmentManager_castOutPages aggressive critical s"
| "vm_do FlushPageTable s = flushPageTable s"
| "vm_do (DevMap ra sz nonCI guarded) s = Inr (snd (SegmentManager_devMap ra sz nonCI guarded s))"
| "vm_do (DevUnmap ea) s = state_of (SegmentManager_devUnmap ea s)"
| "vm_do (Extend p) s = state_of (mmExtend p s)"
| "vm_do (LinearMap p pa sz) s = state_of (mmLinearMap p pa sz s)"
| "vm_do (CreateStack p t) s = state_of (createStack p t s)"
| "vm_do (DeleteStack t) s = deleteStack t s"
| "vm_do (ReadResponse junk m rc) s = state_of (read_handleResponse junk (mm_block m) (mm_va m) rc s)"
| "vm_do (WriteResponse m t rc) s = state_of (write_handleResponse (mm_block m) (mm_va m) t rc s)"
| "vm_do (Walk va) s = Inr (s\<lparr>ptm := hw_walk va (ptm s)\<rparr>)"
| "vm_do (TlbDrop P) s = Inr (s\<lparr>ptm := (ptm s)\<lparr>tlb := filter P (tlb (ptm s))\<rparr>\<rparr>)"

text \<open>
  What the callers keep to: a new object is not at the address of a live one, a task has its stack
  created once before it is deleted, a response is to a message that was sent. Sizes of blocks are
  below two terabytes and device windows are page aligned and end below \<open>2 ^ 57\<close>, the largest real
  address an entry of the page table holds.
\<close>

fun vm_pre :: "vm_call \<Rightarrow> vmm \<Rightarrow> bool" where
  "vm_pre (AllocBlock p mq va sz) s = (fresh (iv_blockList s) p s \<and> unat sz < 2 ^ 41)"
| "vm_pre (DevMap ra sz nonCI guarded) s = (page_addr ra = ra \<and> unat ra + unat sz < 2 ^ 57)"
| "vm_pre (Extend p) s = (fresh (iv_blockList s) p s \<and> cache_ok (hbCacheSize s))"
| "vm_pre (LinearMap p pa sz) s = (fresh (iv_blockList s) p s \<and> unat sz < 2 ^ 41)"
| "vm_pre (CreateStack p t) s = (fresh (iv_blockList s) p s \<and> map_of (iv_blockList s) (stack_base t) = None)"
| "vm_pre (DeleteStack t) s = (map_of (iv_blockList s) (stack_base t) \<noteq> None)"
| "vm_pre (ReadResponse junk m rc) s = (m \<in> set (sent s) \<and> mm_type m = MSG_MM_RP_READ)"
| "vm_pre (WriteResponse m t rc) s = (m \<in> set (sent s) \<and> mm_type m = MSG_MM_RP_WRITE)"
| "vm_pre _ s = True"

inductive vmreach :: "vmm \<Rightarrow> bool" where
  vm_init: "boot s \<Longrightarrow> VmmManager_init p data s = Inr s' \<Longrightarrow> vmreach s'"
| vm_call: "vmreach s \<Longrightarrow> vm_pre c s \<Longrightarrow> vm_do c s = Inr s' \<Longrightarrow> vmreach s'"

text \<open>A call that succeeds and keeps the machine's invariant.\<close>

definition vm_ok :: "vmm \<Rightarrow> bool" where
  "vm_ok s \<longleftrightarrow> good (iv_blockList s) s"

definition succeeds :: "kerror + vmm \<Rightarrow> bool" where
  "succeeds r \<longleftrightarrow> (\<exists>s. r = Inr s \<and> vm_ok s)"

lemma state_of_Inr [simp]: "state_of (Inr (a, s)) = Inr s" "state_of (Inl e) = Inl e"
  by (simp_all add: state_of_def)

lemma succeeds_state:
  assumes "r = Inr (a, s')" "good L s'" "iv_blockList s' = L"
  shows "succeeds (state_of r)"
  using assms by (simp add: succeeds_def vm_ok_def)

lemma succeeds_evolves: "evolves (iv_blockList s) s s' \<Longrightarrow> succeeds (Inr s')"
  using skelD(5) [OF evolvesD(2), of "iv_blockList s" s s'] evolvesD(1) by (auto simp: succeeds_def vm_ok_def)

section \<open>Page faults\<close>

definition fault_result :: "u64 \<Rightarrow> bool \<Rightarrow> vmm \<Rightarrow> bool \<times> bool \<times> vmm \<Rightarrow> bool" where
  "fault_result va store s r \<longleftrightarrow> (case segment_of s va of
     Some (DeviceSegment d) \<Rightarrow> (case r of (ok, oom, s') \<Rightarrow> \<not> oom \<and> sent s' = sent s
       \<and> ok = (dev_offset d va < ucast (dv_size (iv_mmioMap d ! dev_idx d va)))
       \<and> (ok \<longrightarrow> (\<exists>x. translate (ptm s') va = Some x \<and> dev_allows d va x)) \<and> (\<not> ok \<longrightarrow> s' = s))
   | _ \<Rightarrow> (case governs (iv_blockList s) s va of
            None \<Rightarrow> r = (False, False, s)
          | Some (p, i) \<Rightarrow> faulted (iv_blockList s) p i va store s r))"

lemma find_none_fault:
  "find_block s ps va = None \<Longrightarrow> Block_handlePageFault junk ps t va store oom s = Inr (False, False, s)"
  by (simp add: Block_handlePageFault_def)

lemma chain_fault:
  assumes g: "good (iv_blockList s) s" and nd: "\<And>d. segment_of s va \<noteq> Some (DeviceSegment d)"
  shows "\<exists>r. Block_handlePageFault junk (chain_of (iv_blockList s) s va) t va store True s = Inr r \<and> good (iv_blockList s) (snd (snd r))
    \<and> skel (snd (snd r)) = skel s \<and> fault_result va store s r"
proof (cases "governs (iv_blockList s) s va")
  case None
  then have "find_block s (chain_of (iv_blockList s) s va) va = None" by (simp add: governs_def)
  then show ?thesis using g nd None find_none_fault [of s _ va junk t store True]
    by (auto simp: fault_result_def split: option.split segment.split)
next
  case (Some w)
  obtain p i where w: "w = (p, i)" by (cases w)
  obtain r where r: "Block_handlePageFault junk (chain_of (iv_blockList s) s va) t va store True s = Inr r"
    "faulted (iv_blockList s) p i va store s r"
    using Block_fault_good [OF g, of va p i junk t store] Some w by blast
  then have "fault_result va store s r" using nd Some w
    by (auto simp: fault_result_def split: option.split segment.split)
  moreover have "good (iv_blockList s) (snd (snd r)) \<and> skel (snd (snd r)) = skel s"
    using r(2) by (cases r) (simp add: faulted_def)
  ultimately show ?thesis using r(1) by blast
qed

lemma fault_spec:
  assumes g: "good (iv_blockList s) s"
  shows "\<exists>r. SegmentManager_handlePageFault junk t va store True s = Inr r \<and> good (iv_blockList s) (snd (snd r))
    \<and> skel (snd (snd r)) = skel s \<and> fault_result va store s r"
proof (cases "\<exists>d. segment_of s va = Some (DeviceSegment d)")
  case True
  then obtain d where d: "segment_of s va = Some (DeviceSegment d)" by blast
  obtain s' where s': "DeviceSegment_handlePageFault junk d va s = Inr (dev_offset d va < ucast (dv_size (iv_mmioMap d ! dev_idx d va)), s')"
    "good (iv_blockList s) s'" "skel s' = skel s" "sent s' = sent s"
    "dev_offset d va < ucast (dv_size (iv_mmioMap d ! dev_idx d va)) \<longrightarrow> (\<exists>x. translate (ptm s') va = Some x \<and> dev_allows d va x)"
    "\<not> dev_offset d va < ucast (dv_size (iv_mmioMap d ! dev_idx d va)) \<longrightarrow> s' = s"
    using device_fault_good [OF g d] by blast
  then show ?thesis using d by (simp add: SegmentManager_handlePageFault_def fault_result_def)
next
  case False
  have "SegmentManager_handlePageFault junk t va store True s
      = Block_handlePageFault junk (chain_of (iv_blockList s) s va) t va store True s"
    using False find_none_fault [of s "[]" va junk t store True]
    by (auto simp: SegmentManager_handlePageFault_def StackSegment_handlePageFault_def chain_of_def split: option.split segment.split)
  then show ?thesis using chain_fault [OF g] False by simp
qed

section \<open>Every call keeps the invariant\<close>

lemma pteMiss_good:
  assumes "vm_ok s"
  shows "succeeds (vm_do (PteMiss junk t va store) s) \<or> vm_do (PteMiss junk t va store) s = Inl KAssert"
proof -
  obtain ok oom s' where r: "SegmentManager_handlePageFault junk t va store True s = Inr (ok, oom, s')"
    "good (iv_blockList s) s'" "skel s' = skel s"
    using fault_spec [of s junk t va store] assms by (auto simp: vm_ok_def)
  then show ?thesis using skelD(5) [OF r(3)]
    by (cases oom) (simp_all add: pteMiss_def succeeds_def vm_ok_def)
qed

lemma castOut_good:
  assumes "vm_ok s"
  shows "succeeds (vm_do (CastOut a c) s)"
proof -
  let ?L = "iv_blockList s"
  have g: "good ?L s" using assms by (simp add: vm_ok_def)
  have "\<exists>s'. SegmentManager_castOutPages a c s = Inr s' \<and> evolves ?L s s'"
    unfolding SegmentManager_castOutPages_def
  proof (rule sfold_evolves [OF g])
    fix sg s1 assume "evolves ?L s s1"
    then have g1: "good ?L s1" by (rule evolvesD)
    show "\<exists>s'. (if sg = Some BaseSegment then Block_castOutPages a c (base_chain s1) s1 else Inr s1) = Inr s' \<and> evolves ?L s1 s'"
      using Block_castOutPages_evolves [OF g1 subset_refl] evolves_refl [OF g1] by simp
  qed
  then show ?thesis using succeeds_evolves by force
qed

lemma mmSetPermission_good:
  assumes g: "vm_ok s"
  shows "succeeds (vm_do (SetPermission va sz t) s) \<or> vm_do (SetPermission va sz t) s = Inl OutOfBounds"
proof -
  let ?L = "iv_blockList s"
  have gl: "good ?L s" using g by (simp add: vm_ok_def)
  let ?va = "ALIGN_PAGE_DOWN va"
  show ?thesis
  proof (cases "find_block s (base_chain s) ?va")
    case None
    then show ?thesis using g by (simp add: BaseSegment_mmSetPermission_def Block_mmSetPermission_def succeeds_def)
  next
    case (Some p)
    then have "p \<in> set (base_chain s)" using find_block_Some by blast
    then have b: "block_ok (blk s p)" using vm_wf_block [OF good_usage(2) [OF gl]] by blast
    obtain vas where "BaseSegment_mmSetPermission va sz t s = perm_loop p t vas s"
      using Some by (simp add: BaseSegment_mmSetPermission_def Block_mmSetPermission_def Let_def)
    then show ?thesis using perm_loop_evolves [OF gl b, of t vas] succeeds_evolves by auto
  qed
qed

lemma mmRemovePages_good:
  assumes "vm_ok s"
  shows "succeeds (vm_do (RemovePages i_op va sz t) s)"
proof -
  have "set (tl (base_chain s)) \<subseteq> set (base_chain s)" by (cases "base_chain s") auto
  then obtain rc s' where "Block_removePages i_op (tl (base_chain s)) va sz t s = Inr (rc, s')" "evolves (iv_blockList s) s s'"
    using Block_removePages_evolves [of "iv_blockList s" s "tl (base_chain s)" i_op va sz t] assms by (auto simp: vm_ok_def)
  then show ?thesis using succeeds_evolves by (simp add: mmRemovePages_def)
qed

lemma flush_good:
  assumes "vm_ok s"
  shows "succeeds (vm_do FlushPageTable s)"
proof -
  obtain s' where s': "flushPageTable s = Inr s'" "good (iv_blockList s) s'" "pt_quiet s s'"
    using flushPageTable_good [of "iv_blockList s" s] assms by (auto simp: vm_ok_def)
  then show ?thesis using skelD(5) [OF quiet_fields(1) [OF s'(3)]] by (simp add: succeeds_def vm_ok_def)
qed

lemma mmExtend_fails:
  assumes g: "good L s" and f: "fresh L p s" and c: "cache_ok (hbCacheSize s)" and r: "mmExtend p s = Inl e"
  shows "e = KAssert"
proof -
  let ?va = "hbCacheSize s" and ?z = "VMM_MEMORY_SIZE - hbCacheSize s"
  note x = extend_start [OF c]
  obtain rc1 s1 where s1: "mmAllocBlock p False ?va ?z False s = Inr (rc1, s1)" using mmAllocBlock_total by blast
  note m = mmAllocBlock_good [OF g f x(1) s1]
  have z: "rc1 = 0" using r s1 by (cases "rc1 = 0") (simp_all add: mmExtend_def)
  have "find_block s1 (base_chain s1) va \<noteq> None" if "va \<in> set (page_list ?va (?va + ?z))" for va
    using new_block_contains [OF _ _ _ x(1) _ that, of L s1 p False False] m z by simp
  then obtain s2 where s2: "sfold set_linear (page_list ?va (?va + ?z)) s1 = Inr s2"
    using set_linear_loop [of L s1] m by blast
  have ar: "add_range a n rs = Inl e' \<Longrightarrow> e' = KAssert" for a n rs e'
    by (induction rs) (auto split: if_splits sum.splits)
  have "pm_addMemory a n m' = Inl e' \<Longrightarrow> e' = KAssert" for a n m' e'
    by (auto simp: pm_addMemory_def core_addMemory_def Let_def dest: ar split: sum.splits if_splits)
  then show ?thesis using r s1 z s2 by (auto simp: mmExtend_def Let_def split: sum.splits elim!: sbind.elims)
qed

lemma devMap_call_good:
  assumes g: "vm_ok s" and pre: "vm_pre (DevMap ra sz nonCI guarded) s"
  shows "succeeds (vm_do (DevMap ra sz nonCI guarded) s)"
proof -
  obtain ea s' where r: "SegmentManager_devMap ra sz nonCI guarded s = (ea, s')" by (cases "SegmentManager_devMap ra sz nonCI guarded s")
  have "unat (ucast sz :: 62 word) \<le> unat sz" by (simp add: unsigned_ucast_eq take_bit_nat_eq_self_iff take_bit_nat_less_eq_self)
  then have "slot_ok (window ra sz nonCI guarded)" using pre by (simp add: slot_ok_def window_def)
  from devMap_good [OF _ this r, of "iv_blockList s"] g r show ?thesis by (simp add: vm_ok_def succeeds_def)
qed

lemma hardware_good:
  assumes g: "good L s" and t: "translate t = translate (ptm s)" and i: "pt_inv t"
  shows "good L (s\<lparr>ptm := t\<rparr>)"
proof -
  let ?s = "s\<lparr>ptm := t\<rparr>"
  have "skel ?s = skel s" by (simp add: skel_def)
  moreover from this have "allowed L ?s = allowed L s" by (rule allowed_cong) (simp add: spte_at_def)
  then have "pt.obeys (allowed L ?s) (ptm ?s)" using g t i by (simp add: good_def pt.obeys_def)
  ultimately show ?thesis using g msgs_ok_skel [of ?s s] by (intro good_skel [OF g]) (auto simp: good_def hdlrs_ok_def)
qed

text \<open>The only calls that can fail, and how.\<close>

fun may_fail :: "vm_call \<Rightarrow> kerror option" where
  "may_fail (PteMiss junk t va store) = Some KAssert"
| "may_fail (SetPermission va sz t) = Some OutOfBounds"
| "may_fail (Extend p) = Some KAssert"
| "may_fail c = None"

lemma region_calls_good:
  assumes g: "vm_ok s"
  shows "vm_pre (AllocBlock p mq va sz) s \<Longrightarrow> succeeds (vm_do (AllocBlock p mq va sz) s)"
    "vm_pre (LinearMap p va sz) s \<Longrightarrow> succeeds (vm_do (LinearMap p va sz) s)"
    "vm_pre (CreateStack p t) s \<Longrightarrow> succeeds (vm_do (CreateStack p t) s)"
    "vm_pre (DeleteStack t) s \<Longrightarrow> succeeds (vm_do (DeleteStack t) s)"
    "vm_pre (Extend p) s \<Longrightarrow> succeeds (vm_do (Extend p) s) \<or> vm_do (Extend p) s = Inl KAssert"
proof -
  have gl: "good (iv_blockList s) s" using g by (simp add: vm_ok_def)
  obtain rc s' where r: "mmAllocBlock p mq va sz False s = Inr (rc, s')" using mmAllocBlock_total by blast
  show "succeeds (vm_do (AllocBlock p mq va sz) s)" if "vm_pre (AllocBlock p mq va sz) s"
    using mmAllocBlock_good [OF gl _ _ r] r that by (simp add: succeeds_def vm_ok_def)
  show "succeeds (vm_do (LinearMap p va sz) s)" if "vm_pre (LinearMap p va sz) s"
    using mmLinearMap_good [OF gl, of p sz va] that succeeds_state by fastforce
  show "succeeds (vm_do (CreateStack p t) s)" if "vm_pre (CreateStack p t) s"
    using createStack_good [OF gl, of p t] that by (auto simp: succeeds_def vm_ok_def)
  show "succeeds (vm_do (DeleteStack t) s)" if "vm_pre (DeleteStack t) s"
    using deleteStack_good [OF gl, of t] that by (auto simp: succeeds_def vm_ok_def)
  show "succeeds (vm_do (Extend p) s) \<or> vm_do (Extend p) s = Inl KAssert" if "vm_pre (Extend p) s"
    using that mmExtend_good [OF gl, of p] mmExtend_fails [OF gl, of p]
    by (cases "mmExtend p s") (auto simp: succeeds_def vm_ok_def)
qed

lemma response_calls_good:
  assumes g: "vm_ok s"
  shows "vm_pre (ReadResponse junk m rc) s \<Longrightarrow> succeeds (vm_do (ReadResponse junk m rc) s)"
    "vm_pre (WriteResponse m t rc) s \<Longrightarrow> succeeds (vm_do (WriteResponse m t rc) s)"
proof -
  have gl: "good (iv_blockList s) s" using g by (simp add: vm_ok_def)
  show "succeeds (vm_do (ReadResponse junk m rc) s)" if pre: "vm_pre (ReadResponse junk m rc) s"
  proof -
    obtain r s' where r: "read_handleResponse junk (mm_block m) (mm_va m) rc s = Inr (r, s')" "good (iv_blockList s) s'" "skel s' = skel s"
      using read_response_good [OF gl, of m junk rc] pre by auto
    then show ?thesis using skelD(5) [OF r(3)] by (simp add: succeeds_def vm_ok_def)
  qed
  show "succeeds (vm_do (WriteResponse m t rc) s)" if "vm_pre (WriteResponse m t rc) s"
    using write_response_good [OF gl, of m t rc] that succeeds_evolves by fastforce
qed

lemma hardware_calls_good:
  assumes g: "vm_ok s"
  shows "succeeds (vm_do (Walk va) s)" "succeeds (vm_do (TlbDrop P) s)"
proof -
  have gl: "good (iv_blockList s) s" using g by (simp add: vm_ok_def)
  then have "pt_inv (ptm s)" by (simp add: good_def pt.obeys_def)
  then show "succeeds (vm_do (Walk va) s)" "succeeds (vm_do (TlbDrop P) s)"
    using hardware_good [OF gl hw_walk_translate hw_walk_inv] hardware_good [OF gl tlb_irrelevant evict_inv]
    by (simp_all add: succeeds_def vm_ok_def)
qed

lemma devUnmap_call_good: "vm_ok s \<Longrightarrow> succeeds (vm_do (DevUnmap ea) s)"
  using devUnmap_good [of "iv_blockList s" s ea] by (auto simp: succeeds_def vm_ok_def)

lemmas calls_good = pteMiss_good mmSetPermission_good mmRemovePages_good castOut_good flush_good devMap_call_good
  devUnmap_call_good region_calls_good response_calls_good hardware_calls_good

lemma vm_do_good:
  assumes "vm_ok s" and "vm_pre c s"
  shows "succeeds (vm_do c s) \<or> (\<exists>e. may_fail c = Some e \<and> vm_do c s = Inl e)"
  using assms by (cases c) (simp_all add: calls_good del: vm_do.simps vm_pre.simps)

lemma vmreach_ok: "vmreach s \<Longrightarrow> vm_ok s"
proof (induction rule: vmreach.induct)
  case (vm_init s p data s')
  then show ?case using init_good [of s p data] by (auto simp: vm_ok_def)
next
  case (vm_call s c s')
  then show ?case using vm_do_good [of s c] by (auto simp: succeeds_def)
qed

end
