(* ===== verification/Vm_Permissions.thy ===== *)
theory Vm_Permissions
  imports Vm_Machine
begin

text \<open>
  The permissions in the shadow tables: no page is both writable and executable, and a page that is
  either is readable. Every operation keeps this of every entry; the rules of the collection \<open>perms\<close>
  say so, one for each operation.
\<close>

named_theorems perms \<open>operations that keep the permissions consistent\<close>

definition perm_ok :: "spte \<Rightarrow> bool" where
  "perm_ok q \<longleftrightarrow> \<not> (sp_writable q \<and> sp_executable q) \<and> (sp_writable q \<or> sp_executable q \<longrightarrow> sp_readable q)"

definition perms_ok :: "vmm \<Rightarrow> bool" where
  "perms_ok s \<longleftrightarrow> (\<forall>p. \<forall>q\<in>set (iv_ptes (blk s p)). perm_ok q)"

lemma perms_ok_blk: "perms_ok s \<Longrightarrow> blk s' = blk s \<Longrightarrow> perms_ok s'"
  by (simp add: perms_ok_def)

lemma setPermSPTE_perm: "perm_ok q \<Longrightarrow> perm_ok (snd (setPermSPTE w t q))"
  by (simp add: setPermSPTE_def Let_def perm_ok_def)

lemma perm_at: "perms_ok s \<Longrightarrow> i < length (iv_ptes (blk s p)) \<Longrightarrow> perm_ok (spte_at s p i)"
  unfolding perms_ok_def spte_at_def by (meson nth_mem)

lemma upd_spte_perms:
  assumes "perms_ok s" "\<And>q. perm_ok q \<Longrightarrow> perm_ok (f q)"
  shows "perms_ok (upd_spte p i f s)"
proof (cases "i < length (iv_ptes (blk s p))")
  case True
  then have "perm_ok (f (spte_at s p i))" using assms perm_at by blast
  then show ?thesis using assms(1) set_update_subset_insert [of "iv_ptes (blk s p)" i "f (spte_at s p i)"]
    by (auto simp: perms_ok_def upd_spte_def)
qed (use assms(1) in \<open>simp add: perms_ok_def upd_spte_def list_update_beyond\<close>)

text \<open>The changes of single fields that the code makes.\<close>

lemma field_perms:
  "perm_ok q \<Longrightarrow> perm_ok (q\<lparr>sp_dirty := d\<rparr>)" "perm_ok q \<Longrightarrow> perm_ok (q\<lparr>sp_present := d\<rparr>)"
  "perm_ok q \<Longrightarrow> perm_ok (setPageAddr a q)" "perm_ok q \<Longrightarrow> perm_ok (zeroLRU q)" "perm_ok q \<Longrightarrow> perm_ok (incLRU q)"
  by (auto simp: perm_ok_def setPageAddr_def zeroLRU_def incLRU_def)

lemma set_perm_perms [perms]:
  assumes "perms_ok s" "set_perm p i t s = (rc, s')"
  shows "perms_ok s'"
proof -
  have s': "s' = upd_spte p i (\<lambda>_. snd (setPermSPTE (iv_writeMsgHdlr (blk s p) \<noteq> None) t (spte_at s p i))) s"
    using assms(2) by (auto simp: set_perm_def split: prod.splits)
  show ?thesis
  proof (cases "i < length (iv_ptes (blk s p))")
    case True
    then have "perm_ok (spte_at s p i)" using assms(1) perm_at by blast
    then show ?thesis unfolding s' by (intro upd_spte_perms [OF assms(1)] setPermSPTE_perm)
  qed (use assms(1) in \<open>simp add: s' perms_ok_def upd_spte_def list_update_beyond\<close>)
qed

lemma sfold_perms:
  assumes "\<And>x s s'. x \<in> set xs \<Longrightarrow> perms_ok s \<Longrightarrow> f x s = Inr s' \<Longrightarrow> perms_ok s'" "perms_ok s" "sfold f xs s = Inr s'"
  shows "perms_ok s'"
  using assms by (induction xs arbitrary: s) (auto simp: sbind_Inr_iff)

section \<open>Operations on blocks\<close>

lemma pt_call_perms [perms]:
  assumes "perms_ok s" "pt_call f s = Inr s'"
  shows "perms_ok s'"
proof -
  obtain t where t: "sfold (\<lambda>(va, st). SegmentManager_updateRefCount va st) (usage t) (s\<lparr>ptm := t\<lparr>usage := []\<rparr>\<rparr>) = Inr s'"
    using assms(2) by (auto simp: pt_call_def sbind_Inr_iff)
  show ?thesis
  proof (rule sfold_perms [OF _ _ t])
    show "perms_ok (s\<lparr>ptm := t\<lparr>usage := []\<rparr>\<rparr>)" by (rule perms_ok_blk [OF assms(1)]) simp
    fix x s s' assume "perms_ok s" "(case x of (va, st) \<Rightarrow> SegmentManager_updateRefCount va st) s = Inr s'"
    then show "perms_ok s'"
      by (cases x) (auto simp: SegmentManager_updateRefCount_def Block_updateRefCount_def sbind_Inr_iff
          split: option.splits segment.splits if_splits intro!: upd_spte_perms field_perms)
  qed
qed

lemma calls_perms [perms]:
  "perms_ok s \<Longrightarrow> vm_delEntry va s = Inr s' \<Longrightarrow> perms_ok s'" "perms_ok s \<Longrightarrow> vm_addEntry j va pg a s = Inr s' \<Longrightarrow> perms_ok s'"
  "perms_ok s \<Longrightarrow> add_page j p i va s = Inr s' \<Longrightarrow> perms_ok s'"
  by (auto simp: vm_delEntry_def vm_addEntry_def add_page_def intro: pt_call_perms)

lemma perm_loop_perms [perms]: "perms_ok s \<Longrightarrow> perm_loop p t vas s = Inr (rc, s') \<Longrightarrow> perms_ok s'"
proof (induction vas arbitrary: s)
  case (Cons va vas)
  obtain i s1 where i: "(if sp_present (spte_at s p i) then vm_delEntry va s else Inr s) = Inr s1"
    "(let (rc, s2) = set_perm p i t s1 in if rc \<noteq> 0 then Inr (- EINVAL, s2) else perm_loop p t vas s2) = Inr (rc, s')"
    using Cons.prems(2) by (auto simp: sbind_Inr_iff)
  obtain rc1 s2 where s2: "set_perm p i t s1 = (rc1, s2)" by fastforce
  have "perms_ok s1" using i(1) Cons.prems(1) calls_perms(1) by (auto split: if_splits)
  then have "perms_ok s2" using s2 by (rule set_perm_perms)
  then show ?case using Cons.IH [of s2] i(2) s2 by (auto split: if_splits)
qed simp

lemma setPermission_perms [perms]: "perms_ok s \<Longrightarrow> BaseSegment_mmSetPermission va sz t s = Inr (rc, s') \<Longrightarrow> perms_ok s'"
  unfolding BaseSegment_mmSetPermission_def Block_mmSetPermission_def Let_def
  by (cases "find_block s (base_chain s) (ALIGN_PAGE_DOWN va)") (auto intro: perm_loop_perms)

lemma send_perms: "perms_ok s \<Longrightarrow> perms_ok (send_msg p ty va pg t s)" "perms_ok s \<Longrightarrow> perms_ok (memset_page a s)"
  "perms_ok s \<Longrightarrow> perms_ok (s\<lparr>pgm := m\<rparr>)" "perms_ok s \<Longrightarrow> perms_ok (upd_whdlr p f s)"
  "perms_ok s \<Longrightarrow> perms_ok (s\<lparr>cv_ro_evict_req := n\<rparr>)" "perms_ok s \<Longrightarrow> perms_ok (s\<lparr>cv_rw_evict_req := n\<rparr>)"
  "perms_ok s \<Longrightarrow> perms_ok (s\<lparr>base_chain := b\<rparr>)" "perms_ok s \<Longrightarrow> perms_ok (s\<lparr>iv_physMemSize := z\<rparr>)"
  "perms_ok s \<Longrightarrow> perms_ok (s\<lparr>iv_blockList := l\<rparr>)" "perms_ok s \<Longrightarrow> perms_ok (s\<lparr>iv_segments := g\<rparr>)"
  "perms_ok s \<Longrightarrow> perms_ok (s\<lparr>ptm := u\<rparr>)"
  by (simp_all add: perms_ok_def memset_page_def upd_whdlr_def)

lemma fault_perms [perms]:
  "perms_ok s \<Longrightarrow> Block_handlePageFault j ps t va store oom s = Inr (ok, o', s') \<Longrightarrow> perms_ok s'"
  unfolding Block_handlePageFault_def Let_def
  by (auto simp: sbind_Inr_iff split: option.splits if_splits intro!: send_perms upd_spte_perms field_perms
      elim!: calls_perms(3) [rotated] dest!: setPermission_perms [rotated])

lemma setPhysicalPage_perms [perms]:
  assumes "perms_ok s" "Block_setPhysicalPage ps va pa acc s = Inr s'"
  shows "perms_ok s'"
proof -
  obtain p i s1 where s1: "(if pa \<noteq> 0 then vm_delEntry va (upd_spte p i (\<lambda>q. (setPageAddr (ucast pa) q)\<lparr>sp_present := True\<rparr>) s)
       else if sp_present (spte_at s p i) then vm_delEntry va s else Inr s) = Inr s1"
    "(let (rc, s2) = set_perm p i acc s1 in if rc \<noteq> 0 then Inl KAssert else Inr s2) = Inr s'"
    using assms(2) by (auto simp: Block_setPhysicalPage_def sbind_Inr_iff split: option.splits)
  have "perms_ok (upd_spte p i (\<lambda>q. (setPageAddr (ucast pa) q)\<lparr>sp_present := True\<rparr>) s)"
    by (intro upd_spte_perms assms(1) field_perms)
  then have "perms_ok s1" using s1(1) assms(1) calls_perms(1) by (auto split: if_splits)
  then show ?thesis using s1(2) set_perm_perms by (cases "set_perm p i acc s1") (auto split: if_splits)
qed

lemma attachSPTE_perms [perms]: "perms_ok s \<Longrightarrow> attachSPTE j p va s = Inr s' \<Longrightarrow> perms_ok s'"
  unfolding attachSPTE_def Let_def
  by (auto simp: sbind_Inr_iff intro!: upd_spte_perms field_perms elim!: calls_perms(3) [rotated] dest!: setPermission_perms [rotated])

lemma releaseSPTE_perms [perms]: "perms_ok s \<Longrightarrow> releaseSPTE p i s = Inr s' \<Longrightarrow> perms_ok s'"
  unfolding releaseSPTE_def Let_def
  by (auto simp: sbind_Inr_iff intro!: upd_spte_perms field_perms dest!: setPermission_perms [rotated])

lemma freePage_perms [perms]: "perms_ok s \<Longrightarrow> vm_freePage pg s = Inr s' \<Longrightarrow> perms_ok s'"
  unfolding vm_freePage_def by (auto simp: sbind_Inr_iff intro: send_perms)

lemma release_page_perms [perms]: "perms_ok s \<Longrightarrow> release_page p va s = Inr s' \<Longrightarrow> perms_ok s'"
  unfolding release_page_def Let_def by (auto simp: sbind_Inr_iff split: if_splits dest!: perms [rotated])

lemma remove_page_perms [perms]: "perms_ok s \<Longrightarrow> remove_page i_op p t va s = Inr s' \<Longrightarrow> perms_ok s'"
  unfolding remove_page_def Let_def
  by (auto simp: sbind_Inr_iff split: if_splits option.splits intro!: send_perms dest!: perms [rotated])

lemma loops_perms [perms]:
  "perms_ok s \<Longrightarrow> sfold (release_page p) vas s = Inr s' \<Longrightarrow> perms_ok s'"
  "perms_ok s \<Longrightarrow> sfold (remove_page i_op p t) vas s = Inr s' \<Longrightarrow> perms_ok s'"
  "perms_ok s \<Longrightarrow> sfold set_linear vas s = Inr s' \<Longrightarrow> perms_ok s'"
  "perms_ok s \<Longrightarrow> sfold (\<lambda>i. Block_setPhysicalPage ps i pa acc) vas s = Inr s' \<Longrightarrow> perms_ok s'"
  "perms_ok s \<Longrightarrow> sfold (map_linear a) vas s = Inr s' \<Longrightarrow> perms_ok s'"
  by (erule sfold_perms [rotated], auto simp: set_linear_def map_linear_def split: if_splits dest!: perms [rotated])+

lemma removePages_perms [perms]: "perms_ok s \<Longrightarrow> Block_removePages i_op ps va sz t s = Inr (rc, s') \<Longrightarrow> perms_ok s'"
  unfolding Block_removePages_def Let_def by (auto simp: sbind_Inr_iff split: if_splits option.splits dest!: perms [rotated])

lemma cast_page_perms: "perms_ok s \<Longrightarrow> cast_page rw ro ps va s = Inr s' \<Longrightarrow> perms_ok s'"
  unfolding cast_page_def Let_def
  by (auto simp: sbind_Inr_iff split: if_splits intro!: send_perms dest!: perms [rotated])

lemma cast_loop_perms:
  assumes "perms_ok s" "sfold (cast_page rw ro ps) vas s = Inr s'"
  shows "perms_ok s'"
  by (rule sfold_perms [OF _ assms]) (rule cast_page_perms)

lemma castOut_perms [perms]: "perms_ok s \<Longrightarrow> Block_castOutPages a c ps s = Inr s' \<Longrightarrow> perms_ok s'"
proof (induction ps arbitrary: s s')
  case (Cons p ps)
  obtain s1 where s1: "Block_castOutPages a c ps s = Inr s1" using Cons.prems(2) by (auto simp: sbind_Inr_iff)
  have "perms_ok s1" by (rule Cons.IH [OF Cons.prems(1) s1])
  then show ?case using Cons.prems(2) s1 by (auto simp: Let_def split: if_splits dest: cast_loop_perms)
qed simp

section \<open>The machine\<close>

lemma new_block_perms: "perms_ok s \<Longrightarrow> perms_ok (new_block p (Block_init va sz q m) s)"
  by (auto simp: perms_ok_def new_block_def Block_init_def spte_init_def perm_ok_def)

lemma responses_perms [perms]:
  "perms_ok s \<Longrightarrow> read_handleResponse j p k rc s = Inr (r, s') \<Longrightarrow> perms_ok s'"
  "perms_ok s \<Longrightarrow> write_handleResponse p k t rc s = Inr (r, s') \<Longrightarrow> perms_ok s'"
  unfolding read_handleResponse_def write_handleResponse_def
  by (auto simp: sbind_Inr_iff split: if_splits option.splits intro!: send_perms dest!: perms [rotated])

lemma mmAllocBlock_perms [perms]: "perms_ok s \<Longrightarrow> mmAllocBlock p mq va sz ph s = Inr (rc, s') \<Longrightarrow> perms_ok s'"
  unfolding mmAllocBlock_def by (auto split: if_splits intro!: send_perms new_block_perms)

lemma regions_perms [perms]:
  "perms_ok s \<Longrightarrow> mmExtend p s = Inr (rc, s') \<Longrightarrow> perms_ok s'" "perms_ok s \<Longrightarrow> mmLinearMap p pa sz s = Inr (rc, s') \<Longrightarrow> perms_ok s'"
  "perms_ok s \<Longrightarrow> createStack p t s = Inr (sp, s') \<Longrightarrow> perms_ok s'" "perms_ok s \<Longrightarrow> deleteStack t s = Inr s' \<Longrightarrow> perms_ok s'"
  unfolding mmExtend_def mmLinearMap_def createStack_def deleteStack_def releaseAllPages_def Let_def
  by (auto simp: sbind_Inr_iff split: if_splits option.splits intro!: send_perms new_block_perms dest!: perms [rotated])

lemma deviceFault_perms [perms]: "perms_ok s \<Longrightarrow> DeviceSegment_handlePageFault j d va s = Inr (ok, s') \<Longrightarrow> perms_ok s'"
  unfolding DeviceSegment_handlePageFault_def Let_def by (auto simp: sbind_Inr_iff split: if_splits dest!: perms [rotated])

lemma pteMiss_perms [perms]: "perms_ok s \<Longrightarrow> pteMiss j t va store s = Inr (ok, s') \<Longrightarrow> perms_ok s'"
  unfolding pteMiss_def SegmentManager_handlePageFault_def StackSegment_handlePageFault_def
  by (auto simp: sbind_Inr_iff split: if_splits option.splits segment.splits dest!: perms [rotated])

lemma devices_perms [perms]: "perms_ok s \<Longrightarrow> SegmentManager_devMap ra sz c g s = (ea, s') \<Longrightarrow> perms_ok s'"
  "perms_ok s \<Longrightarrow> SegmentManager_devUnmap ea s = Inr (rc, s') \<Longrightarrow> perms_ok s'"
proof -
  assume p: "perms_ok s"
  show "perms_ok s'" if "SegmentManager_devMap ra sz c g s = (ea, s')"
    using that unfolding SegmentManager_devMap_def
    by (cases rule: devMap_loop_cases) (use p in \<open>auto simp: set_segment_def intro: send_perms\<close>)
  show "perms_ok s'" if "SegmentManager_devUnmap ea s = Inr (rc, s')"
    using that p unfolding SegmentManager_devUnmap_def DeviceSegment_devUnmap_def Let_def
    by (auto simp: sbind_Inr_iff set_segment_def split: if_splits option.splits segment.splits intro!: send_perms dest!: perms [rotated])
qed

lemma castOutSegments_perms [perms]: "perms_ok s \<Longrightarrow> SegmentManager_castOutPages a c s = Inr s' \<Longrightarrow> perms_ok s'"
  unfolding SegmentManager_castOutPages_def
  by (erule sfold_perms [rotated]) (auto split: if_splits dest!: perms [rotated])

lemma vm_do_perms: "perms_ok s \<Longrightarrow> vm_do c s = Inr s' \<Longrightarrow> perms_ok s'"
  by (cases c) (auto simp: state_of_def sbind_Inr_iff mmRemovePages_def flushPageTable_def
      intro!: send_perms devices_perms(1) [OF _ surjective_pairing] dest!: perms [rotated])

lemma base_init_perms:
  assumes "perms_ok s" "BaseSegment_init p data s = Inr s'"
  shows "perms_ok s'"
proof (rule loops_perms(5))
  let ?s = "(new_block p (Block_init 0 (hbCacheSize s) False False) (set_segment 0 BaseSegment s))
    \<lparr>iv_physMemSize := hbCacheSize s, base_chain := [p]\<rparr>"
  show "sfold (map_linear (kernel_access data)) (page_list 0 (hbCacheSize s)) ?s = Inr s'"
    using assms(2) unfolding BaseSegment_init_def map_linear_kernel by (auto simp: Let_def sbind_Inr_iff addSegment_def split: if_splits)
  show "perms_ok ?s" by (intro send_perms new_block_perms) (simp add: set_segment_def send_perms assms(1))
qed

lemma init_perms:
  assumes "boot s" "VmmManager_init p data s = Inr s'"
  shows "perms_ok s'"
proof -
  let ?s0 = "s\<lparr>iv_segments := replicate MAX_SEGMENTS None, iv_blockList := [], ptm := invalidatePT (ptm s)\<rparr>"
  obtain s1 where s1: "BaseSegment_init p data ?s0 = Inr s1"
    "sfold new_device [MMIO_FIRST_SEGMENT_ID..<MMIO_LAST_SEGMENT_ID] (set_segment 1 StackSegment s1) = Inr s'"
    using assms(2) by (auto simp: VmmManager_init_def sbind_Inr_iff addSegment_def split: if_splits)
  have "perms_ok ?s0" using assms(1) by (simp add: boot_def perms_ok_def)
  then have "perms_ok s1" by (rule base_init_perms [OF _ s1(1)])
  then have "perms_ok (set_segment 1 StackSegment s1)" by (simp add: set_segment_def send_perms)
  then show ?thesis
    by (rule sfold_perms [OF _ _ s1(2), rotated])
      (auto simp: new_device_def addSegment_def set_segment_def split: if_splits intro: send_perms)
qed

lemma vmreach_perms: "vmreach s \<Longrightarrow> perms_ok s"
  by (induction rule: vmreach.induct) (auto intro: init_perms vm_do_perms)

end
