(* ===== verification/Vm_Properties.thy ===== *)
theory Vm_Properties
  imports Vm_Permissions
begin

text \<open>
  The properties of virtual memory. All of them are about the machine of \<open>Vm_Machine\<close>: its
  initialisation followed by any sequence of calls, responses and table walks.
\<close>

section \<open>Faults on present pages\<close>

definition page_access :: "bool \<Rightarrow> spte \<Rightarrow> u64" where
  "page_access store q = (if sp_executable q then EXECUTABLE
     else if sp_writable q \<and> (store \<or> sp_dirty q) then WRITABLE else READ_ONLY)"

lemma present_fault:
  assumes g: "good L s" and gv: "governs L s va = Some (p, i)" and pr: "sp_present (spte_at s p i)"
    and perm: "getPermission (spte_at s p i) \<noteq> NO_ACCESS" "store \<Longrightarrow> sp_writable (spte_at s p i)"
  shows "\<exists>s' x. Block_handlePageFault junk (chain_of L s va) t va store oom s = Inr (True, False, s') \<and> good L s' \<and> skel s' = skel s
    \<and> translate (ptm s') va = Some x \<and> ucast (fst x) = frame_of s p i \<and> hw_access x = Inr (page_access store (spte_at s p i))"
proof -
  note al = governs_align [OF g gv]
  have fb: "find_block s (chain_of L s va) va = Some p" using gv governs_find by blast
  let ?s1 = "if store then upd_spte p i (\<lambda>q. q\<lparr>sp_dirty := True\<rparr>) s else s"
  have e: "evolves L s ?s1" using mark_evolves(1) [OF g al(3)] evolves_refl [OF g] by simp
  have q: "spte_at ?s1 p i = (spte_at s p i)\<lparr>sp_dirty := store \<or> sp_dirty (spte_at s p i)\<rparr>"
    using al(3) by (simp add: spte_at_upd)
  have gv1: "governs L ?s1 (page_addr va) = Some (p, i)" using al(1) governs_skel [OF evolvesD(2) [OF e]] by simp
  have "sp_present (spte_at ?s1 p i)" using pr by (simp add: q)
  from add_page_good [OF evolvesD(1) [OF e] gv1 this] obtain s' x where
    s': "add_page junk p i (page_addr va) ?s1 = Inr s'" "good L s'" "pt_quiet ?s1 s'" "translate (ptm s') (page_addr va) = Some x"
      "ucast (fst x) = frame_of ?s1 p i" "hw_access x = Inr (access_kind (accessType (blk ?s1 p) (spte_at ?s1 p i)))"
    by blast
  have "frame_of ?s1 p i = frame_of s p i"
    using skelD(1) [OF evolvesD(2) [OF e]] shapeD(6) [OF skelD(7) [OF evolvesD(2) [OF e]]] by (simp add: frame_of_def q)
  moreover have "access_kind (accessType (blk ?s1 p) (spte_at ?s1 p i)) = page_access store (spte_at s p i)"
    by (auto simp: access_of_accessType q page_access_def)
  moreover have "translate (ptm s') va = Some x" using s'(4) translate_page [of va "page_addr va"] by simp
  moreover have "Block_handlePageFault junk (chain_of L s va) t va store oom s = Inr (True, False, s')"
    using fb al(2) perm pr s'(1) by (cases store) (simp_all add: Block_handlePageFault_def align_page Let_def)
  moreover have "skel s' = skel s" using quiet_fields(1) [OF s'(3)] evolvesD(2) [OF e] by simp
  ultimately show ?thesis using s'(2,5,6) by (intro exI [of _ s'] exI [of _ x]) (simp only: simp_thms)
qed

lemma refused_fault:
  assumes "find_block s ps va = Some p" "getPTE (blk s p) (page_addr va) = Inr i"
    and "getPermission (spte_at s p i) = NO_ACCESS \<or> store \<and> \<not> sp_writable (spte_at s p i)"
  shows "Block_handlePageFault j ps t va store oom s = Inr (False, False, s)"
  using assms
  by (cases "getPermission (spte_at s p i) = NO_ACCESS") (simp_all add: Block_handlePageFault_def align_page Let_def)

section \<open>Kernel memory after the initialisation\<close>

lemma permission_flags:
  "getPermission q = EXECUTABLE \<Longrightarrow> sp_executable q \<and> \<not> sp_writable q" "getPermission q = WRITABLE \<Longrightarrow> sp_writable q \<and> \<not> sp_executable q"
  by (auto simp: getPermission_def EXECUTABLE_def WRITABLE_def NO_ACCESS_def READ_ONLY_def WRITE_TRACKED_def ALLOCATE_FROM_ZERO_def
      split: if_splits)

lemma base_governs:
  assumes g: "good L s" and sg: "segment_of s va = Some BaseSegment" and f: "find_block s (base_chain s) va = Some p"
  shows "\<exists>i. governs L s va = Some (p, i) \<and> getPTE (blk s p) (page_addr va) = Inr i"
    "SegmentManager_handlePageFault j t va store oom s = Block_handlePageFault j (chain_of L s va) t va store oom s"
proof -
  have ch: "chain_of L s va = base_chain s" using sg by (simp add: chain_of_def)
  then obtain i where "governs L s va = Some (p, i)" using f by (auto simp: governs_def)
  then show "\<exists>i. governs L s va = Some (p, i) \<and> getPTE (blk s p) (page_addr va) = Inr i" using governs_align(2) [OF g] by blast
  show "SegmentManager_handlePageFault j t va store oom s = Block_handlePageFault j (chain_of L s va) t va store oom s"
    using sg ch by (simp add: SegmentManager_handlePageFault_def)
qed

text \<open>A fault on a page that was mapped linearly.\<close>

lemma mapped_fault:
  assumes g: "good L s" and sg: "segment_of s va = Some BaseSegment" and f: "find_block s (base_chain s) va = Some p"
    and m: "mapped_at s p (page_addr va) acc" and a: "acc = EXECUTABLE \<and> \<not> store \<or> acc = WRITABLE"
  shows "\<exists>s' x. pteMiss j t va store s = Inr (True, s') \<and> translate (ptm s') va = Some x
    \<and> ucast (fst x) = (if iv_mappedToPhysical (blk s p) then ucast (linear_frame va) else ucast (linear_frame va) OR hrmor s div of_nat PAGESIZE)
    \<and> (acc = EXECUTABLE \<longrightarrow> hw_access x = Inr EXECUTABLE) \<and> (store \<longrightarrow> hw_access x = Inr WRITABLE)
    \<and> (acc = WRITABLE \<longrightarrow> hw_access x = Inr WRITABLE \<or> hw_access x = Inr READ_ONLY)"
proof -
  obtain i where i: "governs L s va = Some (p, i)" "getPTE (blk s p) (page_addr va) = Inr i" using base_governs(1) [OF g sg f] by blast
  let ?q = "spte_at s p i"
  have q: "sp_present ?q" "sp_page ?q = linear_frame (page_addr va)" "getPermission ?q = acc" using m i(2) by (auto simp: mapped_at_def)
  have lf: "linear_frame (page_addr va) = linear_frame va"
    by (rule bit_word_eqI) (auto simp: linear_frame_def page_addr_def bit_simps)
  have na: "getPermission ?q \<noteq> NO_ACCESS" using q(3) a by (auto simp: EXECUTABLE_def WRITABLE_def NO_ACCESS_def)
  have fl: "acc = EXECUTABLE \<Longrightarrow> sp_executable ?q \<and> \<not> sp_writable ?q" "acc = WRITABLE \<Longrightarrow> sp_writable ?q \<and> \<not> sp_executable ?q"
    using permission_flags [of ?q] q(3) by simp_all
  then have w: "store \<Longrightarrow> sp_writable ?q" using a by blast
  from present_fault [OF g i(1) q(1) na w] obtain s' x where
    s': "Block_handlePageFault j (chain_of L s va) t va store True s = Inr (True, False, s')" "translate (ptm s') va = Some x"
      "ucast (fst x) = frame_of s p i" "hw_access x = Inr (page_access store ?q)" by blast
  have pm: "pteMiss j t va store s = Inr (True, s')" using base_governs(2) [OF g sg f] s'(1) by (simp add: pteMiss_def)
  have fr: "ucast (fst x) = (if iv_mappedToPhysical (blk s p) then ucast (linear_frame va) else ucast (linear_frame va) OR hrmor s div of_nat PAGESIZE)"
    using s'(3) q(2) lf by (simp add: frame_of_def)
  have ac: "page_access store ?q = (if acc = EXECUTABLE then EXECUTABLE else if store \<or> sp_dirty ?q then WRITABLE else READ_ONLY)"
    using fl a by (auto simp: page_access_def)
  show ?thesis using pm s'(2,4) fr ac a by (intro exI [of _ s'] exI [of _ x]) (auto simp: EXECUTABLE_def WRITABLE_def)
qed

lemma base_segment_of:
  assumes "iv_segments s ! 0 = Some BaseSegment" "unat va < 2 ^ 40"
  shows "segment_of s va = Some BaseSegment"
  using assms by (simp add: segment_of_def segment_id Let_def MAX_SEGMENTS_def)

lemma linear_frame_small: "unat va < 2 ^ 32 \<Longrightarrow> (ucast (linear_frame va) :: u64) = va div page_size"
proof -
  assume "unat va < 2 ^ 32"
  then have t: "take_bit 32 va = va" by (simp add: take_bit_eq_mod word_unat_eq_iff unat_mod)
  have "(ucast (linear_frame va) :: u64) = drop_bit 12 (take_bit 32 va)"
    by (rule bit_word_eqI) (auto simp: linear_frame_def bit_simps)
  then show ?thesis by (simp add: t drop_bit_eq_div page_size_def)
qed

lemma layout_fault:
  assumes g: "good L s" and sg: "iv_segments s ! 0 = Some BaseSegment" and b: "base_layout p data s" and c: "cache_ok (hbCacheSize s)"
    and va: "va < hbCacheSize s"
  shows "page_addr va = 0 \<or> store \<and> page_addr va < page_addr data \<Longrightarrow> pteMiss j t va store s = Inr (False, s)"
    and "page_addr va \<noteq> 0 \<Longrightarrow> \<not> (store \<and> page_addr va < page_addr data) \<Longrightarrow>
      \<exists>s' x. pteMiss j t va store s = Inr (True, s') \<and> translate (ptm s') va = Some x
        \<and> ucast (fst x) = va div page_size OR hrmor s div of_nat PAGESIZE
        \<and> (page_addr va < page_addr data \<longrightarrow> hw_access x = Inr EXECUTABLE) \<and> (store \<longrightarrow> hw_access x = Inr WRITABLE)
        \<and> (page_addr data \<le> page_addr va \<longrightarrow> hw_access x = Inr WRITABLE \<or> hw_access x = Inr READ_ONLY)"
proof -
  have hs: "unat (hbCacheSize s) \<le> 2 ^ 26" using c by (simp add: cache_ok_def VMM_MEMORY_SIZE_def word_le_nat_alt)
  have vs: "unat va < 2 ^ 26" using va hs by (simp add: word_less_nat_alt)
  have seg: "segment_of s va = Some BaseSegment" using base_segment_of [OF sg] vs by simp
  have sh: "shape (blk s p) = shape (Block_init 0 (hbCacheSize s) False False)" and ch: "base_chain s = [p]"
    using b by (simp_all add: base_layout_def)
  have "isContained (blk s p) va" using shapeD(7) [OF sh, of va] va by (simp add: isContained_def Block_init_def)
  then have f: "find_block s (base_chain s) va = Some p" by (simp add: ch)
  obtain i where i: "governs L s va = Some (p, i)" "getPTE (blk s p) (page_addr va) = Inr i" using base_governs(1) [OF g seg f] by blast
  have pl: "page_addr va \<le> va" by (simp add: word_le_nat_alt unat_page_addr)
  have m: "mapped_at s p (page_addr va) (kernel_access data (page_addr va))" if "page_addr va \<noteq> 0"
    using b that pl va by (auto simp: base_layout_def word_gt_0 intro: le_less_trans)
  have refuse: "pteMiss j t va store s = Inr (False, s)"
    if "getPermission (spte_at s p i) = NO_ACCESS \<or> store \<and> \<not> sp_writable (spte_at s p i)"
  proof -
    have fc: "find_block s (chain_of L s va) va = Some p" using i(1) governs_find by blast
    have "Block_handlePageFault j (chain_of L s va) t va store True s = Inr (False, False, s)"
      by (rule refused_fault [OF fc i(2) that])
    then show ?thesis using base_governs(2) [OF g seg f] by (simp add: pteMiss_def)
  qed
  show "pteMiss j t va store s = Inr (False, s)" if "page_addr va = 0 \<or> store \<and> page_addr va < page_addr data"
  proof (cases "page_addr va = 0")
    case True
    then have "i = 0" using i(2) shapeD(9) [OF sh, of 0] by (simp add: getPTE_def Block_init_def Let_def split: if_splits)
    moreover have z: "zeroLRU (spte_at s p 0) = zeroLRU spte_init" using b by (simp add: base_layout_def)
    ultimately have "getPermission (spte_at s p i) = getPermission spte_init" using permission_age [OF z] by simp
    moreover have "getPermission spte_init = NO_ACCESS" by (simp add: getPermission_def spte_init_def)
    ultimately show ?thesis using refuse by simp
  next
    case False
    then have "getPermission (spte_at s p i) = EXECUTABLE" using m i(2) that by (auto simp: mapped_at_def kernel_access_def align_page)
    then have "\<not> sp_writable (spte_at s p i)" using permission_flags(1) by blast
    then show ?thesis using refuse that False by blast
  qed
  assume nz: "page_addr va \<noteq> 0" and w: "\<not> (store \<and> page_addr va < page_addr data)"
  have "kernel_access data (page_addr va) = EXECUTABLE \<and> \<not> store \<or> kernel_access data (page_addr va) = WRITABLE"
    using w by (auto simp: kernel_access_def align_page)
  from mapped_fault [OF g seg f m [OF nz] this, of j t] obtain s' x where
    s': "pteMiss j t va store s = Inr (True, s')" "translate (ptm s') va = Some x"
    "ucast (fst x) = (if iv_mappedToPhysical (blk s p) then ucast (linear_frame va) else ucast (linear_frame va) OR hrmor s div of_nat PAGESIZE)"
    "kernel_access data (page_addr va) = EXECUTABLE \<longrightarrow> hw_access x = Inr EXECUTABLE" "store \<longrightarrow> hw_access x = Inr WRITABLE"
    "kernel_access data (page_addr va) = WRITABLE \<longrightarrow> hw_access x = Inr WRITABLE \<or> hw_access x = Inr READ_ONLY"
    by blast
  have k: "page_addr va < page_addr data \<longrightarrow> kernel_access data (page_addr va) = EXECUTABLE"
    "page_addr data \<le> page_addr va \<longrightarrow> kernel_access data (page_addr va) = WRITABLE"
    by (simp_all add: kernel_access_def align_page not_less [symmetric])
  have "\<not> iv_mappedToPhysical (blk s p)" using shapeD(6) [OF sh] by (simp add: Block_init_def)
  then have "ucast (fst x) = va div page_size OR hrmor s div of_nat PAGESIZE" using s'(3) linear_frame_small [of va] vs by simp
  then show "\<exists>s' x. pteMiss j t va store s = Inr (True, s') \<and> translate (ptm s') va = Some x
        \<and> ucast (fst x) = va div page_size OR hrmor s div of_nat PAGESIZE
        \<and> (page_addr va < page_addr data \<longrightarrow> hw_access x = Inr EXECUTABLE) \<and> (store \<longrightarrow> hw_access x = Inr WRITABLE)
        \<and> (page_addr data \<le> page_addr va \<longrightarrow> hw_access x = Inr WRITABLE \<or> hw_access x = Inr READ_ONLY)"
    using s'(1,2,4-6) k by blast
qed

section \<open>An example\<close>

text \<open>Three pages of cache, with the data of the kernel from the second page on.\<close>

definition boot_example :: vmm where
  "boot_example = \<lparr>hrmor = 0x100000000, hbCacheSize = 0x3000,
     blk = \<lambda>_. \<lparr>iv_baseAddr = 0, iv_size = 0, iv_ptes = [], iv_readMsgHdlr = False, iv_writeMsgHdlr = None, iv_mappedToPhysical = False\<rparr>,
     base_chain = [], iv_physMemSize = 0, iv_blockList = [], iv_segments = [],
     ptm = \<lparr>htaborg = PT_SIZE, ivIdleTaskPN = 18, ptab = (\<lambda>_. blank_pte), tlb = [], usage = []\<rparr>,
     pgm = \<lparr>iv_pagesAvail = 0, iv_pagesTotal = 0, heap = pmcore_init True, heapKernel = pmcore_init False,
       cv_coalesce_count = 0, cv_low_page_count = 0, forced = 0\<rparr>,
     ram = \<lambda>_. 0, sent = [], cv_ro_evict_req = 0, cv_rw_evict_req = 0\<rparr>"

lemma boot_example_ok: "boot boot_example"
  by (simp add: boot_def boot_example_def cache_ok_def VMM_MEMORY_SIZE_def page_addr_iff pm_inv_def pm_pages_def core_inv_def
      core_pages_def pmcore_init_def no_null_def heap_pages_def)

lemma start_example:
  obtains s where "vmreach s" "iv_blockList s = []" "base_layout 7 0x2000 s" "hbCacheSize s = 0x3000" "hrmor s = 0x100000000"
    "\<forall>k<MAX_SEGMENTS. iv_segments s ! k = initial_segments k"
proof -
  obtain s where s: "VmmManager_init 7 0x2000 boot_example = Inr s" "iv_blockList s = []" "base_layout 7 0x2000 s"
    "hbCacheSize s = 0x3000" "hrmor s = 0x100000000" "\<forall>k<MAX_SEGMENTS. iv_segments s ! k = initial_segments k"
    using init_good [OF boot_example_ok, of 7 "0x2000"] by (auto simp: boot_example_def)
  have "vmreach s" by (rule vm_init [OF boot_example_ok s(1)])
  then show thesis using that s by blast
qed


section \<open>Properties\<close>





text \<open>C8. Shape of the state: in every state of the machine there are 16 segment slots, each empty or with
  a segment of the kind that belongs there, at its base address; every window is page aligned with a
  real address the table can hold; every block is page aligned, does not wrap around the address
  space and has one shadow entry for each of its pages; no two stacks have the same slot.\<close>

theorem vm_well_formed:
  assumes "vmreach s"
  shows "length (iv_segments s) = MAX_SEGMENTS \<and> (\<forall>k<MAX_SEGMENTS. seg_ok k (iv_segments s ! k))
    \<and> distinct (map fst (iv_blockList s))
    \<and> (\<forall>p\<in>set (base_chain s) \<union> snd ` set (iv_blockList s). page_addr (iv_baseAddr (blk s p)) = iv_baseAddr (blk s p)
         \<and> unat (iv_baseAddr (blk s p)) + unat (iv_size (blk s p)) < 2 ^ 64
         \<and> unat (iv_size (blk s p)) = 4096 * length (iv_ptes (blk s p)))"
proof -
  have w: "vm_wf (iv_blockList s) s" using vmreach_ok [OF assms] by (simp add: vm_ok_def good_def)
  then have "page_addr (iv_baseAddr (blk s p)) = iv_baseAddr (blk s p) \<and> unat (iv_baseAddr (blk s p)) + unat (iv_size (blk s p)) < 2 ^ 64
      \<and> unat (iv_size (blk s p)) = 4096 * length (iv_ptes (blk s p))" if "p \<in> set (base_chain s) \<union> snd ` set (iv_blockList s)" for p
    using vm_wf_block [OF w that] block_bounds(2) [OF vm_wf_block [OF w that]] by (simp add: block_ok_def)
  then show ?thesis using w unfolding vm_wf_def by blast
qed

theorem vm_well_formed_witness:
  "\<exists>s. vmreach s \<and> base_chain s = [7] \<and> unat (iv_size (blk s 7)) = 4096 * length (iv_ptes (blk s 7))"
proof -
  obtain s where "vmreach s" "base_layout 7 0x2000 s" by (rule start_example)
  then show ?thesis using vm_well_formed [of s] by (auto simp: base_layout_def)
qed



lemma fault_chain:
  assumes "\<And>d. segment_of s va \<noteq> Some (DeviceSegment d)"
  shows "SegmentManager_handlePageFault j t va store oom s = Block_handlePageFault j (chain_of (iv_blockList s) s va) t va store oom s"
  using assms find_none_fault [of s "[]" va j t store oom]
  by (auto simp: SegmentManager_handlePageFault_def StackSegment_handlePageFault_def chain_of_def split: option.split segment.split)

text \<open>C5. Page faults: a fault on an address of a block is refused, with no change, when the entry grants
  no access or is not writable and the fault is a store; otherwise a fault on a present page is
  resolved with the entry's frame and its access, write access for a store. Whenever a fault is
  reported as handled, the page can be reached or a message to its resource provider was sent.\<close>

theorem page_fault_resolved:
  assumes "vmreach s" and "governs (iv_blockList s) s va = Some (p, i)"
  shows "(getPermission (spte_at s p i) = NO_ACCESS \<or> store \<and> \<not> sp_writable (spte_at s p i) \<longrightarrow> pteMiss j t va store s = Inr (False, s))
    \<and> (getPermission (spte_at s p i) \<noteq> NO_ACCESS \<and> (store \<longrightarrow> sp_writable (spte_at s p i)) \<and> sp_present (spte_at s p i) \<longrightarrow>
         (\<exists>s' x. pteMiss j t va store s = Inr (True, s') \<and> translate (ptm s') va = Some x \<and> ucast (fst x) = frame_of s p i
           \<and> hw_access x = Inr (page_access store (spte_at s p i)) \<and> (store \<longrightarrow> hw_access x = Inr WRITABLE)))
    \<and> (\<forall>s'. pteMiss j t va store s = Inr (True, s') \<longrightarrow>
         (\<exists>x. translate (ptm s') va = Some x \<and> allowed (iv_blockList s') s' va x) \<or> awaiting p va s s')"
proof (intro conjI impI allI)
  have g: "good (iv_blockList s) s" using vmreach_ok [OF assms(1)] by (simp add: vm_ok_def)
  have nd: "segment_of s va \<noteq> Some (DeviceSegment d)" for d using governs_segment [OF assms(2)] by auto
  note ch = fault_chain [OF nd, of j t store True]
  note al = governs_align [OF g assms(2)]
  have fb: "find_block s (chain_of (iv_blockList s) s va) va = Some p" using assms(2) governs_find by blast
  show "pteMiss j t va store s = Inr (False, s)" if "getPermission (spte_at s p i) = NO_ACCESS \<or> store \<and> \<not> sp_writable (spte_at s p i)"
    using refused_fault [OF fb al(2) that, of j t True] ch by (simp add: pteMiss_def)
  show "\<exists>s' x. pteMiss j t va store s = Inr (True, s') \<and> translate (ptm s') va = Some x \<and> ucast (fst x) = frame_of s p i
      \<and> hw_access x = Inr (page_access store (spte_at s p i)) \<and> (store \<longrightarrow> hw_access x = Inr WRITABLE)"
    if a: "getPermission (spte_at s p i) \<noteq> NO_ACCESS \<and> (store \<longrightarrow> sp_writable (spte_at s p i)) \<and> sp_present (spte_at s p i)"
  proof -
    obtain s' x where s': "Block_handlePageFault j (chain_of (iv_blockList s) s va) t va store True s = Inr (True, False, s')"
      "translate (ptm s') va = Some x" "ucast (fst x) = frame_of s p i" "hw_access x = Inr (page_access store (spte_at s p i))"
      using present_fault [OF g assms(2), of store j t True] a by blast
    have "pteMiss j t va store s = Inr (True, s')" using s'(1) ch by (simp add: pteMiss_def)
    moreover have "perm_ok (spte_at s p i)" by (rule perm_at [OF vmreach_perms [OF assms(1)] al(3)])
    then have "store \<longrightarrow> page_access store (spte_at s p i) = WRITABLE" using a by (auto simp: page_access_def perm_ok_def)
    ultimately show ?thesis using s'(2-4) by metis
  qed
  fix s' assume r: "pteMiss j t va store s = Inr (True, s')"
  obtain q where q: "Block_handlePageFault j (chain_of (iv_blockList s) s va) t va store True s = Inr q"
    "faulted (iv_blockList s) p i va store s q" using Block_fault_good [OF g assms(2)] by blast
  have "q = (True, False, s')" using r ch q(1) by (cases q) (auto simp: pteMiss_def split: if_splits)
  then have f: "awaiting p va s s' \<or> entered p i va store s'" "skel s' = skel s" using q(2) by (auto simp: faulted_def)
  have "governs (iv_blockList s') s' va = Some (p, i)" using assms(2) governs_skel [OF f(2)] skelD(5) [OF f(2)] by simp
  then show "(\<exists>x. translate (ptm s') va = Some x \<and> allowed (iv_blockList s') s' va x) \<or> awaiting p va s s'"
    using f(1) allowed_governed by (auto simp: entered_def)
qed

theorem page_fault_resolved_witness:
  "\<exists>s s' x. vmreach s \<and> pteMiss blank_pte None 0x2000 True s = Inr (True, s') \<and> translate (ptm s') 0x2000 = Some x
    \<and> hw_access x = Inr WRITABLE"
proof -
  obtain s where s: "vmreach s" "iv_blockList s = []" "base_layout 7 0x2000 s" "hbCacheSize s = 0x3000" "hrmor s = 0x100000000"
    "\<forall>k<MAX_SEGMENTS. iv_segments s ! k = initial_segments k" by (rule start_example)
  have "good [] s" using vmreach_ok [OF s(1)] s(2) by (simp add: vm_ok_def)
  moreover have "segment_of s 0x2000 = Some BaseSegment"
    using s(6) by (intro base_segment_of) (simp_all add: initial_segments_def MAX_SEGMENTS_def)
  moreover have "isContained (blk s 7) 0x2000"
    using s(3) shapeD(7) [of "blk s 7" "Block_init 0 0x3000 False False" "0x2000"]
    by (simp add: base_layout_def s(4) isContained_def Block_init_def)
  then have "find_block s (base_chain s) 0x2000 = Some 7" using s(3) by (simp add: base_layout_def)
  moreover have a: "page_addr 0x2000 = 0x2000" by (simp add: page_addr_iff)
  ultimately obtain i where i: "governs [] s 0x2000 = Some (7, i)" "getPTE (blk s 7) 0x2000 = Inr i"
    using base_governs(1) [of "[]" s "0x2000" 7] by auto
  have "mapped_at s 7 0x2000 WRITABLE" using s(3) a by (auto simp: base_layout_def s(4) kernel_access_def align_page)
  then have q: "sp_present (spte_at s 7 i)" "getPermission (spte_at s 7 i) = WRITABLE" using i(2) by (auto simp: mapped_at_def)
  moreover have "getPermission (spte_at s 7 i) \<noteq> NO_ACCESS" using q(2) by (simp add: WRITABLE_def NO_ACCESS_def)
  ultimately show ?thesis
    using page_fault_resolved [of s "0x2000" 7 i True blank_pte None] permission_flags(2) [OF q(2)] s(1,2) i(1) by auto
qed

text \<open>C9. The kernel's memory: the initialisation succeeds and creates the base segment, the stack segment
  and eight device segments. Below the size of the cache, a fault on the first page, or a store to
  a page of the kernel's text, is refused; every other fault is resolved to the page of the same number
  relative to the offset register, executable and not writable in the text, and not executable
  outside of it.\<close>

theorem kernel_memory_layout:
  assumes "boot s"
  shows "\<exists>s'. VmmManager_init p data s = Inr s' \<and> vmreach s' \<and> (\<forall>k<MAX_SEGMENTS. iv_segments s' ! k = initial_segments k)
    \<and> (\<forall>va store j t. va < hbCacheSize s \<longrightarrow>
        (if page_addr va = 0 \<or> store \<and> page_addr va < page_addr data then pteMiss j t va store s' = Inr (False, s')
         else \<exists>s2 x. pteMiss j t va store s' = Inr (True, s2) \<and> translate (ptm s2) va = Some x
           \<and> ucast (fst x) = va div page_size OR hrmor s div of_nat PAGESIZE
           \<and> (page_addr va < page_addr data \<longrightarrow> hw_access x = Inr EXECUTABLE) \<and> (store \<longrightarrow> hw_access x = Inr WRITABLE)
           \<and> (page_addr data \<le> page_addr va \<longrightarrow> hw_access x = Inr WRITABLE \<or> hw_access x = Inr READ_ONLY)))"
proof -
  obtain s' where s': "VmmManager_init p data s = Inr s'" "good [] s'" "hbCacheSize s' = hbCacheSize s" "hrmor s' = hrmor s"
    "base_layout p data s'" "\<forall>k<MAX_SEGMENTS. iv_segments s' ! k = initial_segments k"
    using init_good [OF assms, of p data] by blast
  have r: "vmreach s'" by (rule vm_init [OF assms s'(1)])
  have c: "cache_ok (hbCacheSize s')" using assms s'(3) by (simp add: boot_def)
  have b: "iv_segments s' ! 0 = Some BaseSegment" using s'(6) by (simp add: initial_segments_def MAX_SEGMENTS_def)
  note f = layout_fault [OF s'(2) b s'(5) c, unfolded s'(3,4)]
  show ?thesis using s'(1,6) r f by (intro exI [of _ s'] conjI allI impI) (simp_all split: if_split)
qed

theorem kernel_memory_layout_witness:
  "boot boot_example \<and> (\<exists>s'. VmmManager_init 7 0x2000 boot_example = Inr s' \<and> pteMiss blank_pte None 0x1008 True s' = Inr (False, s')
    \<and> (\<exists>s2 x. pteMiss blank_pte None 0x1008 False s' = Inr (True, s2) \<and> translate (ptm s2) 0x1008 = Some x
         \<and> hw_access x = Inr EXECUTABLE \<and> (ucast (fst x) :: u64) = 0x100001))"
proof -
  have p: "page_addr 0x1008 = 0x1000" "page_addr 0x2000 = 0x2000" by (simp_all add: word_unat_eq_iff unat_page_addr)
  have h: "hbCacheSize boot_example = 0x3000" "hrmor boot_example = 0x100000000" by (simp_all add: boot_example_def)
  from kernel_memory_layout [OF boot_example_ok, of 7 "0x2000", unfolded h] obtain s' where
    s': "VmmManager_init 7 0x2000 boot_example = Inr s'"
    and f: "\<And>va store j t. va < 0x3000 \<Longrightarrow>
        (if page_addr va = 0 \<or> store \<and> page_addr va < page_addr 0x2000 then pteMiss j t va store s' = Inr (False, s')
         else \<exists>s2 x. pteMiss j t va store s' = Inr (True, s2) \<and> translate (ptm s2) va = Some x
           \<and> ucast (fst x) = va div page_size OR 0x100000000 div of_nat PAGESIZE
           \<and> (page_addr va < page_addr 0x2000 \<longrightarrow> hw_access x = Inr EXECUTABLE) \<and> (store \<longrightarrow> hw_access x = Inr WRITABLE)
           \<and> (page_addr 0x2000 \<le> page_addr va \<longrightarrow> hw_access x = Inr WRITABLE \<or> hw_access x = Inr READ_ONLY))"
    by blast
  have "\<exists>s2 x. pteMiss blank_pte None 0x1008 False s' = Inr (True, s2) \<and> translate (ptm s2) 0x1008 = Some x
         \<and> hw_access x = Inr EXECUTABLE \<and> (ucast (fst x) :: u64) = 0x100001"
    using f [of "0x1008" False blank_pte None] p by (auto simp: page_size_def PAGESIZE_def simp del: split_paired_Ex)
  moreover have "pteMiss blank_pte None 0x1008 True s' = Inr (False, s')" using f [of "0x1008" True blank_pte None] p by simp
  ultimately show ?thesis using boot_example_ok s' by blast
qed

end
