(* ===== verification/Vm_Windows.thy ===== *)
theory Vm_Windows
  imports Vm_Properties
begin

text \<open>
  Further properties of virtual memory: the software walk \<open>findPhysicalAddress\<close> against the hardware's,
  the life of a device window, the stacks of tasks, linear maps and permissions.
\<close>

section \<open>Real addresses\<close>






section \<open>Device windows\<close>

text \<open>Where \<open>devMap\<close> puts a window, and that it is the window of all addresses in it.\<close>

lemma devMap_address:
  assumes g: "good L s" and r: "SegmentManager_devMap ra sz nonCI guarded s = (ea, s1)" and ea: "ea \<noteq> 0" and o: "off < sz"
  shows "\<exists>k d i. segment_of s1 (ea + off) = Some (DeviceSegment (set_window i (window ra sz nonCI guarded) d)) \<and> i < MMIO_MAP_DEVICES
    \<and> dev_idx d (ea + off) = i \<and> dev_offset d (ea + off) = off \<and> length (iv_mmioMap d) = MMIO_MAP_DEVICES
    \<and> unat (ea + off) div 2 ^ 40 = k \<and> unat ea div 2 ^ 40 = k \<and> dev_idx d ea = i \<and> sz \<le> THIRTYTWO_GB"
  using r unfolding SegmentManager_devMap_def
proof (cases rule: devMap_loop_cases)
  case (2 k d i)
  have k: "k < MAX_SEGMENTS" "k \<le> 10" using 2(1) by (auto simp: MMIO_LAST_SEGMENT_ID_def MMIO_FIRST_SEGMENT_ID_def MAX_SEGMENTS_def)
  then have sk: "seg_ok k (Some (DeviceSegment d))" using g 2(2) unfolding good_def vm_wf_def by metis
  then have len: "length (iv_mmioMap d) = MMIO_MAP_DEVICES" and at: "dev_at k d" by (auto simp: seg_ok_def dev_at_def)
  have i: "i < 32" using free_slot_Some [OF 2(3)] len by (simp add: MMIO_MAP_DEVICES_def)
  have b: "unat (iv_baseAddress d) = k * 2 ^ 40" using at k(2) by (simp add: dev_at_def unat_word_ariths unat_of_nat)
  have of: "unat off < 2 ^ 35" using o 2(4) by (simp add: THIRTYTWO_GB_def word_less_nat_alt word_le_nat_alt)
  have e: "unat ea = k * 2 ^ 40 + i * 2 ^ 35" using b i k(2) by (simp add: 2(5) unat_word_ariths unat_of_nat)
  have eo: "unat (ea + off) = k * 2 ^ 40 + i * 2 ^ 35 + unat off" using e of i k(2) by (simp add: unat_word_ariths)
  have d1: "(k * 2 ^ 40 + (i * 2 ^ 35 + z)) div 2 ^ 40 = k" "(k * 2 ^ 40 + (i * 2 ^ 35 + z)) mod 2 ^ 40 = i * 2 ^ 35 + z"
    "(i * 2 ^ 35 + z) div 2 ^ 35 = i" if "z < 2 ^ 35" for z :: nat
    using i that by simp_all
  have ko: "unat (ea + off) div 2 ^ 40 = k" "unat ea div 2 ^ 40 = k" using d1 [OF of] d1 [of 0] by (simp_all add: e eo add.assoc)
  note w = dev_words [OF at ko(1)] and w0 = dev_words [OF at ko(2)]
  have ix: "dev_idx d (ea + off) = i" "dev_idx d ea = i"
    unfolding w(2) w0(2) using d1 [OF of] d1 [of 0] by (simp_all add: e eo add.assoc)
  have "k * 2 ^ 40 + i * 2 ^ 35 + unat off = unat off + 2 ^ 35 * (32 * k + i)" by simp
  then have "unat (dev_offset d (ea + off)) = unat off" unfolding w(3) eo using of by (simp only: mod_mult_self2 mod_less)
  then have "dev_offset d (ea + off) = off" by (simp add: word_unat_eq_iff)
  moreover have "length (iv_segments s) = MAX_SEGMENTS" using g by (simp add: good_def vm_wf_def)
  then have "segment_of s1 (ea + off) = Some (DeviceSegment (set_window i (window ra sz nonCI guarded) d))"
    using segment_of_set [OF _ k(1), of s _ "ea + off"] ko(1) by (simp add: 2(6))
  ultimately show ?thesis using ix ko len i 2(4) by (auto simp: MMIO_MAP_DEVICES_def)
qed (use ea in simp)

lemma window_size_word: "sz \<le> THIRTYTWO_GB \<Longrightarrow> ucast (dv_size (window ra sz nonCI guarded)) = sz"
proof -
  assume "sz \<le> THIRTYTWO_GB"
  then have s: "unat sz \<le> 2 ^ 35" by (simp add: THIRTYTWO_GB_def word_le_nat_alt)
  then have "take_bit 62 sz = sz" by (simp add: take_bit_eq_mod word_unat_eq_iff unat_mod)
  moreover have "(ucast (ucast sz :: 62 word) :: u64) = take_bit 62 sz" by (rule bit_word_eqI) (auto simp: bit_simps)
  ultimately show ?thesis by (simp add: window_def)
qed

lemma device_pteMiss:
  assumes g: "good (iv_blockList s) s" and d: "segment_of s va = Some (DeviceSegment d)"
  shows "\<exists>s'. pteMiss j t va store s = Inr (dev_offset d va < ucast (dv_size (iv_mmioMap d ! dev_idx d va)), s')
    \<and> good (iv_blockList s') s' \<and> skel s' = skel s
    \<and> (dev_offset d va < ucast (dv_size (iv_mmioMap d ! dev_idx d va)) \<longrightarrow> (\<exists>x. translate (ptm s') va = Some x \<and> dev_allows d va x))
    \<and> (\<not> dev_offset d va < ucast (dv_size (iv_mmioMap d ! dev_idx d va)) \<longrightarrow> s' = s)"
proof -
  obtain s' where s': "DeviceSegment_handlePageFault j d va s = Inr (dev_offset d va < ucast (dv_size (iv_mmioMap d ! dev_idx d va)), s')"
    "good (iv_blockList s) s'" "skel s' = skel s"
    "dev_offset d va < ucast (dv_size (iv_mmioMap d ! dev_idx d va)) \<longrightarrow> (\<exists>x. translate (ptm s') va = Some x \<and> dev_allows d va x)"
    "\<not> dev_offset d va < ucast (dv_size (iv_mmioMap d ! dev_idx d va)) \<longrightarrow> s' = s"
    using device_fault_good [OF g d] by blast
  then show ?thesis using d skelD(5) [OF s'(3)] by (simp add: pteMiss_def SegmentManager_handlePageFault_def)
qed

text \<open>A mapped window after it is unmapped: its slot is empty and nothing in it is translated.\<close>

lemma devUnmap_window:
  assumes g: "good L s" and d: "segment_of s ea = Some (DeviceSegment d)" and ne: "dv_size (iv_mmioMap d ! dev_idx d ea) \<noteq> 0"
  shows "\<exists>s'. SegmentManager_devUnmap ea s = Inr (0, s') \<and> good L s' \<and> iv_blockList s' = iv_blockList s
    \<and> (\<forall>va. unat va div 2 ^ 40 = unat ea div 2 ^ 40 \<and> dev_idx d va = dev_idx d ea \<longrightarrow> translate (ptm s') va = None
         \<and> (\<exists>d'. segment_of s' va = Some (DeviceSegment d') \<and> dev_idx d' va = dev_idx d ea \<and> dv_size (iv_mmioMap d' ! dev_idx d ea) = 0))"
proof -
  let ?k = "unat ea div 2 ^ 40" and ?i = "dev_idx d ea"
  let ?m = "(iv_mmioMap d ! ?i)\<lparr>dv_addr := 0, dv_size := 0, dv_guarded := False\<rparr>"
  obtain rc s' where r: "SegmentManager_devUnmap ea s = Inr (rc, s')" "good L s'" "iv_blockList s' = iv_blockList s"
    "rc = 0 \<longrightarrow> (\<exists>d. segment_of s ea = Some (DeviceSegment d) \<and> window_unused ?k d (dev_idx d ea) s')" "rc \<noteq> 0 \<longrightarrow> s' = s"
    using devUnmap_good [OF g, of ea] by blast
  have at: "dev_at ?k d" by (rule good_segment(1) [OF g d])
  have len: "length (iv_mmioMap d) = MMIO_MAP_DEVICES" by (rule good_segment(2) [OF g d])
  have k: "?k < MAX_SEGMENTS" "iv_segments s ! ?k = Some (DeviceSegment d)"
    using d by (auto simp: segment_of_def segment_id Let_def split: if_splits)
  have "seg_ok ?k (Some (DeviceSegment d))" using g k unfolding good_def vm_wf_def by metis
  then have kr: "MMIO_FIRST_SEGMENT_ID \<le> ?k" "?k \<le> MMIO_LAST_SEGMENT_ID" by (auto simp: seg_ok_def)
  obtain s1 where s1: "rc = 0" "s' = set_segment ?k (DeviceSegment (set_window ?i ?m d)) s1" "iv_segments s1 = iv_segments s"
  proof -
    obtain s1 where p: "pt_call (delRangePN (hrmor s) (dv_addr (iv_mmioMap d ! ?i) div page_size)
        ((dv_addr (iv_mmioMap d ! ?i) + ucast (dv_size (iv_mmioMap d ! ?i))) div page_size) False) s = Inr s1" "pt_quiet s s1"
      using vm_delRangePN_good [OF g] by metis
    have "rc = 0 \<and> s' = set_segment ?k (DeviceSegment (set_window ?i ?m d)) s1"
      using r(1) kr k(2) ne dev_words(1) [OF at refl] p(1)
      unfolding SegmentManager_devUnmap_def DeviceSegment_devUnmap_def segment_id Let_def set_window_def by simp
    then show thesis using that skelD(6) [OF quiet_fields(1) [OF p(2)]] by blast
  qed
  have un: "window_unused ?k d ?i s'" using r(4) s1(1) d by auto
  have seg: "segment_of s' va = Some (DeviceSegment (set_window ?i ?m d))" if "unat va div 2 ^ 40 = ?k" for va
    using segment_of_set [of s1 ?k _ va] that k(1) s1(2,3) g by (simp add: good_def vm_wf_def)
  have "iv_mmioMap (set_window ?i ?m d) ! ?i = ?m" using dev_words(5) [OF at refl] len by simp
  then show ?thesis using r(1-3) s1(1) un seg by (auto simp: window_unused_def)
qed

text \<open>C11. The life of a device window: when \<open>devMap\<close> answers an address, every page fault within the window's
  size is resolved to the device's page, cache-inhibited unless it was asked for otherwise; \<open>devUnmap\<close>
  of the address succeeds, and from then on no address of the window is translated and every fault
  on it is refused.\<close>

theorem device_window_life:
  assumes "vmreach s" and "vm_pre (DevMap ra sz nonCI guarded) s" and "SegmentManager_devMap ra sz nonCI guarded s = (ea, s1)"
    and "ea \<noteq> 0" and "off < sz"
  shows "\<exists>s2 x s3. pteMiss j t (ea + off) store s1 = Inr (True, s2) \<and> translate (ptm s2) (ea + off) = Some x
    \<and> ucast (fst x) = (ra + off) div page_size \<and> hw_access x = Inr (if nonCI then WRITABLE else CI_ACCESS)
    \<and> SegmentManager_devUnmap ea s2 = Inr (0, s3)
    \<and> (\<forall>z. z < sz \<longrightarrow> translate (ptm s3) (ea + z) = None \<and> pteMiss j t (ea + z) store s3 = Inr (False, s3))"
proof -
  have "vm_do (DevMap ra sz nonCI guarded) s = Inr s1" using assms(3) by simp
  then have "vmreach s1" by (rule vm_call [OF assms(1,2)])
  then have g1: "good (iv_blockList s1) s1" using vmreach_ok by (simp add: vm_ok_def)
  have g: "good (iv_blockList s) s" using vmreach_ok [OF assms(1)] by (simp add: vm_ok_def)
  obtain k d i where w: "segment_of s1 (ea + off) = Some (DeviceSegment (set_window i (window ra sz nonCI guarded) d))" "i < MMIO_MAP_DEVICES"
    "dev_idx d (ea + off) = i" "dev_offset d (ea + off) = off" "length (iv_mmioMap d) = MMIO_MAP_DEVICES"
    "unat (ea + off) div 2 ^ 40 = k" "unat ea div 2 ^ 40 = k" "dev_idx d ea = i" "sz \<le> THIRTYTWO_GB"
    using devMap_address [OF g assms(3-5)] by blast
  let ?d = "set_window i (window ra sz nonCI guarded) d"
  have slot: "iv_mmioMap ?d ! i = window ra sz nonCI guarded" using w(2,5) by simp
  note szw = window_size_word [OF w(9), of ra nonCI guarded]
  obtain s2 x where s2: "pteMiss j t (ea + off) store s1 = Inr (True, s2)" "good (iv_blockList s2) s2" "skel s2 = skel s1"
    "translate (ptm s2) (ea + off) = Some x" "dev_allows ?d (ea + off) x"
    using device_pteMiss [OF g1 w(1), of j t store] slot szw w(3,4) assms(5) by (simp del: split_paired_Ex) blast
  have fx: "ucast (fst x) = (ra + off) div page_size" "hw_access x = Inr (if nonCI then WRITABLE else CI_ACCESS)"
    using s2(5) w(3,4) slot by (simp_all add: dev_allows_def Let_def) (simp_all add: window_def)
  have sg: "segment_of s2 va = Some (DeviceSegment ?d)" if "unat va div 2 ^ 40 = k" for va
    using w(1,6) that skelD(6) [OF s2(3)] by (simp add: segment_of_def segment_id Let_def split: if_splits)
  have nz: "dv_size (iv_mmioMap ?d ! dev_idx ?d ea) \<noteq> 0" using slot szw w(8) assms(5) by auto
  obtain s3 where s3: "SegmentManager_devUnmap ea s2 = Inr (0, s3)" "good (iv_blockList s2) s3" "iv_blockList s3 = iv_blockList s2"
    "\<forall>va. unat va div 2 ^ 40 = k \<and> dev_idx ?d va = i \<longrightarrow> translate (ptm s3) va = None
       \<and> (\<exists>d'. segment_of s3 va = Some (DeviceSegment d') \<and> dev_idx d' va = i \<and> dv_size (iv_mmioMap d' ! i) = 0)"
    using devUnmap_window [OF s2(2) sg [OF w(7)] nz] w(7,8) by auto
  have "translate (ptm s3) (ea + z) = None \<and> pteMiss j t (ea + z) store s3 = Inr (False, s3)" if z: "z < sz" for z
  proof -
    obtain d2 i2 where "dev_idx d2 (ea + z) = i2" "unat (ea + z) div 2 ^ 40 = k" "dev_idx d2 ea = i2"
      "segment_of s1 (ea + z) = Some (DeviceSegment (set_window i2 (window ra sz nonCI guarded) d2))"
      using devMap_address [OF g assms(3,4) z] w(7) by auto
    moreover from this have "set_window i2 (window ra sz nonCI guarded) d2 = ?d"
      using w(1,6) by (simp add: segment_of_def segment_id Let_def split: if_splits)
    ultimately have m: "unat (ea + z) div 2 ^ 40 = k" "dev_idx ?d (ea + z) = i"
      using w(8) set_window_fields(3) by metis+
    then obtain d' where d': "segment_of s3 (ea + z) = Some (DeviceSegment d')" "dev_idx d' (ea + z) = i" "dv_size (iv_mmioMap d' ! i) = 0"
      using s3(4) by blast
    have g3: "good (iv_blockList s3) s3" using s3(2,3) by simp
    show ?thesis using device_pteMiss [OF g3 d'(1), of j t store] d'(2,3) s3(4) m by auto
  qed
  then show ?thesis using s2(1,4) fx s3(1) by blast
qed

lemma start_window:
  obtains s s1 where "vmreach s" "hrmor s1 = 0x100000000" "vm_pre (DevMap 0x600000000000 0x2000 False False) s"
    "SegmentManager_devMap 0x600000000000 0x2000 False False s = (0x20000000000, s1)"
proof -
  obtain s where s: "vmreach s" "iv_blockList s = []" "base_layout 7 0x2000 s" "hbCacheSize s = 0x3000" "hrmor s = 0x100000000"
    "\<forall>k<MAX_SEGMENTS. iv_segments s ! k = initial_segments k" by (rule start_example)
  have "iv_segments s ! 2 = Some (DeviceSegment (DeviceSegment_new 2))"
    using s(6) by (simp add: initial_segments_def MAX_SEGMENTS_def MMIO_LAST_SEGMENT_ID_def MMIO_FIRST_SEGMENT_ID_def)
  moreover have "free_slot 0 (iv_mmioMap (DeviceSegment_new 2)) = Some 0" by (simp add: DeviceSegment_new_def MMIO_MAP_DEVICES_def numeral_eq_Suc)
  moreover have "[MMIO_FIRST_SEGMENT_ID..<Suc MMIO_LAST_SEGMENT_ID] = 2 # [3..<11]"
    by (simp add: MMIO_LAST_SEGMENT_ID_def MMIO_FIRST_SEGMENT_ID_def upt_conv_Cons)
  moreover have "iv_baseAddress (DeviceSegment_new 2) = 0x20000000000" by (simp add: DeviceSegment_new_def segment_size_def SLBE_s_def)
  ultimately obtain s1 where "SegmentManager_devMap 0x600000000000 0x2000 False False s = (0x20000000000, s1)" "hrmor s1 = 0x100000000"
    using s(5) by (simp add: SegmentManager_devMap_def DeviceSegment_devMap_def THIRTYTWO_GB_def)
  moreover have "vm_pre (DevMap 0x600000000000 0x2000 False False) s" by (simp add: page_addr_iff)
  ultimately show thesis using that s(1) by blast
qed

theorem device_window_life_witness:
  "\<exists>s s1 s2 x s3. vmreach s \<and> SegmentManager_devMap 0x600000000000 0x2000 False False s = (0x20000000000, s1)
    \<and> pteMiss blank_pte None 0x20000001008 True s1 = Inr (True, s2) \<and> translate (ptm s2) 0x20000001008 = Some x
    \<and> (ucast (fst x) :: u64) = 0x600000001 \<and> hw_access x = Inr CI_ACCESS \<and> SegmentManager_devUnmap 0x20000000000 s2 = Inr (0, s3)"
proof -
  obtain s s1 where s: "vmreach s" "vm_pre (DevMap 0x600000000000 0x2000 False False) s"
    "SegmentManager_devMap 0x600000000000 0x2000 False False s = (0x20000000000, s1)" by (rule start_window)
  show ?thesis using device_window_life [OF s, of "0x1008" blank_pte None True] s(1,3)
    by (simp add: page_size_def del: split_paired_Ex) blast
qed


section \<open>Stacks\<close>

lemma unat_stack_key: "unat (stack_key va) = unat va div 2 ^ 23 * 2 ^ 23"
proof -
  have "stack_slot - 1 = mask 23" by (simp add: stack_slot_def mask_eq_exp_minus_1)
  then have "stack_key va = push_bit 23 (drop_bit 23 va)"
    by (simp add: stack_key_def) (rule bit_word_eqI, auto simp: bit_simps)
  moreover have "unat (push_bit 23 (drop_bit 23 va)) = unat va div 2 ^ 23 * 2 ^ 23"
    using unsigned_less [of va, where ?'a = nat]
    by (simp add: push_bit_eq_mult drop_bit_eq_div unat_word_ariths unat_div)
  ultimately show ?thesis by simp
qed

lemma stack_addr:
  assumes "stack_bottom t \<le> va" "va \<le> stack_top t + 7"
  shows "unat t * 2 ^ 23 + 2 ^ 40 + 64 * 1024 \<le> unat va" "unat va + 192 * 1024 \<le> unat t * 2 ^ 23 + 2 ^ 40 + 2 ^ 23" "stack_key va = stack_base t"
proof -
  have t: "unat t < 2 ^ 16" using unsigned_less [of t, where ?'a = nat] by simp
  have m: "unat t mod 61 \<le> 60" by simp
  have tp: "unat (stack_top t + 7) = unat (stack_bottom t) + 256 * 1024 - 1" using t m stack_words(2,3) [of t] by (simp add: unat_word_ariths)
  then have b: "unat (stack_bottom t) \<le> unat va" "unat va \<le> unat (stack_bottom t) + 256 * 1024 - 1"
    using assms by (simp_all add: word_le_nat_alt)
  then show lo: "unat t * 2 ^ 23 + 2 ^ 40 + 64 * 1024 \<le> unat va" by (simp add: stack_words(2))
  show hi: "unat va + 192 * 1024 \<le> unat t * 2 ^ 23 + 2 ^ 40 + 2 ^ 23" using b m by (simp add: stack_words(2))
  have "unat va div 2 ^ 23 = unat t + 2 ^ 17" using lo hi by (intro div_nat_eqI) simp_all
  then show "stack_key va = stack_base t" by (simp add: word_unat_eq_iff unat_stack_key stack_words(1))
qed

text \<open>C37. Stacks do not meet: every address of the stack of a task lies in the 8 MB slot of that task, at
  least 64 KB from its start and 192 KB from its end, in the stack segment, and in the stack of no other
  task; the slot is where the segment looks for it.\<close>

theorem stack_layout:
  assumes "stack_bottom t \<le> va" and "va \<le> stack_top t + 7"
  shows "stack_key va = stack_base t \<and> unat (stack_base t) + 64 * 1024 \<le> unat va
    \<and> unat va + 192 * 1024 \<le> unat (stack_base t) + 8 * 1024 * 1024 \<and> getSegmentIdFromAddress va = 1
    \<and> (\<forall>u. u \<noteq> t \<longrightarrow> \<not> (stack_bottom u \<le> va \<and> va \<le> stack_top u + 7))"
proof -
  note a = stack_addr [OF assms]
  have t: "unat t < 2 ^ 16" using unsigned_less [of t, where ?'a = nat] by simp
  have "unat va div 2 ^ 40 = 1" using a(1,2) t by (intro div_nat_eqI) simp_all
  moreover have "u = t" if "stack_bottom u \<le> va" "va \<le> stack_top u + 7" for u
  proof -
    have "stack_base u = stack_base t" using stack_addr(3) [OF that] a(3) by simp
    then have "unat (stack_base u) = unat (stack_base t)" by simp
    then show ?thesis unfolding stack_words(1) by (simp add: word_unat_eq_iff)
  qed
  ultimately show ?thesis using a by (auto simp: segment_id stack_words(1))
qed

theorem stack_layout_witness:
  "stack_key (stack_top 9) = stack_base 9 \<and> unat (stack_base 9) + 64 * 1024 \<le> unat (stack_top 9)"
proof -
  have "unat (stack_bottom 9) \<le> unat (stack_top 9)" "unat (stack_top 9 + 7) = unat (stack_top 9) + 7"
    using stack_words [of 9] by (simp_all add: unat_word_ariths)
  then show ?thesis using stack_layout [of 9 "stack_top 9"] by (simp add: word_le_nat_alt)
qed

lemma stack_segment_refuses:
  assumes "segment_of s va = Some StackSegment" "map_of (iv_blockList s) (stack_key va) = None"
  shows "pteMiss j t va store s = Inr (False, s)"
  using assms by (simp add: pteMiss_def SegmentManager_handlePageFault_def StackSegment_handlePageFault_def)

text \<open>C12. Guard pages: when the stack of a task has been created, a fault on any other address of the
  task's slot, just below the stack or above it, is refused.\<close>

theorem stack_guard:
  assumes "vmreach s" and "vm_pre (CreateStack p t) s" and "segment_of s va = Some StackSegment"
    and "stack_key va = stack_base t" and "\<not> (stack_bottom t \<le> va \<and> va \<le> stack_top t + 7)"
  shows "\<exists>s1. createStack p t s = Inr (stack_top t, s1) \<and> vmreach s1 \<and> pteMiss j task va store s1 = Inr (False, s1)"
proof -
  have g: "good (iv_blockList s) s" using vmreach_ok [OF assms(1)] by (simp add: vm_ok_def)
  obtain s1 where s1: "createStack p t s = Inr (stack_top t, s1)" "iv_blockList s1 = (stack_base t, p) # iv_blockList s"
    "iv_segments s1 = iv_segments s" "shape (blk s1 p) = shape (Block_init (stack_bottom t) (256 * 1024) False False)"
    using createStack_good [OF g, of p t] assms(2) by auto
  have "vmreach s1" by (rule vm_call [OF assms(1,2)]) (simp add: s1(1))
  moreover have sg: "segment_of s1 va = Some StackSegment" using assms(3) by (simp add: segment_of_def s1(3) Let_def split: if_splits)
  have "unat (stack_bottom t + 256 * 1024) = unat (stack_bottom t) + 256 * 1024" "unat (stack_top t + 7) = unat (stack_bottom t) + 256 * 1024 - 1"
    using stack_words(2,3) [of t] unsigned_less [of t, where ?'a = nat] by (simp_all add: unat_word_ariths)
  then have "\<not> isContained (blk s1 p) va" using assms(5) shapeD(7) [OF s1(4), of va]
    by (auto simp: isContained_def Block_init_def word_le_nat_alt word_less_nat_alt)
  then have "pteMiss j task va store s1 = Inr (False, s1)"
    using sg s1(2) assms(4) find_none_fault [of s1 "[p]" va j task store True]
    by (simp add: pteMiss_def SegmentManager_handlePageFault_def StackSegment_handlePageFault_def)
  ultimately show ?thesis using s1(1) by blast
qed

lemma start_stack:
  obtains s where "vmreach s" "iv_blockList s = []" "vm_pre (CreateStack 9 4) s" "\<forall>va. unat va div 2 ^ 40 = 1 \<longrightarrow> segment_of s va = Some StackSegment"
proof -
  obtain s where s: "vmreach s" "iv_blockList s = []" "base_layout 7 0x2000 s" "hbCacheSize s = 0x3000" "hrmor s = 0x100000000"
    "\<forall>k<MAX_SEGMENTS. iv_segments s ! k = initial_segments k" by (rule start_example)
  then have "vm_pre (CreateStack 9 4) s" by (simp add: fresh_def base_layout_def)
  moreover have "segment_of s va = Some StackSegment" if "unat va div 2 ^ 40 = 1" for va
    using that s(6) by (simp add: segment_of_def segment_id Let_def MAX_SEGMENTS_def initial_segments_def)
  ultimately show thesis using that s(1,2) by blast
qed

theorem stack_guard_witness:
  "\<exists>s s1. vmreach s \<and> createStack 9 4 s = Inr (stack_top 4, s1) \<and> pteMiss blank_pte None (stack_bottom 4 - 8) True s1 = Inr (False, s1)"
proof -
  obtain s where s: "vmreach s" "iv_blockList s = []" "vm_pre (CreateStack 9 4) s"
    "\<forall>va. unat va div 2 ^ 40 = 1 \<longrightarrow> segment_of s va = Some StackSegment" by (rule start_stack)
  have "stack_bottom 4 - 8 = 0x1000208FFF8" "stack_bottom 4 = 0x10002090000" "stack_base 4 = 0x10002000000"
    by (simp_all add: stack_bottom_def stack_base_def stack_slot_def VMM_VADDR_STACK_SEGMENT_def segment_size_def SLBE_s_def)
  moreover have "stack_key 0x1000208FFF8 = 0x10002000000" by (simp add: stack_key_def stack_slot_def)
  ultimately show ?thesis using stack_guard [OF s(1,3) s(4) [rule_format, of "stack_bottom 4 - 8"], of blank_pte None True] s(1) by auto
qed

text \<open>C13. A deleted stack is gone: deleting the stack of a task never fails, keeps the stacks of the
  others, and afterwards no address of the task's slot is translated and every fault on it is refused.\<close>

theorem stack_deleted_unmapped:
  assumes "vmreach s" and "vm_pre (DeleteStack t) s"
  shows "\<exists>s1. deleteStack t s = Inr s1 \<and> vmreach s1
    \<and> (\<forall>k. map_of (iv_blockList s1) k = (if k = stack_base t then None else map_of (iv_blockList s) k))
    \<and> (\<forall>va. segment_of s1 va = Some StackSegment \<and> stack_key va = stack_base t \<longrightarrow>
         translate (ptm s1) va = None \<and> pteMiss j task va store s1 = Inr (False, s1))"
proof -
  have g: "good (iv_blockList s) s" using vmreach_ok [OF assms(1)] by (simp add: vm_ok_def)
  obtain s1 where s1: "deleteStack t s = Inr s1" "good (iv_blockList s1) s1" "iv_blockList s1 = alist_erase (stack_base t) (iv_blockList s)"
    using deleteStack_good [OF g, of t] assms(2) by auto
  have r: "vmreach s1" by (rule vm_call [OF assms]) (simp add: s1(1))
  have "distinct (map fst (iv_blockList s))" using g by (simp add: good_def vm_wf_def)
  then have m: "map_of (iv_blockList s1) k = (if k = stack_base t then None else map_of (iv_blockList s) k)" for k
    by (simp add: s1(3) map_of_erase)
  have "translate (ptm s1) va = None \<and> pteMiss j task va store s1 = Inr (False, s1)"
    if a: "segment_of s1 va = Some StackSegment" "stack_key va = stack_base t" for va
  proof -
    have n: "map_of (iv_blockList s1) (stack_key va) = None" using m a(2) by simp
    then have "\<not> allowed (iv_blockList s1) s1 va x" for x using a(1) by (simp add: allowed_def governs_def chain_of_def)
    then show ?thesis using good_allowed [OF s1(2), of va] stack_segment_refuses [OF a(1) n] by (cases "translate (ptm s1) va") auto
  qed
  then show ?thesis using s1(1) r m by blast
qed

theorem stack_deleted_unmapped_witness:
  "\<exists>s s1. vmreach s \<and> map_of (iv_blockList s) (stack_base 4) = Some 9 \<and> deleteStack 4 s = Inr s1
    \<and> map_of (iv_blockList s1) (stack_base 4) = None"
proof -
  obtain s0 where s0: "vmreach s0" "iv_blockList s0 = []" "vm_pre (CreateStack 9 4) s0" by (rule start_stack)
  have g: "good (iv_blockList s0) s0" using vmreach_ok [OF s0(1)] by (simp add: vm_ok_def)
  obtain s where s: "createStack 9 4 s0 = Inr (stack_top 4, s)" "iv_blockList s = (stack_base 4, 9) # iv_blockList s0"
    using createStack_good [OF g, of 9 4] s0(3) by auto
  have r: "vmreach s" by (rule vm_call [OF s0(1,3)]) (simp add: s(1))
  have "vm_pre (DeleteStack 4) s" by (simp add: s(2))
  from stack_deleted_unmapped [OF r this, of blank_pte None True] obtain s1 where
    "deleteStack 4 s = Inr s1" "map_of (iv_blockList s1) (stack_base 4) = None" by auto
  moreover have "map_of (iv_blockList s) (stack_base 4) = Some 9" by (simp add: s(2))
  ultimately show ?thesis using r by blast
qed

section \<open>Permissions\<close>

text \<open>The types of access that a caller can ask for, for a block with or without a write handler.\<close>

definition grantable :: "bool \<Rightarrow> u64 set" where
  "grantable has_wr = {NO_ACCESS, READ_ONLY, WRITABLE, EXECUTABLE, WRITABLE OR ALLOCATE_FROM_ZERO, EXECUTABLE OR ALLOCATE_FROM_ZERO}
     \<union> (if has_wr then {WRITABLE OR WRITE_TRACKED, WRITABLE OR WRITE_TRACKED OR ALLOCATE_FROM_ZERO} else {})"

lemmas perm_bits = NO_ACCESS_def READ_ONLY_def WRITABLE_def EXECUTABLE_def ALLOCATE_FROM_ZERO_def WRITE_TRACKED_def

lemma setPermSPTE_more:
  "setPermSPTE w NO_ACCESS q = (0, q\<lparr>sp_readable := False, sp_executable := False, sp_writable := False,
     sp_track_write := False, sp_allocate_from_zero := False\<rparr>)"
  "setPermSPTE w (EXECUTABLE OR ALLOCATE_FROM_ZERO) q = (0, q\<lparr>sp_readable := True, sp_writable := False, sp_executable := True,
     sp_track_write := False, sp_allocate_from_zero := True\<rparr>)"
  "setPermSPTE True (WRITABLE OR WRITE_TRACKED) q = (0, q\<lparr>sp_readable := True, sp_writable := True, sp_executable := False,
     sp_track_write := True, sp_allocate_from_zero := False\<rparr>)"
  "setPermSPTE True (WRITABLE OR WRITE_TRACKED OR ALLOCATE_FROM_ZERO) q = (0, q\<lparr>sp_readable := True, sp_writable := True, sp_executable := False,
     sp_track_write := True, sp_allocate_from_zero := True\<rparr>)"
  by (simp_all add: setPermSPTE_def Let_def getPermission_def perm_bits)

lemma perm_values:
  "fst (setPermSPTE w NO_ACCESS q) = 0 \<and> getPermission (snd (setPermSPTE w NO_ACCESS q)) = NO_ACCESS"
  "fst (setPermSPTE w READ_ONLY q) = 0 \<and> getPermission (snd (setPermSPTE w READ_ONLY q)) = READ_ONLY"
  "fst (setPermSPTE w WRITABLE q) = 0 \<and> getPermission (snd (setPermSPTE w WRITABLE q)) = WRITABLE"
  "fst (setPermSPTE w EXECUTABLE q) = 0 \<and> getPermission (snd (setPermSPTE w EXECUTABLE q)) = EXECUTABLE"
  "fst (setPermSPTE w (WRITABLE OR ALLOCATE_FROM_ZERO) q) = 0
     \<and> getPermission (snd (setPermSPTE w (WRITABLE OR ALLOCATE_FROM_ZERO) q)) = WRITABLE OR ALLOCATE_FROM_ZERO"
  "fst (setPermSPTE w (EXECUTABLE OR ALLOCATE_FROM_ZERO) q) = 0
     \<and> getPermission (snd (setPermSPTE w (EXECUTABLE OR ALLOCATE_FROM_ZERO) q)) = EXECUTABLE OR ALLOCATE_FROM_ZERO"
  "fst (setPermSPTE True (WRITABLE OR WRITE_TRACKED) q) = 0
     \<and> getPermission (snd (setPermSPTE True (WRITABLE OR WRITE_TRACKED) q)) = WRITABLE OR WRITE_TRACKED"
  "fst (setPermSPTE True (WRITABLE OR WRITE_TRACKED OR ALLOCATE_FROM_ZERO) q) = 0
     \<and> getPermission (snd (setPermSPTE True (WRITABLE OR WRITE_TRACKED OR ALLOCATE_FROM_ZERO) q)) = WRITABLE OR WRITE_TRACKED OR ALLOCATE_FROM_ZERO"
  unfolding setPermSPTE_simps setPermSPTE_more by (simp_all add: getPermission_def)

lemma perm_refused:
  "setPermSPTE False (WRITABLE OR WRITE_TRACKED) q = (- EINVAL, q\<lparr>sp_readable := True, sp_writable := True, sp_executable := False\<rparr>)"
  "setPermSPTE w (WRITABLE OR EXECUTABLE) q = (- EINVAL, q)"
  by (simp_all add: setPermSPTE_def Let_def perm_bits)

text \<open>C38. Permissions are read back as they were set: for each of these types \<open>setPermSPTE\<close> succeeds, and
  \<open>getPermission\<close> of the entry gives the type that was set, whatever the entry granted before. Writable
  together with executable is refused and leaves the entry as it is; tracking without a write handler is
  refused too, but by then the entry is writable.\<close>

theorem permission_round_trip:
  "(t \<in> grantable has_wr \<longrightarrow> fst (setPermSPTE has_wr t q) = 0 \<and> getPermission (snd (setPermSPTE has_wr t q)) = t)
   \<and> setPermSPTE False (WRITABLE OR WRITE_TRACKED) q = (- EINVAL, q\<lparr>sp_readable := True, sp_writable := True, sp_executable := False\<rparr>)
   \<and> setPermSPTE has_wr (WRITABLE OR EXECUTABLE) q = (- EINVAL, q)"
proof -
  have "fst (setPermSPTE has_wr t q) = 0 \<and> getPermission (snd (setPermSPTE has_wr t q)) = t" if "t \<in> grantable has_wr"
    using that unfolding grantable_def by (auto simp only: Un_iff insert_iff empty_iff perm_values split: if_splits)
  then show ?thesis using perm_refused by blast
qed

theorem permission_round_trip_witness:
  "WRITABLE OR WRITE_TRACKED \<in> grantable True
   \<and> getPermission (snd (setPermSPTE True (WRITABLE OR WRITE_TRACKED) spte_init)) = WRITABLE OR WRITE_TRACKED"
  using permission_round_trip [of "WRITABLE OR WRITE_TRACKED" True spte_init] by (simp add: grantable_def)

lemma perm_loop_leaves:
  assumes t: "t \<in> {WRITABLE, EXECUTABLE, READ_ONLY, WRITABLE OR ALLOCATE_FROM_ZERO}"
  shows "good L s \<Longrightarrow> block_ok (blk s p) \<Longrightarrow> \<exists>va\<in>set vas. \<not> isContained (blk s p) va \<Longrightarrow> perm_loop p t vas s = Inl OutOfBounds"
proof (induction vas arbitrary: s)
  case (Cons va vas)
  show ?case
  proof (cases "isContained (blk s p) va")
    case False
    then have "getPTE (blk s p) va \<noteq> Inr i" for i using getPTE_D(1) [OF Cons.prems(2)] by blast
    moreover have "getPTE (blk s p) va = Inl OutOfBounds \<or> (\<exists>i. getPTE (blk s p) va = Inr i)" by (simp add: getPTE_def Let_def)
    ultimately have "getPTE (blk s p) va = Inl OutOfBounds" by blast
    then show ?thesis by simp
  next
    case True
    obtain i where i: "getPTE (blk s p) va = Inr i" "i < length (iv_ptes (blk s p))" using getPTE_contained [OF Cons.prems(2) True] by blast
    obtain s1 where s1: "(if sp_present (spte_at s p i) then vm_delEntry va s else Inr s) = Inr s1" "evolves L s s1" "unused L s1 p i"
      using delEntry_unused [OF Cons.prems(1,2) i(1)] evolves_refl [OF Cons.prems(1)] unused_absent [OF Cons.prems(1)]
      by (cases "sp_present (spte_at s p i)") auto
    obtain rc s2 where s2: "set_perm p i t s1 = (rc, s2)" by fastforce
    have e2: "evolves L s1 s2"
      using set_perm_evolves(1) [OF evolvesD(1) [OF s1(2)] _ s1(3) s2] i(2) evolves_fields(3) [OF s1(2)] by simp
    have e: "evolves L s s2" by (rule evolves_trans [OF s1(2) e2])
    have "rc = 0" using s2 setPermSPTE_ok [OF t] by (auto simp: set_perm_def split: prod.splits) (metis fst_conv)
    moreover have "\<exists>va\<in>set vas. \<not> isContained (blk s2 p) va" using Cons.prems(3) True evolves_fields(5) [OF e] by auto
    then have "perm_loop p t vas s2 = Inl OutOfBounds"
      using Cons.IH [OF evolvesD(1) [OF e]] Cons.prems(2) evolves_fields(4) [OF e] by simp
    ultimately show ?thesis using i(1) s1(1) s2 by simp
  qed
qed simp

text \<open>C39. Setting permissions runs out of the block: \<open>mmSetPermission\<close> only looks for the block of the start
  address. When the range goes on behind the end of that block, the loop goes on to entries behind the
  end of the block's shadow table.\<close>

theorem setPermission_past_end:
  assumes "vmreach s" and "find_block s (base_chain s) (page_addr va) = Some p" and "unat sz < 2 ^ 41" and "sz \<noteq> 0"
    and "t \<in> {WRITABLE, EXECUTABLE, READ_ONLY, WRITABLE OR ALLOCATE_FROM_ZERO}"
    and "unat (iv_baseAddr (blk s p)) + unat (iv_size (blk s p)) < unat (page_addr va) + unat sz" and "unat va < 2 ^ 62"
  shows "BaseSegment_mmSetPermission va sz t s = Inl OutOfBounds"
proof -
  have g: "good (iv_blockList s) s" using vmreach_ok [OF assms(1)] by (simp add: vm_ok_def)
  have c: "p \<in> set (base_chain s)" "isContained (blk s p) (page_addr va)" using find_block_Some [OF assms(2)] by auto
  have b: "block_ok (blk s p)" using vm_wf_block [OF good_usage(2) [OF g]] c(1) by blast
  let ?e = "iv_baseAddr (blk s p) + iv_size (blk s p)" and ?hi = "page_addr va + ALIGN_PAGE_UP sz"
  have ue: "unat ?e = unat (iv_baseAddr (blk s p)) + unat (iv_size (blk s p))" using b by (simp add: block_ok_def unat_word_ariths)
  have up: "unat sz \<le> unat (ALIGN_PAGE_UP sz)" "unat (ALIGN_PAGE_UP sz) < 2 ^ 62" using align_page_up(1) [OF assms(3)] assms(3) by auto
  have "unat (page_addr va) \<le> unat va" by (simp add: unat_page_addr)
  then have uh: "unat ?hi = unat (page_addr va) + unat (ALIGN_PAGE_UP sz)" using assms(7) up(2) by (simp add: unat_word_ariths)
  have "page_addr ?e = ?e" using block_bounds(3) [OF b] by (simp add: page_addr_iff)
  moreover have "page_addr va \<le> ?e" using c(2) by (auto simp: isContained_def intro: less_imp_le)
  moreover have "?e < ?hi" using assms(6) up(1) ue uh by (simp add: word_less_nat_alt)
  ultimately have "?e \<in> set (page_list (page_addr va) ?hi)" by (intro page_list_complete) simp_all
  moreover have "\<not> isContained (blk s p) ?e" by (simp add: isContained_def)
  ultimately have "perm_loop p t (page_list (page_addr va) ?hi) s = Inl OutOfBounds" using perm_loop_leaves [OF assms(5) g b] by blast
  then show ?thesis using assms(2,4) by (simp add: BaseSegment_mmSetPermission_def Block_mmSetPermission_def align_page Let_def)
qed

theorem setPermission_past_end_witness:
  "\<exists>s. vmreach s \<and> find_block s (base_chain s) 0x1000 = Some 7 \<and> BaseSegment_mmSetPermission 0x1000 0x3000 WRITABLE s = Inl OutOfBounds"
proof -
  obtain s where s: "vmreach s" "iv_blockList s = []" "base_layout 7 0x2000 s" "hbCacheSize s = 0x3000" "hrmor s = 0x100000000"
    "\<forall>k<MAX_SEGMENTS. iv_segments s ! k = initial_segments k" by (rule start_example)
  have sh: "shape (blk s 7) = shape (Block_init 0 0x3000 False False)" using s(3,4) by (simp add: base_layout_def)
  have z: "iv_baseAddr (blk s 7) = 0" "iv_size (blk s 7) = 0x3000" using shapeD(1,2) [OF sh] by (simp_all add: Block_init_def)
  have f: "find_block s (base_chain s) 0x1000 = Some 7" using s(3) z by (simp add: base_layout_def isContained_def)
  moreover have "page_addr 0x1000 = 0x1000" by (simp add: page_addr_iff)
  ultimately show ?thesis using setPermission_past_end [OF s(1), of "0x1000" 7 "0x3000" WRITABLE] s(1) z by auto
qed

section \<open>Linear maps\<close>

lemma linear_frame_word: "(ucast (linear_frame va) :: u64) = va mod 2 ^ 32 div page_size"
proof -
  have "(ucast (linear_frame va) :: u64) = drop_bit 12 (take_bit 32 va)"
    by (rule bit_word_eqI) (auto simp: linear_frame_def bit_simps)
  then show ?thesis by (simp add: drop_bit_eq_div take_bit_eq_mod page_size_def)
qed

lemma sfold_cong: "(\<And>x s. x \<in> set xs \<Longrightarrow> f x s = h x s) \<Longrightarrow> sfold f xs s = sfold h xs s"
proof (induction xs arbitrary: s)
  case (Cons x xs)
  then show ?case by (cases "h x s") auto
qed simp

text \<open>What a linear map that returned 0 leaves behind, if no other block was in its way.\<close>

lemma linear_map_state:
  assumes g: "good L s" and f: "fresh L p s" and z: "unat sz < 2 ^ 41" and r: "mmLinearMap p pa sz s = Inr (0, s1)"
    and nz: "pa \<noteq> 0" and free: "\<forall>w. pa \<le> w \<and> w < pa + sz \<longrightarrow> find_block s (base_chain s) w = None"
  shows "good L s1" "page_addr pa = pa" "iv_segments s1 = iv_segments s" "iv_mappedToPhysical (blk s1 p)"
    "\<And>w. pa \<le> w \<Longrightarrow> w < pa + sz \<Longrightarrow> find_block s1 (base_chain s1) w = Some p"
    "\<And>w. w \<in> set (page_list pa (pa + sz)) \<Longrightarrow> mapped_at s1 p w WRITABLE"
proof -
  obtain rc s0 where s0: "mmAllocBlock p False pa sz True s = Inr (rc, s0)" using mmAllocBlock_total by blast
  note m = mmAllocBlock_good [OF g f z s0]
  have "rc = 0" using r s0 by (cases "rc = 0") (simp_all add: mmLinearMap_def)
  then have a: "good L s0" "base_chain s0 = base_chain s @ [p]" "blk s0 p = Block_init pa (ALIGN_PAGE_UP sz) False True"
    "page_addr pa = pa" "unat pa < 2 ^ 40" "\<forall>q. q \<noteq> p \<longrightarrow> blk s0 q = blk s q" using m by auto
  have sg0: "iv_segments s0 = iv_segments s" using s0 by (auto simp: mmAllocBlock_def split: if_splits)
  have l: "sfold set_linear (page_list pa (pa + sz)) s0 = Inr s1" using r s0 \<open>rc = 0\<close> by (auto simp: mmLinearMap_def sbind_Inr_iff)
  have up: "unat sz \<le> unat (ALIGN_PAGE_UP sz)" "unat (ALIGN_PAGE_UP sz) < 2 ^ 62" using align_page_up(1) [OF z] z by auto
  have u: "unat (pa + sz) = unat pa + unat sz" "unat (pa + ALIGN_PAGE_UP sz) = unat pa + unat (ALIGN_PAGE_UP sz)"
    using a(5) z up(2) by (simp_all add: unat_word_ariths)
  have np: "p \<notin> set (base_chain s)" using f by (simp add: fresh_def)
  have fb: "find_block s0 (base_chain s0) w = Some p" if "pa \<le> w" "w < pa + sz" for w
  proof -
    have "find_block s0 ps w = find_block s ps w" if "p \<notin> set ps" for ps using that a(6) by (induction ps) auto
    moreover have "isContained (blk s0 p) w" using that u up(1) by (simp add: a(3) isContained_def Block_init_def word_le_nat_alt word_less_nat_alt)
    ultimately show ?thesis using free that np by (simp add: a(2) find_block_append)
  qed
  have "blank (Block_init pa (ALIGN_PAGE_UP sz) False True)"
    by (rule new_block_ok) (use a(4,5) align_page_up(2) [OF z] up(2) in simp_all)
  then have b: "block_ok (blk s0 p)" by (simp add: a(3) blank_def)
  let ?vas = "page_list pa (pa + sz)"
  have w0: "w \<noteq> 0" if "w \<in> set ?vas" for w using page_list_bounds [OF that] nz by auto
  have "sfold (map_linear (\<lambda>_. WRITABLE)) ?vas s0 = sfold set_linear ?vas s0"
    by (rule sfold_cong) (simp add: map_linear_def set_linear_def w0)
  moreover have fv: "find_block s0 (base_chain s0) w = Some p" if "w \<in> set ?vas" for w using fb page_list_bounds [OF that] by blast
  ultimately have e: "evolves L s0 s1" "\<forall>w\<in>set ?vas. w \<noteq> 0 \<longrightarrow> mapped_at s1 p w WRITABLE"
    using map_linear_loop [of "\<lambda>_. WRITABLE" L s0 p ?vas, OF _ a(1) b page_list_distinct fv] l by auto
  show "good L s1" "page_addr pa = pa" "iv_segments s1 = iv_segments s" "iv_mappedToPhysical (blk s1 p)"
    using evolvesD(1) [OF e(1)] a(4) sg0 skelD(6) [OF evolvesD(2) [OF e(1)]] shapeD(6) [OF evolves_fields(2) [OF e(1), of p]] a(3)
    by (simp_all add: Block_init_def)
  show "find_block s1 (base_chain s1) w = Some p" if "pa \<le> w" "w < pa + sz" for w
    using fb [OF that] evolves_fields(1,7) [OF e(1)] by simp
  show "mapped_at s1 p w WRITABLE" if "w \<in> set ?vas" for w using e(2) that w0 by blast
qed

text \<open>C40. Linear maps: after a successful \<open>mmLinearMap\<close> of a range that no block overlaps, every page fault in it
  is resolved without the offset register, with write access for a store, to the page of the
  address modulo 4 GB. So a range below 4 GB is mapped to itself, and one above is not.\<close>

theorem linear_map_modulo:
  assumes "vmreach s" and "vm_pre (LinearMap p pa sz) s" and "mmLinearMap p pa sz s = Inr (0, s1)" and "pa \<noteq> 0"
    and "\<forall>w. pa \<le> w \<and> w < pa + sz \<longrightarrow> find_block s (base_chain s) w = None"
    and "segment_of s va = Some BaseSegment" and "pa \<le> va" and "va < pa + sz"
  shows "\<exists>s2 x. pteMiss j t va store s1 = Inr (True, s2) \<and> translate (ptm s2) va = Some x
    \<and> ucast (fst x) = va mod 2 ^ 32 div page_size \<and> (store \<longrightarrow> hw_access x = Inr WRITABLE)"
proof -
  have g: "good (iv_blockList s) s" using vmreach_ok [OF assms(1)] by (simp add: vm_ok_def)
  have pre: "fresh (iv_blockList s) p s" "unat sz < 2 ^ 41" using assms(2) by auto
  note st = linear_map_state [OF g pre assms(3,4) assms(5)]
  have sg: "segment_of s1 va = Some BaseSegment" using assms(6) st(3) by (simp add: segment_of_def Let_def split: if_splits)
  have "unat pa \<le> unat (page_addr va)"
  proof -
    have "unat pa div 4096 \<le> unat va div 4096" using assms(7) by (simp add: word_le_nat_alt div_le_mono)
    then show ?thesis using st(2) page_aligned [of pa] by (simp add: unat_page_addr pno_def)
  qed
  moreover have "unat (page_addr va) \<le> unat va" by (simp add: unat_page_addr)
  ultimately have "page_addr va \<in> set (page_list pa (pa + sz))"
    using st(2) assms(8) by (intro page_list_complete) (simp_all add: word_le_nat_alt word_less_nat_alt)
  then have "mapped_at s1 p (page_addr va) WRITABLE" by (rule st(6))
  from mapped_fault [OF st(1) sg st(5) [OF assms(7,8)] this, of store j t] show ?thesis
    using st(4) by (auto simp: linear_frame_word simp del: split_paired_Ex)
qed

theorem linear_map_modulo_witness:
  "\<exists>s s1 s2 x. vmreach s \<and> mmLinearMap 9 0x100005000 0x1000 s = Inr (0, s1) \<and> pteMiss blank_pte None 0x100005000 True s1 = Inr (True, s2)
    \<and> translate (ptm s2) 0x100005000 = Some x \<and> (ucast (fst x) :: u64) = 5"
proof -
  obtain s where s: "vmreach s" "iv_blockList s = []" "base_layout 7 0x2000 s" "hbCacheSize s = 0x3000" "hrmor s = 0x100000000"
    "\<forall>k<MAX_SEGMENTS. iv_segments s ! k = initial_segments k" by (rule start_example)
  have g: "good (iv_blockList s) s" using vmreach_ok [OF s(1)] by (simp add: vm_ok_def)
  have sh: "shape (blk s 7) = shape (Block_init 0 0x3000 False False)" using s(3,4) by (simp add: base_layout_def)
  have z: "iv_baseAddr (blk s 7) = 0" "iv_size (blk s 7) = 0x3000" using shapeD(1,2) [OF sh] by (simp_all add: Block_init_def)
  have ch: "base_chain s = [7]" using s(3) by (simp add: base_layout_def)
  have fr: "find_block s (base_chain s) w = None" if "0x100005000 \<le> w" for w
    using that by (simp add: ch isContained_def z word_le_nat_alt word_less_nat_alt)
  have pre: "vm_pre (LinearMap 9 0x100005000 0x1000) s" using s(2) by (simp add: fresh_def ch)
  have "\<exists>s0. mmAllocBlock 9 False 0x100005000 0x1000 True s = Inr (0, s0)"
    using fr [of "0x100005000"]
    by (simp add: mmAllocBlock_def totalBlocksAlloc_def ch z segment_size_def SLBE_s_def ALIGN_PAGE_UP_def ALIGN_PAGE_DOWN_def page_size_def)
  moreover obtain rc s1 where s1: "mmLinearMap 9 0x100005000 0x1000 s = Inr (rc, s1)"
    using mmLinearMap_good [OF g, of 9 "0x1000" "0x100005000"] pre by auto
  ultimately have "rc = 0" by (auto simp: mmLinearMap_def sbind_Inr_iff)
  moreover have "segment_of s 0x100005000 = Some BaseSegment"
    using s(6) by (intro base_segment_of) (simp_all add: initial_segments_def MAX_SEGMENTS_def)
  ultimately show ?thesis
    using linear_map_modulo [OF s(1) pre, of s1 "0x100005000" blank_pte None True] fr s1 s(1)
    by (simp add: page_size_def del: split_paired_Ex) blast
qed

end
