(* ===== verification/Splay_Tree.thy ===== *)
theory Splay_Tree
  imports HB_Prelude "HOL-Library.Tree" "HOL-Library.Monad_Syntax"
begin

text \<open>
  The splay tree under \<open>std::map\<close>, \<open>lib/splaytree.C\<close> and \<open>include/util/impl/splaytree.H\<close>, at the level
  of its pointers: a node has a parent and two children, and the header of a tree holds the root, the
  first and the last node and the number of nodes. All trees share one memory of nodes. The data of a
  node is a pair of key and value, as in \<open>std::map\<close>, and the comparator is the one of
  \<open>include/util/impl/stlmap.H\<close>. The recursive mutex of a tree makes each operation atomic. The recursions
  of the source are partial functions, since they do not end on a cyclic structure.
\<close>

section \<open>Nodes\<close>

datatype DIRECTION = LEFT | RIGHT

fun opp :: "DIRECTION \<Rightarrow> DIRECTION" where
  "opp LEFT = RIGHT"
| "opp RIGHT = LEFT"

record 'd tnode =
  tparent :: addr
  tchild :: "DIRECTION \<Rightarrow> addr"
  tdata :: 'd

record header =
  hparent :: addr
  hchild :: "DIRECTION \<Rightarrow> addr"
  hsize :: u64

type_synonym 'd tmem = "addr \<Rightarrow> 'd tnode"
type_synonym 'd tree_state = "'d tmem \<times> header"

definition set_parent :: "addr \<Rightarrow> addr \<Rightarrow> 'd tmem \<Rightarrow> 'd tmem" where
  "set_parent x p m = m(x := (m x)\<lparr>tparent := p\<rparr>)"

definition set_child :: "addr \<Rightarrow> DIRECTION \<Rightarrow> addr \<Rightarrow> 'd tmem \<Rightarrow> 'd tmem" where
  "set_child x d c m = m(x := (m x)\<lparr>tchild := (tchild (m x))(d := c)\<rparr>)"

definition header_init :: header where
  "header_init = \<lparr>hparent = NULL, hchild = (\<lambda>d. NULL), hsize = 0\<rparr>"

definition copier :: "addr \<Rightarrow> 'd \<Rightarrow> 'd tmem \<Rightarrow> 'd tmem" where
  "copier a v m = m(a := \<lparr>tparent = NULL, tchild = (\<lambda>d. NULL), tdata = v\<rparr>)"

definition compare :: "'k::linorder \<Rightarrow> 'k \<Rightarrow> int" where
  "compare k1 k2 = (if k1 < k2 then -1 else if k2 < k1 then 1 else 0)"

definition tkey :: "('k \<times> 'v) tmem \<Rightarrow> addr \<Rightarrow> 'k" where
  "tkey m n = fst (tdata (m n))"

definition direction :: "'d tmem \<Rightarrow> addr \<Rightarrow> addr \<Rightarrow> DIRECTION" where
  "direction m p c = (if tchild (m p) LEFT = c then LEFT else RIGHT)"

text \<open>\<open>leftmost\<close> and \<open>rightmost\<close> follow the children of one direction.\<close>

partial_function (option) utmost :: "DIRECTION \<Rightarrow> 'd tmem \<Rightarrow> addr \<Rightarrow> addr option" where
  "utmost d m n = (if tchild (m n) d \<noteq> NULL then utmost d m (tchild (m n) d) else Some n)"

definition leftmost :: "'d tmem \<Rightarrow> addr \<Rightarrow> addr option" where
  "leftmost = utmost LEFT"

definition rightmost :: "'d tmem \<Rightarrow> addr \<Rightarrow> addr option" where
  "rightmost = utmost RIGHT"

text \<open>The loop of \<open>predecessor\<close> and \<open>successor\<close>: up while coming from the child in direction \<open>d\<close>.\<close>

partial_function (option) climb :: "DIRECTION \<Rightarrow> 'd tmem \<Rightarrow> addr \<Rightarrow> addr \<Rightarrow> addr option" where
  "climb d m n y = (if y \<noteq> NULL \<and> n = tchild (m y) d then climb d m y (tparent (m y)) else Some y)"

definition predecessor :: "'d tmem \<Rightarrow> addr \<Rightarrow> addr option" where
  "predecessor m n =
     (if tchild (m n) LEFT \<noteq> NULL then rightmost m (tchild (m n) LEFT) else climb LEFT m n (tparent (m n)))"

definition successor :: "'d tmem \<Rightarrow> addr \<Rightarrow> addr option" where
  "successor m n =
     (if tchild (m n) RIGHT \<noteq> NULL then leftmost m (tchild (m n) RIGHT) else climb RIGHT m n (tparent (m n)))"

section \<open>Rotation and splaying\<close>

definition rotate_node :: "addr \<Rightarrow> DIRECTION \<Rightarrow> 'd tree_state \<Rightarrow> 'd tree_state" where
  "rotate_node n d s = (case s of (m, h) \<Rightarrow>
     let p = tparent (m n);
         m1 = set_child p (opp d) (tchild (m n) d) m;
         m2 = (if tchild (m1 n) d \<noteq> NULL then set_parent (tchild (m1 n) d) p m1 else m1);
         m3 = set_parent n (tparent (m2 p)) m2;
         (m4, h4) = (if tparent (m3 p) = NULL then (m3, h\<lparr>hparent := n\<rparr>)
                     else (set_child (tparent (m3 p)) (direction m3 (tparent (m3 p)) p) n m3, h))
     in (set_child n d p (set_parent p n m4), h4))"

definition rotate_up :: "addr \<Rightarrow> 'd tree_state \<Rightarrow> 'd tree_state" where
  "rotate_up n s = rotate_node n (opp (direction (fst s) (tparent (fst s n)) n)) s"

partial_function (option) splay :: "addr \<Rightarrow> 'd tree_state \<Rightarrow> 'd tree_state option" where
  "splay n s =
     (let m = fst s; p = tparent (m n); g = tparent (m p)
      in if p = NULL then Some s
         else if g = NULL then Some (rotate_up n s)
         else if direction m p n = direction m g p then splay n (rotate_up n (rotate_up p s))
         else splay n (rotate_up n (rotate_up n s)))"

section \<open>Search, insertion, removal\<close>

partial_function (option) tree_find :: "('k::linorder \<times> 'v) tmem \<Rightarrow> addr \<Rightarrow> 'k \<Rightarrow> (addr \<times> bool) option" where
  "tree_find m t k =
     (let c = compare k (tkey m t); child = tchild (m t) (if 0 > c then LEFT else RIGHT)
      in if c = 0 then Some (t, True)
         else if child = NULL then Some (t, False)
         else tree_find m child k)"

partial_function (option) tree_insert ::
  "addr \<Rightarrow> addr \<Rightarrow> ('k::linorder \<times> 'v) tmem \<Rightarrow> ('k \<times> 'v) tmem option" where
  "tree_insert t n m =
     (let d = (if 0 > compare (tkey m n) (tkey m t) then LEFT else RIGHT); child = tchild (m t) d
      in if child = NULL then Some (set_parent n t (set_child t d n m))
         else tree_insert n child m)"

definition insert_node :: "addr \<Rightarrow> ('k::linorder \<times> 'v) tree_state \<Rightarrow> ('k \<times> 'v) tree_state option" where
  "insert_node n s = (case s of (m, h) \<Rightarrow>
     if hparent h = NULL
     then Some (set_parent n NULL (set_child n LEFT NULL (set_child n RIGHT NULL m)),
                h\<lparr>hparent := n, hchild := (\<lambda>d. n), hsize := hsize h + 1\<rparr>)
     else do {
       (insert_location, found) \<leftarrow> tree_find m (hparent h) (tkey m n);
       m1 \<leftarrow> tree_insert insert_location n m;
       l \<leftarrow> leftmost m1 (hchild h LEFT);
       r \<leftarrow> rightmost m1 (hchild h RIGHT);
       (m2, h2) \<leftarrow> splay n (m1, h\<lparr>hchild := (\<lambda>d. case d of LEFT \<Rightarrow> l | RIGHT \<Rightarrow> r)\<rparr>);
       Some (m2, h2\<lparr>hsize := hsize h2 + 1\<rparr>)
     })"

text \<open>
  \<open>remove\<close>, in four parts: the ends of the header, the node \<open>y\<close> to splice out, the splicing, and the
  replacement of \<open>n\<close> by \<open>y\<close>.
\<close>

definition fix_ends :: "addr \<Rightarrow> 'd tree_state \<Rightarrow> header option" where
  "fix_ends n s = (case s of (m, h) \<Rightarrow> do {
     l \<leftarrow> (if hchild h LEFT = n then successor m n else Some (hchild h LEFT));
     r \<leftarrow> (if hchild h RIGHT = n then predecessor m n else Some (hchild h RIGHT));
     Some (h\<lparr>hchild := (\<lambda>d. case d of LEFT \<Rightarrow> l | RIGHT \<Rightarrow> r), hsize := hsize h - 1\<rparr>)
   })"

definition splice_out :: "addr \<Rightarrow> 'd tree_state \<Rightarrow> 'd tree_state" where
  "splice_out y s = (case s of (m, h) \<Rightarrow>
     let x = (if tchild (m y) LEFT \<noteq> NULL then tchild (m y) LEFT else tchild (m y) RIGHT);
         m1 = (if x \<noteq> NULL then set_parent x (tparent (m y)) m else m)
     in if tparent (m1 y) = NULL then (m1, h\<lparr>hparent := x\<rparr>)
        else (set_child (tparent (m1 y)) (direction m1 (tparent (m1 y)) y) x m1, h))"

definition adopt :: "addr \<Rightarrow> addr \<Rightarrow> DIRECTION \<Rightarrow> 'd tmem \<Rightarrow> 'd tmem" where
  "adopt y n d m =
     (let m1 = set_child y d (tchild (m n) d) m
      in if tchild (m1 y) d \<noteq> NULL then set_parent (tchild (m1 y) d) y m1 else m1)"

definition replace_node :: "addr \<Rightarrow> addr \<Rightarrow> 'd tree_state \<Rightarrow> 'd tree_state" where
  "replace_node n y s = (case s of (m, h) \<Rightarrow>
     let m1 = set_parent y (tparent (m n)) m;
         (m2, h2) = (if tparent (m1 y) \<noteq> NULL
                     then (set_child (tparent (m1 y)) (direction m1 (tparent (m1 y)) n) y m1, h)
                     else (m1, h\<lparr>hparent := y\<rparr>))
     in (adopt y n RIGHT (adopt y n LEFT m2), h2))"

definition remove_node :: "addr \<Rightarrow> 'd tree_state \<Rightarrow> 'd tree_state option" where
  "remove_node n s = (case s of (m, h) \<Rightarrow> do {
     h1 \<leftarrow> fix_ends n (m, h);
     y \<leftarrow> (if tchild (m n) LEFT = NULL \<or> tchild (m n) RIGHT = NULL then Some n else successor m n);
     let s1 = splice_out y (m, h1);
     if y \<noteq> n then splay y (replace_node n y s1) else Some s1
   })"

definition find_hint :: "'k::linorder \<Rightarrow> ('k \<times> 'v) tree_state \<Rightarrow> (bool \<times> addr \<times> ('k \<times> 'v) tree_state) option" where
  "find_hint k s = (case s of (m, h) \<Rightarrow>
     if hparent h = NULL then Some (False, NULL, s)
     else do {
       (hint, found) \<leftarrow> tree_find m (hparent h) k;
       s1 \<leftarrow> splay hint s;
       Some (found, hint, s1)
     })"

text \<open>\<open>clear\<close>: remove the first node and go on with its successor.\<close>

partial_function (option) clear_loop :: "addr \<Rightarrow> 'd tree_state \<Rightarrow> 'd tree_state option" where
  "clear_loop n s =
     (if n = NULL then Some s
      else do {
        n1 \<leftarrow> successor (fst s) n;
        s1 \<leftarrow> remove_node n s;
        clear_loop n1 s1
      })"

definition tree_clear :: "'d tree_state \<Rightarrow> 'd tree_state option" where
  "tree_clear s = clear_loop (hchild (snd s) LEFT) s"

text \<open>The \<open>i\<close>-th node that \<open>copy_functor\<close> allocates is at \<open>new i\<close>.\<close>

partial_function (option) insert_range ::
  "(nat \<Rightarrow> addr) \<Rightarrow> nat \<Rightarrow> addr \<Rightarrow> addr \<Rightarrow> ('k::linorder \<times> 'v) tree_state \<Rightarrow> ('k \<times> 'v) tree_state option" where
  "insert_range new i n1 n2 s =
     (if n1 = n2 then Some s
      else do {
        s1 \<leftarrow> insert_node (new i) (copier (new i) (tdata (fst s n1)) (fst s), snd s);
        n1' \<leftarrow> successor (fst s1) n1;
        insert_range new (i + 1) n1' n2 s1
      })"

text \<open>\<open>operator=\<close>; the source is another tree with its header, or the tree itself.\<close>

definition assign ::
  "(nat \<Rightarrow> addr) \<Rightarrow> header option \<Rightarrow> ('k::linorder \<times> 'v) tree_state \<Rightarrow> ('k \<times> 'v) tree_state option" where
  "assign new src s = do {
     s1 \<leftarrow> tree_clear s;
     let front = (case src of None \<Rightarrow> hchild (snd s1) LEFT | Some t \<Rightarrow> hchild t LEFT);
     s2 \<leftarrow> insert_range new 0 front NULL s1;
     if hchild (snd s2) LEFT \<noteq> NULL then splay (hchild (snd s2) LEFT) s2 else Some s2
   }"

definition find_by_value :: "'k::linorder \<Rightarrow> ('k \<times> 'v) tree_state \<Rightarrow> (addr \<times> ('k \<times> 'v) tree_state) option" where
  "find_by_value k s = do {
     (found, n, s1) \<leftarrow> find_hint k s;
     Some (if found then n else NULL, s1)
   }"

definition insert_by_value ::
  "addr \<Rightarrow> 'k::linorder \<times> 'v \<Rightarrow> ('k \<times> 'v) tree_state \<Rightarrow> (bool \<times> addr \<times> ('k \<times> 'v) tree_state) option" where
  "insert_by_value a v s = do {
     (n, s1) \<leftarrow> find_by_value (fst v) s;
     if n \<noteq> NULL then Some (False, n, s1)
     else do {
       s2 \<leftarrow> insert_node a (copier a v (fst s1), snd s1);
       Some (True, a, s2)
     }
   }"

definition remove_by_value :: "'k::linorder \<Rightarrow> ('k \<times> 'v) tree_state \<Rightarrow> (nat \<times> ('k \<times> 'v) tree_state) option" where
  "remove_by_value k s = (case s of (m, h) \<Rightarrow>
     if hparent h = NULL then Some (0, s)
     else do {
       (v_node, found) \<leftarrow> tree_find m (hparent h) k;
       if found then do { s1 \<leftarrow> remove_node v_node s; Some (1, s1) } else Some (0, s)
     })"

definition lower_bound_by_value :: "'k::linorder \<Rightarrow> ('k \<times> 'v) tree_state \<Rightarrow> (addr \<times> ('k \<times> 'v) tree_state) option" where
  "lower_bound_by_value k s = do {
     (found, n, s1) \<leftarrow> find_hint k s;
     if found \<or> n = NULL then Some (n, s1)
     else if compare (tkey (fst s1) n) k = -1 then do { n1 \<leftarrow> successor (fst s1) n; Some (n1, s1) }
     else Some (n, s1)
   }"

definition upper_bound_by_value :: "'k::linorder \<Rightarrow> ('k \<times> 'v) tree_state \<Rightarrow> (addr \<times> ('k \<times> 'v) tree_state) option" where
  "upper_bound_by_value k s = do {
     (found, n, s1) \<leftarrow> find_hint k s;
     if found then do { n1 \<leftarrow> successor (fst s1) n; Some (n1, s1) }
     else if n = NULL then Some (NULL, s1)
     else if compare (tkey (fst s1) n) k = -1 then do { n1 \<leftarrow> successor (fst s1) n; Some (n1, s1) }
     else Some (n, s1)
   }"

definition tree_swap :: "header \<times> header \<Rightarrow> header \<times> header" where
  "tree_swap hs = (snd hs, fst hs)"

text \<open>Iterators: a null node stands for \<open>end()\<close>.\<close>

definition increment :: "addr \<Rightarrow> 'd tree_state \<Rightarrow> addr option" where
  "increment n s = (if n = NULL then Some (hchild (snd s) LEFT) else successor (fst s) n)"

definition decrement :: "addr \<Rightarrow> 'd tree_state \<Rightarrow> addr option" where
  "decrement n s = (if n = NULL then Some (hchild (snd s) RIGHT) else predecessor (fst s) n)"

section \<open>Trees in memory\<close>

text \<open>The shape of a tree is a tree of addresses; a place in it is a list of frames, innermost first.\<close>

type_synonym frame = "DIRECTION \<times> addr \<times> addr tree"

fun rt :: "addr tree \<Rightarrow> addr" where
  "rt Leaf = NULL"
| "rt (Node l x r) = x"

fun trep :: "'d tmem \<Rightarrow> addr \<Rightarrow> addr \<Rightarrow> addr tree \<Rightarrow> bool" where
  "trep m par a Leaf \<longleftrightarrow> a = NULL"
| "trep m par a (Node l x r) \<longleftrightarrow> a = x \<and> x \<noteq> NULL \<and> tparent (m x) = par
     \<and> trep m x (tchild (m x) LEFT) l \<and> trep m x (tchild (m x) RIGHT) r"

definition mk :: "DIRECTION \<Rightarrow> addr tree \<Rightarrow> addr \<Rightarrow> addr tree \<Rightarrow> addr tree" where
  "mk d t x s = (case d of LEFT \<Rightarrow> Node t x s | RIGHT \<Rightarrow> Node s x t)"

fun plug :: "frame list \<Rightarrow> addr tree \<Rightarrow> addr tree" where
  "plug [] t = t"
| "plug ((d, x, s) # c) t = plug c (mk d t x s)"

fun cpar :: "frame list \<Rightarrow> addr" where
  "cpar [] = NULL"
| "cpar ((d, x, s) # c) = x"

fun crep :: "'d tmem \<Rightarrow> addr \<Rightarrow> addr \<Rightarrow> frame list \<Rightarrow> bool" where
  "crep m root a [] \<longleftrightarrow> root = a"
| "crep m root a ((d, x, s) # c) \<longleftrightarrow> x \<noteq> NULL \<and> tparent (m x) = cpar c \<and> tchild (m x) d = a
     \<and> trep m x (tchild (m x) (opp d)) s \<and> crep m root x c"

fun before_of :: "frame list \<Rightarrow> addr list" where
  "before_of [] = []"
| "before_of ((d, x, s) # c) = (case d of LEFT \<Rightarrow> before_of c | RIGHT \<Rightarrow> before_of c @ inorder s @ [x])"

fun after_of :: "frame list \<Rightarrow> addr list" where
  "after_of [] = []"
| "after_of ((d, x, s) # c) = (case d of LEFT \<Rightarrow> x # inorder s @ after_of c | RIGHT \<Rightarrow> after_of c)"

lemma opp_opp [simp]: "opp (opp d) = d"
  by (cases d) auto

lemma opp_neq [simp]: "opp d \<noteq> d" "d \<noteq> opp d"
  by (cases d; simp)+

lemma trep_root: "trep m par a t \<Longrightarrow> a = rt t"
  by (cases t) auto

lemma trep_mk [simp]:
  "trep m par a (mk d t x s) \<longleftrightarrow> a = x \<and> x \<noteq> NULL \<and> tparent (m x) = par
     \<and> trep m x (tchild (m x) d) t \<and> trep m x (tchild (m x) (opp d)) s"
  by (cases d) (auto simp: mk_def)

lemma rt_mk [simp]: "rt (mk d t x s) = x"
  by (cases d) (simp_all add: mk_def)

lemma mk_ex: "\<exists>A' B'. Node A x B = mk d A' x B'"
  by (cases d) (auto simp: mk_def)

lemma inorder_plug: "inorder (plug c t) = before_of c @ inorder t @ after_of c"
proof (induction c arbitrary: t)
  case (Cons f c)
  obtain d x s where "f = (d, x, s)" by (cases f)
  with Cons show ?case by (cases d) (simp_all add: mk_def)
qed simp

lemma inorder_mk: "inorder (mk d t x s) = (case d of LEFT \<Rightarrow> inorder t @ x # inorder s | RIGHT \<Rightarrow> inorder s @ x # inorder t)"
  by (cases d) (simp_all add: mk_def)

lemma set_mk [simp]: "set_tree (mk d t x s) = insert x (set_tree t \<union> set_tree s)"
  by (cases d) (auto simp: mk_def)

lemma trep_plug: "trep m NULL root (plug c t) \<longleftrightarrow> crep m root (rt t) c \<and> trep m (cpar c) (rt t) t"
proof (induction c arbitrary: t)
  case Nil
  then show ?case using trep_root [of m NULL root t] by auto
next
  case (Cons f c)
  obtain d x s where f: "f = (d, x, s)" by (cases f)
  show ?case unfolding f plug.simps Cons using trep_root [of m x "tchild (m x) d" t] by auto
qed

lemma trep_cong: "(\<And>x. x \<in> set_tree t \<Longrightarrow> m' x = m x) \<Longrightarrow> trep m' par a t = trep m par a t"
proof (induction t arbitrary: par a)
  case (Node l x r)
  have "m' x = m x" using Node.prems by simp
  with Node show ?case by simp
qed simp

lemma trep_links: "(\<And>x. x \<in> set_tree t \<Longrightarrow> tparent (m' x) = tparent (m x) \<and> tchild (m' x) = tchild (m x))
  \<Longrightarrow> trep m' par a t = trep m par a t"
proof (induction t arbitrary: par a)
  case (Node l x r)
  have "tparent (m' x) = tparent (m x) \<and> tchild (m' x) = tchild (m x)" using Node.prems by simp
  with Node show ?case by simp
qed simp

lemma trep_reparent:
  assumes "trep m par a t" "distinct (inorder t)" "\<And>x. x \<in> set_tree t \<Longrightarrow> x \<noteq> a \<Longrightarrow> m' x = m x"
    "a \<noteq> NULL \<Longrightarrow> m' a = (m a)\<lparr>tparent := par'\<rparr>"
  shows "trep m' par' a t"
proof (cases t)
  case Leaf
  then show ?thesis using assms by simp
next
  case (Node l x r)
  have "trep m' x (tchild (m x) LEFT) l = trep m x (tchild (m x) LEFT) l"
    using assms Node by (intro trep_cong) auto
  moreover have "trep m' x (tchild (m x) RIGHT) r = trep m x (tchild (m x) RIGHT) r"
    using assms Node by (intro trep_cong) auto
  ultimately show ?thesis using assms Node by simp
qed

fun frames_set :: "frame list \<Rightarrow> addr set" where
  "frames_set [] = {}"
| "frames_set ((d, x, s) # c) = insert x (set_tree s \<union> frames_set c)"

lemma set_plug [simp]: "set_tree (plug c t) = set_tree t \<union> frames_set c"
  by (induction c t rule: plug.induct) auto

lemma crep_cong: "(\<And>x. x \<in> frames_set c \<Longrightarrow> m' x = m x) \<Longrightarrow> crep m' root a c = crep m root a c"
proof (induction c arbitrary: a)
  case (Cons f c)
  obtain d x s where f: "f = (d, x, s)" by (cases f)
  have "m' x = m x" using Cons.prems f by simp
  moreover have "trep m' x (tchild (m x) (opp d)) s = trep m x (tchild (m x) (opp d)) s"
    using Cons.prems f by (intro trep_cong) simp
  ultimately show ?case using Cons f by simp
qed simp

lemma frames_set_eq: "frames_set c = set (before_of c) \<union> set (after_of c)"
proof (induction c)
  case (Cons f c)
  obtain d x s where "f = (d, x, s)" by (cases f)
  with Cons show ?case by (cases d) auto
qed simp

text \<open>Linking another subtree into the place: only the innermost frame node changes.\<close>

lemma crep_relink:
  assumes "crep m root a c" "distinct (before_of c @ after_of c)"
    "\<And>x. x \<in> frames_set c \<Longrightarrow> x \<noteq> cpar c \<Longrightarrow> m' x = m x"
    "\<And>d x s c'. c = (d, x, s) # c' \<Longrightarrow> m' x = (m x)\<lparr>tchild := (tchild (m x))(d := a')\<rparr>"
    "root' = (if c = [] then a' else root)"
  shows "crep m' root' a' c"
proof (cases c)
  case Nil
  then show ?thesis using assms by simp
next
  case (Cons f c')
  obtain d x s where f: "f = (d, x, s)" by (cases f)
  with Cons assms(2) have x: "x \<notin> set_tree s" "x \<notin> frames_set c'"
    by (cases d; auto simp: frames_set_eq)+
  have m': "m' x = (m x)\<lparr>tchild := (tchild (m x))(d := a')\<rparr>" using assms(4) Cons f by simp
  have "trep m' x (tchild (m x) (opp d)) s = trep m x (tchild (m x) (opp d)) s"
    using assms(3) Cons f x by (intro trep_cong) auto
  moreover have "crep m' root x c' = crep m root x c'"
    using assms(3) Cons f x by (intro crep_cong) auto
  ultimately show ?thesis using assms(1,5) Cons f m' by simp
qed

lemma trep_not_null: "trep m par a t \<Longrightarrow> NULL \<notin> set_tree t"
  by (induction t arbitrary: par a) auto

lemma crep_not_null: "crep m root a c \<Longrightarrow> NULL \<notin> frames_set c"
  by (induction c arbitrary: a rule: frames_set.induct) (auto dest: trep_not_null)

lemma rt_in: "rt t \<noteq> NULL \<Longrightarrow> rt t \<in> set_tree t"
  by (cases t) auto

lemma cpar_in: "c \<noteq> [] \<Longrightarrow> cpar c \<in> frames_set c"
  by (cases c rule: cpar.cases) auto

definition tree_at :: "'d tree_state \<Rightarrow> addr tree \<Rightarrow> bool" where
  "tree_at s t \<longleftrightarrow> trep (fst s) NULL (hparent (snd s)) t \<and> distinct (inorder t)"

text \<open>What a restructuring leaves unchanged: the data, the nodes outside, and the rest of the header.\<close>

definition moves_links :: "addr set \<Rightarrow> 'd tree_state \<Rightarrow> 'd tree_state \<Rightarrow> bool" where
  "moves_links X s s' \<longleftrightarrow> (\<forall>x. tdata (fst s' x) = tdata (fst s x)) \<and> (\<forall>x. x \<notin> X \<longrightarrow> fst s' x = fst s x)
     \<and> hchild (snd s') = hchild (snd s) \<and> hsize (snd s') = hsize (snd s)"

lemma moves_links_refl: "moves_links X s s"
  by (simp add: moves_links_def)

lemma moves_links_trans: "moves_links X s s1 \<Longrightarrow> moves_links X s1 s2 \<Longrightarrow> moves_links X s s2"
  by (simp add: moves_links_def)

lemma rotate_node_eq:
  assumes "p = tparent (m n)" "b = tchild (m n) d" "g = tparent (m p)" "n \<noteq> p" "n \<noteq> NULL" "p \<noteq> NULL"
    "b \<noteq> n" "b \<noteq> p" "g \<noteq> n" "g \<noteq> p" "g = NULL \<or> g \<noteq> b"
  shows "rotate_node n d (m, h) =
    ((\<lambda>x. if x = n then (m n)\<lparr>tparent := g, tchild := (tchild (m n))(d := p)\<rparr>
          else if x = p then (m p)\<lparr>tchild := (tchild (m p))(opp d := b), tparent := n\<rparr>
          else if b \<noteq> NULL \<and> x = b then (m b)\<lparr>tparent := p\<rparr>
          else if g \<noteq> NULL \<and> x = g then (m g)\<lparr>tchild := (tchild (m g))(direction m g p := n)\<rparr>
          else m x), if g = NULL then h\<lparr>hparent := n\<rparr> else h)"
proof -
  have neq: "n \<noteq> b" "p \<noteq> b" "n \<noteq> g" "p \<noteq> g" "p \<noteq> n" using assms by auto
  have ne: "tparent (m n) \<noteq> n" "tchild (m n) d \<noteq> n" using assms by auto
  show ?thesis
    using assms(11)
    by (cases "b = NULL"; cases "g = NULL"; cases "g = b")
      (simp_all add: rotate_node_def Let_def set_parent_def set_child_def direction_def fun_eq_iff
        assms(1) [symmetric] assms(2) [symmetric] assms(3) [symmetric] assms(4-10) neq ne)
qed

text \<open>The facts on a node \<open>n\<close> that is the child in direction \<open>d\<close> of the innermost frame node \<open>p\<close>.\<close>

lemma focusD:
  assumes "tree_at (m, h) (plug c (mk d A n B))"
  shows "n \<noteq> NULL" "tparent (m n) = cpar c" "trep m n (tchild (m n) d) A" "trep m n (tchild (m n) (opp d)) B"
    "crep m (hparent h) n c" "distinct (before_of c @ after_of c)"
    "n \<notin> set_tree A" "n \<notin> set_tree B" "n \<notin> frames_set c" "set_tree A \<inter> set_tree B = {}"
    "set_tree A \<inter> frames_set c = {}" "set_tree B \<inter> frames_set c = {}"
    "distinct (inorder A)" "distinct (inorder B)" "NULL \<notin> frames_set c"
proof -
  have t: "crep m (hparent h) n c" "trep m (cpar c) n (mk d A n B)" "distinct (before_of c @ inorder (mk d A n B) @ after_of c)"
    using assms by (auto simp: tree_at_def trep_plug inorder_plug)
  then show "n \<noteq> NULL" "tparent (m n) = cpar c" "trep m n (tchild (m n) d) A" "trep m n (tchild (m n) (opp d)) B"
    "crep m (hparent h) n c" "NULL \<notin> frames_set c" by (auto dest: crep_not_null)
  show "distinct (before_of c @ after_of c)" "n \<notin> set_tree A" "n \<notin> set_tree B" "n \<notin> frames_set c" "set_tree A \<inter> set_tree B = {}"
    "set_tree A \<inter> frames_set c = {}" "set_tree B \<inter> frames_set c = {}" "distinct (inorder A)" "distinct (inorder B)"
    using t(3) by (cases d; auto simp: inorder_mk frames_set_eq)+
qed

lemma direction_frame:
  assumes "crep m root a ((d, x, s) # c)" "a \<notin> set_tree s" "a \<noteq> NULL"
  shows "direction m x a = d"
proof (cases d)
  case RIGHT
  then have "trep m x (tchild (m x) LEFT) s" using assms(1) by simp
  then have "tchild (m x) LEFT = rt s" by (rule trep_root)
  then have "tchild (m x) LEFT \<noteq> a" using rt_in [of s] assms(2,3) by metis
  with RIGHT show ?thesis by (simp add: direction_def)
qed (use assms in \<open>simp add: direction_def\<close>)

lemma rotate_up_plug:
  assumes at: "tree_at s (plug ((d, p, C) # c) (mk d A n B))"
  shows "tree_at (rotate_up n s) (plug c (mk d A n (mk d B p C)))"
    "moves_links (set_tree (plug ((d, p, C) # c) (mk d A n B))) s (rotate_up n s)"
proof -
  obtain m h where s: "s = (m, h)" by (cases s)
  note f = focusD [OF at [unfolded s]]
  let ?b = "tchild (m n) (opp d)" and ?g = "cpar c"
  have p: "p \<noteq> NULL" "tparent (m p) = ?g" "tchild (m p) d = n" "trep m p (tchild (m p) (opp d)) C" "crep m (hparent h) p c"
    using f(5) by auto
  have disj: "n \<noteq> p" "n \<notin> set_tree C" "n \<notin> frames_set c" "p \<notin> set_tree A" "p \<notin> set_tree B" "set_tree A \<inter> set_tree C = {}"
    "set_tree B \<inter> set_tree C = {}" "set_tree A \<inter> frames_set c = {}" "set_tree B \<inter> frames_set c = {}"
    using f(9,11,12) by auto
  have pc: "p \<notin> set_tree C" "p \<notin> frames_set c" "set_tree C \<inter> frames_set c = {}" "distinct (inorder C)" "distinct (before_of c @ after_of c)"
    using f(6) by (cases d; auto simp: frames_set_eq)+
  have b: "?b = rt B" using f(4) by (rule trep_root)
  have bB: "?b \<noteq> NULL \<Longrightarrow> ?b \<in> set_tree B" using b rt_in by metis
  have gc: "?g \<noteq> NULL \<Longrightarrow> ?g \<in> frames_set c" using cpar_in [of c] by (cases c) auto
  have g: "?g = NULL \<longleftrightarrow> c = []" using f(15) cpar_in [of c] by (cases c) auto
  have dir: "direction m p n = d" by (rule direction_frame [OF f(5)]) (use disj f(1) in auto)
  define m' where "m' = (\<lambda>x. if x = n then (m n)\<lparr>tparent := ?g, tchild := (tchild (m n))(opp d := p)\<rparr>
      else if x = p then (m p)\<lparr>tchild := (tchild (m p))(d := ?b), tparent := n\<rparr>
      else if ?b \<noteq> NULL \<and> x = ?b then (m ?b)\<lparr>tparent := p\<rparr>
      else if ?g \<noteq> NULL \<and> x = ?g then (m ?g)\<lparr>tchild := (tchild (m ?g))(direction m ?g p := n)\<rparr>
      else m x)"
  define h' where "h' = (if ?g = NULL then h\<lparr>hparent := n\<rparr> else h)"
  have ne: "?b \<noteq> n" "?b \<noteq> p" "?g \<noteq> n" "?g \<noteq> p" "?g = NULL \<or> ?g \<noteq> ?b"
    using f(1,8) p(1) disj(3,5,9) pc(2) bB gc by (metis, metis, metis, metis, metis disjoint_iff)
  have n: "p = tparent (m n)" using f(2) by simp
  have "rotate_node n (opp d) (m, h) = (m', h')"
    unfolding m'_def h'_def by (rule rotate_node_eq [OF n refl p(2) [symmetric] disj(1) f(1) p(1) ne, unfolded opp_opp])
  then have r: "rotate_up n s = (m', h')" using f(2) dir by (simp add: rotate_up_def s)
  have A: "trep m' n (tchild (m n) d) A"
    using f(3) disj f(7) f(10) bB gc by (subst trep_cong [of A m' m]) (auto simp: m'_def)
  have B: "trep m' p ?b B"
    using f(4) by (rule trep_reparent) (use f disj bB gc in \<open>auto simp: m'_def\<close>)
  have C: "trep m' p (tchild (m p) (opp d)) C"
    using p(4) disj pc bB gc by (subst trep_cong [of C m' m]) (auto simp: m'_def)
  have c: "crep m' (hparent h') n c"
  proof (rule crep_relink [OF p(5) pc(5)])
    fix x assume "x \<in> frames_set c" "x \<noteq> cpar c"
    then show "m' x = m x" using disj pc bB by (auto simp: m'_def)
  next
    fix d' x s' c' assume c': "c = (d', x, s') # c'"
    have "direction m x p = d'" by (rule direction_frame [of m "hparent h" p d' x s' c']) (use p pc c' in auto)
    then show "m' x = (m x)\<lparr>tchild := (tchild (m x))(d' := n)\<rparr>"
      using c' disj pc bB f(15) by (auto simp: m'_def)
  qed (use g in \<open>auto simp: h'_def\<close>)
  have "trep m' ?g n (mk d A n (mk d B p C))"
    using A B C f(1) p(1) disj(1) by (simp add: m'_def)
  moreover have "inorder (plug c (mk d A n (mk d B p C))) = inorder (plug ((d, p, C) # c) (mk d A n B))"
    by (cases d) (simp_all add: inorder_plug inorder_mk mk_def)
  ultimately show "tree_at (rotate_up n s) (plug c (mk d A n (mk d B p C)))"
    using at c by (simp add: r tree_at_def trep_plug)
  show "moves_links (set_tree (plug ((d, p, C) # c) (mk d A n B))) s (rotate_up n s)"
    unfolding r using bB gc by (auto simp: s moves_links_def m'_def h'_def)
qed

text \<open>Splaying moves a node to the root and keeps the order of the nodes.\<close>

lemma rotate_up_parent:
  assumes "tree_at s (plug ((d, p, C) # c) (Node A n B))"
  shows "tparent (fst s n) = p" "tparent (fst s p) = cpar c" "p \<noteq> NULL" "direction (fst s) p n = d"
proof -
  obtain A' B' where mk: "Node A n B = mk d A' n B'" using mk_ex by blast
  obtain m h where s: "s = (m, h)" by (cases s)
  note f = focusD [OF assms [unfolded s mk]]
  show "tparent (fst s n) = p" "tparent (fst s p) = cpar c" "p \<noteq> NULL" using f(2,5) by (auto simp: s)
  show "direction (fst s) p n = d"
    using direction_frame [OF f(5)] f(1,9) by (simp add: s)
qed

lemma rotate_up_zig:
  assumes "tree_at s (plug ((d, p, C) # c) (Node A n B))"
  shows "\<exists>A' B'. tree_at (rotate_up n s) (plug c (Node A' n B')) \<and> inorder (plug c (Node A' n B')) = inorder (plug ((d, p, C) # c) (Node A n B))
    \<and> moves_links (set_tree (plug ((d, p, C) # c) (Node A n B))) s (rotate_up n s)"
proof -
  obtain A1 B1 where mk: "Node A n B = mk d A1 n B1" using mk_ex by blast
  have "\<exists>A' B'. mk d A1 n (mk d B1 p C) = Node A' n B'" by (cases d) (auto simp: mk_def)
  then obtain A' B' where mk': "mk d A1 n (mk d B1 p C) = Node A' n B'" by blast
  have "inorder (mk d A1 n (mk d B1 p C)) = inorder (mk d (mk d A1 n B1) p C)" by (cases d) (simp_all add: mk_def)
  with rotate_up_plug [OF assms [unfolded mk]] mk mk' show ?thesis by (auto simp: inorder_plug)
qed

lemma splay_plug:
  "tree_at s (plug c (Node A n B)) \<Longrightarrow>
    \<exists>s' A' B'. splay n s = Some s' \<and> tree_at s' (Node A' n B') \<and> inorder (Node A' n B') = inorder (plug c (Node A n B))
      \<and> moves_links (set_tree (plug c (Node A n B))) s s'"
proof (induction c arbitrary: s A B rule: length_induct)
  case (1 c)
  note at = 1(2)
  let ?X = "set_tree (plug c (Node A n B))"
  obtain m h where s: "s = (m, h)" by (cases s)
  consider "c = []" | d p C where "c = [(d, p, C)]" | d p C d' g D c' where "c = (d, p, C) # (d', g, D) # c'"
    by (metis cpar.cases surj_pair)
  then show ?case
  proof cases
    case 1
    have "tparent (m n) = NULL" using at 1 by (simp add: tree_at_def s)
    then have "splay n s = Some s" by (simp add: splay.simps s)
    with at 1 show ?thesis by (auto intro: moves_links_refl)
  next
    case (2 d p C)
    note par = rotate_up_parent [OF at [unfolded 2]]
    then have "splay n s = Some (rotate_up n s)" by (subst splay.simps) simp
    with rotate_up_zig [OF at [unfolded 2]] 2 show ?thesis by auto
  next
    case (3 d p C d' g D c')
    note par = rotate_up_parent [OF at [unfolded 3]]
    have atp: "tree_at s (plug ((d', g, D) # c') (mk d (Node A n B) p C))" using at 3 by simp
    then obtain A1 B1 where p: "tree_at s (plug ((d', g, D) # c') (Node A1 p B1))" "mk d (Node A n B) p C = Node A1 p B1"
      by (cases d) (auto simp: mk_def)
    note par' = rotate_up_parent [OF p(1)]
    show ?thesis
    proof (cases "d = d'")
      case True
      have st: "splay n s = splay n (rotate_up n (rotate_up p s))"
        using par par' True by (subst splay.simps) simp
      have r1: "tree_at (rotate_up p s) (plug c' (mk d (Node A n B) p (mk d C g D)))" "moves_links ?X s (rotate_up p s)"
        using rotate_up_plug [of s d g D c' "Node A n B" p C] atp True 3 by auto
      then have r1': "tree_at (rotate_up p s) (plug ((d, p, mk d C g D) # c') (Node A n B))" by simp
      obtain A2 B2 where r2: "tree_at (rotate_up n (rotate_up p s)) (plug c' (Node A2 n B2))"
          "inorder (plug c' (Node A2 n B2)) = inorder (plug ((d, p, mk d C g D) # c') (Node A n B))"
          "moves_links (set_tree (plug ((d, p, mk d C g D) # c') (Node A n B))) (rotate_up p s) (rotate_up n (rotate_up p s))"
        using rotate_up_zig [OF r1'] by blast
      have io: "inorder (plug c' (Node A2 n B2)) = inorder (plug c (Node A n B))"
        unfolding r2(2) using 3 True by (cases d) (simp_all add: inorder_plug mk_def)
      have X: "set_tree (plug c' (Node A2 n B2)) = ?X" "set_tree (plug ((d, p, mk d C g D) # c') (Node A n B)) = ?X"
        using io r2(2) by (metis set_inorder)+
      show ?thesis using 1(1) [rule_format, OF _ r2(1)] 3 st io X r1(2) r2(3) by (fastforce intro: moves_links_trans)
    next
      case False
      have st: "splay n s = splay n (rotate_up n (rotate_up n s))"
        using par par' False by (subst splay.simps) simp
      obtain A1 B1 where r1: "tree_at (rotate_up n s) (plug ((d', g, D) # c') (Node A1 n B1))"
          "inorder (plug ((d', g, D) # c') (Node A1 n B1)) = inorder (plug c (Node A n B))" "moves_links ?X s (rotate_up n s)"
        using rotate_up_zig [OF at [unfolded 3]] 3 by auto
      obtain A2 B2 where r2: "tree_at (rotate_up n (rotate_up n s)) (plug c' (Node A2 n B2))"
          "inorder (plug c' (Node A2 n B2)) = inorder (plug ((d', g, D) # c') (Node A1 n B1))"
          "moves_links (set_tree (plug ((d', g, D) # c') (Node A1 n B1))) (rotate_up n s) (rotate_up n (rotate_up n s))"
        using rotate_up_zig [OF r1(1)] by blast
      have X: "set_tree (plug c' (Node A2 n B2)) = ?X" "set_tree (plug ((d', g, D) # c') (Node A1 n B1)) = ?X"
        using r1(2) r2(2) by (metis set_inorder)+
      show ?thesis using 1(1) [rule_format, OF _ r2(1)] 3 st r1(2) r2(2) X r1(3) r2(3) by (fastforce intro: moves_links_trans)
    qed
  qed
qed

section \<open>Neighbours\<close>

definition first0 :: "addr list \<Rightarrow> addr" where
  "first0 xs = (if xs = [] then NULL else hd xs)"

definition final0 :: "addr list \<Rightarrow> addr" where
  "final0 xs = (if xs = [] then NULL else last xs)"

lemma first0_simps [simp]: "first0 [] = NULL" "first0 (x # xs) = x" "first0 ((x # xs) @ ys) = x"
  by (simp_all add: first0_def)

lemma final0_simps [simp]: "final0 [] = NULL" "final0 (xs @ [x]) = x" "final0 (ys @ xs @ [x]) = x"
  by (simp_all add: final0_def)

lemma first0_append: "first0 (xs @ ys) = (if xs = [] then first0 ys else first0 xs)"
  by (simp add: first0_def)

lemma final0_append: "final0 (xs @ ys) = (if ys = [] then final0 xs else final0 ys)"
  by (simp add: final0_def)

lemma final0_Cons: "final0 (x # xs) = (if xs = [] then x else final0 xs)"
  by (simp add: final0_def)

lemma leftmost_trep: "trep m par a t \<Longrightarrow> t \<noteq> Leaf \<Longrightarrow> leftmost m a = Some (first0 (inorder t))"
proof (induction t arbitrary: par a)
  case (Node l x r)
  show ?case
  proof (cases l)
    case Leaf
    with Node.prems have "tchild (m a) LEFT = NULL" by simp
    then have "leftmost m a = Some a" unfolding leftmost_def by (subst utmost.simps) simp
    with Leaf Node.prems show ?thesis by simp
  next
    case (Node l' y r')
    with \<open>trep m par a (Node l x r)\<close> have "a = x" "trep m x (tchild (m x) LEFT) l" "tchild (m x) LEFT \<noteq> NULL" by auto
    moreover from this have "leftmost m a = leftmost m (tchild (m x) LEFT)" unfolding leftmost_def by (subst utmost.simps) simp
    moreover have "first0 (inorder (Node l x r)) = first0 (inorder l)" "l \<noteq> Leaf" using Node by (simp_all add: first0_append)
    ultimately show ?thesis using Node.IH(1) by metis
  qed
qed simp

lemma rightmost_trep: "trep m par a t \<Longrightarrow> t \<noteq> Leaf \<Longrightarrow> rightmost m a = Some (final0 (inorder t))"
proof (induction t arbitrary: par a)
  case (Node l x r)
  show ?case
  proof (cases r)
    case Leaf
    with Node.prems have "tchild (m a) RIGHT = NULL" by simp
    then have "rightmost m a = Some a" unfolding rightmost_def by (subst utmost.simps) simp
    with Leaf Node.prems show ?thesis by (simp add: final0_def)
  next
    case (Node l' y r')
    with \<open>trep m par a (Node l x r)\<close> have "a = x" "trep m x (tchild (m x) RIGHT) r" "tchild (m x) RIGHT \<noteq> NULL" by auto
    moreover from this have "rightmost m a = rightmost m (tchild (m x) RIGHT)" unfolding rightmost_def by (subst utmost.simps) simp
    moreover have "final0 (inorder (Node l x r)) = final0 (inorder r)" "r \<noteq> Leaf" using Node by (simp_all add: final0_append final0_Cons)
    ultimately show ?thesis using Node.IH(2) by metis
  qed
qed simp

lemma climb_crep:
  assumes "crep m root a c" "a \<noteq> NULL" "a \<notin> frames_set c" "distinct (before_of c @ after_of c)"
  shows "climb RIGHT m a (cpar c) = Some (first0 (after_of c)) \<and> climb LEFT m a (cpar c) = Some (final0 (before_of c))"
  using assms
proof (induction c arbitrary: a)
  case Nil
  then show ?case by (simp add: climb.simps)
next
  case (Cons f c)
  obtain d x s where f: "f = (d, x, s)" by (cases f)
  with Cons.prems have x: "x \<noteq> NULL" "tparent (m x) = cpar c" "tchild (m x) d = a" "tchild (m x) (opp d) \<noteq> a" "crep m root x c"
    using trep_root [of m x "tchild (m x) (opp d)" s] rt_in [of s] by auto
  have xc: "x \<notin> frames_set c" "distinct (before_of c @ after_of c)" using Cons.prems(4) f by (cases d; auto simp: frames_set_eq)+
  note IH = Cons.IH [OF x(5) x(1) xc]
  have r: "climb RIGHT m a x = (if d = RIGHT then climb RIGHT m x (cpar c) else Some x)"
    "climb LEFT m a x = (if d = LEFT then climb LEFT m x (cpar c) else Some x)"
    using x by (cases d; subst climb.simps; simp)+
  show ?case using IH r f by (cases d) (simp_all add: first0_def final0_def)
qed

lemma successor_plug:
  assumes "tree_at (m, h) (plug c (Node A n B))"
  shows "successor m n = Some (first0 (inorder B @ after_of c))"
proof -
  have mk: "Node A n B = mk LEFT A n B" by (simp add: mk_def)
  note f = focusD [OF assms [unfolded mk]]
  have r: "tchild (m n) RIGHT = rt B" using f(4) trep_root [of m n _ B] by simp
  show ?thesis
  proof (cases B)
    case Leaf
    then show ?thesis using r climb_crep [OF f(5) f(1) f(9) f(6)] f(2) by (simp add: successor_def)
  next
    case (Node l x r')
    then have "tchild (m n) RIGHT \<noteq> NULL" using f(4) by auto
    moreover have "leftmost m (tchild (m n) RIGHT) = Some (first0 (inorder B))"
      by (rule leftmost_trep [where par = n]) (use f(4) Node in simp_all)
    ultimately show ?thesis using Node by (simp add: successor_def first0_append)
  qed
qed

lemma predecessor_plug:
  assumes "tree_at (m, h) (plug c (Node A n B))"
  shows "predecessor m n = Some (final0 (before_of c @ inorder A))"
proof -
  have mk: "Node A n B = mk LEFT A n B" by (simp add: mk_def)
  note f = focusD [OF assms [unfolded mk]]
  have r: "tchild (m n) LEFT = rt A" using f(3) by (rule trep_root)
  show ?thesis
  proof (cases A)
    case Leaf
    then show ?thesis using r climb_crep [OF f(5) f(1) f(9) f(6)] f(2) by (simp add: predecessor_def)
  next
    case (Node l x r')
    then have "tchild (m n) LEFT \<noteq> NULL" using f(3) by auto
    moreover have "rightmost m (tchild (m n) LEFT) = Some (final0 (inorder A))"
      by (rule rightmost_trep [where par = n]) (use f(3) Node in simp_all)
    ultimately show ?thesis using Node by (simp add: predecessor_def final0_append)
  qed
qed

section \<open>Places\<close>

lemma plug_append: "plug (c1 @ c2) t = plug c2 (plug c1 t)"
  by (induction c1 t rule: plug.induct) auto

lemma before_of_append [simp]: "before_of (c1 @ c2) = before_of c2 @ before_of c1"
proof (induction c1)
  case (Cons f c)
  obtain d x s where "f = (d, x, s)" by (cases f)
  with Cons show ?case by (cases d) auto
qed simp

lemma after_of_append [simp]: "after_of (c1 @ c2) = after_of c1 @ after_of c2"
proof (induction c1)
  case (Cons f c)
  obtain d x s where "f = (d, x, s)" by (cases f)
  with Cons show ?case by (cases d) auto
qed simp

lemma focus_ex: "x \<in> set_tree t \<Longrightarrow> \<exists>c A B. t = plug c (Node A x B)"
proof (induction t)
  case (Node l y r)
  consider "x = y" | "x \<in> set_tree l" | "x \<in> set_tree r" using Node.prems by auto
  then show ?case
  proof cases
    case 1
    then have "Node l y r = plug [] (Node l x r)" by simp
    then show ?thesis by blast
  next
    case 2
    with Node.IH obtain c A B where "l = plug c (Node A x B)" by blast
    then have "Node l y r = plug (c @ [(LEFT, y, r)]) (Node A x B)" by (simp add: plug_append mk_def)
    then show ?thesis by blast
  next
    case 3
    with Node.IH obtain c A B where "r = plug c (Node A x B)" by blast
    then have "Node l y r = plug (c @ [(RIGHT, y, l)]) (Node A x B)" by (simp add: plug_append mk_def)
    then show ?thesis by blast
  qed
qed simp

lemma focus_first: "t \<noteq> Leaf \<Longrightarrow> \<exists>c R. t = plug c (Node Leaf (first0 (inorder t)) R) \<and> before_of c = []"
proof (induction t)
  case (Node l y r)
  show ?case
  proof (cases "l = Leaf")
    case True
    then have "Node l y r = plug [] (Node Leaf (first0 (inorder (Node l y r))) r) \<and> before_of [] = []" by simp
    then show ?thesis by blast
  next
    case False
    with Node.IH(1) obtain c R where c: "l = plug c (Node Leaf (first0 (inorder l)) R)" "before_of c = []" by blast
    have "first0 (inorder (Node l y r)) = first0 (inorder l)" using False by (simp add: first0_def)
    then have "Node l y r = plug (c @ [(LEFT, y, r)]) (Node Leaf (first0 (inorder (Node l y r))) R)"
      using c(1) by (simp add: plug_append mk_def)
    moreover have "before_of (c @ [(LEFT, y, r)]) = []" using c(2) by simp
    ultimately show ?thesis by blast
  qed
qed simp

lemma end_children:
  assumes "tree_at (m, h) t" "t \<noteq> Leaf"
  shows "tchild (m (first0 (inorder t))) LEFT = NULL" "tchild (m (final0 (inorder t))) RIGHT = NULL"
proof -
  have "trep m par a t \<Longrightarrow> t \<noteq> Leaf \<Longrightarrow> tchild (m (first0 (inorder t))) LEFT = NULL \<and> tchild (m (final0 (inorder t))) RIGHT = NULL"
    for par a
  proof (induction t arbitrary: par a)
    case (Node l x r)
    have "first0 (inorder (Node l x r)) = (if l = Leaf then x else first0 (inorder l))"
      "final0 (inorder (Node l x r)) = (if r = Leaf then x else final0 (inorder r))" by (simp_all add: first0_def final0_def)
    with Node show ?case by (cases "l = Leaf"; cases "r = Leaf") (simp_all, blast+)
  qed simp
  then show "tchild (m (first0 (inorder t))) LEFT = NULL" "tchild (m (final0 (inorder t))) RIGHT = NULL"
    using assms by (auto simp: tree_at_def)
qed

section \<open>Search\<close>

abbreviation key_less :: "('k::linorder \<times> 'v) tmem \<Rightarrow> addr \<Rightarrow> addr \<Rightarrow> bool" where
  "key_less m x y \<equiv> tkey m x < tkey m y"

text \<open>\<open>holds s xs\<close>: the nodes of the tree in order are \<open>xs\<close>, with ascending keys, and the header agrees.\<close>

definition map_rep :: "('k::linorder \<times> 'v) tree_state \<Rightarrow> addr tree \<Rightarrow> bool" where
  "map_rep s t \<longleftrightarrow> tree_at s t \<and> hchild (snd s) = (\<lambda>d. case d of LEFT \<Rightarrow> first0 (inorder t) | RIGHT \<Rightarrow> final0 (inorder t))
     \<and> hsize (snd s) = of_nat (length (inorder t)) \<and> sorted_wrt (key_less (fst s)) (inorder t)"

definition holds :: "('k::linorder \<times> 'v) tree_state \<Rightarrow> addr list \<Rightarrow> bool" where
  "holds s xs \<longleftrightarrow> (\<exists>t. inorder t = xs \<and> map_rep s t)"

text \<open>What an operation on a tree leaves unchanged outside its nodes.\<close>

definition keeps_out :: "addr set \<Rightarrow> 'd tree_state \<Rightarrow> 'd tree_state \<Rightarrow> bool" where
  "keeps_out X s s' \<longleftrightarrow> (\<forall>x. tdata (fst s' x) = tdata (fst s x)) \<and> (\<forall>x. x \<notin> X \<longrightarrow> fst s' x = fst s x)"

lemma moves_links_keeps_out: "moves_links X s s' \<Longrightarrow> keeps_out X s s'"
  by (simp add: moves_links_def keeps_out_def)

lemma keeps_out_trans: "keeps_out X s s1 \<Longrightarrow> keeps_out Y s1 s2 \<Longrightarrow> keeps_out (X \<union> Y) s s2"
  by (simp add: keeps_out_def)

lemma keeps_out_tkey: "keeps_out X s s' \<Longrightarrow> tkey (fst s') = tkey (fst s)"
  by (simp add: keeps_out_def tkey_def fun_eq_iff)

lemma map_rep_moved:
  assumes "map_rep s t" "tree_at s' t'" "inorder t' = inorder t" "moves_links X s s'"
  shows "map_rep s' t'"
  using assms(1,2,4) keeps_out_tkey [OF moves_links_keeps_out [OF assms(4)]]
  unfolding map_rep_def assms(3) by (simp add: moves_links_def)

lemma tree_find_plug:
  assumes "trep m par (rt t) t" "t \<noteq> Leaf" "sorted_wrt (key_less m) (inorder t)"
  shows "\<exists>c x A B. tree_find m (rt t) k = Some (x, tkey m x = k) \<and> t = plug c (Node A x B)
    \<and> (\<forall>y\<in>set (before_of c). tkey m y < k) \<and> (\<forall>y\<in>set (after_of c). k < tkey m y)
    \<and> (k < tkey m x \<longrightarrow> A = Leaf) \<and> (tkey m x < k \<longrightarrow> B = Leaf)"
  using assms
proof (induction t arbitrary: par)
  case (Node l x r)
  note prems = Node.prems and IH = Node.IH
  have ch: "trep m x (rt l) l" "trep m x (rt r) r" "tchild (m x) LEFT = rt l" "tchild (m x) RIGHT = rt r"
    using prems(1) trep_root [of m x _ l] trep_root [of m x _ r] by auto
  have srt: "sorted_wrt (key_less m) (inorder l)" "sorted_wrt (key_less m) (inorder r)"
    "\<forall>y\<in>set_tree l. tkey m y < tkey m x" "\<forall>y\<in>set_tree r. tkey m x < tkey m y"
    using prems(3) by (auto simp: sorted_wrt_append)
  have null: "rt t = NULL \<longleftrightarrow> t = Leaf" if "trep m x (rt t) t" for t using that by (cases t) auto
  have here: "\<exists>c y A B. Some (x, b) = Some (y, tkey m y = k) \<and> Node l x r = plug c (Node A y B)
      \<and> (\<forall>z\<in>set (before_of c). tkey m z < k) \<and> (\<forall>z\<in>set (after_of c). k < tkey m z)
      \<and> (k < tkey m y \<longrightarrow> A = Leaf) \<and> (tkey m y < k \<longrightarrow> B = Leaf)"
    if "b = (tkey m x = k)" "k < tkey m x \<longrightarrow> l = Leaf" "tkey m x < k \<longrightarrow> r = Leaf" for b
    using that by (intro exI [of _ "[]"] exI [of _ x] exI [of _ l] exI [of _ r]) simp
  consider (lt) "k < tkey m x" | (gt) "tkey m x < k" | (eq) "k = tkey m x" by (metis linorder_cases)
  then show ?case
  proof cases
    case lt
    have st: "tree_find m (rt (Node l x r)) k = (if l = Leaf then Some (x, False) else tree_find m (rt l) k)"
      using lt ch null by (subst tree_find.simps) (simp add: compare_def)
    show ?thesis
    proof (cases "l = Leaf")
      case True
      then show ?thesis unfolding st using here [of False] lt by (simp add: less_not_sym less_imp_neq [THEN not_sym])
    next
      case False
      from IH(1) [OF ch(1) this srt(1)] obtain c y A B where r: "tree_find m (rt l) k = Some (y, tkey m y = k)"
        "l = plug c (Node A y B)" "\<forall>z\<in>set (before_of c). tkey m z < k" "\<forall>z\<in>set (after_of c). k < tkey m z"
        "k < tkey m y \<longrightarrow> A = Leaf" "tkey m y < k \<longrightarrow> B = Leaf" by blast
      let ?c = "c @ [(LEFT, x, r)]"
      have "Node l x r = plug ?c (Node A y B)" using r(2) by (simp add: plug_append mk_def)
      moreover have "\<forall>z\<in>set (before_of ?c). tkey m z < k" using r(3) by simp
      moreover have "\<forall>z\<in>set (after_of ?c). k < tkey m z" using r(4) lt srt(4) by (auto intro: less_trans)
      ultimately show ?thesis unfolding st using False r(1,5,6)
        by (intro exI [of _ ?c] exI [of _ y] exI [of _ A] exI [of _ B]) simp
    qed
  next
    case gt
    have st: "tree_find m (rt (Node l x r)) k = (if r = Leaf then Some (x, False) else tree_find m (rt r) k)"
      using gt ch null less_not_sym [OF gt] by (subst tree_find.simps) (simp add: compare_def)
    show ?thesis
    proof (cases "r = Leaf")
      case True
      then show ?thesis unfolding st using here [of False] gt by (simp add: less_not_sym less_imp_neq)
    next
      case False
      from IH(2) [OF ch(2) this srt(2)] obtain c y A B where r: "tree_find m (rt r) k = Some (y, tkey m y = k)"
        "r = plug c (Node A y B)" "\<forall>z\<in>set (before_of c). tkey m z < k" "\<forall>z\<in>set (after_of c). k < tkey m z"
        "k < tkey m y \<longrightarrow> A = Leaf" "tkey m y < k \<longrightarrow> B = Leaf" by blast
      let ?c = "c @ [(RIGHT, x, l)]"
      have "Node l x r = plug ?c (Node A y B)" using r(2) by (simp add: plug_append mk_def)
      moreover have "\<forall>z\<in>set (before_of ?c). tkey m z < k" using r(3) gt srt(3) by (auto intro: less_trans)
      moreover have "\<forall>z\<in>set (after_of ?c). k < tkey m z" using r(4) by simp
      ultimately show ?thesis unfolding st using False r(1,5,6)
        by (intro exI [of _ ?c] exI [of _ y] exI [of _ A] exI [of _ B]) simp
    qed
  next
    case eq
    then have "tree_find m (rt (Node l x r)) k = Some (x, True)" by (subst tree_find.simps) (simp add: compare_def)
    with here [of True] eq show ?thesis by auto
  qed
qed simp

lemma tree_find_place:
  assumes "trep m par (rt t) t" "t \<noteq> Leaf" "sorted_wrt (key_less m) (inorder t)"
  shows "\<exists>c x A B. tree_find m (rt t) k = Some (x, tkey m x = k) \<and> t = plug c (Node A x B)
    \<and> (\<forall>y\<in>set (before_of c @ inorder A). tkey m y < k) \<and> (\<forall>y\<in>set (inorder B @ after_of c). k < tkey m y)
    \<and> (k < tkey m x \<longrightarrow> A = Leaf) \<and> (tkey m x < k \<longrightarrow> B = Leaf)"
proof -
  from tree_find_plug [OF assms, of k] obtain c x A B where
    f: "tree_find m (rt t) k = Some (x, tkey m x = k)" "t = plug c (Node A x B)" "\<forall>y\<in>set (before_of c). tkey m y < k"
      "\<forall>y\<in>set (after_of c). k < tkey m y" "k < tkey m x \<longrightarrow> A = Leaf" "tkey m x < k \<longrightarrow> B = Leaf" by blast
  have "\<forall>y\<in>set_tree A. tkey m y < tkey m x" "\<forall>y\<in>set_tree B. tkey m x < tkey m y"
    using assms(3) unfolding f(2) by (auto simp: inorder_plug sorted_wrt_append)
  moreover have "A \<noteq> Leaf \<Longrightarrow> tkey m x \<le> k" "B \<noteq> Leaf \<Longrightarrow> k \<le> tkey m x" using f(5,6) not_less by blast+
  ultimately have "\<forall>y\<in>set_tree A. tkey m y < k" "\<forall>y\<in>set_tree B. k < tkey m y"
    by (cases "A = Leaf", simp, force, cases "B = Leaf", simp, force)
  with f(3,4) have "\<forall>y\<in>set (before_of c @ inorder A). tkey m y < k" "\<forall>y\<in>set (inorder B @ after_of c). k < tkey m y" by auto
  with f(1,2,5,6) show ?thesis by blast
qed

lemma map_rep_root: "map_rep (m, h) t \<Longrightarrow> hparent h = rt t \<and> (hparent h = NULL \<longleftrightarrow> t = Leaf)"
  unfolding map_rep_def tree_at_def using trep_root [of m NULL "hparent h" t] by (cases t) auto

text \<open>A search that splays: the list of nodes stays as it is, and the hint is the node or a neighbour of its place.\<close>

lemma find_hint_holds:
  assumes "holds s xs"
  shows "\<exists>found hint s'. find_hint k s = Some (found, hint, s') \<and> holds s' xs \<and> moves_links (set xs) s s'
    \<and> (found \<longleftrightarrow> k \<in> tkey (fst s) ` set xs) \<and> (hint = NULL \<longleftrightarrow> xs = [])
    \<and> (xs \<noteq> [] \<longrightarrow> (\<exists>us vs. xs = us @ hint # vs \<and> (\<forall>y\<in>set us. tkey (fst s) y < k) \<and> (\<forall>y\<in>set vs. k < tkey (fst s) y)
         \<and> (found \<longleftrightarrow> tkey (fst s) hint = k)))"
proof -
  obtain t where t: "inorder t = xs" "map_rep s t" using assms by (auto simp: holds_def)
  obtain m h where s: "s = (m, h)" by (cases s)
  have at: "tree_at (m, h) t" and srt: "sorted_wrt (key_less m) (inorder t)" using t(2) by (simp_all add: map_rep_def s)
  show ?thesis
  proof (cases "t = Leaf")
    case True
    then have "find_hint k s = Some (False, NULL, s)" using map_rep_root [of m h t] t(2) by (simp add: find_hint_def s)
    then show ?thesis using assms t True by (auto intro: moves_links_refl)
  next
    case False
    have root: "hparent h = rt t" "hparent h \<noteq> NULL" using map_rep_root [of m h t] t(2) False by (auto simp: s)
    have "trep m NULL (rt t) t" using at root by (simp add: tree_at_def)
    from tree_find_place [OF this False srt, of k] obtain c x A B where
      f: "tree_find m (rt t) k = Some (x, tkey m x = k)" "t = plug c (Node A x B)"
        "\<forall>y\<in>set (before_of c @ inorder A). tkey m y < k" "\<forall>y\<in>set (inorder B @ after_of c). k < tkey m y" by blast
    obtain s' A' B' where sp: "splay x (m, h) = Some s'" "tree_at s' (Node A' x B')" "inorder (Node A' x B') = inorder t" "moves_links (set_tree t) (m, h) s'"
      using splay_plug [OF at [unfolded f(2)]] f(2) by auto
    have "find_hint k s = Some (tkey m x = k, x, s')" using root f(1) sp(1) by (simp add: find_hint_def s)
    moreover have "holds s' xs" unfolding holds_def
      using map_rep_moved [OF t(2) [unfolded s] sp(2,3,4)] sp(3) t(1) by metis
    moreover have mv: "moves_links (set xs) s s'" using sp(4) t(1) by (metis s set_inorder)
    moreover have xs: "xs = (before_of c @ inorder A) @ x # (inorder B @ after_of c)" using t(1) f(2) by (simp add: inorder_plug)
    moreover note lt = f(3,4)
    moreover have "tkey m x = k \<longleftrightarrow> k \<in> tkey m ` set xs" using lt unfolding xs by auto
    moreover have "x \<noteq> NULL" using trep_not_null at f(2) by (auto simp: tree_at_def dest: trep_not_null)
    ultimately show ?thesis
      by (intro exI [of _ "tkey m x = k"] exI [of _ x] exI [of _ s'] conjI impI exI [of _ "before_of c @ inorder A"]
          exI [of _ "inorder B @ after_of c"]) (simp_all add: s)
  qed
qed

section \<open>Insertion\<close>

lemma tree_insert_plug:
  assumes at: "tree_at (m, h) (plug ((d, x, S) # c) Leaf)" and n: "n \<notin> set_tree (plug ((d, x, S) # c) Leaf)" "n \<noteq> NULL"
    and ch: "\<And>d. tchild (m n) d = NULL"
    and dir: "d = (if tkey m n < tkey m x then LEFT else RIGHT)"
  shows "\<exists>m'. tree_insert x n m = Some m' \<and> tree_at (m', h) (plug ((d, x, S) # c) (Node Leaf n Leaf))
    \<and> keeps_out (insert n (set_tree (plug ((d, x, S) # c) Leaf))) (m, h) (m', h)
    \<and> (\<forall>y e. y = x \<and> e = d \<or> tchild (m' y) e = tchild (m y) e) \<and> tchild (m' x) d = n"
proof -
  have t: "crep m (hparent h) NULL ((d, x, S) # c)" "distinct (before_of ((d, x, S) # c) @ after_of ((d, x, S) # c))"
    using at by (auto simp: tree_at_def trep_plug inorder_plug simp del: plug.simps)
  have x: "tchild (m x) d = NULL" "n \<noteq> x" "n \<notin> frames_set ((d, x, S) # c)" using t(1) n(1) by auto
  let ?m = "set_parent n x (set_child x d n m)"
  have ins: "tree_insert x n m = Some ?m"
    using x dir by (subst tree_insert.simps) (auto simp: compare_def Let_def)
  have c: "crep ?m (hparent h) n ((d, x, S) # c)"
    by (rule crep_relink [OF t]) (use x in \<open>auto simp: set_parent_def set_child_def\<close>)
  have leaf: "trep ?m x n (Node Leaf n Leaf)" using ch x n by (simp add: set_parent_def set_child_def)
  have "distinct (inorder (plug ((d, x, S) # c) (Node Leaf n Leaf)))"
    using t(2) x(3) unfolding frames_set_eq inorder_plug by auto
  with c leaf have "tree_at (?m, h) (plug ((d, x, S) # c) (Node Leaf n Leaf))"
    by (simp add: tree_at_def trep_plug del: plug.simps)
  moreover have "keeps_out (insert n (set_tree (plug ((d, x, S) # c) Leaf))) (m, h) (?m, h)"
    by (auto simp: keeps_out_def set_parent_def set_child_def)
  moreover have "(\<forall>y e. y = x \<and> e = d \<or> tchild (?m y) e = tchild (m y) e) \<and> tchild (?m x) d = n"
    using x(2) by (auto simp: set_parent_def set_child_def)
  ultimately show ?thesis using ins by blast
qed

lemma utmost_stop: "tchild (m n) d = NULL \<Longrightarrow> utmost d m n = Some n"
  by (subst utmost.simps) simp

lemma utmost_step: "tchild (m n) d = x \<Longrightarrow> x \<noteq> NULL \<Longrightarrow> tchild (m x) d = NULL \<Longrightarrow> utmost d m n = Some x"
  by (subst utmost.simps) (simp add: utmost_stop)

text \<open>After the new node is linked the ends are found from the old ends.\<close>

lemma new_ends:
  assumes at: "tree_at (m, h) (plug ((d, x, S) # c) Leaf)"
    and m': "\<forall>y e. y = x \<and> e = d \<or> tchild (m' y) e = tchild (m y) e" "tchild (m' x) d = n" "n \<noteq> x" "n \<noteq> NULL" "\<And>e. tchild (m n) e = NULL"
  shows "leftmost m' (first0 (inorder (plug ((d, x, S) # c) Leaf))) = Some (first0 (inorder (plug ((d, x, S) # c) (Node Leaf n Leaf))))"
    "rightmost m' (final0 (inorder (plug ((d, x, S) # c) Leaf))) = Some (final0 (inorder (plug ((d, x, S) # c) (Node Leaf n Leaf))))"
proof -
  let ?t = "plug ((d, x, S) # c) Leaf"
  let ?f = "first0 (inorder ?t)" and ?l = "final0 (inorder ?t)"
  have ne: "?t \<noteq> Leaf" by (metis UnI2 empty_iff frames_set.simps(2) insertI1 set_plug tree.set(1))
  note e = end_children [OF at ne]
  have d: "distinct (inorder ?t)" using at by (simp add: tree_at_def)
  have n0: "tchild (m' n) e = NULL" for e using m' by metis
  show "leftmost m' ?f = Some (first0 (inorder (plug ((d, x, S) # c) (Node Leaf n Leaf))))"
  proof (cases "d = LEFT \<and> before_of c = []")
    case True
    then have "?f = x" by (simp add: inorder_plug mk_def)
    moreover have "utmost LEFT m' x = Some n" by (rule utmost_step) (use True m' n0 in auto)
    ultimately show ?thesis using True by (simp add: leftmost_def inorder_plug mk_def)
  next
    case False
    have "\<not> (?f = x \<and> LEFT = d)"
    proof
      assume a: "?f = x \<and> LEFT = d"
      then have "before_of c \<noteq> []" "x = hd (before_of c)" using False by (auto simp: inorder_plug mk_def first0_append first0_def split: if_splits)
      then show False using d a by (auto simp: inorder_plug mk_def)
    qed
    then have "tchild (m' ?f) LEFT = tchild (m ?f) LEFT" using m'(1) by blast
    then have "leftmost m' ?f = Some ?f" using e(1) by (simp add: leftmost_def utmost_stop del: plug.simps)
    moreover have "?f = first0 (inorder (plug ((d, x, S) # c) (Node Leaf n Leaf)))"
      using False by (cases d) (auto simp: inorder_plug mk_def first0_append)
    ultimately show ?thesis by simp
  qed
  show "rightmost m' ?l = Some (final0 (inorder (plug ((d, x, S) # c) (Node Leaf n Leaf))))"
  proof (cases "d = RIGHT \<and> after_of c = []")
    case True
    then have "?l = x" by (simp add: inorder_plug mk_def final0_append final0_Cons)
    moreover have "utmost RIGHT m' x = Some n" by (rule utmost_step) (use True m' n0 in auto)
    ultimately show ?thesis using True by (simp add: rightmost_def inorder_plug mk_def final0_append final0_Cons)
  next
    case False
    have "\<not> (?l = x \<and> RIGHT = d)"
    proof
      assume a: "?l = x \<and> RIGHT = d"
      then have "after_of c \<noteq> []" "x = last (after_of c)" using False by (auto simp: inorder_plug mk_def final0_append final0_Cons final0_def split: if_splits)
      then show False using d a by (auto simp: inorder_plug mk_def)
    qed
    then have "tchild (m' ?l) RIGHT = tchild (m ?l) RIGHT" using m'(1) by blast
    then have "rightmost m' ?l = Some ?l" using e(2) by (simp add: rightmost_def utmost_stop del: plug.simps)
    moreover have "?l = final0 (inorder (plug ((d, x, S) # c) (Node Leaf n Leaf)))"
      using False by (cases d) (auto simp: inorder_plug mk_def final0_append final0_Cons)
    ultimately show ?thesis by simp
  qed
qed

lemma mk_leaf: "d = LEFT \<and> A = Leaf \<or> d = RIGHT \<and> B = Leaf \<Longrightarrow> Node A x B = mk d Leaf x (case d of LEFT \<Rightarrow> B | RIGHT \<Rightarrow> A)"
  by (auto simp: mk_def)

lemma insert_node_holds:
  assumes "holds (m, h) xs" "n \<notin> set xs" "n \<noteq> NULL" "\<And>d. tchild (m n) d = NULL" "tkey m n \<notin> tkey m ` set xs"
  shows "\<exists>s' us vs. insert_node n (m, h) = Some s' \<and> xs = us @ vs \<and> holds s' (us @ n # vs) \<and> keeps_out (insert n (set xs)) (m, h) s'"
proof -
  obtain t where t: "inorder t = xs" "map_rep (m, h) t" using assms(1) by (auto simp: holds_def)
  have at: "tree_at (m, h) t" and srt: "sorted_wrt (key_less m) (inorder t)" using t(2) by (simp_all add: map_rep_def)
  note root = map_rep_root [OF t(2)]
  show ?thesis
  proof (cases "t = Leaf")
    case True
    let ?s = "(set_parent n NULL (set_child n LEFT NULL (set_child n RIGHT NULL m)), h\<lparr>hparent := n, hchild := (\<lambda>d. n), hsize := hsize h + 1\<rparr>)"
    have "insert_node n (m, h) = Some ?s" using root True by (simp add: insert_node_def)
    moreover have "map_rep ?s (Node Leaf n Leaf)"
      using t(2) True assms(3) by (auto simp: map_rep_def tree_at_def set_parent_def set_child_def fun_eq_iff final0_def split: DIRECTION.splits)
    moreover have "keeps_out (insert n (set xs)) (m, h) ?s"
      by (auto simp: keeps_out_def set_parent_def set_child_def)
    ultimately show ?thesis using t(1) True
      by (intro exI [of _ ?s] exI [of _ "[]"]) (auto simp: holds_def intro!: exI [of _ "Node Leaf n Leaf"])
  next
    case False
    have "trep m NULL (rt t) t" using at root by (simp add: tree_at_def)
    from tree_find_plug [OF this False srt, of "tkey m n"] obtain c x A B where
      f: "tree_find m (rt t) (tkey m n) = Some (x, tkey m x = tkey m n)" "t = plug c (Node A x B)" "\<forall>y\<in>set (before_of c). tkey m y < tkey m n"
        "\<forall>y\<in>set (after_of c). tkey m n < tkey m y" "tkey m n < tkey m x \<longrightarrow> A = Leaf" "tkey m x < tkey m n \<longrightarrow> B = Leaf" by blast
    have "xs = before_of c @ inorder A @ x # inorder B @ after_of c" using t(1) f(2) by (simp add: inorder_plug)
    then have "x \<in> set xs" by simp
    then have ne: "tkey m x \<noteq> tkey m n" using assms(5) by (metis imageI)
    define d where "d = (if tkey m n < tkey m x then LEFT else RIGHT)"
    define S where "S = (case d of LEFT \<Rightarrow> B | RIGHT \<Rightarrow> A)"
    have "Node A x B = mk d Leaf x S" unfolding S_def by (rule mk_leaf) (use f(5,6) ne in \<open>auto simp: d_def not_less le_less\<close>)
    then have tp: "t = plug ((d, x, S) # c) Leaf" using f(2) by simp
    let ?t = "plug ((d, x, S) # c) (Node Leaf n Leaf)"
    have n: "n \<notin> set_tree (plug ((d, x, S) # c) Leaf)" using assms(2) t(1) tp by (metis set_inorder)
    obtain m1 where m1: "tree_insert x n m = Some m1" "tree_at (m1, h) ?t" "keeps_out (insert n (set_tree t)) (m, h) (m1, h)"
      "\<forall>y e. y = x \<and> e = d \<or> tchild (m1 y) e = tchild (m y) e" "tchild (m1 x) d = n"
      using tree_insert_plug [OF at [unfolded tp] n assms(3,4) d_def] tp by metis
    have nx: "n \<noteq> x" using n by auto
    note ends = new_ends [OF at [unfolded tp] m1(4,5) nx assms(3,4)]
    let ?h = "h\<lparr>hchild := (\<lambda>d. case d of LEFT \<Rightarrow> first0 (inorder ?t) | RIGHT \<Rightarrow> final0 (inorder ?t))\<rparr>"
    have "tree_at (m1, ?h) ?t" using m1(2) by (simp add: tree_at_def)
    from splay_plug [OF this] obtain s2 A2 B2 where sp: "splay n (m1, ?h) = Some s2" "tree_at s2 (Node A2 n B2)"
      "inorder (Node A2 n B2) = inorder ?t" "moves_links (set_tree ?t) (m1, ?h) s2" by blast
    obtain m2 h2 where s2: "s2 = (m2, h2)" by (cases s2)
    let ?s = "(m2, h2\<lparr>hsize := hsize h2 + 1\<rparr>)"
    have hc: "hchild h LEFT = first0 (inorder t)" "hchild h RIGHT = final0 (inorder t)" "hsize h = of_nat (length (inorder t))"
      using t(2) by (simp_all add: map_rep_def)
    have "insert_node n (m, h) = Some ?s"
      using root False f(1) m1(1) ends hc(1,2) sp(1) tp by (simp add: insert_node_def s2 del: plug.simps)
    moreover have ko: "keeps_out (insert n (set xs)) (m, h) ?s"
    proof -
      have X: "set_tree ?t = insert n (set_tree t)" "set_tree t = set xs" using tp t(1) by auto
      have "keeps_out (insert n (set_tree t)) (m1, h) ?s" using sp(4) [unfolded X(1)] by (simp add: s2 moves_links_def keeps_out_def)
      with m1(3) show ?thesis unfolding X by (auto simp: keeps_out_def)
    qed
    moreover have io: "inorder ?t = (before_of ((d, x, S) # c)) @ n # after_of ((d, x, S) # c)"
      "xs = before_of ((d, x, S) # c) @ after_of ((d, x, S) # c)" using t(1) tp by (simp_all add: inorder_plug del: plug.simps)
    moreover have "map_rep ?s (Node A2 n B2)"
    proof -
      have "sorted_wrt (key_less m) (inorder ?t)"
      proof -
        have "\<forall>y\<in>set (before_of ((d, x, S) # c)). tkey m y < tkey m n" "\<forall>y\<in>set (after_of ((d, x, S) # c)). tkey m n < tkey m y"
        proof -
          have S: "d = LEFT \<Longrightarrow> (\<forall>y\<in>set_tree S. tkey m x < tkey m y) \<and> tkey m n < tkey m x"
            "d = RIGHT \<Longrightarrow> (\<forall>y\<in>set_tree S. tkey m y < tkey m x) \<and> tkey m x < tkey m n"
            using srt ne unfolding t(1) io(2) by (auto simp: d_def sorted_wrt_append split: if_splits)
          then show "\<forall>y\<in>set (before_of ((d, x, S) # c)). tkey m y < tkey m n" "\<forall>y\<in>set (after_of ((d, x, S) # c)). tkey m n < tkey m y"
            using f(3,4) by (cases d; force intro: less_trans)+
        qed
        with srt show ?thesis unfolding io(1) t(1) io(2) by (auto simp: sorted_wrt_append simp del: before_of.simps after_of.simps)
      qed
      then have "sorted_wrt (key_less m2) (inorder (Node A2 n B2))" using sp(3) keeps_out_tkey [OF ko] by simp
      moreover have "tree_at ?s (Node A2 n B2)" using sp(2) by (simp add: tree_at_def s2)
      moreover have "hsize h2 = of_nat (length xs)" "hchild h2 = hchild ?h" using sp(4) hc(3) t(1) by (simp_all add: moves_links_def s2 del: plug.simps)
      moreover have "length (inorder (Node A2 n B2)) = Suc (length xs)" unfolding sp(3) io by simp
      ultimately show ?thesis unfolding map_rep_def sp(3) by (simp add: add.commute del: plug.simps)
    qed
    ultimately show ?thesis unfolding holds_def using sp(3) by metis
  qed
qed

section \<open>Removal\<close>

text \<open>Another tree in a place: the parent link of its root and the child link of the frame are set.\<close>

lemma replace_subtree:
  assumes t: "crep m root a c" "distinct (before_of c @ after_of c)" "NULL \<notin> frames_set c"
    and T: "trep m par (rt T) T" "distinct (inorder T)" "set_tree T \<inter> frames_set c = {}"
    and m': "\<And>x. x \<notin> {cpar c, rt T} \<Longrightarrow> m' x = m x" "rt T \<noteq> NULL \<Longrightarrow> m' (rt T) = (m (rt T))\<lparr>tparent := cpar c\<rparr>"
      "\<And>d x s c'. c = (d, x, s) # c' \<Longrightarrow> m' x = (m x)\<lparr>tchild := (tchild (m x))(d := rt T)\<rparr>"
    and root': "root' = (if c = [] then rt T else root)"
  shows "trep m' NULL root' (plug c T)"
proof -
  have rT: "rt T \<noteq> NULL \<Longrightarrow> rt T \<in> set_tree T" by (rule rt_in)
  have "crep m' root' (rt T) c"
  proof (rule crep_relink [OF t(1,2)])
    fix x assume "x \<in> frames_set c" "x \<noteq> cpar c"
    moreover have "x \<noteq> rt T" using \<open>x \<in> frames_set c\<close> rT T(3) t(3) by (cases "rt T = NULL") auto
    ultimately show "m' x = m x" using m'(1) by simp
  qed (use m'(3) root' in auto)
  moreover have "trep m' (cpar c) (rt T) T"
  proof (rule trep_reparent [OF T(1,2)])
    fix x assume "x \<in> set_tree T" "x \<noteq> rt T"
    moreover have "x \<noteq> cpar c"
    proof (cases c)
      case Nil
      then show ?thesis using \<open>x \<in> set_tree T\<close> trep_not_null [OF T(1)] by (metis cpar.simps(1))
    next
      case (Cons f c')
      then show ?thesis using \<open>x \<in> set_tree T\<close> T(3) cpar_in [of c] by auto
    qed
    ultimately show "m' x = m x" using m'(1) by simp
  qed (use m'(2) in simp)
  ultimately show ?thesis by (simp add: trep_plug)
qed

lemma splice_out_plug:
  assumes at: "tree_at (m, h) (plug c (Node A y B))" and "A = Leaf \<or> B = Leaf"
  defines "T \<equiv> (if A = Leaf then B else A)"
  shows "\<exists>m' h'. splice_out y (m, h) = (m', h') \<and> tree_at (m', h') (plug c T)
    \<and> moves_links (set_tree (plug c (Node A y B))) (m, h) (m', h') \<and> m' y = m y"
proof -
  have mk: "Node A y B = mk LEFT A y B" by (simp add: mk_def)
  note f = focusD [OF at [unfolded mk]]
  have ch: "tchild (m y) LEFT = rt A" "tchild (m y) RIGHT = rt B"
    using f(3,4) trep_root [of m y _ A] trep_root [of m y _ B] by auto
  have nullA: "rt A = NULL \<longleftrightarrow> A = Leaf" using f(3) by (cases A) auto
  have T: "trep m y (rt T) T" "distinct (inorder T)" "set_tree T \<inter> frames_set c = {}" "y \<notin> set_tree T"
    using f ch by (auto simp: T_def)
  have rT: "rt T \<noteq> NULL \<Longrightarrow> rt T \<in> set_tree T" by (rule rt_in)
  have yT: "y \<noteq> rt T" using rT T(4) f(1) by (cases "rt T = NULL") auto
  have x: "(if tchild (m y) LEFT \<noteq> NULL then tchild (m y) LEFT else tchild (m y) RIGHT) = rt T"
    using ch nullA by (auto simp: T_def)
  let ?g = "cpar c"
  have gT: "?g \<noteq> NULL \<Longrightarrow> ?g \<noteq> rt T" "?g = NULL \<longleftrightarrow> c = []" "?g \<noteq> y"
    using cpar_in [of c] T(3) rT f(1,9,15) by (cases c; auto)+
  define m1 where "m1 = (if rt T \<noteq> NULL then set_parent (rt T) ?g m else m)"
  define m' where "m' = (if ?g = NULL then m1 else set_child ?g (direction m1 ?g y) (rt T) m1)"
  define h' where "h' = (if ?g = NULL then h\<lparr>hparent := rt T\<rparr> else h)"
  have m1y: "m1 y = m y" using yT by (simp add: m1_def set_parent_def)
  have "splice_out y (m, h) = (m', h')"
    unfolding splice_out_def prod.case Let_def x f(2) m1_def [symmetric]
    using m1y f(2) by (simp add: m'_def h'_def)
  moreover have "trep m' NULL (hparent h') (plug c T)"
  proof (rule replace_subtree [OF f(5) f(6) f(15) T(1-3)])
    fix d x s c' assume c: "c = (d, x, s) # c'"
    have "direction m x y = d" by (rule direction_frame [of m "hparent h" y d x s c']) (use f(1,5,9) c in auto)
    moreover have "m1 x = m x" using gT c by (simp add: m1_def set_parent_def)
    ultimately show "m' x = (m x)\<lparr>tchild := (tchild (m x))(d := rt T)\<rparr>"
      using gT(2) c by (simp add: m'_def set_child_def direction_def)
  next
    assume "rt T \<noteq> NULL"
    then show "m' (rt T) = (m (rt T))\<lparr>tparent := ?g\<rparr>"
      using gT by (auto simp: m'_def m1_def set_child_def set_parent_def)
  qed (use gT(2) in \<open>auto simp: m'_def m1_def h'_def set_child_def set_parent_def\<close>)
  moreover have "distinct (inorder (plug c T))"
    using at unfolding tree_at_def T_def by (auto simp: inorder_plug)
  moreover have "moves_links (set_tree (plug c (Node A y B))) (m, h) (m', h')"
  proof -
    have "?g \<noteq> NULL \<Longrightarrow> ?g \<in> frames_set c" "rt T \<noteq> NULL \<Longrightarrow> rt T \<in> set_tree A \<union> set_tree B"
      using cpar_in [of c] gT(2) rT by (auto simp: T_def split: if_splits)
    then show ?thesis by (auto simp: moves_links_def m'_def m1_def h'_def set_child_def set_parent_def)
  qed
  moreover have "m' y = m y" using m1y gT(3) by (simp add: m'_def set_child_def)
  ultimately show ?thesis by (auto simp: tree_at_def)
qed

lemma adopt_eq:
  "adopt y n d m =
     (\<lambda>x. if x = y then (m y)\<lparr>tchild := (tchild (m y))(d := tchild (m n) d)\<rparr>
          else if tchild (m n) d \<noteq> NULL \<and> x = tchild (m n) d then (m x)\<lparr>tparent := y\<rparr> else m x)"
  if "tchild (m n) d \<noteq> y"
  using that by (auto simp: adopt_def set_child_def set_parent_def Let_def fun_eq_iff)

lemma replace_node_plug:
  assumes at: "tree_at (m, h) (plug c (Node A n B))" and y: "y \<notin> set_tree (plug c (Node A n B))" "y \<noteq> NULL"
  shows "\<exists>m' h'. replace_node n y (m, h) = (m', h') \<and> tree_at (m', h') (plug c (Node A y B))
    \<and> moves_links (insert y (set_tree (plug c (Node A n B)))) (m, h) (m', h')"
proof -
  have mk: "Node A n B = mk LEFT A n B" by (simp add: mk_def)
  note f = focusD [OF at [unfolded mk]]
  have ch: "tchild (m n) LEFT = rt A" "tchild (m n) RIGHT = rt B"
    using f(3,4) trep_root [of m n _ A] trep_root [of m n _ B] by auto
  have rA: "rt A \<noteq> NULL \<Longrightarrow> rt A \<in> set_tree A" and rB: "rt B \<noteq> NULL \<Longrightarrow> rt B \<in> set_tree B" by (simp_all add: rt_in)
  have yn: "y \<noteq> n" "y \<notin> set_tree A" "y \<notin> set_tree B" "y \<notin> frames_set c" using y by auto
  let ?g = "cpar c"
  have g: "?g = NULL \<longleftrightarrow> c = []" "?g \<noteq> n" "?g \<noteq> y" "?g \<noteq> NULL \<Longrightarrow> ?g \<in> frames_set c"
    using cpar_in [of c] f(1,9,15) yn(4) y(2) by (cases c; auto)+
  define m1 where "m1 = set_parent y ?g m"
  define m2 where "m2 = (if ?g \<noteq> NULL then set_child ?g (direction m1 ?g n) y m1 else m1)"
  define h' where "h' = (if ?g \<noteq> NULL then h else h\<lparr>hparent := y\<rparr>)"
  define m' where "m' = adopt y n RIGHT (adopt y n LEFT m2)"
  have m2: "m2 n = m n" "m2 y = (m y)\<lparr>tparent := ?g\<rparr>" "\<And>x. x \<noteq> y \<Longrightarrow> x \<noteq> ?g \<Longrightarrow> m2 x = m x"
    using yn(1) g(2,3) by (auto simp: m2_def m1_def set_child_def set_parent_def)
  have ne: "rt A \<noteq> y" "rt B \<noteq> y" "rt A \<noteq> n" "rt B \<noteq> n" using rA rB yn y(2) f(1,7,8) by metis+
  have a1: "adopt y n LEFT m2 = (\<lambda>x. if x = y then (m2 y)\<lparr>tchild := (tchild (m2 y))(LEFT := rt A)\<rparr>
      else if rt A \<noteq> NULL \<and> x = rt A then (m2 x)\<lparr>tparent := y\<rparr> else m2 x)"
    using adopt_eq [of m2 n LEFT y, unfolded m2(1) ch] ne by simp
  then have a1n: "adopt y n LEFT m2 n = m n" using yn(1) ne m2(1) by auto
  have rAB: "rt A \<noteq> NULL \<Longrightarrow> rt A \<noteq> rt B" using rA rB f(10) by auto
  have m': "m' = (\<lambda>x. if x = y then (m2 y)\<lparr>tchild := (tchild (m2 y))(LEFT := rt A, RIGHT := rt B)\<rparr>
      else if rt A \<noteq> NULL \<and> x = rt A \<or> rt B \<noteq> NULL \<and> x = rt B then (m2 x)\<lparr>tparent := y\<rparr> else m2 x)"
    using adopt_eq [of "adopt y n LEFT m2" n RIGHT y, unfolded a1n ch] ne rAB by (auto simp: m'_def a1 fun_eq_iff)
  have r: "replace_node n y (m, h) = (m', h')"
    unfolding replace_node_def prod.case Let_def f(2) m1_def [symmetric]
    using g by (auto simp: m1_def set_parent_def m2_def h'_def m'_def)
  have gA: "?g \<noteq> NULL \<Longrightarrow> ?g \<notin> set_tree A \<and> ?g \<notin> set_tree B" using g(4) f(11,12) by auto
  have out: "m2 x = m x" if "x \<in> set_tree A \<union> set_tree B" for x
  proof -
    have "x \<noteq> ?g" using that gA trep_not_null [OF f(3)] trep_not_null [OF f(4)] by (metis UnE)
    with that m2(3) [of x] yn show ?thesis by auto
  qed
  have A: "trep m' y (rt A) A"
    by (rule trep_reparent [OF f(3) [unfolded ch] f(13)]) (use yn rA rB f(10) out ne in \<open>auto simp: m'\<close>)
  have B: "trep m' y (rt B) B"
    by (rule trep_reparent [of m n "rt B" B]) (use f(4,14) ch yn rA rB f(10) out ne in \<open>auto simp: m'\<close>)
  have C: "crep m' (hparent h') y c"
  proof (rule crep_relink [OF f(5,6)])
    fix x assume "x \<in> frames_set c" "x \<noteq> cpar c"
    then show "m' x = m x" using m2(3) [of x] yn f(11,12,15) rA rB by (auto simp: m')
  next
    fix d x s c' assume c: "c = (d, x, s) # c'"
    have "direction m x n = d" by (rule direction_frame [of m "hparent h" n d x s c']) (use f(1,5,9) c in auto)
    moreover have "x \<noteq> y" "x \<noteq> NULL" using c yn(4) f(5) by auto
    ultimately have "m2 x = (m x)\<lparr>tchild := (tchild (m x))(d := y)\<rparr>"
      using c by (simp add: m2_def m1_def set_child_def set_parent_def direction_def)
    moreover have "x \<noteq> rt A" "x \<noteq> rt B" using c \<open>x \<noteq> NULL\<close> f(11,12) rA rB by auto
    ultimately show "m' x = (m x)\<lparr>tchild := (tchild (m x))(d := y)\<rparr>" using \<open>x \<noteq> y\<close> by (simp add: m')
  qed (use g(1) in \<open>auto simp: h'_def\<close>)
  have "trep m' ?g y (Node A y B)" using A B y(2) m2(2) by (simp add: m')
  moreover have "distinct (inorder (plug c (Node A y B)))"
    using at yn unfolding tree_at_def inorder_plug frames_set_eq by auto
  ultimately have "tree_at (m', h') (plug c (Node A y B))" using C by (simp add: tree_at_def trep_plug)
  moreover have "moves_links (insert y (set_tree (plug c (Node A n B)))) (m, h) (m', h')"
  proof -
    have "tdata (m2 x) = tdata (m x)" for x by (simp add: m2_def m1_def set_child_def set_parent_def)
    moreover have "m2 x = m x" if "x \<notin> insert y (set_tree (plug c (Node A n B)))" for x
      using that g(4) by (auto simp: m2_def m1_def set_child_def set_parent_def)
    ultimately show ?thesis using rA rB by (auto simp: moves_links_def m' h'_def)
  qed
  ultimately show ?thesis using r by blast
qed

lemma fix_ends_plug:
  assumes at: "tree_at (m, h) t" "t = plug c (Node A n B)"
    and h: "hchild h = (\<lambda>d. case d of LEFT \<Rightarrow> first0 (inorder t) | RIGHT \<Rightarrow> final0 (inorder t))"
  defines "ys \<equiv> before_of c @ inorder A @ inorder B @ after_of c"
  shows "fix_ends n (m, h) = Some (h\<lparr>hchild := (\<lambda>d. case d of LEFT \<Rightarrow> first0 ys | RIGHT \<Rightarrow> final0 ys), hsize := hsize h - 1\<rparr>)"
proof -
  have io: "inorder t = before_of c @ inorder A @ n # inorder B @ after_of c" using at(2) by (simp add: inorder_plug)
  have "distinct (inorder t)" using at by (simp add: tree_at_def)
  then have n: "n \<notin> set (before_of c @ inorder A)" "n \<notin> set (inorder B @ after_of c)" unfolding io by auto
  have f: "first0 (inorder t) = (if before_of c @ inorder A = [] then n else first0 (before_of c @ inorder A))"
    "final0 (inorder t) = (if inorder B @ after_of c = [] then n else final0 (inorder B @ after_of c))"
    unfolding io by (auto simp: first0_append final0_append final0_Cons)
  have in0: "xs \<noteq> [] \<Longrightarrow> first0 xs \<in> set xs \<and> final0 xs \<in> set xs" for xs by (simp add: first0_def final0_def)
  have fn: "first0 (inorder t) = n \<longleftrightarrow> before_of c @ inorder A = []" "final0 (inorder t) = n \<longleftrightarrow> inorder B @ after_of c = []"
    unfolding f using n in0 by metis+
  have ys: "first0 ys = (if before_of c @ inorder A = [] then first0 (inorder B @ after_of c) else first0 (before_of c @ inorder A))"
    "final0 ys = (if inorder B @ after_of c = [] then final0 (before_of c @ inorder A) else final0 (inorder B @ after_of c))"
    by (auto simp: ys_def first0_append final0_append)
  show ?thesis
    unfolding fix_ends_def h prod.case
    using successor_plug [OF at(1) [unfolded at(2)]] predecessor_plug [OF at(1) [unfolded at(2)]] fn f ys
    by (simp del: append_is_Nil_conv)
qed

lemma place_of:
  assumes "tree_at s t" "inorder t = us @ n # vs"
  shows "\<exists>c A B. t = plug c (Node A n B) \<and> us = before_of c @ inorder A \<and> vs = inorder B @ after_of c"
proof -
  have "n \<in> set_tree t" using assms(2) by (metis in_set_conv_decomp set_inorder)
  then obtain c A B where tp: "t = plug c (Node A n B)" using focus_ex by metis
  have "distinct (us @ n # vs)" using assms by (simp add: tree_at_def)
  then have "n \<notin> set us" "n \<notin> set vs" by auto
  moreover have "us @ n # vs = (before_of c @ inorder A) @ n # (inorder B @ after_of c)" using assms(2) tp by (simp add: inorder_plug)
  ultimately have "us = before_of c @ inorder A" "vs = inorder B @ after_of c"
    using append_Cons_eq_iff [of n us vs "before_of c @ inorder A" "inorder B @ after_of c"] by simp_all
  with tp show ?thesis by blast
qed

lemma map_repI:
  assumes "tree_at s t" "hchild (snd s) = (\<lambda>d. case d of LEFT \<Rightarrow> first0 ys | RIGHT \<Rightarrow> final0 ys)" "hsize (snd s) = of_nat (length ys)"
    "sorted_wrt (key_less (fst s)) ys" "inorder t = ys"
  shows "holds s ys"
  using assms unfolding holds_def map_rep_def by metis

lemma remove_node_holds:
  assumes "holds (m, h) (us @ n # vs)"
  shows "\<exists>s'. remove_node n (m, h) = Some s' \<and> holds s' (us @ vs) \<and> keeps_out (set (us @ n # vs)) (m, h) s'"
proof -
  let ?xs = "us @ n # vs"
  obtain t where t: "inorder t = ?xs" "map_rep (m, h) t" using assms by (auto simp: holds_def)
  have at: "tree_at (m, h) t" and srt: "sorted_wrt (key_less m) ?xs" and hc: "hchild h = (\<lambda>d. case d of LEFT \<Rightarrow> first0 (inorder t) | RIGHT \<Rightarrow> final0 (inorder t))"
    and hs: "hsize h = of_nat (length ?xs)"
    using t by (simp_all add: map_rep_def)
  have dxs: "distinct ?xs" using at t(1) by (simp add: tree_at_def)
  obtain c A B where tp: "t = plug c (Node A n B)" and us: "us = before_of c @ inorder A" "vs = inorder B @ after_of c"
    using place_of [OF at t(1)] by blast
  have ys: "us @ vs = before_of c @ inorder A @ inorder B @ after_of c" using us by simp
  define h1 where "h1 = h\<lparr>hchild := (\<lambda>d. case d of LEFT \<Rightarrow> first0 (us @ vs) | RIGHT \<Rightarrow> final0 (us @ vs)), hsize := hsize h - 1\<rparr>"
  have fe: "fix_ends n (m, h) = Some h1" unfolding h1_def ys by (rule fix_ends_plug [OF at tp hc])
  have at1: "tree_at (m, h1) (plug c (Node A n B))" using at tp by (simp add: tree_at_def h1_def)
  have size1: "hsize h1 = of_nat (length (us @ vs))" using hs by (simp add: h1_def)
  have fin: "holds s' (us @ vs) \<and> keeps_out (set ?xs) (m, h) s'"
    if "tree_at s' t'" "inorder t' = us @ vs" "moves_links (set ?xs) (m, h1) s'" for s' t'
  proof -
    have ko: "keeps_out (set ?xs) (m, h) s'" using that(3) by (simp add: moves_links_def keeps_out_def)
    have "sorted_wrt (key_less (fst s')) (us @ vs)" using srt keeps_out_tkey [OF ko] by (simp add: sorted_wrt_append)
    moreover have "hchild (snd s') = (\<lambda>d. case d of LEFT \<Rightarrow> first0 (us @ vs) | RIGHT \<Rightarrow> final0 (us @ vs))" "hsize (snd s') = of_nat (length (us @ vs))"
      using that(3) size1 by (simp_all add: moves_links_def h1_def)
    ultimately show ?thesis using map_repI [OF that(1)] that(2) ko by metis
  qed
  have mk: "Node A n B = mk LEFT A n B" by (simp add: mk_def)
  note f = focusD [OF at1 [unfolded mk]]
  have ch: "tchild (m n) LEFT = NULL \<longleftrightarrow> A = Leaf" "tchild (m n) RIGHT = NULL \<longleftrightarrow> B = Leaf" using f(3,4) by (cases A; cases B; auto)+
  have X: "set_tree t = set ?xs" using t(1) by (metis set_inorder)
  show ?thesis
  proof (cases "A = Leaf \<or> B = Leaf")
    case True
    obtain m2 h2 where sp: "splice_out n (m, h1) = (m2, h2)" "tree_at (m2, h2) (plug c (if A = Leaf then B else A))"
      "moves_links (set_tree (plug c (Node A n B))) (m, h1) (m2, h2)" using splice_out_plug [OF at1 True] by blast
    have "inorder (plug c (if A = Leaf then B else A)) = us @ vs" using True by (auto simp: inorder_plug us)
    with fin [OF sp(2)] sp(3) X tp have "holds (m2, h2) (us @ vs) \<and> keeps_out (set ?xs) (m, h) (m2, h2)" by metis
    moreover have "remove_node n (m, h) = Some (m2, h2)" using True ch fe sp(1) by (simp add: remove_node_def)
    ultimately show ?thesis by blast
  next
    case False
    then obtain cb R where B: "B = plug cb (Node Leaf (first0 (inorder B)) R)" "before_of cb = []" using focus_first by blast
    define y where "y = first0 (inorder B)"
    have suc: "successor m n = Some y" using successor_plug [OF at1] False by (simp add: y_def first0_append)
    have iB: "inorder B = y # inorder R @ after_of cb" using B by (metis append_Nil append_Cons inorder.simps inorder_plug y_def)
    let ?C = "cb @ [(RIGHT, n, A)] @ c"
    have big: "plug ?C (Node Leaf y R) = plug c (Node A n B)" "plug ?C R = plug c (Node A n (plug cb R))"
      using B(1) by (simp_all add: plug_append mk_def y_def)
    have at2: "tree_at (m, h1) (plug ?C (Node Leaf y R))" unfolding big(1) by (rule at1)
    obtain m2 h2 where sp: "splice_out y (m, h1) = (m2, h2)" "tree_at (m2, h2) (plug ?C R)"
      "moves_links (set_tree (plug ?C (Node Leaf y R))) (m, h1) (m2, h2)" using splice_out_plug [OF at2] by auto
    have yn: "y \<noteq> n" "y \<in> set ?xs" using dxs us(2) iB by auto
    have "distinct (inorder (plug ?C (Node Leaf y R)))" using at2 by (simp add: tree_at_def)
    then have "y \<notin> set (inorder (plug ?C R))" unfolding inorder_plug by auto
    then have y: "y \<notin> set_tree (plug c (Node A n (plug cb R)))" unfolding big(2) by (metis set_inorder)
    have y0: "y \<noteq> NULL" using trep_not_null at2 by (fastforce simp: tree_at_def plug_append)
    obtain m3 h3 where rp: "replace_node n y (m2, h2) = (m3, h3)" "tree_at (m3, h3) (plug c (Node A y (plug cb R)))"
      "moves_links (insert y (set_tree (plug c (Node A n (plug cb R))))) (m2, h2) (m3, h3)"
      using replace_node_plug [OF sp(2) [unfolded big(2)] y y0] by blast
    obtain s4 A4 B4 where sl: "splay y (m3, h3) = Some s4" "tree_at s4 (Node A4 y B4)"
      "inorder (Node A4 y B4) = inorder (plug c (Node A y (plug cb R)))" "moves_links (set_tree (plug c (Node A y (plug cb R)))) (m3, h3) s4"
      using splay_plug [OF rp(2)] by blast
    have iR: "inorder (plug cb R) = inorder R @ after_of cb" using B(2) by (simp add: inorder_plug)
    have io4: "inorder (Node A4 y B4) = us @ vs" unfolding sl(3) using iB iR by (simp add: inorder_plug us)
    have st: "set_tree (plug c (Node A z (plug cb R))) = set (before_of c @ (inorder A @ z # inorder R @ after_of cb) @ after_of c)" for z
      using set_inorder [of "plug c (Node A z (plug cb R))"] 
      unfolding inorder_plug inorder.simps B(2) by (simp only: append_Nil append_Cons)
    have sub: "set_tree (plug ?C (Node Leaf y R)) = set ?xs" "insert y (set_tree (plug c (Node A n (plug cb R)))) \<subseteq> set ?xs"
      "set_tree (plug c (Node A y (plug cb R))) \<subseteq> set ?xs"
      using X tp unfolding big(1) st by (auto simp: us iB)
    have mono: "moves_links Y a b \<Longrightarrow> Y \<subseteq> Z \<Longrightarrow> moves_links Z a b" for Y Z and a b :: "('a \<times> 'b) tree_state" by (auto simp: moves_links_def)
    have "moves_links (set ?xs) (m, h1) s4"
      using sp(3) [unfolded sub(1)] mono [OF rp(3) sub(2)] mono [OF sl(4) sub(3)] by (blast intro: moves_links_trans)
    with fin [OF sl(2) io4] have "holds s4 (us @ vs) \<and> keeps_out (set ?xs) (m, h) s4" by blast
    moreover have "remove_node n (m, h) = Some s4"
      using False ch fe suc yn(1) sp(1) rp(1) sl(1) by (simp add: remove_node_def)
    ultimately show ?thesis by blast
  qed
qed

section \<open>Whole trees\<close>

lemma holds_distinct: "holds s xs \<Longrightarrow> distinct xs \<and> NULL \<notin> set xs"
  by (auto simp: holds_def map_rep_def tree_at_def dest!: trep_not_null)

lemma holds_ends: "holds s xs \<Longrightarrow> hchild (snd s) LEFT = first0 xs \<and> hchild (snd s) RIGHT = final0 xs \<and> hsize (snd s) = of_nat (length xs)"
  by (auto simp: holds_def map_rep_def)

lemma holds_sorted: "holds s xs \<Longrightarrow> sorted_wrt (key_less (fst s)) xs"
  by (auto simp: holds_def map_rep_def)

lemma holds_neighbours:
  assumes "holds s (us @ n # vs)"
  shows "successor (fst s) n = Some (first0 vs)" "predecessor (fst s) n = Some (final0 us)"
proof -
  obtain t where t: "inorder t = us @ n # vs" "map_rep s t" using assms by (auto simp: holds_def)
  obtain m h where s: "s = (m, h)" by (cases s)
  have at: "tree_at (m, h) t" using t(2) by (simp add: map_rep_def s)
  obtain c A B where tp: "t = plug c (Node A n B)" and "us = before_of c @ inorder A" "vs = inorder B @ after_of c"
    using place_of [OF at t(1)] by blast
  then show "successor (fst s) n = Some (first0 vs)" "predecessor (fst s) n = Some (final0 us)"
    using successor_plug [OF at [unfolded tp]] predecessor_plug [OF at [unfolded tp]] by (simp_all add: s)
qed

lemma clear_loop_holds:
  "holds s xs \<Longrightarrow> \<exists>s'. clear_loop (first0 xs) s = Some s' \<and> holds s' [] \<and> keeps_out (set xs) s s'"
proof (induction xs arbitrary: s)
  case Nil
  then show ?case by (subst clear_loop.simps) (simp add: keeps_out_def)
next
  case (Cons x xs)
  obtain m h where s: "s = (m, h)" by (cases s)
  obtain s1 where r: "remove_node x (m, h) = Some s1" "holds s1 xs" "keeps_out (set (x # xs)) (m, h) s1"
    using remove_node_holds [of m h "[]" x xs] Cons.prems s by auto
  obtain s2 where s2: "clear_loop (first0 xs) s1 = Some s2" "holds s2 []" "keeps_out (set xs) s1 s2" using Cons.IH [OF r(2)] by blast
  have "successor (fst s) x = Some (first0 xs)" using holds_neighbours(1) [of s "[]" x xs] Cons.prems by simp
  moreover have "x \<noteq> NULL" using holds_distinct [OF Cons.prems] by auto
  ultimately have "clear_loop (first0 (x # xs)) s = Some s2" using r(1) s2(1) by (subst clear_loop.simps) (simp add: s)
  moreover have "keeps_out (set (x # xs)) s s2" using r(3) s2(3) by (auto simp: keeps_out_def s)
  ultimately show ?case using s2(2) by blast
qed

lemma tree_clear_holds: "holds s xs \<Longrightarrow> \<exists>s'. tree_clear s = Some s' \<and> holds s' [] \<and> keeps_out (set xs) s s'"
  using clear_loop_holds [of s xs] holds_ends [of s xs] by (simp add: tree_clear_def)

lemma holds_init: "holds (m, header_init) []"
  by (auto simp: holds_def map_rep_def tree_at_def header_init_def fun_eq_iff split: DIRECTION.splits)

text \<open>A tree is not affected by changes to other nodes.\<close>

lemma holds_frame:
  assumes "holds (m, h) xs" "\<And>x. x \<in> set xs \<Longrightarrow> m' x = m x"
  shows "holds (m', h) xs"
proof -
  obtain t where t: "inorder t = xs" "map_rep (m, h) t" using assms(1) by (auto simp: holds_def)
  have "trep m' NULL (hparent h) t = trep m NULL (hparent h) t"
    using assms(2) t(1) by (intro trep_cong) (metis set_inorder)
  moreover have "tkey m' x = tkey m x" if "x \<in> set xs" for x using that assms(2) by (simp add: tkey_def)
  then have "sorted_wrt (key_less m') xs = sorted_wrt (key_less m) xs" by (auto simp: sorted_wrt_iff_nth_less)
  ultimately have "map_rep (m', h) t" using t(2) unfolding map_rep_def t(1) tree_at_def by simp
  with t(1) show ?thesis by (auto simp: holds_def)
qed

lemma copier_insert:
  assumes "holds (m, h) xs" "a \<notin> set xs" "a \<noteq> NULL" "fst v \<notin> tkey m ` set xs"
  shows "\<exists>s' us vs. insert_node a (copier a v m, h) = Some s' \<and> xs = us @ vs \<and> holds s' (us @ a # vs)
    \<and> tdata (fst s' a) = v \<and> (\<forall>x. x \<noteq> a \<longrightarrow> tdata (fst s' x) = tdata (m x)) \<and> (\<forall>x. x \<notin> insert a (set xs) \<longrightarrow> fst s' x = m x)"
proof -
  let ?m = "copier a v m"
  have "holds (?m, h) xs" by (rule holds_frame [OF assms(1)]) (use assms(2) in \<open>auto simp: copier_def\<close>)
  moreover have "tkey ?m a \<notin> tkey ?m ` set xs" using assms(2,4) by (auto simp: tkey_def copier_def image_iff)
  moreover have "tchild (?m a) d = NULL" for d by (simp add: copier_def)
  ultimately obtain s' us vs where "insert_node a (?m, h) = Some s'" "xs = us @ vs" "holds s' (us @ a # vs)" "keeps_out (insert a (set xs)) (?m, h) s'"
    using insert_node_holds [of ?m h xs a] assms(2,3) by blast
  then show ?thesis by (auto simp: keeps_out_def copier_def)
qed

end
