(* ===== verification/Stl_Map.thy ===== *)
theory Stl_Map
  imports Splay_Tree
begin

text \<open>
  \<open>std::map\<close>, \<open>include/util/impl/stlmap.H\<close>, on the splay tree: the operations of \<open>Util::Map\<close> as calls of the
  tree, the abstract map they implement, and where they do not. An iterator is the address of its
  node, null for \<open>end()\<close>; \<open>a\<close> is the address that \<open>new\<close> returns for a new node.
\<close>

section \<open>Operations\<close>

definition map_insert ::
  "addr \<Rightarrow> 'k::linorder \<times> 'v \<Rightarrow> ('k \<times> 'v) tree_state \<Rightarrow> ((addr \<times> bool) \<times> ('k \<times> 'v) tree_state) option" where
  "map_insert a x s = do {
     (rc, n, s1) \<leftarrow> insert_by_value a x s;
     Some ((n, rc), s1)
   }"

definition map_emplace ::
  "addr \<Rightarrow> 'k::linorder \<times> 'v \<Rightarrow> ('k \<times> 'v) tree_state \<Rightarrow> ((addr \<times> bool) \<times> ('k \<times> 'v) tree_state) option" where
  "map_emplace p x s = do {
     (rc, hint_node, s1) \<leftarrow> find_hint (fst x) (copier p x (fst s), snd s);
     if \<not> rc then do { s2 \<leftarrow> insert_node p s1; Some ((p, True), s2) }
     else Some ((hint_node, False), s1)
   }"

text \<open>\<open>operator[]\<close>, with the default value of the type; the result is what the reference reads.\<close>

definition map_subscript ::
  "addr \<Rightarrow> 'v \<Rightarrow> 'k::linorder \<Rightarrow> ('k \<times> 'v) tree_state \<Rightarrow> ('v \<times> ('k \<times> 'v) tree_state) option" where
  "map_subscript a dflt k s = do {
     ((n, rc), s1) \<leftarrow> map_insert a (k, dflt) s;
     Some (snd (tdata (fst s1 n)), s1)
   }"

definition map_lower_bound :: "'k::linorder \<Rightarrow> ('k \<times> 'v) tree_state \<Rightarrow> (addr \<times> ('k \<times> 'v) tree_state) option" where
  "map_lower_bound k s = lower_bound_by_value k s"

text \<open>\<open>Map::upper_bound\<close> as it is written.\<close>

definition map_upper_bound :: "'k::linorder \<Rightarrow> ('k \<times> 'v) tree_state \<Rightarrow> (addr \<times> ('k \<times> 'v) tree_state) option" where
  "map_upper_bound k s = lower_bound_by_value k s"

definition map_equal_range :: "'k::linorder \<Rightarrow> ('k \<times> 'v) tree_state \<Rightarrow> ((addr \<times> addr) \<times> ('k \<times> 'v) tree_state) option" where
  "map_equal_range k s = do {
     (l, s1) \<leftarrow> map_lower_bound k s;
     (u, s2) \<leftarrow> map_upper_bound k s1;
     Some ((l, u), s2)
   }"

definition map_at :: "'k::linorder \<Rightarrow> ('k \<times> 'v) tree_state \<Rightarrow> (kerror + 'v \<times> ('k \<times> 'v) tree_state) option" where
  "map_at k s = do {
     (result, s1) \<leftarrow> map_lower_bound k s;
     Some (if result = NULL then Inl CritAssert else Inr (snd (tdata (fst s1 result)), s1))
   }"

definition map_erase :: "'k::linorder \<Rightarrow> ('k \<times> 'v) tree_state \<Rightarrow> (nat \<times> ('k \<times> 'v) tree_state) option" where
  "map_erase k s = remove_by_value k s"

definition map_erase_position :: "addr \<Rightarrow> 'd tree_state \<Rightarrow> 'd tree_state option" where
  "map_erase_position n s = remove_node n s"

partial_function (option) map_erase_range :: "addr \<Rightarrow> addr \<Rightarrow> 'd tree_state \<Rightarrow> 'd tree_state option" where
  "map_erase_range fst_pos last_pos s =
     (if fst_pos = last_pos then Some s
      else do {
        n \<leftarrow> increment fst_pos s;
        s1 \<leftarrow> map_erase_position fst_pos s;
        map_erase_range n last_pos s1
      })"

definition map_find :: "'k::linorder \<Rightarrow> ('k \<times> 'v) tree_state \<Rightarrow> (addr \<times> ('k \<times> 'v) tree_state) option" where
  "map_find k s = find_by_value k s"

definition map_count :: "'k::linorder \<Rightarrow> ('k \<times> 'v) tree_state \<Rightarrow> (nat \<times> ('k \<times> 'v) tree_state) option" where
  "map_count k s = do {
     (found, unused, s1) \<leftarrow> find_hint k s;
     Some (if found then 1 else 0, s1)
   }"

section \<open>The tree as a map\<close>

definition entries :: "('k \<times> 'v) tmem \<Rightarrow> addr list \<Rightarrow> ('k \<times> 'v) list" where
  "entries m xs = map (\<lambda>n. tdata (m n)) xs"

definition contents :: "('k \<times> 'v) tmem \<Rightarrow> addr list \<Rightarrow> 'k \<rightharpoonup> 'v" where
  "contents m xs = map_of (entries m xs)"

lemma entries_simps [simp]: "entries m [] = []" "entries m (x # xs) = tdata (m x) # entries m xs"
  "entries m (xs @ ys) = entries m xs @ entries m ys"
  by (simp_all add: entries_def)

lemma entries_cong: "(\<And>x. x \<in> set xs \<Longrightarrow> tdata (m' x) = tdata (m x)) \<Longrightarrow> entries m' xs = entries m xs"
  by (simp add: entries_def)

lemma tkey_entries: "tkey m ` set xs = fst ` set (entries m xs)"
  by (auto simp: tkey_def entries_def)

lemma dom_contents: "dom (contents m xs) = tkey m ` set xs"
  by (simp add: contents_def dom_map_of_conv_image_fst tkey_entries)

lemma holds_keys_distinct: "holds s xs \<Longrightarrow> distinct (map fst (entries (fst s) xs))"
proof -
  assume "holds s xs"
  then have "sorted_wrt (key_less (fst s)) xs" by (rule holds_sorted)
  then show ?thesis by (induction xs) (auto simp: tkey_entries [symmetric] entries_def tkey_def)
qed

lemma contents_at:
  assumes "holds s (us @ n # vs)"
  shows "contents (fst s) (us @ n # vs) (tkey (fst s) n) = Some (snd (tdata (fst s n)))"
proof -
  have "(tkey (fst s) n, snd (tdata (fst s n))) \<in> set (entries (fst s) (us @ n # vs))" by (simp add: tkey_def)
  then show ?thesis unfolding contents_def using holds_keys_distinct [OF assms] by (rule map_of_is_SomeI [rotated])
qed

lemma contents_moved: "moves_links X s s' \<Longrightarrow> contents (fst s') xs = contents (fst s) xs"
  by (simp add: moves_links_def contents_def entries_def)

lemma contents_insert:
  assumes "k \<notin> fst ` set (es @ fs)"
  shows "map_of (es @ (k, v) # fs) = (map_of (es @ fs))(k \<mapsto> v)"
  using assms by (induction es) (auto simp: fun_eq_iff map_of_eq_None_iff)

lemma contents_remove:
  assumes "distinct (map fst (es @ (k, v) # fs))"
  shows "map_of (es @ fs) = (map_of (es @ (k, v) # fs))(k := None)"
  using assms by (induction es) (auto simp: fun_eq_iff map_of_eq_None_iff)

section \<open>Single operations\<close>

lemma find_by_value_ok:
  assumes "holds s xs"
  shows "\<exists>n s'. find_by_value k s = Some (n, s') \<and> holds s' xs \<and> moves_links (set xs) s s'
    \<and> (n = NULL \<longleftrightarrow> k \<notin> tkey (fst s) ` set xs) \<and> (n \<noteq> NULL \<longrightarrow> (\<exists>us vs. xs = us @ n # vs \<and> tkey (fst s) n = k))"
proof -
  obtain found hint s' where f: "find_hint k s = Some (found, hint, s')" "holds s' xs" "moves_links (set xs) s s'"
    "found \<longleftrightarrow> k \<in> tkey (fst s) ` set xs" "hint = NULL \<longleftrightarrow> xs = []"
    "xs \<noteq> [] \<longrightarrow> (\<exists>us vs. xs = us @ hint # vs \<and> (\<forall>y\<in>set us. tkey (fst s) y < k) \<and> (\<forall>y\<in>set vs. k < tkey (fst s) y)
         \<and> (found \<longleftrightarrow> tkey (fst s) hint = k))"
    using find_hint_holds [OF assms, of k] by blast
  then show ?thesis by (auto simp: find_by_value_def)
qed

lemma insert_by_value_ok:
  assumes "holds s xs" "a \<notin> set xs" "a \<noteq> NULL"
  shows "\<exists>rc n s' xs'. insert_by_value a (k, v) s = Some (rc, n, s') \<and> holds s' xs' \<and> set xs' \<subseteq> insert a (set xs)
    \<and> (rc \<longleftrightarrow> contents (fst s) xs k = None) \<and> (\<exists>us vs. xs' = us @ n # vs) \<and> tkey (fst s') n = k
    \<and> contents (fst s') xs' = (if rc then (contents (fst s) xs)(k \<mapsto> v) else contents (fst s) xs)"
proof -
  obtain n s1 where f: "find_by_value k s = Some (n, s1)" "holds s1 xs" "moves_links (set xs) s s1"
    "n = NULL \<longleftrightarrow> k \<notin> tkey (fst s) ` set xs" "n \<noteq> NULL \<longrightarrow> (\<exists>us vs. xs = us @ n # vs \<and> tkey (fst s) n = k)"
    using find_by_value_ok [OF assms(1), of k] by blast
  have key: "tkey (fst s1) = tkey (fst s)" using keeps_out_tkey [OF moves_links_keeps_out [OF f(3)]] .
  have none: "contents (fst s) xs k = None \<longleftrightarrow> n = NULL" unfolding f(4) dom_contents [symmetric] by auto
  obtain m h where s1: "s1 = (m, h)" by (cases s1)
  show ?thesis
  proof (cases "n = NULL")
    case False
    then have "insert_by_value a (k, v) s = Some (False, n, s1)" using f(1) by (simp add: insert_by_value_def)
    moreover obtain us vs where "xs = us @ n # vs" "tkey (fst s) n = k" using f(5) False by blast
    ultimately show ?thesis using f(2) False none key contents_moved [OF f(3), of xs]
      by (intro exI [of _ False] exI [of _ n] exI [of _ s1] exI [of _ xs]) auto
  next
    case True
    then have kn: "fst (k, v) \<notin> tkey m ` set xs" using f(4) key by (simp add: s1)
    obtain s2 us vs where i: "insert_node a (copier a (k, v) m, h) = Some s2" "xs = us @ vs" "holds s2 (us @ a # vs)" "tdata (fst s2 a) = (k, v)"
      "\<forall>x. x \<noteq> a \<longrightarrow> tdata (fst s2 x) = tdata (m x)"
      using copier_insert [OF f(2) [unfolded s1] assms(2,3) kn] by blast
    have "insert_by_value a (k, v) s = Some (True, a, s2)" using f(1) True i(1) by (simp add: insert_by_value_def s1)
    moreover have "contents (fst s2) (us @ a # vs) = (contents (fst s) xs)(k \<mapsto> v)"
    proof -
      have e: "entries (fst s2) us = entries m us" "entries (fst s2) vs = entries m vs" using i(2,5) assms(2) by (auto intro!: entries_cong)
      have "k \<notin> fst ` set (entries m us @ entries m vs)" using kn tkey_entries [of m xs] i(2) by simp
      then have "contents (fst s2) (us @ a # vs) = (map_of (entries m us @ entries m vs))(k \<mapsto> v)"
        unfolding contents_def entries_simps e i(4) by (rule contents_insert)
      also have "map_of (entries m us @ entries m vs) = contents (fst s) xs"
        using contents_moved [OF f(3), of xs] i(2) by (simp add: contents_def s1)
      finally show ?thesis .
    qed
    ultimately show ?thesis using i none True
      by (intro exI [of _ True] exI [of _ a] exI [of _ s2] exI [of _ "us @ a # vs"]) (auto simp: tkey_def)
  qed
qed

lemma map_emplace_ok:
  assumes "holds s xs" "a \<notin> set xs" "a \<noteq> NULL"
  shows "\<exists>rc n s' xs'. map_emplace a (k, v) s = Some ((n, rc), s') \<and> holds s' xs' \<and> set xs' \<subseteq> insert a (set xs)
    \<and> (rc \<longleftrightarrow> contents (fst s) xs k = None) \<and> (\<exists>us vs. xs' = us @ n # vs) \<and> tkey (fst s') n = k
    \<and> contents (fst s') xs' = (if rc then (contents (fst s) xs)(k \<mapsto> v) else contents (fst s) xs)"
proof -
  let ?s = "(copier a (k, v) (fst s), snd s)"
  have same: "fst ?s x = fst s x" if "x \<in> set xs" for x using that assms(2) by (auto simp: copier_def)
  have hs: "holds ?s xs" using holds_frame [of "fst s" "snd s" xs "fst ?s"] assms(1) same by simp
  have cs: "contents (fst ?s) xs = contents (fst s) xs" unfolding contents_def using same by (intro arg_cong [where f = map_of] entries_cong) simp
  obtain found hint s1 where f: "find_hint k ?s = Some (found, hint, s1)" "holds s1 xs" "moves_links (set xs) ?s s1" "found \<longleftrightarrow> k \<in> tkey (fst ?s) ` set xs"
    "hint = NULL \<longleftrightarrow> xs = []" "xs \<noteq> [] \<longrightarrow> (\<exists>us vs. xs = us @ hint # vs \<and> (found \<longleftrightarrow> tkey (fst ?s) hint = k))"
    using find_hint_holds [OF hs, of k] by blast
  have none: "found \<longleftrightarrow> contents (fst s) xs k \<noteq> None" unfolding f(4) dom_contents [symmetric] cs by auto
  have key: "tkey (fst s1) = tkey (fst ?s)" using keeps_out_tkey [OF moves_links_keeps_out [OF f(3)]] .
  obtain m h where s1: "s1 = (m, h)" by (cases s1)
  have ma: "m a = \<lparr>tparent = NULL, tchild = (\<lambda>d. NULL), tdata = (k, v)\<rparr>" using f(3) assms(2) by (simp add: moves_links_def s1 copier_def)
  show ?thesis
  proof (cases found)
    case True
    then obtain us vs where u: "xs = us @ hint # vs" "tkey (fst s1) hint = k" using f(4,6) key by auto
    have "map_emplace a (k, v) s = Some ((hint, False), s1)" using f(1) True by (simp add: map_emplace_def)
    then show ?thesis using f(2) u none True contents_moved [OF f(3), of xs] cs
      by (intro exI [of _ False] exI [of _ hint] exI [of _ s1] exI [of _ xs]) auto
  next
    case False
    have ka: "tkey m a = k" using ma by (simp add: tkey_def)
    then have kn: "tkey m a \<notin> tkey m ` set xs" using False f(4) key by (simp add: s1)
    obtain s2 us vs where i: "insert_node a (m, h) = Some s2" "xs = us @ vs" "holds s2 (us @ a # vs)" "keeps_out (insert a (set xs)) (m, h) s2"
      using insert_node_holds [OF f(2) [unfolded s1] assms(2,3) _ kn] ma by auto
    have "map_emplace a (k, v) s = Some ((a, True), s2)" using f(1) False i(1) by (simp add: map_emplace_def s1)
    moreover have "contents (fst s2) (us @ a # vs) = (contents (fst s) xs)(k \<mapsto> v)"
    proof -
      have e: "entries (fst s2) ys = entries m ys" for ys using i(4) by (simp add: keeps_out_def entries_def)
      have ta: "tdata (fst s2 a) = (k, v)" using i(4) ma by (simp add: keeps_out_def)
      have "k \<notin> fst ` set (entries m us @ entries m vs)" using kn [unfolded ka] tkey_entries [of m xs] i(2) by simp
      then have "contents (fst s2) (us @ a # vs) = (map_of (entries m us @ entries m vs))(k \<mapsto> v)"
        unfolding contents_def entries_simps e ta by (rule contents_insert)
      also have "map_of (entries m us @ entries m vs) = contents (fst s) xs"
        using contents_moved [OF f(3), of xs] cs i(2) by (simp add: contents_def s1)
      finally show ?thesis .
    qed
    moreover have "tkey (fst s2) a = k" using i(4) ma by (simp add: keeps_out_def tkey_def)
    ultimately show ?thesis using i none False
      by (intro exI [of _ True] exI [of _ a] exI [of _ s2] exI [of _ "us @ a # vs"]) auto
  qed
qed

lemma remove_by_value_ok:
  assumes "holds s xs"
  shows "\<exists>s' xs'. remove_by_value k s = Some (if contents (fst s) xs k = None then 0 else 1, s') \<and> holds s' xs' \<and> set xs' \<subseteq> set xs
    \<and> contents (fst s') xs' = (contents (fst s) xs)(k := None)"
proof -
  obtain m h where s: "s = (m, h)" by (cases s)
  obtain t where t: "inorder t = xs" "map_rep (m, h) t" using assms by (auto simp: holds_def s)
  have none: "contents m xs k = None \<longleftrightarrow> k \<notin> tkey m ` set xs" unfolding dom_contents [symmetric] by auto
  show ?thesis
  proof (cases "t = Leaf")
    case True
    then have "remove_by_value k s = Some (0, s)" using map_rep_root [OF t(2)] by (simp add: remove_by_value_def s)
    with True t(1) assms show ?thesis by (auto simp: contents_def)
  next
    case False
    have at: "trep m NULL (rt t) t" "sorted_wrt (key_less m) (inorder t)" and root: "hparent h = rt t" "hparent h \<noteq> NULL"
      using t(2) map_rep_root [OF t(2)] False by (auto simp: map_rep_def tree_at_def)
    from tree_find_place [OF at(1) False at(2), of k] obtain c x A B where
      f: "tree_find m (rt t) k = Some (x, tkey m x = k)" "t = plug c (Node A x B)"
        "\<forall>y\<in>set (before_of c @ inorder A). tkey m y < k" "\<forall>y\<in>set (inorder B @ after_of c). k < tkey m y" by blast
    have xs: "xs = (before_of c @ inorder A) @ x # (inorder B @ after_of c)" using t(1) f(2) by (simp add: inorder_plug)
    have fk: "tkey m x = k \<longleftrightarrow> k \<in> tkey m ` set xs" using f(3,4) unfolding xs by auto
    show ?thesis
    proof (cases "tkey m x = k")
      case False
      then have "remove_by_value k s = Some (0, s)" using root f(1) by (simp add: remove_by_value_def s)
      moreover have "contents m xs k = None" using none fk False by simp
      ultimately show ?thesis using assms by (auto simp: s fun_upd_idem)
    next
      case True
      let ?us = "before_of c @ inorder A" and ?vs = "inorder B @ after_of c"
      obtain s1 where r: "remove_node x (m, h) = Some s1" "holds s1 (?us @ ?vs)" "keeps_out (set (?us @ x # ?vs)) (m, h) s1"
        using remove_node_holds [of m h ?us x ?vs] assms xs by (auto simp: s)
      have "remove_by_value k s = Some (1, s1)" using root f(1) True r(1) by (simp add: remove_by_value_def s)
      moreover have "contents m xs k \<noteq> None" using none fk True by simp
      moreover have "contents (fst s1) (?us @ ?vs) = (contents m xs)(k := None)"
      proof -
        have "entries (fst s1) ys = entries m ys" for ys using r(3) by (simp add: keeps_out_def entries_def)
        moreover have "distinct (map fst (entries m ?us @ (k, snd (tdata (m x))) # entries m ?vs))"
          using holds_keys_distinct [OF assms] True unfolding xs by (simp add: s tkey_def)
        moreover have "tdata (m x) = (k, snd (tdata (m x)))" using True by (simp add: tkey_def prod_eq_iff)
        ultimately show ?thesis unfolding contents_def xs using contents_remove [of "entries m ?us" k _ "entries m ?vs"]
          by (metis entries_simps(2,3))
      qed
      ultimately show ?thesis using r(2) xs by (intro exI [of _ s1] exI [of _ "?us @ ?vs"]) (auto simp: s)
    qed
  qed
qed

text \<open>The bounds of the tree: the first node whose key is not less than, or greater than, the given one.\<close>

lemma first_ge_split:
  assumes "\<forall>y\<in>set us. \<not> P y" "vs \<noteq> [] \<longrightarrow> P (hd vs)"
  shows "first0 (filter P (us @ vs)) = first0 vs"
  using assms by (cases vs) (simp_all add: filter_False)

lemma lower_bound_ok:
  assumes "holds s xs"
  shows "\<exists>s'. lower_bound_by_value k s = Some (first0 (filter (\<lambda>n. k \<le> tkey (fst s) n) xs), s') \<and> holds s' xs \<and> moves_links (set xs) s s'"
proof -
  obtain found hint s' where f: "find_hint k s = Some (found, hint, s')" "holds s' xs" "moves_links (set xs) s s'"
    "hint = NULL \<longleftrightarrow> xs = []"
    "xs \<noteq> [] \<longrightarrow> (\<exists>us vs. xs = us @ hint # vs \<and> (\<forall>y\<in>set us. tkey (fst s) y < k) \<and> (\<forall>y\<in>set vs. k < tkey (fst s) y)
         \<and> (found \<longleftrightarrow> tkey (fst s) hint = k))"
    using find_hint_holds [OF assms, of k] by blast
  have key: "tkey (fst s') = tkey (fst s)" using keeps_out_tkey [OF moves_links_keeps_out [OF f(3)]] .
  show ?thesis
  proof (cases "xs = []")
    case True
    then show ?thesis using f by (auto simp: lower_bound_by_value_def)
  next
    case False
    then obtain us vs where u: "xs = us @ hint # vs" "\<forall>y\<in>set us. tkey (fst s) y < k" "\<forall>y\<in>set vs. k < tkey (fst s) y"
      "found \<longleftrightarrow> tkey (fst s) hint = k" using f(5) by blast
    have suc: "successor (fst s') hint = Some (first0 vs)" using holds_neighbours(1) f(2) u(1) by metis
    let ?P = "\<lambda>n. k \<le> tkey (fst s) n"
    have us: "\<forall>y\<in>set us. \<not> ?P y" using u(2) by (simp add: not_le)
    have lb: "first0 (filter ?P xs) = (if k \<le> tkey (fst s) hint then hint else first0 vs)"
    proof (cases "k \<le> tkey (fst s) hint")
      case True
      then show ?thesis using first_ge_split [of us ?P "hint # vs"] us u(1) by simp
    next
      case False
      then have "first0 (filter ?P ((us @ [hint]) @ vs)) = first0 vs"
        by (intro first_ge_split) (use us u(3) in \<open>auto simp: less_imp_le\<close>)
      with False u(1) show ?thesis by simp
    qed
    have "compare (tkey (fst s) hint) k = -1 \<longleftrightarrow> tkey (fst s) hint < k" by (auto simp: compare_def)
    then have "lower_bound_by_value k s = Some (first0 (filter ?P xs), s')"
      using f(1) suc key u(4) f(4) False lb by (auto simp: lower_bound_by_value_def not_less not_le)
    with f show ?thesis by blast
  qed
qed

lemma upper_bound_ok:
  assumes "holds s xs"
  shows "\<exists>s'. upper_bound_by_value k s = Some (first0 (filter (\<lambda>n. k < tkey (fst s) n) xs), s') \<and> holds s' xs \<and> moves_links (set xs) s s'"
proof -
  obtain found hint s' where f: "find_hint k s = Some (found, hint, s')" "holds s' xs" "moves_links (set xs) s s'"
    "hint = NULL \<longleftrightarrow> xs = []" "found \<longleftrightarrow> k \<in> tkey (fst s) ` set xs"
    "xs \<noteq> [] \<longrightarrow> (\<exists>us vs. xs = us @ hint # vs \<and> (\<forall>y\<in>set us. tkey (fst s) y < k) \<and> (\<forall>y\<in>set vs. k < tkey (fst s) y)
         \<and> (found \<longleftrightarrow> tkey (fst s) hint = k))"
    using find_hint_holds [OF assms, of k] by blast
  have key: "tkey (fst s') = tkey (fst s)" using keeps_out_tkey [OF moves_links_keeps_out [OF f(3)]] .
  show ?thesis
  proof (cases "xs = []")
    case True
    then show ?thesis using f by (auto simp: upper_bound_by_value_def)
  next
    case False
    then obtain us vs where u: "xs = us @ hint # vs" "\<forall>y\<in>set us. tkey (fst s) y < k" "\<forall>y\<in>set vs. k < tkey (fst s) y"
      "found \<longleftrightarrow> tkey (fst s) hint = k" using f(6) by blast
    have suc: "successor (fst s') hint = Some (first0 vs)" using holds_neighbours(1) f(2) u(1) by metis
    let ?P = "\<lambda>n. k < tkey (fst s) n"
    have us: "\<forall>y\<in>set us. \<not> ?P y" using u(2) by (simp add: less_not_sym)
    have ub: "first0 (filter ?P xs) = (if k < tkey (fst s) hint then hint else first0 vs)"
    proof (cases "k < tkey (fst s) hint")
      case True
      then show ?thesis using first_ge_split [of us ?P "hint # vs"] us u(1) by simp
    next
      case False
      then have "first0 (filter ?P ((us @ [hint]) @ vs)) = first0 vs"
        by (intro first_ge_split) (use us u(3) in auto)
      with False u(1) show ?thesis by simp
    qed
    have "compare (tkey (fst s) hint) k = -1 \<longleftrightarrow> tkey (fst s) hint < k" by (auto simp: compare_def)
    then have "upper_bound_by_value k s = Some (first0 (filter ?P xs), s')"
      using f(1) suc key u(4) f(4) False ub by (auto simp: upper_bound_by_value_def not_less)
    with f show ?thesis by blast
  qed
qed

section \<open>The abstract map\<close>

text \<open>
  What the standard promises of insertion, emplacement, subscripting, erasure by key, search and counting, as a step on
  a map: the result is a flag and a value, if there is one.
\<close>

datatype ('k, 'v) map_op = Ins 'k 'v | Emp 'k 'v | Sub 'k 'v | Era 'k | Fnd 'k | Cnt 'k

fun abs_map_step :: "('k, 'v) map_op \<Rightarrow> ('k \<rightharpoonup> 'v) \<Rightarrow> (bool \<times> 'v option) \<times> ('k \<rightharpoonup> 'v)" where
  "abs_map_step (Ins k v) f = (case f k of None \<Rightarrow> ((True, Some v), f(k \<mapsto> v)) | Some w \<Rightarrow> ((False, Some w), f))"
| "abs_map_step (Emp k v) f = (case f k of None \<Rightarrow> ((True, Some v), f(k \<mapsto> v)) | Some w \<Rightarrow> ((False, Some w), f))"
| "abs_map_step (Sub k v) f = (case f k of None \<Rightarrow> ((True, Some v), f(k \<mapsto> v)) | Some w \<Rightarrow> ((True, Some w), f))"
| "abs_map_step (Era k) f = ((f k \<noteq> None, None), f(k := None))"
| "abs_map_step (Fnd k) f = ((f k \<noteq> None, f k), f)"
| "abs_map_step (Cnt k) f = ((f k \<noteq> None, None), f)"

fun map_step :: "addr \<Rightarrow> ('k::linorder, 'v) map_op \<Rightarrow> ('k \<times> 'v) tree_state \<Rightarrow> ((bool \<times> 'v option) \<times> ('k \<times> 'v) tree_state) option" where
  "map_step a (Ins k v) s = do { ((n, rc), s1) \<leftarrow> map_insert a (k, v) s; Some ((rc, Some (snd (tdata (fst s1 n)))), s1) }"
| "map_step a (Emp k v) s = do { ((n, rc), s1) \<leftarrow> map_emplace a (k, v) s; Some ((rc, Some (snd (tdata (fst s1 n)))), s1) }"
| "map_step a (Sub k v) s = do { (w, s1) \<leftarrow> map_subscript a v k s; Some ((True, Some w), s1) }"
| "map_step a (Era k) s = do { (c, s1) \<leftarrow> map_erase k s; Some ((c = 1, None), s1) }"
| "map_step a (Fnd k) s = do { (n, s1) \<leftarrow> map_find k s;
     Some ((n \<noteq> NULL, if n = NULL then None else Some (snd (tdata (fst s1 n)))), s1) }"
| "map_step a (Cnt k) s = do { (c, s1) \<leftarrow> map_count k s; Some ((c = 1, None), s1) }"

definition models :: "('k::linorder \<times> 'v) tree_state \<Rightarrow> addr set \<Rightarrow> ('k \<rightharpoonup> 'v) \<Rightarrow> bool" where
  "models s X f \<longleftrightarrow> (\<exists>xs. holds s xs \<and> set xs \<subseteq> X \<and> contents (fst s) xs = f)"

lemma map_step_models:
  assumes "models s X f" "a \<notin> X" "a \<noteq> NULL"
  shows "\<exists>s'. map_step a p s = Some (fst (abs_map_step p f), s') \<and> models s' (insert a X) (snd (abs_map_step p f))"
proof -
  obtain xs where xs: "holds s xs" "set xs \<subseteq> X" "contents (fst s) xs = f" using assms(1) by (auto simp: models_def)
  have a: "a \<notin> set xs" using assms(2) xs(2) by auto
  have val: "models s' (insert a X) (if rc then f(k \<mapsto> v) else f) \<and> snd (tdata (fst s' n)) = (case f k of None \<Rightarrow> v | Some w \<Rightarrow> w)"
    if i: "holds s' (us @ n # vs)" "set (us @ n # vs) \<subseteq> insert a (set xs)" "rc \<longleftrightarrow> f k = None" "tkey (fst s') n = k"
      "contents (fst s') (us @ n # vs) = (if rc then f(k \<mapsto> v) else f)" for s' us n vs rc k v
  proof -
    have "contents (fst s') (us @ n # vs) k = Some (snd (tdata (fst s' n)))" using contents_at i(1,4) by metis
    then have "snd (tdata (fst s' n)) = (case f k of None \<Rightarrow> v | Some w \<Rightarrow> w)" using i(3,5) by (auto split: if_splits)
    moreover have "models s' (insert a X) (if rc then f(k \<mapsto> v) else f)"
      unfolding models_def using i(1,5) order_trans [OF i(2) insert_mono [OF xs(2)]] by blast
    ultimately show ?thesis by blast
  qed
  have ins: "\<exists>rc n s'. insert_by_value a (k, v) s = Some (rc, n, s') \<and> models s' (insert a X) (if rc then f(k \<mapsto> v) else f)
      \<and> (rc \<longleftrightarrow> f k = None) \<and> snd (tdata (fst s' n)) = (case f k of None \<Rightarrow> v | Some w \<Rightarrow> w)" for k v
  proof -
    obtain rc n s' us vs where i: "insert_by_value a (k, v) s = Some (rc, n, s')" "holds s' (us @ n # vs)" "set (us @ n # vs) \<subseteq> insert a (set xs)"
      "rc \<longleftrightarrow> f k = None" "tkey (fst s') n = k" "contents (fst s') (us @ n # vs) = (if rc then f(k \<mapsto> v) else f)"
      using insert_by_value_ok [OF xs(1) a assms(3), of k v] xs(3) by blast
    with val [OF i(2-6)] show ?thesis by blast
  qed
  have emp: "\<exists>rc n s'. map_emplace a (k, v) s = Some ((n, rc), s') \<and> models s' (insert a X) (if rc then f(k \<mapsto> v) else f)
      \<and> (rc \<longleftrightarrow> f k = None) \<and> snd (tdata (fst s' n)) = (case f k of None \<Rightarrow> v | Some w \<Rightarrow> w)" for k v
  proof -
    obtain rc n s' us vs where i: "map_emplace a (k, v) s = Some ((n, rc), s')" "holds s' (us @ n # vs)" "set (us @ n # vs) \<subseteq> insert a (set xs)"
      "rc \<longleftrightarrow> f k = None" "tkey (fst s') n = k" "contents (fst s') (us @ n # vs) = (if rc then f(k \<mapsto> v) else f)"
      using map_emplace_ok [OF xs(1) a assms(3), of k v] xs(3) by blast
    with val [OF i(2-6)] show ?thesis by blast
  qed
  have fnd: "\<exists>n s'. find_by_value k s = Some (n, s') \<and> models s' (insert a X) f \<and> (n = NULL \<longleftrightarrow> f k = None)
      \<and> (n \<noteq> NULL \<longrightarrow> f k = Some (snd (tdata (fst s' n))))" for k
  proof -
    obtain n s' where r: "find_by_value k s = Some (n, s')" "holds s' xs" "moves_links (set xs) s s'" "n = NULL \<longleftrightarrow> k \<notin> tkey (fst s) ` set xs"
      "n \<noteq> NULL \<longrightarrow> (\<exists>us vs. xs = us @ n # vs \<and> tkey (fst s) n = k)" using find_by_value_ok [OF xs(1), of k] by blast
    have c: "contents (fst s') xs = f" using contents_moved [OF r(3), of xs] xs(3) by simp
    have "n \<noteq> NULL \<longrightarrow> f k = Some (snd (tdata (fst s' n)))"
      using r(5) contents_at r(2) c keeps_out_tkey [OF moves_links_keeps_out [OF r(3)]] by metis
    moreover have "n = NULL \<longleftrightarrow> f k = None" unfolding r(4) dom_contents [symmetric] xs(3) by auto
    moreover have "models s' (insert a X) f" using r(2) xs(2) c by (auto simp: models_def)
    ultimately show ?thesis using r(1) by (intro exI [of _ n] exI [of _ s'] conjI)
  qed
  show ?thesis
  proof (cases p)
    case (Ins k v)
    with ins [of k v] show ?thesis by (auto simp: map_insert_def split: option.splits)
  next
    case (Emp k v)
    with emp [of k v] show ?thesis by (auto split: option.splits)
  next
    case (Sub k v)
    with ins [of k v] show ?thesis by (auto simp: map_subscript_def map_insert_def split: option.splits)
  next
    case (Era k)
    obtain s' xs' where "remove_by_value k s = Some (if f k = None then 0 else 1, s')" "holds s' xs'" "set xs' \<subseteq> set xs"
      "contents (fst s') xs' = f(k := None)" using remove_by_value_ok [OF xs(1), of k] xs(3) by auto
    moreover from this xs(2) have "models s' (insert a X) (f(k := None))" by (auto simp: models_def)
    ultimately show ?thesis using Era by (auto simp: map_erase_def)
  next
    case (Fnd k)
    with fnd [of k] show ?thesis by (auto simp: map_find_def)
  next
    case (Cnt k)
    obtain n s' where r: "find_by_value k s = Some (n, s')" "models s' (insert a X) f" "n = NULL \<longleftrightarrow> f k = None"
      using fnd [of k] by (elim exE conjE)
    obtain found hint s1 where h: "find_hint k s = Some (found, hint, s1)" "hint = NULL \<longrightarrow> \<not> found"
      using find_hint_holds [OF xs(1), of k] by auto
    have "s1 = s'" "found \<longleftrightarrow> f k \<noteq> None" using r(1,3) h by (auto simp: find_by_value_def split: if_splits)
    with Cnt r(2) h(1) show ?thesis by (auto simp: map_count_def)
  qed
qed

section \<open>Runs of operations\<close>

fun run_ops :: "(addr \<Rightarrow> 'p \<Rightarrow> 's \<Rightarrow> ('r \<times> 's) option) \<Rightarrow> (addr \<times> 'p) list \<Rightarrow> 's \<Rightarrow> ('r list \<times> 's) option" where
  "run_ops step [] s = Some ([], s)"
| "run_ops step ((a, p) # ps) s = do {
     (r, s1) \<leftarrow> step a p s;
     (rs, s2) \<leftarrow> run_ops step ps s1;
     Some (r # rs, s2)
   }"

fun run_spec :: "('p \<Rightarrow> 'm \<Rightarrow> 'r \<times> 'm) \<Rightarrow> 'p list \<Rightarrow> 'm \<Rightarrow> 'r list \<times> 'm" where
  "run_spec spec [] f = ([], f)"
| "run_spec spec (p # ps) f =
     (case spec p f of (r, g) \<Rightarrow> case run_spec spec ps g of (rs, g') \<Rightarrow> (r # rs, g'))"

text \<open>
  The contract of a container whose operations may allocate one node each: every operation returns, gives
  the result of its specification and stays in correspondence with it.
\<close>

locale node_container =
  fixes step :: "addr \<Rightarrow> 'p \<Rightarrow> 's \<Rightarrow> ('r \<times> 's) option"
    and spec :: "'p \<Rightarrow> 'm \<Rightarrow> 'r \<times> 'm"
    and rep :: "'s \<Rightarrow> addr set \<Rightarrow> 'm \<Rightarrow> bool"
  assumes step_ok: "rep s X f \<Longrightarrow> a \<notin> X \<Longrightarrow> a \<noteq> NULL \<Longrightarrow>
    \<exists>s'. step a p s = Some (fst (spec p f), s') \<and> rep s' (insert a X) (snd (spec p f))"
begin

lemma run_ok:
  "rep s X f \<Longrightarrow> distinct (map fst ps) \<Longrightarrow> set (map fst ps) \<inter> insert NULL X = {} \<Longrightarrow>
    \<exists>s'. run_ops step ps s = Some (fst (run_spec spec (map snd ps) f), s')
      \<and> rep s' (X \<union> set (map fst ps)) (snd (run_spec spec (map snd ps) f))"
proof (induction ps arbitrary: s X f)
  case (Cons x ps)
  obtain a p where x: "x = (a, p)" by (cases x)
  obtain r g where g: "spec p f = (r, g)" by (cases "spec p f")
  obtain rs g' where g': "run_spec spec (map snd ps) g = (rs, g')" by (cases "run_spec spec (map snd ps) g")
  obtain s1 where s1: "step a p s = Some (r, s1)" "rep s1 (insert a X) g"
    using step_ok [OF Cons.prems(1), of a p] Cons.prems(3) x g by auto
  obtain s2 where s2: "run_ops step ps s1 = Some (rs, s2)" "rep s2 (insert a X \<union> set (map fst ps)) g'"
    using Cons.IH [OF s1(2)] Cons.prems(2,3) x g' by auto
  have "insert a X \<union> set (map fst ps) = X \<union> set (map fst (x # ps))" using x by auto
  with s1(1) s2 x g g' show ?case by simp
qed simp

end

interpretation splay_map: node_container map_step abs_map_step models
  by unfold_locales (rule map_step_models)

section \<open>Ranges\<close>

lemma map_erase_range_ok:
  "holds s (us @ ds @ vs) \<Longrightarrow> \<exists>s'. map_erase_range (first0 (ds @ vs)) (first0 vs) s = Some s' \<and> holds s' (us @ vs)
    \<and> keeps_out (set (us @ ds @ vs)) s s'"
proof (induction ds arbitrary: s)
  case Nil
  then show ?case by (subst map_erase_range.simps) (simp add: keeps_out_def)
next
  case (Cons d ds)
  obtain m h where s: "s = (m, h)" by (cases s)
  have nd: "distinct (us @ d # ds @ vs)" "d \<noteq> NULL" using holds_distinct [OF Cons.prems] by auto
  have "first0 vs \<noteq> d" using nd by (cases vs) auto
  moreover have "increment d s = Some (first0 (ds @ vs))"
    using holds_neighbours(1) [of s us d "ds @ vs"] Cons.prems nd(2) by (simp add: increment_def)
  moreover obtain s1 where r: "remove_node d s = Some s1" "holds s1 (us @ ds @ vs)" "keeps_out (set (us @ d # ds @ vs)) s s1"
    using remove_node_holds [of m h us d "ds @ vs"] Cons.prems s by auto
  moreover obtain s2 where s2: "map_erase_range (first0 (ds @ vs)) (first0 vs) s1 = Some s2" "holds s2 (us @ vs)" "keeps_out (set (us @ ds @ vs)) s1 s2"
    using Cons.IH [OF r(2)] by blast
  ultimately have "map_erase_range (first0 ((d # ds) @ vs)) (first0 vs) s = Some s2"
    by (subst map_erase_range.simps) (auto simp: map_erase_position_def)
  moreover have "keeps_out (set (us @ (d # ds) @ vs)) s s2" using r(3) s2(3) by (auto simp: keeps_out_def)
  ultimately show ?case using s2(2) by blast
qed

section \<open>Copies\<close>

lemma holds_append_last:
  assumes "holds s (us @ a # vs)" "\<forall>x\<in>set (us @ vs). tkey (fst s) x < tkey (fst s) a"
  shows "vs = []"
proof (rule ccontr)
  assume "vs \<noteq> []"
  then have "tkey (fst s) a < tkey (fst s) (hd vs)" "tkey (fst s) (hd vs) < tkey (fst s) a"
    using holds_sorted [OF assms(1)] assms(2) by (auto simp: sorted_wrt_append)
  then show False by simp
qed

lemma insert_range_copies:
  assumes "holds (m, g) (ds @ ws)" "holds (m, h) xs" "entries m xs = entries m ds" "set xs \<inter> set (ds @ ws) = {}"
    "inj new" "\<And>j. i \<le> j \<Longrightarrow> new j \<notin> set (xs @ ds @ ws) \<and> new j \<noteq> NULL"
  shows "\<exists>s' xs'. insert_range new i (first0 ws) NULL (m, h) = Some s' \<and> holds s' xs' \<and> entries (fst s') xs' = entries m (ds @ ws)
    \<and> (\<forall>x\<in>set (ds @ ws). fst s' x = m x) \<and> set xs' \<subseteq> set xs \<union> range new"
  using assms
proof (induction ws arbitrary: m h ds xs i)
  case Nil
  then show ?case by (subst insert_range.simps) auto
next
  case (Cons w ws)
  let ?a = "new i"
  have a: "?a \<notin> set xs" "?a \<noteq> NULL" "?a \<notin> set (ds @ w # ws)" using Cons.prems(6) [of i] by auto
  have srt: "sorted_wrt (key_less m) (ds @ w # ws)" using holds_sorted [OF Cons.prems(1)] by simp
  have lt: "\<forall>k\<in>tkey m ` set xs. k < tkey m w"
    using srt unfolding tkey_entries Cons.prems(3) unfolding tkey_entries [symmetric] by (auto simp: sorted_wrt_append)
  have "fst (tdata (m w)) \<notin> tkey m ` set xs" using lt by (auto simp: tkey_def)
  from copier_insert [OF Cons.prems(2) a(1,2) this] obtain s1 us vs where
    i: "insert_node ?a (copier ?a (tdata (m w)) m, h) = Some s1" "xs = us @ vs" "holds s1 (us @ ?a # vs)" "tdata (fst s1 ?a) = tdata (m w)"
      "\<forall>x. x \<noteq> ?a \<longrightarrow> tdata (fst s1 x) = tdata (m x)" "\<forall>x. x \<notin> insert ?a (set xs) \<longrightarrow> fst s1 x = m x" by blast
  obtain m1 h1 where s1: "s1 = (m1, h1)" by (cases s1)
  have k1: "tkey m1 ?a = tkey m w" "\<And>x. x \<noteq> ?a \<Longrightarrow> tkey m1 x = tkey m x" using i(4,5) by (auto simp: tkey_def s1)
  have "tkey m1 x < tkey m1 ?a" if "x \<in> set (us @ vs)" for x
  proof -
    have "x \<noteq> ?a" "tkey m x < tkey m w" using that a(1) i(2) lt by auto
    with k1 show ?thesis by simp
  qed
  then have "vs = []" by (intro holds_append_last [OF i(3)]) (simp add: s1)
  then have xs1: "holds (m1, h1) (xs @ [?a])" using i(2,3) s1 by simp
  have same: "m1 x = m x" if "x \<in> set (ds @ w # ws)" for x
  proof -
    have "x \<notin> insert ?a (set xs)" using that a(3) Cons.prems(4) by auto
    with i(6) s1 show ?thesis by simp
  qed
  have src: "holds (m1, g) ((ds @ [w]) @ ws)" using holds_frame [OF Cons.prems(1)] same by simp
  have e: "entries m1 (xs @ [?a]) = entries m1 (ds @ [w])"
  proof -
    have "entries m1 xs = entries m xs" by (rule entries_cong) (use i(5) a(1) s1 in \<open>metis fst_conv\<close>)
    moreover have "entries m1 ds = entries m ds" "m1 w = m w" using same by (auto intro!: entries_cong)
    ultimately show ?thesis using Cons.prems(3) i(4) s1 by simp
  qed
  have fresh: "new j \<notin> set ((xs @ [?a]) @ (ds @ [w]) @ ws) \<and> new j \<noteq> NULL" if "Suc i \<le> j" for j
    using Cons.prems(6) [of j] that injD [OF Cons.prems(5), of j i] by auto
  obtain s2 xs2 where s2: "insert_range new (Suc i) (first0 ws) NULL (m1, h1) = Some s2" "holds s2 xs2"
    "entries (fst s2) xs2 = entries m1 ((ds @ [w]) @ ws)" "\<forall>x\<in>set ((ds @ [w]) @ ws). fst s2 x = m1 x" "set xs2 \<subseteq> set (xs @ [?a]) \<union> range new"
    using Cons.IH [OF src xs1 e _ Cons.prems(5), of "Suc i"] fresh Cons.prems(4) a(3) by auto
  have "successor m1 w = Some (first0 ws)" using holds_neighbours(1) [of "(m1, g)" ds w ws] src by simp
  moreover have "w \<noteq> NULL" using holds_distinct [OF Cons.prems(1)] by auto
  ultimately have "insert_range new i (first0 (w # ws)) NULL (m, h) = Some s2"
    using i(1) s2(1) by (subst insert_range.simps) (simp add: s1)
  moreover have "entries m1 (ds @ w # ws) = entries m (ds @ w # ws)" using same by (intro entries_cong) simp
  ultimately show ?case using s2 same by auto
qed

lemma splay_holds:
  assumes "holds s xs" "n \<in> set xs"
  shows "\<exists>s'. splay n s = Some s' \<and> holds s' xs \<and> moves_links (set xs) s s'"
proof -
  obtain t where t: "inorder t = xs" "map_rep s t" using assms(1) by (auto simp: holds_def)
  have at: "tree_at s t" using t(2) by (simp add: map_rep_def)
  have "n \<in> set_tree t" using assms(2) t(1) by (metis set_inorder)
  then obtain c A B where tp: "t = plug c (Node A n B)" using focus_ex by metis
  obtain s' A' B' where sp: "splay n s = Some s'" "tree_at s' (Node A' n B')" "inorder (Node A' n B') = inorder t" "moves_links (set_tree t) s s'"
    using splay_plug [OF at [unfolded tp]] tp by auto
  have "holds s' xs" unfolding holds_def using map_rep_moved [OF t(2) sp(2,3,4)] sp(3) t(1) by metis
  moreover have "moves_links (set xs) s s'" using sp(4) t(1) by (metis set_inorder)
  ultimately show ?thesis using sp(1) by blast
qed

lemma assign_copies:
  assumes "holds (m, h) xs" "holds (m, g) ws" "set xs \<inter> set ws = {}" "inj new" "\<And>j. new j \<notin> insert NULL (set (xs @ ws))"
  shows "\<exists>s' xs'. assign new (Some g) (m, h) = Some s' \<and> holds s' xs' \<and> entries (fst s') xs' = entries m ws \<and> holds (fst s', g) ws"
proof -
  obtain m1 h1 where c: "tree_clear (m, h) = Some (m1, h1)" "holds (m1, h1) []" "keeps_out (set xs) (m, h) (m1, h1)"
    using tree_clear_holds [OF assms(1)] by auto
  have w1: "m1 x = m x" if "x \<in> set ws" for x using that assms(3) c(3) by (auto simp: keeps_out_def)
  have src: "holds (m1, g) ([] @ ws)" using holds_frame [OF assms(2)] w1 by simp
  obtain s2 xs2 where s2: "insert_range new 0 (first0 ws) NULL (m1, h1) = Some s2" "holds s2 xs2"
    "entries (fst s2) xs2 = entries m1 ([] @ ws)" "\<forall>x\<in>set ([] @ ws). fst s2 x = m1 x" "set xs2 \<subseteq> range new"
    using insert_range_copies [OF src c(2) _ _ assms(4), of 0] assms(5) by auto
  have fr: "hchild g LEFT = first0 ws" using holds_ends [OF assms(2)] by simp
  have e: "entries m1 ws = entries m ws" using w1 by (intro entries_cong) simp
  have front: "hchild (snd s2) LEFT = first0 xs2" using holds_ends [OF s2(2)] by simp
  obtain s3 where s3: "(if hchild (snd s2) LEFT \<noteq> NULL then splay (hchild (snd s2) LEFT) s2 else Some s2) = Some s3" "holds s3 xs2" "moves_links (set xs2) s2 s3"
  proof (cases "xs2 = []")
    case True
    then show ?thesis using that [of s2] s2(2) front by (simp add: moves_links_refl)
  next
    case False
    then have "first0 xs2 \<in> set xs2" by (simp add: first0_def)
    moreover from this have "first0 xs2 \<noteq> NULL" using holds_distinct [OF s2(2)] by metis
    ultimately show ?thesis using that splay_holds [OF s2(2), of "first0 xs2"] front by auto
  qed
  have "assign new (Some g) (m, h) = Some s3" using c(1) fr s2(1) s3(1) by (simp add: assign_def)
  moreover have "entries (fst s3) xs2 = entries m ws" using s3(3) s2(3) e by (simp add: moves_links_def entries_def)
  moreover have "holds (fst s3, g) ws"
  proof -
    have "fst s3 x = m x" if "x \<in> set ws" for x
    proof -
      have "x \<notin> set xs2" using that s2(5) assms(5) by fastforce
      then show ?thesis using that s3(3) s2(4) w1 by (simp add: moves_links_def)
    qed
    then show ?thesis using holds_frame [OF assms(2)] by blast
  qed
  ultimately show ?thesis using s3(2) by blast
qed

section \<open>Properties\<close>

text \<open>C22. Every run of insertions, emplacements, subscripts, erasures, searches and counts on a \<open>std::map\<close> returns, and gives
  the results of the same run on an abstract finite map, with which it stays in correspondence.\<close>

theorem map_refines:
  assumes "models s X f" "distinct (map fst ps)" "set (map fst ps) \<inter> insert NULL X = {}"
  shows "\<exists>s'. run_ops map_step ps s = Some (fst (run_spec abs_map_step (map snd ps) f), s')
    \<and> models s' (X \<union> set (map fst ps)) (snd (run_spec abs_map_step (map snd ps) f))"
  using assms by (rule splay_map.run_ok)

definition empty_mem :: "(nat \<times> nat) tmem" where
  "empty_mem = (\<lambda>x. \<lparr>tparent = NULL, tchild = (\<lambda>d. NULL), tdata = (0, 0)\<rparr>)"

lemma models_init: "models (m, header_init) {} Map.empty"
  unfolding models_def by (intro exI [of _ "[]"]) (simp add: holds_init contents_def)

theorem map_refines_witness:
  "\<exists>s'. run_ops map_step [(8, Ins 3 30), (16, Ins 1 10), (24, Ins 3 33), (32, Era 3), (40, Sub 2 20), (48, Fnd 3), (56, Cnt 1), (64, Emp 1 11)]
      (empty_mem, header_init)
    = Some ([(True, Some 30), (True, Some 10), (False, Some 30), (True, None), (True, Some 20), (False, None), (True, None), (False, Some 10)], s')"
  using map_refines [OF models_init, of "[(8, Ins 3 30), (16, Ins 1 10), (24, Ins 3 33), (32, Era 3), (40, Sub 2 20), (48, Fnd 3), (56, Cnt 1), (64, Emp 1 11)]" empty_mem]
  by (auto simp del: map_step.simps run_ops.simps)

text \<open>Assigning another map copies its entries in order and leaves it unchanged, whatever the target held;
  assigning a map to itself empties it.\<close>

theorem map_assignment:
  assumes "holds (m, h) xs" "holds (m, g) ws" "set xs \<inter> set ws = {}" "inj new" "\<forall>j. new j \<notin> insert NULL (set (xs @ ws))"
  shows "(\<exists>s' xs'. assign new (Some g) (m, h) = Some s' \<and> holds s' xs' \<and> entries (fst s') xs' = entries m ws \<and> holds (fst s', g) ws)
    \<and> (\<exists>s'. assign new None (m, h) = Some s' \<and> holds s' [])"
proof
  show "\<exists>s' xs'. assign new (Some g) (m, h) = Some s' \<and> holds s' xs' \<and> entries (fst s') xs' = entries m ws \<and> holds (fst s', g) ws"
    using assign_copies [OF assms(1-4)] assms(5) by blast
  obtain s1 where c: "tree_clear (m, h) = Some s1" "holds s1 []" using tree_clear_holds [OF assms(1)] by blast
  then have "hchild (snd s1) LEFT = NULL" using holds_ends by fastforce
  with c show "\<exists>s'. assign new None (m, h) = Some s' \<and> holds s' []" by (simp add: assign_def insert_range.simps)
qed

text \<open>\<open>lower_bound\<close> gives the first entry whose key is not less than the given one. \<open>at\<close> is built on it: for a
  missing key it does not fail but gives the value of the next larger key, and fails only when there is none.
  \<open>upper_bound\<close> is \<open>lower_bound\<close> too: for a key in the map it gives that key's own entry, and \<open>equal_range\<close> gives an
  empty range.\<close>

theorem map_bounds:
  assumes "holds s xs" "n = first0 (filter (\<lambda>x. k \<le> tkey (fst s) x) xs)"
  shows "(\<exists>s'. map_lower_bound k s = Some (n, s') \<and> holds s' xs)
    \<and> (\<exists>s'. map_at k s = Some (if n = NULL then Inl CritAssert else Inr (snd (tdata (fst s n)), s')) \<and> holds s' xs)
    \<and> (\<exists>s'. map_upper_bound k s = Some (n, s') \<and> holds s' xs)
    \<and> (\<exists>s'. map_equal_range k s = Some ((n, n), s') \<and> holds s' xs)
    \<and> (\<exists>s'. upper_bound_by_value k s = Some (first0 (filter (\<lambda>x. k < tkey (fst s) x) xs), s') \<and> holds s' xs)"
proof -
  obtain s1 where l: "lower_bound_by_value k s = Some (n, s1)" "holds s1 xs" "moves_links (set xs) s s1"
    using lower_bound_ok [OF assms(1), of k] by (auto simp: assms(2))
  have "tkey (fst s1) = tkey (fst s)" using keeps_out_tkey [OF moves_links_keeps_out [OF l(3)]] .
  then obtain s2 where u: "lower_bound_by_value k s1 = Some (n, s2)" "holds s2 xs"
    using lower_bound_ok [OF l(2), of k] by (auto simp: assms(2))
  have "snd (tdata (fst s1 n)) = snd (tdata (fst s n))" using l(3) by (simp add: moves_links_def)
  then show ?thesis using l u upper_bound_ok [OF assms(1), of k]
    by (cases s1) (auto simp: map_lower_bound_def map_upper_bound_def map_equal_range_def map_at_def)
qed

text \<open>Two small trees in one memory: the keys 1 and 3 at the addresses 8 and 16, and the key 5 at 24.\<close>

definition two_trees :: "(nat \<times> nat) tmem" where
  "two_trees = empty_mem
     (8 := \<lparr>tparent = NULL, tchild = (\<lambda>d. case d of LEFT \<Rightarrow> NULL | RIGHT \<Rightarrow> 16), tdata = (1, 10)\<rparr>,
      16 := \<lparr>tparent = 8, tchild = (\<lambda>d. NULL), tdata = (3, 30)\<rparr>,
      24 := \<lparr>tparent = NULL, tchild = (\<lambda>d. NULL), tdata = (5, 50)\<rparr>)"

definition header1 :: header where
  "header1 = \<lparr>hparent = 8, hchild = (\<lambda>d. case d of LEFT \<Rightarrow> 8 | RIGHT \<Rightarrow> 16), hsize = 2\<rparr>"

definition header2 :: header where
  "header2 = \<lparr>hparent = 24, hchild = (\<lambda>d. 24), hsize = 1\<rparr>"

lemma two_trees_rep: "map_rep (two_trees, header1) (Node Leaf 8 (Node Leaf 16 Leaf))"
  by (auto simp: map_rep_def tree_at_def two_trees_def header1_def tkey_def final0_def fun_eq_iff split: DIRECTION.splits)

lemma two_trees_hold: "holds (two_trees, header1) [8, 16]" "holds (two_trees, header2) [24]"
proof -
  show "holds (two_trees, header1) [8, 16]"
    unfolding holds_def using two_trees_rep by (intro exI [of _ "Node Leaf 8 (Node Leaf 16 Leaf)"]) simp
  have "map_rep (two_trees, header2) (Node Leaf 24 Leaf)"
    by (auto simp: map_rep_def tree_at_def two_trees_def header2_def tkey_def final0_def fun_eq_iff split: DIRECTION.splits)
  then show "holds (two_trees, header2) [24]"
    unfolding holds_def by (intro exI [of _ "Node Leaf 24 Leaf"]) simp
qed

theorem map_assignment_witness:
  "(\<exists>s' xs'. assign (\<lambda>j. 100 + 8 * j) (Some header2) (two_trees, header1) = Some s' \<and> holds s' xs' \<and> entries (fst s') xs' = [(5, 50)])
    \<and> (\<exists>s'. assign (\<lambda>j. 100 + 8 * j) None (two_trees, header1) = Some s' \<and> holds s' [])"
proof -
  have "inj (\<lambda>j :: nat. 100 + 8 * j)" by (auto simp: inj_def)
  moreover have "entries two_trees [24] = [(5, 50)]" by (simp add: two_trees_def)
  ultimately show ?thesis
    using map_assignment [OF two_trees_hold, of "\<lambda>j. 100 + 8 * j"] by fastforce
qed

theorem map_bounds_witness:
  "(\<exists>s'. map_at 2 (two_trees, header1) = Some (Inr (30, s'))) \<and> (\<exists>s'. map_at 4 (two_trees, header1) = Some (Inl CritAssert))
    \<and> (\<exists>s'. map_equal_range 1 (two_trees, header1) = Some ((8, 8), s'))"
proof -
  have k: "tkey two_trees 8 = 1" "tkey two_trees 16 = 3" "tdata (two_trees 16) = (3, 30)" by (simp_all add: two_trees_def tkey_def)
  show ?thesis
    using map_bounds [OF two_trees_hold(1) refl, of 2] map_bounds [OF two_trees_hold(1) refl, of 4]
      map_bounds [OF two_trees_hold(1) refl, of 1] k by auto
qed

text \<open>C35. Inserting a node whose key is in the tree already, as \<open>insert(first, last)\<close> does for a duplicate key, when
  the node \<open>x\<close> with that key has a leaf \<open>r\<close> as its right child: the new node is counted but not linked into the
  tree, and \<open>r\<close> has it as its parent, so that an iterator at \<open>r\<close> reaches the end of the map although other
  nodes follow.\<close>

theorem duplicate_insert_breaks_links:
  assumes "map_rep (m, h) (plug c (Node A x (Node Leaf r Leaf)))" "tkey m n = tkey m x" "n \<noteq> NULL"
    "n \<notin> set_tree (plug c (Node A x (Node Leaf r Leaf)))" "m n = \<lparr>tparent = NULL, tchild = (\<lambda>d. NULL), tdata = v\<rparr>"
  shows "increment r (m, h) = Some (first0 (after_of c)) \<and>
    (\<exists>s'. insert_node n (m, h) = Some s' \<and> hsize (snd s') = hsize h + 1 \<and> hparent (snd s') = hparent h
      \<and> tchild (fst s' x) RIGHT = r \<and> tparent (fst s' r) = n \<and> tparent (fst s' n) = NULL \<and> increment r s' = Some NULL)"
proof -
  let ?t = "plug c (Node A x (Node Leaf r Leaf))"
  have at: "tree_at (m, h) ?t" and srt: "sorted_wrt (key_less m) (inorder ?t)" and ends: "hchild h LEFT = first0 (inorder ?t)" "hchild h RIGHT = final0 (inorder ?t)"
    using assms(1) by (simp_all add: map_rep_def)
  have at': "tree_at (m, h) (plug ((RIGHT, x, A) # c) (Node Leaf r Leaf))" using at by (simp add: mk_def)
  have mk: "Node A x (Node Leaf r Leaf) = mk LEFT A x (Node Leaf r Leaf)" by (simp add: mk_def)
  note f = focusD [OF at [unfolded mk]]
  have r: "tchild (m x) RIGHT = r" "r \<noteq> NULL" "r \<noteq> x" "tchild (m r) LEFT = NULL" "tchild (m r) RIGHT = NULL" using f(4,8) by auto
  have i0: "increment r (m, h) = Some (first0 (after_of c))" using successor_plug [OF at'] r(2) by (simp add: increment_def)
  have io: "inorder ?t = (before_of c @ inorder A) @ x # r # after_of c" by (simp add: inorder_plug)
  have kr: "tkey m x < tkey m r" using srt unfolding io by (auto simp: sorted_wrt_append)
  have ne: "?t \<noteq> Leaf" using io by (metis append_is_Nil_conv inorder.simps(1) list.distinct(1))
  have root: "hparent h = rt ?t" "hparent h \<noteq> NULL" using map_rep_root [OF assms(1)] ne by auto
  have "trep m NULL (rt ?t) ?t" using at root by (simp add: tree_at_def)
  from tree_find_place [OF this ne srt, of "tkey m n"] obtain c' y A' B' where
    fd: "tree_find m (rt ?t) (tkey m n) = Some (y, tkey m y = tkey m n)" "?t = plug c' (Node A' y B')"
      "\<forall>z\<in>set (before_of c' @ inorder A'). tkey m z < tkey m n" "\<forall>z\<in>set (inorder B' @ after_of c'). tkey m n < tkey m z" by blast
  have "x \<in> set (inorder ?t)" using io by simp
  then have "x \<in> set (before_of c' @ inorder A') \<or> x = y \<or> x \<in> set (inorder B' @ after_of c')" unfolding fd(2) inorder_plug by auto
  then have yx: "y = x" using fd(3,4) assms(2) by (metis less_irrefl)
  define m1 where "m1 = set_parent r n (set_child n RIGHT r m)"
  have nn: "inorder ?t \<noteq> []" and ni: "n \<notin> set (inorder ?t)" using io assms(4) by (simp, metis set_inorder)
  have "first0 (inorder ?t) \<in> set (inorder ?t)" "final0 (inorder ?t) \<in> set (inorder ?t)"
    using hd_in_set [OF nn] last_in_set [OF nn] nn by (simp_all only: first0_def final0_def if_False)
  with ni have nr: "n \<noteq> r" "n \<noteq> x" "n \<noteq> first0 (inorder ?t)" "n \<noteq> final0 (inorder ?t)" using io by auto
  have "tree_insert x n m = tree_insert n r m" using assms(2) r by (subst tree_insert.simps) (simp add: compare_def)
  also have "\<dots> = Some m1" using kr assms(2,5) less_not_sym [OF kr] by (subst tree_insert.simps) (simp add: compare_def m1_def)
  finally have ins: "tree_insert x n m = Some m1" .
  have m1: "\<And>z. z \<noteq> n \<Longrightarrow> tchild (m1 z) = tchild (m z)" "tchild (m1 n) RIGHT = r" "tparent (m1 r) = n" "tparent (m1 n) = NULL"
    using nr(1) assms(5) by (auto simp: m1_def set_parent_def set_child_def)
  have e: "leftmost m1 (hchild h LEFT) = Some (hchild h LEFT)" "rightmost m1 (hchild h RIGHT) = Some (hchild h RIGHT)"
    using end_children [OF at ne] m1(1) nr ends by (simp_all add: leftmost_def rightmost_def utmost_stop)
  have hc: "(\<lambda>d. case d of LEFT \<Rightarrow> hchild h LEFT | RIGHT \<Rightarrow> hchild h RIGHT) = hchild h" by (auto simp: fun_eq_iff split: DIRECTION.splits)
  have sp: "splay n (m1, h) = Some (m1, h)" using m1(4) by (subst splay.simps) simp
  have "insert_node n (m, h) = Some (m1, h\<lparr>hsize := hsize h + 1\<rparr>)"
    using root fd(1) yx ins e hc sp by (simp add: insert_node_def)
  moreover have "increment r (m1, h\<lparr>hsize := hsize h + 1\<rparr>) = Some NULL"
  proof -
    have "climb RIGHT m1 r n = climb RIGHT m1 n NULL" using assms(3) m1(2,4) by (subst climb.simps) simp
    also have "\<dots> = Some NULL" by (subst climb.simps) simp
    finally show ?thesis using r m1(1,3) nr by (simp add: increment_def successor_def)
  qed
  ultimately show ?thesis using m1 nr(2) r(1) i0 by auto
qed

definition dup_mem :: "(nat \<times> nat) tmem" where
  "dup_mem = empty_mem
     (8 := \<lparr>tparent = 40, tchild = (\<lambda>d. case d of LEFT \<Rightarrow> NULL | RIGHT \<Rightarrow> 16), tdata = (1, 10)\<rparr>,
      16 := \<lparr>tparent = 8, tchild = (\<lambda>d. NULL), tdata = (3, 30)\<rparr>,
      40 := \<lparr>tparent = NULL, tchild = (\<lambda>d. case d of LEFT \<Rightarrow> 8 | RIGHT \<Rightarrow> NULL), tdata = (9, 90)\<rparr>,
      48 := \<lparr>tparent = NULL, tchild = (\<lambda>d. NULL), tdata = (1, 11)\<rparr>)"

definition dup_header :: header where
  "dup_header = \<lparr>hparent = 40, hchild = (\<lambda>d. case d of LEFT \<Rightarrow> 8 | RIGHT \<Rightarrow> 40), hsize = 3\<rparr>"

lemma dup_rep: "map_rep (dup_mem, dup_header) (plug [(LEFT, 40, Leaf)] (Node Leaf 8 (Node Leaf 16 Leaf)))"
  by (auto simp: map_rep_def tree_at_def dup_mem_def dup_header_def tkey_def final0_def fun_eq_iff mk_def split: DIRECTION.splits)

theorem duplicate_insert_breaks_links_witness:
  "increment 16 (dup_mem, dup_header) = Some 40 \<and>
    (\<exists>s'. insert_node 48 (dup_mem, dup_header) = Some s' \<and> hsize (snd s') = 4 \<and> increment 16 s' = Some NULL)"
proof -
  have "tkey dup_mem 48 = tkey dup_mem 8" "dup_mem 48 = \<lparr>tparent = NULL, tchild = (\<lambda>d. NULL), tdata = (1, 11)\<rparr>" "hsize dup_header = 3"
    by (simp_all add: dup_mem_def dup_header_def tkey_def)
  then show ?thesis using duplicate_insert_breaks_links [OF dup_rep, of 48 "(1, 11)"] by (auto simp: mk_def)
qed

end
