(* ===== verification/Pnor_Ecc.thy ===== *)
theory Pnor_Ecc
  imports HB_Prelude
begin

text \<open>
  The error correcting code of the flash, \<open>usr/pnor/ecc.C\<close>, which the bootloader compiles too: every
  8 bytes of data are followed by a check byte. A flash buffer is a list of bytes. The processor is
  big-endian, so \<open>be64toh\<close> and \<open>htobe64\<close> are the identity and a word is read from its 8 bytes with the
  most significant byte first.
\<close>

section \<open>The code\<close>

definition parityl :: "u64 \<Rightarrow> bool" where
  "parityl w = foldr (\<lambda>i b. bit w i \<noteq> b) [0..<64] False"

definition eccMatrix :: "u64 list" where
  "eccMatrix =
     [0x0000e8423c0f99ff, 0x00e8423c0f99ff00, 0xe8423c0f99ff0000, 0x423c0f99ff0000e8,
      0x3c0f99ff0000e842, 0x0f99ff0000e8423c, 0x99ff0000e8423c0f, 0xff0000e8423c0f99]"

definition GD :: nat where "GD = 0xff"
definition UE :: nat where "UE = 0xfe"

text \<open>The names \<open>E0\<close> to \<open>E7\<close> are the numbers 71 down to 64.\<close>

definition syndromeMatrix :: "nat list" where
  "syndromeMatrix =
     [GD, 64, 65, UE, 66, UE, UE, 47, 67, UE, UE, 37, UE, 35, 39, UE,
      68, UE, UE, 48, UE, 30, 29, UE, UE, 57, 27, UE, 31, UE, UE, UE,
      69, UE, UE, 17, UE, 18, 40, UE, UE, 58, 22, UE, 21, UE, UE, UE,
      UE, 16, 49, UE, 19, UE, UE, UE, 23, UE, UE, UE, UE, 20, UE, UE,
      70, UE, UE, 51, UE, 46,  9, UE, UE, 34, 10, UE, 32, UE, UE, 36,
      UE, 62, 50, UE, 14, UE, UE, UE, 13, UE, UE, UE, UE, UE, UE, UE,
      UE, 61,  8, UE, 41, UE, UE, UE, 11, UE, UE, UE, UE, UE, UE, UE,
      15, UE, UE, UE, UE, UE, UE, UE, UE, UE, 12, UE, UE, UE, UE, UE,
      71, UE, UE, 55, UE, 45, 43, UE, UE, 56, 38, UE,  1, UE, UE, UE,
      UE, 25, 26, UE,  2, UE, UE, UE, 24, UE, UE, UE, UE, UE, 28, UE,
      UE, 59, 54, UE, 42, UE, UE, 44,  6, UE, UE, UE, UE, UE, UE, UE,
       5, UE, UE, UE, UE, UE, UE, UE, UE, UE, UE, UE, UE, UE, UE, UE,
      UE, 63, 53, UE,  0, UE, UE, UE, 33, UE, UE, UE, UE, UE, UE, UE,
       3, UE, UE, 52, UE, UE, UE, UE, UE, UE, UE, UE, UE, UE, UE, UE,
       7, UE, UE, UE, UE, UE, UE, UE, UE, 60, UE, UE, UE, UE, UE, UE,
      UE, UE, UE, UE,  4, UE, UE, UE, UE, UE, UE, UE, UE, UE, UE, UE]"

definition generateECC :: "u64 \<Rightarrow> u8" where
  "generateECC i_data =
     foldl (\<lambda>result i. result OR push_bit i (of_bool (parityl (eccMatrix ! i AND i_data)))) 0 [0..<8]"

definition verifyECC :: "u64 \<Rightarrow> u8 \<Rightarrow> nat" where
  "verifyECC i_data i_ecc = syndromeMatrix ! unat (generateECC i_data XOR i_ecc)"

definition correctECC :: "u64 \<Rightarrow> u8 \<Rightarrow> nat \<times> u64 \<times> u8" where
  "correctECC io_data io_ecc =
     (let badBit = verifyECC io_data io_ecc
      in if badBit \<noteq> GD \<and> badBit \<noteq> UE
         then if badBit \<ge> 64 then (badBit, io_data, io_ecc XOR push_bit (badBit - 64) 1)
              else (badBit, io_data XOR push_bit (63 - badBit) 1, io_ecc)
         else (badBit, io_data, io_ecc))"

section \<open>Streams\<close>

datatype eccStatus = CLEAN | CORRECTED | UNCORRECTABLE

definition read64 :: "u8 list \<Rightarrow> u64" where
  "read64 bs = foldl (\<lambda>w b. push_bit 8 w OR ucast b) 0 bs"

definition write64 :: "u64 \<Rightarrow> u8 list" where
  "write64 w = map (\<lambda>i. ucast (drop_bit (8 * (7 - i)) w)) [0..<8]"

text \<open>The loop of \<open>injectECC\<close> from offset \<open>i\<close> on; the destination is written from its start.\<close>

function inject_from :: "u8 list \<Rightarrow> nat \<Rightarrow> nat \<Rightarrow> u8 list" where
  "inject_from i_src i i_srcSz =
     (if i < i_srcSz
      then let bs = take 8 (drop i i_src)
           in bs @ [generateECC (read64 bs)] @ inject_from i_src (i + 8) i_srcSz
      else [])"
  by pat_completeness auto
termination
  by (relation "measure (\<lambda>(s, i, n). n - i)") auto

definition injectECC :: "u8 list \<Rightarrow> nat \<Rightarrow> kerror + u8 list" where
  "injectECC i_src i_srcSz =
     (if i_srcSz mod 8 = 0 then Inr (inject_from i_src 0 i_srcSz) else Inl KAssert)"

text \<open>
  The loop of \<open>removeECC\<close>, first its body: status, source, what is written to the destination, and
  the accumulated errors with their offsets in the source.
\<close>

definition remove_word ::
  "nat \<Rightarrow> eccStatus \<times> u8 list \<times> u8 list \<times> (nat \<times> eccStatus) list
    \<Rightarrow> eccStatus \<times> u8 list \<times> u8 list \<times> (nat \<times> eccStatus) list" where
  "remove_word i s = (case s of (rc, io_src, o_dst, errs) \<Rightarrow>
     case correctECC (read64 (take 8 (drop i io_src))) (io_src ! (i + 8)) of (badBit, data, ecc) \<Rightarrow>
       (if badBit = UE then UNCORRECTABLE
        else if badBit \<noteq> GD \<and> rc \<noteq> UNCORRECTABLE then CORRECTED else rc,
        if badBit = UE \<or> badBit = GD then io_src
        else take i io_src @ write64 data @ [ecc] @ drop (i + 9) io_src,
        o_dst @ write64 data,
        if badBit = GD then errs
        else errs @ [(i, if badBit = UE then UNCORRECTABLE else CORRECTED)]))"

function remove_from ::
  "nat \<Rightarrow> nat \<Rightarrow> nat \<Rightarrow> eccStatus \<times> u8 list \<times> u8 list \<times> (nat \<times> eccStatus) list
    \<Rightarrow> eccStatus \<times> u8 list \<times> u8 list \<times> (nat \<times> eccStatus) list" where
  "remove_from i dst_off i_dstSz s =
     (if dst_off < i_dstSz then remove_from (i + 9) (dst_off + 8) i_dstSz (remove_word i s) else s)"
  by pat_completeness auto
termination
  by (relation "measure (\<lambda>(i, k, n, s). n - k)") auto

declare inject_from.simps [simp del] remove_from.simps [simp del]

definition removeECC ::
  "u8 list \<Rightarrow> nat \<Rightarrow> kerror + eccStatus \<times> u8 list \<times> u8 list \<times> (nat \<times> eccStatus) list" where
  "removeECC io_src i_dstSz =
     (if i_dstSz mod 8 = 0 then Inr (remove_from 0 0 i_dstSz (CLEAN, io_src, [], [])) else Inl KAssert)"

definition sizeWithEcc :: "nat \<Rightarrow> kerror + nat" where
  "sizeWithEcc n = (if n mod 8 = 0 then Inr (n * 9 div 8) else Inl KAssert)"

section \<open>The code is linear\<close>

lemma parity_fold_xor:
  "foldr (\<lambda>i b. bit (v XOR w) i \<noteq> b) xs False
     = (foldr (\<lambda>i b. bit v i \<noteq> b) xs False \<noteq> foldr (\<lambda>i b. bit (w :: u64) i \<noteq> b) xs False)"
  by (induction xs) (auto simp: bit_xor_iff)

lemma parityl_xor: "parityl (v XOR w) = (parityl v \<noteq> parityl w)"
  unfolding parityl_def by (rule parity_fold_xor)

lemma parity_fold_single:
  "distinct xs \<Longrightarrow> foldr (\<lambda>i b. (P \<and> i = k) \<noteq> b) xs False = (P \<and> k \<in> set xs)"
  by (induction xs) auto

lemma parityl_single: "k < 64 \<Longrightarrow> parityl (w AND push_bit k 1) = bit w k"
proof -
  assume k: "k < 64"
  have "bit (w AND push_bit k 1) i = (bit w k \<and> i = k)" if "i < 64" for i
    using k that by (auto simp: bit_and_iff bit_exp_iff)
  then have "parityl (w AND push_bit k 1) = foldr (\<lambda>i b. (bit w k \<and> i = k) \<noteq> b) [0..<64] False"
    unfolding parityl_def by (intro foldr_cong) auto
  also have "\<dots> = (bit w k \<and> k \<in> set [0..<64])" by (rule parity_fold_single) (rule distinct_upt)
  also have "\<dots> = bit w k" using k by (simp only: set_upt) auto
  finally show ?thesis .
qed

lemma generateECC_fold:
  "bit (foldl (\<lambda>r i. r OR push_bit i (of_bool (P i))) (w :: u8) xs) n
     = (bit w n \<or> (n < 8 \<and> n \<in> set xs \<and> P n))"
proof (induction xs arbitrary: w)
  case (Cons i xs)
  have "bit (push_bit i (of_bool (P i)) :: u8) n = (n < 8 \<and> n = i \<and> P n)"
    by (cases "P i") (auto simp: bit_exp_iff)
  with Cons show ?case by (auto simp: bit_or_iff)
qed simp

lemma bit_generateECC: "bit (generateECC d) n = (n < 8 \<and> parityl (eccMatrix ! n AND d))"
  by (simp add: generateECC_def generateECC_fold del: upt_Suc upt_rec_numeral)

lemma generateECC_xor: "generateECC (a XOR b) = generateECC a XOR generateECC b"
  by (rule bit_word_eqI) (auto simp: bit_generateECC bit_xor_iff parityl_xor bit.conj_xor_distrib)


section \<open>Syndromes\<close>

text \<open>
  Positions of a stored word count from 0 to 71 as the table does: 0 to 63 are the data bits from the
  most significant one on, 64 to 71 are the bits of the check byte from the least significant one on.
\<close>

definition flip :: "nat \<Rightarrow> u64 \<times> u8 \<Rightarrow> u64 \<times> u8" where
  "flip p w = (if p < 64 then (fst w XOR push_bit (63 - p) 1, snd w) else (fst w, snd w XOR push_bit (p - 64) 1))"

definition effect :: "nat \<Rightarrow> u8" where
  "effect p = (if p < 64 then generateECC (push_bit (63 - p) 1) else push_bit (p - 64) 1)"

definition syndrome :: "u64 \<times> u8 \<Rightarrow> u8" where
  "syndrome w = generateECC (fst w) XOR snd w"

definition effect_bits :: "nat \<Rightarrow> bool list" where
  "effect_bits p = map (\<lambda>i. if p < 64 then bit (eccMatrix ! i) (63 - p) else i = p - 64) [0..<8]"

lemma syndrome_flip: "syndrome (flip p w) = syndrome w XOR effect p"
  by (simp add: syndrome_def flip_def effect_def generateECC_xor xor.assoc xor.commute xor.left_commute)

lemma bit_effect: "p < 72 \<Longrightarrow> bit (effect p) n = (n < 8 \<and> effect_bits p ! n)"
proof (cases "p < 64")
  case True
  then show ?thesis
    by (auto simp: effect_def effect_bits_def bit_generateECC parityl_single simp del: upt_rec_numeral push_bit_of_1)
next
  case False
  moreover assume "p < 72"
  ultimately show ?thesis by (auto simp: effect_def effect_bits_def bit_exp_iff simp del: upt_rec_numeral)
qed

lemma unat_effect: "p < 72 \<Longrightarrow> unat (effect p) = horner_sum of_bool 2 (effect_bits p)"
proof -
  assume p: "p < 72"
  have "effect_bits p = map (bit (effect p)) [0..<8]"
    using p by (auto simp: bit_effect effect_bits_def simp del: upt_rec_numeral)
  then have "effect_bits p = map (bit (unat (effect p))) [0..<8]"
    by (auto simp: bit_unsigned_iff simp del: upt_rec_numeral)
  then show ?thesis
    using unsigned_less [of "effect p", where 'a = nat] by (simp add: horner_sum_bit_eq_take_bit take_bit_nat_eq_self del: upt_rec_numeral)
qed

lemma effect_bits_data: "p < 64 \<Longrightarrow> effect_bits p = map (\<lambda>r. bit r (63 - p)) eccMatrix"
proof -
  assume "p < 64"
  moreover have "length eccMatrix = 8" by (simp add: eccMatrix_def)
  ultimately show ?thesis by (auto simp: effect_bits_def list_eq_iff_nth_eq simp del: upt_rec_numeral)
qed

lemma table_data:
  "list_all (\<lambda>p. syndromeMatrix ! horner_sum of_bool 2 (map (\<lambda>r. bit r (63 - p)) eccMatrix) = p) [0..<64]"
  by (simp add: upt_rec eccMatrix_def syndromeMatrix_def)

lemma table_check: "list_all (\<lambda>i. syndromeMatrix ! (2 ^ i) = 64 + i) [0..<8]"
  by (simp add: upt_rec syndromeMatrix_def)

lemma syndrome_effect: "p < 72 \<Longrightarrow> syndromeMatrix ! unat (effect p) = p"
proof (cases "p < 64")
  case True
  with table_data show ?thesis by (simp add: unat_effect effect_bits_data list_all_iff del: upt_rec_numeral)
next
  case False
  moreover assume "p < 72"
  moreover have "unat (push_bit n 1 :: u8) = 2 ^ n" if "n < 8" for n
    using that unat_of_nat [of "2 ^ n", where 'a = 8] power_strict_increasing [of n 8 "2 :: nat"] by simp
  ultimately show ?thesis using table_check
    by (simp add: effect_def list_all_iff del: upt_rec_numeral push_bit_of_1)
qed

text \<open>Every effect has an odd number of bits, and every even number of bits but none is uncorrectable.\<close>

definition odd_bits :: "u8 \<Rightarrow> bool" where
  "odd_bits w = foldr (\<lambda>i b. bit w i \<noteq> b) [0..<8] False"

lemma odd_fold_xor:
  "foldr (\<lambda>i b. bit (v XOR w) i \<noteq> b) xs False
     = (foldr (\<lambda>i b. bit v i \<noteq> b) xs False \<noteq> foldr (\<lambda>i b. bit (w :: u8) i \<noteq> b) xs False)"
  by (induction xs) (auto simp: bit_xor_iff)

lemma odd_bits_xor: "odd_bits (v XOR w) = (odd_bits v \<noteq> odd_bits w)"
  unfolding odd_bits_def by (rule odd_fold_xor)

lemma table_odd: "list_all (\<lambda>p. foldr (\<lambda>b c. b \<noteq> c) (map (\<lambda>r. bit r (63 - p)) eccMatrix) False) [0..<64]"
  by (simp add: upt_rec eccMatrix_def)

lemma table_even:
  "list_all2 (\<lambda>e s. s = 0 \<or> odd_bits (word_of_nat s) \<or> e = UE) syndromeMatrix [0..<256]"
  by (simp add: upt_rec odd_bits_def syndromeMatrix_def)

lemma odd_bits_effect: "p < 72 \<Longrightarrow> odd_bits (effect p)"
proof -
  assume p: "p < 72"
  have "odd_bits (effect p) = foldr (\<lambda>i b. effect_bits p ! i \<noteq> b) [0..<8] False"
    unfolding odd_bits_def using p by (intro foldr_cong) (auto simp: bit_effect)
  also have "\<dots> = foldr (\<lambda>b c. b \<noteq> c) (map ((!) (effect_bits p)) [0..<8]) False"
    by (simp add: foldr_map comp_def del: upt_rec_numeral)
  also have "map ((!) (effect_bits p)) [0..<8] = effect_bits p"
    using map_nth [of "effect_bits p"] by (simp add: effect_bits_def del: upt_rec_numeral)
  also have "foldr (\<lambda>b c. b \<noteq> c) (effect_bits p) False"
  proof (cases "p < 64")
    case True
    with table_odd show ?thesis by (simp add: effect_bits_data list_all_iff del: upt_rec_numeral)
  next
    case False
    have "foldr (\<lambda>b c. b \<noteq> c) (map (\<lambda>i. i = k) [0..<8]) False = (k < 8)" for k :: nat
      using parity_fold_single [of "[0..<8]" True k] by (simp add: foldr_map comp_def del: upt_rec_numeral)
    with False p show ?thesis by (simp add: effect_bits_def del: upt_rec_numeral)
  qed
  finally show ?thesis .
qed

lemma even_syndrome: "w \<noteq> 0 \<Longrightarrow> \<not> odd_bits w \<Longrightarrow> syndromeMatrix ! unat w = UE"
proof -
  assume w: "w \<noteq> 0" "\<not> odd_bits w"
  have "unat w < 256" using unsigned_less [of w, where 'a = nat] by simp
  with table_even have "unat w = 0 \<or> odd_bits (word_of_nat (unat w)) \<or> syndromeMatrix ! unat w = UE"
    by (auto simp: list_all2_conv_all_nth simp del: upt_rec_numeral dest: spec [where x = "unat w"])
  with w show ?thesis by (simp add: unat_eq_0)
qed

lemma syndrome_double:
  assumes "p < 72" "q < 72" "p \<noteq> q"
  shows "syndromeMatrix ! unat (effect p XOR effect q) = UE"
proof (rule even_syndrome)
  show "\<not> odd_bits (effect p XOR effect q)" using assms by (simp add: odd_bits_xor odd_bits_effect)
  show "effect p XOR effect q \<noteq> 0"
  proof
    assume "effect p XOR effect q = 0"
    then have "effect p = effect q" by (metis xor.assoc xor.right_neutral xor_self_eq)
    then show False using assms syndrome_effect by metis
  qed
qed

lemma verifyECC_syndrome: "verifyECC d e = syndromeMatrix ! unat (syndrome (d, e))"
  by (simp add: verifyECC_def syndrome_def)

lemma correctECC_clean: "syndrome w = 0 \<Longrightarrow> correctECC (fst w) (snd w) = (GD, w)"
  by (simp add: correctECC_def verifyECC_syndrome syndromeMatrix_def Let_def)

lemma correctECC_single:
  assumes "syndrome w = 0" "p < 72"
  shows "correctECC (fst (flip p w)) (snd (flip p w)) = (p, w)"
proof -
  have "verifyECC (fst (flip p w)) (snd (flip p w)) = p"
    using assms by (simp add: verifyECC_syndrome syndrome_flip syndrome_effect)
  with assms(2) show ?thesis by (cases w) (simp add: correctECC_def GD_def UE_def Let_def flip_def xor.assoc)
qed

lemma correctECC_double:
  assumes "syndrome w = 0" "p < 72" "q < 72" "p \<noteq> q"
  shows "correctECC (fst (flip p (flip q w))) (snd (flip p (flip q w))) = (UE, flip p (flip q w))"
proof -
  have "verifyECC (fst (flip p (flip q w))) (snd (flip p (flip q w))) = UE"
    using assms syndrome_double [of q p] by (simp add: verifyECC_syndrome syndrome_flip)
  then show ?thesis by (simp add: correctECC_def Let_def)
qed

section \<open>Bytes of a word\<close>

lemma length_write64 [simp]: "length (write64 w) = 8"
  by (simp add: write64_def)

lemma bit_read_step: "bit (push_bit 8 w OR ucast (b :: u8) :: u64) n = (if n < 8 then bit b n else n < 64 \<and> bit w (n - 8))"
  by (auto simp: bit_or_iff bit_push_bit_iff bit_unsigned_iff dest: bit_imp_le_length)

lemma bit_read_fold:
  "n < 64 \<Longrightarrow> bit (foldl (\<lambda>w b. push_bit 8 w OR ucast b) (0 :: u64) (bs :: u8 list)) n
     = (n div 8 < length bs \<and> bit (rev bs ! (n div 8)) (n mod 8))"
proof (induction bs arbitrary: n rule: rev_induct)
  case (snoc b bs)
  show ?case
  proof (cases "n < 8")
    case False
    then obtain m where m: "n = m + 8" by (metis add.commute le_Suc_ex not_less)
    moreover have "(m + 8) div 8 = Suc (m div 8)" by simp
    ultimately show ?thesis using snoc by (simp add: bit_read_step del: div_add_self2)
  qed (simp add: bit_read_step)
qed simp

lemma bit_write64: "j < 8 \<Longrightarrow> bit (write64 w ! j) i = (i < 8 \<and> bit w (8 * (7 - j) + i))"
  by (auto simp: write64_def bit_unsigned_iff bit_drop_bit_eq simp del: upt_rec_numeral)

lemma read64_write64 [simp]: "read64 (write64 w) = w"
proof (rule bit_word_eqI)
  fix n assume "n < LENGTH(64)"
  then have n: "n < 64" by simp
  then have d: "n div 8 < 8" by (simp add: less_mult_imp_div_less)
  with n show "bit (read64 (write64 w)) n = bit w n"
    by (simp add: read64_def bit_read_fold rev_nth bit_write64)
qed

lemma write64_read64 [simp]: "length bs = 8 \<Longrightarrow> write64 (read64 bs) = bs"
proof (rule nth_equalityI)
  fix j assume "length bs = 8" "j < length (write64 (read64 bs))"
  then have j: "j < 8" "length bs = 8" by simp_all
  show "write64 (read64 bs) ! j = bs ! j"
  proof (rule bit_word_eqI)
    fix i assume "i < LENGTH(8)"
    then have i: "i < 8" by simp
    then have "(8 * (7 - j) + i) div 8 = 7 - j" "(8 * (7 - j) + i) mod 8 = i" "8 * (7 - j) + i < 64" using j by auto
    with i j show "bit (write64 (read64 bs) ! j) i = bit (bs ! j) i"
      by (simp add: bit_write64 read64_def bit_read_fold rev_nth)
  qed
qed simp

section \<open>Damaged streams\<close>

definition block_bytes :: "u64 \<times> u8 \<Rightarrow> u8 list" where
  "block_bytes w = write64 (fst w) @ [snd w]"

text \<open>A word as the flash returns it: the positions \<open>ps\<close> of data \<open>d\<close> and its check byte are flipped.\<close>

definition stored :: "u64 \<times> nat list \<Rightarrow> u64 \<times> u8" where
  "stored x = foldr flip (snd x) (fst x, generateECC (fst x))"

definition few_flips :: "u64 \<times> nat list \<Rightarrow> bool" where
  "few_flips x \<longleftrightarrow> distinct (snd x) \<and> set (snd x) \<subseteq> {..<72} \<and> length (snd x) \<le> 2"

definition repaired :: "u64 \<times> nat list \<Rightarrow> u64 \<times> u8" where
  "repaired x = (if length (snd x) = 2 then stored x else (fst x, generateECC (fst x)))"

definition flip_status :: "u64 \<times> nat list \<Rightarrow> eccStatus" where
  "flip_status x = (if length (snd x) = 2 then UNCORRECTABLE else if snd x = [] then CLEAN else CORRECTED)"

definition worst :: "eccStatus \<Rightarrow> eccStatus \<Rightarrow> eccStatus" where
  "worst a b = (if a = UNCORRECTABLE \<or> b = UNCORRECTABLE then UNCORRECTABLE
                else if a = CORRECTED \<or> b = CORRECTED then CORRECTED else CLEAN)"

fun error_list :: "nat \<Rightarrow> (u64 \<times> nat list) list \<Rightarrow> (nat \<times> eccStatus) list" where
  "error_list i [] = []"
| "error_list i (x # xs) = (if flip_status x = CLEAN then [] else [(i, flip_status x)]) @ error_list (i + 9) xs"

lemma length_block_bytes [simp]: "length (block_bytes w) = 9"
  by (simp add: block_bytes_def)

lemma correctECC_stored:
  assumes "few_flips x"
  shows "\<exists>badBit. correctECC (fst (stored x)) (snd (stored x)) = (badBit, repaired x)
    \<and> (badBit = GD \<longleftrightarrow> flip_status x = CLEAN) \<and> (badBit = UE \<longleftrightarrow> flip_status x = UNCORRECTABLE)"
proof -
  let ?w = "(fst x, generateECC (fst x))"
  have w: "syndrome ?w = 0" by (simp add: syndrome_def)
  consider "snd x = []" | p where "snd x = [p]" | p q where "snd x = [p, q]"
    using assms by (cases "snd x" rule: remdups_adj.cases) (auto simp: few_flips_def)
  then show ?thesis
  proof cases
    case 1
    then show ?thesis using correctECC_clean [OF w] by (simp add: stored_def repaired_def flip_status_def GD_def UE_def)
  next
    case (2 p)
    then have "p < 72" using assms by (simp add: few_flips_def)
    with 2 correctECC_single [OF w, of p] show ?thesis by (simp add: stored_def repaired_def flip_status_def GD_def UE_def)
  next
    case (3 p q)
    then have "p < 72" "q < 72" "p \<noteq> q" using assms by (auto simp: few_flips_def)
    with 3 correctECC_double [OF w, of p q] show ?thesis by (simp add: stored_def repaired_def flip_status_def GD_def UE_def)
  qed
qed

lemma repaired_same: "flip_status x \<noteq> CORRECTED \<Longrightarrow> repaired x = stored x"
  by (auto simp: flip_status_def repaired_def stored_def split: if_splits)

lemma remove_word_stored:
  assumes "few_flips x"
  shows "remove_word (length pre) (rc, pre @ block_bytes (stored x) @ post, dst, errs)
    = (worst rc (flip_status x), pre @ block_bytes (repaired x) @ post, dst @ write64 (fst (repaired x)),
       errs @ (if flip_status x = CLEAN then [] else [(length pre, flip_status x)]))"
proof -
  obtain b where b: "correctECC (fst (stored x)) (snd (stored x)) = (b, repaired x)"
    "b = GD \<longleftrightarrow> flip_status x = CLEAN" "b = UE \<longleftrightarrow> flip_status x = UNCORRECTABLE"
    using correctECC_stored [OF assms] by auto
  show ?thesis
    using b(2,3) repaired_same [of x]
    by (cases "flip_status x"; cases rc) (simp_all add: remove_word_def block_bytes_def nth_append b(1) worst_def case_prod_beta)
qed

lemma remove_from_stored:
  assumes "\<forall>x\<in>set xs. few_flips x"
  shows "remove_from (length pre) k (k + 8 * length xs) (rc, pre @ concat (map (block_bytes \<circ> stored) xs), dst, errs)
    = (foldl worst rc (map flip_status xs), pre @ concat (map (block_bytes \<circ> repaired) xs),
       dst @ concat (map (write64 \<circ> fst \<circ> repaired) xs), errs @ error_list (length pre) xs)"
  using assms
proof (induction xs arbitrary: pre k rc dst errs)
  case Nil
  then show ?case by (simp add: remove_from.simps)
next
  case (Cons x xs)
  let ?pre = "pre @ block_bytes (repaired x)"
  have "remove_from (length pre) k (k + 8 * length (x # xs)) (rc, pre @ concat (map (block_bytes \<circ> stored) (x # xs)), dst, errs)
    = remove_from (length ?pre) (k + 8) (k + 8 + 8 * length xs)
       (worst rc (flip_status x), ?pre @ concat (map (block_bytes \<circ> stored) xs), dst @ write64 (fst (repaired x)),
        errs @ (if flip_status x = CLEAN then [] else [(length pre, flip_status x)]))"
    using Cons.prems by (subst remove_from.simps) (simp add: remove_word_stored add.assoc)
  also have "\<dots> = (foldl worst (worst rc (flip_status x)) (map flip_status xs), ?pre @ concat (map (block_bytes \<circ> repaired) xs),
       (dst @ write64 (fst (repaired x))) @ concat (map (write64 \<circ> fst \<circ> repaired) xs),
       (errs @ (if flip_status x = CLEAN then [] else [(length pre, flip_status x)])) @ error_list (length ?pre) xs)"
    by (rule Cons.IH) (use Cons.prems in simp)
  finally show ?case by (simp add: comp_def)
qed

lemma worst_all:
  "foldl worst rc ss = (if rc = UNCORRECTABLE \<or> UNCORRECTABLE \<in> set ss then UNCORRECTABLE
     else if rc = CORRECTED \<or> CORRECTED \<in> set ss then CORRECTED else CLEAN)"
  by (induction ss arbitrary: rc) (use eccStatus.exhaust in \<open>auto simp: worst_def\<close>)

lemma inject_from_words:
  "inject_from (pre @ concat (map write64 ds)) (length pre) (length pre + 8 * length ds)
     = concat (map (\<lambda>d. block_bytes (d, generateECC d)) ds)"
proof (induction ds arbitrary: pre)
  case Nil
  then show ?case by (simp add: inject_from.simps)
next
  case (Cons d ds)
  from Cons [of "pre @ write64 d"] show ?case
    by (subst inject_from.simps) (simp add: block_bytes_def algebra_simps)
qed

lemma words_of_bytes: "length bs mod 8 = 0 \<Longrightarrow> \<exists>ds. bs = concat (map write64 ds) \<and> length bs = 8 * length ds"
proof (induction bs rule: length_induct)
  case (1 bs)
  show ?case
  proof (cases "bs = []")
    case False
    with 1(2) have "8 \<le> length bs" by (metis length_0_conv linorder_not_less mod_less)
    then have "length (drop 8 bs) < length bs" "length (drop 8 bs) mod 8 = 0"
      using 1(2) by (auto simp: le_mod_geq)
    from 1(1) [rule_format, OF this] obtain ds where ds: "drop 8 bs = concat (map write64 ds)" "length (drop 8 bs) = 8 * length ds" by (elim exE conjE)
    have "bs = concat (map write64 (read64 (take 8 bs) # ds))"
      using \<open>8 \<le> length bs\<close> ds(1) append_take_drop_id [of 8 bs] by simp
    moreover have "length bs = 8 * length (read64 (take 8 bs) # ds)" using \<open>8 \<le> length bs\<close> ds(2) by simp
    ultimately show ?thesis by blast
  qed simp
qed

section \<open>Properties\<close>

text \<open>C23. Every stored word with one flipped bit out of its 72 is repaired, every word with two flipped
  bits is reported as uncorrectable and left as it is, and this holds word by word along a stream: status,
  repaired source, destination and list of errors are exactly those of the flips.\<close>

theorem ecc_repairs_stream:
  assumes "\<forall>x\<in>set xs. few_flips x"
  shows "removeECC (concat (map (block_bytes \<circ> stored) xs)) (8 * length xs) =
    Inr (if UNCORRECTABLE \<in> set (map flip_status xs) then UNCORRECTABLE
         else if CORRECTED \<in> set (map flip_status xs) then CORRECTED else CLEAN,
         concat (map (block_bytes \<circ> repaired) xs), concat (map (write64 \<circ> fst \<circ> repaired) xs), error_list 0 xs)"
  using remove_from_stored [OF assms, of "[]" 0 CLEAN "[]" "[]"] by (simp add: removeECC_def worst_all)

theorem ecc_repairs_stream_witness:
  "removeECC (concat (map (block_bytes \<circ> stored) [(0x123456789, []), (77, [63]), (5, [70]), (9, [3, 40])])) 32 =
    Inr (UNCORRECTABLE,
      block_bytes (0x123456789, generateECC 0x123456789) @ block_bytes (77, generateECC 77)
        @ block_bytes (5, generateECC 5) @ block_bytes (stored (9, [3, 40])),
      write64 0x123456789 @ write64 77 @ write64 5 @ write64 (fst (stored (9, [3, 40]))),
      [(9, CORRECTED), (18, CORRECTED), (27, UNCORRECTABLE)])"
  using ecc_repairs_stream [of "[(0x123456789, []), (77, [63]), (5, [70]), (9, [3, 40])]"]
  by (simp add: few_flips_def flip_status_def repaired_def stored_def)

text \<open>C34. Whatever multiple of 8 bytes is given, adding the check bytes succeeds, gives the size that
  \<open>sizeWithEcc\<close> announces, and removing them again is clean and returns the same bytes.\<close>

theorem ecc_round_trip:
  assumes "length bs mod 8 = 0"
  shows "\<exists>s. injectECC bs (length bs) = Inr s \<and> sizeWithEcc (length bs) = Inr (length s)
    \<and> removeECC s (length bs) = Inr (CLEAN, s, bs, [])"
proof -
  obtain ds where ds: "bs = concat (map write64 ds)" "length bs = 8 * length ds" using words_of_bytes [OF assms] by blast
  let ?xs = "map (\<lambda>d. (d, [])) ds" and ?s = "concat (map (\<lambda>d. block_bytes (d, generateECC d)) ds)"
  have "injectECC bs (length bs) = Inr ?s"
    using inject_from_words [of "[]" ds] ds by (simp add: injectECC_def)
  moreover have "length ?s = 9 * length ds" by (simp add: length_concat comp_def sum_list_triv)
  moreover have "error_list i ?xs = []" for i by (induction ds arbitrary: i) (simp_all add: flip_status_def)
  moreover have "foldl worst CLEAN (map flip_status ?xs) = CLEAN" by (auto simp: worst_all flip_status_def)
  ultimately show ?thesis
    using remove_from_stored [of ?xs "[]" 0 CLEAN "[]" "[]"] ds
    by (simp add: removeECC_def sizeWithEcc_def few_flips_def comp_def stored_def repaired_def)
qed

theorem ecc_round_trip_witness:
  "\<exists>s. injectECC [1, 2, 3, 4, 5, 6, 7, 8] 8 = Inr s \<and> sizeWithEcc 8 = Inr (length s)
    \<and> removeECC s 8 = Inr (CLEAN, s, [1, 2, 3, 4, 5, 6, 7, 8], [])"
  using ecc_round_trip [of "[1, 2, 3, 4, 5, 6, 7, 8]"] by (simp add: eval_nat_numeral)

end
